(* ===== verification/Prelude_Go.thy ===== *)
theory Prelude_Go
  imports Complex_Main "HOL-Library.Word" "HOL-Library.AList" "HOL-Library.List_Lexorder"
    "HOL-Library.Char_ord" "HOL-Library.Product_Lexorder"
begin

text \<open>
  What the component theories share: the readings of Go's integers, maps, strings and
  times, the generic lemmas on association lists and sums that the accounting proofs use,
  and the two contracts (a system of steps with an invariant; a ledger whose total is the
  sum of its parts) that the stateful components instantiate.

  Readings. A Go string is the list of its bytes (\<open>string\<close>), so \<open>length\<close> is Go's \<open>len\<close>
  and the list order is Go's \<open><\<close> on strings. A Go map is an association list with distinct
  keys: \<open>map_of\<close> reads, \<open>AList.update\<close> stores, \<open>AList.delete\<close> removes, \<open>length\<close> is
  \<open>len\<close>; where the code ranges over a map, the model takes the order of the list, and the
  theorems hold for every list. A \<open>uint64\<close> is a \<open>64 word\<close>. A \<open>time.Time\<close> is the number
  of nanoseconds since Go's zero time, so \<open>IsZero\<close> is equality with 0.
\<close>

section \<open>Integers and times\<close>

type_synonym u64 = "64 word"
type_synonym u32 = "32 word"
type_synonym time = int
type_synonym duration = int

text \<open>\<open>Time.Sub\<close> saturates at the smallest and the largest \<open>Duration\<close>.\<close>

definition time_sub :: "time \<Rightarrow> time \<Rightarrow> duration" where
  "time_sub a b = max (- (2 ^ 63)) (min (2 ^ 63 - 1) (a - b))"

definition second :: duration where
  "second = 1000000000"

lemma time_sub_self [simp]: "time_sub t t = 0"
  by (simp add: time_sub_def)

lemma time_sub_mono: "a \<le> b \<Longrightarrow> time_sub a c \<le> time_sub b c"
  by (simp add: time_sub_def)

lemma time_sub_greater:
  "0 \<le> d \<Longrightarrow> d < 2 ^ 63 - 1 \<Longrightarrow> (d < time_sub a b) = (d < a - b)"
  by (auto simp: time_sub_def)

section \<open>Named collections\<close>

named_theorems go_map "rewriting of association lists read as Go maps"
named_theorems go_sum "sums over association lists under update and delete"

lemma ex_pair_snd: "snd p = a \<Longrightarrow> \<exists>x. p = (x, a)"
  by (cases p) simp

section \<open>Go maps as association lists\<close>

type_synonym ('k, 'v) gomap = "('k \<times> 'v) list"

abbreviation put :: "'k \<Rightarrow> 'v \<Rightarrow> ('k, 'v) gomap \<Rightarrow> ('k, 'v) gomap" where
  "put \<equiv> AList.update"

abbreviation del :: "'k \<Rightarrow> ('k, 'v) gomap \<Rightarrow> ('k, 'v) gomap" where
  "del \<equiv> AList.delete"

abbreviation keys_of :: "('k, 'v) gomap \<Rightarrow> 'k list" where
  "keys_of m \<equiv> map fst m"

text \<open>A read of a missing key yields the zero value.\<close>

definition get0 :: "('k, int) gomap \<Rightarrow> 'k \<Rightarrow> int" where
  "get0 m k = (case map_of m k of None \<Rightarrow> 0 | Some v \<Rightarrow> v)"

lemma map_of_put [simp, go_map]: "map_of (put k v m) = (map_of m)(k \<mapsto> v)"
  by (rule update_conv')

lemma map_of_del [simp, go_map]: "map_of (del k m) = (map_of m)(k := None)"
  by (rule delete_conv')

lemma keys_put [simp, go_map]:
  "set (keys_of (put k v m)) = insert k (set (keys_of m))"
  by (simp add: dom_update)

lemma keys_put_image [simp, go_map]: "fst ` set (put k v m) = insert k (fst ` set m)"
  by (simp add: dom_update)

lemma keys_del [simp, go_map]: "set (keys_of (del k m)) = set (keys_of m) - {k}"
  by (simp add: delete_keys)

lemma distinct_put [simp, intro]:
  "distinct (keys_of m) \<Longrightarrow> distinct (keys_of (put k v m))"
  by (rule distinct_update)

lemma distinct_del [simp, intro]:
  "distinct (keys_of m) \<Longrightarrow> distinct (keys_of (del k m))"
  by (rule distinct_delete)

lemma keys_map_of: "k \<in> set (keys_of m) \<longleftrightarrow> map_of m k \<noteq> None"
  by (simp add: map_of_eq_None_iff)

lemma put_new: "k \<notin> set (keys_of m) \<Longrightarrow> put k v m = m @ [(k, v)]"
  by (induction m) auto

lemma length_put: "length (put k v m) = (if k \<in> set (keys_of m) then length m else Suc (length m))"
  by (induction m) auto

lemma length_del:
  "distinct (keys_of m) \<Longrightarrow>
    length (del k m) = (if k \<in> set (keys_of m) then length m - 1 else length m)"
proof (induction m)
  case (Cons a m)
  then show ?case
    by (cases "m = []") (auto simp: neq_Nil_conv image_iff)
qed simp

lemma get0_put [simp, go_map]: "get0 (put k v m) k' = (if k' = k then v else get0 m k')"
  by (simp add: get0_def)

lemma get0_del [simp, go_map]: "get0 (del k m) k' = (if k' = k then 0 else get0 m k')"
  by (simp add: get0_def)

lemma get0_Nil [simp, go_map]: "get0 [] k = 0"
  by (simp add: get0_def)

subsection \<open>Sums over a map\<close>

definition msum :: "('v \<Rightarrow> int) \<Rightarrow> ('k, 'v) gomap \<Rightarrow> int" where
  "msum f m = sum_list (map (f \<circ> snd) m)"

definition part :: "('v \<Rightarrow> int) \<Rightarrow> 'v option \<Rightarrow> int" where
  "part f o' = (case o' of None \<Rightarrow> 0 | Some v \<Rightarrow> f v)"

lemma part_simps [simp]: "part f None = 0" "part f (Some v) = f v"
  by (simp_all add: part_def)

lemma msum_Nil [simp]: "msum f [] = 0"
  by (simp add: msum_def)

lemma msum_Cons [simp]: "msum f ((k, v) # m) = f v + msum f m"
  by (simp add: msum_def)

lemma msum_append [simp]: "msum f (m @ n) = msum f m + msum f n"
  by (simp add: msum_def)

lemma msum_del [go_sum]:
  "distinct (keys_of m) \<Longrightarrow> msum f (del k m) = msum f m - part f (map_of m k)"
  by (induction m) (auto simp: map_of_eq_None_iff)

lemma msum_put [go_sum]:
  "distinct (keys_of m) \<Longrightarrow> msum f (put k v m) = msum f m - part f (map_of m k) + f v"
  by (induction m) auto

lemma msum_nonneg: "(\<And>k v. (k, v) \<in> set m \<Longrightarrow> 0 \<le> f v) \<Longrightarrow> 0 \<le> msum f m"
proof (induction m)
  case (Cons a m)
  then have "0 \<le> msum f m" and "0 \<le> f (snd a)"
    by (auto, metis list.set_intros(1) prod.collapse)
  then show ?case by (cases a) simp
qed simp

lemma msum_part_le:
  assumes "\<And>k v. (k, v) \<in> set m \<Longrightarrow> 0 \<le> f v"
  shows "part f (map_of m k) \<le> msum f m"
  using assms
proof (induction m)
  case (Cons a m)
  then have "0 \<le> msum f m" by (auto intro: msum_nonneg)
  with Cons show ?case by (cases a) fastforce
qed simp

lemma msum_const_one: "msum (\<lambda>_. 1) m = int (length m)"
  by (induction m) auto

section \<open>Strings\<close>

text \<open>
  \<open>strings.Cut s sep\<close> for a one-byte separator: the text before and after its first
  occurrence, or the whole string when there is none.
\<close>

fun str_cut :: "string \<Rightarrow> char \<Rightarrow> string \<times> string \<times> bool" where
  "str_cut [] c = ([], [], False)"
| "str_cut (x # xs) c =
     (if x = c then ([], xs, True)
      else (case str_cut xs c of (a, b, found) \<Rightarrow> (x # a, b, found)))"

lemma str_cut_append: "c \<notin> set a \<Longrightarrow> str_cut (a @ c # b) c = (a, b, True)"
  by (induction a) auto

lemma str_cut_none: "c \<notin> set s \<Longrightarrow> str_cut s c = (s, [], False)"
  by (induction s) auto

lemma str_cut_found: "str_cut s c = (a, b, True) \<Longrightarrow> s = a @ c # b \<and> c \<notin> set a"
proof (induction s arbitrary: a)
  case (Cons x xs)
  then show ?case
    by (cases "x = c"; cases "str_cut xs c") auto
qed simp

lemma str_cut_missing: "str_cut s c = (a, b, False) \<Longrightarrow> a = s \<and> b = [] \<and> c \<notin> set s"
proof (induction s arbitrary: a)
  case (Cons x xs)
  then show ?case
    by (cases "x = c"; cases "str_cut xs c") auto
qed simp

lemma sep_inject:
  fixes c :: char
  shows "c \<notin> set a \<Longrightarrow> c \<notin> set a' \<Longrightarrow> (a @ c # b = a' @ c # b') = (a = a' \<and> b = b')"
proof (induction a arbitrary: a')
  case Nil
  then show ?case by (cases a') auto
next
  case (Cons x a)
  then show ?case by (cases a') auto
qed

text \<open>\<open>strings.Split s sep\<close> and \<open>strings.Join\<close> for a one-byte separator.\<close>

fun str_split :: "char \<Rightarrow> string \<Rightarrow> string list" where
  "str_split c [] = [[]]"
| "str_split c (x # xs) =
     (if x = c then [] # str_split c xs
      else (case str_split c xs of [] \<Rightarrow> [[x]] | p # ps \<Rightarrow> (x # p) # ps))"

fun str_join :: "char \<Rightarrow> string list \<Rightarrow> string" where
  "str_join c [] = []"
| "str_join c [p] = p"
| "str_join c (p # q # ps) = p @ c # str_join c (q # ps)"

lemma str_split_nonempty [simp]: "str_split c s \<noteq> []"
  by (cases s) (auto split: list.splits)

lemma str_split_clean: "c \<notin> set p \<Longrightarrow> str_split c p = [p]"
  by (induction p) auto

lemma str_split_append:
  "c \<notin> set p \<Longrightarrow> str_split c (p @ c # s) = p # str_split c s"
  by (induction p) auto

lemma str_split_join:
  "ps \<noteq> [] \<Longrightarrow> \<forall>p \<in> set ps. c \<notin> set p \<Longrightarrow> str_split c (str_join c ps) = ps"
  by (induction c ps rule: str_join.induct) (auto simp: str_split_clean str_split_append)

text \<open>\<open>strings.HasPrefix\<close> and \<open>strings.Contains\<close>.\<close>

definition has_prefix :: "string \<Rightarrow> string \<Rightarrow> bool" where
  "has_prefix s p = (take (length p) s = p)"

fun str_contains :: "string \<Rightarrow> string \<Rightarrow> bool" where
  "str_contains [] p = (p = [])"
| "str_contains (x # xs) p = (has_prefix (x # xs) p \<or> str_contains xs p)"

lemma has_prefix_iff: "has_prefix s p \<longleftrightarrow> (\<exists>t. s = p @ t)"
  unfolding has_prefix_def by (metis append_eq_conv_conj append_take_drop_id)

lemma str_contains_iff: "str_contains s p \<longleftrightarrow> (\<exists>a b. s = a @ p @ b)"
proof (induction s)
  case (Cons x xs)
  have "(\<exists>a b. x # xs = a @ p @ b) \<longleftrightarrow> (\<exists>b. x # xs = p @ b) \<or> (\<exists>a b. xs = a @ p @ b)"
    (is "?l = ?r")
  proof
    assume ?l
    then obtain a b where ab: "x # xs = a @ p @ b" by blast
    then show ?r by (cases a) auto
  next
    assume ?r
    then show ?l
    proof
      assume "\<exists>b. x # xs = p @ b"
      then have "\<exists>b. x # xs = [] @ p @ b" by simp
      then show ?l by blast
    next
      assume "\<exists>a b. xs = a @ p @ b"
      then obtain a b where "xs = a @ p @ b" by blast
      then have "x # xs = (x # a) @ p @ b" by simp
      then show ?l by blast
    qed
  qed
  with Cons show ?case by (simp add: has_prefix_iff)
qed auto

section \<open>Contracts\<close>

text \<open>
  A component is a state and a function that performs one operation. What the contract
  gives its clients is that the invariant holds after every run of operations, and at
  every point of it.
\<close>

locale step_system =
  fixes step :: "'op \<Rightarrow> 's \<Rightarrow> 's"
    and inv :: "'s \<Rightarrow> bool"
  assumes inv_step: "inv s \<Longrightarrow> inv (step op s)"
begin

lemma run_inv: "inv s \<Longrightarrow> inv (fold step ops s)"
  by (induction ops arbitrary: s) (auto intro: inv_step)

lemma prefix_inv: "inv s \<Longrightarrow> inv (fold step (take n ops) s)"
  by (rule run_inv)

end

text \<open>
  A ledger is a step system that keeps a running total beside the data it counts. Its
  provider promises that the total is the sum of the parts and never exceeds the cap;
  the clients get both for every run.
\<close>

locale ledger = step_system step inv
  for step :: "'op \<Rightarrow> 's \<Rightarrow> 's" and inv :: "'s \<Rightarrow> bool" +
  fixes total :: "'s \<Rightarrow> int"
    and parts :: "'s \<Rightarrow> int"
    and cap :: "'s \<Rightarrow> int"
  assumes books: "inv s \<Longrightarrow> total s = parts s"
    and within: "inv s \<Longrightarrow> 0 \<le> total s \<and> total s \<le> cap s"
    and cap_step: "cap (step op s) = cap s"
begin

lemma run_cap: "cap (fold step ops s) = cap s"
  by (induction ops arbitrary: s) (auto simp: cap_step)

lemma run_books: "inv s \<Longrightarrow> total (fold step ops s) = parts (fold step ops s)"
  by (rule books) (rule run_inv)

lemma run_within: "inv s \<Longrightarrow> 0 \<le> total (fold step ops s) \<and> total (fold step ops s) \<le> cap s"
  using within [OF run_inv] run_cap by metis

end

end
