(* ===== verification/Cluster_Id.thy ===== *)
theory Cluster_Id
  imports Prelude_Go
begin

text \<open>
  The canonical cluster identity of \<^verbatim>\<open>internal/clusterid/clusterid.go\<close>, accepted at every
  data boundary of the platform. The regular expression
  \<^verbatim>\<open>^[a-z0-9](?:[a-z0-9._-]{0,61}[a-z0-9])?$\<close> is written out as a predicate on the bytes.
\<close>

definition max_cluster_id :: nat where
  "max_cluster_id = 63"

definition is_lower_alnum :: "char \<Rightarrow> bool" where
  "is_lower_alnum c = ((CHR ''a'' \<le> c \<and> c \<le> CHR ''z'') \<or> (CHR ''0'' \<le> c \<and> c \<le> CHR ''9''))"

definition is_id_char :: "char \<Rightarrow> bool" where
  "is_id_char c = (is_lower_alnum c \<or> c = CHR ''.'' \<or> c = CHR ''_'' \<or> c = CHR ''-'')"

text \<open>One first character, then nothing or at most 61 middle characters and a last one.\<close>

definition valid_cluster_id :: "string \<Rightarrow> bool" where
  "valid_cluster_id s =
     (case s of
        [] \<Rightarrow> False
      | c # rest \<Rightarrow>
          is_lower_alnum c \<and>
          (rest = [] \<or>
           (length (butlast rest) \<le> 61 \<and> list_all is_id_char (butlast rest)
            \<and> is_lower_alnum (last rest))))"

lemma valid_cluster_id_chars:
  assumes "valid_cluster_id s" and "c \<in> set s"
  shows "is_id_char c"
proof (cases s)
  case (Cons x rest)
  show ?thesis
  proof (cases rest rule: rev_cases)
    case Nil
    with assms Cons show ?thesis by (auto simp: valid_cluster_id_def is_id_char_def)
  next
    case (snoc mid l)
    with assms Cons show ?thesis
      by (auto simp: valid_cluster_id_def is_id_char_def list_all_iff)
  qed
qed (use assms in \<open>simp add: valid_cluster_id_def\<close>)

lemma valid_cluster_id_length:
  "valid_cluster_id s \<Longrightarrow> 0 < length s \<and> length s \<le> max_cluster_id"
  by (cases s rule: list.exhaust) (auto simp: valid_cluster_id_def max_cluster_id_def)

text \<open>A valid identity never holds the separators that keys and subjects are built with.\<close>

lemma valid_cluster_id_no_separator:
  "valid_cluster_id s \<Longrightarrow> CHR 0x00 \<notin> set s \<and> CHR ''/'' \<notin> set s \<and> CHR '':'' \<notin> set s"
  using valid_cluster_id_chars [of s]
  by (fastforce simp: is_id_char_def is_lower_alnum_def)

end
