(* ===== verification/Wire_Protocol.thy ===== *)
theory Wire_Protocol
  imports Prelude_Go
begin

text \<open>
  The messages of the cluster-state protocol
  (\<^verbatim>\<open>internal/clusterstate/protocol/v1\<close>) that the registry, the agent and the API-side
  catalog exchange. A message is a \<open>record\<close> with the fields of the generated struct; a
  singular message field that may be absent is an \<open>option\<close>; the elements of a repeated
  message field are present (unmarshalling and cloning allocate every element).
  \<open>proto.Clone\<close> is the identity on these values. \<open>proto.Size\<close> belongs to the protobuf
  runtime and is a parameter of the development, a record \<open>proto_sizes\<close> of functions;
  \<open>sizes_ok\<close> states what the code relies on: sizes are not negative, and an embedded
  message is never larger than the message that holds it.
\<close>

section \<open>Resource kinds\<close>

definition protocol_version :: u32 where
  "protocol_version = 1"

abbreviation "KindNamespace \<equiv> ''Namespace''"
abbreviation "KindPod \<equiv> ''Pod''"
abbreviation "KindNode \<equiv> ''Node''"
abbreviation "KindDeployment \<equiv> ''Deployment''"
abbreviation "KindStatefulSet \<equiv> ''StatefulSet''"
abbreviation "KindDaemonSet \<equiv> ''DaemonSet''"
abbreviation "KindCronJob \<equiv> ''CronJob''"
abbreviation "KindReplicaSet \<equiv> ''ReplicaSet''"
abbreviation "KindEvent \<equiv> ''Event''"

section \<open>Agent to registry\<close>

record owner_ref =
  ow_uid :: string
  ow_kind :: string
  ow_name :: string
  ow_revision :: string

record container_status =
  cs_name :: string
  cs_ready :: bool
  cs_restarts :: int
  cs_state :: string
  cs_reason :: string
  cs_masked_message :: string
  cs_last_termination_reason :: string
  cs_last_exit_code :: int
  cs_last_finished_unix_ms :: int
  cs_image :: string
  cs_image_id :: string
  cs_started :: bool
  cs_liveness_probe :: bool
  cs_readiness_probe :: bool

record pod_projection =
  pp_phase :: string
  pp_reason :: string
  pp_created_unix_ms :: int
  pp_containers :: "container_status list"
  pp_node_name :: string
  pp_started_unix_ms :: int
  pp_deleted_unix_ms :: int
  pp_cpu_request_milli :: int
  pp_memory_request_bytes :: int
  pp_cpu_limit_milli :: int
  pp_has_cpu_limit :: bool
  pp_memory_limit_bytes :: int
  pp_has_memory_limit :: bool

record workload_projection =
  wp_desired :: int
  wp_ready :: int
  wp_available :: int
  wp_updated :: int
  wp_rollout_status :: string
  wp_rollout_reason :: string
  wp_images :: "string list"
  wp_created_unix_ms :: int

record node_projection =
  np_ready :: bool
  np_pressure :: bool
  np_unschedulable :: bool

record event_projection =
  ep_involved_uid :: string
  ep_reason :: string
  ep_masked_message :: string
  ep_type :: string
  ep_last_seen_unix_ms :: int
  ep_count :: int
  ep_involved_kind :: string
  ep_involved_name :: string

record resource =
  re_kind :: string
  re_uid :: string
  re_namespace :: string
  re_name :: string
  re_owners :: "owner_ref list"
  re_pod :: "pod_projection option"
  re_workload :: "workload_projection option"
  re_node :: "node_projection option"
  re_event :: "event_projection option"

record hello =
  he_cluster_id :: string
  he_protocol_version :: u32

record begin_snapshot =
  bs_epoch :: u64
  bs_base_seq :: u64

record delta =
  de_epoch :: u64
  de_seq :: u64
  de_resource :: "resource option"
  de_deleted :: bool

record heartbeat =
  hb_epoch :: u64
  hb_seq :: u64

text \<open>An answer is an \<open>Ack\<close> (epoch, applied sequence number, duplicate flag) or a \<open>Nack\<close>
  with its code; every \<open>Nack\<close> of the registry asks for a full resync.\<close>

datatype reply = Ack (ack_epoch: u64) (ack_seq: u64) (ack_duplicate: bool) | Nack (nack_code: string)

section \<open>Registry to API\<close>

record catalog_owner =
  co_uid :: string
  co_kind :: string
  co_name :: string

record catalog_resource =
  cr_kind :: string
  cr_uid :: string
  cr_namespace :: string
  cr_name :: string
  cr_owners :: "catalog_owner list"
  cr_node_name :: string

datatype catalog_action = Catalog_unspecified | Catalog_created | Catalog_updated | Catalog_deleted

record catalog_change =
  cc_epoch :: u64
  cc_seq :: u64
  cc_resource :: "catalog_resource option"
  cc_action :: catalog_action

datatype frame_type = Watch_unspecified | Watch_snapshot_begin | Watch_snapshot_chunk
  | Watch_snapshot_commit | Watch_delta | Watch_reset | Watch_heartbeat | Watch_expired

record watch_frame =
  wf_cluster_id :: string
  wf_epoch :: u64
  wf_seq :: u64
  wf_type :: frame_type
  wf_resources :: "catalog_resource list"
  wf_change :: "catalog_change option"
  wf_observed_unix_ms :: int

section \<open>Wire sizes\<close>

record proto_sizes =
  ps_resource :: "resource \<Rightarrow> int"
  ps_delta :: "delta \<Rightarrow> int"
  ps_change :: "catalog_change \<Rightarrow> int"
  ps_catalog :: "catalog_resource \<Rightarrow> int"
  ps_frame :: "watch_frame \<Rightarrow> int"

definition sizes_ok :: "proto_sizes \<Rightarrow> bool" where
  "sizes_ok P \<longleftrightarrow>
     (\<forall>x. 0 \<le> ps_resource P x) \<and> (\<forall>d. 0 \<le> ps_delta P d) \<and> (\<forall>c. 0 \<le> ps_change P c)
     \<and> (\<forall>x. 0 \<le> ps_catalog P x) \<and> (\<forall>f. 0 \<le> ps_frame P f)
     \<and> (\<forall>d x. de_resource d = Some x \<longrightarrow> ps_resource P x \<le> ps_delta P d)"

lemma sizes_ok_resource [dest]: "sizes_ok P \<Longrightarrow> 0 \<le> ps_resource P x"
  by (simp add: sizes_ok_def)

lemma sizes_ok_embed: "sizes_ok P \<Longrightarrow> de_resource d = Some x \<Longrightarrow> ps_resource P x \<le> ps_delta P d"
  by (simp add: sizes_ok_def)

text \<open>A concrete size function that meets the laws, for the witnesses: one byte per
  character of the identifying strings and a fixed header for each message.\<close>

definition demo_resource_size :: "resource \<Rightarrow> int" where
  "demo_resource_size x =
     8 + int (length (re_kind x) + length (re_uid x) + length (re_namespace x) + length (re_name x))"

definition demo_catalog_size :: "catalog_resource \<Rightarrow> int" where
  "demo_catalog_size x =
     8 + int (length (cr_kind x) + length (cr_uid x) + length (cr_namespace x) + length (cr_name x))"

definition demo_sizes :: proto_sizes where
  "demo_sizes =
     \<lparr>ps_resource = demo_resource_size,
      ps_delta = (\<lambda>d. 16 + (case de_resource d of None \<Rightarrow> 0 | Some x \<Rightarrow> demo_resource_size x)),
      ps_change = (\<lambda>c. 16 + (case cc_resource c of None \<Rightarrow> 0 | Some x \<Rightarrow> demo_catalog_size x)),
      ps_catalog = demo_catalog_size,
      ps_frame = (\<lambda>f. 32 + sum_list (map demo_catalog_size (wf_resources f)))\<rparr>"

lemma demo_sizes_ok: "sizes_ok demo_sizes"
  by (auto simp: sizes_ok_def demo_sizes_def demo_resource_size_def demo_catalog_size_def
      intro!: add_nonneg_nonneg sum_list_nonneg split: option.splits)

section \<open>Catalog projection\<close>

text \<open>The kinds the API keeps between frames, and the narrow projection of a resource.\<close>

definition persistent_catalog_kind :: "string \<Rightarrow> bool" where
  "persistent_catalog_kind k =
     (k = KindNamespace \<or> k = KindPod \<or> k = KindReplicaSet \<or> k = KindDeployment
      \<or> k = KindStatefulSet \<or> k = KindDaemonSet \<or> k = KindCronJob)"

definition catalog_resource_of :: "resource \<Rightarrow> catalog_resource" where
  "catalog_resource_of x =
     \<lparr>cr_kind = re_kind x, cr_uid = re_uid x, cr_namespace = re_namespace x, cr_name = re_name x,
      cr_owners = map (\<lambda>o'. \<lparr>co_uid = ow_uid o', co_kind = ow_kind o', co_name = ow_name o'\<rparr>)
        (re_owners x),
      cr_node_name = (if re_kind x = KindPod
         then (case re_pod x of None \<Rightarrow> [] | Some p \<Rightarrow> pp_node_name p) else [])\<rparr>"

end
