(* ===== verification/Go_Float.thy ===== *)
theory Go_Float
  imports Prelude_Go "HOL-Library.Log_Nat"
begin

text \<open>
  The \<open>float64\<close> arithmetic of the token buckets: a value is a rational number, and every
  operation of the code rounds its exact result to 53 significant bits, to nearest, ties to
  even. The buckets stay far from the subnormal and the overflow range, which the model
  leaves out together with NaN and the infinities.
\<close>

definition pow2 :: "int \<Rightarrow> rat" where
  "pow2 k = (if 0 \<le> k then 2 ^ nat k else 1 / 2 ^ nat (- k))"

text \<open>The exponent of the leading bit of a positive rational.\<close>

definition lead_exp :: "rat \<Rightarrow> int" where
  "lead_exp m =
     (case quotient_of m of (p, q) \<Rightarrow>
        let k = int (floorlog 2 (nat p)) - int (floorlog 2 (nat q)) in
        if pow2 k \<le> m then k else k - 1)"

definition round_even :: "rat \<Rightarrow> int" where
  "round_even y =
     (let f = \<lfloor>y\<rfloor>; d = y - of_int f in
      if d < 1 / 2 then f else if d > 1 / 2 then f + 1 else if even f then f else f + 1)"

definition fl64 :: "rat \<Rightarrow> rat" where
  "fl64 x =
     (if x = 0 then 0
      else let u = pow2 (lead_exp \<bar>x\<bar> - 52) in sgn x * of_int (round_even (\<bar>x\<bar> / u)) * u)"

lemma pow2_pos [simp]: "0 < pow2 k"
  by (simp add: pow2_def)

lemma round_even_nonneg: "0 \<le> y \<Longrightarrow> 0 \<le> round_even y"
  by (auto simp: round_even_def Let_def)

lemma fl64_zero [simp]: "fl64 0 = 0"
  by (simp add: fl64_def)

lemma fl64_nonneg: "0 \<le> x \<Longrightarrow> 0 \<le> fl64 x"
  by (auto simp: fl64_def Let_def sgn_if intro!: mult_nonneg_nonneg round_even_nonneg
      less_imp_le [OF pow2_pos] divide_nonneg_pos)

text \<open>Integers of at most 53 bits are exact; evaluation uses this before the general case.\<close>

lemma quotient_of_of_int: "quotient_of (of_int n) = (n, 1)"
  unfolding of_int_rat quotient_of_Fract by (simp add: normalize_def)

lemma lead_exp_int:
  assumes "0 < n" and "n < 2 ^ 53"
  shows "lead_exp (of_int n) \<le> 52"
proof -
  have "nat n < 2 ^ 53" using assms by simp
  then have "floorlog 2 (nat n) \<le> 53" by (rule floorlog_leI) simp_all
  moreover have "floorlog 2 (1 :: nat) = 1" by (simp add: floorlog_def)
  ultimately show ?thesis by (simp add: lead_exp_def Let_def)
qed

lemma fl64_int:
  assumes "\<bar>n\<bar> < 2 ^ 53"
  shows "fl64 (of_int n) = of_int n"
proof (cases "n = 0")
  case False
  let ?j = "lead_exp (of_int \<bar>n\<bar>) - 52"
  have "?j \<le> 0" using lead_exp_int [of "\<bar>n\<bar>"] assms False by simp
  moreover define k where "k = nat (- ?j)"
  ultimately have u: "pow2 ?j = 1 / 2 ^ k" by (auto simp: pow2_def)
  have "round_even (of_int \<bar>n\<bar> * 2 ^ k) = \<bar>n\<bar> * 2 ^ k"
  proof -
    have "(of_int \<bar>n\<bar> * 2 ^ k :: rat) = of_int (\<bar>n\<bar> * 2 ^ k)" by simp
    then show ?thesis unfolding round_even_def Let_def by (simp only: floor_of_int) simp
  qed
  then have "fl64 (of_int n) = sgn (of_int n) * of_int (\<bar>n\<bar> * 2 ^ k) * (1 / 2 ^ k)"
    using False u by (simp add: fl64_def Let_def del: of_int_abs flip: of_int_abs)
  then show ?thesis by (simp add: sgn_if)
qed simp

definition fl64_frac :: "int \<Rightarrow> int \<Rightarrow> rat" where
  "fl64_frac p q =
     (if q = 1 \<and> \<bar>p\<bar> < 2 ^ 53 then of_int p
      else let x = of_int p / of_int q; u = pow2 (lead_exp \<bar>x\<bar> - 52) in
        if p = 0 then 0 else sgn x * of_int (round_even (\<bar>x\<bar> / u)) * u)"

text \<open>Evaluation waits for the numerator, so that a term with variables is left as it is.\<close>

definition fl64_num :: "int \<Rightarrow> int \<Rightarrow> rat" where
  "fl64_num p q = fl64_frac p q"

lemma fl64_num_code [code]:
  "fl64_num 0 q = fl64_frac 0 q"
  "fl64_num (Int.Pos n) q = fl64_frac (Int.Pos n) q"
  "fl64_num (Int.Neg n) q = fl64_frac (Int.Neg n) q"
  by (simp_all add: fl64_num_def)

lemma fl64_code [code]: "fl64 x = (case quotient_of x of (p, q) \<Rightarrow> fl64_num p q)"
proof (cases "quotient_of x")
  case (Pair p q)
  then have "x = of_int p / of_int q" "0 < q" by (auto dest: quotient_of_div quotient_of_denom_pos)
  with Pair show ?thesis using fl64_int [of p] by (auto simp: fl64_def fl64_num_def fl64_frac_def Let_def)
qed

lemma fl64_one: "fl64 1 = 1"
  using fl64_int [of 1] by simp

text \<open>Go's \<open>/\<close> and \<open>%\<close> on signed integers truncate towards zero.\<close>

definition go_div :: "int \<Rightarrow> int \<Rightarrow> int" where
  "go_div a b = sgn a * sgn b * (\<bar>a\<bar> div \<bar>b\<bar>)"

definition go_mod :: "int \<Rightarrow> int \<Rightarrow> int" where
  "go_mod a b = a - b * go_div a b"

lemma go_div_nonneg: "0 \<le> a \<Longrightarrow> 0 < b \<Longrightarrow> go_div a b = a div b"
  by (cases "a = 0") (auto simp: go_div_def sgn_if)

lemma go_mod_nonneg: "0 \<le> a \<Longrightarrow> 0 < b \<Longrightarrow> go_mod a b = a mod b"
  by (simp add: go_mod_def go_div_nonneg minus_mult_div_eq_mod)

text \<open>\<open>Duration.Seconds\<close>.\<close>

definition go_seconds :: "duration \<Rightarrow> rat" where
  "go_seconds d =
     fl64 (fl64 (of_int (go_div d second)) + fl64 (of_int (go_mod d second) / 1000000000))"

lemma go_seconds_nonneg: "0 \<le> d \<Longrightarrow> 0 \<le> go_seconds d"
  by (auto simp: go_seconds_def go_div_nonneg go_mod_nonneg second_def intro!: fl64_nonneg
      add_nonneg_nonneg divide_nonneg_nonneg simp: pos_imp_zdiv_nonneg_iff)

end
