(* ===== verification/Registry.thy ===== *)
theory Registry
  imports Cluster_Id Wire_Protocol Go_Float
begin

text \<open>
  The cluster-state registry (\<^verbatim>\<open>internal/clusterstate/registry/registry.go\<close>): per cluster a
  session, a live snapshot, a staged snapshot with the deltas that race with it, and, across
  clusters, one counter of retained bytes and the bounded watch queues of the API replicas.

  Every exported method takes one lock per cluster and updates the shared counters by
  compare-and-swap, so a concurrent run is a sequence of the operations below. Each takes the
  registry and the reading of the clock and returns the new registry with its answer; an
  error of the code is its message. Clusters, resources and watchers are association lists.
\<close>

section \<open>Limits\<close>

record limits =
  l_max_clusters :: int
  l_max_resources :: int
  l_max_chunk_resources :: int
  l_max_message_bytes :: int
  l_max_state_bytes :: int
  l_max_total_state_bytes :: int
  l_max_labels :: int
  l_max_owners :: int
  l_max_containers :: int
  l_max_images :: int
  l_max_string_bytes :: int
  l_stale_ttl :: duration
  l_heartbeat_timeout :: duration
  l_ingress_frame_rate :: rat
  l_ingress_byte_rate :: rat
  l_ingress_frame_burst :: int
  l_ingress_byte_burst :: int
  l_watch_max_subscribers :: int
  l_watch_max_per_cluster :: int
  l_watch_queue_frames :: int
  l_watch_queue_bytes :: int
  l_watch_total_queue_bytes :: int
  l_allowed_clusters :: "string list"

definition default_limits :: limits where
  "default_limits =
     \<lparr>l_max_clusters = 64, l_max_resources = 100000, l_max_chunk_resources = 1000,
      l_max_message_bytes = 4 * 2 ^ 20, l_max_state_bytes = 256 * 2 ^ 20,
      l_max_total_state_bytes = 512 * 2 ^ 20, l_max_labels = 32, l_max_owners = 4,
      l_max_containers = 64, l_max_images = 64, l_max_string_bytes = 2048,
      l_stale_ttl = 300 * second, l_heartbeat_timeout = 45 * second,
      l_ingress_frame_rate = 1000, l_ingress_byte_rate = 16 * 2 ^ 20,
      l_ingress_frame_burst = 2000, l_ingress_byte_burst = 8 * 2 ^ 20,
      l_watch_max_subscribers = 16, l_watch_max_per_cluster = 8, l_watch_queue_frames = 256,
      l_watch_queue_bytes = 16 * 2 ^ 20, l_watch_total_queue_bytes = 64 * 2 ^ 20,
      l_allowed_clusters = []\<rparr>"

text \<open>The guard of \<open>New\<close>; a rate is a finite number here, so the tests for NaN and infinity
  have no counterpart.\<close>

definition limits_valid :: "limits \<Rightarrow> bool" where
  "limits_valid l \<longleftrightarrow>
     1 \<le> l_max_clusters l \<and> l_max_clusters l \<le> 64
     \<and> int (length (l_allowed_clusters l)) \<le> l_max_clusters l
     \<and> 1 \<le> l_max_resources l \<and> l_max_resources l \<le> 100000
     \<and> 1 \<le> l_max_chunk_resources l \<and> l_max_chunk_resources l \<le> 1000
     \<and> l_max_chunk_resources l \<le> l_max_resources l
     \<and> 1024 \<le> l_max_message_bytes l \<and> l_max_message_bytes l \<le> 4 * 2 ^ 20
     \<and> l_max_message_bytes l \<le> l_max_state_bytes l
     \<and> l_max_state_bytes l \<le> l_max_total_state_bytes l
     \<and> 0 \<le> l_max_labels l \<and> 0 \<le> l_max_owners l \<and> 0 \<le> l_max_containers l \<and> 0 \<le> l_max_images l
     \<and> 64 \<le> l_max_string_bytes l
     \<and> 0 < l_stale_ttl l \<and> l_stale_ttl l \<le> 24 * 3600 * second
     \<and> 0 < l_heartbeat_timeout l \<and> l_heartbeat_timeout l \<le> 3600 * second
     \<and> l_heartbeat_timeout l \<le> l_stale_ttl l
     \<and> 1 \<le> l_ingress_frame_rate l \<and> l_ingress_frame_rate l \<le> 100000
     \<and> 1024 \<le> l_ingress_byte_rate l \<and> l_ingress_byte_rate l \<le> 2 ^ 30
     \<and> 1 \<le> l_ingress_frame_burst l \<and> l_ingress_frame_burst l \<le> 100000
     \<and> l_max_message_bytes l \<le> l_ingress_byte_burst l \<and> l_ingress_byte_burst l \<le> 2 ^ 30
     \<and> 1 \<le> l_watch_max_subscribers l \<and> l_watch_max_subscribers l \<le> 256
     \<and> 1 \<le> l_watch_max_per_cluster l \<and> l_watch_max_per_cluster l \<le> l_watch_max_subscribers l
     \<and> 1 \<le> l_watch_queue_frames l \<and> l_watch_queue_frames l \<le> 4096
     \<and> 1024 \<le> l_watch_queue_bytes l \<and> l_watch_queue_bytes l \<le> l_watch_total_queue_bytes l"

section \<open>State\<close>

record snapshot =
  sn_epoch :: u64
  sn_seq :: u64
  sn_resources :: "(string, resource) gomap"
  sn_observed :: time
  sn_bytes :: int
  sn_sizes :: "(string, int) gomap option"

record cluster =
  cl_live :: "snapshot option"
  cl_staging :: "snapshot option"
  cl_pending :: "delta list"
  cl_pending_bytes :: int
  cl_connected :: bool
  cl_disconnected_at :: time
  cl_heartbeat_at :: time
  cl_generation :: u64
  cl_frame_tokens :: rat
  cl_byte_tokens :: rat
  cl_ingress_at :: time

definition new_cluster :: cluster where
  "new_cluster =
     \<lparr>cl_live = None, cl_staging = None, cl_pending = [], cl_pending_bytes = 0,
      cl_connected = False, cl_disconnected_at = 0, cl_heartbeat_at = 0, cl_generation = 0,
      cl_frame_tokens = 0, cl_byte_tokens = 0, cl_ingress_at = 0\<rparr>"

record watch_change =
  wc_cluster_id :: string
  wc_epoch :: u64
  wc_seq :: u64
  wc_change :: "catalog_change option"
  wc_reset :: bool
  wc_heartbeat :: bool
  wc_expired :: bool
  wc_observed :: time

text \<open>
  A watcher stays reachable through its subscription after it has left the registry's set:
  \<open>wa_open\<close> says that it is in the set and its channel is open. The channel holds pairs of a
  change and its accounted bytes, the oldest first.
\<close>

record watcher =
  wa_clusters :: "string list"
  wa_queue :: "(watch_change \<times> int) list"
  wa_bytes :: int
  wa_open :: bool

record registry =
  rg_limits :: limits
  rg_clusters :: "(string, cluster) gomap"
  rg_allowed :: "string list"
  rg_total_bytes :: int
  rg_watchers :: "(nat, watcher) gomap"
  rg_watch_queued :: int
  rg_next_watcher :: nat

fun allow_clusters :: "string list \<Rightarrow> string list \<Rightarrow> string + string list" where
  "allow_clusters acc [] = Inr acc"
| "allow_clusters acc (i # ids) =
     (if \<not> valid_cluster_id i then Inl ''invalid allowed cluster''
      else if i \<in> set acc then Inl ''duplicate allowed cluster''
      else allow_clusters (acc @ [i]) ids)"

definition new_registry :: "limits \<Rightarrow> string + registry" where
  "new_registry l0 =
     (let l = (if l_max_clusters l0 = 0 then default_limits else l0) in
      if \<not> limits_valid l then Inl ''invalid cluster-state registry limits''
      else case allow_clusters [] (l_allowed_clusters l) of
        Inl e \<Rightarrow> Inl e
      | Inr ids \<Rightarrow> Inr \<lparr>rg_limits = l, rg_clusters = [], rg_allowed = ids, rg_total_bytes = 0,
          rg_watchers = [], rg_watch_queued = 0, rg_next_watcher = 0\<rparr>)"

text \<open>An empty allow list allows every cluster.\<close>

definition cluster_allowed :: "registry \<Rightarrow> string \<Rightarrow> bool" where
  "cluster_allowed r i = (rg_allowed r = [] \<or> i \<in> set (rg_allowed r))"

abbreviation get_cluster :: "registry \<Rightarrow> string \<Rightarrow> cluster option" where
  "get_cluster r i \<equiv> map_of (rg_clusters r) i"

definition set_cluster :: "string \<Rightarrow> cluster \<Rightarrow> registry \<Rightarrow> registry" where
  "set_cluster i c r = r\<lparr>rg_clusters := put i c (rg_clusters r)\<rparr>"

definition resource_key :: "resource \<Rightarrow> string" where
  "resource_key x = re_kind x @ CHR 0x00 # re_uid x"

definition retained_bytes :: "cluster \<Rightarrow> int" where
  "retained_bytes c =
     cl_pending_bytes c
     + (case cl_live c of None \<Rightarrow> 0 | Some s \<Rightarrow> sn_bytes s)
     + (case cl_staging c of None \<Rightarrow> 0 | Some s \<Rightarrow> sn_bytes s)"

text \<open>\<open>reserveBytes\<close> on the counter: a release always succeeds, a reservation only within the
  global limit.\<close>

definition reserve_total :: "limits \<Rightarrow> int \<Rightarrow> int \<Rightarrow> int option" where
  "reserve_total L tot d =
     (if d \<le> 0 then Some (tot + d)
      else if tot + d > l_max_total_state_bytes L then None
      else Some (tot + d))"

text \<open>A call whose answer the code drops.\<close>

definition reserve_anyway :: "int \<Rightarrow> registry \<Rightarrow> registry" where
  "reserve_anyway d r =
     (case reserve_total (rg_limits r) (rg_total_bytes r) d of
        None \<Rightarrow> r
      | Some t \<Rightarrow> r\<lparr>rg_total_bytes := t\<rparr>)"

definition drop_staging :: "cluster \<Rightarrow> cluster" where
  "drop_staging c = c\<lparr>cl_staging := None, cl_pending := [], cl_pending_bytes := 0\<rparr>"

text \<open>Replace a cluster and move the counter by what it retains more or less than before.\<close>

definition settle_cluster :: "string \<Rightarrow> cluster \<Rightarrow> cluster \<Rightarrow> registry \<Rightarrow> registry" where
  "settle_cluster i old new r =
     set_cluster i new (reserve_anyway (retained_bytes new - retained_bytes old) r)"

section \<open>Validation of a resource\<close>

text \<open>
  \<open>strings.ToLower\<close>, as far as the ASCII bytes of its result go: ASCII letters are lowered,
  and the two other code points whose lower case is an ASCII letter are the Kelvin sign and
  the capital I with a dot. Every other byte is left alone; none of them becomes ASCII.
\<close>

definition lower_char :: "char \<Rightarrow> char" where
  "lower_char c =
     (if CHR ''A'' \<le> c \<and> c \<le> CHR ''Z'' then char_of (of_char c + 32 :: nat) else c)"

fun go_lower :: "string \<Rightarrow> string" where
  "go_lower [] = []"
| "go_lower (a # b # c # s) =
     (if a = CHR 0xE2 \<and> b = CHR 0x84 \<and> c = CHR 0xAA then CHR ''k'' # go_lower s
      else if a = CHR 0xC4 \<and> b = CHR 0xB0 then CHR ''i'' # go_lower (c # s)
      else lower_char a # go_lower (b # c # s))"
| "go_lower [a, b] =
     (if a = CHR 0xC4 \<and> b = CHR 0xB0 then [CHR ''i''] else [lower_char a, lower_char b])"
| "go_lower [a] = [lower_char a]"

definition contains_sensitive :: "string \<Rightarrow> bool" where
  "contains_sensitive s =
     (let t = go_lower s in
      list_ex (\<lambda>p. str_contains t p)
        [''bearer '', ''token='', ''password='', ''authorization:'', ''-----begin''])"

definition expected_projection_count :: "string \<Rightarrow> nat option" where
  "expected_projection_count k =
     (if k = KindNamespace \<or> k = KindReplicaSet then Some 0
      else if k = KindPod \<or> k = KindNode \<or> k = KindDeployment \<or> k = KindStatefulSet
           \<or> k = KindDaemonSet \<or> k = KindCronJob \<or> k = KindEvent then Some 1
      else None)"

definition container_limit_hit :: "limits \<Rightarrow> container_status \<Rightarrow> bool" where
  "container_limit_hit L c \<longleftrightarrow>
     length (cs_name c) > 253 \<or> length (cs_state c) > 32
     \<or> int (length (cs_reason c)) > l_max_string_bytes L
     \<or> int (length (cs_masked_message c)) > l_max_string_bytes L
     \<or> contains_sensitive (cs_masked_message c)
     \<or> int (length (cs_last_termination_reason c)) > l_max_string_bytes L
     \<or> int (length (cs_image c)) > l_max_string_bytes L
     \<or> int (length (cs_image_id c)) > l_max_string_bytes L
     \<or> cs_restarts c < 0"

definition validate_pod :: "limits \<Rightarrow> pod_projection \<Rightarrow> string option" where
  "validate_pod L p =
     (if int (length (pp_containers p)) > l_max_containers L then Some ''container_limit''
      else if length (pp_phase p) > 64 \<or> int (length (pp_reason p)) > l_max_string_bytes L
        then Some ''pod_limit''
      else if list_ex (container_limit_hit L) (pp_containers p) then Some ''container_limit''
      else None)"

definition validate_workload :: "limits \<Rightarrow> workload_projection \<Rightarrow> string option" where
  "validate_workload L w =
     (if int (length (wp_images w)) > l_max_images L then Some ''image_limit''
      else if int (length (wp_rollout_reason w)) > l_max_string_bytes L
           \<or> length (wp_rollout_status w) > 32 then Some ''workload_limit''
      else if list_ex (\<lambda>i. int (length i) > l_max_string_bytes L) (wp_images w)
        then Some ''image_limit''
      else None)"

definition validate_event :: "limits \<Rightarrow> event_projection \<Rightarrow> string option" where
  "validate_event L e =
     (if int (length (ep_masked_message e)) > l_max_string_bytes L
         \<or> contains_sensitive (ep_masked_message e) then Some ''event_limit''
      else if length (ep_involved_uid e) > 253 \<or> length (ep_involved_kind e) > 64
           \<or> length (ep_involved_name e) > 253
           \<or> int (length (ep_reason e)) > l_max_string_bytes L \<or> length (ep_type e) > 64
        then Some ''event_limit''
      else None)"

fun first_error :: "string option list \<Rightarrow> string option" where
  "first_error [] = None"
| "first_error (None # es) = first_error es"
| "first_error (Some e # es) = Some e"

definition owner_limit_hit :: "owner_ref \<Rightarrow> bool" where
  "owner_limit_hit o' \<longleftrightarrow>
     ow_uid o' = [] \<or> length (ow_uid o') > 253 \<or> length (ow_kind o') > 64 \<or> length (ow_name o') > 253"

definition projection_count :: "resource \<Rightarrow> nat" where
  "projection_count x =
     of_bool (re_pod x \<noteq> None) + of_bool (re_workload x \<noteq> None)
     + of_bool (re_node x \<noteq> None) + of_bool (re_event x \<noteq> None)"

text \<open>\<open>validate\<close>: \<open>None\<close> accepts. The tests run in the order of the code.\<close>

definition validate_resource :: "limits \<Rightarrow> resource \<Rightarrow> string option" where
  "validate_resource L x =
     first_error
       [if re_uid x = [] \<or> re_name x = [] \<or> length (re_uid x) > 253 \<or> length (re_name x) > 253
           \<or> length (re_namespace x) > 253 then Some ''invalid_identity'' else None,
        if int (length (re_owners x)) > l_max_owners L then Some ''metadata_limit'' else None,
        if list_ex owner_limit_hit (re_owners x) then Some ''owner_limit'' else None,
        if re_kind x = KindNamespace \<and> (re_namespace x \<noteq> [] \<or> re_owners x \<noteq> [])
          then Some ''namespace_identity'' else None,
        (case re_pod x of None \<Rightarrow> None | Some p \<Rightarrow> validate_pod L p),
        (case re_workload x of None \<Rightarrow> None | Some w \<Rightarrow> validate_workload L w),
        (case re_event x of None \<Rightarrow> None | Some e \<Rightarrow> validate_event L e),
        if expected_projection_count (re_kind x) = Some (projection_count x) then None
          else Some ''kind_projection_mismatch'']"

definition validate :: "limits \<Rightarrow> resource option \<Rightarrow> string option" where
  "validate L x' = (case x' of None \<Rightarrow> Some ''invalid_identity'' | Some x \<Rightarrow> validate_resource L x)"

section \<open>Watch feed\<close>

text \<open>
  One watcher's share of \<open>publish\<close>: bytes are reserved from the watcher's budget and from
  the budget of all queues before the change is offered to the channel; a watcher that
  does not fit leaves the set and its channel is closed.
\<close>

definition change_bytes :: "proto_sizes \<Rightarrow> watch_change \<Rightarrow> int" where
  "change_bytes P ch = 64 + (case wc_change ch of None \<Rightarrow> 0 | Some x \<Rightarrow> ps_change P x)"

definition offer :: "proto_sizes \<Rightarrow> limits \<Rightarrow> watch_change \<Rightarrow> watcher \<Rightarrow> int \<Rightarrow> watcher \<times> int" where
  "offer P L ch w queued =
     (if \<not> wa_open w \<or> wc_cluster_id ch \<notin> set (wa_clusters w) then (w, queued)
      else let size = change_bytes P ch in
        if wa_bytes w + size > l_watch_queue_bytes L \<or> queued + size > l_watch_total_queue_bytes L
        then (w\<lparr>wa_open := False\<rparr>, queued)
        else if int (length (wa_queue w)) < l_watch_queue_frames L
        then (w\<lparr>wa_queue := wa_queue w @ [(ch, size)], wa_bytes := wa_bytes w + size\<rparr>, queued + size)
        else (w\<lparr>wa_open := False\<rparr>, queued))"

fun offer_all :: "proto_sizes \<Rightarrow> limits \<Rightarrow> watch_change \<Rightarrow> (nat, watcher) gomap \<Rightarrow> int
    \<Rightarrow> (nat, watcher) gomap \<times> int" where
  "offer_all P L ch [] queued = ([], queued)"
| "offer_all P L ch ((n, w) # ws) queued =
     (case offer P L ch w queued of (w', q) \<Rightarrow>
        case offer_all P L ch ws q of (ws', q') \<Rightarrow> ((n, w') # ws', q'))"

definition publish :: "proto_sizes \<Rightarrow> watch_change \<Rightarrow> registry \<Rightarrow> registry" where
  "publish P ch r =
     (case offer_all P (rg_limits r) ch (rg_watchers r) (rg_watch_queued r) of
        (ws, q) \<Rightarrow> r\<lparr>rg_watchers := ws, rg_watch_queued := q\<rparr>)"

definition open_watchers :: "registry \<Rightarrow> watcher list" where
  "open_watchers r = filter wa_open (map snd (rg_watchers r))"

definition watchers_of :: "registry \<Rightarrow> string \<Rightarrow> watcher list" where
  "watchers_of r i = filter (\<lambda>w. i \<in> set (wa_clusters w)) (open_watchers r)"

fun check_watch_ids :: "registry \<Rightarrow> string list \<Rightarrow> string list \<Rightarrow> string option" where
  "check_watch_ids r seen [] = None"
| "check_watch_ids r seen (i # ids) =
     (if \<not> valid_cluster_id i then Some ''invalid_watch_cluster''
      else if \<not> cluster_allowed r i then Some ''unknown_cluster''
      else if i \<in> set seen then Some ''duplicate_watch_cluster''
      else check_watch_ids r (seen @ [i]) ids)"

definition subscribe :: "registry \<Rightarrow> string list \<Rightarrow> registry \<times> (string + nat)" where
  "subscribe r ids =
     (if length ids < 1 \<or> int (length ids) > l_max_clusters (rg_limits r)
      then (r, Inl ''invalid_watch'')
      else case check_watch_ids r [] ids of
        Some e \<Rightarrow> (r, Inl e)
      | None \<Rightarrow>
          if int (length (open_watchers r)) \<ge> l_watch_max_subscribers (rg_limits r)
          then (r, Inl ''watch_capacity'')
          else if list_ex (\<lambda>i. int (length (watchers_of r i)) \<ge> l_watch_max_per_cluster (rg_limits r)) ids
          then (r, Inl ''watch_cluster_capacity'')
          else (let n = rg_next_watcher r;
                    w = \<lparr>wa_clusters = ids, wa_queue = [], wa_bytes = 0, wa_open = True\<rparr>
                in (r\<lparr>rg_watchers := rg_watchers r @ [(n, w)], rg_next_watcher := Suc n\<rparr>, Inr n)))"

text \<open>A receive: an item, the end of a closed and drained channel, or no step (it blocks).\<close>

datatype next_result = Next_item watch_change | Next_closed | Next_blocked

definition next_change :: "registry \<Rightarrow> nat \<Rightarrow> registry \<times> next_result" where
  "next_change r n =
     (case map_of (rg_watchers r) n of
        None \<Rightarrow> (r, Next_closed)
      | Some w \<Rightarrow>
          (case wa_queue w of
             [] \<Rightarrow> (r, if wa_open w then Next_blocked else Next_closed)
           | (ch, b) # rest \<Rightarrow>
               (r\<lparr>rg_watchers := put n (w\<lparr>wa_queue := rest, wa_bytes := wa_bytes w - b\<rparr>) (rg_watchers r),
                  rg_watch_queued := rg_watch_queued r - b\<rparr>, Next_item ch)))"

text \<open>\<open>Close\<close> leaves the set, closes the channel and drains it; a second call does nothing.\<close>

definition close_subscription :: "registry \<Rightarrow> nat \<Rightarrow> registry" where
  "close_subscription r n =
     (case map_of (rg_watchers r) n of
        None \<Rightarrow> r
      | Some w \<Rightarrow> r\<lparr>rg_watchers := del n (rg_watchers r),
                   rg_watch_queued := rg_watch_queued r - sum_list (map snd (wa_queue w))\<rparr>)"

end
