(* ===== verification/Registry_Ops.thy ===== *)
theory Registry_Ops
  imports Registry
begin

text \<open>
  The state-changing methods of the registry: sessions, ingress, snapshots, deltas, the
  commit, pruning and the reads. The session number 0 stands for the unguarded variants
  (\<open>Begin\<close>, \<open>Chunk\<close>, \<open>Delta\<close>, \<open>Commit\<close>), as in the code.
\<close>

section \<open>Sessions\<close>

definition open_session :: "registry \<Rightarrow> hello option \<Rightarrow> string \<Rightarrow> time \<Rightarrow> registry \<times> (string + u64)" where
  "open_session r h' authenticated now =
     (case h' of
        None \<Rightarrow> (r, Inl ''invalid_hello'')
      | Some h \<Rightarrow>
          let i = he_cluster_id h in
          if he_protocol_version h \<noteq> protocol_version then (r, Inl ''protocol_version'')
          else if \<not> valid_cluster_id i \<or> i \<noteq> authenticated then (r, Inl ''identity_mismatch'')
          else if \<not> cluster_allowed r i then (r, Inl ''unknown_cluster'')
          else if get_cluster r i = None
               \<and> int (length (rg_clusters r)) \<ge> l_max_clusters (rg_limits r)
            then (r, Inl ''cluster_capacity'')
          else let c = (case get_cluster r i of None \<Rightarrow> new_cluster | Some c \<Rightarrow> c);
                   c' = (drop_staging c)\<lparr>cl_generation := cl_generation c + 1, cl_connected := True,
                          cl_disconnected_at := 0, cl_heartbeat_at := now\<rparr>
            in (settle_cluster i c c' r, Inr (cl_generation c')))"

definition session_valid :: "registry \<Rightarrow> string \<Rightarrow> u64 \<Rightarrow> bool" where
  "session_valid r i g =
     (case get_cluster r i of None \<Rightarrow> False | Some c \<Rightarrow> cl_connected c \<and> cl_generation c = g)"

text \<open>The guard of every method that takes a session number.\<close>

definition preempted :: "cluster \<Rightarrow> u64 \<Rightarrow> bool" where
  "preempted c g = (g \<noteq> 0 \<and> (\<not> cl_connected c \<or> cl_generation c \<noteq> g))"

definition hang_up :: "time \<Rightarrow> cluster \<Rightarrow> cluster" where
  "hang_up now c = (drop_staging c)\<lparr>cl_connected := False, cl_disconnected_at := now\<rparr>"

definition disconnect :: "registry \<Rightarrow> string \<Rightarrow> time \<Rightarrow> registry" where
  "disconnect r i now =
     (case get_cluster r i of None \<Rightarrow> r | Some c \<Rightarrow> settle_cluster i c (hang_up now c) r)"

definition disconnect_session :: "registry \<Rightarrow> string \<Rightarrow> u64 \<Rightarrow> time \<Rightarrow> registry" where
  "disconnect_session r i g now =
     (case get_cluster r i of
        None \<Rightarrow> r
      | Some c \<Rightarrow> if cl_generation c = g then settle_cluster i c (hang_up now c) r else r)"

definition heartbeat_op :: "proto_sizes \<Rightarrow> registry \<Rightarrow> string \<Rightarrow> u64 \<Rightarrow> heartbeat option \<Rightarrow> time
    \<Rightarrow> registry \<times> reply" where
  "heartbeat_op P r i g h' now =
     (case h' of
        None \<Rightarrow> (r, Nack ''invalid_heartbeat'')
      | Some h \<Rightarrow>
         (case get_cluster r i of
            None \<Rightarrow> (r, Nack ''unknown_cluster'')
          | Some c \<Rightarrow>
             if \<not> cl_connected c \<or> cl_generation c \<noteq> g then (r, Nack ''session_preempted'')
             else (case cl_live c of
                None \<Rightarrow> (r, Nack ''snapshot_required'')
              | Some s \<Rightarrow>
                  if hb_epoch h \<noteq> sn_epoch s \<or> hb_seq h \<noteq> sn_seq s
                  then (r, Nack ''heartbeat_state_mismatch'')
                  else let observed = (if now < sn_observed s then sn_observed s else now);
                           r' = set_cluster i (c\<lparr>cl_heartbeat_at := now\<rparr>) r
                    in (publish P \<lparr>wc_cluster_id = i, wc_epoch = hb_epoch h, wc_seq = hb_seq h,
                          wc_change = None, wc_reset = False, wc_heartbeat = True,
                          wc_expired = False, wc_observed = observed\<rparr> r',
                        Ack (hb_epoch h) (hb_seq h) False))))"

section \<open>Ingress\<close>

text \<open>
  The token buckets of one cluster: a frame token and a byte token bucket, filled at their
  rates up to their bursts and charged one frame and its bytes.
\<close>

definition refill :: "rat \<Rightarrow> rat \<Rightarrow> rat \<Rightarrow> int \<Rightarrow> rat" where
  "refill tokens seconds rate burst = min (of_int burst) (fl64 (tokens + fl64 (seconds * rate)))"

definition charge_ingress :: "limits \<Rightarrow> cluster \<Rightarrow> int \<Rightarrow> time \<Rightarrow> cluster \<times> bool" where
  "charge_ingress L c bytes now =
     (let fresh = (cl_ingress_at c = 0);
          secs = go_seconds (time_sub now (cl_ingress_at c));
          ft = (if fresh then of_int (l_ingress_frame_burst L)
                else refill (cl_frame_tokens c) secs (l_ingress_frame_rate L) (l_ingress_frame_burst L));
          bt = (if fresh then of_int (l_ingress_byte_burst L)
                else refill (cl_byte_tokens c) secs (l_ingress_byte_rate L) (l_ingress_byte_burst L));
          c' = c\<lparr>cl_ingress_at := now\<rparr>
      in if ft < 1 \<or> bt < of_int bytes
         then (c'\<lparr>cl_frame_tokens := ft, cl_byte_tokens := bt\<rparr>, False)
         else (c'\<lparr>cl_frame_tokens := fl64 (ft - 1), cl_byte_tokens := fl64 (bt - of_int bytes)\<rparr>, True))"

definition consume_ingress :: "registry \<Rightarrow> string \<Rightarrow> u64 \<Rightarrow> int \<Rightarrow> time \<Rightarrow> registry \<times> bool" where
  "consume_ingress r i g bytes now =
     (if bytes < 1 \<or> bytes > l_max_message_bytes (rg_limits r) then (r, False)
      else case get_cluster r i of
        None \<Rightarrow> (r, False)
      | Some c \<Rightarrow>
          if preempted c g then (r, False)
          else (case charge_ingress (rg_limits r) c bytes now of
                  (c', ok) \<Rightarrow> (set_cluster i c' r, ok)))"

section \<open>Snapshots\<close>

definition empty_snapshot :: "u64 \<Rightarrow> u64 \<Rightarrow> snapshot" where
  "empty_snapshot e s =
     \<lparr>sn_epoch = e, sn_seq = s, sn_resources = [], sn_observed = 0, sn_bytes = 0, sn_sizes = Some []\<rparr>"

definition begin_op :: "registry \<Rightarrow> string \<Rightarrow> u64 \<Rightarrow> begin_snapshot option \<Rightarrow> registry \<times> string option" where
  "begin_op r i g b' =
     (case b' of
        None \<Rightarrow> (r, Some ''invalid_snapshot'')
      | Some b \<Rightarrow>
         (case get_cluster r i of
            None \<Rightarrow> (r, Some ''unknown_cluster'')
          | Some c \<Rightarrow>
             if preempted c g then (r, Some ''session_preempted'')
             else if bs_epoch b = 0 then (r, Some ''invalid_epoch'')
             else let c' = (drop_staging c)\<lparr>cl_staging := Some (empty_snapshot (bs_epoch b) (bs_base_seq b))\<rparr>
               in (settle_cluster i c c' r, None)))"

definition size_at :: "snapshot \<Rightarrow> string \<Rightarrow> int" where
  "size_at s k = (case sn_sizes s of None \<Rightarrow> 0 | Some m \<Rightarrow> get0 m k)"

definition store_resource :: "proto_sizes \<Rightarrow> resource \<Rightarrow> snapshot \<Rightarrow> snapshot" where
  "store_resource P x s =
     (let k = resource_key x; sz = ps_resource P x in
      s\<lparr>sn_resources := put k x (sn_resources s),
        sn_sizes := map_option (put k sz) (sn_sizes s),
        sn_bytes := sn_bytes s - size_at s k + sz\<rparr>)"

text \<open>
  The loop of \<open>chunk\<close> over the counter and the staged snapshot. What was stored before an
  error stays stored.
\<close>

fun chunk_loop :: "proto_sizes \<Rightarrow> limits \<Rightarrow> int \<Rightarrow> snapshot \<Rightarrow> resource list
    \<Rightarrow> int \<times> snapshot \<times> string option" where
  "chunk_loop P L tot s [] = (tot, s, None)"
| "chunk_loop P L tot s (x # xs) =
     (case validate_resource L x of
        Some e \<Rightarrow> (tot, s, Some e)
      | None \<Rightarrow>
         (let k = resource_key x; sz = ps_resource P x;
              next = sn_bytes s - size_at s k + sz in
          if map_of (sn_resources s) k = None \<and> int (length (sn_resources s)) \<ge> l_max_resources L
          then (tot, s, Some ''resource_capacity'')
          else if sz > l_max_message_bytes L \<or> next > l_max_state_bytes L
          then (tot, s, Some ''state_byte_capacity'')
          else (case reserve_total L tot (next - sn_bytes s) of
                  None \<Rightarrow> (tot, s, Some ''global_state_byte_capacity'')
                | Some tot' \<Rightarrow> chunk_loop P L tot' (store_resource P x s) xs)))"

definition chunk_op :: "proto_sizes \<Rightarrow> registry \<Rightarrow> string \<Rightarrow> u64 \<Rightarrow> resource list option
    \<Rightarrow> registry \<times> string option" where
  "chunk_op P r i g ch' =
     (case ch' of
        None \<Rightarrow> (r, Some ''invalid_chunk'')
      | Some xs \<Rightarrow>
         (case get_cluster r i of
            None \<Rightarrow> (r, Some ''unknown_cluster'')
          | Some c \<Rightarrow>
             if preempted c g then (r, Some ''session_preempted'')
             else (case cl_staging c of
                None \<Rightarrow> (r, Some ''snapshot_not_started'')
              | Some s \<Rightarrow>
                  if int (length xs) > l_max_chunk_resources (rg_limits r)
                  then (r, Some ''chunk_limit'')
                  else (case chunk_loop P (rg_limits r) (rg_total_bytes r) s xs of
                     (tot, s', e) \<Rightarrow>
                       ((set_cluster i (c\<lparr>cl_staging := Some s'\<rparr>) r)\<lparr>rg_total_bytes := tot\<rparr>, e)))))"

section \<open>Deltas and the commit\<close>

text \<open>
  \<open>apply\<close>: \<open>None\<close> is the answer false. A snapshot whose size table is missing gets one first.
\<close>

definition with_sizes :: "proto_sizes \<Rightarrow> snapshot \<Rightarrow> snapshot" where
  "with_sizes P s =
     (case sn_sizes s of
        Some _ \<Rightarrow> s
      | None \<Rightarrow> s\<lparr>sn_sizes := Some (map (\<lambda>(k, x). (k, ps_resource P x)) (sn_resources s)),
                 sn_bytes := sn_bytes s + msum (ps_resource P) (sn_resources s)\<rparr>)"

definition remove_resource :: "resource \<Rightarrow> snapshot \<Rightarrow> snapshot" where
  "remove_resource x s =
     (let k = resource_key x in
      s\<lparr>sn_bytes := sn_bytes s - size_at s k,
        sn_sizes := map_option (del k) (sn_sizes s),
        sn_resources := del k (sn_resources s)\<rparr>)"

definition stamp :: "delta \<Rightarrow> snapshot \<Rightarrow> snapshot" where
  "stamp d s = s\<lparr>sn_epoch := de_epoch d, sn_seq := de_seq d\<rparr>"

definition apply_delta :: "proto_sizes \<Rightarrow> limits \<Rightarrow> snapshot \<Rightarrow> delta \<Rightarrow> resource \<Rightarrow> snapshot option" where
  "apply_delta P L s0 d x =
     (let s = with_sizes P s0 in
      if de_deleted d then Some (stamp d (remove_resource x s))
      else let sz = ps_resource P x; next = sn_bytes s - size_at s (resource_key x) + sz in
        if sz > l_max_message_bytes L \<or> next > l_max_state_bytes L then None
        else Some (stamp d (store_resource P x s)))"

definition stage_delta :: "proto_sizes \<Rightarrow> registry \<Rightarrow> string \<Rightarrow> cluster \<Rightarrow> snapshot \<Rightarrow> delta
    \<Rightarrow> registry \<times> reply" where
  "stage_delta P r i c s d =
     (let L = rg_limits r; sz = ps_delta P d in
      if int (length (cl_pending c)) \<ge> l_max_chunk_resources L then (r, Nack ''pending_capacity'')
      else if sn_bytes s + cl_pending_bytes c + sz > l_max_state_bytes L
      then (r, Nack ''pending_byte_capacity'')
      else (case reserve_total L (rg_total_bytes r) sz of
              None \<Rightarrow> (r, Nack ''global_state_byte_capacity'')
            | Some tot \<Rightarrow>
                ((set_cluster i (c\<lparr>cl_pending := cl_pending c @ [d],
                                   cl_pending_bytes := cl_pending_bytes c + sz\<rparr>) r)
                   \<lparr>rg_total_bytes := tot\<rparr>,
                 Ack (de_epoch d) (de_seq d) False)))"

definition delta_change :: "string \<Rightarrow> delta \<Rightarrow> resource \<Rightarrow> bool \<Rightarrow> time \<Rightarrow> watch_change" where
  "delta_change i d x existed observed =
     \<lparr>wc_cluster_id = i, wc_epoch = de_epoch d, wc_seq = de_seq d,
      wc_change = Some \<lparr>cc_epoch = de_epoch d, cc_seq = de_seq d,
        cc_resource = Some (catalog_resource_of x),
        cc_action = (if de_deleted d then Catalog_deleted
                     else if existed then Catalog_updated else Catalog_created)\<rparr>,
      wc_reset = False, wc_heartbeat = False, wc_expired = False, wc_observed = observed\<rparr>"

text \<open>
  The last part of \<open>delta\<close>: the bytes a delta adds are reserved before it is applied, the
  bytes it frees are released after.
\<close>

definition live_delta :: "proto_sizes \<Rightarrow> registry \<Rightarrow> string \<Rightarrow> cluster \<Rightarrow> snapshot \<Rightarrow> delta \<Rightarrow> resource
    \<Rightarrow> time \<Rightarrow> registry \<times> reply" where
  "live_delta P r i c cur d x now =
     (let L = rg_limits r;
          existed = (map_of (sn_resources cur) (resource_key x) \<noteq> None);
          byte_delta = (if de_deleted d then 0 else ps_resource P x) - size_at cur (resource_key x)
      in case (if byte_delta > 0 then reserve_total L (rg_total_bytes r) byte_delta
               else Some (rg_total_bytes r)) of
           None \<Rightarrow> (r, Nack ''global_state_byte_capacity'')
         | Some tot \<Rightarrow>
            (case apply_delta P L cur d x of
               None \<Rightarrow> (r, Nack ''state_byte_capacity'')
             | Some cur' \<Rightarrow>
                 let tot' = (if byte_delta < 0 then tot + byte_delta else tot);
                     new = cur'\<lparr>sn_observed := now\<rparr>;
                     r' = (set_cluster i (c\<lparr>cl_live := Some new\<rparr>) r)\<lparr>rg_total_bytes := tot'\<rparr>
                 in (publish P (delta_change i d x existed now) r',
                     Ack (sn_epoch new) (sn_seq new) False)))"

definition delta_op :: "proto_sizes \<Rightarrow> registry \<Rightarrow> string \<Rightarrow> u64 \<Rightarrow> delta option \<Rightarrow> time
    \<Rightarrow> registry \<times> reply" where
  "delta_op P r i g d' now =
     (case d' of
        None \<Rightarrow> (r, Nack ''invalid_delta'')
      | Some d \<Rightarrow>
         (case get_cluster r i of
            None \<Rightarrow> (r, Nack ''unknown_cluster'')
          | Some c \<Rightarrow>
             if preempted c g then (r, Nack ''session_preempted'')
             else (case (de_resource d, validate (rg_limits r) (de_resource d)) of
                (None, _) \<Rightarrow> (r, Nack ''invalid_resource'')
              | (Some x, Some _) \<Rightarrow> (r, Nack ''invalid_resource'')
              | (Some x, None) \<Rightarrow>
                 if cl_live c = None \<and> cl_staging c = None then (r, Nack ''snapshot_required'')
                 else let applied = (case cl_live c of None \<Rightarrow> 0 | Some s \<Rightarrow> sn_seq s) in
                   if (case cl_live c of None \<Rightarrow> False | Some s \<Rightarrow> de_epoch d \<noteq> sn_epoch s)
                      \<and> cl_staging c = None
                   then (r, Nack ''epoch_mismatch'')
                   else if de_seq d \<le> applied then (r, Ack (de_epoch d) applied True)
                   else if de_seq d \<noteq> applied + 1 \<and> cl_staging c = None
                   then (r, Nack ''sequence_gap'')
                   else (case (cl_staging c, cl_live c) of
                      (Some s, _) \<Rightarrow> stage_delta P r i c s d
                    | (None, Some cur) \<Rightarrow> live_delta P r i c cur d x now
                    | (None, None) \<Rightarrow> (r, Nack ''snapshot_required'')))))"

text \<open>
  The replay of the pending deltas onto the staged snapshot. A pending delta always holds a
  resource, since \<open>validate\<close> accepted it; the branch without one is never taken.
\<close>

fun replay :: "proto_sizes \<Rightarrow> limits \<Rightarrow> u64 \<Rightarrow> snapshot \<Rightarrow> delta list \<Rightarrow> string + snapshot" where
  "replay P L epoch s [] = Inr s"
| "replay P L epoch s (d # ds) =
     (if de_epoch d \<noteq> epoch \<or> de_seq d \<le> sn_seq s then replay P L epoch s ds
      else if de_seq d \<noteq> sn_seq s + 1 then Inl ''sequence_gap''
      else (case de_resource d of
              None \<Rightarrow> Inl ''state_byte_capacity''
            | Some x \<Rightarrow>
               (case apply_delta P L s d x of
                  None \<Rightarrow> Inl ''state_byte_capacity''
                | Some s' \<Rightarrow> replay P L epoch s' ds)))"

definition commit_op :: "proto_sizes \<Rightarrow> registry \<Rightarrow> string \<Rightarrow> u64 \<Rightarrow> u64 option \<Rightarrow> time
    \<Rightarrow> registry \<times> reply" where
  "commit_op P r i g x' now =
     (case x' of
        None \<Rightarrow> (r, Nack ''invalid_commit'')
      | Some epoch \<Rightarrow>
         (case get_cluster r i of
            None \<Rightarrow> (r, Nack ''unknown_cluster'')
          | Some c \<Rightarrow>
             if preempted c g then (r, Nack ''session_preempted'')
             else (case cl_staging c of
                None \<Rightarrow> (r, Nack ''snapshot_mismatch'')
              | Some s \<Rightarrow>
                 if sn_epoch s \<noteq> epoch then (r, Nack ''snapshot_mismatch'')
                 else (case replay P (rg_limits r) epoch s (cl_pending c) of
                    Inl e \<Rightarrow> (settle_cluster i c (drop_staging c) r, Nack e)
                  | Inr s1 \<Rightarrow>
                     let s2 = s1\<lparr>sn_observed := now\<rparr> in
                     if (case cl_live c of None \<Rightarrow> False | Some l \<Rightarrow> sn_epoch s2 \<le> sn_epoch l)
                     then (settle_cluster i c (drop_staging c) r, Nack ''epoch_rollback'')
                     else let c' = (drop_staging c)\<lparr>cl_live := Some s2\<rparr> in
                       (publish P \<lparr>wc_cluster_id = i, wc_epoch = sn_epoch s2, wc_seq = sn_seq s2,
                          wc_change = None, wc_reset = True, wc_heartbeat = False,
                          wc_expired = False, wc_observed = sn_observed s2\<rparr>
                          (settle_cluster i c c' r),
                        Ack epoch (sn_seq s2) False)))))"

section \<open>Staleness, pruning and reads\<close>

definition prune_due :: "limits \<Rightarrow> cluster \<Rightarrow> time \<Rightarrow> bool" where
  "prune_due L c now =
     (let stale_since =
        (if cl_connected c \<and> time_sub now (cl_heartbeat_at c) > l_heartbeat_timeout L
         then cl_heartbeat_at c + l_heartbeat_timeout L else cl_disconnected_at c)
      in cl_live c \<noteq> None \<and> stale_since \<noteq> 0 \<and> time_sub now stale_since > l_stale_ttl L)"

definition prune_cluster :: "proto_sizes \<Rightarrow> time \<Rightarrow> string \<Rightarrow> registry \<times> nat \<Rightarrow> registry \<times> nat" where
  "prune_cluster P now i rn =
     (case rn of (r, pruned) \<Rightarrow>
       (case get_cluster r i of
          None \<Rightarrow> (r, pruned)
        | Some c \<Rightarrow>
           if prune_due (rg_limits r) c now
           then (publish P \<lparr>wc_cluster_id = i, wc_epoch = 0, wc_seq = 0, wc_change = None,
                   wc_reset = False, wc_heartbeat = False, wc_expired = True, wc_observed = now\<rparr>
                   (settle_cluster i c (c\<lparr>cl_live := None\<rparr>) r), Suc pruned)
           else (r, pruned)))"

definition prune_expired :: "proto_sizes \<Rightarrow> registry \<Rightarrow> time \<Rightarrow> registry \<times> nat" where
  "prune_expired P r now = fold (prune_cluster P now) (keys_of (rg_clusters r)) (r, 0)"

text \<open>The three clock readings of a read are one value here.\<close>

definition is_stale :: "limits \<Rightarrow> cluster \<Rightarrow> time \<Rightarrow> bool" where
  "is_stale L c now = (\<not> cl_connected c \<or> time_sub now (cl_heartbeat_at c) > l_heartbeat_timeout L)"

definition stale_start :: "limits \<Rightarrow> cluster \<Rightarrow> time" where
  "stale_start L c =
     (if cl_connected c then cl_heartbeat_at c + l_heartbeat_timeout L else cl_disconnected_at c)"

definition read_snapshot :: "registry \<Rightarrow> string \<Rightarrow> time \<Rightarrow> string + (snapshot \<times> bool)" where
  "read_snapshot r i now =
     (case get_cluster r i of
        None \<Rightarrow> Inl ''cluster_unavailable''
      | Some c \<Rightarrow>
         (case cl_live c of
            None \<Rightarrow> Inl ''cluster_unavailable''
          | Some s \<Rightarrow>
              let L = rg_limits r; stale = is_stale L c now in
              if stale \<and> time_sub now (stale_start L c) > l_stale_ttl L
              then Inl ''cluster_unavailable'' else Inr (s, stale)))"

text \<open>\<open>View\<close> runs its callback on the live snapshot under the same staleness rule.\<close>

definition view_snapshot :: "registry \<Rightarrow> string \<Rightarrow> time \<Rightarrow> (snapshot \<Rightarrow> 'e option) \<Rightarrow> string + (bool \<times> 'e option)" where
  "view_snapshot r i now f =
     (case read_snapshot r i now of Inl e \<Rightarrow> Inl e | Inr (s, stale) \<Rightarrow> Inr (stale, f s))"

record watch_snapshot =
  ws_epoch :: u64
  ws_seq :: u64
  ws_observed :: time
  ws_resources :: "catalog_resource list"
  ws_bytes :: int

fun collect_catalog :: "proto_sizes \<Rightarrow> int \<Rightarrow> int \<Rightarrow> catalog_resource list
    \<Rightarrow> string + (int \<times> catalog_resource list)" where
  "collect_catalog P mx bytes [] = Inr (bytes, [])"
| "collect_catalog P mx bytes (x # xs) =
     (let size = ps_catalog P x in
      if bytes + size > mx then Inl ''watch_snapshot_capacity''
      else (case collect_catalog P mx (bytes + size) xs of
              Inl e \<Rightarrow> Inl e
            | Inr (b, ys) \<Rightarrow> Inr (b, x # ys)))"

text \<open>The live resources of the persistent kinds in the order of their keys.\<close>

definition catalog_rows :: "snapshot \<Rightarrow> catalog_resource list" where
  "catalog_rows s =
     map (catalog_resource_of \<circ> snd)
       (sort_key fst (filter (\<lambda>(k, x). persistent_catalog_kind (re_kind x)) (sn_resources s)))"

definition catalog_snapshot :: "proto_sizes \<Rightarrow> registry \<Rightarrow> string \<Rightarrow> int \<Rightarrow> string + watch_snapshot" where
  "catalog_snapshot P r i mx =
     (if mx < 1024 \<or> mx > 64 * 2 ^ 20 then Inl ''invalid_watch_byte_limit''
      else case get_cluster r i of
        None \<Rightarrow> Inl ''cluster_unavailable''
      | Some c \<Rightarrow>
         (case cl_live c of
            None \<Rightarrow> Inl ''cluster_unavailable''
          | Some s \<Rightarrow>
             (case collect_catalog P mx 0 (catalog_rows s) of
                Inl e \<Rightarrow> Inl e
              | Inr (b, xs) \<Rightarrow> Inr \<lparr>ws_epoch = sn_epoch s, ws_seq = sn_seq s,
                  ws_observed = sn_observed s, ws_resources = xs, ws_bytes = b\<rparr>)))"

end
