(* ===== verification/Registry_Inv.thy ===== *)
theory Registry_Inv
  imports Registry_Ops
begin

text \<open>
  The registry's accounting. A snapshot's byte count is the sum of its resources, a cluster
  retains its live and staged snapshots and its pending deltas, and the global counter is the
  sum over the clusters and within its limit. The invariant is stated for a snapshot, a
  cluster and the registry; every operation keeps it.
\<close>

named_theorems reg_keep "operations that keep the registry's invariant"

section \<open>Invariants\<close>

definition size_table :: "proto_sizes \<Rightarrow> (string, resource) gomap \<Rightarrow> (string, int) gomap" where
  "size_table P m = map (\<lambda>(k, x). (k, ps_resource P x)) m"

definition snapshot_ok :: "proto_sizes \<Rightarrow> limits \<Rightarrow> snapshot \<Rightarrow> bool" where
  "snapshot_ok P L s \<longleftrightarrow>
     distinct (keys_of (sn_resources s))
     \<and> (\<forall>(k, x) \<in> set (sn_resources s). k = resource_key x \<and> validate_resource L x = None)
     \<and> sn_sizes s = Some (size_table P (sn_resources s))
     \<and> sn_bytes s = msum (ps_resource P) (sn_resources s)
     \<and> sn_bytes s \<le> l_max_state_bytes L"

definition delta_ok :: "limits \<Rightarrow> delta \<Rightarrow> bool" where
  "delta_ok L d \<longleftrightarrow> (\<exists>x. de_resource d = Some x \<and> validate_resource L x = None)"

definition cluster_ok :: "proto_sizes \<Rightarrow> limits \<Rightarrow> cluster \<Rightarrow> bool" where
  "cluster_ok P L c \<longleftrightarrow>
     (\<forall>s. cl_live c = Some s \<longrightarrow> snapshot_ok P L s)
     \<and> (\<forall>s. cl_staging c = Some s \<longrightarrow> snapshot_ok P L s)
     \<and> (cl_staging c = None \<longrightarrow> cl_pending c = [])
     \<and> cl_pending_bytes c = sum_list (map (ps_delta P) (cl_pending c))
     \<and> list_all (delta_ok L) (cl_pending c)"

definition clusters_ok :: "proto_sizes \<Rightarrow> registry \<Rightarrow> bool" where
  "clusters_ok P r \<longleftrightarrow>
     distinct (keys_of (rg_clusters r))
     \<and> (\<forall>i c. get_cluster r i = Some c \<longrightarrow> cluster_ok P (rg_limits r) c)
     \<and> rg_total_bytes r = msum retained_bytes (rg_clusters r)
     \<and> rg_total_bytes r \<le> l_max_total_state_bytes (rg_limits r)"

section \<open>Snapshots\<close>

lemma size_table_put:
  "size_table P (put k x m) = put k (ps_resource P x) (size_table P m)"
  by (induction m) (auto simp: size_table_def)

lemma size_table_del: "size_table P (del k m) = del k (size_table P m)"
  by (induction m) (auto simp: size_table_def)

lemma get0_size_table: "get0 (size_table P m) k = part (ps_resource P) (map_of m k)"
  by (induction m) (auto simp: size_table_def get0_def)

lemma size_at_ok:
  "snapshot_ok P L s \<Longrightarrow> size_at s k = part (ps_resource P) (map_of (sn_resources s) k)"
  by (simp add: snapshot_ok_def size_at_def get0_size_table)

lemma with_sizes_ok [simp]: "snapshot_ok P L s \<Longrightarrow> with_sizes P s = s"
  by (simp add: snapshot_ok_def with_sizes_def)

lemma snapshot_ok_nonneg: "sizes_ok P \<Longrightarrow> snapshot_ok P L s \<Longrightarrow> 0 \<le> sn_bytes s"
  by (auto simp: snapshot_ok_def intro!: msum_nonneg)

lemma empty_snapshot_ok: "0 \<le> l_max_state_bytes L \<Longrightarrow> snapshot_ok P L (empty_snapshot e q)"
  by (simp add: snapshot_ok_def empty_snapshot_def size_table_def)

lemma set_put_subset: "set (put k v m) \<subseteq> insert (k, v) (set m)"
  by (induction m) auto

lemma set_del_subset: "set (del k m) \<subseteq> set m"
  by (induction m) auto

lemma store_resource_ok:
  assumes "snapshot_ok P L s" and "validate_resource L x = None"
    and "sn_bytes s - size_at s (resource_key x) + ps_resource P x \<le> l_max_state_bytes L"
  shows "snapshot_ok P L (store_resource P x s)"
  using assms set_put_subset [of "resource_key x" x "sn_resources s"] size_at_ok [OF assms(1)]
  by (auto simp: snapshot_ok_def store_resource_def Let_def size_table_put go_sum)

lemma remove_resource_ok:
  assumes P: "sizes_ok P" and s: "snapshot_ok P L s"
  shows "snapshot_ok P L (remove_resource x s)"
proof -
  have "0 \<le> size_at s (resource_key x)"
    using P s by (auto simp: size_at_ok part_def split: option.splits)
  with s set_del_subset [of "resource_key x" "sn_resources s"] size_at_ok [OF s]
  show ?thesis
    by (auto simp: snapshot_ok_def remove_resource_def Let_def size_table_del go_sum)
qed

lemma snapshot_ok_stamp [simp]: "snapshot_ok P L (stamp d s) = snapshot_ok P L s"
  by (simp add: snapshot_ok_def stamp_def)

lemma snapshot_ok_observed [simp]:
  "snapshot_ok P L (s\<lparr>sn_observed := t\<rparr>) = snapshot_ok P L s"
  by (simp add: snapshot_ok_def)

text \<open>What one applied delta does to a well-formed snapshot.\<close>

lemma apply_delta_Some:
  assumes "sizes_ok P" and "snapshot_ok P L s" and "validate_resource L x = None"
    and "apply_delta P L s d x = Some s'"
  shows "snapshot_ok P L s'"
    and "sn_epoch s' = de_epoch d" and "sn_seq s' = de_seq d"
    and "sn_resources s' =
      (if de_deleted d then del (resource_key x) (sn_resources s)
       else put (resource_key x) x (sn_resources s))"
    and "sn_bytes s' = sn_bytes s - size_at s (resource_key x)
      + (if de_deleted d then 0 else ps_resource P x)"
proof -
  show "snapshot_ok P L s'"
    using assms by (auto simp: apply_delta_def Let_def split: if_splits
        intro!: remove_resource_ok store_resource_ok)
  show "sn_epoch s' = de_epoch d" and "sn_seq s' = de_seq d"
    and "sn_resources s' = (if de_deleted d then del (resource_key x) (sn_resources s)
       else put (resource_key x) x (sn_resources s))"
    and "sn_bytes s' = sn_bytes s - size_at s (resource_key x)
      + (if de_deleted d then 0 else ps_resource P x)"
    using assms by (auto simp: apply_delta_def Let_def stamp_def remove_resource_def
        store_resource_def split: if_splits)
qed

lemma size_at_nonneg: "sizes_ok P \<Longrightarrow> snapshot_ok P L s \<Longrightarrow> 0 \<le> size_at s k"
  by (auto simp: size_at_ok part_def split: option.splits)

text \<open>The replay keeps the snapshot well formed and adds at most the bytes of the deltas.\<close>

lemma replay_ok:
  assumes "sizes_ok P" and "snapshot_ok P L s" and "list_all (delta_ok L) ds"
    and "replay P L e s ds = Inr s'"
  shows "snapshot_ok P L s' \<and> sn_bytes s' \<le> sn_bytes s + sum_list (map (ps_delta P) ds)"
  using assms
proof (induction P L e s ds rule: replay.induct)
  case (2 P L epoch s d ds)
  from "2.prems" obtain x where x: "de_resource d = Some x" "validate_resource L x = None"
    by (auto simp: delta_ok_def)
  have pos: "0 \<le> ps_delta P d" and emb: "ps_resource P x \<le> ps_delta P d"
    using "2.prems"(1) x by (auto simp: sizes_ok_def)
  show ?case
  proof (cases "de_epoch d \<noteq> epoch \<or> de_seq d \<le> sn_seq s")
    case True
    with "2.IH"(1) "2.prems" have "snapshot_ok P L s' \<and>
        sn_bytes s' \<le> sn_bytes s + sum_list (map (ps_delta P) ds)"
      by auto
    with pos show ?thesis by auto
  next
    case False
    with "2.prems"(4) x obtain s1 where seq: "de_seq d = sn_seq s + 1"
      and ap: "apply_delta P L s d x = Some s1" and rest: "replay P L epoch s1 ds = Inr s'"
      by (auto split: if_splits option.splits)
    note s1 = apply_delta_Some [OF "2.prems"(1,2) x(2) ap]
    have "snapshot_ok P L s' \<and> sn_bytes s' \<le> sn_bytes s1 + sum_list (map (ps_delta P) ds)"
      using "2.IH"(2) [OF False _ x(1) ap] seq s1(1) rest "2.prems" by auto
    moreover have "sn_bytes s1 \<le> sn_bytes s + ps_delta P d"
      using s1(5) emb pos size_at_nonneg [OF "2.prems"(1,2), of "resource_key x"]
      by (auto split: if_splits)
    ultimately show ?thesis by simp
  qed
qed simp

section \<open>Clusters\<close>

lemma sum_list_deltas_nonneg: "sizes_ok P \<Longrightarrow> 0 \<le> sum_list (map (ps_delta P) ds)"
  by (induction ds) (auto simp: sizes_ok_def)

lemma new_cluster_ok [simp]: "cluster_ok P L new_cluster" "retained_bytes new_cluster = 0"
  by (simp_all add: cluster_ok_def new_cluster_def retained_bytes_def)

lemma cluster_ok_drop [simp]: "cluster_ok P L c \<Longrightarrow> cluster_ok P L (drop_staging c)"
  by (simp add: cluster_ok_def drop_staging_def)

lemma retained_nonneg:
  "sizes_ok P \<Longrightarrow> cluster_ok P L c \<Longrightarrow> 0 \<le> retained_bytes c"
  by (auto simp: cluster_ok_def retained_bytes_def sum_list_deltas_nonneg
      intro!: add_nonneg_nonneg dest: snapshot_ok_nonneg split: option.splits)

lemma retained_drop_le:
  "sizes_ok P \<Longrightarrow> cluster_ok P L c \<Longrightarrow> retained_bytes (drop_staging c) \<le> retained_bytes c"
  using sum_list_deltas_nonneg [of P "cl_pending c"]
  by (auto simp: cluster_ok_def retained_bytes_def drop_staging_def
      dest: snapshot_ok_nonneg split: option.splits)

text \<open>Fields that neither the bytes nor the well-formedness depend on.\<close>

lemma cluster_ok_fields [simp]:
  "cluster_ok P L (c\<lparr>cl_generation := g\<rparr>) = cluster_ok P L c"
  "cluster_ok P L (c\<lparr>cl_connected := b\<rparr>) = cluster_ok P L c"
  "cluster_ok P L (c\<lparr>cl_disconnected_at := t\<rparr>) = cluster_ok P L c"
  "cluster_ok P L (c\<lparr>cl_heartbeat_at := t\<rparr>) = cluster_ok P L c"
  "cluster_ok P L (c\<lparr>cl_ingress_at := t\<rparr>) = cluster_ok P L c"
  "cluster_ok P L (c\<lparr>cl_frame_tokens := q\<rparr>) = cluster_ok P L c"
  "cluster_ok P L (c\<lparr>cl_byte_tokens := q\<rparr>) = cluster_ok P L c"
  by (simp_all add: cluster_ok_def)

lemma retained_fields [simp]:
  "retained_bytes (c\<lparr>cl_generation := g\<rparr>) = retained_bytes c"
  "retained_bytes (c\<lparr>cl_connected := b\<rparr>) = retained_bytes c"
  "retained_bytes (c\<lparr>cl_disconnected_at := t\<rparr>) = retained_bytes c"
  "retained_bytes (c\<lparr>cl_heartbeat_at := t\<rparr>) = retained_bytes c"
  "retained_bytes (c\<lparr>cl_ingress_at := t\<rparr>) = retained_bytes c"
  "retained_bytes (c\<lparr>cl_frame_tokens := q\<rparr>) = retained_bytes c"
  "retained_bytes (c\<lparr>cl_byte_tokens := q\<rparr>) = retained_bytes c"
  by (simp_all add: retained_bytes_def)

lemma charge_ingress_keeps [simp]:
  "cluster_ok P L (fst (charge_ingress K c b t)) = cluster_ok P L c"
  "retained_bytes (fst (charge_ingress K c b t)) = retained_bytes c"
  by (simp_all add: charge_ingress_def Let_def)

section \<open>The counter\<close>

lemma set_cluster_simps [simp]:
  "rg_limits (set_cluster i c r) = rg_limits r"
  "rg_clusters (set_cluster i c r) = put i c (rg_clusters r)"
  "rg_total_bytes (set_cluster i c r) = rg_total_bytes r"
  "rg_watchers (set_cluster i c r) = rg_watchers r"
  "rg_watch_queued (set_cluster i c r) = rg_watch_queued r"
  "rg_next_watcher (set_cluster i c r) = rg_next_watcher r"
  "rg_allowed (set_cluster i c r) = rg_allowed r"
  by (simp_all add: set_cluster_def)

lemma reserve_anyway_simps [simp]:
  "rg_limits (reserve_anyway d r) = rg_limits r"
  "rg_clusters (reserve_anyway d r) = rg_clusters r"
  "rg_watchers (reserve_anyway d r) = rg_watchers r"
  "rg_watch_queued (reserve_anyway d r) = rg_watch_queued r"
  "rg_next_watcher (reserve_anyway d r) = rg_next_watcher r"
  "rg_allowed (reserve_anyway d r) = rg_allowed r"
  by (simp_all add: reserve_anyway_def split: option.splits)

lemma settle_cluster_simps [simp]:
  "rg_limits (settle_cluster i a b r) = rg_limits r"
  "rg_clusters (settle_cluster i a b r) = put i b (rg_clusters r)"
  "rg_watchers (settle_cluster i a b r) = rg_watchers r"
  "rg_watch_queued (settle_cluster i a b r) = rg_watch_queued r"
  "rg_next_watcher (settle_cluster i a b r) = rg_next_watcher r"
  "rg_allowed (settle_cluster i a b r) = rg_allowed r"
  by (simp_all add: settle_cluster_def)

lemma publish_simps [simp]:
  "rg_limits (publish P ch r) = rg_limits r"
  "rg_clusters (publish P ch r) = rg_clusters r"
  "rg_total_bytes (publish P ch r) = rg_total_bytes r"
  "rg_next_watcher (publish P ch r) = rg_next_watcher r"
  "rg_allowed (publish P ch r) = rg_allowed r"
  by (simp_all add: publish_def split: prod.splits)

lemma clusters_ok_publish [simp]: "clusters_ok P (publish Q ch r) = clusters_ok P r"
  by (simp add: clusters_ok_def)

text \<open>Storing a cluster together with the new value of the counter.\<close>

lemma clusters_ok_store:
  assumes "clusters_ok P r" and "cluster_ok P (rg_limits r) c"
    and "tot = rg_total_bytes r - part retained_bytes (get_cluster r i) + retained_bytes c"
    and "tot \<le> l_max_total_state_bytes (rg_limits r)"
  shows "clusters_ok P ((set_cluster i c r)\<lparr>rg_total_bytes := tot\<rparr>)"
  using assms by (auto simp: clusters_ok_def go_sum)

lemma clusters_ok_settle:
  assumes "clusters_ok P r" and "cluster_ok P (rg_limits r) new"
    and "part retained_bytes (get_cluster r i) = retained_bytes old"
    and "retained_bytes new \<le> retained_bytes old"
  shows "clusters_ok P (settle_cluster i old new r)"
  using assms
  by (auto simp: settle_cluster_def reserve_anyway_def reserve_total_def clusters_ok_def go_sum)

lemma clusters_ok_same:
  assumes "clusters_ok P r" and "get_cluster r i = Some old"
    and "cluster_ok P (rg_limits r) new" and "retained_bytes new = retained_bytes old"
  shows "clusters_ok P (set_cluster i new r)"
  using assms by (auto simp: clusters_ok_def go_sum)

lemma clusters_okD: "clusters_ok P r \<Longrightarrow> get_cluster r i = Some c \<Longrightarrow> cluster_ok P (rg_limits r) c"
  by (simp add: clusters_ok_def)

end
