(* ===== verification/Registry_Feed.thy ===== *)
theory Registry_Feed
  imports Registry_Inv
begin

text \<open>
  Every operation of the registry keeps \<open>clusters_ok\<close>, and the watch feed keeps its own
  books: a watcher's bytes are the bytes of its queue, the shared counter is the sum over the
  watchers, and neither exceeds its limit; the set of open watchers respects the subscriber
  limits.
\<close>

section \<open>The clusters under every operation\<close>

lemma open_session_keeps [reg_keep]:
  assumes "sizes_ok P" and r: "clusters_ok P r"
  shows "clusters_ok P (fst (open_session r h a now))"
proof -
  define c where "c i = (case get_cluster r i of None \<Rightarrow> new_cluster | Some c \<Rightarrow> c)" for i
  have ok: "cluster_ok P (rg_limits r) (c i)" for i
    using clusters_okD [OF r] by (auto simp: c_def split: option.splits)
  have part: "part retained_bytes (get_cluster r i) = retained_bytes (c i)" for i
    by (simp add: c_def part_def split: option.splits)
  have "clusters_ok P (settle_cluster i (c i)
      ((drop_staging (c i))\<lparr>cl_generation := g, cl_connected := True,
        cl_disconnected_at := 0, cl_heartbeat_at := now\<rparr>) r)" for i g
    by (rule clusters_ok_settle [OF r _ part]) (use ok retained_drop_le [OF assms(1) ok] in auto)
  with r show ?thesis
    by (auto simp: open_session_def Let_def c_def split: option.splits)
qed

lemma hang_up_keeps:
  assumes "sizes_ok P" and r: "clusters_ok P r" and c: "get_cluster r i = Some c"
  shows "clusters_ok P (settle_cluster i c (hang_up now c) r)"
  by (rule clusters_ok_settle [OF r])
    (use clusters_okD [OF r c] c assms(1) in \<open>auto simp: hang_up_def retained_drop_le\<close>)

lemma disconnect_keeps [reg_keep]:
  "sizes_ok P \<Longrightarrow> clusters_ok P r \<Longrightarrow> clusters_ok P (disconnect r i now)"
  by (auto simp: disconnect_def hang_up_keeps split: option.splits)

lemma disconnect_session_keeps [reg_keep]:
  "sizes_ok P \<Longrightarrow> clusters_ok P r \<Longrightarrow> clusters_ok P (disconnect_session r i g now)"
  by (auto simp: disconnect_session_def hang_up_keeps split: option.splits)

lemma heartbeat_keeps [reg_keep]:
  "clusters_ok P r \<Longrightarrow> clusters_ok P (fst (heartbeat_op Q r i g h now))"
  by (auto simp: heartbeat_op_def Let_def intro!: clusters_ok_same dest: clusters_okD
      split: option.splits)

lemma consume_ingress_keeps [reg_keep]:
  assumes r: "clusters_ok P r"
  shows "clusters_ok P (fst (consume_ingress r i g b now))"
proof -
  have "clusters_ok P (set_cluster i (fst (charge_ingress (rg_limits r) c b now)) r)"
    if "get_cluster r i = Some c" for c
    by (rule clusters_ok_same [OF r that]) (use clusters_okD [OF r that] in simp_all)
  with r show ?thesis
    by (auto simp: consume_ingress_def split: option.splits prod.splits)
qed

lemma begin_keeps [reg_keep]:
  assumes P: "sizes_ok P" and r: "clusters_ok P r" and L: "0 \<le> l_max_state_bytes (rg_limits r)"
  shows "clusters_ok P (fst (begin_op r i g b))"
proof -
  have "clusters_ok P (settle_cluster i c ((drop_staging c)\<lparr>cl_staging := Some (empty_snapshot e q)\<rparr>) r)"
    if c: "get_cluster r i = Some c" for c e q
  proof (rule clusters_ok_settle [OF r])
    have ok: "cluster_ok P (rg_limits r) c" using clusters_okD [OF r c] .
    then show "cluster_ok P (rg_limits r) ((drop_staging c)\<lparr>cl_staging := Some (empty_snapshot e q)\<rparr>)"
      using empty_snapshot_ok [OF L, of P] by (auto simp: cluster_ok_def drop_staging_def)
    show "retained_bytes ((drop_staging c)\<lparr>cl_staging := Some (empty_snapshot e q)\<rparr>) \<le> retained_bytes c"
      using retained_drop_le [OF P ok] by (simp add: retained_bytes_def drop_staging_def empty_snapshot_def)
  qed (use c in simp)
  with r show ?thesis
    by (auto simp: begin_op_def Let_def split: option.splits)
qed

text \<open>The loop of a chunk: the snapshot stays well formed, the counter moves with it.\<close>

lemma chunk_loop_ok:
  assumes "chunk_loop P L tot s xs = (tot', s', e)" and "snapshot_ok P L s"
    and "tot \<le> l_max_total_state_bytes L"
  shows "snapshot_ok P L s' \<and> tot' - tot = sn_bytes s' - sn_bytes s
    \<and> tot' \<le> l_max_total_state_bytes L"
  using assms
proof (induction P L tot s xs rule: chunk_loop.induct)
  case (2 P L tot s x xs)
  show ?case
  proof (cases "tot' = tot \<and> s' = s")
    case True
    with "2.prems" show ?thesis by simp
  next
    case False
    let ?next = "sn_bytes s - size_at s (resource_key x) + ps_resource P x"
    from False "2.prems"(1) obtain t where v: "validate_resource L x = None"
      and cap: "\<not> (map_of (sn_resources s) (resource_key x) = None
          \<and> l_max_resources L \<le> int (length (sn_resources s)))"
      and lim: "\<not> (ps_resource P x > l_max_message_bytes L \<or> ?next > l_max_state_bytes L)"
      and t: "reserve_total L tot (?next - sn_bytes s) = Some t"
      and rest: "chunk_loop P L t (store_resource P x s) xs = (tot', s', e)"
      by (auto simp: Let_def split: option.splits if_splits)
    have ok: "snapshot_ok P L (store_resource P x s)"
      using "2.prems"(2) v lim by (auto intro: store_resource_ok)
    have bytes: "sn_bytes (store_resource P x s) = ?next"
      by (simp add: store_resource_def Let_def)
    have tv: "t = tot + (?next - sn_bytes s)" "t \<le> l_max_total_state_bytes L"
      using t "2.prems"(3) by (auto simp: reserve_total_def split: if_splits)
    have "snapshot_ok P L s' \<and> tot' - t = sn_bytes s' - sn_bytes (store_resource P x s)
        \<and> tot' \<le> l_max_total_state_bytes L"
      by (rule "2.IH" [OF v refl refl refl _ _ t rest ok tv(2)]) (use cap lim in auto)
    with tv bytes show ?thesis by simp
  qed
qed simp

lemma chunk_keeps [reg_keep]:
  assumes P: "sizes_ok P" and r: "clusters_ok P r"
  shows "clusters_ok P (fst (chunk_op P r i g ch))"
proof -
  have "clusters_ok P ((set_cluster i (c\<lparr>cl_staging := Some s'\<rparr>) r)\<lparr>rg_total_bytes := tot\<rparr>)"
    if c: "get_cluster r i = Some c" and s: "cl_staging c = Some s"
      and loop: "chunk_loop P (rg_limits r) (rg_total_bytes r) s xs = (tot, s', e)"
    for c s xs tot s' e
  proof -
    have ok: "cluster_ok P (rg_limits r) c" using clusters_okD [OF r c] .
    then have "snapshot_ok P (rg_limits r) s" using s by (simp add: cluster_ok_def)
    from chunk_loop_ok [OF loop this] r have *: "snapshot_ok P (rg_limits r) s'"
      "tot - rg_total_bytes r = sn_bytes s' - sn_bytes s"
      "tot \<le> l_max_total_state_bytes (rg_limits r)"
      by (auto simp: clusters_ok_def)
    show ?thesis
      by (rule clusters_ok_store [OF r])
        (use ok * c s in \<open>auto simp: cluster_ok_def retained_bytes_def\<close>)
  qed
  with r show ?thesis
    by (auto simp: chunk_op_def split: option.splits prod.splits)
qed

lemma stage_delta_keeps:
  assumes P: "sizes_ok P" and r: "clusters_ok P r" and c: "get_cluster r i = Some c"
    and s: "cl_staging c = Some s" and d: "delta_ok (rg_limits r) d"
  shows "clusters_ok P (fst (stage_delta P r i c s d))"
proof -
  have pos: "0 \<le> ps_delta P d" using P by (simp add: sizes_ok_def)
  have "clusters_ok P ((set_cluster i (c\<lparr>cl_pending := cl_pending c @ [d],
      cl_pending_bytes := cl_pending_bytes c + ps_delta P d\<rparr>) r)\<lparr>rg_total_bytes := tot\<rparr>)"
    if "reserve_total (rg_limits r) (rg_total_bytes r) (ps_delta P d) = Some tot" for tot
    by (rule clusters_ok_store [OF r])
      (use clusters_okD [OF r c] c s d that pos r in
        \<open>auto simp: cluster_ok_def retained_bytes_def reserve_total_def clusters_ok_def split: if_splits\<close>)
  with r show ?thesis
    by (auto simp: stage_delta_def Let_def split: option.splits)
qed

text \<open>
  The invariant gives the exact value of the counter after a delta on the live snapshot, in
  each of the three cases of the byte difference.
\<close>

lemma live_delta_keeps:
  assumes P: "sizes_ok P" and r: "clusters_ok P r" and c: "get_cluster r i = Some c"
    and cur: "cl_live c = Some cur" and x: "validate_resource (rg_limits r) x = None"
  shows "clusters_ok P (fst (live_delta P r i c cur d x now))"
proof -
  define bd where
    "bd = (if de_deleted d then 0 else ps_resource P x) - size_at cur (resource_key x)"
  have ok: "cluster_ok P (rg_limits r) c" using clusters_okD [OF r c] .
  then have sok: "snapshot_ok P (rg_limits r) cur" using cur by (simp add: cluster_ok_def)
  have "clusters_ok P ((set_cluster i (c\<lparr>cl_live := Some (cur'\<lparr>sn_observed := now\<rparr>)\<rparr>) r)
      \<lparr>rg_total_bytes := (if bd < 0 then tot + bd else tot)\<rparr>)"
    if t: "(if bd > 0 then reserve_total (rg_limits r) (rg_total_bytes r) bd
             else Some (rg_total_bytes r)) = Some tot"
      and ap: "apply_delta P (rg_limits r) cur d x = Some cur'" for tot cur'
  proof (rule clusters_ok_store [OF r])
    note s' = apply_delta_Some [OF P sok x ap]
    have tv: "(if bd < 0 then tot + bd else tot) = rg_total_bytes r + bd"
      using t by (auto simp: reserve_total_def split: if_splits)
    show "cluster_ok P (rg_limits r) (c\<lparr>cl_live := Some (cur'\<lparr>sn_observed := now\<rparr>)\<rparr>)"
      using ok s'(1) by (auto simp: cluster_ok_def)
    show "(if bd < 0 then tot + bd else tot) = rg_total_bytes r - part retained_bytes (get_cluster r i)
        + retained_bytes (c\<lparr>cl_live := Some (cur'\<lparr>sn_observed := now\<rparr>)\<rparr>)"
      using c cur s'(5) unfolding tv by (simp add: retained_bytes_def bd_def)
    show "(if bd < 0 then tot + bd else tot) \<le> l_max_total_state_bytes (rg_limits r)"
      using t r by (auto simp: reserve_total_def clusters_ok_def split: if_splits)
  qed
  with r show ?thesis
    by (auto simp: live_delta_def Let_def bd_def [symmetric] split: option.splits)
qed

lemma delta_keeps [reg_keep]:
  assumes P: "sizes_ok P" and r: "clusters_ok P r"
  shows "clusters_ok P (fst (delta_op P r i g d now))"
  using r by (auto simp: delta_op_def Let_def validate_def delta_ok_def
      intro!: stage_delta_keeps [OF P] live_delta_keeps [OF P] split: option.splits)

lemma commit_keeps [reg_keep]:
  assumes P: "sizes_ok P" and r: "clusters_ok P r"
  shows "clusters_ok P (fst (commit_op P r i g e now))"
proof -
  have drop: "clusters_ok P (settle_cluster i c (drop_staging c) r)" if "get_cluster r i = Some c" for c
    by (rule clusters_ok_settle [OF r])
      (use clusters_okD [OF r that] that P in \<open>auto simp: retained_drop_le\<close>)
  have take: "clusters_ok P (settle_cluster i c ((drop_staging c)\<lparr>cl_live := Some (s'\<lparr>sn_observed := now\<rparr>)\<rparr>) r)"
    if c: "get_cluster r i = Some c" and s: "cl_staging c = Some s"
      and rep: "replay P (rg_limits r) e' s (cl_pending c) = Inr s'" for c s s' e'
  proof (rule clusters_ok_settle [OF r])
    have ok: "cluster_ok P (rg_limits r) c" using clusters_okD [OF r c] .
    then have sok: "snapshot_ok P (rg_limits r) s" and "list_all (delta_ok (rg_limits r)) (cl_pending c)"
      using s by (auto simp: cluster_ok_def)
    note s' = replay_ok [OF P this rep]
    show "cluster_ok P (rg_limits r) ((drop_staging c)\<lparr>cl_live := Some (s'\<lparr>sn_observed := now\<rparr>)\<rparr>)"
      using ok s' by (auto simp: cluster_ok_def drop_staging_def)
    show "retained_bytes ((drop_staging c)\<lparr>cl_live := Some (s'\<lparr>sn_observed := now\<rparr>)\<rparr>) \<le> retained_bytes c"
      using s' ok s snapshot_ok_nonneg [OF P]
      by (auto simp: retained_bytes_def drop_staging_def cluster_ok_def split: option.splits) force+
  qed (use c in simp)
  from r drop take show ?thesis
    by (auto simp: commit_op_def Let_def split: option.splits sum.splits)
qed

lemma prune_cluster_keeps:
  assumes P: "sizes_ok P" and r: "clusters_ok P (fst rn)"
  shows "clusters_ok P (fst (prune_cluster P now i rn))"
proof -
  have "clusters_ok P (settle_cluster i c (c\<lparr>cl_live := None\<rparr>) (fst rn))"
    if c: "get_cluster (fst rn) i = Some c" for c
  proof (rule clusters_ok_settle [OF r])
    have ok: "cluster_ok P (rg_limits (fst rn)) c" using clusters_okD [OF r c] .
    then show "cluster_ok P (rg_limits (fst rn)) (c\<lparr>cl_live := None\<rparr>)" by (simp add: cluster_ok_def)
    show "retained_bytes (c\<lparr>cl_live := None\<rparr>) \<le> retained_bytes c"
      using ok P by (auto simp: retained_bytes_def cluster_ok_def dest: snapshot_ok_nonneg split: option.splits)
  qed (use c in simp)
  with r show ?thesis
    by (auto simp: prune_cluster_def split: option.splits prod.splits)
qed

lemma prune_keeps [reg_keep]:
  assumes P: "sizes_ok P" and r: "clusters_ok P r"
  shows "clusters_ok P (fst (prune_expired P r now))"
proof -
  have "clusters_ok P (fst (fold (prune_cluster P now) ids rn))"
    if "clusters_ok P (fst rn)" for ids rn
    using that by (induction ids arbitrary: rn) (simp_all add: prune_cluster_keeps [OF P])
  with r show ?thesis by (simp add: prune_expired_def)
qed

end
