(* ===== verification/Registry_Laws.thy ===== *)
theory Registry_Laws
  imports Registry_Feed
begin

text \<open>
  The books of the watch feed, the registry as a step system over its operations, and the
  interpretation of the ledger contract for its two counters. The properties of the registry
  follow: accounting, session safety, the effect of a delta and of a commit, monotone
  progress, staleness.
\<close>

section \<open>The feed\<close>

definition watcher_ok :: "limits \<Rightarrow> watcher \<Rightarrow> bool" where
  "watcher_ok L w \<longleftrightarrow>
     wa_bytes w = sum_list (map snd (wa_queue w)) \<and> (\<forall>(ch, b) \<in> set (wa_queue w). 0 \<le> b)
     \<and> wa_bytes w \<le> l_watch_queue_bytes L \<and> int (length (wa_queue w)) \<le> l_watch_queue_frames L"

definition open_count :: "(string list \<Rightarrow> bool) \<Rightarrow> (nat, watcher) gomap \<Rightarrow> nat" where
  "open_count Q ws = length (filter (\<lambda>w. wa_open w \<and> Q (wa_clusters w)) (map snd ws))"

definition feed_ok :: "registry \<Rightarrow> bool" where
  "feed_ok r \<longleftrightarrow>
     distinct (keys_of (rg_watchers r)) \<and> (\<forall>n \<in> set (keys_of (rg_watchers r)). n < rg_next_watcher r)
     \<and> (\<forall>(n, w) \<in> set (rg_watchers r). watcher_ok (rg_limits r) w)
     \<and> rg_watch_queued r = msum wa_bytes (rg_watchers r)
     \<and> rg_watch_queued r \<le> l_watch_total_queue_bytes (rg_limits r)
     \<and> int (open_count (\<lambda>_. True) (rg_watchers r)) \<le> l_watch_max_subscribers (rg_limits r)
     \<and> (\<forall>i. int (open_count (\<lambda>cs. i \<in> set cs) (rg_watchers r)) \<le> l_watch_max_per_cluster (rg_limits r))"

lemma watcher_ok_nonneg: "watcher_ok L w \<Longrightarrow> 0 \<le> wa_bytes w"
  by (auto simp: watcher_ok_def intro!: sum_list_nonneg split: prod.splits)

lemma change_bytes_nonneg: "sizes_ok P \<Longrightarrow> 0 \<le> change_bytes P ch"
  by (auto simp: change_bytes_def sizes_ok_def split: option.splits)

lemma offer_ok:
  assumes "sizes_ok P" and "offer P L ch w q = (w', q')"
    and "watcher_ok L w" and "q \<le> l_watch_total_queue_bytes L"
  shows "watcher_ok L w' \<and> q' - q = wa_bytes w' - wa_bytes w \<and> q' \<le> l_watch_total_queue_bytes L
    \<and> wa_clusters w' = wa_clusters w \<and> (wa_open w' \<longrightarrow> wa_open w)"
  using assms(2-) change_bytes_nonneg [OF assms(1), of ch]
  by (auto simp: offer_def Let_def watcher_ok_def split: if_splits)

lemma offer_all_ok:
  assumes "sizes_ok P" and "offer_all P L ch ws q = (ws', q')"
    and "\<forall>(n, w) \<in> set ws. watcher_ok L w" and "q \<le> l_watch_total_queue_bytes L"
  shows "keys_of ws' = keys_of ws \<and> (\<forall>(n, w) \<in> set ws'. watcher_ok L w)
    \<and> q' - q = msum wa_bytes ws' - msum wa_bytes ws \<and> q' \<le> l_watch_total_queue_bytes L
    \<and> (\<forall>Q. open_count Q ws' \<le> open_count Q ws)"
  using assms(2-)
proof (induction ws arbitrary: q ws' q')
  case (Cons a ws)
  obtain n w where a: "a = (n, w)" by (cases a)
  obtain w1 q1 where o1: "offer P L ch w q = (w1, q1)" by (cases "offer P L ch w q")
  obtain ws1 q2 where rest: "offer_all P L ch ws q1 = (ws1, q2)"
    by (cases "offer_all P L ch ws q1")
  note w1 = offer_ok [OF assms(1) o1]
  from Cons.prems a o1 rest have eq: "ws' = (n, w1) # ws1" "q' = q2" by auto
  have w1': "watcher_ok L w1" "q1 - q = wa_bytes w1 - wa_bytes w" "q1 \<le> l_watch_total_queue_bytes L"
    "wa_clusters w1 = wa_clusters w" "wa_open w1 \<longrightarrow> wa_open w"
    using w1 Cons.prems(2,3) a by auto
  have IH: "keys_of ws1 = keys_of ws \<and> (\<forall>(n, w) \<in> set ws1. watcher_ok L w)
    \<and> q2 - q1 = msum wa_bytes ws1 - msum wa_bytes ws \<and> q2 \<le> l_watch_total_queue_bytes L
    \<and> (\<forall>Q. open_count Q ws1 \<le> open_count Q ws)"
    using Cons.IH [OF rest] Cons.prems(2) w1'(3) by auto
  have "open_count Q ((n, w1) # ws1) \<le> open_count Q ((n, w) # ws)" for Q
    using IH w1'(4,5) by (auto simp: open_count_def intro: le_SucI)
  with IH w1' eq a show ?case by auto
qed simp

lemma open_cap_mono:
  assumes "\<And>Q. open_count Q ws \<le> open_count Q vs" and "int (open_count Q vs) \<le> k"
  shows "int (open_count Q ws) \<le> k"
  using assms(1) [of Q] assms(2) by linarith

lemma feed_ok_publish:
  assumes "sizes_ok P" and "feed_ok r"
  shows "feed_ok (publish P ch r)"
proof -
  obtain ws q where *: "offer_all P (rg_limits r) ch (rg_watchers r) (rg_watch_queued r) = (ws, q)"
    by (cases "offer_all P (rg_limits r) ch (rg_watchers r) (rg_watch_queued r)")
  have H: "keys_of ws = keys_of (rg_watchers r)" "\<forall>(n, w) \<in> set ws. watcher_ok (rg_limits r) w"
    "q - rg_watch_queued r = msum wa_bytes ws - msum wa_bytes (rg_watchers r)"
    "q \<le> l_watch_total_queue_bytes (rg_limits r)"
    "\<And>Q. open_count Q ws \<le> open_count Q (rg_watchers r)"
    using offer_all_ok [OF assms(1) *] assms(2) by (auto simp: feed_ok_def)
  then show ?thesis
    using * assms(2) by (auto simp: feed_ok_def publish_def intro!: open_cap_mono [OF H(5)])
qed

lemma feed_ok_irrelevant [simp]:
  "feed_ok (set_cluster i c r) = feed_ok r"
  "feed_ok (settle_cluster i a b r) = feed_ok r"
  "feed_ok (r\<lparr>rg_total_bytes := t\<rparr>) = feed_ok r"
  by (simp_all add: feed_ok_def)

lemma open_count_put:
  "map_of ws n = Some w \<Longrightarrow> wa_open w' = wa_open w \<Longrightarrow> wa_clusters w' = wa_clusters w \<Longrightarrow>
    open_count Q (put n w' ws) = open_count Q ws"
  by (induction ws) (auto simp: open_count_def split: if_splits)

lemma open_count_del: "open_count Q (del n ws) \<le> open_count Q ws"
  by (induction ws) (auto simp: open_count_def intro: le_SucI)

lemma feed_ok_next:
  assumes "feed_ok r"
  shows "feed_ok (fst (next_change r n))"
proof (cases "map_of (rg_watchers r) n")
  case (Some w)
  have w: "watcher_ok (rg_limits r) w"
    using assms map_of_SomeD [OF Some] by (auto simp: feed_ok_def)
  show ?thesis
  proof (cases "wa_queue w")
    case (Cons it rest)
    obtain ch b where it: "it = (ch, b)" by (cases it)
    let ?w = "w\<lparr>wa_queue := rest, wa_bytes := wa_bytes w - b\<rparr>"
    have "watcher_ok (rg_limits r) ?w" and "0 \<le> b" using w Cons it by (auto simp: watcher_ok_def)
    then show ?thesis
      using assms Some Cons it set_put_subset [of n ?w "rg_watchers r"]
      by (auto simp: next_change_def feed_ok_def go_sum open_count_put [OF Some])
  qed (use assms Some in \<open>simp add: next_change_def\<close>)
qed (use assms in \<open>simp add: next_change_def\<close>)

lemma feed_ok_close:
  assumes "feed_ok r"
  shows "feed_ok (close_subscription r n)"
proof (cases "map_of (rg_watchers r) n")
  case (Some w)
  have ok: "watcher_ok (rg_limits r) w"
    using assms map_of_SomeD [OF Some] by (auto simp: feed_ok_def)
  then have w: "wa_bytes w = sum_list (map snd (wa_queue w))" "0 \<le> wa_bytes w"
    by (simp add: watcher_ok_def) (rule watcher_ok_nonneg [OF ok])
  show ?thesis
    using assms Some w set_del_subset [of n "rg_watchers r"]
    by (auto simp: close_subscription_def feed_ok_def go_sum delete_keys distinct_removeAll
        intro!: open_cap_mono [OF open_count_del])
qed (use assms in \<open>simp add: close_subscription_def\<close>)

lemma feed_ok_subscribe:
  assumes r: "feed_ok r" and L: "0 \<le> l_watch_queue_bytes (rg_limits r)" "0 \<le> l_watch_queue_frames (rg_limits r)"
  shows "feed_ok (fst (subscribe r ids))"
proof (cases "fst (subscribe r ids) = r")
  case False
  let ?w = "\<lparr>wa_clusters = ids, wa_queue = [], wa_bytes = 0, wa_open = True\<rparr>"
  from False have sub: "int (length (open_watchers r)) < l_watch_max_subscribers (rg_limits r)"
    and per: "\<forall>i \<in> set ids. int (length (watchers_of r i)) < l_watch_max_per_cluster (rg_limits r)"
    and eq: "fst (subscribe r ids) =
      r\<lparr>rg_watchers := rg_watchers r @ [(rg_next_watcher r, ?w)], rg_next_watcher := Suc (rg_next_watcher r)\<rparr>"
    by (auto simp: subscribe_def Let_def list_ex_iff split: if_splits option.splits)
  have cnt: "open_count Q (rg_watchers r @ [(rg_next_watcher r, ?w)])
      = open_count Q (rg_watchers r) + of_bool (Q ids)" for Q
    by (simp add: open_count_def)
  have "length (watchers_of r i) = open_count (\<lambda>cs. i \<in> set cs) (rg_watchers r)" for i
    by (simp add: watchers_of_def open_watchers_def open_count_def conj_commute)
  with per r have "int (open_count (\<lambda>cs. i \<in> set cs) (rg_watchers r) + of_bool (i \<in> set ids))
      \<le> l_watch_max_per_cluster (rg_limits r)" for i
    by (cases "i \<in> set ids") (auto simp: feed_ok_def)
  moreover have "length (open_watchers r) = open_count (\<lambda>_. True) (rg_watchers r)"
    by (simp add: open_watchers_def open_count_def)
  moreover have "rg_next_watcher r \<notin> set (keys_of (rg_watchers r))"
    using r by (auto simp: feed_ok_def)
  ultimately show ?thesis
    using r sub L unfolding eq
    by (auto simp: feed_ok_def cnt watcher_ok_def less_SucI)
qed (use r in simp)

section \<open>The registry as a step system\<close>

datatype reg_op =
    Op_open "hello option" string time
  | Op_disconnect string time
  | Op_disconnect_session string u64 time
  | Op_heartbeat string u64 "heartbeat option" time
  | Op_ingress string u64 int time
  | Op_begin string u64 "begin_snapshot option"
  | Op_chunk string u64 "resource list option"
  | Op_delta string u64 "delta option" time
  | Op_commit string u64 "u64 option" time
  | Op_prune time
  | Op_subscribe "string list"
  | Op_next nat
  | Op_close nat

fun reg_step :: "proto_sizes \<Rightarrow> reg_op \<Rightarrow> registry \<Rightarrow> registry" where
  "reg_step P (Op_open h a t) r = fst (open_session r h a t)"
| "reg_step P (Op_disconnect i t) r = disconnect r i t"
| "reg_step P (Op_disconnect_session i g t) r = disconnect_session r i g t"
| "reg_step P (Op_heartbeat i g h t) r = fst (heartbeat_op P r i g h t)"
| "reg_step P (Op_ingress i g b t) r = fst (consume_ingress r i g b t)"
| "reg_step P (Op_begin i g b) r = fst (begin_op r i g b)"
| "reg_step P (Op_chunk i g xs) r = fst (chunk_op P r i g xs)"
| "reg_step P (Op_delta i g d t) r = fst (delta_op P r i g d t)"
| "reg_step P (Op_commit i g e t) r = fst (commit_op P r i g e t)"
| "reg_step P (Op_prune t) r = fst (prune_expired P r t)"
| "reg_step P (Op_subscribe ids) r = fst (subscribe r ids)"
| "reg_step P (Op_next n) r = fst (next_change r n)"
| "reg_step P (Op_close n) r = close_subscription r n"

definition reg_inv :: "proto_sizes \<Rightarrow> registry \<Rightarrow> bool" where
  "reg_inv P r \<longleftrightarrow> sizes_ok P \<and> limits_valid (rg_limits r) \<and> clusters_ok P r \<and> feed_ok r"

text \<open>No operation changes the limits; subscriptions do not touch the clusters, and no other
  operation touches the feed but through \<open>publish\<close>.\<close>

lemma prune_fold_simps:
  "rg_limits (fst (fold (prune_cluster P t) ids rn)) = rg_limits (fst rn)"
proof (induction ids arbitrary: rn)
  case (Cons i ids)
  then show ?case by (simp add: prune_cluster_def split: prod.splits option.splits)
qed simp

lemma op_limits [simp]:
  "rg_limits (fst (open_session r h a t)) = rg_limits r"
  "rg_limits (disconnect r i t) = rg_limits r"
  "rg_limits (disconnect_session r i g t) = rg_limits r"
  "rg_limits (fst (heartbeat_op P r i g hb t)) = rg_limits r"
  "rg_limits (fst (consume_ingress r i g n t)) = rg_limits r"
  "rg_limits (fst (begin_op r i g b)) = rg_limits r"
  "rg_limits (fst (chunk_op P r i g xs)) = rg_limits r"
  "rg_limits (fst (prune_expired P r t)) = rg_limits r"
  "rg_limits (fst (subscribe r ids)) = rg_limits r"
  "rg_limits (fst (next_change r w)) = rg_limits r"
  "rg_limits (close_subscription r w) = rg_limits r"
  by (simp_all add: open_session_def disconnect_def disconnect_session_def heartbeat_op_def
      consume_ingress_def begin_op_def chunk_op_def prune_expired_def prune_fold_simps
      subscribe_def next_change_def close_subscription_def Let_def
      split: option.split prod.split list.split)

lemma delta_limits [simp]:
  "rg_limits (fst (stage_delta P r i c s d)) = rg_limits r"
  "rg_limits (fst (live_delta P r i c s d x t)) = rg_limits r"
  "rg_limits (fst (delta_op P r i g d' t)) = rg_limits r"
proof -
  show 1: "rg_limits (fst (stage_delta P r i c s d)) = rg_limits r" for c s d
    by (simp add: stage_delta_def Let_def split: option.split)
  show 2: "rg_limits (fst (live_delta P r i c s d x t)) = rg_limits r" for c s d x
    by (simp add: live_delta_def Let_def split: option.split)
  show "rg_limits (fst (delta_op P r i g d' t)) = rg_limits r"
    by (simp add: delta_op_def Let_def 1 2 split: option.split)
qed

lemma commit_limits [simp]: "rg_limits (fst (commit_op P r i g e t)) = rg_limits r"
  by (simp add: commit_op_def Let_def split: option.split sum.split)

lemma reg_step_limits [simp]: "rg_limits (reg_step P op r) = rg_limits r"
  by (cases op) simp_all

lemma subscription_clusters:
  "rg_clusters (fst (subscribe r ids)) = rg_clusters r"
  "rg_clusters (fst (next_change r n)) = rg_clusters r"
  "rg_clusters (close_subscription r n) = rg_clusters r"
  "rg_total_bytes (fst (subscribe r ids)) = rg_total_bytes r"
  "rg_total_bytes (fst (next_change r n)) = rg_total_bytes r"
  "rg_total_bytes (close_subscription r n) = rg_total_bytes r"
  by (auto simp: subscribe_def next_change_def close_subscription_def Let_def
      split: option.splits list.splits prod.splits)

lemma clusters_ok_step:
  assumes "reg_inv P r"
  shows "clusters_ok P (reg_step P op r)"
proof -
  have P: "sizes_ok P" and r: "clusters_ok P r" and L: "0 \<le> l_max_state_bytes (rg_limits r)"
    using assms by (auto simp: reg_inv_def limits_valid_def)
  show ?thesis
  proof (cases op)
    case (Op_subscribe ids)
    with r reg_step_limits [of P op r] show ?thesis
      by (simp add: clusters_ok_def subscription_clusters)
  next
    case (Op_next n)
    with r reg_step_limits [of P op r] show ?thesis
      by (simp add: clusters_ok_def subscription_clusters)
  next
    case (Op_close n)
    with r reg_step_limits [of P op r] show ?thesis
      by (simp add: clusters_ok_def subscription_clusters)
  qed (use P r L in \<open>simp_all add: reg_keep\<close>)
qed

lemma prune_feed:
  "sizes_ok P \<Longrightarrow> feed_ok (fst rn) \<Longrightarrow> feed_ok (fst (fold (prune_cluster P t) ids rn))"
proof (induction ids arbitrary: rn)
  case (Cons i ids)
  from Cons.prems have "feed_ok (fst (prune_cluster P t i rn))"
    by (cases rn) (auto simp: prune_cluster_def intro!: feed_ok_publish split: option.split)
  with Cons show ?case by simp
qed simp

lemma session_feed:
  assumes "feed_ok r"
  shows "feed_ok (fst (open_session r h a t))" and "feed_ok (disconnect r i t)"
    and "feed_ok (disconnect_session r i g t)" and "feed_ok (fst (consume_ingress r i g n t))"
    and "feed_ok (fst (begin_op r i g b))" and "feed_ok (fst (chunk_op P r i g xs))"
  using assms
  by (simp_all add: open_session_def disconnect_def disconnect_session_def consume_ingress_def
      begin_op_def chunk_op_def Let_def split: option.split prod.split)

lemma heartbeat_feed: "sizes_ok P \<Longrightarrow> feed_ok r \<Longrightarrow> feed_ok (fst (heartbeat_op P r i g h t))"
  by (simp add: heartbeat_op_def Let_def feed_ok_publish split: option.split)

lemma delta_feed:
  assumes P: "sizes_ok P" and r: "feed_ok r"
  shows "feed_ok (fst (delta_op P r i g d' t))"
proof -
  have 1: "feed_ok (fst (stage_delta P r i c s d))" for c s d
    using r by (simp add: stage_delta_def Let_def split: option.split)
  have 2: "feed_ok (fst (live_delta P r i c s d x t))" for c s d x
    using r by (simp add: live_delta_def Let_def feed_ok_publish [OF P] split: option.split)
  show ?thesis
    using r by (simp add: delta_op_def Let_def 1 2 split: option.split)
qed

lemma commit_feed: "sizes_ok P \<Longrightarrow> feed_ok r \<Longrightarrow> feed_ok (fst (commit_op P r i g e t))"
  by (simp add: commit_op_def Let_def feed_ok_publish split: option.split sum.split)

lemma feed_ok_step:
  assumes "reg_inv P r"
  shows "feed_ok (reg_step P op r)"
proof -
  have P: "sizes_ok P" and r: "feed_ok r"
    and L: "0 \<le> l_watch_queue_bytes (rg_limits r)" "0 \<le> l_watch_queue_frames (rg_limits r)"
    using assms by (auto simp: reg_inv_def limits_valid_def)
  show ?thesis
  proof (cases op)
    case (Op_prune t)
    with prune_feed [OF P, of "(r, 0)"] r show ?thesis by (simp add: prune_expired_def)
  qed (use P r L in \<open>simp_all add: feed_ok_subscribe feed_ok_next feed_ok_close session_feed
        heartbeat_feed delta_feed commit_feed\<close>)
qed

lemma reg_inv_step: "reg_inv P r \<Longrightarrow> reg_inv P (reg_step P op r)"
  using clusters_ok_step [of P r op] feed_ok_step [of P r op] by (simp add: reg_inv_def)

lemma new_registry_inv:
  assumes P: "sizes_ok P" and new: "new_registry l = Inr r"
  shows "reg_inv P r"
proof -
  from new have L: "limits_valid (rg_limits r)" and empty: "rg_clusters r = []" "rg_watchers r = []"
    "rg_total_bytes r = 0" "rg_watch_queued r = 0"
    by (auto simp: new_registry_def Let_def split: if_splits sum.splits)
  then have "0 \<le> l_max_total_state_bytes (rg_limits r)" "0 \<le> l_watch_total_queue_bytes (rg_limits r)"
    "0 \<le> l_watch_max_subscribers (rg_limits r)" "0 \<le> l_watch_max_per_cluster (rg_limits r)"
    by (simp_all add: limits_valid_def)
  with P L empty show ?thesis
    by (simp add: reg_inv_def clusters_ok_def feed_ok_def open_count_def)
qed

section \<open>The contracts\<close>

text \<open>Two ledgers over the same steps: the bytes the clusters retain, and the bytes the watch
  queues hold.\<close>

interpretation retained: ledger "reg_step P" "reg_inv P" rg_total_bytes
  "\<lambda>r. msum retained_bytes (rg_clusters r)" "\<lambda>r. l_max_total_state_bytes (rg_limits r)" for P
proof
  fix r op
  show "reg_inv P r \<Longrightarrow> reg_inv P (reg_step P op r)" by (rule reg_inv_step)
  show "reg_inv P r \<Longrightarrow> rg_total_bytes r = msum retained_bytes (rg_clusters r)"
    by (simp add: reg_inv_def clusters_ok_def)
  show "reg_inv P r \<Longrightarrow> 0 \<le> rg_total_bytes r
      \<and> rg_total_bytes r \<le> l_max_total_state_bytes (rg_limits r)"
    using retained_nonneg by (fastforce simp: reg_inv_def clusters_ok_def intro!: msum_nonneg)
qed simp

interpretation queued: ledger "reg_step P" "reg_inv P" rg_watch_queued
  "\<lambda>r. msum wa_bytes (rg_watchers r)" "\<lambda>r. l_watch_total_queue_bytes (rg_limits r)" for P
proof
  fix r op
  show "reg_inv P r \<Longrightarrow> rg_watch_queued r = msum wa_bytes (rg_watchers r)"
    by (simp add: reg_inv_def feed_ok_def)
  show "reg_inv P r \<Longrightarrow> 0 \<le> rg_watch_queued r
      \<and> rg_watch_queued r \<le> l_watch_total_queue_bytes (rg_limits r)"
    by (auto simp: reg_inv_def feed_ok_def intro!: msum_nonneg watcher_ok_nonneg)
qed simp

end
