(* ===== verification/Registry_Safety.thy ===== *)
theory Registry_Safety
  imports Registry_Laws
begin

text \<open>
  The properties of the registry: its books, the safety of sessions, what a delta and a
  commit do to the published state, the progress of the published version, staleness, and
  the watch feed's promise that a change is queued or the watcher is cut off.
\<close>

section \<open>The published state under one operation\<close>

text \<open>The specification of one delta on the map of resources.\<close>

definition delta_effect :: "delta \<Rightarrow> (string \<Rightarrow> resource option) \<Rightarrow> (string \<Rightarrow> resource option)" where
  "delta_effect d m =
     (case de_resource d of
        None \<Rightarrow> m
      | Some x \<Rightarrow> m(resource_key x := (if de_deleted d then None else Some x)))"

definition contents :: "snapshot \<Rightarrow> string \<Rightarrow> resource option" where
  "contents s = map_of (sn_resources s)"

lemma apply_delta_contents:
  assumes "sizes_ok P" and "snapshot_ok P L s" and "validate_resource L x = None"
    and "de_resource d = Some x" and "apply_delta P L s d x = Some s'"
  shows "contents s' = delta_effect d (contents s)"
  using apply_delta_Some [OF assms(1-3,5)] assms(4)
  by (auto simp: contents_def delta_effect_def)

text \<open>A run of deltas numbered from the successor of \<open>q\<close>.\<close>

fun numbered_from :: "u64 \<Rightarrow> u64 \<Rightarrow> delta list \<Rightarrow> bool" where
  "numbered_from e q [] = True"
| "numbered_from e q (d # ds) =
     (de_epoch d = e \<and> de_seq d = q + 1 \<and> q < q + 1 \<and> numbered_from e (q + 1) ds)"

lemma replay_numbered:
  assumes "sizes_ok P" and "snapshot_ok P L s" and "list_all (delta_ok L) ds"
    and "numbered_from e (sn_seq s) ds" and "replay P L e s ds = Inr s'"
  shows "contents s' = fold delta_effect ds (contents s)
    \<and> sn_seq s' = sn_seq s + of_nat (length ds)"
  using assms
proof (induction ds arbitrary: s)
  case (Cons d ds)
  have num: "de_epoch d = e" "de_seq d = sn_seq s + 1" "sn_seq s < sn_seq s + 1"
    "numbered_from e (sn_seq s + 1) ds"
    using Cons.prems(4) by auto
  obtain x where x: "de_resource d = Some x" "validate_resource L x = None"
    using Cons.prems(3) by (auto simp: delta_ok_def)
  have skip: "\<not> (de_epoch d \<noteq> e \<or> de_seq d \<le> sn_seq s)" using num by (simp add: not_le)
  have eq: "replay P L e s (d # ds) =
      (case apply_delta P L s d x of
         None \<Rightarrow> Inl ''state_byte_capacity'' | Some s' \<Rightarrow> replay P L e s' ds)"
    unfolding replay.simps(2) if_not_P [OF skip]
    by (simp only: num(2) x(1) option.case simp_thms if_False not_True_eq_False)
  from Cons.prems(5) [unfolded eq] obtain s1 where ap: "apply_delta P L s d x = Some s1"
    and rest: "replay P L e s1 ds = Inr s'"
    by (auto split: option.splits)
  note s1 = apply_delta_Some [OF Cons.prems(1,2) x(2) ap]
  have "contents s1 = delta_effect d (contents s)"
    by (rule apply_delta_contents [OF Cons.prems(1,2) x(2,1) ap])
  moreover have "contents s' = fold delta_effect ds (contents s1)
      \<and> sn_seq s' = sn_seq s1 + of_nat (length ds)"
    by (rule Cons.IH) (use Cons.prems(1,3) s1 rest num in simp_all)
  ultimately show ?case using s1(3) num(2) by simp
qed simp

text \<open>Which clusters an operation leaves alone.\<close>

lemma delta_other_clusters:
  assumes "j \<noteq> i"
  shows "get_cluster (fst (delta_op P r i g d t)) j = get_cluster r j"
proof -
  have 1: "get_cluster (fst (stage_delta P r i c s d)) j = get_cluster r j" for c s d
    using assms by (simp add: stage_delta_def Let_def split: option.split)
  have 2: "get_cluster (fst (live_delta P r i c s d x t)) j = get_cluster r j" for c s d x
    using assms by (simp add: live_delta_def Let_def split: option.split)
  show ?thesis
    by (simp add: delta_op_def Let_def 1 2 split: option.split)
qed

lemma commit_other_clusters:
  "j \<noteq> i \<Longrightarrow> get_cluster (fst (commit_op P r i g e t)) j = get_cluster r j"
  by (simp add: commit_op_def Let_def split: option.split sum.split)

section \<open>Progress\<close>

definition version_le :: "snapshot \<Rightarrow> snapshot \<Rightarrow> bool" where
  "version_le s s' \<longleftrightarrow>
     sn_epoch s < sn_epoch s' \<or> (sn_epoch s = sn_epoch s' \<and> sn_seq s \<le> sn_seq s')"

definition live_of :: "registry \<Rightarrow> string \<Rightarrow> snapshot option" where
  "live_of r i = (case get_cluster r i of None \<Rightarrow> None | Some c \<Rightarrow> cl_live c)"

text \<open>Every operation leaves a cluster's live snapshot alone, drops it, or moves it on.\<close>

definition moves_on :: "snapshot option \<Rightarrow> snapshot option \<Rightarrow> bool" where
  "moves_on a b = (case (a, b) of (Some s, Some s') \<Rightarrow> version_le s s' | _ \<Rightarrow> True)"

lemma moves_on_simps [simp]: "moves_on a a" "moves_on None b" "moves_on a None"
  by (auto simp: moves_on_def version_le_def split: option.split)

lemma moves_on_trans_None: "b = a \<or> b = None \<Longrightarrow> moves_on a b"
  by auto

lemma session_live:
  "moves_on (live_of r j) (live_of (fst (open_session r h a t)) j)"
  "moves_on (live_of r j) (live_of (disconnect r i t) j)"
  "moves_on (live_of r j) (live_of (disconnect_session r i g t) j)"
  "moves_on (live_of r j) (live_of (fst (heartbeat_op P r i g hb t)) j)"
  "moves_on (live_of r j) (live_of (fst (begin_op r i g b)) j)"
  by (auto simp: live_of_def open_session_def disconnect_def disconnect_session_def heartbeat_op_def
      begin_op_def hang_up_def drop_staging_def new_cluster_def Let_def split: option.split)

lemma ingress_live: "moves_on (live_of r j) (live_of (fst (consume_ingress r i g n t)) j)"
  by (auto simp: live_of_def consume_ingress_def charge_ingress_def Let_def
      split: option.split prod.split)

lemma chunk_live: "moves_on (live_of r j) (live_of (fst (chunk_op P r i g xs)) j)"
  by (auto simp: live_of_def chunk_op_def split: option.split prod.split)

lemma version_step:
  "sn_epoch s' = sn_epoch s \<Longrightarrow> sn_seq s \<le> sn_seq s' \<Longrightarrow> version_le s s'"
  by (simp add: version_le_def)

lemma live_of_get: "get_cluster r i = Some c \<Longrightarrow> live_of r i = cl_live c"
  by (simp add: live_of_def)

lemma stage_live: "get_cluster r i = Some c \<Longrightarrow> live_of (fst (stage_delta P r i c s d)) i = cl_live c"
  by (simp add: stage_delta_def Let_def live_of_def split: option.split)

lemma live_delta_version:
  assumes r: "reg_inv P r" and c: "get_cluster r i = Some c" and cur: "cl_live c = Some cur"
    and v: "validate_resource (rg_limits r) x = None"
    and e: "de_epoch d = sn_epoch cur" and q: "sn_seq cur \<le> de_seq d"
  shows "moves_on (Some cur) (live_of (fst (live_delta P r i c cur d x t)) i)"
proof -
  have P: "sizes_ok P" and cl: "clusters_ok P r" using r by (auto simp: reg_inv_def)
  have "snapshot_ok P (rg_limits r) cur"
    using clusters_okD [OF cl c] cur by (simp add: cluster_ok_def)
  note s' = apply_delta_Some [OF P this v]
  show ?thesis
    using c cur e q by (auto simp: live_delta_def Let_def live_of_def moves_on_def version_le_def
        s'(2,3) split: option.split)
qed

lemma delta_live:
  assumes r: "reg_inv P r"
  shows "moves_on (live_of r j) (live_of (fst (delta_op P r i g d' t)) j)"
proof (cases "j = i")
  case False
  then show ?thesis by (simp add: live_of_def delta_other_clusters)
next
  case True
  show ?thesis
    unfolding True
    by (auto simp: delta_op_def Let_def validate_def not_le live_of_get stage_live
        intro!: live_delta_version [OF r] split: option.split)
qed

lemma commit_live: "moves_on (live_of r j) (live_of (fst (commit_op P r i g e t)) j)"
proof (cases "j = i")
  case False
  then show ?thesis by (simp add: live_of_def commit_other_clusters)
next
  case True
  then show ?thesis
    by (auto simp: commit_op_def Let_def live_of_def drop_staging_def moves_on_def version_le_def
        not_le split: option.splits sum.splits)
qed

lemma prune_live: "moves_on (live_of r j) (live_of (fst (prune_expired P r t)) j)"
proof -
  have "live_of (fst (fold (prune_cluster P t) ids rn)) j \<in> {live_of (fst rn) j, None}" for ids rn
  proof (induction ids arbitrary: rn)
    case (Cons i ids)
    have "live_of (fst (prune_cluster P t i rn)) j \<in> {live_of (fst rn) j, None}"
      by (cases rn) (auto simp: prune_cluster_def live_of_def split: option.split)
    with Cons [of "prune_cluster P t i rn"] show ?case by auto
  qed simp
  from this [of "keys_of (rg_clusters r)" "(r, 0)"] show ?thesis
    by (auto simp: prune_expired_def)
qed

lemma step_moves_on:
  assumes "reg_inv P r"
  shows "moves_on (live_of r j) (live_of (reg_step P op r) j)"
proof (cases op)
  case (Op_subscribe ids)
  then show ?thesis by (simp add: live_of_def subscription_clusters)
next
  case (Op_next n)
  then show ?thesis by (simp add: live_of_def subscription_clusters)
next
  case (Op_close n)
  then show ?thesis by (simp add: live_of_def subscription_clusters)
qed (simp_all add: session_live ingress_live chunk_live commit_live prune_live delta_live assms)

section \<open>A concrete registry\<close>

text \<open>One cluster with a session, and one namespace in its committed snapshot; used by the
  witnesses.\<close>

definition demo_ns :: "string \<Rightarrow> resource" where
  "demo_ns n = \<lparr>re_kind = KindNamespace, re_uid = n, re_namespace = [], re_name = n,
     re_owners = [], re_pod = None, re_workload = None, re_node = None, re_event = None\<rparr>"

definition demo_new :: registry where
  "demo_new = (case new_registry default_limits of Inr r \<Rightarrow> r
     | Inl _ \<Rightarrow> \<lparr>rg_limits = default_limits, rg_clusters = [], rg_allowed = [], rg_total_bytes = 0,
          rg_watchers = [], rg_watch_queued = 0, rg_next_watcher = 0\<rparr>)"

definition demo_hello :: hello where
  "demo_hello = \<lparr>he_cluster_id = ''c1'', he_protocol_version = 1\<rparr>"

definition demo_ops :: "reg_op list" where
  "demo_ops =
     [Op_open (Some demo_hello) ''c1'' 1,
      Op_subscribe [''c1''],
      Op_begin ''c1'' 1 (Some \<lparr>bs_epoch = 1, bs_base_seq = 0\<rparr>),
      Op_chunk ''c1'' 1 (Some [demo_ns ''a'']),
      Op_commit ''c1'' 1 (Some 1) 2]"

definition demo_registry :: registry where
  "demo_registry = fold (reg_step demo_sizes) demo_ops demo_new"

definition demo_delta :: "u64 \<Rightarrow> u64 \<Rightarrow> string \<Rightarrow> delta" where
  "demo_delta e q n = \<lparr>de_epoch = e, de_seq = q, de_resource = Some (demo_ns n), de_deleted = False\<rparr>"

lemma demo_new_Inr: "new_registry default_limits = Inr demo_new"
  by code_simp

lemma demo_registry_inv: "reg_inv demo_sizes demo_registry"
  unfolding demo_registry_def
  by (rule retained.run_inv) (rule new_registry_inv [OF demo_sizes_ok demo_new_Inr])

section \<open>Properties\<close>

text \<open>
  (C1) In every run of the registry from \<open>New\<close>, whatever the clusters send and in whatever
  order, the global counter of retained bytes is exactly the sum of what the clusters retain
  (live snapshots, staged snapshots, pending deltas), is never negative and never exceeds the
  configured total.
\<close>

theorem retained_bytes_accounted:
  assumes "sizes_ok P" and "new_registry l = Inr r0"
  shows "rg_total_bytes (fold (reg_step P) ops r0)
      = msum retained_bytes (rg_clusters (fold (reg_step P) ops r0))
    \<and> 0 \<le> rg_total_bytes (fold (reg_step P) ops r0)
    \<and> rg_total_bytes (fold (reg_step P) ops r0) \<le> l_max_total_state_bytes (rg_limits r0)"
  using retained.run_books retained.run_within new_registry_inv [OF assms] by blast

theorem retained_bytes_accounted_witness:
  "rg_total_bytes demo_registry = msum retained_bytes (rg_clusters demo_registry)
    \<and> rg_total_bytes demo_registry = 19"
proof -
  have "rg_total_bytes demo_registry = 19" by code_simp
  then show ?thesis
    using retained_bytes_accounted [OF demo_sizes_ok demo_new_Inr, of demo_ops]
    unfolding demo_registry_def by blast
qed

text \<open>
  (C5) In every run, the bytes queued for all watchers are the sum of the watchers' own
  counters and stay within the global queue limit; every watcher's queue stays within its
  frame and byte limits; and the numbers of open watchers, in all and per cluster, stay
  within the subscriber limits.
\<close>

theorem watch_queues_bounded:
  assumes "sizes_ok P" and "new_registry l = Inr r0"
  shows "rg_watch_queued (fold (reg_step P) ops r0)
      = msum wa_bytes (rg_watchers (fold (reg_step P) ops r0))
    \<and> rg_watch_queued (fold (reg_step P) ops r0) \<le> l_watch_total_queue_bytes (rg_limits r0)
    \<and> list_all (\<lambda>w. wa_bytes w = sum_list (map snd (wa_queue w))
          \<and> wa_bytes w \<le> l_watch_queue_bytes (rg_limits r0)
          \<and> int (length (wa_queue w)) \<le> l_watch_queue_frames (rg_limits r0))
        (map snd (rg_watchers (fold (reg_step P) ops r0)))
    \<and> int (length (open_watchers (fold (reg_step P) ops r0))) \<le> l_watch_max_subscribers (rg_limits r0)
    \<and> int (length (watchers_of (fold (reg_step P) ops r0) i)) \<le> l_watch_max_per_cluster (rg_limits r0)"
proof -
  let ?r = "fold (reg_step P) ops r0"
  have inv: "reg_inv P r0" by (rule new_registry_inv [OF assms])
  then have "feed_ok ?r" using retained.run_inv by (simp add: reg_inv_def)
  moreover have "rg_limits ?r = rg_limits r0"
    by (induction ops arbitrary: r0) simp_all
  moreover have "length (open_watchers ?r) = open_count (\<lambda>_. True) (rg_watchers ?r)"
    "length (watchers_of ?r i) = open_count (\<lambda>cs. i \<in> set cs) (rg_watchers ?r)"
    by (simp_all add: open_watchers_def watchers_of_def open_count_def conj_commute)
  ultimately show ?thesis
    by (auto simp: feed_ok_def watcher_ok_def list_all_iff)
qed

theorem watch_queues_bounded_witness:
  "rg_watch_queued demo_registry = msum wa_bytes (rg_watchers demo_registry)
    \<and> length (open_watchers demo_registry) = 1 \<and> rg_watch_queued demo_registry = 64"
proof -
  have "length (open_watchers demo_registry) = 1 \<and> rg_watch_queued demo_registry = 64" by code_simp
  then show ?thesis
    using watch_queues_bounded [OF demo_sizes_ok demo_new_Inr, of demo_ops]
    unfolding demo_registry_def by blast
qed

text \<open>What \<open>publish\<close> may do to one watcher.\<close>

definition delivered :: "watch_change \<Rightarrow> watcher \<Rightarrow> watcher \<Rightarrow> bool" where
  "delivered ch w w' \<longleftrightarrow>
     (if wa_open w \<and> wc_cluster_id ch \<in> set (wa_clusters w)
      then (wa_open w' \<and> (\<exists>b. wa_queue w' = wa_queue w @ [(ch, b)]))
           \<or> (\<not> wa_open w' \<and> wa_queue w' = wa_queue w)
      else w' = w)"

lemma offer_delivered: "offer P L ch w q = (w', q') \<Longrightarrow> delivered ch w w'"
  by (auto simp: offer_def delivered_def Let_def split: if_splits)

lemma offer_all_delivered:
  "map_of ws n = Some w \<Longrightarrow>
    \<exists>w'. map_of (fst (offer_all P L ch ws q)) n = Some w' \<and> delivered ch w w'"
proof (induction ws arbitrary: q)
  case (Cons a ws)
  obtain m v where a: "a = (m, v)" by (cases a)
  obtain v1 q1 where o1: "offer P L ch v q = (v1, q1)" by (cases "offer P L ch v q")
  with Cons.IH [of q1] Cons.prems a offer_delivered [OF o1] show ?case
    by (auto split: if_splits prod.splits)
qed simp

text \<open>
  (C6) The feed never loses a change silently: after \<open>publish\<close>, every watcher that was open
  and subscribed to the change's cluster either has the change at the end of its queue, after
  everything it had before, or has been closed; every other watcher is untouched.
\<close>

theorem publish_reaches_or_closes:
  assumes "map_of (rg_watchers r) n = Some w"
  shows "\<exists>w'. map_of (rg_watchers (publish P ch r)) n = Some w' \<and> delivered ch w w'"
  using offer_all_delivered [OF assms, of P "rg_limits r" ch "rg_watch_queued r"]
  by (auto simp: publish_def split: prod.splits)

theorem publish_reaches_or_closes_witness:
  "\<exists>w w'. map_of (rg_watchers demo_registry) 0 = Some w \<and> wa_open w
    \<and> map_of (rg_watchers (publish demo_sizes (delta_change ''c1'' (demo_delta 1 1 ''b'') (demo_ns ''b'') False 5)
        demo_registry)) 0 = Some w'
    \<and> delivered (delta_change ''c1'' (demo_delta 1 1 ''b'') (demo_ns ''b'') False 5) w w'"
proof -
  have "case map_of (rg_watchers demo_registry) 0 of None \<Rightarrow> False | Some w \<Rightarrow> wa_open w" by code_simp
  then obtain w where w: "map_of (rg_watchers demo_registry) 0 = Some w" "wa_open w"
    by (auto split: option.splits)
  show ?thesis
    using w publish_reaches_or_closes [OF w(1), of demo_sizes
        "delta_change ''c1'' (demo_delta 1 1 ''b'') (demo_ns ''b'') False 5"] by blast
qed

text \<open>
  A superseded session is inert: once a new session of the cluster is open, no frame sent
  under an older session number changes the registry, and each is answered
  \<open>session_preempted\<close> (an ingress charge is refused).
\<close>

lemma superseded_session_is_inert:
  assumes "open_session r h i now = (r', Inr g')" and "g \<noteq> g'" and "g \<noteq> 0"
  shows "begin_op r' i g (Some b) = (r', Some ''session_preempted'')
    \<and> chunk_op P r' i g (Some xs) = (r', Some ''session_preempted'')
    \<and> delta_op P r' i g (Some d) t = (r', Nack ''session_preempted'')
    \<and> commit_op P r' i g (Some e) t = (r', Nack ''session_preempted'')
    \<and> heartbeat_op P r' i g (Some hb) t = (r', Nack ''session_preempted'')
    \<and> disconnect_session r' i g t = r'
    \<and> consume_ingress r' i g n t = (r', False)"
proof -
  have "\<exists>c. get_cluster r' i = Some c \<and> cl_generation c = g'"
    using assms(1) by (auto simp: open_session_def Let_def split: option.splits if_splits)
  with assms(2,3) show ?thesis
    by (auto simp: begin_op_def chunk_op_def delta_op_def commit_op_def heartbeat_op_def
        disconnect_session_def consume_ingress_def preempted_def)
qed

text \<open>
  (C4) The published version of a cluster never moves backwards: under any operation, a live
  snapshot stays, is dropped by pruning, or is replaced by one of a later epoch, or of the
  same epoch and a sequence number at least as large.
\<close>

theorem live_version_monotone:
  assumes "reg_inv P r" and "live_of r i = Some s" and "live_of (reg_step P op r) i = Some s'"
  shows "sn_epoch s < sn_epoch s' \<or> (sn_epoch s = sn_epoch s' \<and> sn_seq s \<le> sn_seq s')"
  using step_moves_on [OF assms(1), of i op] assms(2,3)
  by (simp add: moves_on_def version_le_def)

theorem live_version_monotone_witness:
  "\<exists>s s'. live_of demo_registry ''c1'' = Some s
    \<and> live_of (reg_step demo_sizes (Op_delta ''c1'' 1 (Some (demo_delta 1 1 ''b'')) 5) demo_registry) ''c1''
      = Some s' \<and> sn_seq s < sn_seq s'
    \<and> (sn_epoch s < sn_epoch s' \<or> (sn_epoch s = sn_epoch s' \<and> sn_seq s \<le> sn_seq s'))"
proof -
  have "case (live_of demo_registry ''c1'', live_of (reg_step demo_sizes
        (Op_delta ''c1'' 1 (Some (demo_delta 1 1 ''b'')) 5) demo_registry) ''c1'') of
      (Some s, Some s') \<Rightarrow> sn_seq s < sn_seq s' | _ \<Rightarrow> False" by code_simp
  then obtain s s' where "live_of demo_registry ''c1'' = Some s"
    "live_of (reg_step demo_sizes (Op_delta ''c1'' 1 (Some (demo_delta 1 1 ''b'')) 5) demo_registry) ''c1''
      = Some s'" "sn_seq s < sn_seq s'"
    by (auto split: option.splits)
  with live_version_monotone [OF demo_registry_inv this(1,2)] show ?thesis by blast
qed

end
