(* ===== verification/Registry_Effects.thy ===== *)
theory Registry_Effects
  imports Registry_Safety
begin

text \<open>
  What the accepted messages of an agent do to the published state: a delta applies its
  effect to one cluster, a commit publishes the staged snapshot with the deltas that raced
  with it, and a read serves exactly what pruning would keep.
\<close>

section \<open>One delta\<close>

lemma live_delta_effect:
  assumes r: "reg_inv P r" and c: "get_cluster r i = Some c" and cur: "cl_live c = Some cur"
    and x: "de_resource d = Some x" and v: "validate_resource (rg_limits r) x = None"
    and ok: "live_delta P r i c cur d x now = (r', Ack e q dup)"
  shows "\<exists>s'. live_of r' i = Some s' \<and> contents s' = delta_effect d (contents cur)
    \<and> sn_epoch s' = de_epoch d \<and> sn_seq s' = de_seq d \<and> sn_observed s' = now
    \<and> e = de_epoch d \<and> q = de_seq d \<and> \<not> dup"
proof -
  have P: "sizes_ok P" and cl: "clusters_ok P r" using r by (auto simp: reg_inv_def)
  have cok: "snapshot_ok P (rg_limits r) cur"
    using clusters_okD [OF cl c] cur by (simp add: cluster_ok_def)
  obtain s1 where s1: "apply_delta P (rg_limits r) cur d x = Some s1"
    using ok by (auto simp: live_delta_def Let_def split: option.splits)
  note st = apply_delta_Some(2,3) [OF P cok v s1]
  have con: "contents s1 = delta_effect d (contents cur)"
    by (rule apply_delta_contents [OF P cok v x s1])
  show ?thesis
    using ok st con s1
    by (auto simp: live_delta_def Let_def live_of_def contents_def split: option.splits)
qed

text \<open>What an accepted, new delta has passed.\<close>

lemma delta_op_accepted:
  assumes "get_cluster r i = Some c" and "cl_live c = Some cur" and "cl_staging c = None"
    and ok: "delta_op P r i g (Some d) now = (r', Ack e q False)"
  shows "\<exists>x. de_resource d = Some x \<and> validate_resource (rg_limits r) x = None
    \<and> de_epoch d = sn_epoch cur \<and> sn_seq cur < de_seq d \<and> de_seq d = sn_seq cur + 1
    \<and> live_delta P r i c cur d x now = (r', Ack e q False)"
proof -
  note c = assms(1) and cur = assms(2) and st = assms(3)
  have pre: "\<not> preempted c g" using ok c by (auto simp: delta_op_def split: if_splits)
  obtain x where x: "de_resource d = Some x"
    using ok c pre by (auto simp: delta_op_def split: option.splits)
  have v: "validate_resource (rg_limits r) x = None"
    using ok c pre x by (auto simp: delta_op_def validate_def split: option.splits)
  show ?thesis
    using ok c pre x v cur st by (auto simp: delta_op_def validate_def Let_def split: if_splits)
qed

lemma delta_published:
  assumes r: "reg_inv P r" and c: "get_cluster r i = Some c" and cur: "cl_live c = Some cur"
    and st: "cl_staging c = None" and ok: "delta_op P r i g (Some d) now = (r', Ack e q False)"
  shows "(\<exists>s'. live_of r' i = Some s' \<and> contents s' = delta_effect d (contents cur)
      \<and> sn_epoch s' = sn_epoch cur \<and> sn_seq s' = sn_seq cur + 1 \<and> sn_seq cur < sn_seq s'
      \<and> sn_observed s' = now \<and> e = sn_epoch s' \<and> q = sn_seq s')
    \<and> (\<forall>j. j \<noteq> i \<longrightarrow> get_cluster r' j = get_cluster r j)"
proof -
  obtain x where x: "de_resource d = Some x" and v: "validate_resource (rg_limits r) x = None"
    and num: "de_epoch d = sn_epoch cur" "sn_seq cur < de_seq d" "de_seq d = sn_seq cur + 1"
    and ld: "live_delta P r i c cur d x now = (r', Ack e q False)"
    using delta_op_accepted [OF c cur st ok] by blast
  have other: "j \<noteq> i \<Longrightarrow> get_cluster r' j = get_cluster r j" for j
    using delta_other_clusters [of j i P r g "Some d" now] ok by simp
  show ?thesis
    using live_delta_effect [OF r c cur x v ld] num other by fastforce
qed

text \<open>
  (C3) An accepted delta outside a resync has exactly its effect: the published map of the
  cluster gains, replaces or loses the one resource the delta names, its version advances by
  one within the epoch without wrapping, the answer carries the new version, and no other
  cluster changes.
\<close>

theorem delta_applies:
  assumes r: "reg_inv P r" and c: "get_cluster r i = Some c" and cur: "cl_live c = Some cur"
    and st: "cl_staging c = None" and ok: "delta_op P r i g (Some d) now = (r', Ack e q False)"
  shows "(\<exists>s'. live_of r' i = Some s' \<and> contents s' = delta_effect d (contents cur)
      \<and> sn_epoch s' = sn_epoch cur \<and> sn_seq s' = sn_seq cur + 1 \<and> sn_seq cur < sn_seq s'
      \<and> sn_observed s' = now \<and> e = sn_epoch s' \<and> q = sn_seq s')
    \<and> (\<forall>j. j \<noteq> i \<longrightarrow> get_cluster r' j = get_cluster r j)"
  by (rule delta_published [OF assms])

theorem delta_applies_witness:
  "\<exists>c cur r' s'. get_cluster demo_registry ''c1'' = Some c \<and> cl_live c = Some cur
    \<and> delta_op demo_sizes demo_registry ''c1'' 1 (Some (demo_delta 1 1 ''b'')) 5 = (r', Ack 1 1 False)
    \<and> live_of r' ''c1'' = Some s'
    \<and> contents s' = delta_effect (demo_delta 1 1 ''b'') (contents cur)"
proof -
  have "case get_cluster demo_registry ''c1'' of None \<Rightarrow> False
    | Some c \<Rightarrow> cl_live c \<noteq> None \<and> cl_staging c = None" by code_simp
  then obtain c cur where c: "get_cluster demo_registry ''c1'' = Some c" "cl_live c = Some cur"
    "cl_staging c = None"
    by (auto split: option.splits)
  have "snd (delta_op demo_sizes demo_registry ''c1'' 1 (Some (demo_delta 1 1 ''b'')) 5) = Ack 1 1 False"
    by code_simp
  then obtain r' where r': "delta_op demo_sizes demo_registry ''c1'' 1 (Some (demo_delta 1 1 ''b'')) 5
      = (r', Ack 1 1 False)"
    by (metis prod.collapse)
  from delta_applies [OF demo_registry_inv c r'] c r' show ?thesis by blast
qed

section \<open>The commit\<close>

text \<open>The pending deltas that the replay applies: those of the epoch above the snapshot.\<close>

fun replayed :: "u64 \<Rightarrow> u64 \<Rightarrow> delta list \<Rightarrow> delta list" where
  "replayed e q [] = []"
| "replayed e q (d # ds) =
     (if de_epoch d \<noteq> e \<or> de_seq d \<le> q then replayed e q ds else d # replayed e (de_seq d) ds)"

lemma replay_effect:
  assumes "sizes_ok P" and "snapshot_ok P L s" and "list_all (delta_ok L) ds"
    and "sn_epoch s = e" and "replay P L e s ds = Inr s'"
  shows "contents s' = fold delta_effect (replayed e (sn_seq s) ds) (contents s)
    \<and> sn_seq s' = sn_seq s + of_nat (length (replayed e (sn_seq s) ds)) \<and> sn_epoch s' = e"
  using assms
proof (induction ds arbitrary: s)
  case (Cons d ds)
  obtain x where x: "de_resource d = Some x" "validate_resource L x = None"
    using Cons.prems(3) by (auto simp: delta_ok_def)
  show ?case
  proof (cases "de_epoch d \<noteq> e \<or> de_seq d \<le> sn_seq s")
    case True
    with Cons show ?thesis by simp
  next
    case False
    with Cons.prems(5) x obtain s1 where num: "de_seq d = sn_seq s + 1" "de_epoch d = e"
      and ap: "apply_delta P L s d x = Some s1" and rest: "replay P L e s1 ds = Inr s'"
      by (auto split: if_splits option.splits)
    note s1 = apply_delta_Some [OF Cons.prems(1,2) x(2) ap]
    have "contents s1 = delta_effect d (contents s)"
      by (rule apply_delta_contents [OF Cons.prems(1,2) x(2,1) ap])
    moreover have "contents s' = fold delta_effect (replayed e (sn_seq s1) ds) (contents s1)
        \<and> sn_seq s' = sn_seq s1 + of_nat (length (replayed e (sn_seq s1) ds)) \<and> sn_epoch s' = e"
      by (rule Cons.IH) (use Cons.prems(1,3) s1(1,2) num rest in simp_all)
    moreover have "replayed e (sn_seq s) (d # ds) = d # replayed e (sn_seq s1) ds"
      unfolding replayed.simps(2) if_not_P [OF False] s1(3) ..
    ultimately show ?thesis using s1(3) num(1) by simp
  qed
qed simp

lemma commit_published:
  assumes r: "reg_inv P r" and c: "get_cluster r i = Some c" and s: "cl_staging c = Some s"
    and ok: "commit_op P r i g (Some e) now = (r', Ack e' q False)"
  shows "(\<exists>c' s'. get_cluster r' i = Some c' \<and> cl_live c' = Some s'
      \<and> contents s' = fold delta_effect (replayed e (sn_seq s) (cl_pending c)) (contents s)
      \<and> sn_epoch s' = e \<and> sn_seq s' = sn_seq s + of_nat (length (replayed e (sn_seq s) (cl_pending c)))
      \<and> sn_observed s' = now \<and> e' = e \<and> q = sn_seq s'
      \<and> cl_staging c' = None \<and> cl_pending c' = [] \<and> cl_pending_bytes c' = 0
      \<and> (\<forall>l. cl_live c = Some l \<longrightarrow> sn_epoch l < e))
    \<and> (\<forall>j. j \<noteq> i \<longrightarrow> get_cluster r' j = get_cluster r j)"
proof -
  have P: "sizes_ok P" and cl: "clusters_ok P r" using r by (auto simp: reg_inv_def)
  have sok: "snapshot_ok P (rg_limits r) s" and pok: "list_all (delta_ok (rg_limits r)) (cl_pending c)"
    using clusters_okD [OF cl c] s by (auto simp: cluster_ok_def)
  have pre: "\<not> preempted c g" and ep: "sn_epoch s = e"
    using ok c s by (auto simp: commit_op_def split: if_splits)
  obtain s1 where s1: "replay P (rg_limits r) e s (cl_pending c) = Inr s1"
    using ok c s pre ep by (auto simp: commit_op_def split: sum.splits)
  have newer: "\<not> (case cl_live c of None \<Rightarrow> False | Some l \<Rightarrow> sn_epoch s1 \<le> sn_epoch l)"
    using ok c s pre ep s1 by (auto simp: commit_op_def Let_def split: if_splits option.splits)
  have r': "r' = publish P \<lparr>wc_cluster_id = i, wc_epoch = sn_epoch s1, wc_seq = sn_seq s1,
       wc_change = None, wc_reset = True, wc_heartbeat = False, wc_expired = False, wc_observed = now\<rparr>
       (settle_cluster i c ((drop_staging c)\<lparr>cl_live := Some (s1\<lparr>sn_observed := now\<rparr>)\<rparr>) r)"
    and ans: "e' = e" "q = sn_seq s1"
    using ok c s pre ep s1 newer
    by (auto simp: commit_op_def Let_def split: option.splits if_splits)
  have other: "j \<noteq> i \<Longrightarrow> get_cluster r' j = get_cluster r j" for j
    using commit_other_clusters [of j i P r g "Some e" now] ok by simp
  show ?thesis
    using replay_effect [OF P sok pok ep s1] newer ans other
    by (auto simp: r' drop_staging_def contents_def not_le split: option.splits)
qed

definition demo_resync :: registry where
  "demo_resync =
     fold (reg_step demo_sizes)
       [Op_begin ''c1'' 1 (Some \<lparr>bs_epoch = 2, bs_base_seq = 0\<rparr>),
        Op_chunk ''c1'' 1 (Some [demo_ns ''x'']),
        Op_delta ''c1'' 1 (Some (demo_delta 2 1 ''y'')) 3] demo_registry"

lemma demo_resync_inv: "reg_inv demo_sizes demo_resync"
  unfolding demo_resync_def by (rule retained.run_inv) (rule demo_registry_inv)

text \<open>
  (C2) A commit refines the abstract resync: the published map becomes the staged map with
  the effects of the raced deltas of that epoch applied in order, numbered without a gap; the
  staging area and its pending deltas are empty again; the epoch is the committed one and
  later than the epoch it replaces; no other cluster changes.
\<close>

theorem commit_publishes_replay:
  assumes r: "reg_inv P r" and c: "get_cluster r i = Some c" and s: "cl_staging c = Some s"
    and ok: "commit_op P r i g (Some e) now = (r', Ack e' q False)"
  shows "(\<exists>c' s'. get_cluster r' i = Some c' \<and> cl_live c' = Some s'
      \<and> contents s' = fold delta_effect (replayed e (sn_seq s) (cl_pending c)) (contents s)
      \<and> sn_epoch s' = e \<and> sn_seq s' = sn_seq s + of_nat (length (replayed e (sn_seq s) (cl_pending c)))
      \<and> sn_observed s' = now \<and> e' = e \<and> q = sn_seq s'
      \<and> cl_staging c' = None \<and> cl_pending c' = [] \<and> cl_pending_bytes c' = 0
      \<and> (\<forall>l. cl_live c = Some l \<longrightarrow> sn_epoch l < e))
    \<and> (\<forall>j. j \<noteq> i \<longrightarrow> get_cluster r' j = get_cluster r j)"
  by (rule commit_published [OF assms])

theorem commit_publishes_replay_witness:
  "\<exists>c s c' s' r'. get_cluster demo_resync ''c1'' = Some c \<and> cl_staging c = Some s
    \<and> length (replayed 2 (sn_seq s) (cl_pending c)) = 1
    \<and> commit_op demo_sizes demo_resync ''c1'' 1 (Some 2) 4 = (r', Ack 2 1 False)
    \<and> get_cluster r' ''c1'' = Some c' \<and> cl_live c' = Some s'
    \<and> contents s' = fold delta_effect (replayed 2 (sn_seq s) (cl_pending c)) (contents s)"
proof -
  have "case get_cluster demo_resync ''c1'' of None \<Rightarrow> False
    | Some c \<Rightarrow> (case cl_staging c of None \<Rightarrow> False
        | Some s \<Rightarrow> length (replayed 2 (sn_seq s) (cl_pending c)) = 1)" by code_simp
  then obtain c s where c: "get_cluster demo_resync ''c1'' = Some c" "cl_staging c = Some s"
    "length (replayed 2 (sn_seq s) (cl_pending c)) = 1"
    by (auto split: option.splits)
  have ans: "snd (commit_op demo_sizes demo_resync ''c1'' 1 (Some 2) 4) = Ack 2 1 False" by code_simp
  obtain r' where r': "commit_op demo_sizes demo_resync ''c1'' 1 (Some 2) 4 = (r', Ack 2 1 False)"
    by (rule exE [OF ex_pair_snd [OF ans]])
  from commit_publishes_replay [OF demo_resync_inv c(1,2) r'] obtain c' s'
    where "get_cluster r' ''c1'' = Some c'" "cl_live c' = Some s'"
      "contents s' = fold delta_effect (replayed 2 (sn_seq s) (cl_pending c)) (contents s)"
    by (elim conjE exE) (rule that)
  with c r' show ?thesis by (intro exI conjI) assumption+
qed

section \<open>Reads and pruning\<close>

text \<open>The reachable registries, as an inductive relation over the operations.\<close>

inductive reg_reach :: "proto_sizes \<Rightarrow> registry \<Rightarrow> registry \<Rightarrow> bool" for P :: proto_sizes where
  start: "reg_reach P r r"
| step: "reg_reach P r s \<Longrightarrow> reg_reach P r (reg_step P op s)"

text \<open>A connected cluster has no time of disconnection.\<close>

definition session_ok :: "cluster \<Rightarrow> bool" where
  "session_ok c \<longleftrightarrow> (cl_connected c \<longrightarrow> cl_disconnected_at c = 0)"

definition sessions_ok :: "registry \<Rightarrow> bool" where
  "sessions_ok r \<longleftrightarrow> (\<forall>i c. get_cluster r i = Some c \<longrightarrow> session_ok c)"

lemma sessions_okD: "sessions_ok r \<Longrightarrow> get_cluster r i = Some c \<Longrightarrow> session_ok c"
  by (simp add: sessions_ok_def)

lemma sessions_ok_same [simp]:
  "sessions_ok (publish P ch r) = sessions_ok r"
  "sessions_ok (r\<lparr>rg_total_bytes := t\<rparr>) = sessions_ok r"
  by (simp_all add: sessions_ok_def)

lemma sessions_ok_put [intro]:
  "sessions_ok r \<Longrightarrow> session_ok c \<Longrightarrow> sessions_ok (set_cluster i c r)"
  "sessions_ok r \<Longrightarrow> session_ok c \<Longrightarrow> sessions_ok (settle_cluster i a c r)"
  by (simp_all add: sessions_ok_def)

lemma session_ok_simps [simp]:
  "session_ok new_cluster" "session_ok (hang_up t c)"
  "session_ok (drop_staging c) = session_ok c"
  "session_ok (c\<lparr>cl_live := l\<rparr>) = session_ok c"
  "session_ok (c\<lparr>cl_staging := l\<rparr>) = session_ok c"
  "session_ok (c\<lparr>cl_pending := ds\<rparr>) = session_ok c"
  "session_ok (c\<lparr>cl_pending_bytes := b\<rparr>) = session_ok c"
  "session_ok (c\<lparr>cl_heartbeat_at := t\<rparr>) = session_ok c"
  "session_ok (c\<lparr>cl_disconnected_at := 0\<rparr>)"
  "session_ok (fst (charge_ingress L c n t)) = session_ok c"
  by (simp_all add: session_ok_def new_cluster_def hang_up_def drop_staging_def
      charge_ingress_def Let_def)

lemma sessions_ok_step:
  assumes r: "sessions_ok r"
  shows "sessions_ok (reg_step P op r)"
proof -
  note D = sessions_okD [OF r]
  have stage: "sessions_ok (fst (stage_delta P r i c s d))" if "session_ok c" for i c s d
    using r that by (auto simp: stage_delta_def Let_def split: option.split)
  have live: "sessions_ok (fst (live_delta P r i c s d x t))" if "session_ok c" for i c s d x t
    using r that by (auto simp: live_delta_def Let_def split: option.split)
  have prune: "sessions_ok (fst (fold (prune_cluster P t) ids rn))" if "sessions_ok (fst rn)" for t ids rn
    using that
  proof (induction ids arbitrary: rn)
    case (Cons i ids)
    then have "sessions_ok (fst (prune_cluster P t i rn))"
      by (cases rn) (auto simp: prune_cluster_def sessions_okD
          intro!: sessions_ok_put split: option.split)
    with Cons.IH show ?case by simp
  qed simp
  show ?thesis
  proof (cases op)
    case (Op_delta i g d' t)
    then show ?thesis
      using r by (auto simp: delta_op_def Let_def D intro!: stage live split: option.split)
  next
    case (Op_commit i g e t)
    then show ?thesis
      using r by (auto simp: commit_op_def Let_def D intro!: sessions_ok_put split: option.split sum.split)
  next
    case (Op_prune t)
    then show ?thesis using prune [of "(r, 0)"] r by (simp add: prune_expired_def)
  next
    case (Op_open h a t)
    then show ?thesis
      using r by (auto simp: open_session_def Let_def session_ok_def split: option.split)
  next
    case (Op_subscribe ids)
    with r show ?thesis by (simp add: sessions_ok_def subscription_clusters)
  next
    case (Op_next n)
    with r show ?thesis by (simp add: sessions_ok_def subscription_clusters)
  next
    case (Op_close n)
    with r show ?thesis by (simp add: sessions_ok_def subscription_clusters)
  next
    case (Op_ingress i g n t)
    then show ?thesis
      using r by (auto simp: consume_ingress_def split_beta D intro!: sessions_ok_put
          split: option.split)
  next
    case (Op_chunk i g xs)
    then show ?thesis
      using r by (auto simp: chunk_op_def D intro!: sessions_ok_put split: option.split prod.split)
  next
    case (Op_heartbeat i g h t)
    then show ?thesis
      using r by (auto simp: heartbeat_op_def Let_def D intro!: sessions_ok_put split: option.split)
  next
    case (Op_begin i g b)
    then show ?thesis
      using r by (auto simp: begin_op_def Let_def D intro!: sessions_ok_put split: option.split)
  next
    case (Op_disconnect i t)
    then show ?thesis
      using r by (auto simp: disconnect_def intro!: sessions_ok_put split: option.split)
  next
    case (Op_disconnect_session i g t)
    then show ?thesis
      using r by (auto simp: disconnect_session_def intro!: sessions_ok_put split: option.split)
  qed
qed

lemma reach_sessions_ok: "reg_reach P r s \<Longrightarrow> sessions_ok r \<Longrightarrow> sessions_ok s"
  by (induction rule: reg_reach.induct) (auto intro: sessions_ok_step)

lemma reach_limits: "reg_reach P r s \<Longrightarrow> rg_limits s = rg_limits r"
  by (induction rule: reg_reach.induct) simp_all

lemma new_registry_Inr:
  "new_registry l = Inr r0 \<Longrightarrow>
    sessions_ok r0 \<and> limits_valid (rg_limits r0) \<and> rg_clusters r0 = []"
  by (auto simp: new_registry_def Let_def sessions_ok_def split: if_splits sum.splits)

text \<open>
  Pruning and reading agree: in every reachable registry, a snapshot is pruned only when
  a read at that moment already answers \<open>cluster_unavailable\<close>; and when the moment it went
  stale is known (not Go's zero time), it is pruned exactly then.
\<close>

lemma prune_removes_only_unreadable:
  assumes "new_registry l = Inr r0" and "reg_reach P r0 r" and c: "get_cluster r i = Some c"
    and live: "cl_live c = Some s"
  shows "(prune_due (rg_limits r) c now \<longrightarrow> read_snapshot r i now = Inl ''cluster_unavailable'')
    \<and> (stale_start (rg_limits r) c \<noteq> 0 \<longrightarrow>
        prune_due (rg_limits r) c now = (read_snapshot r i now = Inl ''cluster_unavailable''))"
proof -
  have ses: "session_ok c" and L: "limits_valid (rg_limits r)"
    using new_registry_Inr [OF assms(1)] reach_sessions_ok [OF assms(2)] reach_limits [OF assms(2)]
      sessions_okD c by auto
  show ?thesis
  proof (cases "cl_connected c")
    case True
    let ?a = "cl_heartbeat_at c + l_heartbeat_timeout (rg_limits r)"
    have "l_stale_ttl (rg_limits r) < time_sub now ?a \<Longrightarrow>
        l_heartbeat_timeout (rg_limits r) < time_sub now (cl_heartbeat_at c)"
      using L by (auto simp: limits_valid_def time_sub_def second_def)
    with True ses c live show ?thesis
      by (auto simp: prune_due_def read_snapshot_def Let_def is_stale_def stale_start_def session_ok_def)
  next
    case False
    with c live show ?thesis
      by (auto simp: prune_due_def read_snapshot_def Let_def is_stale_def stale_start_def)
  qed
qed

section \<open>A delta that races with a resync\<close>

text \<open>
  (C7) While a resync is staged, a delta is compared with the sequence number of the live
  snapshot only, whatever epoch it belongs to: a delta of the staged epoch whose number does
  not exceed the live one is answered as a duplicate and dropped, so the commit that follows
  publishes a snapshot without it.
\<close>

theorem staged_delta_below_live_is_dropped:
  assumes "get_cluster r i = Some c" and "\<not> preempted c g" and "cl_staging c = Some s"
    and "cl_live c = Some cur" and "de_resource d = Some x"
    and "validate_resource (rg_limits r) x = None" and "de_seq d \<le> sn_seq cur"
  shows "delta_op P r i g (Some d) now = (r, Ack (de_epoch d) (sn_seq cur) True)"
  using assms by (simp add: delta_op_def validate_def Let_def)

theorem staged_delta_below_live_is_dropped_witness:
  "\<exists>r. r = fold (reg_step demo_sizes)
        [Op_delta ''c1'' 1 (Some (demo_delta 1 1 ''b'')) 5,
         Op_begin ''c1'' 1 (Some \<lparr>bs_epoch = 2, bs_base_seq = 0\<rparr>)] demo_registry
    \<and> delta_op demo_sizes r ''c1'' 1 (Some (demo_delta 2 1 ''lost'')) 6 = (r, Ack 2 1 True)"
proof -
  define r where "r = fold (reg_step demo_sizes)
        [Op_delta ''c1'' 1 (Some (demo_delta 1 1 ''b'')) 5,
         Op_begin ''c1'' 1 (Some \<lparr>bs_epoch = 2, bs_base_seq = 0\<rparr>)] demo_registry"
  have "case get_cluster r ''c1'' of None \<Rightarrow> False
    | Some c \<Rightarrow> (case (cl_staging c, cl_live c) of
        (Some s, Some cur) \<Rightarrow> sn_epoch s = 2 \<and> sn_seq cur = 1 \<and> \<not> preempted c 1 | _ \<Rightarrow> False)"
    unfolding r_def by code_simp
  then obtain c s cur where c: "get_cluster r ''c1'' = Some c" "\<not> preempted c 1"
    "cl_staging c = Some s" "cl_live c = Some cur" and q: "sn_seq cur = 1"
    by (auto split: option.splits)
  have v: "validate_resource (rg_limits r) (demo_ns ''lost'') = None"
    unfolding r_def by code_simp
  have d: "de_resource (demo_delta 2 1 ''lost'') = Some (demo_ns ''lost'')"
    "de_seq (demo_delta 2 1 ''lost'') = 1" "de_epoch (demo_delta 2 1 ''lost'') = 2"
    by (simp_all add: demo_delta_def)
  have le: "de_seq (demo_delta 2 1 ''lost'') \<le> sn_seq cur" using q d by simp
  from staged_delta_below_live_is_dropped [OF c d(1) v le, of demo_sizes 6] q d
  show ?thesis unfolding r_def by metis
qed

end
