(* ===== verification/Remote_Catalog.thy ===== *)
theory Remote_Catalog
  imports Cluster_Id Wire_Protocol
begin

text \<open>
  The API side of the watch stream (\<^verbatim>\<open>internal/clusterstate/remote_catalog.go\<close>): per
  cluster a visible map of catalog resources with its version, and a staged map that a commit
  swaps in; across clusters, four counters of resources and bytes, staged and live, with their
  limits. \<open>Apply\<close> takes one frame; its calls are taken one at a time here. Within one call the
  code changes the shared counters in short critical sections, so calls for other clusters
  may come between two rows of a chunk; what such a call adds to or takes from the counters
  is its own, and the books below are kept row by row.
\<close>

section \<open>State\<close>

record catalog_cluster =
  ca_epoch :: u64
  ca_seq :: u64
  ca_resources :: "(string, catalog_resource) gomap"
  ca_staging :: "(string, catalog_resource) gomap option"
  ca_stage_epoch :: u64
  ca_stage_seq :: u64
  ca_stage_bytes :: int
  ca_stage_observed :: int
  ca_live_bytes :: int
  ca_available :: bool
  ca_resync :: bool
  ca_observed :: int

record remote_catalog =
  rc_clusters :: "(string, catalog_cluster) gomap"
  rc_max :: int
  rc_max_bytes :: int
  rc_max_retained :: int
  rc_max_retained_bytes :: int
  rc_total_resources :: int
  rc_total_bytes :: int
  rc_live_resources :: int
  rc_live_bytes :: int

definition empty_catalog_cluster :: catalog_cluster where
  "empty_catalog_cluster =
     \<lparr>ca_epoch = 0, ca_seq = 0, ca_resources = [], ca_staging = None, ca_stage_epoch = 0,
      ca_stage_seq = 0, ca_stage_bytes = 0, ca_stage_observed = 0, ca_live_bytes = 0,
      ca_available = False, ca_resync = False, ca_observed = 0\<rparr>"

fun catalog_clusters :: "(string, catalog_cluster) gomap \<Rightarrow> string list
    \<Rightarrow> string + (string, catalog_cluster) gomap" where
  "catalog_clusters m [] = Inr m"
| "catalog_clusters m (i # ids) =
     (if \<not> valid_cluster_id i then Inl ''invalid cluster''
      else if map_of m i \<noteq> None then Inl ''duplicate cluster''
      else catalog_clusters (put i empty_catalog_cluster m) ids)"

definition new_remote_catalog :: "string list \<Rightarrow> int \<Rightarrow> string + remote_catalog" where
  "new_remote_catalog ids n =
     (if ids = [] \<or> length ids > 64 \<or> n < 1 \<or> n > 100000
      then Inl ''invalid remote catalog limits''
      else (case catalog_clusters [] ids of
        Inl e \<Rightarrow> Inl e
      | Inr m \<Rightarrow> Inr \<lparr>rc_clusters = m, rc_max = n, rc_max_bytes = 64 * 2 ^ 20,
          rc_max_retained = n * 2, rc_max_retained_bytes = 128 * 2 ^ 20,
          rc_total_resources = 0, rc_total_bytes = 0, rc_live_resources = 0, rc_live_bytes = 0\<rparr>))"

text \<open>The allow list has the same keys as the clusters.\<close>

definition allows_cluster :: "remote_catalog \<Rightarrow> string \<Rightarrow> bool" where
  "allows_cluster r i = (map_of (rc_clusters r) i \<noteq> None)"

definition catalog_available :: "remote_catalog \<Rightarrow> string \<Rightarrow> bool" where
  "catalog_available r i = (case map_of (rc_clusters r) i of None \<Rightarrow> False | Some c \<Rightarrow> ca_available c)"

definition catalog_key :: "catalog_resource \<Rightarrow> string" where
  "catalog_key x = cr_kind x @ CHR 0x00 # cr_uid x"

definition has_pod_uid :: "remote_catalog \<Rightarrow> string \<Rightarrow> string \<Rightarrow> bool" where
  "has_pod_uid r i uid =
     (case map_of (rc_clusters r) i of
        None \<Rightarrow> False
      | Some c \<Rightarrow> ca_available c \<and> map_of (ca_resources c) (KindPod @ CHR 0x00 # uid) \<noteq> None)"

definition retained_catalog :: "remote_catalog \<Rightarrow> int \<times> int" where
  "retained_catalog r = (rc_total_resources r, rc_total_bytes r)"

section \<open>Validation\<close>

definition catalog_resource_kind :: "string \<Rightarrow> bool" where
  "catalog_resource_kind k = (persistent_catalog_kind k \<or> k = KindNode \<or> k = KindEvent)"

definition owner_kind_allowed :: "string \<Rightarrow> bool" where
  "owner_kind_allowed k =
     (k = KindReplicaSet \<or> k = KindDeployment \<or> k = KindStatefulSet \<or> k = KindDaemonSet
      \<or> k = KindCronJob)"

definition catalog_owner_ok :: "catalog_owner \<Rightarrow> bool" where
  "catalog_owner_ok o' \<longleftrightarrow>
     co_uid o' \<noteq> [] \<and> length (co_uid o') \<le> 253 \<and> owner_kind_allowed (co_kind o')
     \<and> co_name o' \<noteq> [] \<and> length (co_name o') \<le> 253"

definition validate_catalog_resource :: "catalog_resource \<Rightarrow> bool \<Rightarrow> string option" where
  "validate_catalog_resource x snapshot =
     (if cr_uid x = [] \<or> length (cr_uid x) > 253 \<or> cr_name x = [] \<or> length (cr_name x) > 253
         \<or> length (cr_namespace x) > 253 \<or> length (cr_node_name x) > 253 \<or> length (cr_owners x) > 4
      then Some ''invalid identity''
      else if \<not> catalog_resource_kind (cr_kind x)
              \<or> snapshot \<and> \<not> persistent_catalog_kind (cr_kind x)
              \<or> cr_kind x \<noteq> KindPod \<and> cr_node_name x \<noteq> []
      then Some ''invalid kind''
      else if cr_kind x = KindNamespace \<and> (cr_namespace x \<noteq> [] \<or> cr_owners x \<noteq> [])
      then Some ''invalid namespace identity''
      else if cr_kind x = KindNode \<and> (cr_namespace x \<noteq> [] \<or> cr_owners x \<noteq> [])
      then Some ''invalid node identity''
      else if cr_kind x = KindEvent \<and> cr_owners x \<noteq> []
      then Some ''invalid event identity''
      else if cr_kind x \<noteq> KindNamespace \<and> cr_kind x \<noteq> KindNode \<and> cr_kind x \<noteq> KindEvent
              \<and> cr_namespace x = []
      then Some ''namespace required''
      else if \<not> list_all catalog_owner_ok (cr_owners x)
      then Some ''invalid owner''
      else None)"

section \<open>Frames\<close>

definition store_catalog :: "string \<Rightarrow> remote_catalog \<times> catalog_cluster \<Rightarrow> remote_catalog" where
  "store_catalog i rc = (case rc of (r, c) \<Rightarrow> r\<lparr>rc_clusters := put i c (rc_clusters r)\<rparr>)"

definition release_stage :: "remote_catalog \<Rightarrow> catalog_cluster \<Rightarrow> remote_catalog \<times> catalog_cluster" where
  "release_stage r c =
     (case ca_staging c of
        None \<Rightarrow> (r, c)
      | Some m \<Rightarrow>
          (r\<lparr>rc_total_resources := rc_total_resources r - int (length m),
             rc_total_bytes := rc_total_bytes r - ca_stage_bytes c\<rparr>,
           c\<lparr>ca_staging := None, ca_stage_bytes := 0\<rparr>))"

definition release_catalog :: "remote_catalog \<Rightarrow> catalog_cluster \<Rightarrow> remote_catalog \<times> catalog_cluster" where
  "release_catalog r0 c0 =
     (case release_stage r0 c0 of (r, c) \<Rightarrow>
        (r\<lparr>rc_total_resources := rc_total_resources r - int (length (ca_resources c)),
           rc_total_bytes := rc_total_bytes r - ca_live_bytes c,
           rc_live_resources := rc_live_resources r - int (length (ca_resources c)),
           rc_live_bytes := rc_live_bytes r - ca_live_bytes c\<rparr>,
         c\<lparr>ca_live_bytes := 0\<rparr>))"

definition apply_begin :: "watch_frame \<Rightarrow> remote_catalog \<Rightarrow> catalog_cluster
    \<Rightarrow> (remote_catalog \<times> catalog_cluster) \<times> string option" where
  "apply_begin f r0 c0 =
     (if wf_epoch f = 0 \<or> wf_observed_unix_ms f \<le> 0 \<or> wf_resources f \<noteq> [] \<or> wf_change f \<noteq> None
      then ((r0, c0), Some ''invalid snapshot epoch'')
      else (case release_stage r0 c0 of (r, c) \<Rightarrow>
        ((r, c\<lparr>ca_staging := Some [], ca_stage_epoch := wf_epoch f, ca_stage_seq := wf_seq f,
              ca_stage_bytes := 0, ca_stage_observed := wf_observed_unix_ms f\<rparr>), None)))"

text \<open>One row of a chunk, then the loop. An error drops what was staged.\<close>

definition stage_row :: "proto_sizes \<Rightarrow> remote_catalog \<Rightarrow> catalog_cluster
    \<Rightarrow> (string, catalog_resource) gomap \<Rightarrow> catalog_resource
    \<Rightarrow> (remote_catalog \<times> catalog_cluster) \<times> string option" where
  "stage_row P r c m x =
     (if validate_catalog_resource x True \<noteq> None then (release_stage r c, Some ''invalid resource'')
      else if map_of m (catalog_key x) \<noteq> None
      then (release_stage r c, Some ''duplicate catalog resource'')
      else if int (length m) \<ge> rc_max r then (release_stage r c, Some ''catalog capacity'')
      else let size = ps_catalog P x in
        if rc_total_resources r + 1 > rc_max_retained r
           \<or> rc_total_bytes r + size > rc_max_retained_bytes r
        then (release_stage r c, Some ''catalog byte capacity'')
        else ((r\<lparr>rc_total_resources := rc_total_resources r + 1,
                 rc_total_bytes := rc_total_bytes r + size\<rparr>,
               c\<lparr>ca_staging := Some (put (catalog_key x) x m),
                 ca_stage_bytes := ca_stage_bytes c + size\<rparr>), None))"

fun stage_rows :: "proto_sizes \<Rightarrow> remote_catalog \<Rightarrow> catalog_cluster \<Rightarrow> catalog_resource list
    \<Rightarrow> (remote_catalog \<times> catalog_cluster) \<times> string option" where
  "stage_rows P r c [] = ((r, c), None)"
| "stage_rows P r c (x # xs) =
     (case ca_staging c of
        None \<Rightarrow> ((r, c), None)
      | Some m \<Rightarrow>
         (case stage_row P r c m x of
            (rc, Some e) \<Rightarrow> (rc, Some e)
          | ((r', c'), None) \<Rightarrow> stage_rows P r' c' xs))"

text \<open>The guard that a chunk and a commit share.\<close>

definition stage_matches :: "watch_frame \<Rightarrow> catalog_cluster \<Rightarrow> bool" where
  "stage_matches f c \<longleftrightarrow>
     ca_staging c \<noteq> None \<and> ca_stage_epoch c = wf_epoch f \<and> ca_stage_seq c = wf_seq f
     \<and> ca_stage_observed c = wf_observed_unix_ms f \<and> wf_observed_unix_ms f > 0"

definition apply_chunk :: "proto_sizes \<Rightarrow> watch_frame \<Rightarrow> remote_catalog \<Rightarrow> catalog_cluster
    \<Rightarrow> (remote_catalog \<times> catalog_cluster) \<times> string option" where
  "apply_chunk P f r c =
     (if \<not> stage_matches f c \<or> wf_resources f = [] \<or> length (wf_resources f) > 1000
         \<or> wf_change f \<noteq> None
      then (release_stage r c, Some ''snapshot mismatch'')
      else stage_rows P r c (wf_resources f))"

definition apply_commit :: "watch_frame \<Rightarrow> remote_catalog \<Rightarrow> catalog_cluster
    \<Rightarrow> (remote_catalog \<times> catalog_cluster) \<times> string option" where
  "apply_commit f r c =
     (if \<not> stage_matches f c \<or> wf_resources f \<noteq> [] \<or> wf_change f \<noteq> None
      then (release_stage r c, Some ''snapshot mismatch'')
      else (case ca_staging c of
        None \<Rightarrow> (release_stage r c, Some ''snapshot mismatch'')
      | Some m \<Rightarrow>
         let old = int (length (ca_resources c)); new = int (length m) in
         if rc_live_resources r - old + new > rc_max r
            \<or> rc_live_bytes r - ca_live_bytes c + ca_stage_bytes c > rc_max_bytes r
         then (release_stage r c, Some ''catalog live capacity'')
         else ((r\<lparr>rc_total_resources := rc_total_resources r - old,
                  rc_total_bytes := rc_total_bytes r - ca_live_bytes c,
                  rc_live_resources := rc_live_resources r + (new - old),
                  rc_live_bytes := rc_live_bytes r + (ca_stage_bytes c - ca_live_bytes c)\<rparr>,
                c\<lparr>ca_resources := m, ca_epoch := wf_epoch f, ca_seq := wf_seq f,
                  ca_live_bytes := ca_stage_bytes c, ca_available := True, ca_resync := False,
                  ca_observed := wf_observed_unix_ms f, ca_staging := None,
                  ca_stage_bytes := 0\<rparr>), None)))"

text \<open>The effect of an accepted delta on the visible map; \<open>None\<close> stands for no error.\<close>

definition change_resource :: "proto_sizes \<Rightarrow> catalog_action \<Rightarrow> catalog_resource \<Rightarrow> remote_catalog
    \<Rightarrow> catalog_cluster \<Rightarrow> (remote_catalog \<times> catalog_cluster) \<times> string option" where
  "change_resource P act x r c =
     (if \<not> persistent_catalog_kind (cr_kind x) then ((r, c), None)
      else let k = catalog_key x; old = map_of (ca_resources c) k in
        if act = Catalog_created \<and> old \<noteq> None \<or> act \<noteq> Catalog_created \<and> old = None
        then ((r, c), Some ''catalog action mismatch'')
        else let old_size = part (ps_catalog P) old in
          if act = Catalog_deleted
          then ((r\<lparr>rc_total_resources := rc_total_resources r - 1,
                   rc_total_bytes := rc_total_bytes r - old_size,
                   rc_live_resources := rc_live_resources r - 1,
                   rc_live_bytes := rc_live_bytes r - old_size\<rparr>,
                 c\<lparr>ca_resources := del k (ca_resources c),
                   ca_live_bytes := ca_live_bytes c - old_size\<rparr>), None)
          else let new_size = ps_catalog P x; n = (if old = None then 1 else 0) in
            if rc_live_resources r + n > rc_max r
               \<or> rc_live_bytes r - old_size + new_size > rc_max_bytes r
               \<or> rc_total_resources r + n > rc_max_retained r
               \<or> rc_total_bytes r - old_size + new_size > rc_max_retained_bytes r
            then ((r, c), Some ''catalog capacity'')
            else ((r\<lparr>rc_total_resources := rc_total_resources r + n,
                     rc_total_bytes := rc_total_bytes r + (new_size - old_size),
                     rc_live_resources := rc_live_resources r + n,
                     rc_live_bytes := rc_live_bytes r + (new_size - old_size)\<rparr>,
                   c\<lparr>ca_live_bytes := ca_live_bytes c + (new_size - old_size),
                     ca_resources := put k x (ca_resources c)\<rparr>), None))"

definition delta_accepted :: "watch_frame \<Rightarrow> catalog_cluster \<Rightarrow> catalog_change \<Rightarrow> catalog_resource \<Rightarrow> bool" where
  "delta_accepted f c d x \<longleftrightarrow>
     ca_available c \<and> \<not> ca_resync c \<and> wf_observed_unix_ms f > 0
     \<and> wf_observed_unix_ms f \<ge> ca_observed c \<and> wf_resources f = []
     \<and> cc_epoch d = wf_epoch f \<and> cc_seq d = wf_seq f \<and> cc_epoch d = ca_epoch c
     \<and> cc_action d \<noteq> Catalog_unspecified \<and> validate_catalog_resource x False = None"

definition apply_change :: "proto_sizes \<Rightarrow> watch_frame \<Rightarrow> remote_catalog \<Rightarrow> catalog_cluster
    \<Rightarrow> (remote_catalog \<times> catalog_cluster) \<times> string option" where
  "apply_change P f r c =
     (case wf_change f of
        None \<Rightarrow> ((r, c), Some ''delta mismatch'')
      | Some d \<Rightarrow>
         (case cc_resource d of
            None \<Rightarrow> ((r, c), Some ''delta mismatch'')
          | Some x \<Rightarrow>
             if \<not> delta_accepted f c d x then ((r, c), Some ''delta mismatch'')
             else if cc_seq d \<le> ca_seq c then ((r, c), None)
             else if cc_seq d \<noteq> ca_seq c + 1
             then (case release_stage r c of (r', c') \<Rightarrow>
                     ((r', c'\<lparr>ca_resync := True\<rparr>), Some ''delta gap''))
             else (case change_resource P (cc_action d) x r c of
                     (rc, Some e) \<Rightarrow> (rc, Some e)
                   | ((r', c'), None) \<Rightarrow>
                       ((r', c'\<lparr>ca_seq := cc_seq d, ca_observed := wf_observed_unix_ms f\<rparr>), None))))"

definition apply_to_cluster :: "proto_sizes \<Rightarrow> watch_frame \<Rightarrow> remote_catalog \<Rightarrow> catalog_cluster
    \<Rightarrow> (remote_catalog \<times> catalog_cluster) \<times> string option" where
  "apply_to_cluster P f r c =
     (case wf_type f of
        Watch_reset \<Rightarrow>
          if wf_epoch f \<noteq> 0 \<or> wf_seq f \<noteq> 0 \<or> wf_resources f \<noteq> [] \<or> wf_change f \<noteq> None
          then ((r, c), Some ''invalid reset'')
          else (case release_stage r c of (r', c') \<Rightarrow> ((r', c'\<lparr>ca_resync := True\<rparr>), None))
      | Watch_heartbeat \<Rightarrow>
          if wf_resources f \<noteq> [] \<or> wf_change f \<noteq> None \<or> \<not> ca_available c \<or> wf_epoch f \<noteq> ca_epoch c
             \<or> wf_seq f \<noteq> ca_seq c \<or> wf_observed_unix_ms f \<le> 0 \<or> wf_observed_unix_ms f < ca_observed c
          then ((r, c), Some ''invalid heartbeat'')
          else ((r, c\<lparr>ca_observed := wf_observed_unix_ms f\<rparr>), None)
      | Watch_expired \<Rightarrow>
          if wf_epoch f \<noteq> 0 \<or> wf_seq f \<noteq> 0 \<or> wf_observed_unix_ms f \<le> 0 \<or> wf_resources f \<noteq> []
             \<or> wf_change f \<noteq> None
          then ((r, c), Some ''invalid expiry'')
          else (case release_catalog r c of (r', c') \<Rightarrow>
                  ((r', c'\<lparr>ca_resources := [], ca_available := False, ca_resync := True\<rparr>), None))
      | Watch_snapshot_begin \<Rightarrow> apply_begin f r c
      | Watch_snapshot_chunk \<Rightarrow> apply_chunk P f r c
      | Watch_snapshot_commit \<Rightarrow> apply_commit f r c
      | Watch_delta \<Rightarrow> apply_change P f r c
      | Watch_unspecified \<Rightarrow> ((r, c), Some ''invalid watch frame type''))"

definition apply_frame :: "proto_sizes \<Rightarrow> watch_frame option \<Rightarrow> remote_catalog
    \<Rightarrow> remote_catalog \<times> string option" where
  "apply_frame P f' r =
     (case f' of
        None \<Rightarrow> (r, Some ''nil watch frame'')
      | Some f \<Rightarrow>
         if ps_frame P f > 4 * 2 ^ 20 then (r, Some ''nil watch frame'')
         else (case map_of (rc_clusters r) (wf_cluster_id f) of
            None \<Rightarrow> (r, Some ''unknown cluster'')
          | Some c \<Rightarrow>
             (case apply_to_cluster P f r c of
                (rc, e) \<Rightarrow> (store_catalog (wf_cluster_id f) rc, e))))"

section \<open>Reads\<close>

record catalog_pod =
  cp_namespace :: string
  cp_name :: string
  cp_uid :: string
  cp_workload_kind :: string
  cp_workload_name :: string
  cp_workload_uid :: string
  cp_node :: string

text \<open>The workload of a pod: its first owner, or the first owner of that ReplicaSet.\<close>

definition owner_triple :: "catalog_owner \<Rightarrow> string \<times> string \<times> string" where
  "owner_triple o' = (co_kind o', co_name o', co_uid o')"

definition remote_workload :: "catalog_resource \<Rightarrow> (string, catalog_resource) gomap
    \<Rightarrow> string \<times> string \<times> string" where
  "remote_workload pod m =
     (case cr_owners pod of
        [] \<Rightarrow> ([], [], [])
      | o' # _ \<Rightarrow>
         if co_kind o' \<noteq> KindReplicaSet then owner_triple o'
         else (case map_of m (KindReplicaSet @ CHR 0x00 # co_uid o') of
                 None \<Rightarrow> owner_triple o'
               | Some rs \<Rightarrow>
                  (case cr_owners rs of [] \<Rightarrow> owner_triple o' | t # _ \<Rightarrow> owner_triple t)))"

definition catalog_pod_of :: "(string, catalog_resource) gomap \<Rightarrow> catalog_resource \<Rightarrow> catalog_pod" where
  "catalog_pod_of m x =
     (case remote_workload x m of (kind, name, uid) \<Rightarrow>
        \<lparr>cp_namespace = cr_namespace x, cp_name = cr_name x, cp_uid = cr_uid x,
         cp_workload_kind = kind, cp_workload_name = name, cp_workload_uid = uid,
         cp_node = cr_node_name x\<rparr>)"

definition visible_resources :: "remote_catalog \<Rightarrow> string \<Rightarrow> (string, catalog_resource) gomap option" where
  "visible_resources r i =
     (case map_of (rc_clusters r) i of
        None \<Rightarrow> None
      | Some c \<Rightarrow> if ca_available c then Some (ca_resources c) else None)"

text \<open>\<open>visitPods\<close> calls back once per pod of the scope; its calls are the list below.\<close>

definition visit_pods :: "remote_catalog \<Rightarrow> string \<Rightarrow> string \<Rightarrow> catalog_pod list" where
  "visit_pods r i ns =
     (case visible_resources r i of
        None \<Rightarrow> []
      | Some m \<Rightarrow> map (catalog_pod_of m \<circ> snd)
          (filter (\<lambda>(k, x). cr_kind x = KindPod \<and> (ns = [] \<or> cr_namespace x = ns)) m))"

definition pod_order :: "catalog_pod \<Rightarrow> string \<times> string \<times> string" where
  "pod_order p = (cp_namespace p, cp_name p, cp_uid p)"

definition catalog_pods :: "remote_catalog \<Rightarrow> string \<Rightarrow> string \<Rightarrow> int \<Rightarrow> catalog_pod list" where
  "catalog_pods r i ns limit =
     (let out = sort_key pod_order (visit_pods r i ns) in
      if limit > 0 \<and> int (length out) > limit then take (nat limit) out else out)"

definition namespace_names :: "remote_catalog \<Rightarrow> string \<Rightarrow> string list" where
  "namespace_names r i =
     (case visible_resources r i of
        None \<Rightarrow> []
      | Some m \<Rightarrow> sort (remdups (concat (map (\<lambda>(k, x).
          if cr_kind x = KindNamespace then [cr_name x]
          else if cr_namespace x \<noteq> [] then [cr_namespace x] else []) m))))"

definition entity_entry :: "(string, catalog_resource) gomap \<Rightarrow> catalog_resource
    \<Rightarrow> (string, string) gomap \<Rightarrow> (string, string) gomap" where
  "entity_entry m x out =
     (if cr_kind x = KindPod
      then (let out1 = put (''pod:'' @ cr_uid x) (cr_namespace x) out in
            case remote_workload x m of (_, _, uid) \<Rightarrow>
              if uid \<noteq> [] then put (''workload:'' @ uid) (cr_namespace x) out1 else out1)
      else if cr_kind x \<noteq> KindReplicaSet \<and> cr_uid x \<noteq> []
      then put (''workload:'' @ cr_uid x) (cr_namespace x) out
      else out)"

definition stream_entity_namespaces :: "remote_catalog \<Rightarrow> string \<Rightarrow> (string, string) gomap" where
  "stream_entity_namespaces r i =
     (case visible_resources r i of
        None \<Rightarrow> []
      | Some m \<Rightarrow> fold (entity_entry m) (map snd m) [])"

end
