(* ===== verification/Catalog_Laws.thy ===== *)
theory Catalog_Laws
  imports Remote_Catalog
begin

text \<open>
  The books of the API-side catalog: an invariant that every frame keeps, the ledger contract
  for its four counters, and the properties of the swap, of a delta and of the reads.
\<close>

section \<open>The invariant\<close>

definition stage_list :: "catalog_cluster \<Rightarrow> (string, catalog_resource) gomap" where
  "stage_list c = (case ca_staging c of None \<Rightarrow> [] | Some m \<Rightarrow> m)"

definition map_ok :: "(string, catalog_resource) gomap \<Rightarrow> bool" where
  "map_ok m \<longleftrightarrow> distinct (keys_of m)
     \<and> (\<forall>(k, x) \<in> set m. k = catalog_key x \<and> validate_catalog_resource x True = None)"

definition catalog_cluster_ok :: "proto_sizes \<Rightarrow> catalog_cluster \<Rightarrow> bool" where
  "catalog_cluster_ok P c \<longleftrightarrow>
     map_ok (ca_resources c) \<and> map_ok (stage_list c)
     \<and> ca_live_bytes c = msum (ps_catalog P) (ca_resources c)
     \<and> ca_stage_bytes c = msum (ps_catalog P) (stage_list c)"

definition live_rows :: "catalog_cluster \<Rightarrow> int" where
  "live_rows c = int (length (ca_resources c))"

definition stage_count :: "catalog_cluster \<Rightarrow> int" where
  "stage_count c = int (length (stage_list c))"

text \<open>The counters less the part of one cluster: what the other clusters account for.\<close>

definition counters_ok :: "remote_catalog \<Rightarrow> (string, catalog_cluster) gomap \<Rightarrow> bool" where
  "counters_ok r m \<longleftrightarrow>
     rc_live_resources r = msum live_rows m
     \<and> rc_total_resources r = msum live_rows m + msum stage_count m
     \<and> rc_live_bytes r = msum ca_live_bytes m
     \<and> rc_total_bytes r = msum ca_live_bytes m + msum ca_stage_bytes m"

definition within_limits :: "remote_catalog \<Rightarrow> bool" where
  "within_limits r \<longleftrightarrow>
     rc_live_resources r \<le> rc_max r \<and> rc_live_bytes r \<le> rc_max_bytes r
     \<and> rc_total_resources r \<le> rc_max_retained r \<and> rc_total_bytes r \<le> rc_max_retained_bytes r"

definition catalog_inv :: "proto_sizes \<Rightarrow> remote_catalog \<Rightarrow> bool" where
  "catalog_inv P r \<longleftrightarrow>
     sizes_ok P \<and> distinct (keys_of (rc_clusters r))
     \<and> (\<forall>i c. map_of (rc_clusters r) i = Some c \<longrightarrow> catalog_cluster_ok P c)
     \<and> counters_ok r (rc_clusters r) \<and> within_limits r"

text \<open>The limits and the other clusters of a registry, which no frame changes.\<close>

definition same_frame :: "remote_catalog \<Rightarrow> remote_catalog \<Rightarrow> bool" where
  "same_frame r r' \<longleftrightarrow>
     rc_clusters r' = rc_clusters r \<and> rc_max r' = rc_max r \<and> rc_max_bytes r' = rc_max_bytes r
     \<and> rc_max_retained r' = rc_max_retained r \<and> rc_max_retained_bytes r' = rc_max_retained_bytes r"

text \<open>One cluster step: the counters move with the cluster, within the limits.\<close>

definition books_step :: "proto_sizes \<Rightarrow> remote_catalog \<Rightarrow> catalog_cluster
    \<Rightarrow> remote_catalog \<Rightarrow> catalog_cluster \<Rightarrow> bool" where
  "books_step P r c r' c' \<longleftrightarrow>
     same_frame r r' \<and> catalog_cluster_ok P c' \<and> within_limits r'
     \<and> rc_live_resources r' - rc_live_resources r = live_rows c' - live_rows c
     \<and> rc_total_resources r' - rc_total_resources r
        = live_rows c' + stage_count c' - live_rows c - stage_count c
     \<and> rc_live_bytes r' - rc_live_bytes r = ca_live_bytes c' - ca_live_bytes c
     \<and> rc_total_bytes r' - rc_total_bytes r
        = ca_live_bytes c' + ca_stage_bytes c' - ca_live_bytes c - ca_stage_bytes c"

lemma books_step_refl [simp]:
  "catalog_cluster_ok P c \<Longrightarrow> within_limits r \<Longrightarrow> books_step P r c r c"
  by (simp add: books_step_def same_frame_def)

lemma books_step_trans:
  "books_step P r c r' c' \<Longrightarrow> books_step P r' c' r'' c'' \<Longrightarrow> books_step P r c r'' c''"
  by (auto simp: books_step_def same_frame_def)

lemma map_ok_Nil [simp]: "map_ok []"
  by (simp add: map_ok_def)

lemma set_put_sub: "set (put k v m) \<subseteq> insert (k, v) (set m)"
  by (induction m) auto

lemma set_del_sub: "set (del k m) \<subseteq> set m"
  by (induction m) auto

lemma map_ok_put:
  "map_ok m \<Longrightarrow> validate_catalog_resource x True = None \<Longrightarrow> map_ok (put (catalog_key x) x m)"
  using set_put_sub [of "catalog_key x" x m] by (auto simp: map_ok_def)

lemma map_ok_del: "map_ok m \<Longrightarrow> map_ok (del k m)"
  using set_del_sub [of k m] by (auto simp: map_ok_def)

lemma catalog_msum_nonneg: "sizes_ok P \<Longrightarrow> 0 \<le> msum (ps_catalog P) m"
  by (auto intro!: msum_nonneg simp: sizes_ok_def)

lemma catalog_cluster_ok_fields [simp]:
  "catalog_cluster_ok P (c\<lparr>ca_resync := b\<rparr>) = catalog_cluster_ok P c"
  "catalog_cluster_ok P (c\<lparr>ca_observed := t\<rparr>) = catalog_cluster_ok P c"
  "catalog_cluster_ok P (c\<lparr>ca_seq := q\<rparr>) = catalog_cluster_ok P c"
  by (simp_all add: catalog_cluster_ok_def stage_list_def)

lemma books_step_fields [simp]:
  "books_step P r c r' (c'\<lparr>ca_resync := b\<rparr>) = books_step P r c r' c'"
  "books_step P r c r' (c'\<lparr>ca_observed := t\<rparr>) = books_step P r c r' c'"
  "books_step P r c r' (c'\<lparr>ca_seq := q\<rparr>) = books_step P r c r' c'"
  by (simp_all add: books_step_def live_rows_def stage_count_def stage_list_def)

section \<open>Every frame keeps the books\<close>

lemma release_stage_books:
  assumes "sizes_ok P" "catalog_cluster_ok P c" "within_limits r"
  shows "books_step P r c (fst (release_stage r c)) (snd (release_stage r c))"
  using assms catalog_msum_nonneg [OF assms(1), of "stage_list c"]
  by (auto simp: release_stage_def books_step_def same_frame_def catalog_cluster_ok_def
      within_limits_def live_rows_def stage_count_def stage_list_def split: option.splits)

lemma release_stage_empty:
  "ca_staging (snd (release_stage r c)) = None"
  "ca_stage_bytes (snd (release_stage r c)) = (if ca_staging c = None then ca_stage_bytes c else 0)"
  "ca_resources (snd (release_stage r c)) = ca_resources c"
  "ca_available (snd (release_stage r c)) = ca_available c"
  by (simp_all add: release_stage_def split: option.split)

lemma begin_books:
  assumes "sizes_ok P" "catalog_cluster_ok P c" "within_limits r"
    and "apply_begin f r c = ((r', c'), e)"
  shows "books_step P r c r' c'"
  using release_stage_books [OF assms(1-3)] assms release_stage_empty [of r c]
  by (auto simp: apply_begin_def books_step_def same_frame_def catalog_cluster_ok_def
      live_rows_def stage_count_def stage_list_def split: if_splits prod.splits)

lemma stage_row_books:
  assumes P: "sizes_ok P" and c: "catalog_cluster_ok P c" and r: "within_limits r"
    and m: "ca_staging c = Some m" and s: "stage_row P r c m x = ((r', c'), e)"
  shows "books_step P r c r' c'"
proof (cases e)
  case None
  have none: "map_of m (catalog_key x) = None" and val: "validate_catalog_resource x True = None"
    and ok: "map_ok m"
    using s c m None
    by (auto simp: stage_row_def Let_def catalog_cluster_ok_def stage_list_def split: if_splits)
  have new: "length (put (catalog_key x) x m) = Suc (length m)"
    "map_ok (put (catalog_key x) x m)"
    "msum (ps_catalog P) (put (catalog_key x) x m) = msum (ps_catalog P) m + ps_catalog P x"
    using none ok map_ok_put [OF ok val] map_of_eq_None_iff [of m "catalog_key x"]
    by (simp_all add: length_put map_ok_def [of m] msum_put)
  show ?thesis
    using s c m None new r
    by (auto simp: stage_row_def Let_def books_step_def same_frame_def catalog_cluster_ok_def
        within_limits_def live_rows_def stage_count_def stage_list_def split: if_splits)
next
  case (Some a)
  then have "release_stage r c = (r', c')"
    using s by (auto simp: stage_row_def Let_def split: if_splits)
  then show ?thesis using release_stage_books [OF P c r] by simp
qed

lemma books_okD: "books_step P r c r' c' \<Longrightarrow> catalog_cluster_ok P c' \<and> within_limits r'"
  by (simp add: books_step_def)

lemma stage_rows_books:
  assumes "sizes_ok P" and "catalog_cluster_ok P c" and "within_limits r"
    and "stage_rows P r c xs = ((r', c'), e)"
  shows "books_step P r c r' c'"
  using assms(2-)
proof (induction xs arbitrary: r c)
  case (Cons x xs)
  show ?case
  proof (cases "ca_staging c")
    case (Some m)
    obtain r1 c1 e1 where row: "stage_row P r c m x = ((r1, c1), e1)" by (metis prod.collapse)
    note b = stage_row_books [OF assms(1) Cons.prems(1,2) Some row]
    show ?thesis
    proof (cases e1)
      case None
      with Cons.prems(3) Some row have "stage_rows P r1 c1 xs = ((r', c'), e)" by simp
      with Cons.IH books_okD [OF b] have "books_step P r1 c1 r' c'" by blast
      then show ?thesis by (rule books_step_trans [OF b])
    qed (use b row Some Cons.prems in auto)
  qed (use Cons.prems in auto)
qed auto

lemma chunk_books:
  assumes "sizes_ok P" "catalog_cluster_ok P c" "within_limits r"
    and "apply_chunk P f r c = ((r', c'), e)"
  shows "books_step P r c r' c'"
  using release_stage_books [OF assms(1-3)] stage_rows_books [OF assms(1-3)] assms(4)
  by (auto simp: apply_chunk_def split: if_splits)

lemma commit_books:
  assumes "sizes_ok P" "catalog_cluster_ok P c" "within_limits r"
    and "apply_commit f r c = ((r', c'), e)"
  shows "books_step P r c r' c'"
  using assms release_stage_books [OF assms(1-3)] catalog_msum_nonneg [OF assms(1), of "ca_resources c"]
  by (auto simp: apply_commit_def Let_def books_step_def same_frame_def catalog_cluster_ok_def
      within_limits_def live_rows_def stage_count_def stage_list_def split: if_splits option.splits)

lemma persistent_validate:
  "persistent_catalog_kind (cr_kind x) \<Longrightarrow>
    validate_catalog_resource x True = validate_catalog_resource x False"
  by (simp add: validate_catalog_resource_def)

lemma change_resource_books:
  assumes P: "sizes_ok P" and c: "catalog_cluster_ok P c" and r: "within_limits r"
    and v: "validate_catalog_resource x False = None"
    and s: "change_resource P act x r c = ((r', c'), e)"
  shows "books_step P r c r' c'"
proof (cases "persistent_catalog_kind (cr_kind x) \<and> e = None")
  case True
  let ?k = "catalog_key x"
  have ok: "map_ok (ca_resources c)" "distinct (keys_of (ca_resources c))"
    and lb: "ca_live_bytes c = msum (ps_catalog P) (ca_resources c)"
    using c by (auto simp: catalog_cluster_ok_def map_ok_def)
  have val: "validate_catalog_resource x True = None"
    using v True persistent_validate by simp
  have len: "int (length (del ?k (ca_resources c)))
      = int (length (ca_resources c)) - (if map_of (ca_resources c) ?k = None then 0 else 1)"
    using ok(2) by (auto simp: length_del keys_map_of [simplified] Suc_leI
        dest: length_pos_if_in_set map_of_SomeD)
  have len': "int (length (put ?k x (ca_resources c)))
      = int (length (ca_resources c)) + (if map_of (ca_resources c) ?k = None then 1 else 0)"
    by (auto simp: length_put keys_map_of [simplified])
  have pos: "0 \<le> part (ps_catalog P) (map_of (ca_resources c) ?k)"
    using P by (auto simp: sizes_ok_def part_def split: option.split)
  show ?thesis
    using s c r True ok lb pos
    by (auto simp: change_resource_def Let_def books_step_def same_frame_def catalog_cluster_ok_def
        within_limits_def live_rows_def stage_count_def stage_list_def len len' go_sum
        map_ok_del map_ok_put [OF ok(1) val] split: if_splits)
next
  case False
  then have "r' = r \<and> c' = c"
    using s by (auto simp: change_resource_def Let_def split: if_splits)
  with c r show ?thesis by simp
qed

lemma change_books:
  assumes "sizes_ok P" "catalog_cluster_ok P c" "within_limits r"
    and "apply_change P f r c = ((r', c'), e)"
  shows "books_step P r c r' c'"
proof -
  have *: "books_step P r c r1 c1"
    if "change_resource P act x r c = ((r1, c1), e1)" "delta_accepted f c d x" for act x r1 c1 e1 d
    using change_resource_books [OF assms(1-3) _ that(1)] that(2) by (simp add: delta_accepted_def)
  show ?thesis
    using assms(2-) * release_stage_books [OF assms(1-3)]
    by (auto simp: apply_change_def split: if_splits option.splits prod.splits)
qed

lemma cluster_books:
  assumes "sizes_ok P" "catalog_cluster_ok P c" "within_limits r"
    and s: "apply_to_cluster P f r c = ((r', c'), e)"
  shows "books_step P r c r' c'"
proof (cases "wf_type f")
  case Watch_reset
  then show ?thesis
    using s release_stage_books [OF assms(1-3)] assms
    by (auto simp: apply_to_cluster_def split: if_splits prod.splits)
next
  case Watch_expired
  note rs = release_stage_books [OF assms(1-3)]
  have "0 \<le> ca_live_bytes c"
    using assms(2) catalog_msum_nonneg [OF assms(1)] by (simp add: catalog_cluster_ok_def)
  with Watch_expired show ?thesis
    using s rs assms release_stage_empty [of r c]
    by (auto simp: apply_to_cluster_def release_catalog_def books_step_def same_frame_def
        catalog_cluster_ok_def within_limits_def live_rows_def stage_count_def stage_list_def
        split: if_splits prod.splits)
qed (use s assms(1-3) begin_books chunk_books commit_books change_books in
    \<open>auto simp: apply_to_cluster_def split: if_splits\<close>)

lemma catalog_inv_frame:
  assumes r: "catalog_inv P r"
  shows "catalog_inv P (fst (apply_frame P f' r))"
proof (cases "fst (apply_frame P f' r) = r")
  case False
  then obtain f c where f: "f' = Some f" and c: "map_of (rc_clusters r) (wf_cluster_id f) = Some c"
    and eq: "fst (apply_frame P f' r)
      = store_catalog (wf_cluster_id f) (fst (apply_to_cluster P f r c))"
    by (auto simp: apply_frame_def split: option.splits if_splits prod.splits)
  obtain r' c' e where ap: "apply_to_cluster P f r c = ((r', c'), e)" by (metis prod.collapse)
  have "books_step P r c r' c'"
    by (rule cluster_books [OF _ _ _ ap]) (use r c in \<open>auto simp: catalog_inv_def\<close>)
  moreover have "distinct (keys_of (rc_clusters r))" using r by (simp add: catalog_inv_def)
  ultimately show ?thesis
    using r c ap unfolding eq
    by (auto simp: catalog_inv_def store_catalog_def books_step_def same_frame_def counters_ok_def
        within_limits_def go_sum)
qed (use r in simp)

section \<open>The catalog as a ledger\<close>

abbreviation catalog_step :: "proto_sizes \<Rightarrow> watch_frame option \<Rightarrow> remote_catalog \<Rightarrow> remote_catalog" where
  "catalog_step P f r \<equiv> fst (apply_frame P f r)"

definition all_empty :: "(string, catalog_cluster) gomap \<Rightarrow> bool" where
  "all_empty m \<longleftrightarrow> distinct (keys_of m) \<and> list_all (\<lambda>(i, c). c = empty_catalog_cluster) m"

lemma all_empty_put: "all_empty m \<Longrightarrow> all_empty (put i empty_catalog_cluster m)"
  using set_put_sub [of i empty_catalog_cluster m] by (auto simp: all_empty_def list_all_iff)

lemma catalog_clusters_empty:
  "catalog_clusters m ids = Inr m' \<Longrightarrow> all_empty m \<Longrightarrow> all_empty m'"
  by (induction ids arbitrary: m) (auto simp: all_empty_put split: if_splits)

lemma empty_catalog_cluster_ok:
  "catalog_cluster_ok P empty_catalog_cluster" "live_rows empty_catalog_cluster = 0"
  "stage_count empty_catalog_cluster = 0" "ca_live_bytes empty_catalog_cluster = 0"
  "ca_stage_bytes empty_catalog_cluster = 0"
  by (simp_all add: catalog_cluster_ok_def live_rows_def stage_count_def stage_list_def
      empty_catalog_cluster_def)

lemma all_empty_sums:
  "all_empty m \<Longrightarrow> f empty_catalog_cluster = 0 \<Longrightarrow> msum f m = 0"
  by (induction m) (auto simp: all_empty_def)

lemma all_empty_get: "all_empty m \<Longrightarrow> map_of m i = Some c \<Longrightarrow> c = empty_catalog_cluster"
  by (auto simp: all_empty_def list_all_iff dest: map_of_SomeD)

lemma new_catalog_inv:
  assumes "sizes_ok P" and "new_remote_catalog ids n = Inr r"
  shows "catalog_inv P r"
proof -
  obtain m where m: "catalog_clusters [] ids = Inr m" and r: "rc_clusters r = m"
    "0 \<le> rc_max r" "0 \<le> rc_max_bytes r" "0 \<le> rc_max_retained r" "0 \<le> rc_max_retained_bytes r"
    "rc_total_resources r = 0" "rc_total_bytes r = 0" "rc_live_resources r = 0" "rc_live_bytes r = 0"
    using assms(2) by (auto simp: new_remote_catalog_def split: if_splits sum.splits)
  have e: "all_empty m" by (rule catalog_clusters_empty [OF m]) (simp add: all_empty_def)
  then have "distinct (keys_of m)" by (simp add: all_empty_def)
  moreover have "\<forall>i c. map_of m i = Some c \<longrightarrow> catalog_cluster_ok P c"
    using all_empty_get [OF e] empty_catalog_cluster_ok(1) by blast
  ultimately show ?thesis
    using assms(1) r all_empty_sums [OF e]
    by (simp add: catalog_inv_def counters_ok_def within_limits_def empty_catalog_cluster_ok)
qed

lemma release_frame:
  "same_frame r (fst (release_stage r c))" "same_frame r (fst (release_catalog r c))"
  by (simp_all add: same_frame_def release_stage_def release_catalog_def split: option.split)

lemma stage_rows_frame: "same_frame r (fst (fst (stage_rows P r c xs)))"
proof (induction xs arbitrary: r c)
  case (Cons x xs)
  have row: "same_frame r (fst (fst (stage_row P r c m x)))" for m
    by (auto simp: stage_row_def Let_def release_frame) (simp add: same_frame_def)
  show ?case
  proof (cases "ca_staging c")
    case (Some m)
    obtain r1 c1 e where s: "stage_row P r c m x = ((r1, c1), e)" by (metis prod.collapse)
    with row [of m] have 1: "same_frame r r1" by simp
    show ?thesis
      using Some s 1 Cons [of r1 c1] by (cases e) (auto simp: same_frame_def)
  qed (simp add: same_frame_def)
qed (simp add: same_frame_def)

lemma cluster_frame: "same_frame r (fst (fst (apply_to_cluster P f r c)))"
proof -
  have change: "same_frame r (fst (fst (change_resource P act x r c)))" for act x
    by (simp add: same_frame_def change_resource_def Let_def)
  have refl: "same_frame r r" by (simp add: same_frame_def)
  note rel = release_frame [of r c]
  have "same_frame r (fst (fst (apply_begin f r c)))"
    using rel by (auto simp: apply_begin_def refl split: prod.splits)
  moreover have "same_frame r (fst (fst (apply_chunk P f r c)))"
    using rel by (simp add: apply_chunk_def stage_rows_frame)
  moreover have "same_frame r (fst (fst (apply_commit f r c)))"
    using rel by (auto simp: apply_commit_def Let_def same_frame_def split: option.split)
  moreover have "same_frame r (fst (fst (apply_change P f r c)))"
    using rel change refl
    by (auto simp: apply_change_def split: option.splits prod.splits) (metis fst_conv)+
  ultimately show ?thesis
    using rel refl by (auto simp: apply_to_cluster_def split: frame_type.split prod.splits)
qed

lemma store_catalog_simps [simp]:
  "rc_max (store_catalog i rc) = rc_max (fst rc)"
  "rc_max_bytes (store_catalog i rc) = rc_max_bytes (fst rc)"
  "rc_max_retained (store_catalog i rc) = rc_max_retained (fst rc)"
  "rc_max_retained_bytes (store_catalog i rc) = rc_max_retained_bytes (fst rc)"
  "rc_clusters (store_catalog i rc) = put i (snd rc) (rc_clusters (fst rc))"
  by (simp_all add: store_catalog_def split: prod.split)

lemma apply_frame_limits:
  "rc_max (catalog_step P f r) = rc_max r"
  "rc_max_bytes (catalog_step P f r) = rc_max_bytes r"
  "rc_max_retained (catalog_step P f r) = rc_max_retained r"
  "rc_max_retained_bytes (catalog_step P f r) = rc_max_retained_bytes r"
  using cluster_frame [of r P]
  by (auto simp: apply_frame_def same_frame_def split: option.split prod.splits) (metis fst_conv)+

lemma catalog_inv_books:
  assumes "catalog_inv P r"
  shows "rc_live_resources r = msum live_rows (rc_clusters r)"
    and "rc_total_resources r = msum live_rows (rc_clusters r) + msum stage_count (rc_clusters r)"
    and "rc_live_bytes r = msum ca_live_bytes (rc_clusters r)"
    and "rc_total_bytes r = msum ca_live_bytes (rc_clusters r) + msum ca_stage_bytes (rc_clusters r)"
    and "0 \<le> rc_live_resources r" "0 \<le> rc_live_bytes r"
    and "rc_live_resources r \<le> rc_total_resources r" "rc_live_bytes r \<le> rc_total_bytes r"
proof -
  show b: "rc_live_resources r = msum live_rows (rc_clusters r)"
    "rc_total_resources r = msum live_rows (rc_clusters r) + msum stage_count (rc_clusters r)"
    "rc_live_bytes r = msum ca_live_bytes (rc_clusters r)"
    "rc_total_bytes r = msum ca_live_bytes (rc_clusters r) + msum ca_stage_bytes (rc_clusters r)"
    using assms by (auto simp: catalog_inv_def counters_ok_def)
  have c: "catalog_cluster_ok P c" if "(i, c) \<in> set (rc_clusters r)" for i c
    using assms that by (auto simp: catalog_inv_def map_of_eq_Some_iff)
  have P: "sizes_ok P" using assms by (simp add: catalog_inv_def)
  have "0 \<le> msum live_rows (rc_clusters r)" "0 \<le> msum stage_count (rc_clusters r)"
    by (auto intro!: msum_nonneg simp: live_rows_def stage_count_def)
  moreover have "0 \<le> msum ca_live_bytes (rc_clusters r)" "0 \<le> msum ca_stage_bytes (rc_clusters r)"
    using c catalog_msum_nonneg [OF P]
    by (metis msum_nonneg catalog_cluster_ok_def)+
  ultimately show "0 \<le> rc_live_resources r" "0 \<le> rc_live_bytes r"
    "rc_live_resources r \<le> rc_total_resources r" "rc_live_bytes r \<le> rc_total_bytes r"
    using b by simp_all
qed

lemma catalog_within:
  assumes "catalog_inv P r"
  shows "0 \<le> rc_live_resources r \<and> rc_live_resources r \<le> rc_max r"
    and "0 \<le> rc_live_bytes r \<and> rc_live_bytes r \<le> rc_max_bytes r"
    and "0 \<le> rc_total_resources r \<and> rc_total_resources r \<le> rc_max_retained r"
    and "0 \<le> rc_total_bytes r \<and> rc_total_bytes r \<le> rc_max_retained_bytes r"
proof -
  note b = catalog_inv_books(5-8) [OF assms]
  have w: "within_limits r" using assms by (simp add: catalog_inv_def)
  show "0 \<le> rc_live_resources r \<and> rc_live_resources r \<le> rc_max r"
    and "0 \<le> rc_live_bytes r \<and> rc_live_bytes r \<le> rc_max_bytes r"
    and "0 \<le> rc_total_resources r \<and> rc_total_resources r \<le> rc_max_retained r"
    and "0 \<le> rc_total_bytes r \<and> rc_total_bytes r \<le> rc_max_retained_bytes r"
    using b w by (simp_all add: within_limits_def)
qed

interpretation live_rows_ledger: ledger "catalog_step P" "catalog_inv P" rc_live_resources
  "\<lambda>r. msum live_rows (rc_clusters r)" rc_max for P
proof
  fix r f
  show "catalog_inv P r \<Longrightarrow> catalog_inv P (catalog_step P f r)" by (rule catalog_inv_frame)
  show "catalog_inv P r \<Longrightarrow> rc_live_resources r = (\<lambda>r. msum live_rows (rc_clusters r)) r"
    by (simp add: catalog_inv_def counters_ok_def)
  show "catalog_inv P r \<Longrightarrow> 0 \<le> rc_live_resources r \<and> rc_live_resources r \<le> rc_max r"
    by (rule catalog_within)
  show "rc_max (catalog_step P f r) = rc_max r" by (rule apply_frame_limits)
qed

interpretation live_bytes_ledger: ledger "catalog_step P" "catalog_inv P" rc_live_bytes
  "\<lambda>r. msum ca_live_bytes (rc_clusters r)" rc_max_bytes for P
proof
  fix r f
  show "catalog_inv P r \<Longrightarrow> rc_live_bytes r = (\<lambda>r. msum ca_live_bytes (rc_clusters r)) r"
    by (simp add: catalog_inv_def counters_ok_def)
  show "catalog_inv P r \<Longrightarrow> 0 \<le> rc_live_bytes r \<and> rc_live_bytes r \<le> rc_max_bytes r"
    by (rule catalog_within)
  show "rc_max_bytes (catalog_step P f r) = rc_max_bytes r" by (rule apply_frame_limits)
qed

interpretation kept_rows_ledger: ledger "catalog_step P" "catalog_inv P" rc_total_resources
  "\<lambda>r. msum live_rows (rc_clusters r) + msum stage_count (rc_clusters r)" rc_max_retained for P
proof
  fix r f
  show "catalog_inv P r \<Longrightarrow> rc_total_resources r = (\<lambda>r. msum live_rows (rc_clusters r) + msum stage_count (rc_clusters r)) r"
    by (simp add: catalog_inv_def counters_ok_def)
  show "catalog_inv P r \<Longrightarrow> 0 \<le> rc_total_resources r \<and> rc_total_resources r \<le> rc_max_retained r"
    by (rule catalog_within)
  show "rc_max_retained (catalog_step P f r) = rc_max_retained r" by (rule apply_frame_limits)
qed

interpretation kept_bytes_ledger: ledger "catalog_step P" "catalog_inv P" rc_total_bytes
  "\<lambda>r. msum ca_live_bytes (rc_clusters r) + msum ca_stage_bytes (rc_clusters r)" rc_max_retained_bytes for P
proof
  fix r f
  show "catalog_inv P r \<Longrightarrow> rc_total_bytes r = (\<lambda>r. msum ca_live_bytes (rc_clusters r) + msum ca_stage_bytes (rc_clusters r)) r"
    by (simp add: catalog_inv_def counters_ok_def)
  show "catalog_inv P r \<Longrightarrow> 0 \<le> rc_total_bytes r \<and> rc_total_bytes r \<le> rc_max_retained_bytes r"
    by (rule catalog_within)
  show "rc_max_retained_bytes (catalog_step P f r) = rc_max_retained_bytes r" by (rule apply_frame_limits)
qed

end
