(* ===== verification/Catalog_Props.thy ===== *)
theory Catalog_Props
  imports Catalog_Laws "HOL-Library.Multiset"
begin

text \<open>
  The properties of the API-side catalog alone: its books over every run, what a frame may
  change of what a reader sees, and the pages of pods.
\<close>

section \<open>A concrete catalog\<close>

definition demo_catalog0 :: remote_catalog where
  "demo_catalog0 = (case new_remote_catalog [''c1'', ''c2''] 100 of Inr r \<Rightarrow> r
     | Inl _ \<Rightarrow> \<lparr>rc_clusters = [], rc_max = 0, rc_max_bytes = 0, rc_max_retained = 0,
         rc_max_retained_bytes = 0, rc_total_resources = 0, rc_total_bytes = 0,
         rc_live_resources = 0, rc_live_bytes = 0\<rparr>)"

definition demo_catalog_pod :: "string \<Rightarrow> catalog_resource" where
  "demo_catalog_pod n = \<lparr>cr_kind = KindPod, cr_uid = n, cr_namespace = ''ns'', cr_name = n,
     cr_owners = [], cr_node_name = ''n1''\<rparr>"

definition demo_frame :: "frame_type \<Rightarrow> catalog_resource list \<Rightarrow> watch_frame" where
  "demo_frame t xs = \<lparr>wf_cluster_id = ''c1'', wf_epoch = 1, wf_seq = 4, wf_type = t,
     wf_resources = xs, wf_change = None, wf_observed_unix_ms = 7\<rparr>"

definition demo_frames :: "watch_frame option list" where
  "demo_frames = map Some
     [demo_frame Watch_snapshot_begin [],
      demo_frame Watch_snapshot_chunk [demo_catalog_pod ''b'', demo_catalog_pod ''a''],
      demo_frame Watch_snapshot_commit []]"

definition demo_catalog :: remote_catalog where
  "demo_catalog = fold (catalog_step demo_sizes) demo_frames demo_catalog0"

lemma demo_catalog0_Inr: "new_remote_catalog [''c1'', ''c2''] 100 = Inr demo_catalog0"
  by code_simp

lemma demo_catalog_inv: "catalog_inv demo_sizes demo_catalog"
  unfolding demo_catalog_def
  by (rule live_rows_ledger.run_inv) (rule new_catalog_inv [OF demo_sizes_ok demo_catalog0_Inr])

section \<open>The books\<close>

text \<open>
  (C11) Whatever frames arrive, the catalog's four counters are exact: the live ones are the
  numbers and bytes of the visible resources of all clusters, the retained ones count the
  staged resources as well; none is negative and each stays within its limit.
\<close>

theorem catalog_counters_accounted:
  assumes "sizes_ok P" and "new_remote_catalog ids n = Inr r0"
  shows "let r = fold (catalog_step P) fs r0; m = rc_clusters r in
      rc_live_resources r = msum live_rows m \<and> 0 \<le> rc_live_resources r
      \<and> rc_live_resources r \<le> rc_max r0
    \<and> rc_live_bytes r = msum ca_live_bytes m \<and> 0 \<le> rc_live_bytes r
      \<and> rc_live_bytes r \<le> rc_max_bytes r0
    \<and> retained_catalog r = (msum live_rows m + msum stage_count m,
        msum ca_live_bytes m + msum ca_stage_bytes m)
    \<and> rc_total_resources r \<le> rc_max_retained r0 \<and> rc_total_bytes r \<le> rc_max_retained_bytes r0"
proof -
  have i: "catalog_inv P r0" by (rule new_catalog_inv [OF assms])
  show ?thesis
    using live_rows_ledger.run_books [OF i] live_rows_ledger.run_within [OF i]
      live_bytes_ledger.run_books [OF i] live_bytes_ledger.run_within [OF i]
      kept_rows_ledger.run_books [OF i] kept_rows_ledger.run_within [OF i]
      kept_bytes_ledger.run_books [OF i] kept_bytes_ledger.run_within [OF i]
    by (simp add: Let_def retained_catalog_def)
qed

theorem catalog_counters_accounted_witness:
  "rc_live_resources demo_catalog = msum live_rows (rc_clusters demo_catalog)
    \<and> rc_live_resources demo_catalog = 2 \<and> retained_catalog demo_catalog = (2, 30)"
proof -
  have "rc_live_resources demo_catalog = 2 \<and> retained_catalog demo_catalog = (2, 30)" by code_simp
  then show ?thesis
    using catalog_counters_accounted [OF demo_sizes_ok demo_catalog0_Inr, of demo_frames]
    unfolding demo_catalog_def Let_def by blast
qed

section \<open>What a reader sees\<close>

lemma release_stage_visible:
  "release_stage r c = (r', c') \<Longrightarrow>
    ca_resources c' = ca_resources c \<and> ca_available c' = ca_available c"
  by (auto simp: release_stage_def split: option.splits)

lemma stage_rows_visible:
  "stage_rows P r c xs = ((r', c'), e) \<Longrightarrow>
    ca_resources c' = ca_resources c \<and> ca_available c' = ca_available c"
proof (induction xs arbitrary: r c)
  case (Cons x xs)
  have row: "ca_resources c1 = ca_resources c \<and> ca_available c1 = ca_available c"
    if "stage_row P r c m x = ((r1, c1), e1)" for m r1 c1 e1
    using that by (auto simp: stage_row_def Let_def dest: release_stage_visible split: if_splits)
  show ?case
  proof (cases "ca_staging c")
    case (Some m)
    obtain r1 c1 e1 where s: "stage_row P r c m x = ((r1, c1), e1)" by (metis prod.collapse)
    show ?thesis
      using Cons Some s row [OF s] by (cases e1) auto
  qed (use Cons.prems in auto)
qed auto

lemma quiet_frame:
  assumes "apply_to_cluster P f r c = ((r', c'), e)"
    and "e \<noteq> None \<or> wf_type f \<in> {Watch_reset, Watch_heartbeat, Watch_snapshot_begin, Watch_snapshot_chunk}"
  shows "ca_resources c' = ca_resources c \<and> ca_available c' = ca_available c"
proof (cases "wf_type f")
  case Watch_snapshot_chunk
  with assms show ?thesis
    by (auto simp: apply_to_cluster_def apply_chunk_def
        dest: release_stage_visible stage_rows_visible split: if_splits)
next
  case Watch_delta
  have "ca_resources c1 = ca_resources c \<and> ca_available c1 = ca_available c"
    if "change_resource P act x r c = ((r1, c1), Some e1)" for act x r1 c1 e1
    using that by (auto simp: change_resource_def Let_def split: if_splits)
  with Watch_delta assms show ?thesis
    by (auto simp: apply_to_cluster_def apply_change_def
        dest: release_stage_visible split: if_splits option.splits prod.splits)
next
  case Watch_snapshot_commit
  with assms show ?thesis
    by (auto simp: apply_to_cluster_def apply_commit_def Let_def
        dest: release_stage_visible split: if_splits option.splits)
qed (use assms in \<open>auto simp: apply_to_cluster_def apply_begin_def
    dest: release_stage_visible split: if_splits prod.splits\<close>)

text \<open>
  (C12) A resync is invisible until it commits: a reset, a heartbeat, a snapshot begin or chunk,
  and any frame that is answered with an error leave what every reader of every cluster sees
  as it was; and no frame at all changes what is seen of another cluster.
\<close>

theorem catalog_swap_is_atomic:
  assumes "snd (apply_frame P (Some f) r) \<noteq> None
      \<or> wf_type f \<in> {Watch_reset, Watch_heartbeat, Watch_snapshot_begin, Watch_snapshot_chunk}
      \<or> i \<noteq> wf_cluster_id f"
  shows "visible_resources (catalog_step P (Some f) r) i = visible_resources r i"
proof (cases "map_of (rc_clusters r) (wf_cluster_id f)")
  case (Some c)
  obtain r' c' e where s: "apply_to_cluster P f r c = ((r', c'), e)" by (metis prod.collapse)
  have "rc_clusters r' = rc_clusters r"
    using cluster_frame [of r P f c] s by (simp add: same_frame_def)
  then show ?thesis
    using assms Some s quiet_frame [OF s]
    by (auto simp: apply_frame_def visible_resources_def split: if_splits)
qed (simp add: apply_frame_def visible_resources_def)

theorem catalog_swap_is_atomic_witness:
  "visible_resources (catalog_step demo_sizes (Some (demo_frame Watch_snapshot_begin [])) demo_catalog) ''c1''
    = visible_resources demo_catalog ''c1''
   \<and> visible_resources demo_catalog ''c1'' \<noteq> None"
proof -
  have 1: "visible_resources demo_catalog ''c1'' \<noteq> None" by code_simp
  have t: "wf_type (demo_frame Watch_snapshot_begin [])
    \<in> {Watch_reset, Watch_heartbeat, Watch_snapshot_begin, Watch_snapshot_chunk}"
    by (simp add: demo_frame_def)
  from catalog_swap_is_atomic [of demo_sizes "demo_frame Watch_snapshot_begin []" demo_catalog "''c1''"]
    t 1 show ?thesis by blast
qed

section \<open>Pages of pods\<close>

text \<open>
  \<open>CatalogPods\<close> returns its pods in the order of namespace, name and UID; without a limit
  it returns each pod of the scope once, and with a limit it returns the first that many, so
  every pod it leaves out comes after every pod it returns.
\<close>

lemma catalog_pods_first_in_order:
  "sorted (map pod_order (catalog_pods r i ns limit))
    \<and> (if limit > 0 then length (catalog_pods r i ns limit) = min (nat limit) (length (visit_pods r i ns))
       else mset (catalog_pods r i ns limit) = mset (visit_pods r i ns))
    \<and> (\<exists>rest. mset (visit_pods r i ns) = mset (catalog_pods r i ns limit) + mset rest
        \<and> list_all (\<lambda>q. list_all (\<lambda>p. pod_order p \<le> pod_order q) (catalog_pods r i ns limit)) rest)"
proof -
  let ?s = "sort_key pod_order (visit_pods r i ns)"
  let ?n = "if limit > 0 then nat limit else length ?s"
  have eq: "catalog_pods r i ns limit = take ?n ?s"
    by (auto simp: catalog_pods_def Let_def)
  have sorted: "sorted (map pod_order ?s)" by simp
  then have "sorted (map pod_order (take ?n ?s) @ map pod_order (drop ?n ?s))"
    by (simp only: map_append [symmetric] append_take_drop_id)
  then have "sorted (map pod_order (take ?n ?s))"
    and le: "\<forall>p \<in> set (take ?n ?s). \<forall>q \<in> set (drop ?n ?s). pod_order p \<le> pod_order q"
    by (auto simp: sorted_append)
  moreover have m: "mset (visit_pods r i ns) = mset (take ?n ?s) + mset (drop ?n ?s)"
    by (metis append_take_drop_id mset_append mset_sort)
  moreover have "if limit > 0 then length (take ?n ?s) = min (nat limit) (length (visit_pods r i ns))
       else mset (take ?n ?s) = mset (visit_pods r i ns)"
    by (simp add: min.commute)
  moreover have "list_all (\<lambda>q. list_all (\<lambda>p. pod_order p \<le> pod_order q) (take ?n ?s)) (drop ?n ?s)"
    using le by (simp only: list_all_iff) blast
  ultimately show ?thesis
    unfolding eq by (intro conjI exI [of _ "drop ?n ?s"]) assumption+
qed

end
