(* ===== verification/Watch_Link.thy ===== *)
theory Watch_Link
  imports Registry_Effects Catalog_Props
begin

text \<open>
  The watch stream between the registry and the API
  (\<^verbatim>\<open>internal/clusterstate/transport/grpc.go\<close>, \<open>Watch\<close>): the frames of a snapshot, the
  answer to each queued change, and the frames of both as a client's catalog sees them.
  A stream is the list of frames it sends; a failed send ends it, so every operation answers
  with its frames and the error, if any. The state of the stream is the version it sent last.
\<close>

section \<open>Sending\<close>

definition frame_limit :: "int \<Rightarrow> int" where
  "frame_limit mx = (if mx \<le> 0 then 4 * 2 ^ 20 else mx)"

text \<open>\<open>Time.UnixMilli\<close>; the Unix epoch is 62135596800 seconds after Go's zero time.\<close>

definition unix_milli :: "time \<Rightarrow> int" where
  "unix_milli t = (t - 62135596800 * second) div 1000000"

definition watch_header :: "string \<Rightarrow> frame_type \<Rightarrow> u64 \<Rightarrow> u64 \<Rightarrow> int \<Rightarrow> watch_frame" where
  "watch_header i t e s ms =
     \<lparr>wf_cluster_id = i, wf_epoch = e, wf_seq = s, wf_type = t, wf_resources = [],
      wf_change = None, wf_observed_unix_ms = ms\<rparr>"

type_synonym sent = "watch_frame list \<times> string option"

definition send_frame :: "proto_sizes \<Rightarrow> int \<Rightarrow> watch_frame \<Rightarrow> sent" where
  "send_frame P mx f =
     (if ps_frame P f > frame_limit mx then ([], Some ''watch frame exceeds maximum'') else ([f], None))"

definition then_send :: "sent \<Rightarrow> sent \<Rightarrow> sent" where
  "then_send a b =
     (case snd a of Some e \<Rightarrow> (fst a, Some e) | None \<Rightarrow> (fst a @ fst b, snd b))"

definition flush_chunk :: "proto_sizes \<Rightarrow> int \<Rightarrow> watch_frame \<Rightarrow> catalog_resource list \<Rightarrow> sent" where
  "flush_chunk P mx h chunk =
     (if chunk = [] then ([], None) else send_frame P mx (h\<lparr>wf_resources := chunk\<rparr>))"

text \<open>The size test measures the chunk with the next row and without the time of observation.\<close>

fun send_chunks :: "proto_sizes \<Rightarrow> int \<Rightarrow> watch_frame \<Rightarrow> catalog_resource list
    \<Rightarrow> catalog_resource list \<Rightarrow> sent" where
  "send_chunks P mx h chunk [] = flush_chunk P mx h chunk"
| "send_chunks P mx h chunk (x # xs) =
     (if length chunk \<ge> 1000
         \<or> ps_frame P (h\<lparr>wf_resources := chunk @ [x], wf_observed_unix_ms := 0\<rparr>) > frame_limit mx
      then then_send (flush_chunk P mx h chunk) (send_chunks P mx h [x] xs)
      else send_chunks P mx h (chunk @ [x]) xs)"

definition snapshot_frames :: "proto_sizes \<Rightarrow> int \<Rightarrow> string \<Rightarrow> watch_snapshot \<Rightarrow> sent" where
  "snapshot_frames P mx i w =
     (let h = (\<lambda>t. watch_header i t (ws_epoch w) (ws_seq w) (unix_milli (ws_observed w))) in
      then_send (send_frame P mx (h Watch_snapshot_begin))
        (then_send (send_chunks P mx (h Watch_snapshot_chunk) [] (ws_resources w))
          (send_frame P mx (h Watch_snapshot_commit))))"

type_synonym watch_state = "u64 \<times> u64"

definition send_snapshot :: "proto_sizes \<Rightarrow> int \<Rightarrow> registry \<Rightarrow> string \<Rightarrow> watch_state
    \<Rightarrow> sent \<times> watch_state" where
  "send_snapshot P mx r i st =
     (case catalog_snapshot P r i (64 * 2 ^ 20) of
        Inl e \<Rightarrow> (send_frame P mx (watch_header i Watch_reset 0 0 0), st)
      | Inr w \<Rightarrow>
         (let out = snapshot_frames P mx i w in
          (out, if snd out = None then (ws_epoch w, ws_seq w) else st)))"

text \<open>One change of the subscription.\<close>

definition resend :: "proto_sizes \<Rightarrow> int \<Rightarrow> registry \<Rightarrow> string \<Rightarrow> watch_state \<Rightarrow> watch_change
    \<Rightarrow> sent \<times> watch_state" where
  "resend P mx r i st ch =
     (let reset = send_frame P mx (watch_header i Watch_reset 0 0 (unix_milli (wc_observed ch))) in
      case send_snapshot P mx r i st of
        (out, st') \<Rightarrow> (then_send reset out, if snd reset = None then st' else st))"

definition watch_handle :: "proto_sizes \<Rightarrow> int \<Rightarrow> registry \<Rightarrow> string \<Rightarrow> watch_state \<Rightarrow> watch_change
    \<Rightarrow> sent \<times> watch_state" where
  "watch_handle P mx r i st ch =
     (let ms = unix_milli (wc_observed ch) in
      if wc_expired ch
      then (let out = send_frame P mx (watch_header i Watch_expired 0 0 ms) in
            (out, if snd out = None then (0, 0) else st))
      else if wc_heartbeat ch
      then (send_frame P mx (watch_header i Watch_heartbeat (wc_epoch ch) (wc_seq ch) ms), st)
      else if wc_reset ch
      then (if wc_epoch ch = fst st \<and> wc_seq ch \<le> snd st then (([], None), st)
            else resend P mx r i st ch)
      else (case wc_change ch of
              None \<Rightarrow> (([], None), st)
            | Some d \<Rightarrow>
               if cc_epoch d = fst st \<and> cc_seq d \<le> snd st then (([], None), st)
               else if cc_epoch d \<noteq> fst st \<or> cc_seq d \<noteq> snd st + 1 then resend P mx r i st ch
               else (let out = send_frame P mx
                           ((watch_header i Watch_delta (cc_epoch d) (cc_seq d) ms)\<lparr>wf_change := Some d\<rparr>)
                     in (out, if snd out = None then (cc_epoch d, cc_seq d) else st))))"

section \<open>Receiving\<close>

text \<open>The client applies the frames in order and drops the stream at the first error.\<close>

fun deliver :: "proto_sizes \<Rightarrow> watch_frame list \<Rightarrow> remote_catalog \<Rightarrow> remote_catalog \<times> string option" where
  "deliver P [] r = (r, None)"
| "deliver P (f # fs) r =
     (case apply_frame P (Some f) r of
        (r', Some e) \<Rightarrow> (r', Some e)
      | (r', None) \<Rightarrow> deliver P fs r')"

text \<open>\<open>StartWatch\<close> for one cluster: frames of another cluster end the stream too; a commit resets
  the backoff; after a stream ends the client applies a reset frame and waits.\<close>

fun client_stream :: "proto_sizes \<Rightarrow> string \<Rightarrow> watch_frame option list \<Rightarrow> duration \<Rightarrow> remote_catalog
    \<Rightarrow> remote_catalog \<times> duration \<times> string option" where
  "client_stream P i [] backoff r = (r, backoff, None)"
| "client_stream P i (None # fs) backoff r = (r, backoff, Some ''invalid watch frame'')"
| "client_stream P i (Some f # fs) backoff r =
     (if wf_cluster_id f \<noteq> i \<or> ps_frame P f > 4 * 2 ^ 20 then (r, backoff, Some ''invalid watch frame'')
      else (case apply_frame P (Some f) r of
              (r', Some e) \<Rightarrow> (r', backoff, Some e)
            | (r', None) \<Rightarrow>
                client_stream P i fs (if wf_type f = Watch_snapshot_commit then second else backoff) r'))"

definition client_reset :: "proto_sizes \<Rightarrow> string \<Rightarrow> remote_catalog \<Rightarrow> remote_catalog" where
  "client_reset P i r = fst (apply_frame P (Some (watch_header i Watch_reset 0 0 0)) r)"

text \<open>The delay before the next attempt (a delay given from outside, or jitter on top of the
  backoff, and the range check) and the next backoff.\<close>

definition retry_delay :: "duration option \<Rightarrow> duration \<Rightarrow> duration \<Rightarrow> duration" where
  "retry_delay given jitter backoff =
     (let delay = (case given of None \<Rightarrow> backoff + jitter | Some d \<Rightarrow> d) in
      if delay < 1000000 \<or> delay > 36 * second then backoff else delay)"

definition next_backoff :: "duration \<Rightarrow> duration" where
  "next_backoff b = (if b < 30 * second then (if b * 2 > 30 * second then 30 * second else b * 2) else b)"

section \<open>The chunks of a snapshot\<close>

lemma flush_chunk_sent:
  "flush_chunk P mx h chunk = (fs, None) \<Longrightarrow>
    fs = (if chunk = [] then [] else [h\<lparr>wf_resources := chunk\<rparr>])
    \<and> (chunk \<noteq> [] \<longrightarrow> ps_frame P (h\<lparr>wf_resources := chunk\<rparr>) \<le> frame_limit mx)"
  by (auto simp: flush_chunk_def send_frame_def split: if_splits)

lemma then_send_None:
  "then_send a b = (fs, None) \<Longrightarrow>
    snd a = None \<and> snd b = None \<and> fs = fst a @ fst b"
  by (auto simp: then_send_def split: option.splits)

definition good_chunk :: "proto_sizes \<Rightarrow> int \<Rightarrow> watch_frame \<Rightarrow> catalog_resource list \<Rightarrow> bool" where
  "good_chunk P mx h ch \<longleftrightarrow>
     ch \<noteq> [] \<and> length ch \<le> 1000 \<and> ps_frame P (h\<lparr>wf_resources := ch\<rparr>) \<le> frame_limit mx"

lemma send_chunks_sent:
  assumes "send_chunks P mx h chunk xs = (fs, None)" and "length chunk \<le> 1000"
  shows "\<exists>chs. fs = map (\<lambda>ch. h\<lparr>wf_resources := ch\<rparr>) chs \<and> concat chs = chunk @ xs
    \<and> list_all (good_chunk P mx h) chs"
  using assms
proof (induction xs arbitrary: chunk fs)
  case Nil
  then have "flush_chunk P mx h chunk = (fs, None)" by simp
  from flush_chunk_sent [OF this] Nil show ?case
    by (intro exI [of _ "if chunk = [] then [] else [chunk]"]) (auto simp: good_chunk_def)
next
  case (Cons x xs)
  show ?case
  proof (cases "length chunk \<ge> 1000
      \<or> ps_frame P (h\<lparr>wf_resources := chunk @ [x], wf_observed_unix_ms := 0\<rparr>) > frame_limit mx")
    case True
    obtain gs e where g: "flush_chunk P mx h chunk = (gs, e)" by (cases "flush_chunk P mx h chunk")
    obtain hs e' where k: "send_chunks P mx h [x] xs = (hs, e')" by (cases "send_chunks P mx h [x] xs")
    from Cons.prems(1) True g k have "then_send (gs, e) (hs, e') = (fs, None)" by simp
    then have eq: "e = None" "e' = None" "fs = gs @ hs" by (auto dest!: then_send_None)
    from Cons.IH [OF k [unfolded eq]] obtain chs where
      chs: "hs = map (\<lambda>ch. h\<lparr>wf_resources := ch\<rparr>) chs" "concat chs = [x] @ xs"
        "list_all (good_chunk P mx h) chs" by auto
    from flush_chunk_sent [OF g [unfolded eq]] chs eq Cons.prems(2) show ?thesis
      by (intro exI [of _ "(if chunk = [] then [] else [chunk]) @ chs"]) (auto simp: good_chunk_def [of P mx h chunk])
  next
    case False
    with Cons.prems have "send_chunks P mx h (chunk @ [x]) xs = (fs, None)" by simp
    from Cons.IH [OF this] False show ?thesis by auto
  qed
qed

text \<open>What \<open>Watch\<close> sends for a snapshot, when nothing failed.\<close>

lemma snapshot_frames_sent:
  assumes "snapshot_frames P mx i w = (fs, None)"
  defines "h \<equiv> \<lambda>t. watch_header i t (ws_epoch w) (ws_seq w) (unix_milli (ws_observed w))"
  shows "\<exists>chs. fs = h Watch_snapshot_begin
      # map (\<lambda>ch. (h Watch_snapshot_chunk)\<lparr>wf_resources := ch\<rparr>) chs @ [h Watch_snapshot_commit]
    \<and> concat chs = ws_resources w \<and> list_all (good_chunk P mx (h Watch_snapshot_chunk)) chs
    \<and> ps_frame P (h Watch_snapshot_begin) \<le> frame_limit mx
    \<and> ps_frame P (h Watch_snapshot_commit) \<le> frame_limit mx"
proof -
  obtain cs e where cs: "send_chunks P mx (h Watch_snapshot_chunk) [] (ws_resources w) = (cs, e)"
    by (cases "send_chunks P mx (h Watch_snapshot_chunk) [] (ws_resources w)")
  from assms(1) cs have
    "then_send (send_frame P mx (h Watch_snapshot_begin))
       (then_send (cs, e) (send_frame P mx (h Watch_snapshot_commit))) = (fs, None)"
    by (simp add: snapshot_frames_def Let_def h_def)
  from then_send_None [OF this] have
    b: "snd (send_frame P mx (h Watch_snapshot_begin)) = None"
    and m: "snd (then_send (cs, e) (send_frame P mx (h Watch_snapshot_commit))) = None"
    and fs: "fs = fst (send_frame P mx (h Watch_snapshot_begin))
      @ fst (then_send (cs, e) (send_frame P mx (h Watch_snapshot_commit)))" by auto
  from m have e: "e = None" "snd (send_frame P mx (h Watch_snapshot_commit)) = None"
    by (auto simp: then_send_def split: option.splits)
  from send_chunks_sent [OF cs [unfolded e]] obtain chs where
    "cs = map (\<lambda>ch. (h Watch_snapshot_chunk)\<lparr>wf_resources := ch\<rparr>) chs"
    "concat chs = ws_resources w" "list_all (good_chunk P mx (h Watch_snapshot_chunk)) chs" by auto
  with b e fs show ?thesis
    by (intro exI [of _ chs]) (auto simp: then_send_def send_frame_def split: if_splits)
qed

end
