(* ===== verification/Agent_Sync.thy ===== *)
theory Agent_Sync
  imports Registry_Effects Watch_Link
begin

text \<open>
  Both ends of the agent's stream: the agent's session
  (\<^verbatim>\<open>cmd/cluster-state-agent/main.go\<close>, \<open>syncOnce\<close>) and the service that answers it
  (\<^verbatim>\<open>transport/grpc.go\<close>, \<open>Sync\<close>). The agent is written over an arbitrary exchange of a frame
  for a reply; the service is one. What Kubernetes shows (\<open>SafeProjection\<close>) and the wire size
  of a frame are arguments.
\<close>

section \<open>Frames\<close>

datatype agent_frame =
    Hello_frame hello
  | Begin_frame begin_snapshot
  | Chunk_frame "resource list"
  | Commit_frame u64
  | Delta_frame delta
  | Heartbeat_frame heartbeat
  | Empty_frame

section \<open>The service\<close>

record sync_state =
  sy_connected :: bool
  sy_generation :: u64

definition sync_start :: sync_state where
  "sync_start = \<lparr>sy_connected = False, sy_generation = 0\<rparr>"

definition step_answer :: "registry \<times> string option \<Rightarrow> registry \<times> (string + reply)" where
  "step_answer ra =
     (case ra of
        (r, None) \<Rightarrow> (r, Inr (Ack 0 0 False))
      | (r, Some e) \<Rightarrow>
          (r, Inl (if str_contains e ''capacity'' \<or> str_contains e ''limit''
             then ''ResourceExhausted: registry rejected frame''
             else ''FailedPrecondition: registry rejected frame'')))"

definition step_reply :: "registry \<times> reply \<Rightarrow> registry \<times> (string + reply)" where
  "step_reply ra = (fst ra, Inr (snd ra))"

text \<open>The switch over an accepted frame; \<open>first\<close> says that it was the hello that opened the
  session.\<close>

fun sync_dispatch :: "proto_sizes \<Rightarrow> string \<Rightarrow> u64 \<Rightarrow> bool \<Rightarrow> agent_frame \<Rightarrow> time \<Rightarrow> registry
    \<Rightarrow> registry \<times> (string + reply)" where
  "sync_dispatch P i g first (Hello_frame h) t r =
     (if first then (r, Inr (Ack g 0 False)) else (r, Inl ''duplicate hello''))"
| "sync_dispatch P i g first (Begin_frame b) t r = step_answer (begin_op r i g (Some b))"
| "sync_dispatch P i g first (Chunk_frame xs) t r = step_answer (chunk_op P r i g (Some xs))"
| "sync_dispatch P i g first (Commit_frame e) t r = step_reply (commit_op P r i g (Some e) t)"
| "sync_dispatch P i g first (Delta_frame d) t r = step_reply (delta_op P r i g (Some d) t)"
| "sync_dispatch P i g first (Heartbeat_frame h) t r = step_reply (heartbeat_op P r i g (Some h) t)"
| "sync_dispatch P i g first Empty_frame t r = (r, Inl ''unsupported frame'')"

text \<open>After the hello: the frame is charged and dispatched.\<close>

definition sync_charged :: "proto_sizes \<Rightarrow> string \<Rightarrow> bool \<Rightarrow> agent_frame \<Rightarrow> int \<Rightarrow> time
    \<Rightarrow> registry \<Rightarrow> sync_state \<Rightarrow> (registry \<times> sync_state) \<times> (string + reply)" where
  "sync_charged P i first f sz t r st =
     (if f = Empty_frame then ((r, st), Inl ''empty frame'')
      else case consume_ingress r i (sy_generation st) sz t of
        (r1, False) \<Rightarrow> ((r1, st), Inl ''frame rate exceeded'')
      | (r1, True) \<Rightarrow>
         (case sync_dispatch P i (sy_generation st) first f t r1 of (r2, a) \<Rightarrow> ((r2, st), a)))"

definition sync_frame :: "proto_sizes \<Rightarrow> int \<Rightarrow> string \<Rightarrow> agent_frame \<Rightarrow> int \<Rightarrow> time
    \<Rightarrow> registry \<Rightarrow> sync_state \<Rightarrow> (registry \<times> sync_state) \<times> (string + reply)" where
  "sync_frame P mx i f sz t r st =
     (if sz > frame_limit mx then ((r, st), Inl ''frame exceeds maximum'')
      else case f of
        Hello_frame h \<Rightarrow>
          (if sy_connected st then sync_charged P i False f sz t r st
           else (case open_session r (Some h) i t of
                   (r1, Inl e) \<Rightarrow> ((r1, st), Inl ''agent identity rejected'')
                 | (r1, Inr g) \<Rightarrow>
                     sync_charged P i True f sz t r1 \<lparr>sy_connected = True, sy_generation = g\<rparr>))
      | _ \<Rightarrow>
          (if \<not> sy_connected st then ((r, st), Inl ''hello required'')
           else sync_charged P i False f sz t r st))"

text \<open>The deferred call when the stream ends.\<close>

definition sync_end :: "string \<Rightarrow> time \<Rightarrow> registry \<Rightarrow> sync_state \<Rightarrow> registry" where
  "sync_end i t r st =
     (if sy_connected st then disconnect_session r i (sy_generation st) t else r)"

text \<open>A whole stream: frames with their sizes and arrival times, until the first error.\<close>

fun sync_stream :: "proto_sizes \<Rightarrow> int \<Rightarrow> string \<Rightarrow> (agent_frame \<times> int \<times> time) list \<Rightarrow> time
    \<Rightarrow> registry \<Rightarrow> sync_state \<Rightarrow> registry \<times> sync_state" where
  "sync_stream P mx i [] t r st = (sync_end i t r st, st)"
| "sync_stream P mx i ((f, sz, t') # fs) t r st =
     (case sync_frame P mx i f sz t' r st of
        ((r', st'), Inl e) \<Rightarrow> (sync_end i t r' st', st')
      | ((r', st'), Inr a) \<Rightarrow> sync_stream P mx i fs t r' st')"

section \<open>The agent\<close>

text \<open>\<open>chunkResources\<close>; \<open>sz\<close> is the size of the frame that carries the chunk.\<close>

fun chunk_from :: "(resource list \<Rightarrow> int) \<Rightarrow> int \<Rightarrow> int \<Rightarrow> resource list list \<Rightarrow> resource list
    \<Rightarrow> resource list \<Rightarrow> string + resource list list" where
  "chunk_from sz mx n out cur [] = Inr (if cur = [] then out else out @ [cur])"
| "chunk_from sz mx n out cur (x # xs) =
     (let out1 = (if int (length cur) = n then out @ [cur] else out);
          cur1 = (if int (length cur) = n then [] else cur)
      in if sz (cur1 @ [x]) > mx
         then (if cur1 = [] \<or> sz [x] > mx then Inl ''resource exceeds message cap''
               else chunk_from sz mx n (out1 @ [cur1]) [x] xs)
         else chunk_from sz mx n out1 (cur1 @ [x]) xs)"

definition chunk_resources :: "(resource list \<Rightarrow> int) \<Rightarrow> int \<Rightarrow> int \<Rightarrow> resource list
    \<Rightarrow> string + resource list list" where
  "chunk_resources sz mx n xs =
     (if mx < 1 \<or> n < 1 \<or> n > 1000 then Inl ''invalid snapshot chunk limits''
      else chunk_from sz mx n [] [] xs)"

definition index_resources :: "resource list \<Rightarrow> (string, resource) gomap" where
  "index_resources xs = fold (\<lambda>x m. put (resource_key x) x m) xs []"

text \<open>One exchange of the agent, and a run of them until the first failure.\<close>

type_synonym 's exchange = "'s \<Rightarrow> agent_frame \<Rightarrow> 's \<times> (string + reply)"

definition agent_exchange :: "(agent_frame \<Rightarrow> int) \<Rightarrow> int \<Rightarrow> 's exchange \<Rightarrow> 's \<Rightarrow> agent_frame
    \<Rightarrow> 's \<times> (string + reply)" where
  "agent_exchange fsz mx ex s f =
     (if fsz f > mx then (s, Inl ''frame exceeds configured maximum'')
      else (case ex s f of
              (s', Inr (Nack code)) \<Rightarrow> (s', Inl (''registry nack: '' @ code))
            | (s', a) \<Rightarrow> (s', a)))"

fun agent_send :: "(agent_frame \<Rightarrow> int) \<Rightarrow> int \<Rightarrow> 's exchange \<Rightarrow> 's \<Rightarrow> agent_frame list
    \<Rightarrow> 's \<times> string option" where
  "agent_send fsz mx ex s [] = (s, None)"
| "agent_send fsz mx ex s (f # fs) =
     (case agent_exchange fsz mx ex s f of
        (s', Inl e) \<Rightarrow> (s', Some e)
      | (s', Inr a) \<Rightarrow> agent_send fsz mx ex s' fs)"

text \<open>The snapshot closure of \<open>syncOnce\<close>. The size of a chunk is that of its frame.\<close>

definition agent_snapshot :: "(agent_frame \<Rightarrow> int) \<Rightarrow> int \<Rightarrow> int \<Rightarrow> 's exchange \<Rightarrow> 's \<Rightarrow> u64 \<Rightarrow> u64
    \<Rightarrow> resource list \<Rightarrow> 's \<times> string option" where
  "agent_snapshot fsz mx n ex s e q xs =
     (case agent_send fsz mx ex s [Begin_frame \<lparr>bs_epoch = e, bs_base_seq = q\<rparr>] of
        (s1, Some err) \<Rightarrow> (s1, Some err)
      | (s1, None) \<Rightarrow>
         (case chunk_resources (\<lambda>ch. fsz (Chunk_frame ch)) mx n xs of
            Inl err \<Rightarrow> (s1, Some err)
          | Inr chs \<Rightarrow>
             agent_send fsz mx ex s1 (map Chunk_frame chs @ [Commit_frame e])))"

text \<open>The deltas of one change: the resources that are gone, then those new or different.\<close>

definition agent_changes :: "(string, resource) gomap \<Rightarrow> (string, resource) gomap
    \<Rightarrow> (resource \<times> bool) list" where
  "agent_changes current next =
     map (\<lambda>(k, x). (x, True)) (filter (\<lambda>(k, x). map_of next k = None) current)
     @ map (\<lambda>(k, x). (x, False)) (filter (\<lambda>(k, x). map_of current k \<noteq> Some x) next)"

fun number_changes :: "u64 \<Rightarrow> u64 \<Rightarrow> (resource \<times> bool) list \<Rightarrow> delta list" where
  "number_changes e q [] = []"
| "number_changes e q ((x, gone) # cs) =
     \<lparr>de_epoch = e, de_seq = q + 1, de_resource = Some x, de_deleted = gone\<rparr>
       # number_changes e (q + 1) cs"

text \<open>The events of the loop, and the loop until an event fails.\<close>

datatype agent_event = Ev_heartbeat | Ev_change "resource list"

fun agent_loop :: "(agent_frame \<Rightarrow> int) \<Rightarrow> int \<Rightarrow> 's exchange \<Rightarrow> u64 \<Rightarrow> agent_event list
    \<Rightarrow> 's \<Rightarrow> u64 \<Rightarrow> (string, resource) gomap \<Rightarrow> ('s \<times> u64 \<times> (string, resource) gomap) \<times> string option" where
  "agent_loop fsz mx ex e [] s q cur = ((s, q, cur), None)"
| "agent_loop fsz mx ex e (Ev_heartbeat # evs) s q cur =
     (case agent_send fsz mx ex s [Heartbeat_frame \<lparr>hb_epoch = e, hb_seq = q\<rparr>] of
        (s', Some err) \<Rightarrow> ((s', q, cur), Some err)
      | (s', None) \<Rightarrow> agent_loop fsz mx ex e evs s' q cur)"
| "agent_loop fsz mx ex e (Ev_change xs # evs) s q cur =
     (let next = index_resources xs; cs = agent_changes cur next in
      case agent_send fsz mx ex s (map Delta_frame (number_changes e q cs)) of
        (s', Some err) \<Rightarrow> ((s', q, cur), Some err)
      | (s', None) \<Rightarrow> agent_loop fsz mx ex e evs s' (q + of_nat (length cs)) next)"

definition agent_session :: "(agent_frame \<Rightarrow> int) \<Rightarrow> int \<Rightarrow> int \<Rightarrow> 's exchange \<Rightarrow> string \<Rightarrow> resource list
    \<Rightarrow> agent_event list \<Rightarrow> 's \<Rightarrow> ('s \<times> u64 \<times> u64 \<times> (string, resource) gomap) \<times> string option" where
  "agent_session fsz mx n ex i xs evs s =
     (case agent_exchange fsz mx ex s (Hello_frame \<lparr>he_cluster_id = i, he_protocol_version = protocol_version\<rparr>) of
        (s1, Inl err) \<Rightarrow> ((s1, 0, 0, []), Some err)
      | (s1, Inr a) \<Rightarrow>
         (let e = (case a of Ack e _ _ \<Rightarrow> e | Nack _ \<Rightarrow> 0) in
          if e = 0 then ((s1, 0, 0, []), Some ''registry returned invalid session epoch'')
          else (case agent_snapshot fsz mx n ex s1 e 0 xs of
              (s2, Some err) \<Rightarrow> ((s2, e, 0, []), Some err)
            | (s2, None) \<Rightarrow>
               (case agent_loop fsz mx ex e evs s2 0 (index_resources xs) of
                  ((s3, q, cur), err) \<Rightarrow> ((s3, e, q, cur), err)))))"

end
