(* ===== verification/Agent_Laws.thy ===== *)
theory Agent_Laws
  imports Agent_Sync
begin

text \<open>
  What the agent needs of the service it talks to, as a locale, and what the agent achieves
  with it: after every successful event the published map is the one the agent projected
  last. The service over the registry is an instance.
\<close>

section \<open>Chunks\<close>

definition chunk_fits :: "(resource list \<Rightarrow> int) \<Rightarrow> int \<Rightarrow> int \<Rightarrow> resource list \<Rightarrow> bool" where
  "chunk_fits sz mx n ch \<longleftrightarrow> ch \<noteq> [] \<and> int (length ch) \<le> n \<and> sz ch \<le> mx"

lemma chunk_from_Inr:
  assumes "chunk_from sz mx n out cur xs = Inr chs" and "0 < n"
    and "list_all (chunk_fits sz mx n) out" and "cur = [] \<or> chunk_fits sz mx n cur"
  shows "concat chs = concat out @ cur @ xs \<and> list_all (chunk_fits sz mx n) chs"
  using assms
proof (induction sz mx n out cur xs rule: chunk_from.induct)
  case (2 sz mx n out cur x xs)
  define out1 where "out1 = (if int (length cur) = n then out @ [cur] else out)"
  define cur1 where "cur1 = (if int (length cur) = n then [] else cur)"
  have full: "cur \<noteq> []" if "int (length cur) = n" using that "2.prems"(2) by auto
  have o1: "list_all (chunk_fits sz mx n) out1" "concat out1 @ cur1 = concat out @ cur"
    "cur1 = [] \<or> chunk_fits sz mx n cur1" "int (length cur1) < n"
    using "2.prems"(2-4) full by (auto simp: out1_def cur1_def chunk_fits_def [of sz mx n cur])
  show ?case
  proof (cases "sz (cur1 @ [x]) > mx")
    case True
    with "2.prems"(1) have rest: "chunk_from sz mx n (out1 @ [cur1]) [x] xs = Inr chs"
      and x: "cur1 \<noteq> []" "sz [x] \<le> mx"
      by (auto simp: Let_def out1_def cur1_def split: if_splits)
    have "concat chs = concat (out1 @ [cur1]) @ [x] @ xs \<and> list_all (chunk_fits sz mx n) chs"
      by (rule "2.IH"(1) [OF out1_def cur1_def True _ rest])
        (use x o1 "2.prems"(2) in \<open>auto simp: chunk_fits_def [of sz mx n "[x]"]\<close>)
    with o1(2) show ?thesis by simp
  next
    case False
    with "2.prems"(1) have rest: "chunk_from sz mx n out1 (cur1 @ [x]) xs = Inr chs"
      by (auto simp: Let_def out1_def cur1_def split: if_splits)
    have "concat chs = concat out1 @ (cur1 @ [x]) @ xs \<and> list_all (chunk_fits sz mx n) chs"
      by (rule "2.IH"(2) [OF out1_def cur1_def False rest])
        (use False o1 "2.prems"(2) in \<open>auto simp: chunk_fits_def [of sz mx n "cur1 @ [x]"]\<close>)
    then have "concat chs = (concat out1 @ cur1) @ [x] @ xs \<and> list_all (chunk_fits sz mx n) chs" by simp
    with o1(2) show ?thesis by simp
  qed
qed (auto simp: chunk_fits_def split: if_splits)

lemma chunk_from_Inl:
  "chunk_from sz mx n out cur xs = Inl e \<Longrightarrow> (\<forall>ys x. sz [x] \<le> sz (ys @ [x])) \<Longrightarrow>
    e = ''resource exceeds message cap'' \<and> (\<exists>x \<in> set xs. sz [x] > mx)"
proof (induction sz mx n out cur xs rule: chunk_from.induct)
  case (2 sz mx n out cur x xs)
  then show ?case by (auto simp: Let_def split: if_splits)
qed simp

lemma chunk_from_big:
  assumes "\<forall>ys x. sz [x] \<le> sz (ys @ [x])" and "x \<in> set xs" and "sz [x] > mx"
  shows "chunk_from sz mx n out cur xs = Inl ''resource exceeds message cap''"
  using assms(2)
proof (induction xs arbitrary: out cur)
  case (Cons y ys)
  show ?case
  proof (cases "x = y")
    case True
    have "sz (zs @ [y]) > mx" for zs
      using assms(1) assms(3) True by (metis less_le_trans)
    then show ?thesis using True assms(3) by (auto simp: Let_def)
  next
    case False
    with Cons show ?thesis by (auto simp: Let_def)
  qed
qed simp

section \<open>The index and its changes\<close>

definition resource_index :: "(string, resource) gomap \<Rightarrow> bool" where
  "resource_index m \<longleftrightarrow> distinct (keys_of m) \<and> list_all (\<lambda>(k, x). k = resource_key x) m"

lemma set_put_rows: "set (put k v m) \<subseteq> insert (k, v) (set m)"
  by (induction m) auto

lemma index_resources_index: "resource_index (index_resources xs)"
proof -
  have "resource_index m \<Longrightarrow> resource_index (fold (\<lambda>x m. put (resource_key x) x m) xs m)" for m
  proof (induction xs arbitrary: m)
    case (Cons x xs)
    have "resource_index (put (resource_key x) x m)"
      using Cons.prems set_put_rows [of "resource_key x" x m]
      by (auto simp: resource_index_def list_all_iff)
    with Cons.IH show ?case by simp
  qed simp
  then show ?thesis by (simp add: index_resources_def resource_index_def)
qed

definition store_all :: "resource list \<Rightarrow> (string \<Rightarrow> resource option) \<Rightarrow> (string \<Rightarrow> resource option)" where
  "store_all xs m = fold (\<lambda>x m. m(resource_key x \<mapsto> x)) xs m"

lemma index_resources_map: "map_of (index_resources xs) = store_all xs (\<lambda>_. None)"
proof -
  have "map_of (fold (\<lambda>x m. put (resource_key x) x m) xs m) = store_all xs (map_of m)" for m
    by (induction xs arbitrary: m) (simp_all add: store_all_def)
  from this [of "[]"] show ?thesis by (simp add: index_resources_def)
qed

text \<open>One change on the map: a removal or a store.\<close>

definition change_effect :: "resource \<times> bool \<Rightarrow> (string \<Rightarrow> resource option) \<Rightarrow> (string \<Rightarrow> resource option)" where
  "change_effect c m = m(resource_key (fst c) := (if snd c then None else Some (fst c)))"

lemma fold_change_effect:
  "fold change_effect cs m k =
     (case find (\<lambda>c. resource_key (fst c) = k) (rev cs) of
        None \<Rightarrow> m k | Some c \<Rightarrow> if snd c then None else Some (fst c))"
  by (induction cs rule: rev_induct) (auto simp: change_effect_def)

lemma fold_removals:
  "fold change_effect (map (\<lambda>(k, x). (x, True)) ps) m k
    = (if k \<in> resource_key ` snd ` set ps then None else m k)"
  by (induction ps arbitrary: m) (auto simp: change_effect_def)

lemma fold_stores:
  "resource_index ps \<Longrightarrow> fold change_effect (map (\<lambda>(k, x). (x, False)) ps) m k
    = (case map_of ps k of None \<Rightarrow> m k | Some x \<Rightarrow> Some x)"
proof (induction ps arbitrary: m)
  case (Cons p ps)
  obtain j x where p: "p = (j, x)" "j = resource_key x" using Cons.prems
    by (cases p) (auto simp: resource_index_def)
  have "resource_index ps" and "map_of ps j = None"
    using Cons.prems p by (auto simp: resource_index_def map_of_eq_None_iff)
  with Cons.IH p show ?case by (auto simp: change_effect_def split: option.split)
qed simp

lemma resource_index_filter: "resource_index m \<Longrightarrow> resource_index (filter Q m)"
  by (auto simp: resource_index_def list_all_iff intro: distinct_map_filter)

lemma map_of_filter_index:
  "distinct (keys_of m) \<Longrightarrow> map_of (filter (\<lambda>(k, x). Q k x) m) k
    = (case map_of m k of None \<Rightarrow> None | Some x \<Rightarrow> if Q k x then Some x else None)"
  by (induction m) (auto simp: map_of_eq_None_iff split: option.split)

lemma index_keys: "resource_index m \<Longrightarrow> resource_key ` snd ` set m = set (keys_of m)"
  by (force simp: resource_index_def list_all_iff)

lemma agent_changes_effect:
  assumes "resource_index cur" and "resource_index next"
  shows "fold change_effect (agent_changes cur next) (map_of cur) = map_of next"
proof
  fix k
  let ?gone = "filter (\<lambda>(k, x). map_of next k = None) cur"
  let ?new = "filter (\<lambda>(k, x). map_of cur k \<noteq> Some x) next"
  have d: "distinct (keys_of cur)" "distinct (keys_of next)" using assms by (auto simp: resource_index_def)
  have gone: "k \<in> resource_key ` snd ` set ?gone \<longleftrightarrow> map_of cur k \<noteq> None \<and> map_of next k = None"
    using index_keys [OF resource_index_filter [OF assms(1)]] keys_map_of [of k ?gone]
      map_of_filter_index [OF d(1), of "\<lambda>k x. map_of next k = None" k]
    by (auto split: option.splits)
  have new: "map_of ?new k = (case map_of next k of None \<Rightarrow> None
      | Some x \<Rightarrow> if map_of cur k \<noteq> Some x then Some x else None)"
    by (rule map_of_filter_index [OF d(2)])
  show "fold change_effect (agent_changes cur next) (map_of cur) k = map_of next k"
    using gone new
    by (auto simp: agent_changes_def fold_removals fold_stores [OF resource_index_filter [OF assms(2)]]
        split: option.splits)
qed

lemma number_changes_effect:
  "fold delta_effect (number_changes e q cs) m = fold change_effect cs m"
  by (induction e q cs arbitrary: m rule: number_changes.induct)
    (simp_all add: delta_effect_def change_effect_def)

text \<open>The number of deltas a list of events takes.\<close>

fun delta_count :: "agent_event list \<Rightarrow> (string, resource) gomap \<Rightarrow> nat" where
  "delta_count [] cur = 0"
| "delta_count (Ev_heartbeat # evs) cur = delta_count evs cur"
| "delta_count (Ev_change xs # evs) cur =
     length (agent_changes cur (index_resources xs)) + delta_count evs (index_resources xs)"

fun last_projection :: "agent_event list \<Rightarrow> resource list \<Rightarrow> resource list" where
  "last_projection [] xs = xs"
| "last_projection (Ev_heartbeat # evs) xs = last_projection evs xs"
| "last_projection (Ev_change ys # evs) xs = last_projection evs ys"

section \<open>The contract of the service\<close>

locale resync_server =
  fixes ex :: "'s exchange"
    and inv :: "'s \<Rightarrow> bool"
    and view :: "'s \<Rightarrow> string \<Rightarrow> resource option"
    and ver :: "'s \<Rightarrow> u64 \<times> u64"
    and staged :: "'s \<Rightarrow> ((string \<Rightarrow> resource option) \<times> u64 \<times> u64) option"
  assumes begin_law: "inv s \<Longrightarrow> ex s (Begin_frame b) = (s', Inr (Ack x y dup)) \<Longrightarrow>
      inv s' \<and> staged s' = Some (\<lambda>_. None, bs_epoch b, bs_base_seq b)"
    and chunk_law: "inv s \<Longrightarrow> staged s = Some (m, e, q) \<Longrightarrow>
      ex s (Chunk_frame xs) = (s', Inr (Ack x y dup)) \<Longrightarrow>
      inv s' \<and> staged s' = Some (store_all xs m, e, q)"
    and commit_law: "inv s \<Longrightarrow> staged s = Some (m, e, q) \<Longrightarrow>
      ex s (Commit_frame e) = (s', Inr (Ack x y dup)) \<Longrightarrow>
      inv s' \<and> staged s' = None \<and> view s' = m \<and> ver s' = (e, q)"
    and delta_law: "inv s \<Longrightarrow> staged s = None \<Longrightarrow> ver s = (e, q) \<Longrightarrow> q < q + 1 \<Longrightarrow>
      de_epoch d = e \<Longrightarrow> de_seq d = q + 1 \<Longrightarrow> ex s (Delta_frame d) = (s', Inr (Ack x y dup)) \<Longrightarrow>
      inv s' \<and> staged s' = None \<and> view s' = delta_effect d (view s) \<and> ver s' = (e, q + 1)"
    and heartbeat_law: "inv s \<Longrightarrow> ex s (Heartbeat_frame h) = (s', Inr (Ack x y dup)) \<Longrightarrow>
      inv s' \<and> staged s' = staged s \<and> view s' = view s \<and> ver s' = ver s"
begin

definition synced :: "'s \<Rightarrow> u64 \<Rightarrow> u64 \<Rightarrow> (string, resource) gomap \<Rightarrow> bool" where
  "synced s e q cur \<longleftrightarrow>
     inv s \<and> staged s = None \<and> ver s = (e, q) \<and> view s = map_of cur \<and> resource_index cur"

lemma exchange_ok:
  assumes "agent_exchange fsz mx ex s f = (s', Inr a)"
  shows "\<exists>x y dup. a = Ack x y dup \<and> ex s f = (s', Inr (Ack x y dup))"
  using assms by (auto simp: agent_exchange_def split: if_splits prod.splits sum.splits reply.splits)

lemma send_Cons_ok:
  assumes "agent_send fsz mx ex s (f # fs) = (s', None)"
  shows "\<exists>s1 x y dup. ex s f = (s1, Inr (Ack x y dup)) \<and> agent_send fsz mx ex s1 fs = (s', None)"
  using assms exchange_ok by (auto split: prod.splits sum.splits) blast

lemma send_append_ok:
  "agent_send fsz mx ex s (fs @ gs) = (s', None) \<Longrightarrow>
    \<exists>s1. agent_send fsz mx ex s fs = (s1, None) \<and> agent_send fsz mx ex s1 gs = (s', None)"
  by (induction fs arbitrary: s) (auto split: prod.splits sum.splits)

lemma send_chunks_ok:
  "agent_send fsz mx ex s (map Chunk_frame chs) = (s', None) \<Longrightarrow> inv s \<Longrightarrow>
    staged s = Some (m, e, q) \<Longrightarrow> inv s' \<and> staged s' = Some (store_all (concat chs) m, e, q)"
proof (induction chs arbitrary: s m)
  case Nil
  then show ?case by (simp add: store_all_def)
next
  case (Cons ch chs)
  obtain s1 x y dup where s1: "ex s (Chunk_frame ch) = (s1, Inr (Ack x y dup))"
    "agent_send fsz mx ex s1 (map Chunk_frame chs) = (s', None)"
    using send_Cons_ok [OF Cons.prems(1) [simplified list.map]] by blast
  from chunk_law [OF Cons.prems(2,3) s1(1)] Cons.IH [OF s1(2)]
  show ?case by (simp add: store_all_def)
qed

lemma snapshot_ok:
  assumes "agent_snapshot fsz mx n ex s e q xs = (s', None)" and "inv s"
  shows "synced s' e q (index_resources xs)"
proof -
  let ?b = "\<lparr>bs_epoch = e, bs_base_seq = q\<rparr>"
  obtain s1 where b: "agent_send fsz mx ex s [Begin_frame ?b] = (s1, None)"
    using assms(1) by (auto simp: agent_snapshot_def split: prod.splits option.splits)
  obtain chs where chs: "chunk_resources (\<lambda>ch. fsz (Chunk_frame ch)) mx n xs = Inr chs"
    and rest: "agent_send fsz mx ex s1 (map Chunk_frame chs @ [Commit_frame e]) = (s', None)"
    using assms(1) b by (auto simp: agent_snapshot_def split: sum.splits)
  obtain s0 x y dup where "ex s (Begin_frame ?b) = (s0, Inr (Ack x y dup))" "s0 = s1"
    using send_Cons_ok [OF b] by auto
  with begin_law [OF assms(2)] have s1: "inv s1" "staged s1 = Some (\<lambda>_. None, e, q)" by auto
  obtain s2 where s2: "agent_send fsz mx ex s1 (map Chunk_frame chs) = (s2, None)"
    "agent_send fsz mx ex s2 [Commit_frame e] = (s', None)"
    using send_append_ok [OF rest] by blast
  have "concat chs = xs"
    using chs chunk_from_Inr [of "\<lambda>ch. fsz (Chunk_frame ch)" mx n "[]" "[]" xs chs]
    by (auto simp: chunk_resources_def split: if_splits)
  with send_chunks_ok [OF s2(1) s1] have m: "inv s2" "staged s2 = Some (store_all xs (\<lambda>_. None), e, q)"
    by auto
  obtain x' y' dup' where "ex s2 (Commit_frame e) = (s', Inr (Ack x' y' dup'))"
    using send_Cons_ok [OF s2(2)] by auto
  from commit_law [OF m this] show ?thesis
    by (simp add: synced_def index_resources_map index_resources_index)
qed

lemma send_deltas_ok:
  "agent_send fsz mx ex s (map Delta_frame (number_changes e q cs)) = (s', None) \<Longrightarrow>
    inv s \<Longrightarrow> staged s = None \<Longrightarrow> ver s = (e, q) \<Longrightarrow> unat q + length cs < 2 ^ 64 \<Longrightarrow>
    inv s' \<and> staged s' = None \<and> ver s' = (e, q + of_nat (length cs))
      \<and> view s' = fold delta_effect (number_changes e q cs) (view s)"
proof (induction cs arbitrary: s q)
  case (Cons c cs)
  obtain x gone where c: "c = (x, gone)" by (cases c)
  let ?d = "\<lparr>de_epoch = e, de_seq = q + 1, de_resource = Some x, de_deleted = gone\<rparr>"
  obtain s1 a y dup where s1: "ex s (Delta_frame ?d) = (s1, Inr (Ack a y dup))"
    "agent_send fsz mx ex s1 (map Delta_frame (number_changes e (q + 1) cs)) = (s', None)"
    using send_Cons_ok Cons.prems(1) unfolding c number_changes.simps list.map by blast
  have un: "unat (q + 1) = unat q + 1" using Cons.prems(5) by (simp add: unat_word_ariths)
  then have lt: "q < q + 1" by (simp add: word_less_nat_alt)
  have step: "inv s1 \<and> staged s1 = None \<and> view s1 = delta_effect ?d (view s) \<and> ver s1 = (e, q + 1)"
    by (rule delta_law [OF Cons.prems(2-4) lt _ _ s1(1)]) simp_all
  from Cons.IH [OF s1(2)] step un Cons.prems(5)
  have "inv s' \<and> staged s' = None \<and> ver s' = (e, q + 1 + of_nat (length cs))
      \<and> view s' = fold delta_effect (number_changes e (q + 1) cs) (view s1)" by simp
  with step show ?case by (simp add: c algebra_simps)
qed simp

lemma loop_ok:
  "agent_loop fsz mx ex e evs s q (index_resources xs) = ((s', q', cur'), None) \<Longrightarrow>
    synced s e q (index_resources xs) \<Longrightarrow> unat q + delta_count evs (index_resources xs) < 2 ^ 64 \<Longrightarrow>
    cur' = index_resources (last_projection evs xs) \<and> synced s' e q' cur'"
proof (induction evs arbitrary: s q xs)
  case (Cons ev evs)
  show ?case
  proof (cases ev)
    case Ev_heartbeat
    then obtain s1 where h: "agent_send fsz mx ex s [Heartbeat_frame \<lparr>hb_epoch = e, hb_seq = q\<rparr>] = (s1, None)"
      and rest: "agent_loop fsz mx ex e evs s1 q (index_resources xs) = ((s', q', cur'), None)"
      using Cons.prems(1) by (auto split: prod.splits option.splits)
    obtain a b dup where "ex s (Heartbeat_frame \<lparr>hb_epoch = e, hb_seq = q\<rparr>) = (s1, Inr (Ack a b dup))"
      using send_Cons_ok [OF h] by auto
    from heartbeat_law [OF _ this] Cons.prems(2) have "synced s1 e q (index_resources xs)"
      by (simp add: synced_def)
    from Cons.IH [OF rest this] Cons.prems(3) Ev_heartbeat show ?thesis by auto
  next
    case (Ev_change ys)
    let ?cur = "index_resources xs" and ?next = "index_resources ys"
    let ?cs = "agent_changes ?cur ?next"
    obtain s1 where d: "agent_send fsz mx ex s (map Delta_frame (number_changes e q ?cs)) = (s1, None)"
      and rest: "agent_loop fsz mx ex e evs s1 (q + of_nat (length ?cs)) ?next = ((s', q', cur'), None)"
      using Cons.prems(1) Ev_change by (auto simp: Let_def split: prod.splits option.splits)
    have bound: "unat q + length ?cs < 2 ^ 64" using Cons.prems(3) Ev_change by simp
    have un: "unat (q + of_nat (length ?cs)) = unat q + length ?cs"
      using bound by (simp add: unat_word_ariths unat_of_nat)
    have s1: "inv s1 \<and> staged s1 = None \<and> ver s1 = (e, q + of_nat (length ?cs))
      \<and> view s1 = fold delta_effect (number_changes e q ?cs) (view s)"
      by (rule send_deltas_ok [OF d _ _ _ bound]) (use Cons.prems(2) in \<open>simp_all add: synced_def\<close>)
    moreover have "view s = map_of ?cur" using Cons.prems(2) by (simp add: synced_def)
    ultimately have "synced s1 e (q + of_nat (length ?cs)) ?next"
      using agent_changes_effect [OF index_resources_index index_resources_index]
      by (simp add: synced_def number_changes_effect index_resources_index)
    from Cons.IH [OF rest this] un Cons.prems(3) Ev_change show ?thesis by auto
  qed
qed simp

end

end
