(* ===== verification/Agent_Service.thy ===== *)
theory Agent_Service
  imports Agent_Laws
begin

text \<open>
  The service over the registry meets the agent's contract, so an agent's session leaves the
  registry publishing what the agent projected last; and the service confines every stream to
  the cluster its certificate names.
\<close>

section \<open>The effect of the service's operations\<close>

lemma begin_op_effect:
  assumes "begin_op r i g (Some b) = (r', None)"
  shows "\<exists>c c'. get_cluster r i = Some c \<and> get_cluster r' i = Some c'
    \<and> cl_staging c' = Some (empty_snapshot (bs_epoch b) (bs_base_seq b)) \<and> cl_pending c' = []
    \<and> cl_live c' = cl_live c"
  using assms by (auto simp: begin_op_def Let_def drop_staging_def split: option.splits if_splits)

lemma chunk_loop_effect:
  "chunk_loop P L tot s xs = (tot', s', None) \<Longrightarrow>
    contents s' = store_all xs (contents s) \<and> sn_epoch s' = sn_epoch s \<and> sn_seq s' = sn_seq s"
proof (induction xs arbitrary: tot s)
  case (Cons x xs)
  then obtain t where "chunk_loop P L t (store_resource P x s) xs = (tot', s', None)"
    by (auto simp: Let_def split: option.splits if_splits)
  from Cons.IH [OF this] show ?case
    by (simp add: store_all_def store_resource_def Let_def contents_def fun_upd_def)
qed (simp add: store_all_def)

lemma chunk_op_effect:
  assumes "chunk_op P r i g (Some xs) = (r', None)"
  shows "\<exists>c s c' s'. get_cluster r i = Some c \<and> cl_staging c = Some s \<and> get_cluster r' i = Some c'
    \<and> cl_staging c' = Some s' \<and> contents s' = store_all xs (contents s)
    \<and> sn_epoch s' = sn_epoch s \<and> sn_seq s' = sn_seq s
    \<and> cl_pending c' = cl_pending c \<and> cl_live c' = cl_live c"
  using assms chunk_loop_effect
  by (fastforce simp: chunk_op_def split: option.splits if_splits prod.splits)

lemma heartbeat_op_effect:
  assumes "get_cluster r i = Some c"
  shows "\<exists>c'. get_cluster (fst (heartbeat_op P r i g h t)) i = Some c' \<and> cl_live c' = cl_live c
    \<and> cl_staging c' = cl_staging c \<and> cl_pending c' = cl_pending c"
  using assms by (auto simp: heartbeat_op_def Let_def split: option.splits)

lemma ingress_effect:
  assumes "get_cluster r i = Some c"
  shows "\<exists>c'. get_cluster (fst (consume_ingress r i g n t)) i = Some c' \<and> cl_live c' = cl_live c
    \<and> cl_staging c' = cl_staging c \<and> cl_pending c' = cl_pending c"
  using assms
  by (auto simp: consume_ingress_def charge_ingress_def Let_def split: if_splits prod.splits)

text \<open>What a charged frame does: the ingress bucket, then the operation.\<close>

lemma sync_frame_ok:
  assumes "sync_frame P mx i f sz t r st = ((r', st'), Inr a)" and "sy_connected st"
  shows "\<exists>r1. consume_ingress r i (sy_generation st) sz t = (r1, True) \<and> st' = st
    \<and> sync_dispatch P i (sy_generation st) False f t r1 = (r', Inr a)"
  using assms
  by (auto simp: sync_frame_def sync_charged_def split: if_splits agent_frame.splits prod.splits bool.splits)

section \<open>The registry as the agent's service\<close>

type_synonym service = "(registry \<times> sync_state) \<times> time"

definition service_exchange :: "proto_sizes \<Rightarrow> int \<Rightarrow> string \<Rightarrow> (agent_frame \<Rightarrow> int) \<Rightarrow> (time \<Rightarrow> time)
    \<Rightarrow> service exchange" where
  "service_exchange P mx i fsz tick s f =
     (let out = sync_frame P mx i f (fsz f) (snd s) (fst (fst s)) (snd (fst s))
      in ((fst out, tick (snd s)), snd out))"

lemma service_exchange_eq:
  "service_exchange P mx i fsz tick ((r, st), t) f
    = (case sync_frame P mx i f (fsz f) t r st of (rs, a) \<Rightarrow> ((rs, tick t), a))"
  by (simp add: service_exchange_def Let_def split_beta)

definition service_inv :: "proto_sizes \<Rightarrow> string \<Rightarrow> service \<Rightarrow> bool" where
  "service_inv P i s \<longleftrightarrow>
     (case s of ((r, st), t) \<Rightarrow> reg_inv P r \<and> sy_connected st
       \<and> (case get_cluster r i of None \<Rightarrow> False | Some c \<Rightarrow> cl_pending c = []))"

definition service_view :: "string \<Rightarrow> service \<Rightarrow> string \<Rightarrow> resource option" where
  "service_view i s = (case live_of (fst (fst s)) i of None \<Rightarrow> (\<lambda>_. None) | Some v \<Rightarrow> contents v)"

definition service_ver :: "string \<Rightarrow> service \<Rightarrow> u64 \<times> u64" where
  "service_ver i s = (case live_of (fst (fst s)) i of None \<Rightarrow> (0, 0) | Some v \<Rightarrow> (sn_epoch v, sn_seq v))"

definition service_staged :: "string \<Rightarrow> service \<Rightarrow> ((string \<Rightarrow> resource option) \<times> u64 \<times> u64) option" where
  "service_staged i s =
     (case get_cluster (fst (fst s)) i of
        None \<Rightarrow> None
      | Some c \<Rightarrow> map_option (\<lambda>v. (contents v, sn_epoch v, sn_seq v)) (cl_staging c))"

lemma ingress_inv: "reg_inv P r \<Longrightarrow> reg_inv P (fst (consume_ingress r i g n t))"
  using reg_inv_step [of P r "Op_ingress i g n t"] by simp

text \<open>The charge in front of every frame, seen through the views.\<close>

lemma service_charge:
  assumes "service_inv P i ((r, st), t)"
    and "service_exchange P mx i fsz tick ((r, st), t) f = (s', Inr a)"
  shows "\<exists>r1 c c1 r'. get_cluster r i = Some c \<and> get_cluster r1 i = Some c1 \<and> reg_inv P r1
    \<and> cl_live c1 = cl_live c \<and> cl_staging c1 = cl_staging c \<and> cl_pending c1 = []
    \<and> sync_dispatch P i (sy_generation st) False f t r1 = (r', Inr a) \<and> s' = ((r', st), tick t)"
proof -
  obtain c where c: "get_cluster r i = Some c" "cl_pending c = []" and st: "sy_connected st"
    and inv: "reg_inv P r"
    using assms(1) by (auto simp: service_inv_def split: option.splits)
  obtain r' st' where f: "sync_frame P mx i f (fsz f) t r st = ((r', st'), Inr a)"
    and s': "s' = ((r', st'), tick t)"
    using assms(2) by (auto simp: service_exchange_eq split: prod.splits)
  obtain r1 where r1: "consume_ingress r i (sy_generation st) (fsz f) t = (r1, True)" "st' = st"
    "sync_dispatch P i (sy_generation st) False f t r1 = (r', Inr a)"
    using sync_frame_ok [OF f st] by blast
  have i1: "reg_inv P r1" using ingress_inv [OF inv, of i "sy_generation st" "fsz f" t] r1(1) by simp
  obtain c1 where c1: "get_cluster r1 i = Some c1" "cl_live c1 = cl_live c"
    "cl_staging c1 = cl_staging c" "cl_pending c1 = cl_pending c"
    using ingress_effect [OF c(1), of "sy_generation st" "fsz f" t] r1(1) by auto
  show ?thesis
    using c c1 i1 r1 s' by (intro exI conjI) (assumption | simp)+
qed

lemma dispatch_inv:
  assumes "reg_inv P r"
  shows "reg_inv P (fst (sync_dispatch P i g first f t r))"
proof (cases f)
  case (Begin_frame b)
  then show ?thesis using reg_inv_step [OF assms, of "Op_begin i g (Some b)"]
    by (auto simp: step_answer_def split: prod.split option.split)
next
  case (Chunk_frame xs)
  then show ?thesis using reg_inv_step [OF assms, of "Op_chunk i g (Some xs)"]
    by (auto simp: step_answer_def split: prod.split option.split)
next
  case (Commit_frame e)
  then show ?thesis using reg_inv_step [OF assms, of "Op_commit i g (Some e) t"]
    by (simp add: step_reply_def)
next
  case (Delta_frame d)
  then show ?thesis using reg_inv_step [OF assms, of "Op_delta i g (Some d) t"]
    by (simp add: step_reply_def)
next
  case (Heartbeat_frame h)
  then show ?thesis using reg_inv_step [OF assms, of "Op_heartbeat i g (Some h) t"]
    by (simp add: step_reply_def)
qed (use assms in auto)

lemma step_answer_ok: "step_answer ra = (r', Inr a) \<Longrightarrow> ra = (r', None)"
  by (auto simp: step_answer_def split: prod.splits option.splits)

lemma step_reply_ok: "step_reply ra = (r', Inr a) \<Longrightarrow> ra = (r', a)"
  by (auto simp: step_reply_def)

lemma not_dup_ack:
  assumes "get_cluster r i = Some c" "cl_live c = Some cur" "cl_staging c = None"
    and "sn_seq cur < de_seq d"
    and "delta_op P r i g (Some d) t = (r', Ack x y dup)"
  shows "\<not> dup"
  using assms
  by (auto simp: delta_op_def validate_def Let_def live_delta_def split: if_splits option.splits)

lemma delta_needs_live:
  assumes "get_cluster r i = Some c" "cl_staging c = None"
    and "delta_op P r i g (Some d) t = (r', Ack x y dup)"
  shows "cl_live c \<noteq> None"
  using assms by (auto simp: delta_op_def split: if_splits option.splits)

lemma service_delta:
  assumes inv: "service_inv P i s" and st: "service_staged i s = None" and v: "service_ver i s = (e, q)"
    and q: "q < q + 1" and d: "de_epoch d = e" "de_seq d = q + 1"
    and ex: "service_exchange P mx i fsz tick s (Delta_frame d) = (s', Inr (Ack x y dup))"
  shows "service_inv P i s' \<and> service_staged i s' = None
    \<and> service_view i s' = delta_effect d (service_view i s) \<and> service_ver i s' = (e, q + 1)"
proof -
  obtain r st0 t where s: "s = ((r, st0), t)" by (metis prod.collapse)
  obtain r1 c c1 r' where c: "get_cluster r i = Some c" "get_cluster r1 i = Some c1"
    and r1: "reg_inv P r1" "cl_live c1 = cl_live c" "cl_staging c1 = cl_staging c" "cl_pending c1 = []"
    and dsp: "sync_dispatch P i (sy_generation st0) False (Delta_frame d) t r1 = (r', Inr (Ack x y dup))"
    and s': "s' = ((r', st0), tick t)"
    using service_charge [OF inv [unfolded s] ex [unfolded s]] by blast
  have op: "delta_op P r1 i (sy_generation st0) (Some d) t = (r', Ack x y dup)"
    by (rule step_reply_ok) (use dsp in simp)
  have ns: "cl_staging c1 = None" using st c r1 by (simp add: service_staged_def s)
  obtain cur where cur: "cl_live c1 = Some cur"
    using delta_needs_live [OF c(2) ns op] by auto
  have ver: "sn_epoch cur = e" "sn_seq cur = q"
    using v c cur r1(2) by (auto simp: service_ver_def s live_of_def)
  have nd: "\<not> dup" by (rule not_dup_ack [OF c(2) cur ns _ op]) (use ver d q in simp)
  have op': "delta_op P r1 i (sy_generation st0) (Some d) t = (r', Ack x y False)"
    using op nd by simp
  obtain s1 where s1: "live_of r' i = Some s1" "contents s1 = delta_effect d (contents cur)"
    "sn_epoch s1 = sn_epoch cur" "sn_seq s1 = sn_seq cur + 1"
    using delta_published [OF r1(1) c(2) cur ns op'] by blast
  have "\<exists>c'. get_cluster r' i = Some c' \<and> cl_staging c' = None \<and> cl_pending c' = []"
  proof -
    obtain x' where ld: "live_delta P r1 i c1 cur d x' t = (r', Ack x y False)"
      using delta_op_accepted [OF c(2) cur ns op'] by blast
    then show ?thesis
      using ns r1(4) by (auto simp: live_delta_def Let_def split: option.splits)
  qed
  moreover have "reg_inv P r'"
    using dispatch_inv [OF r1(1), of i "sy_generation st0" False "Delta_frame d" t] dsp by simp
  ultimately show ?thesis
    using s1 ver inv c cur r1(2)
    by (auto simp: service_inv_def service_staged_def service_view_def service_ver_def s s' live_of_def)
qed

lemma service_commit:
  assumes inv: "service_inv P i s" and st: "service_staged i s = Some (m, e, q)"
    and ex: "service_exchange P mx i fsz tick s (Commit_frame e) = (s', Inr (Ack x y dup))"
  shows "service_inv P i s' \<and> service_staged i s' = None \<and> service_view i s' = m
    \<and> service_ver i s' = (e, q)"
proof -
  obtain r st0 t where s: "s = ((r, st0), t)" by (metis prod.collapse)
  obtain r1 c c1 r' where c: "get_cluster r i = Some c" "get_cluster r1 i = Some c1"
    and r1: "reg_inv P r1" "cl_live c1 = cl_live c" "cl_staging c1 = cl_staging c" "cl_pending c1 = []"
    and dsp: "sync_dispatch P i (sy_generation st0) False (Commit_frame e) t r1 = (r', Inr (Ack x y dup))"
    and s': "s' = ((r', st0), tick t)"
    using service_charge [OF inv [unfolded s] ex [unfolded s]] by blast
  have op: "commit_op P r1 i (sy_generation st0) (Some e) t = (r', Ack x y dup)"
    by (rule step_reply_ok) (use dsp in simp)
  obtain v where v: "cl_staging c1 = Some v" "contents v = m" "sn_epoch v = e" "sn_seq v = q"
    using st c r1 by (auto simp: service_staged_def s split: option.splits)
  have "\<not> dup"
    using op c(2) v(1) by (auto simp: commit_op_def Let_def split: if_splits option.splits sum.splits)
  with op have op': "commit_op P r1 i (sy_generation st0) (Some e) t = (r', Ack x y False)" by simp
  obtain c' s1 where c': "get_cluster r' i = Some c'" "cl_live c' = Some s1"
    "contents s1 = m" "sn_epoch s1 = e" "sn_seq s1 = q" "cl_staging c' = None" "cl_pending c' = []"
    using commit_published [OF r1(1) c(2) v(1) op'] r1(4) v by auto
  have "reg_inv P r'"
    using dispatch_inv [OF r1(1), of i "sy_generation st0" False "Commit_frame e" t] dsp by simp
  with c' inv show ?thesis
    by (auto simp: service_inv_def service_staged_def service_view_def service_ver_def s s' live_of_def)
qed

interpretation service: resync_server "service_exchange P mx i fsz tick" "service_inv P i"
  "service_view i" "service_ver i" "service_staged i" for P mx i fsz tick
proof
  fix s s' :: service and b x y dup
  assume inv: "service_inv P i s"
    and ex: "service_exchange P mx i fsz tick s (Begin_frame b) = (s', Inr (Ack x y dup))"
  obtain r st0 t where s: "s = ((r, st0), t)" by (metis prod.collapse)
  obtain r1 c c1 r' where r1: "reg_inv P r1"
    and dsp: "sync_dispatch P i (sy_generation st0) False (Begin_frame b) t r1 = (r', Inr (Ack x y dup))"
    and s': "s' = ((r', st0), tick t)"
    using service_charge [OF inv [unfolded s] ex [unfolded s]] by blast
  have op: "begin_op r1 i (sy_generation st0) (Some b) = (r', None)"
    by (rule step_answer_ok) (use dsp in simp)
  have "reg_inv P r'"
    using dispatch_inv [OF r1(1), of i "sy_generation st0" False "Begin_frame b" t] dsp by simp
  with begin_op_effect [OF op] inv
  show "service_inv P i s' \<and> service_staged i s' = Some (\<lambda>_. None, bs_epoch b, bs_base_seq b)"
    by (auto simp: service_inv_def service_staged_def s s' empty_snapshot_def contents_def)
next
  fix s s' :: service and m e q xs x y dup
  assume inv: "service_inv P i s" and st: "service_staged i s = Some (m, e, q)"
    and ex: "service_exchange P mx i fsz tick s (Chunk_frame xs) = (s', Inr (Ack x y dup))"
  obtain r st0 t where s: "s = ((r, st0), t)" by (metis prod.collapse)
  obtain r1 c c1 r' where c: "get_cluster r i = Some c" "get_cluster r1 i = Some c1"
    and r1: "reg_inv P r1" "cl_staging c1 = cl_staging c" "cl_pending c1 = []"
    and dsp: "sync_dispatch P i (sy_generation st0) False (Chunk_frame xs) t r1 = (r', Inr (Ack x y dup))"
    and s': "s' = ((r', st0), tick t)"
    using service_charge [OF inv [unfolded s] ex [unfolded s]] by blast
  have op: "chunk_op P r1 i (sy_generation st0) (Some xs) = (r', None)"
    by (rule step_answer_ok) (use dsp in simp)
  have "reg_inv P r'"
    using dispatch_inv [OF r1(1), of i "sy_generation st0" False "Chunk_frame xs" t] dsp by simp
  with chunk_op_effect [OF op] inv st c r1
  show "service_inv P i s' \<and> service_staged i s' = Some (store_all xs m, e, q)"
    by (auto simp: service_inv_def service_staged_def s s')
next
  fix s s' :: service and h x y dup
  assume inv: "service_inv P i s"
    and ex: "service_exchange P mx i fsz tick s (Heartbeat_frame h) = (s', Inr (Ack x y dup))"
  obtain r st0 t where s: "s = ((r, st0), t)" by (metis prod.collapse)
  obtain r1 c c1 r' where c: "get_cluster r i = Some c" "get_cluster r1 i = Some c1"
    and r1: "reg_inv P r1" "cl_live c1 = cl_live c" "cl_staging c1 = cl_staging c" "cl_pending c1 = []"
    and dsp: "sync_dispatch P i (sy_generation st0) False (Heartbeat_frame h) t r1 = (r', Inr (Ack x y dup))"
    and s': "s' = ((r', st0), tick t)"
    using service_charge [OF inv [unfolded s] ex [unfolded s]] by blast
  have op: "heartbeat_op P r1 i (sy_generation st0) (Some h) t = (r', Ack x y dup)"
    by (rule step_reply_ok) (use dsp in simp)
  have "reg_inv P r'"
    using dispatch_inv [OF r1(1), of i "sy_generation st0" False "Heartbeat_frame h" t] dsp by simp
  with heartbeat_op_effect [OF c(2), of P "sy_generation st0" "Some h" t] op inv c r1
  show "service_inv P i s' \<and> service_staged i s' = service_staged i s
      \<and> service_view i s' = service_view i s \<and> service_ver i s' = service_ver i s"
    by (auto simp: service_inv_def service_staged_def service_view_def service_ver_def s s' live_of_def)
qed (rule service_commit service_delta; assumption)+

end
