(* ===== verification/Agent_Props.thy ===== *)
theory Agent_Props
  imports Agent_Service
begin

text \<open>The properties of the agent's stream: chunking, convergence, confinement.\<close>

section \<open>Chunks\<close>

text \<open>
  (C13) \<open>chunkResources\<close> fails exactly when its limits are out of range or a single resource does
  not fit a frame; otherwise its chunks are the resources in order, none empty, none over the
  count, none over the byte limit.
\<close>

theorem chunk_resources_partitions:
  assumes "\<forall>ys x. sz [x] \<le> sz (ys @ [x])"
  shows "case chunk_resources sz mx n xs of
      Inr chs \<Rightarrow> 1 \<le> mx \<and> 1 \<le> n \<and> n \<le> 1000 \<and> concat chs = xs
        \<and> list_all (\<lambda>ch. ch \<noteq> [] \<and> int (length ch) \<le> n \<and> sz ch \<le> mx) chs
        \<and> list_all (\<lambda>x. sz [x] \<le> mx) xs
    | Inl e \<Rightarrow> mx < 1 \<or> n < 1 \<or> n > 1000 \<or> list_ex (\<lambda>x. sz [x] > mx) xs"
proof (cases "chunk_resources sz mx n xs")
  case (Inl e)
  then show ?thesis
    using chunk_from_Inl [of sz mx n "[]" "[]" xs e] assms
    by (auto simp: chunk_resources_def list_ex_iff split: if_splits)
next
  case (Inr chs)
  then have lim: "1 \<le> mx" "1 \<le> n" "n \<le> 1000" and ok: "chunk_from sz mx n [] [] xs = Inr chs"
    by (auto simp: chunk_resources_def split: if_splits)
  have "sz [x] \<le> mx" if "x \<in> set xs" for x
    using chunk_from_big [OF assms that] ok by (metis not_less sum.distinct(1))
  moreover have "concat chs = concat [] @ [] @ xs \<and> list_all (chunk_fits sz mx n) chs"
    by (rule chunk_from_Inr [OF ok]) (use lim in simp_all)
  ultimately show ?thesis
    using Inr lim by (auto simp: list_all_iff chunk_fits_def)
qed

definition demo_chunk_size :: "resource list \<Rightarrow> int" where
  "demo_chunk_size xs = 4 + sum_list (map demo_resource_size xs)"

theorem chunk_resources_partitions_witness:
  "\<exists>chs. chunk_resources demo_chunk_size 60 2 [demo_ns ''a'', demo_ns ''b'', demo_ns ''c''] = Inr chs
    \<and> length chs = 2 \<and> concat chs = [demo_ns ''a'', demo_ns ''b'', demo_ns ''c'']"
proof -
  have mono: "\<forall>ys x. demo_chunk_size [x] \<le> demo_chunk_size (ys @ [x])"
    by (auto simp: demo_chunk_size_def demo_resource_size_def intro!: sum_list_nonneg)
  have "case chunk_resources demo_chunk_size 60 2 [demo_ns ''a'', demo_ns ''b'', demo_ns ''c''] of
    Inr chs \<Rightarrow> length chs = 2 | Inl _ \<Rightarrow> False" by code_simp
  then obtain chs where "chunk_resources demo_chunk_size 60 2
      [demo_ns ''a'', demo_ns ''b'', demo_ns ''c''] = Inr chs" "length chs = 2"
    by (auto split: sum.splits)
  with chunk_resources_partitions [OF mono, of 60 2 "[demo_ns ''a'', demo_ns ''b'', demo_ns ''c'']"]
  show ?thesis by simp
qed

section \<open>Convergence\<close>

lemma hello_ok:
  assumes r: "reg_inv P r"
    and ex: "service_exchange P mx i fsz tick ((r, sync_start), t) (Hello_frame h) = (s', Inr (Ack e y dup))"
  shows "service_inv P i s'"
proof -
  obtain r1 where op: "open_session r (Some h) i t = (r1, Inr e)"
    and ch: "sync_charged P i True (Hello_frame h) (fsz (Hello_frame h)) t r1
        \<lparr>sy_connected = True, sy_generation = e\<rparr> = (fst s', Inr (Ack e y dup))" and s': "snd s' = tick t"
    using ex by (auto simp: service_exchange_eq sync_frame_def sync_start_def sync_charged_def
        split: if_splits prod.splits sum.splits bool.splits)
  have r1: "reg_inv P r1" using reg_inv_step [OF r, of "Op_open (Some h) i t"] op by simp
  obtain c where c: "get_cluster r1 i = Some c" "cl_pending c = []"
    using op by (auto simp: open_session_def Let_def drop_staging_def split: if_splits)
  obtain r2 where r2: "consume_ingress r1 i e (fsz (Hello_frame h)) t = (r2, True)"
    and f: "fst s' = (r2, \<lparr>sy_connected = True, sy_generation = e\<rparr>)"
    using ch by (auto simp: sync_charged_def split: if_splits prod.splits bool.splits)
  obtain c2 where c2: "get_cluster r2 i = Some c2" "cl_pending c2 = cl_pending c"
    using ingress_effect [OF c(1), of e "fsz (Hello_frame h)" t] r2 by auto
  have "reg_inv P r2" using ingress_inv [OF r1, of i e "fsz (Hello_frame h)" t] r2 by simp
  with c c2 f show ?thesis
    by (cases s') (auto simp: service_inv_def)
qed

text \<open>
  (C8) An agent's session converges: as long as the service answers its frames without an
  error, after the snapshot and any sequence of changes and heartbeats the registry publishes
  exactly the index of the agent's last projection, at the session's epoch and the agent's own
  sequence number.
\<close>

theorem agent_session_converges:
  assumes "reg_inv P r"
    and run: "agent_session fsz mxa n (service_exchange P mx i fsz tick) i xs evs ((r, sync_start), t)
      = ((((r', st'), t'), e, q, cur), None)"
    and count: "delta_count evs (index_resources xs) < 2 ^ 64"
  shows "\<exists>s. live_of r' i = Some s
    \<and> contents s = map_of (index_resources (last_projection evs xs))
    \<and> sn_epoch s = e \<and> sn_seq s = q \<and> cur = index_resources (last_projection evs xs)"
proof -
  let ?ex = "service_exchange P mx i fsz tick"
  let ?h = "Hello_frame \<lparr>he_cluster_id = i, he_protocol_version = protocol_version\<rparr>"
  obtain s1 y dup where h: "?ex ((r, sync_start), t) ?h = (s1, Inr (Ack e y dup))" and e: "e \<noteq> 0"
    and rest: "(case agent_snapshot fsz mxa n ?ex s1 e 0 xs of
              (s2, Some err) \<Rightarrow> ((s2, e, 0, []), Some err)
            | (s2, None) \<Rightarrow>
               (case agent_loop fsz mxa ?ex e evs s2 0 (index_resources xs) of
                  ((s3, q, cur), err) \<Rightarrow> ((s3, e, q, cur), err)))
        = ((((r', st'), t'), e, q, cur), None)"
  proof -
    obtain s1 a where a: "agent_exchange fsz mxa ?ex ((r, sync_start), t) ?h = (s1, Inr a)"
      using run by (auto simp: agent_session_def split: prod.splits sum.splits)
    from service.exchange_ok [OF this] obtain x y dup where ax: "a = Ack x y dup"
      "?ex ((r, sync_start), t) ?h = (s1, Inr (Ack x y dup))" by blast
    have "x \<noteq> 0" using run a ax by (auto simp: agent_session_def split: if_splits)
    moreover have "x = e"
      using run a ax calculation
      by (auto simp: agent_session_def split: prod.splits option.splits)
    ultimately show thesis using that run a ax by (auto simp: agent_session_def)
  qed
  obtain s2 where s2: "agent_snapshot fsz mxa n ?ex s1 e 0 xs = (s2, None)"
    and lp: "agent_loop fsz mxa ?ex e evs s2 0 (index_resources xs) = ((((r', st'), t'), q, cur), None)"
    using rest by (auto split: prod.splits option.splits)
  have inv1: "service_inv P i s1" by (rule hello_ok [OF assms(1) h])
  have "cur = index_resources (last_projection evs xs) \<and> service.synced P i ((r', st'), t') e q cur"
    by (rule service.loop_ok [OF lp service.snapshot_ok [OF s2 inv1]]) (use count in simp)
  then have "cur = index_resources (last_projection evs xs)"
    and "service_ver i ((r', st'), t') = (e, q)" and "service_view i ((r', st'), t') = map_of cur"
    by (simp_all add: service.synced_def)
  with e show ?thesis
    by (auto simp: service_ver_def service_view_def split: option.splits)
qed

definition demo_frame_size :: "agent_frame \<Rightarrow> int" where
  "demo_frame_size f = (case f of Chunk_frame xs \<Rightarrow> demo_chunk_size xs | _ \<Rightarrow> 40)"

abbreviation demo_exchange :: "service exchange" where
  "demo_exchange \<equiv> service_exchange demo_sizes 0 ''c1'' demo_frame_size (\<lambda>t. t + second)"

text \<open>The states of a short session: hello, begin, one chunk, commit, one delta.\<close>

definition demo_s0 :: service where
  "demo_s0 = ((demo_new, sync_start), second)"

definition demo_script :: "agent_frame list" where
  "demo_script =
     [Hello_frame \<lparr>he_cluster_id = ''c1'', he_protocol_version = protocol_version\<rparr>,
      Begin_frame \<lparr>bs_epoch = 1, bs_base_seq = 0\<rparr>, Chunk_frame [demo_ns ''a''], Commit_frame 1,
      Delta_frame \<lparr>de_epoch = 1, de_seq = 1, de_resource = Some (demo_ns ''b''), de_deleted = False\<rparr>]"

definition demo_at :: "nat \<Rightarrow> service" where
  "demo_at n = fold (\<lambda>f s. fst (demo_exchange s f)) (take n demo_script) demo_s0"

lemma demo_at_0: "demo_at 0 = demo_s0"
  by (simp add: demo_at_def)

lemma demo_at_Suc: "n < length demo_script \<Longrightarrow> demo_at (Suc n) = fst (demo_exchange (demo_at n) (demo_script ! n))"
  by (simp add: demo_at_def take_Suc_conv_app_nth)

lemma demo_answers:
  "snd (demo_exchange (demo_at 0) (demo_script ! 0)) = Inr (Ack 1 0 False)"
  "snd (demo_exchange (demo_at 1) (demo_script ! 1)) = Inr (Ack 0 0 False)"
  "snd (demo_exchange (demo_at 2) (demo_script ! 2)) = Inr (Ack 0 0 False)"
  "snd (demo_exchange (demo_at 3) (demo_script ! 3)) = Inr (Ack 1 0 False)"
  "snd (demo_exchange (demo_at 4) (demo_script ! 4)) = Inr (Ack 1 1 False)"
  by code_simp+

lemma demo_step:
  assumes "n < length demo_script" and "f = demo_script ! n"
    and "snd (demo_exchange (demo_at n) f) = Inr (Ack a b d)" and "demo_frame_size f \<le> 4096"
  shows "agent_exchange demo_frame_size 4096 demo_exchange (demo_at n) f
    = (demo_at (Suc n), Inr (Ack a b d))"
proof -
  have "demo_exchange (demo_at n) f = (demo_at (Suc n), Inr (Ack a b d))"
    using assms(1-3) by (metis demo_at_Suc prod.collapse)
  then show ?thesis using assms(4) by (simp add: agent_exchange_def)
qed

lemma demo_steps:
  "agent_exchange demo_frame_size 4096 demo_exchange demo_s0
      (Hello_frame \<lparr>he_cluster_id = ''c1'', he_protocol_version = protocol_version\<rparr>)
    = (demo_at 1, Inr (Ack 1 0 False))"
  "agent_exchange demo_frame_size 4096 demo_exchange (demo_at 1)
      (Begin_frame \<lparr>bs_epoch = 1, bs_base_seq = 0\<rparr>) = (demo_at 2, Inr (Ack 0 0 False))"
  "agent_exchange demo_frame_size 4096 demo_exchange (demo_at 2) (Chunk_frame [demo_ns ''a''])
    = (demo_at 3, Inr (Ack 0 0 False))"
  "agent_exchange demo_frame_size 4096 demo_exchange (demo_at 3) (Commit_frame 1)
    = (demo_at 4, Inr (Ack 1 0 False))"
  "agent_exchange demo_frame_size 4096 demo_exchange (demo_at 4)
      (Delta_frame \<lparr>de_epoch = 1, de_seq = 1, de_resource = Some (demo_ns ''b''), de_deleted = False\<rparr>)
    = (demo_at 5, Inr (Ack 1 1 False))"
  using demo_step [of 0, OF _ refl demo_answers(1)] demo_step [of 1, OF _ refl demo_answers(2)]
    demo_step [of 2, OF _ refl demo_answers(3)] demo_step [of 3, OF _ refl demo_answers(4)]
    demo_step [of 4, OF _ refl demo_answers(5)]
  by (simp_all add: demo_script_def demo_at_0 demo_frame_size_def demo_chunk_size_def
      demo_resource_size_def demo_ns_def flip: numeral_2_eq_2)

lemma demo_session_run:
  "agent_session demo_frame_size 4096 100 demo_exchange ''c1'' [demo_ns ''a'']
      [Ev_change [demo_ns ''a'', demo_ns ''b'']] demo_s0
    = ((demo_at 5, 1, 1, index_resources [demo_ns ''a'', demo_ns ''b'']), None)"
proof -
  have ch: "chunk_resources (\<lambda>ch. demo_frame_size (Chunk_frame ch)) 4096 100 [demo_ns ''a'']
      = Inr [[demo_ns ''a'']]" by code_simp
  have cs: "agent_changes (index_resources [demo_ns ''a'']) (index_resources [demo_ns ''a'', demo_ns ''b''])
      = [(demo_ns ''b'', False)]" by code_simp
  have snap: "agent_snapshot demo_frame_size 4096 100 demo_exchange (demo_at 1) 1 0 [demo_ns ''a'']
      = (demo_at 4, None)"
    using demo_steps(2-4) ch by (simp add: agent_snapshot_def)
  have loop: "agent_loop demo_frame_size 4096 demo_exchange 1 [Ev_change [demo_ns ''a'', demo_ns ''b'']]
      (demo_at 4) 0 (index_resources [demo_ns ''a''])
      = ((demo_at 5, 1, index_resources [demo_ns ''a'', demo_ns ''b'']), None)"
    using demo_steps(5) cs by simp
  show ?thesis
    using demo_steps(1) snap loop by (simp add: agent_session_def)
qed

theorem agent_session_converges_witness:
  "\<exists>s. live_of (fst (fst (demo_at 5))) ''c1'' = Some s
    \<and> contents s = map_of (index_resources [demo_ns ''a'', demo_ns ''b'']) \<and> sn_seq s = 1"
proof -
  obtain r' st' t' where at: "demo_at 5 = ((r', st'), t')" by (metis prod.collapse)
  have run: "agent_session demo_frame_size 4096 100 demo_exchange ''c1'' [demo_ns ''a'']
      [Ev_change [demo_ns ''a'', demo_ns ''b'']] ((demo_new, sync_start), second)
    = ((((r', st'), t'), 1, 1, index_resources [demo_ns ''a'', demo_ns ''b'']), None)"
    using demo_session_run unfolding demo_s0_def at .
  have "delta_count [Ev_change [demo_ns ''a'', demo_ns ''b'']] (index_resources [demo_ns ''a'']) = 1"
    by code_simp
  then have count: "delta_count [Ev_change [demo_ns ''a'', demo_ns ''b'']] (index_resources [demo_ns ''a''])
      < 2 ^ 64" by simp
  from agent_session_converges [OF new_registry_inv [OF demo_sizes_ok demo_new_Inr] run count] at
  show ?thesis by auto
qed

section \<open>Confinement\<close>

lemma other_clusters:
  assumes "j \<noteq> i"
  shows "get_cluster (fst (begin_op r i g b)) j = get_cluster r j"
    and "get_cluster (fst (chunk_op P r i g xs)) j = get_cluster r j"
    and "get_cluster (fst (heartbeat_op P r i g h t)) j = get_cluster r j"
    and "get_cluster (fst (consume_ingress r i g n t)) j = get_cluster r j"
    and "get_cluster (disconnect_session r i g t) j = get_cluster r j"
  using assms
  by (auto simp: begin_op_def chunk_op_def heartbeat_op_def consume_ingress_def disconnect_session_def
      Let_def split: option.splits prod.splits)

lemma dispatch_other:
  assumes "j \<noteq> i"
  shows "get_cluster (fst (sync_dispatch P i g first f t r)) j = get_cluster r j"
proof -
  have answer: "fst (step_answer ra) = fst ra" for ra
    by (cases ra) (simp add: step_answer_def split: option.split)
  show ?thesis
    using assms
    by (cases f) (simp_all add: answer step_reply_def other_clusters delta_other_clusters
        commit_other_clusters)
qed

lemma charged_other:
  assumes "j \<noteq> i" and "sync_charged P i first f sz t r st = ((r', st'), a)"
  shows "get_cluster r' j = get_cluster r j \<and> st' = st"
proof -
  obtain r1 ok where c: "consume_ingress r i (sy_generation st) sz t = (r1, ok)"
    by (cases "consume_ingress r i (sy_generation st) sz t")
  obtain r2 a2 where d: "sync_dispatch P i (sy_generation st) first f t r1 = (r2, a2)"
    by (cases "sync_dispatch P i (sy_generation st) first f t r1")
  have "get_cluster r1 j = get_cluster r j"
    using other_clusters(4) [OF assms(1), of r "sy_generation st" sz t] c by simp
  moreover have "get_cluster r2 j = get_cluster r1 j"
    using dispatch_other [OF assms(1), of P "sy_generation st" first f t r1] d by simp
  ultimately show ?thesis
    using assms(2) c d by (cases ok) (auto simp: sync_charged_def split: if_splits)
qed

lemma open_other:
  assumes "j \<noteq> i" and "open_session r h i t = (r1, a)"
  shows "get_cluster r1 j = get_cluster r j"
  using assms by (auto simp: open_session_def Let_def split: option.splits if_splits)

lemma frame_other:
  assumes "j \<noteq> i" and "sync_frame P mx i f sz t r st = ((r', st'), a)"
  shows "get_cluster r' j = get_cluster r j"
  using assms charged_other [OF assms(1)] open_other [OF assms(1)]
  by (auto simp: sync_frame_def split: if_splits agent_frame.splits prod.splits sum.splits; blast)

lemma end_session:
  "sy_connected st \<Longrightarrow> \<not> session_valid (sync_end i t r st) i (sy_generation st)"
  by (auto simp: sync_end_def session_valid_def disconnect_session_def hang_up_def split: option.splits)

text \<open>
  An authenticated stream is confined and leaves nothing behind: whatever frames it
  carries, with whatever cluster id in its hello, it changes no cluster but the one its
  certificate names, and when it ends its session is no longer valid.
\<close>

lemma sync_stream_confined:
  assumes "sync_stream P mx i fs t r st = (r', st')"
  shows "(j \<noteq> i \<longrightarrow> get_cluster r' j = get_cluster r j)
    \<and> (sy_connected st' \<longrightarrow> \<not> session_valid r' i (sy_generation st'))"
proof -
  have ends: "j \<noteq> i \<longrightarrow> get_cluster (sync_end i t r st) j = get_cluster r j" for t r st
    using other_clusters(5) [of j i] by (auto simp: sync_end_def)
  show ?thesis
    using assms
  proof (induction fs arbitrary: r st)
    case Nil
    with ends end_session show ?case by auto
  next
    case (Cons p fs)
    obtain f sz t1 where p: "p = (f, sz, t1)" by (cases p) auto
    obtain r1 st1 a where f: "sync_frame P mx i f sz t1 r st = ((r1, st1), a)" by (metis prod.collapse)
    show ?case
    proof (cases a)
      case (Inl e)
      with Cons.prems p f have "r' = sync_end i t r1 st1" "st' = st1" by auto
      with ends frame_other [OF _ f] end_session show ?thesis by auto
    next
      case (Inr b)
      with Cons.prems p f have "sync_stream P mx i fs t r1 st1 = (r', st')" by simp
      from Cons.IH [OF this] frame_other [OF _ f] show ?thesis by auto
    qed
  qed
qed

end
