(* ===== verification/Watch_Props.thy ===== *)
theory Watch_Props
  imports Watch_Link
begin

text \<open>
  The registry and the API-side catalog joined by the watch stream: a snapshot installs the
  registry's persistent rows at their version, and a delta keeps the two in step.
\<close>

section \<open>Staging a list of rows\<close>

text \<open>What the rows need of the catalog: valid rows, new and distinct keys, and room.\<close>

definition stageable :: "proto_sizes \<Rightarrow> remote_catalog \<Rightarrow> (string, catalog_resource) gomap
    \<Rightarrow> catalog_resource list \<Rightarrow> bool" where
  "stageable P r m xs \<longleftrightarrow>
     list_all (\<lambda>x. validate_catalog_resource x True = None) xs
     \<and> distinct (keys_of m @ map catalog_key xs)
     \<and> int (length m + length xs) \<le> rc_max r
     \<and> rc_total_resources r + int (length xs) \<le> rc_max_retained r
     \<and> rc_total_bytes r + sum_list (map (ps_catalog P) xs) \<le> rc_max_retained_bytes r"

definition keyed :: "catalog_resource list \<Rightarrow> (string, catalog_resource) gomap" where
  "keyed xs = map (\<lambda>x. (catalog_key x, x)) xs"

definition with_rows :: "proto_sizes \<Rightarrow> catalog_resource list \<Rightarrow> remote_catalog \<times> catalog_cluster
    \<Rightarrow> (string, catalog_resource) gomap \<Rightarrow> remote_catalog \<times> catalog_cluster" where
  "with_rows P xs rc m =
     (case rc of (r, c) \<Rightarrow>
       (r\<lparr>rc_total_resources := rc_total_resources r + int (length xs),
          rc_total_bytes := rc_total_bytes r + sum_list (map (ps_catalog P) xs)\<rparr>,
        c\<lparr>ca_staging := Some (m @ keyed xs),
          ca_stage_bytes := ca_stage_bytes c + sum_list (map (ps_catalog P) xs)\<rparr>))"

lemma sum_sizes_nonneg: "sizes_ok P \<Longrightarrow> 0 \<le> sum_list (map (ps_catalog P) xs)"
  by (auto simp: sizes_ok_def intro!: sum_list_nonneg)

lemma stage_rows_all:
  assumes "sizes_ok P" and "ca_staging c = Some m" and "stageable P r m xs"
  shows "stage_rows P r c xs = (with_rows P xs (r, c) m, None)"
  using assms(2,3)
proof (induction xs arbitrary: r c m)
  case Nil
  then show ?case by (simp add: with_rows_def keyed_def)
next
  case (Cons x xs)
  have new: "map_of m (catalog_key x) = None" "catalog_key x \<notin> set (keys_of m)"
    using Cons.prems(2) by (auto simp: stageable_def map_of_eq_None_iff)
  have size: "0 \<le> ps_catalog P x" "0 \<le> sum_list (map (ps_catalog P) xs)"
    using assms(1) sum_sizes_nonneg by (auto simp: sizes_ok_def)
  define r1 where "r1 = r\<lparr>rc_total_resources := rc_total_resources r + 1,
      rc_total_bytes := rc_total_bytes r + ps_catalog P x\<rparr>"
  define c1 where "c1 = c\<lparr>ca_staging := Some (m @ [(catalog_key x, x)]),
      ca_stage_bytes := ca_stage_bytes c + ps_catalog P x\<rparr>"
  have "stage_row P r c m x = ((r1, c1), None)"
    using Cons.prems(2) new size put_new [OF new(2), of x]
    by (auto simp: stage_row_def Let_def stageable_def r1_def c1_def)
  then have "stage_rows P r c (x # xs) = stage_rows P r1 c1 xs"
    using Cons.prems(1) by simp
  also have "\<dots> = (with_rows P xs (r1, c1) (m @ [(catalog_key x, x)]), None)"
    by (rule Cons.IH) (use Cons.prems(2) in \<open>auto simp: c1_def r1_def stageable_def\<close>)
  finally show ?case
    by (simp add: with_rows_def keyed_def r1_def c1_def algebra_simps)
qed

section \<open>Delivery\<close>

lemma apply_frame_to:
  "map_of (rc_clusters r) (wf_cluster_id f) = Some c \<Longrightarrow> ps_frame P f \<le> 4 * 2 ^ 20 \<Longrightarrow>
    apply_to_cluster P f r c = ((r', c'), e) \<Longrightarrow>
    apply_frame P (Some f) r = (store_catalog (wf_cluster_id f) (r', c'), e)"
  by (simp add: apply_frame_def)

lemma deliver_append:
  "deliver P fs r = (r1, None) \<Longrightarrow> deliver P (fs @ gs) r = deliver P gs r1"
  by (induction fs arbitrary: r) (auto split: prod.splits option.splits)

lemma store_store [simp]:
  "rc_total_resources (store_catalog i rc) = rc_total_resources (fst rc)"
  "rc_total_bytes (store_catalog i rc) = rc_total_bytes (fst rc)"
  "rc_live_resources (store_catalog i rc) = rc_live_resources (fst rc)"
  "rc_live_bytes (store_catalog i rc) = rc_live_bytes (fst rc)"
  by (simp_all add: store_catalog_def split: prod.split)

text \<open>The chunks of one snapshot, delivered to a catalog that has begun to stage it.\<close>

lemma deliver_chunks:
  assumes P: "sizes_ok P" and lim: "frame_limit mx \<le> 4 * 2 ^ 20"
    and h: "wf_type h = Watch_snapshot_chunk" "wf_change h = None" "wf_observed_unix_ms h > 0"
    and good: "list_all (good_chunk P mx h) chs"
    and c: "map_of (rc_clusters r) (wf_cluster_id h) = Some c" and m: "ca_staging c = Some m"
    and v: "ca_stage_epoch c = wf_epoch h" "ca_stage_seq c = wf_seq h"
      "ca_stage_observed c = wf_observed_unix_ms h"
    and fits: "stageable P r m (concat chs)"
  shows "\<exists>r'. deliver P (map (\<lambda>ch. h\<lparr>wf_resources := ch\<rparr>) chs) r = (r', None)
    \<and> map_of (rc_clusters r') (wf_cluster_id h) = Some (snd (with_rows P (concat chs) (r, c) m))
    \<and> same_frame (fst (with_rows P (concat chs) (r, c) m)) (r'\<lparr>rc_clusters := rc_clusters r\<rparr>)
    \<and> rc_total_resources r' = rc_total_resources r + int (length (concat chs))
    \<and> rc_total_bytes r' = rc_total_bytes r + sum_list (map (ps_catalog P) (concat chs))
    \<and> rc_live_resources r' = rc_live_resources r \<and> rc_live_bytes r' = rc_live_bytes r"
  using good c m v fits
proof (induction chs arbitrary: r c m)
  case Nil
  then show ?case by (simp add: with_rows_def keyed_def same_frame_def)
next
  case (Cons ch chs)
  let ?i = "wf_cluster_id h" and ?f = "h\<lparr>wf_resources := ch\<rparr>"
  define r1 c1 where "r1 = fst (with_rows P ch (r, c) m)" and "c1 = snd (with_rows P ch (r, c) m)"
  have pos: "0 \<le> sum_list (map (ps_catalog P) (concat chs))" by (rule sum_sizes_nonneg [OF P])
  have "stageable P r m ch"
    using Cons.prems(7) pos by (auto simp: stageable_def)
  then have rows: "stage_rows P r c ch = ((r1, c1), None)"
    using stage_rows_all [OF P Cons.prems(3)] by (simp add: r1_def c1_def)
  have "apply_to_cluster P ?f r c = ((r1, c1), None)"
    using h Cons.prems rows
    by (auto simp: apply_to_cluster_def apply_chunk_def stage_matches_def good_chunk_def)
  moreover have "ps_frame P ?f \<le> 4 * 2 ^ 20"
    using Cons.prems(1) lim by (auto simp: good_chunk_def)
  ultimately have step: "apply_frame P (Some ?f) r = (store_catalog ?i (r1, c1), None)"
    using apply_frame_to [of r ?f c P r1 c1 None] Cons.prems(2) by simp
  let ?r = "store_catalog ?i (r1, c1)"
  have st: "stageable P ?r (m @ keyed ch) (concat chs)"
    using Cons.prems(7)
    by (auto simp: stageable_def r1_def with_rows_def keyed_def o_def algebra_simps)
  obtain r' where r': "deliver P (map (\<lambda>ch. h\<lparr>wf_resources := ch\<rparr>) chs) ?r = (r', None)"
    "map_of (rc_clusters r') ?i = Some (snd (with_rows P (concat chs) (?r, c1) (m @ keyed ch)))"
    "same_frame (fst (with_rows P (concat chs) (?r, c1) (m @ keyed ch))) (r'\<lparr>rc_clusters := rc_clusters ?r\<rparr>)"
    "rc_total_resources r' = rc_total_resources ?r + int (length (concat chs))"
    "rc_total_bytes r' = rc_total_bytes ?r + sum_list (map (ps_catalog P) (concat chs))"
    "rc_live_resources r' = rc_live_resources ?r" "rc_live_bytes r' = rc_live_bytes ?r"
    using Cons.IH [of ?r c1 "m @ keyed ch"] Cons.prems(1,4-6) st
    by (auto simp: c1_def with_rows_def)
  have "deliver P (map (\<lambda>ch. h\<lparr>wf_resources := ch\<rparr>) (ch # chs)) r = (r', None)"
    using step r'(1) by simp
  with r'(2-) show ?case
    by (auto simp: with_rows_def r1_def c1_def keyed_def same_frame_def algebra_simps)
qed

section \<open>A whole snapshot\<close>

definition has_room :: "proto_sizes \<Rightarrow> remote_catalog \<Rightarrow> catalog_cluster \<Rightarrow> catalog_resource list \<Rightarrow> bool" where
  "has_room P r c xs \<longleftrightarrow>
     int (length xs) \<le> rc_max r
     \<and> rc_total_resources r - stage_count c + int (length xs) \<le> rc_max_retained r
     \<and> rc_total_bytes r - ca_stage_bytes c + sum_list (map (ps_catalog P) xs) \<le> rc_max_retained_bytes r
     \<and> rc_live_resources r - live_rows c + int (length xs) \<le> rc_max r
     \<and> rc_live_bytes r - ca_live_bytes c + sum_list (map (ps_catalog P) xs) \<le> rc_max_bytes r"

lemma begin_delivered:
  assumes c: "map_of (rc_clusters r) i = Some c" and ok: "catalog_cluster_ok P c"
    and f: "f = watch_header i Watch_snapshot_begin e q ms" "e \<noteq> 0" "0 < ms" "ps_frame P f \<le> 4 * 2 ^ 20"
  shows "\<exists>r1 c1. apply_frame P (Some f) r = (r1, None) \<and> map_of (rc_clusters r1) i = Some c1
    \<and> ca_staging c1 = Some [] \<and> ca_stage_epoch c1 = e \<and> ca_stage_seq c1 = q
    \<and> ca_stage_observed c1 = ms \<and> ca_stage_bytes c1 = 0
    \<and> ca_resources c1 = ca_resources c \<and> ca_live_bytes c1 = ca_live_bytes c
    \<and> rc_total_resources r1 = rc_total_resources r - stage_count c
    \<and> rc_total_bytes r1 = rc_total_bytes r - ca_stage_bytes c
    \<and> rc_live_resources r1 = rc_live_resources r \<and> rc_live_bytes r1 = rc_live_bytes r
    \<and> rc_max r1 = rc_max r \<and> rc_max_bytes r1 = rc_max_bytes r
    \<and> rc_max_retained r1 = rc_max_retained r \<and> rc_max_retained_bytes r1 = rc_max_retained_bytes r"
  using c ok f
  by (auto simp: apply_frame_def apply_to_cluster_def apply_begin_def watch_header_def
      release_stage_def stage_count_def stage_list_def catalog_cluster_ok_def split: option.split)

lemma commit_delivered:
  assumes c: "map_of (rc_clusters r) i = Some c" and m: "ca_staging c = Some m"
    and f: "f = watch_header i Watch_snapshot_commit (ca_stage_epoch c) (ca_stage_seq c) (ca_stage_observed c)"
      "0 < ca_stage_observed c" "ps_frame P f \<le> 4 * 2 ^ 20"
    and room: "rc_live_resources r - live_rows c + int (length m) \<le> rc_max r"
      "rc_live_bytes r - ca_live_bytes c + ca_stage_bytes c \<le> rc_max_bytes r"
  shows "\<exists>r1 c1. apply_frame P (Some f) r = (r1, None) \<and> map_of (rc_clusters r1) i = Some c1
    \<and> ca_available c1 \<and> \<not> ca_resync c1 \<and> ca_resources c1 = m \<and> ca_epoch c1 = ca_stage_epoch c
    \<and> ca_seq c1 = ca_stage_seq c \<and> ca_observed c1 = ca_stage_observed c \<and> ca_staging c1 = None"
  using assms
  by (auto simp: apply_frame_def apply_to_cluster_def apply_commit_def watch_header_def
      stage_matches_def live_rows_def Let_def)

lemma snapshot_delivered:
  assumes P: "sizes_ok P" and lim: "frame_limit mx \<le> 4 * 2 ^ 20"
    and sent: "snapshot_frames P mx i w = (fs, None)"
    and w: "ws_epoch w \<noteq> 0" "0 < unix_milli (ws_observed w)"
    and c: "map_of (rc_clusters r) i = Some c" and ok: "catalog_cluster_ok P c"
    and valid: "list_all (\<lambda>x. validate_catalog_resource x True = None) (ws_resources w)"
      "distinct (map catalog_key (ws_resources w))"
    and room: "has_room P r c (ws_resources w)"
  shows "\<exists>r' c'. deliver P fs r = (r', None) \<and> map_of (rc_clusters r') i = Some c'
    \<and> ca_available c' \<and> \<not> ca_resync c' \<and> ca_resources c' = keyed (ws_resources w)
    \<and> ca_epoch c' = ws_epoch w \<and> ca_seq c' = ws_seq w
    \<and> ca_observed c' = unix_milli (ws_observed w)"
proof -
  define ms where "ms = unix_milli (ws_observed w)"
  define h where "h = (\<lambda>t. watch_header i t (ws_epoch w) (ws_seq w) ms)"
  obtain chs where fs: "fs = h Watch_snapshot_begin
      # map (\<lambda>ch. (h Watch_snapshot_chunk)\<lparr>wf_resources := ch\<rparr>) chs @ [h Watch_snapshot_commit]"
    and rows: "concat chs = ws_resources w"
    and good: "list_all (good_chunk P mx (h Watch_snapshot_chunk)) chs"
    and size: "ps_frame P (h Watch_snapshot_begin) \<le> 4 * 2 ^ 20"
      "ps_frame P (h Watch_snapshot_commit) \<le> 4 * 2 ^ 20"
    using snapshot_frames_sent [OF sent] lim unfolding h_def ms_def by auto
  have pos: "0 < ms" using w by (simp add: ms_def)
  obtain r1 c1 where begun: "apply_frame P (Some (h Watch_snapshot_begin)) r = (r1, None)"
    and c1: "map_of (rc_clusters r1) i = Some c1" "ca_staging c1 = Some []"
      "ca_stage_epoch c1 = ws_epoch w" "ca_stage_seq c1 = ws_seq w" "ca_stage_observed c1 = ms"
      "ca_stage_bytes c1 = 0" "ca_resources c1 = ca_resources c" "ca_live_bytes c1 = ca_live_bytes c"
    and r1: "rc_total_resources r1 = rc_total_resources r - stage_count c"
      "rc_total_bytes r1 = rc_total_bytes r - ca_stage_bytes c"
      "rc_live_resources r1 = rc_live_resources r" "rc_live_bytes r1 = rc_live_bytes r"
      "rc_max r1 = rc_max r" "rc_max_bytes r1 = rc_max_bytes r"
      "rc_max_retained r1 = rc_max_retained r" "rc_max_retained_bytes r1 = rc_max_retained_bytes r"
    using begin_delivered [OF c ok refl w(1) pos] size(1) unfolding h_def by blast
  have st: "stageable P r1 [] (concat chs)"
    using valid room rows r1 by (simp add: stageable_def has_room_def)
  have hd: "wf_type (h Watch_snapshot_chunk) = Watch_snapshot_chunk"
    "wf_change (h Watch_snapshot_chunk) = None" "wf_observed_unix_ms (h Watch_snapshot_chunk) = ms"
    "wf_cluster_id (h Watch_snapshot_chunk) = i" "wf_epoch (h Watch_snapshot_chunk) = ws_epoch w"
    "wf_seq (h Watch_snapshot_chunk) = ws_seq w"
    by (simp_all add: h_def watch_header_def)
  obtain r2 where mid: "deliver P (map (\<lambda>ch. (h Watch_snapshot_chunk)\<lparr>wf_resources := ch\<rparr>) chs) r1 = (r2, None)"
    and c2: "map_of (rc_clusters r2) i = Some (snd (with_rows P (concat chs) (r1, c1) []))"
    and r2: "same_frame (fst (with_rows P (concat chs) (r1, c1) [])) (r2\<lparr>rc_clusters := rc_clusters r1\<rparr>)"
      "rc_live_resources r2 = rc_live_resources r1" "rc_live_bytes r2 = rc_live_bytes r1"
    using deliver_chunks [OF P lim _ _ _ good _ c1(2) _ _ _ st] hd c1 pos by auto
  define c2 where "c2 = snd (with_rows P (concat chs) (r1, c1) [])"
  have c2': "ca_staging c2 = Some (keyed (ws_resources w))" "ca_stage_epoch c2 = ws_epoch w"
    "ca_stage_seq c2 = ws_seq w" "ca_stage_observed c2 = ms" "ca_resources c2 = ca_resources c"
    "ca_stage_bytes c2 = sum_list (map (ps_catalog P) (ws_resources w))"
    "ca_live_bytes c2 = ca_live_bytes c"
    using c1 rows by (auto simp: c2_def with_rows_def)
  have lim2: "rc_max r2 = rc_max r" "rc_max_bytes r2 = rc_max_bytes r"
    using r2(1) r1 by (auto simp: same_frame_def with_rows_def)
  obtain r3 c3 where "apply_frame P (Some (h Watch_snapshot_commit)) r2 = (r3, None)"
    "map_of (rc_clusters r3) i = Some c3" "ca_available c3" "\<not> ca_resync c3"
    "ca_resources c3 = keyed (ws_resources w)" "ca_epoch c3 = ws_epoch w" "ca_seq c3 = ws_seq w"
    "ca_observed c3 = ms"
    using commit_delivered [of r2 i c2 "keyed (ws_resources w)" "h Watch_snapshot_commit" P]
      c2 c2' size(2) pos room lim2 r2(2,3) r1
    by (auto simp: c2_def [symmetric] h_def has_room_def live_rows_def keyed_def)
  then show ?thesis
    unfolding fs using begun deliver_append [OF mid] by (auto simp: ms_def)
qed

end
