(* ===== verification/Watch_Sync.thy ===== *)
theory Watch_Sync
  imports Watch_Props
begin

text \<open>
  The end-to-end promise of the cluster-state link: what the API's catalog shows of a cluster
  is the registry's live snapshot, restricted to the persistent kinds, at the same version. A
  snapshot establishes it, a delta keeps it.
\<close>

section \<open>The registry's rows as the catalog sees them\<close>

definition projected :: "snapshot \<Rightarrow> string \<Rightarrow> catalog_resource option" where
  "projected s k =
     (case contents s k of
        None \<Rightarrow> None
      | Some x \<Rightarrow> if persistent_catalog_kind (re_kind x) then Some (catalog_resource_of x) else None)"

definition in_step :: "snapshot \<Rightarrow> catalog_cluster \<Rightarrow> bool" where
  "in_step s c \<longleftrightarrow>
     ca_available c \<and> \<not> ca_resync c \<and> ca_epoch c = sn_epoch s \<and> ca_seq c = sn_seq s
     \<and> map_of (ca_resources c) = projected s"

lemma catalog_key_of [simp]: "catalog_key (catalog_resource_of x) = resource_key x"
  by (simp add: catalog_key_def catalog_resource_of_def resource_key_def)

lemma collect_catalog_all: "collect_catalog P mx b xs = Inr (b', ys) \<Longrightarrow> ys = xs"
  by (induction xs arbitrary: b b' ys) (auto simp: Let_def split: if_splits sum.splits)

definition persistent_rows :: "snapshot \<Rightarrow> (string, resource) gomap" where
  "persistent_rows s = sort_key fst (filter (\<lambda>(k, x). persistent_catalog_kind (re_kind x)) (sn_resources s))"

lemma persistent_rows_ok:
  assumes "snapshot_ok P L s"
  shows "distinct (keys_of (persistent_rows s))"
    and "\<forall>(k, x) \<in> set (persistent_rows s). k = resource_key x"
    and "map_of (persistent_rows s) k
      = (case contents s k of None \<Rightarrow> None | Some x \<Rightarrow> if persistent_catalog_kind (re_kind x) then Some x else None)"
proof -
  let ?f = "filter (\<lambda>(k, x). persistent_catalog_kind (re_kind x)) (sn_resources s)"
  have d: "distinct (keys_of (sn_resources s))" using assms by (simp add: snapshot_ok_def)
  have "distinct (keys_of ?f)"
    using d by (induction "sn_resources s" arbitrary: s) (auto intro: distinct_map_filter)
  moreover have "mset (keys_of (persistent_rows s)) = mset (keys_of ?f)"
    by (simp add: persistent_rows_def)
  ultimately show dist: "distinct (keys_of (persistent_rows s))"
    by (metis mset_eq_imp_distinct_iff)
  show "\<forall>(k, x) \<in> set (persistent_rows s). k = resource_key x"
    using assms by (auto simp: snapshot_ok_def persistent_rows_def)
  show "map_of (persistent_rows s) k
      = (case contents s k of None \<Rightarrow> None | Some x \<Rightarrow> if persistent_catalog_kind (re_kind x) then Some x else None)"
  proof (cases "map_of (persistent_rows s) k")
    case None
    then have "k \<notin> fst ` set ?f" by (simp add: map_of_eq_None_iff persistent_rows_def)
    then show ?thesis
      using None by (auto simp: contents_def image_iff dest!: map_of_SomeD split: option.split)
  next
    case (Some x)
    then have "(k, x) \<in> set ?f" by (auto simp: persistent_rows_def dest: map_of_SomeD)
    then show ?thesis using Some d by (auto simp: contents_def)
  qed
qed

lemma catalog_rows_keyed:
  assumes "snapshot_ok P L s"
  shows "map_of (keyed (catalog_rows s)) = projected s"
    and "distinct (map catalog_key (catalog_rows s))"
proof -
  have rows: "catalog_rows s = map (catalog_resource_of \<circ> snd) (persistent_rows s)"
    by (simp add: catalog_rows_def persistent_rows_def)
  note pr = persistent_rows_ok [OF assms]
  have eq: "map catalog_key (catalog_rows s) = keys_of (persistent_rows s)"
    unfolding rows using pr(2) by auto
  then show "distinct (map catalog_key (catalog_rows s))" using pr(1) by simp
  have "keyed (catalog_rows s) = map (\<lambda>(k, x). (k, catalog_resource_of x)) (persistent_rows s)"
    unfolding rows keyed_def using pr(2) by auto
  then have "map_of (keyed (catalog_rows s)) k = map_option catalog_resource_of (map_of (persistent_rows s) k)" for k
    by (simp add: map_of_map)
  then show "map_of (keyed (catalog_rows s)) = projected s"
    by (auto simp: projected_def pr(3) fun_eq_iff split: option.split)
qed


section \<open>A concrete link\<close>

definition demo_time :: time where
  "demo_time = 62135596800 * second + 5000000000"

definition demo_source :: registry where
  "demo_source = fold (reg_step demo_sizes)
     [Op_open (Some demo_hello) ''c1'' demo_time,
      Op_begin ''c1'' 1 (Some \<lparr>bs_epoch = 3, bs_base_seq = 0\<rparr>),
      Op_chunk ''c1'' 1 (Some [demo_ns ''a'', demo_ns ''b'']),
      Op_commit ''c1'' 1 (Some 3) demo_time] demo_new"

lemma demo_source_inv: "reg_inv demo_sizes demo_source"
  unfolding demo_source_def
  by (rule retained.run_inv) (rule new_registry_inv [OF demo_sizes_ok demo_new_Inr])

definition demo_sent :: "watch_frame list" where
  "demo_sent = fst (fst (send_snapshot demo_sizes 0 demo_source ''c1'' (0, 0)))"

lemma demo_send: "send_snapshot demo_sizes 0 demo_source ''c1'' (0, 0) = ((demo_sent, None), (3, 0))"
proof -
  have "snd (fst (send_snapshot demo_sizes 0 demo_source ''c1'' (0, 0))) = None
    \<and> snd (send_snapshot demo_sizes 0 demo_source ''c1'' (0, 0)) = (3, 0)" by code_simp
  then show ?thesis unfolding demo_sent_def by (metis prod.collapse)
qed

lemma frame_limit_0: "frame_limit 0 \<le> 4 * 2 ^ 20"
  by (simp add: frame_limit_def)

section \<open>A snapshot\<close>

lemma send_snapshot_sent:
  assumes "send_snapshot P mx rg i st = ((fs, None), st')" and "live_of rg i = Some s"
    and "st' \<noteq> st"
  shows "\<exists>w. snapshot_frames P mx i w = (fs, None) \<and> ws_resources w = catalog_rows s
    \<and> ws_epoch w = sn_epoch s \<and> ws_seq w = sn_seq s \<and> ws_observed w = sn_observed s
    \<and> st' = (sn_epoch s, sn_seq s)"
  using assms
  by (auto simp: send_snapshot_def catalog_snapshot_def live_of_def Let_def
      dest: collect_catalog_all split: option.splits sum.splits if_splits)

lemma snapshot_link:
  assumes rg: "reg_inv P rg" and live: "live_of rg i = Some s"
    and sent: "send_snapshot P mx rg i st = ((fs, None), st')" and new: "st' \<noteq> st"
    and lim: "frame_limit mx \<le> 4 * 2 ^ 20"
    and version: "sn_epoch s \<noteq> 0" "0 < unix_milli (sn_observed s)"
    and r: "catalog_inv P r" and c: "map_of (rc_clusters r) i = Some c"
    and valid: "list_all (\<lambda>x. validate_catalog_resource x True = None) (catalog_rows s)"
    and room: "has_room P r c (catalog_rows s)"
  shows "\<exists>r' c'. deliver P fs r = (r', None) \<and> map_of (rc_clusters r') i = Some c'
    \<and> in_step s c' \<and> st' = (sn_epoch s, sn_seq s)"
proof -
  have P: "sizes_ok P" using rg by (simp add: reg_inv_def)
  obtain cl where cl: "get_cluster rg i = Some cl" "cl_live cl = Some s"
    using live by (auto simp: live_of_def split: option.splits)
  have sok: "snapshot_ok P (rg_limits rg) s"
    using rg clusters_okD [OF _ cl(1)] cl(2) by (auto simp: reg_inv_def cluster_ok_def)
  obtain w where w: "snapshot_frames P mx i w = (fs, None)" "ws_resources w = catalog_rows s"
    "ws_epoch w = sn_epoch s" "ws_seq w = sn_seq s" "ws_observed w = sn_observed s"
    and st': "st' = (sn_epoch s, sn_seq s)"
    using send_snapshot_sent [OF sent live new] by blast
  have cok: "catalog_cluster_ok P c" using r c by (simp add: catalog_inv_def)
  note rows = catalog_rows_keyed [OF sok]
  from snapshot_delivered [OF P lim w(1) _ _ c cok] w version valid room rows st'
  show ?thesis by (auto simp: in_step_def)
qed


lemma demo_rows:
  "\<exists>s c. live_of demo_source ''c1'' = Some s \<and> sn_epoch s \<noteq> 0 \<and> 0 < unix_milli (sn_observed s)
    \<and> length (catalog_rows s) = 2
    \<and> list_all (\<lambda>x. validate_catalog_resource x True = None) (catalog_rows s)
    \<and> map_of (rc_clusters demo_catalog) ''c1'' = Some c
    \<and> has_room demo_sizes demo_catalog c (catalog_rows s)"
proof -
  have "case live_of demo_source ''c1'' of None \<Rightarrow> False
    | Some s \<Rightarrow> sn_epoch s \<noteq> 0 \<and> 0 < unix_milli (sn_observed s) \<and> length (catalog_rows s) = 2
        \<and> list_all (\<lambda>x. validate_catalog_resource x True = None) (catalog_rows s)
        \<and> (case map_of (rc_clusters demo_catalog) ''c1'' of None \<Rightarrow> False
            | Some c \<Rightarrow> has_room demo_sizes demo_catalog c (catalog_rows s))" by code_simp
  then show ?thesis by (auto split: option.splits)
qed

lemma demo_versions: "((3::u64), (0::u64)) \<noteq> (0, 0)"
  by simp

lemma demo_link_in_step:
  "\<exists>s c. live_of demo_source ''c1'' = Some s \<and> map_of (rc_clusters (fst (deliver demo_sizes demo_sent demo_catalog))) ''c1'' = Some c
    \<and> in_step s c"
proof -
  obtain s c where s: "live_of demo_source ''c1'' = Some s" "sn_epoch s \<noteq> 0"
    "0 < unix_milli (sn_observed s)"
    "list_all (\<lambda>x. validate_catalog_resource x True = None) (catalog_rows s)"
    and c: "map_of (rc_clusters demo_catalog) ''c1'' = Some c"
      "has_room demo_sizes demo_catalog c (catalog_rows s)"
    using demo_rows by blast
  from snapshot_link [OF demo_source_inv s(1) demo_send demo_versions frame_limit_0 s(2,3)
      demo_catalog_inv c(1) s(4) c(2)] s(1) show ?thesis by auto
qed


section \<open>A delta\<close>

lemma first_error_None: "first_error es = None \<longleftrightarrow> (\<forall>e \<in> set es. e = None)"
  by (induction es rule: first_error.induct) auto

lemma kind_no_nul: "validate_resource L x = None \<Longrightarrow> CHR 0x00 \<notin> set (re_kind x)"
  by (auto simp: validate_resource_def first_error_None expected_projection_count_def split: if_splits)

lemma same_key_kind:
  "validate_resource L x = None \<Longrightarrow> validate_resource L y = None \<Longrightarrow>
    resource_key x = resource_key y \<Longrightarrow> re_kind x = re_kind y"
  by (simp add: resource_key_def sep_inject kind_no_nul)

definition fits_change :: "proto_sizes \<Rightarrow> remote_catalog \<Rightarrow> catalog_cluster \<Rightarrow> catalog_resource \<Rightarrow> bool" where
  "fits_change P r c x \<longleftrightarrow>
     (let old = part (ps_catalog P) (map_of (ca_resources c) (catalog_key x));
          n = (if map_of (ca_resources c) (catalog_key x) = None then 1 else 0) in
      rc_live_resources r + n \<le> rc_max r \<and> rc_live_bytes r - old + ps_catalog P x \<le> rc_max_bytes r
      \<and> rc_total_resources r + n \<le> rc_max_retained r
      \<and> rc_total_bytes r - old + ps_catalog P x \<le> rc_max_retained_bytes r)"

text \<open>The effect of the change on the visible map.\<close>

lemma change_resource_ok:
  assumes act: "act = (if deleted then Catalog_deleted else if existed then Catalog_updated else Catalog_created)"
    and per: "persistent_catalog_kind (cr_kind x) \<Longrightarrow> existed = (map_of (ca_resources c) (catalog_key x) \<noteq> None)"
    and del: "deleted \<Longrightarrow> existed" and room: "fits_change P r c x"
  shows "\<exists>r' c'. change_resource P act x r c = ((r', c'), None)
    \<and> ca_available c' = ca_available c \<and> ca_resync c' = ca_resync c \<and> ca_epoch c' = ca_epoch c
    \<and> map_of (ca_resources c') = (if persistent_catalog_kind (cr_kind x)
        then (map_of (ca_resources c))(catalog_key x := (if deleted then None else Some x))
        else map_of (ca_resources c))"
proof (cases "persistent_catalog_kind (cr_kind x)")
  case True
  note per' = per [OF True]
  show ?thesis
  proof (cases deleted)
    case True
    with del per' act obtain y where y: "map_of (ca_resources c) (catalog_key x) = Some y" by auto
    with True act \<open>persistent_catalog_kind (cr_kind x)\<close> show ?thesis
      by (simp add: change_resource_def Let_def)
  next
    case False
    with act per' room \<open>persistent_catalog_kind (cr_kind x)\<close> show ?thesis
      by (cases existed) (simp_all add: change_resource_def Let_def fits_change_def not_less)
  qed
qed (simp add: change_resource_def)

lemma old_kind:
  assumes "snapshot_ok P L s" and "validate_resource L x = None"
    and "contents s (resource_key x) = Some y"
  shows "re_kind y = re_kind x"
proof (rule same_key_kind)
  have "(resource_key x, y) \<in> set (sn_resources s)"
    using assms(3) by (auto simp: contents_def dest: map_of_SomeD)
  then show "validate_resource L y = None" "resource_key y = resource_key x"
    using assms(1) by (auto simp: snapshot_ok_def)
qed (rule assms(2))

text \<open>The projection of a snapshot after one delta.\<close>

lemma projected_delta:
  assumes ok: "snapshot_ok P L s" and v: "validate_resource L x = None"
    and x: "de_resource d = Some x" and s': "contents s' = delta_effect d (contents s)"
  shows "projected s' = (if persistent_catalog_kind (re_kind x)
      then (projected s)(resource_key x := (if de_deleted d then None else Some (catalog_resource_of x)))
      else projected s)"
proof
  fix k
  show "projected s' k = (if persistent_catalog_kind (re_kind x)
      then (projected s)(resource_key x := (if de_deleted d then None else Some (catalog_resource_of x)))
      else projected s) k"
  proof (cases "k = resource_key x")
    case True
    show ?thesis
    proof (cases "contents s (resource_key x)")
      case None
      then show ?thesis using True x by (simp add: projected_def s' delta_effect_def)
    next
      case (Some y)
      with old_kind [OF ok v Some] True x show ?thesis
        by (simp add: projected_def s' delta_effect_def)
    qed
  qed (simp add: projected_def s' delta_effect_def x)
qed

lemma delta_frame_accepted:
  assumes c: "map_of (rc_clusters r) i = Some c" and step: "in_step cur c"
    and f: "f = (watch_header i Watch_delta (sn_epoch cur) (sn_seq cur + 1) ms)\<lparr>wf_change := Some
        \<lparr>cc_epoch = sn_epoch cur, cc_seq = sn_seq cur + 1, cc_resource = Some y, cc_action = act\<rparr>\<rparr>"
    and size: "ps_frame P f \<le> 4 * 2 ^ 20" and seq: "sn_seq cur < sn_seq cur + 1"
    and ms: "0 < ms" "ca_observed c \<le> ms"
    and y: "validate_catalog_resource y False = None" and act: "act \<noteq> Catalog_unspecified"
    and ch: "change_resource P act y r c = ((r1, c1), None)"
  shows "deliver P [f] r
    = (store_catalog i (r1, c1\<lparr>ca_seq := sn_seq cur + 1, ca_observed := ms\<rparr>), None)"
proof -
  have acc: "delta_accepted f c \<lparr>cc_epoch = sn_epoch cur, cc_seq = sn_seq cur + 1,
      cc_resource = Some y, cc_action = act\<rparr> y"
    using step ms y act by (simp add: delta_accepted_def f watch_header_def in_step_def)
  have cq: "ca_seq c = sn_seq cur" using step by (simp add: in_step_def)
  have "\<not> sn_seq cur + 1 \<le> ca_seq c" unfolding cq not_le by (rule seq)
  then have "apply_change P f r c
      = ((r1, c1\<lparr>ca_seq := sn_seq cur + 1, ca_observed := ms\<rparr>), None)"
    using acc ch cq by (simp add: apply_change_def f watch_header_def)
  then have "apply_to_cluster P f r c
      = ((r1, c1\<lparr>ca_seq := sn_seq cur + 1, ca_observed := ms\<rparr>), None)"
    by (simp add: apply_to_cluster_def f watch_header_def)
  moreover have "wf_cluster_id f = i" by (simp add: f watch_header_def)
  ultimately show ?thesis
    using apply_frame_to [of r f c P] c size by simp
qed


definition demo_link :: remote_catalog where
  "demo_link = fst (deliver demo_sizes demo_sent demo_catalog)"

definition demo_step_frames :: "(watch_frame list \<times> string option) \<times> watch_state" where
  "demo_step_frames = watch_handle demo_sizes 0
     (fst (delta_op demo_sizes demo_source ''c1'' 1 (Some (demo_delta 3 1 ''new'')) (demo_time + 1000000)))
     ''c1'' (3, 0) (delta_change ''c1'' (demo_delta 3 1 ''new'') (demo_ns ''new'') False (demo_time + 1000000))"


end
