(* ===== verification/Watch_Faults.thy ===== *)
theory Watch_Faults
  imports Watch_Sync
begin

text \<open>
  The error paths of the watch stream: what makes the client drop a stream, and how long it
  waits before the next attempt.
\<close>

section \<open>Rows the catalog refuses\<close>

lemma foreign_owner_invalid:
  assumes "o' \<in> set (re_owners x)" and "\<not> owner_kind_allowed (ow_kind o')"
  shows "validate_catalog_resource (catalog_resource_of x) snap \<noteq> None"
  using assms by (auto simp: validate_catalog_resource_def catalog_resource_of_def list_all_iff
      catalog_owner_ok_def)

lemma stage_rows_invalid:
  assumes "x \<in> set xs" and "validate_catalog_resource x True \<noteq> None" and "ca_staging c \<noteq> None"
  shows "\<exists>rc e. stage_rows P r c xs = (rc, Some e)"
  using assms(1,3)
proof (induction xs arbitrary: r c)
  case (Cons y ys)
  then obtain m where m: "ca_staging c = Some m" by auto
  show ?case
  proof (cases "snd (stage_row P r c m y)")
    case None
    then obtain r1 c1 where s: "stage_row P r c m y = ((r1, c1), None)" by (metis prod.collapse)
    then have "x \<noteq> y" and c1: "ca_staging c1 \<noteq> None"
      using assms(2) by (auto simp: stage_row_def Let_def split: if_splits)
    with Cons.prems(1) Cons.IH [OF _ c1] show ?thesis using m s by auto
  next
    case (Some e)
    then obtain rc where "stage_row P r c m y = (rc, Some e)" by (metis prod.collapse)
    then show ?thesis using m by (cases rc) auto
  qed
qed simp

text \<open>
  A resource whose owner is of a kind outside the catalog's list (a pod of a Job, say)
  makes every snapshot chunk that carries it fail, in every state of the catalog, and the
  client drops the stream; what readers see stays as it was.
\<close>

lemma foreign_owner_rejects_chunk:
  assumes "o' \<in> set (re_owners x)" and "\<not> owner_kind_allowed (ow_kind o')"
    and "catalog_resource_of x \<in> set (wf_resources f)" and "wf_type f = Watch_snapshot_chunk"
  shows "\<exists>e. snd (apply_frame P (Some f) r) = Some e
    \<and> visible_resources (catalog_step P (Some f) r) i = visible_resources r i"
proof -
  have inv: "validate_catalog_resource (catalog_resource_of x) True \<noteq> None"
    by (rule foreign_owner_invalid [OF assms(1,2)])
  have bad: "snd (apply_chunk P f r c) \<noteq> None" for c
    using stage_rows_invalid [OF assms(3) inv, of c P r]
    by (auto simp: apply_chunk_def stage_matches_def)
  have "snd (apply_frame P (Some f) r) \<noteq> None"
    using bad assms(4)
    by (auto simp: apply_frame_def apply_to_cluster_def split: option.split prod.split)
      (metis snd_conv option.distinct(1))
  moreover have "visible_resources (catalog_step P (Some f) r) i = visible_resources r i"
  proof (cases "map_of (rc_clusters r) (wf_cluster_id f)")
    case (Some c)
    obtain r' c' e where s: "apply_to_cluster P f r c = ((r', c'), e)" by (metis prod.collapse)
    have "rc_clusters r' = rc_clusters r"
      using cluster_frame [of r P f c] s by (simp add: same_frame_def)
    then show ?thesis
      using Some s quiet_frame [OF s] assms(4)
      by (auto simp: apply_frame_def visible_resources_def)
  qed (simp add: apply_frame_def visible_resources_def)
  ultimately show ?thesis by auto
qed

definition demo_job_pod :: resource where
  "demo_job_pod = \<lparr>re_kind = KindPod, re_uid = ''u1'', re_namespace = ''ns'', re_name = ''batch-1'',
     re_owners = [\<lparr>ow_uid = ''j1'', ow_kind = ''Job'', ow_name = ''batch'', ow_revision = []\<rparr>],
     re_pod = Some \<lparr>pp_phase = ''Running'', pp_reason = [], pp_created_unix_ms = 1, pp_containers = [],
       pp_node_name = ''n1'', pp_started_unix_ms = 1, pp_deleted_unix_ms = 0, pp_cpu_request_milli = 0,
       pp_memory_request_bytes = 0, pp_cpu_limit_milli = 0, pp_has_cpu_limit = False,
       pp_memory_limit_bytes = 0, pp_has_memory_limit = False\<rparr>,
     re_workload = None, re_node = None, re_event = None\<rparr>"

section \<open>A heartbeat from before the snapshot\<close>

text \<open>
  A queued heartbeat is not compared with the version the stream sent last, as deltas and
  resets are: when a heartbeat was queued before the delta that the snapshot already
  contains, \<open>Watch\<close> forwards it and the catalog, which holds the later version, answers with
  an error that ends the stream.
\<close>

lemma stale_heartbeat_ends_stream:
  assumes "wc_heartbeat ch" and "\<not> wc_expired ch"
    and "watch_handle P mx rg i st ch = ((fs, None), st')"
    and "frame_limit mx \<le> 4 * 2 ^ 20"
    and "map_of (rc_clusters r) i = Some c" and "wc_seq ch \<noteq> ca_seq c"
  shows "length fs = 1 \<and> snd (deliver P fs r) = Some ''invalid heartbeat''"
  using assms
  by (auto simp: watch_handle_def Let_def send_frame_def watch_header_def apply_frame_def
      apply_to_cluster_def split: if_splits)



section \<open>Waiting\<close>

definition backoff_ok :: "duration \<Rightarrow> bool" where
  "backoff_ok b \<longleftrightarrow> second \<le> b \<and> b \<le> 30 * second"

lemma next_backoff_ok: "backoff_ok b \<Longrightarrow> backoff_ok (next_backoff b)"
  by (auto simp: backoff_ok_def next_backoff_def second_def)

lemma client_stream_backoff:
  "backoff_ok b \<Longrightarrow> client_stream P i fs b r = (r', b', e) \<Longrightarrow> backoff_ok b'"
  by (induction P i fs b r rule: client_stream.induct)
    (auto simp: backoff_ok_def second_def split: if_splits prod.splits option.splits)

text \<open>One round of \<open>StartWatch\<close>: a stream, the reset, and the next backoff; then any number.\<close>

definition client_round :: "proto_sizes \<Rightarrow> string \<Rightarrow> watch_frame option list
    \<Rightarrow> remote_catalog \<times> duration \<Rightarrow> remote_catalog \<times> duration" where
  "client_round P i fs rb =
     (case client_stream P i fs (snd rb) (fst rb) of
        (r, b, e) \<Rightarrow> (client_reset P i r, next_backoff b))"

text \<open>
  However the streams end, the client waits between one millisecond and 36 seconds before
  each new attempt, its backoff stays between one and thirty seconds, and it starts every
  attempt with a catalog that has no staged snapshot of the cluster and asks for a resync.
\<close>

lemma client_retries_are_bounded:
  assumes "0 \<le> jitter" and "5 * jitter \<le> 30 * second"
  shows "let (r', b) = fold (client_round P i) runs (r, second) in
      second \<le> b \<and> b \<le> 30 * second
    \<and> 1000000 \<le> retry_delay given jitter b \<and> retry_delay given jitter b \<le> 36 * second
    \<and> (case map_of (rc_clusters (client_reset P i r')) i of
         None \<Rightarrow> True
       | Some c \<Rightarrow> ps_frame P (watch_header i Watch_reset 0 0 0) \<le> 4 * 2 ^ 20
           \<longrightarrow> ca_staging c = None \<and> ca_resync c)"
proof -
  have "backoff_ok (snd (fold (client_round P i) runs rb))" if "backoff_ok (snd rb)" for rb
    using that
  proof (induction runs arbitrary: rb)
    case (Cons fs runs)
    have "backoff_ok (snd (client_round P i fs rb))"
      using client_stream_backoff [OF Cons.prems] next_backoff_ok
      by (auto simp: client_round_def split: prod.splits)
    with Cons show ?case by simp
  qed simp
  from this [of "(r, second)"] have b: "backoff_ok (snd (fold (client_round P i) runs (r, second)))"
    by (simp add: backoff_ok_def second_def)
  have d: "1000000 \<le> retry_delay given jitter b \<and> retry_delay given jitter b \<le> 36 * second"
    if "backoff_ok b" for b
    using that assms by (auto simp: retry_delay_def backoff_ok_def second_def Let_def split: option.split)
  have reset: "case map_of (rc_clusters (client_reset P i r')) i of
      None \<Rightarrow> True
    | Some c \<Rightarrow> ps_frame P (watch_header i Watch_reset 0 0 0) \<le> 4 * 2 ^ 20
        \<longrightarrow> ca_staging c = None \<and> ca_resync c" for r'
    by (auto simp: client_reset_def apply_frame_def apply_to_cluster_def watch_header_def
        release_stage_def split: option.split prod.split)
  show ?thesis
    using b d reset by (auto simp: backoff_ok_def split: prod.split)
qed

end
