(* ===== verification/Fence_Tree.thy ===== *)
theory Fence_Tree
  imports Prelude_Go
begin

text \<open>
  The persistent B+trees of \<open>internal/resourcecatalog/searchtree.go\<close>. The file has the
  algorithm twice, for postings (\<open>postNode\<close>, \<open>postApply\<close>, ...) and for the row directory
  (\<open>rowNode\<close>, \<open>rowApply\<close>, ...); the two copies differ in the key of an entry, in what a leaf
  caches, in the aggregates a node keeps of its children (none for postings) and in the bytes
  of a fence. Those are the fields of \<open>tree_ops\<close>; the operations here are the common text, and
  \<open>Post_Tree\<close> and \<open>Row_Tree\<close> instantiate them.

  A node is immutable in the code: an operation builds a fresh node and edits the fresh copy
  in place before it is shared. The model passes the copy, a triple of separators, aggregates
  and children. The capacities of slices, which the runtime's allocator decides, and the
  counters that add them up (\<open>capBytesDelta\<close>, \<open>postTreeBytes\<close>, \<open>rowTreeBytes\<close>) are left out.
\<close>

section \<open>Data\<close>

record ('k, 'e, 'l, 'a) tree_ops =
  to_key :: "'e \<Rightarrow> 'k"
  to_leaf :: "'e list \<Rightarrow> 'l"
  to_items :: "'l \<Rightarrow> 'e list"
  to_leaf_agg :: "'l \<Rightarrow> 'a"
  to_node_agg :: "'a list \<Rightarrow> 'a"
  to_fence_bytes :: "'k \<Rightarrow> int"

text \<open>An inner node whose children are leaves (\<open>leafLevel\<close>) or nodes: separators, aggregates,
  children.\<close>

datatype ('k, 'l, 'a) ftree =
    Leaf_node "'k list" "'a list" "'l list"
  | Inner_node "'k list" "'a list" "('k, 'l, 'a) ftree list"

record ('k, 'e) tree_op =
  op_key :: 'k
  op_entry :: 'e
  op_remove :: bool

record apply_stats =
  st_entries_copied :: int
  st_nodes_copied :: int
  st_sep_bytes :: int
  st_entry_delta :: int
  st_leaf_delta :: int

definition no_stats :: apply_stats where
  "no_stats = \<lparr>st_entries_copied = 0, st_nodes_copied = 0, st_sep_bytes = 0, st_entry_delta = 0,
    st_leaf_delta = 0\<rparr>"

definition leaf_max :: nat where "leaf_max = 256"
definition leaf_split :: nat where "leaf_split = 192"
definition leaf_min :: nat where "leaf_min = 64"
definition tree_fanout :: nat where "tree_fanout = 32"
definition tree_node_min :: nat where "tree_node_min = 12"

fun node_seps :: "('k, 'l, 'a) ftree \<Rightarrow> 'k list" where
  "node_seps (Leaf_node seps aggs kids) = seps"
| "node_seps (Inner_node seps aggs kids) = seps"

fun node_aggs :: "('k, 'l, 'a) ftree \<Rightarrow> 'a list" where
  "node_aggs (Leaf_node seps aggs kids) = aggs"
| "node_aggs (Inner_node seps aggs kids) = aggs"

fun child_count :: "('k, 'l, 'a) ftree \<Rightarrow> nat" where
  "child_count (Leaf_node seps aggs kids) = length kids"
| "child_count (Inner_node seps aggs kids) = length kids"

fun flat :: "('k, 'e, 'l, 'a) tree_ops \<Rightarrow> ('k, 'l, 'a) ftree \<Rightarrow> 'e list" where
  "flat T (Leaf_node seps aggs kids) = concat (map (to_items T) kids)"
| "flat T (Inner_node seps aggs kids) = concat (map (flat T) kids)"

fun tree_height :: "('k, 'l, 'a) ftree \<Rightarrow> nat" where
  "tree_height (Leaf_node seps aggs kids) = 0"
| "tree_height (Inner_node seps aggs kids) = Suc (fold max (map tree_height kids) 0)"

section \<open>Searching\<close>

text \<open>The binary search that the code spells out four times: the first position of
  \<open>[lo, hi)\<close> where \<open>below\<close> fails, when \<open>below\<close> holds exactly on a prefix.\<close>

function bisect :: "(nat \<Rightarrow> bool) \<Rightarrow> nat \<Rightarrow> nat \<Rightarrow> nat" where
  "bisect below lo hi =
     (if lo < hi then
        (let mid = (lo + hi) div 2 in
         if below mid then bisect below (mid + 1) hi else bisect below lo mid)
      else lo)"
  by pat_completeness auto
termination by (relation "measure (\<lambda>(_, lo, hi). hi - lo)") auto

declare bisect.simps [simp del]

definition child_index :: "('k::linorder) list \<Rightarrow> 'k \<Rightarrow> nat" where
  "child_index seps key = bisect (\<lambda>mid. seps ! mid \<le> key) 0 (length seps)"

definition lower_bound :: "('e \<Rightarrow> 'k::linorder) \<Rightarrow> 'e list \<Rightarrow> 'k \<Rightarrow> nat" where
  "lower_bound k xs key = bisect (\<lambda>mid. k (xs ! mid) < key) 0 (length xs)"

section \<open>One leaf\<close>

text \<open>\<open>take i xs @ ys @ drop (i + n) xs\<close> is the code's splice of a slice.\<close>

definition replace_at :: "nat \<Rightarrow> nat \<Rightarrow> 'c list \<Rightarrow> 'c list \<Rightarrow> 'c list" where
  "replace_at i n ys xs = take i xs @ ys @ drop (i + n) xs"

fun merge_ops :: "('e \<Rightarrow> 'k::linorder) \<Rightarrow> 'e list \<Rightarrow> ('k, 'e) tree_op list \<Rightarrow> 'e list" where
  "merge_ops k [] [] = []"
| "merge_ops k [] (p # ps) =
     (if op_remove p then merge_ops k [] ps else op_entry p # merge_ops k [] ps)"
| "merge_ops k (x # xs) [] = x # merge_ops k xs []"
| "merge_ops k (x # xs) (p # ps) =
     (if k x < op_key p then x # merge_ops k xs (p # ps)
      else if op_key p < k x then
        (if op_remove p then merge_ops k (x # xs) ps else op_entry p # merge_ops k (x # xs) ps)
      else (if op_remove p then merge_ops k xs ps else op_entry p # merge_ops k xs ps))"

function pieces :: "nat \<Rightarrow> 'e list \<Rightarrow> 'e list list" where
  "pieces n xs = (if n = 0 \<or> xs = [] then [] else take n xs # pieces n (drop n xs))"
  by pat_completeness auto
termination by (relation "measure (\<lambda>(_, xs). length xs)") auto

declare pieces.simps [simp del]

type_synonym ('k, 'a, 'c) body = "'k list \<times> 'a list \<times> 'c list"

definition rebalance_leaf :: "('k, 'e, 'l, 'a) tree_ops \<Rightarrow> nat \<Rightarrow> ('k, 'a, 'l) body \<Rightarrow> apply_stats
    \<Rightarrow> ('k, 'a, 'l) body \<times> apply_stats" where
  "rebalance_leaf T i b st =
     (let seps = fst b; aggs = fst (snd b); kids = snd (snd b) in
      if length kids \<le> 1 \<or> leaf_min \<le> length (to_items T (kids ! i)) then (b, st)
      else
        (let left = (if i + 1 < length kids then i else i - 1);
             joined = to_items T (kids ! left) @ to_items T (kids ! (left + 1));
             total = length joined;
             st1 = st\<lparr>st_entries_copied := st_entries_copied st + int total\<rparr> in
         if total \<le> leaf_max then
           (let l = to_leaf T joined in
            ((replace_at left 1 [] seps, replace_at left 2 [to_leaf_agg T l] aggs,
              replace_at left 2 [l] kids),
             st1\<lparr>st_leaf_delta := st_leaf_delta st1 - 1\<rparr>))
         else
           (let f = to_leaf T (take (total div 2) joined);
                s = to_leaf T (drop (total div 2) joined);
                fence = to_key T (joined ! (total div 2)) in
            ((replace_at left 1 [fence] seps,
              replace_at left 2 [to_leaf_agg T f, to_leaf_agg T s] aggs,
              replace_at left 2 [f, s] kids),
             st1\<lparr>st_sep_bytes := st_sep_bytes st1 + to_fence_bytes T fence\<rparr>))))"

definition apply_to_leaf :: "('k::linorder, 'e, 'l, 'a) tree_ops \<Rightarrow> nat \<Rightarrow> ('k, 'e) tree_op list
    \<Rightarrow> ('k, 'a, 'l) body \<Rightarrow> apply_stats \<Rightarrow> ('k, 'a, 'l) body \<times> apply_stats" where
  "apply_to_leaf T i ops b st =
     (let seps = fst b; aggs = fst (snd b); kids = snd (snd b);
          old = to_items T (kids ! i);
          merged = merge_ops (to_key T) old ops;
          st1 = st\<lparr>st_entries_copied := st_entries_copied st + int (length old + length merged),
                  st_entry_delta := st_entry_delta st + (int (length merged) - int (length old))\<rparr> in
      if length merged \<le> leaf_max then
        (let l = to_leaf T merged in
         rebalance_leaf T i
           (seps, replace_at i 1 [to_leaf_agg T l] aggs, replace_at i 1 [l] kids) st1)
      else
        (let segs = pieces leaf_split merged;
             parts = map (to_leaf T) segs;
             fences = map (\<lambda>seg. to_key T (hd seg)) (tl segs) in
         ((replace_at i 0 fences seps, replace_at i 1 (map (to_leaf_agg T) parts) aggs,
           replace_at i 1 parts kids),
          st1\<lparr>st_leaf_delta := st_leaf_delta st1 + (int (length parts) - 1),
              st_sep_bytes := st_sep_bytes st1 + sum_list (map (to_fence_bytes T) fences)\<rparr>)))"

section \<open>Inner nodes\<close>

definition node_agg :: "('k, 'e, 'l, 'a) tree_ops \<Rightarrow> ('k, 'l, 'a) ftree \<Rightarrow> 'a" where
  "node_agg T t = to_node_agg T (node_aggs t)"

fun split_tree :: "nat \<Rightarrow> ('k, 'l, 'a) ftree \<Rightarrow> ('k, 'l, 'a) ftree \<times> 'k \<times> ('k, 'l, 'a) ftree" where
  "split_tree half (Leaf_node seps aggs kids) =
     (Leaf_node (take (half - 1) seps) (take half aggs) (take half kids), seps ! (half - 1),
      Leaf_node (drop half seps) (drop half aggs) (drop half kids))"
| "split_tree half (Inner_node seps aggs kids) =
     (Inner_node (take (half - 1) seps) (take half aggs) (take half kids), seps ! (half - 1),
      Inner_node (drop half seps) (drop half aggs) (drop half kids))"

definition split_node :: "('k, 'e, 'l, 'a) tree_ops \<Rightarrow> nat \<Rightarrow> ('k, 'a, ('k, 'l, 'a) ftree) body
    \<Rightarrow> apply_stats \<Rightarrow> ('k, 'a, ('k, 'l, 'a) ftree) body \<times> apply_stats" where
  "split_node T i b st =
     (let seps = fst b; aggs = fst (snd b); kids = snd (snd b);
          child = kids ! i; count = child_count child in
      if count \<le> tree_fanout then (b, st)
      else
        (let parts = split_tree (count div 2) child;
             l = fst parts; up = fst (snd parts); r = snd (snd parts) in
         ((replace_at i 0 [up] seps, replace_at i 1 [node_agg T l, node_agg T r] aggs,
           replace_at i 1 [l, r] kids),
          st\<lparr>st_nodes_copied := st_nodes_copied st + 2\<rparr>)))"

fun join_trees :: "('k, 'l, 'a) ftree \<Rightarrow> 'k \<Rightarrow> ('k, 'l, 'a) ftree \<Rightarrow> ('k, 'l, 'a) ftree option" where
  "join_trees (Leaf_node s a k) sep (Leaf_node s' a' k') =
     Some (Leaf_node (s @ sep # s') (a @ a') (k @ k'))"
| "join_trees (Inner_node s a k) sep (Inner_node s' a' k') =
     Some (Inner_node (s @ sep # s') (a @ a') (k @ k'))"
| "join_trees _ sep _ = None"

definition rebalance_node :: "('k, 'e, 'l, 'a) tree_ops \<Rightarrow> nat \<Rightarrow> ('k, 'a, ('k, 'l, 'a) ftree) body
    \<Rightarrow> apply_stats \<Rightarrow> ('k, 'a, ('k, 'l, 'a) ftree) body \<times> apply_stats" where
  "rebalance_node T i b st =
     (let seps = fst b; aggs = fst (snd b); kids = snd (snd b) in
      if length kids \<le> 1 then (b, st)
      else if tree_node_min \<le> child_count (kids ! i) then split_node T i b st
      else
        (let left = (if i + 1 < length kids then i else i - 1) in
         case join_trees (kids ! left) (seps ! left) (kids ! (left + 1)) of
           None \<Rightarrow> (b, st)
         | Some joined \<Rightarrow>
             split_node T left
               (replace_at left 1 [] seps, replace_at left 2 [node_agg T joined] aggs,
                replace_at left 2 [joined] kids)
               (st\<lparr>st_nodes_copied := st_nodes_copied st + 1\<rparr>)))"

section \<open>A batch\<close>

text \<open>The maximal runs of operations that \<open>childIndexFor\<close> sends to the same child, with the
  child.\<close>

function op_chunks :: "('k::linorder) list \<Rightarrow> ('k, 'e) tree_op list \<Rightarrow> (nat \<times> ('k, 'e) tree_op list) list"
where
  "op_chunks seps [] = []"
| "op_chunks seps (p # ps) =
     (let c = child_index seps (op_key p);
          here = takeWhile (\<lambda>q. child_index seps (op_key q) = c) ps;
          later = dropWhile (\<lambda>q. child_index seps (op_key q) = c) ps in
      (c, p # here) # op_chunks seps later)"
  by pat_completeness auto
termination by (relation "measure (\<lambda>(_, ps). length ps)") (auto simp: le_imp_less_Suc length_dropWhile_le)

definition leaf_step :: "('k::linorder, 'e, 'l, 'a) tree_ops \<Rightarrow> nat \<times> ('k, 'e) tree_op list
    \<Rightarrow> ('k, 'a, 'l) body \<times> apply_stats \<Rightarrow> ('k, 'a, 'l) body \<times> apply_stats" where
  "leaf_step T ch s = apply_to_leaf T (fst ch) (snd ch) (fst s) (snd s)"

text \<open>One chunk of an inner node: \<open>apply\<close> is the recursive call on the child.\<close>

definition node_step :: "('k, 'e, 'l, 'a) tree_ops
    \<Rightarrow> (('k, 'l, 'a) ftree \<Rightarrow> ('k, 'e) tree_op list \<Rightarrow> apply_stats \<Rightarrow> ('k, 'l, 'a) ftree \<times> apply_stats)
    \<Rightarrow> nat \<times> ('k, 'e) tree_op list
    \<Rightarrow> ('k, 'a, ('k, 'l, 'a) ftree) body \<times> apply_stats
    \<Rightarrow> ('k, 'a, ('k, 'l, 'a) ftree) body \<times> apply_stats" where
  "node_step T apply ch s =
     (let i = fst ch; seps = fst (fst s); aggs = fst (snd (fst s)); kids = snd (snd (fst s));
          res = apply (kids ! i) (snd ch) (snd s) in
      rebalance_node T i
        (seps, replace_at i 1 [node_agg T (fst res)] aggs, replace_at i 1 [fst res] kids)
        (snd res))"

text \<open>The chunks are applied from the last to the first. The first argument bounds the depth of
  the recursion; the height of the tree is enough.\<close>

fun apply_node :: "('k::linorder, 'e, 'l, 'a) tree_ops \<Rightarrow> nat \<Rightarrow> ('k, 'l, 'a) ftree
    \<Rightarrow> ('k, 'e) tree_op list \<Rightarrow> apply_stats \<Rightarrow> ('k, 'l, 'a) ftree \<times> apply_stats" where
  "apply_node T h (Leaf_node seps aggs kids) ops st =
     (let res = foldr (leaf_step T) (op_chunks seps ops)
            ((seps, aggs, kids), st\<lparr>st_nodes_copied := st_nodes_copied st + 1\<rparr>) in
      (Leaf_node (fst (fst res)) (fst (snd (fst res))) (snd (snd (fst res))), snd res))"
| "apply_node T 0 (Inner_node seps aggs kids) ops st = (Inner_node seps aggs kids, st)"
| "apply_node T (Suc h) (Inner_node seps aggs kids) ops st =
     (let res = foldr (node_step T (apply_node T h)) (op_chunks seps ops)
            ((seps, aggs, kids), st\<lparr>st_nodes_copied := st_nodes_copied st + 1\<rparr>) in
      (Inner_node (fst (fst res)) (fst (snd (fst res))) (snd (snd (fst res))), snd res))"

fun collapse :: "('k, 'l, 'a) ftree \<Rightarrow> ('k, 'l, 'a) ftree" where
  "collapse (Inner_node seps aggs [t]) = collapse t"
| "collapse t = t"

definition apply_tree :: "('k::linorder, 'e, 'l, 'a) tree_ops \<Rightarrow> ('k, 'l, 'a) ftree
    \<Rightarrow> ('k, 'e) tree_op list \<Rightarrow> apply_stats \<Rightarrow> ('k, 'l, 'a) ftree \<times> apply_stats" where
  "apply_tree T rt ops st =
     (if ops = [] then (rt, st)
      else (let res = apply_node T (tree_height rt) rt ops st in (collapse (fst res), snd res)))"

section \<open>Folding a wide root\<close>

text \<open>One level: the children in groups of \<open>treeFanout / 2\<close>, the separator between two groups
  moving up to the new parent.\<close>

definition group_size :: nat where "group_size = tree_fanout div 2"

function fold_groups :: "('k, 'e, 'l, 'a) tree_ops
    \<Rightarrow> ('k list \<Rightarrow> 'a list \<Rightarrow> 'c list \<Rightarrow> ('k, 'l, 'a) ftree) \<Rightarrow> 'k list \<Rightarrow> 'a list \<Rightarrow> 'c list
    \<Rightarrow> ('k, 'a, ('k, 'l, 'a) ftree) body" where
  "fold_groups T mk seps aggs kids =
     (let node = mk (take (group_size - 1) seps) (take group_size aggs) (take group_size kids) in
      if length kids \<le> group_size then ([], [node_agg T node], [node])
      else
        (let rest = fold_groups T mk (drop group_size seps) (drop group_size aggs) (drop group_size kids) in
         (seps ! (group_size - 1) # fst rest, node_agg T node # fst (snd rest), node # snd (snd rest))))"
  by pat_completeness auto
termination
  by (relation "measure (\<lambda>(_, _, _, _, kids). length kids)") (auto simp: group_size_def tree_fanout_def)

declare fold_groups.simps [simp del]

fun lift_root :: "('k, 'e, 'l, 'a) tree_ops \<Rightarrow> ('k, 'l, 'a) ftree \<Rightarrow> ('k, 'l, 'a) ftree" where
  "lift_root T (Leaf_node seps aggs kids) =
     (case fold_groups T Leaf_node seps aggs kids of (s, a, k) \<Rightarrow> Inner_node s a k)"
| "lift_root T (Inner_node seps aggs kids) =
     (case fold_groups T Inner_node seps aggs kids of (s, a, k) \<Rightarrow> Inner_node s a k)"

lemma fold_groups_length:
  "length (snd (snd (fold_groups T mk seps aggs kids))) = max 1 ((length kids + group_size - 1) div group_size)"
proof (induction T mk seps aggs kids rule: fold_groups.induct)
  case (1 T mk seps aggs kids)
  show ?case
  proof (cases "length kids \<le> group_size")
    case True
    then show ?thesis
      by (subst fold_groups.simps) (auto simp: group_size_def tree_fanout_def Let_def)
  next
    case False
    then show ?thesis
      using 1 by (subst fold_groups.simps) (auto simp: group_size_def tree_fanout_def Let_def)
  qed
qed

lemma child_count_lift:
  "child_count (lift_root T t) = max 1 ((child_count t + group_size - 1) div group_size)"
  by (cases t) (simp_all add: fold_groups_length case_prod_beta)

function balance_root :: "('k, 'e, 'l, 'a) tree_ops \<Rightarrow> ('k, 'l, 'a) ftree \<Rightarrow> apply_stats
    \<Rightarrow> ('k, 'l, 'a) ftree \<times> apply_stats" where
  "balance_root T rt st =
     (if tree_fanout < child_count rt then
        (let up = lift_root T rt in
         balance_root T up
           (st\<lparr>st_nodes_copied := st_nodes_copied st + int (child_count up + 1)\<rparr>))
      else (rt, st))"
  by pat_completeness auto
termination
  by (relation "measure (\<lambda>(_, rt, _). child_count rt)")
    (auto simp: child_count_lift group_size_def tree_fanout_def Let_def)

declare balance_root.simps [simp del]

end
