(* ===== verification/Fence_Laws.thy ===== *)
theory Fence_Laws
  imports Fence_Tree
begin

text \<open>
  The order of a tree with fences: \<open>fenced\<close> says that the children of a node lie between its
  separators, \<open>ordered\<close> that a whole tree does, and \<open>fenced_replace\<close> is the one lemma with which
  every splice of the code (split, merge, redistribution) is shown to keep it.
\<close>

section \<open>Binary search\<close>

definition parts_at :: "(nat \<Rightarrow> bool) \<Rightarrow> nat \<Rightarrow> nat \<Rightarrow> nat \<Rightarrow> bool" where
  "parts_at below lo hi m \<longleftrightarrow> lo \<le> m \<and> m \<le> hi
    \<and> (\<forall>i. lo \<le> i \<longrightarrow> i < m \<longrightarrow> below i) \<and> (\<forall>i. m \<le> i \<longrightarrow> i < hi \<longrightarrow> \<not> below i)"

lemma parts_at_left:
  "\<lbrakk>parts_at below (mid + 1) hi m; lo \<le> mid; \<And>i. \<lbrakk>lo \<le> i; i \<le> mid\<rbrakk> \<Longrightarrow> below i\<rbrakk>
    \<Longrightarrow> parts_at below lo hi m"
  unfolding parts_at_def by (metis Suc_eq_plus1 not_less_eq_eq order_trans nat_le_linear)

lemma parts_at_right:
  "\<lbrakk>parts_at below lo mid m; mid < hi; \<And>i. \<lbrakk>mid \<le> i; i < hi\<rbrakk> \<Longrightarrow> \<not> below i\<rbrakk>
    \<Longrightarrow> parts_at below lo hi m"
  unfolding parts_at_def by (metis less_imp_le not_le order_trans)

lemma bisect_parts:
  assumes "lo \<le> hi" and "\<And>i j. \<lbrakk>lo \<le> i; i \<le> j; j < hi; below j\<rbrakk> \<Longrightarrow> below i"
  shows "parts_at below lo hi (bisect below lo hi)"
  using assms
proof (induction below lo hi rule: bisect.induct)
  case (1 below lo hi)
  show ?case
  proof (cases "lo < hi")
    case True
    define mid where "mid = (lo + hi) div 2"
    have m: "lo \<le> mid" "mid < hi" using True by (auto simp: mid_def)
    show ?thesis
    proof (cases "below mid")
      case b: True
      have "bisect below lo hi = bisect below (mid + 1) hi"
        using True b by (subst bisect.simps) (simp add: mid_def Let_def)
      moreover have "parts_at below (mid + 1) hi (bisect below (mid + 1) hi)"
      proof (rule "1.IH"(1) [OF True mid_def b])
        show "mid + 1 \<le> hi" using m by simp
        show "below i" if "mid + 1 \<le> i" "i \<le> j" "j < hi" "below j" for i j
          using "1.prems"(2) [of i j] that m by simp
      qed
      ultimately show ?thesis
        using parts_at_left [of below mid hi _ lo] "1.prems"(2) [of _ mid] m b by metis
    next
      case b: False
      have "bisect below lo hi = bisect below lo mid"
        using True b by (subst bisect.simps) (simp add: mid_def Let_def)
      moreover have "parts_at below lo mid (bisect below lo mid)"
      proof (rule "1.IH"(2) [OF True mid_def b m(1)])
        show "below i" if "lo \<le> i" "i \<le> j" "j < mid" "below j" for i j
          using "1.prems"(2) [of i j] that m by simp
      qed
      ultimately show ?thesis
        using parts_at_right [of below lo mid _ hi] "1.prems"(2) [of mid] m b by metis
    qed
  next
    case False
    then show ?thesis using "1.prems" by (subst bisect.simps) (simp add: parts_at_def)
  qed
qed

lemma child_index_bounds:
  assumes "sorted seps"
  shows "child_index seps x \<le> length seps"
    and "i < child_index seps x \<Longrightarrow> seps ! i \<le> x"
    and "\<lbrakk>child_index seps x \<le> i; i < length seps\<rbrakk> \<Longrightarrow> x < seps ! i"
proof -
  have "seps ! i \<le> x" if "i \<le> j" "j < length seps" "seps ! j \<le> x" for i j
    using sorted_nth_mono [OF assms that(1,2)] that(3) by (rule order_trans)
  then have "parts_at (\<lambda>m. seps ! m \<le> x) 0 (length seps) (child_index seps x)"
    unfolding child_index_def by (intro bisect_parts) auto
  then show "child_index seps x \<le> length seps" "i < child_index seps x \<Longrightarrow> seps ! i \<le> x"
    "\<lbrakk>child_index seps x \<le> i; i < length seps\<rbrakk> \<Longrightarrow> x < seps ! i"
    by (auto simp: parts_at_def not_le)
qed

lemma lower_bound_spec:
  assumes "sorted_wrt (<) (map k xs)"
  shows "take (lower_bound k xs y) xs = takeWhile (\<lambda>x. k x < y) xs"
    and "drop (lower_bound k xs y) xs = dropWhile (\<lambda>x. k x < y) xs"
    and "lower_bound k xs y \<le> length xs"
proof -
  let ?m = "lower_bound k xs y"
  have mono: "k (xs ! i) < y" if "i \<le> j" "j < length xs" "k (xs ! j) < y" for i j
    using assms that sorted_wrt_nth_less [of "(<)" "map k xs" i j]
    by (cases "i = j") (auto intro: less_trans)
  have "parts_at (\<lambda>m. k (xs ! m) < y) 0 (length xs) ?m"
    unfolding lower_bound_def by (rule bisect_parts) (use mono in blast)+
  then have b: "?m \<le> length xs" "\<And>i. i < ?m \<Longrightarrow> k (xs ! i) < y"
    "?m < length xs \<Longrightarrow> \<not> k (xs ! ?m) < y"
    by (auto simp: parts_at_def)
  have "takeWhile (\<lambda>x. k x < y) xs = take ?m xs"
    by (rule takeWhile_eq_take_P_nth) (use b in \<open>auto\<close>)
  moreover from this have "length (takeWhile (\<lambda>x. k x < y) xs) = ?m" using b(1) by simp
  ultimately show "take ?m xs = takeWhile (\<lambda>x. k x < y) xs" "drop ?m xs = dropWhile (\<lambda>x. k x < y) xs"
    "?m \<le> length xs"
    using b(1) by (simp_all add: dropWhile_eq_drop)
qed

section \<open>Merging a batch into a leaf\<close>

definition ops_ok :: "('e \<Rightarrow> 'k::linorder) \<Rightarrow> ('k, 'e) tree_op list \<Rightarrow> bool" where
  "ops_ok k ops \<longleftrightarrow> sorted_wrt (<) (map op_key ops)
    \<and> (\<forall>p\<in>set ops. \<not> op_remove p \<longrightarrow> k (op_entry p) = op_key p)"

abbreviation sorted_keys :: "('e \<Rightarrow> 'k::linorder) \<Rightarrow> 'e list \<Rightarrow> bool" where
  "sorted_keys k xs \<equiv> sorted_wrt (<) (map k xs)"

lemma ops_ok_Cons:
  "ops_ok k (p # ps) \<longleftrightarrow> ops_ok k ps \<and> (\<forall>q\<in>set ps. op_key p < op_key q)
    \<and> (\<not> op_remove p \<longrightarrow> k (op_entry p) = op_key p)"
  by (auto simp: ops_ok_def)

lemma merge_Nil [simp]: "merge_ops k xs [] = xs"
  by (induction xs) auto

lemma merge_no_items: "merge_ops k [] ps = map op_entry (filter (\<lambda>p. \<not> op_remove p) ps)"
  by (induction ps) auto

lemma merge_left:
  "(\<And>x p. \<lbrakk>x \<in> set as; p \<in> set ps\<rbrakk> \<Longrightarrow> k x < op_key p) \<Longrightarrow>
    merge_ops k (as @ xs) ps = as @ merge_ops k xs ps"
  by (induction as) (cases ps; auto)+

lemma merge_right:
  "(\<And>x p. \<lbrakk>x \<in> set bs; p \<in> set ps\<rbrakk> \<Longrightarrow> op_key p < k x) \<Longrightarrow>
    merge_ops k (xs @ bs) ps = merge_ops k xs ps @ bs"
proof (induction k xs ps rule: merge_ops.induct)
  case (2 k p ps)
  show ?case
  proof (cases bs)
    case (Cons b bs')
    have "op_key p < k b" using "2.prems" [of b p] Cons by simp
    moreover have "merge_ops k bs ps = merge_ops k [] ps @ bs"
      using 2 by (cases "op_remove p") auto
    ultimately show ?thesis using Cons by (auto dest: less_asym)
  qed (use 2 in simp)
qed auto

lemma merge_keys:
  "x \<in> set (merge_ops k xs ps) \<Longrightarrow> x \<in> set xs \<or> (\<exists>p\<in>set ps. \<not> op_remove p \<and> x = op_entry p)"
  by (induction k xs ps rule: merge_ops.induct) (auto split: if_splits)

lemma merge_sorted:
  "\<lbrakk>sorted_keys k xs; ops_ok k ps\<rbrakk> \<Longrightarrow> sorted_keys k (merge_ops k xs ps)"
proof (induction k xs ps rule: merge_ops.induct)
  case (2 k p ps)
  then show ?case by (auto simp: ops_ok_Cons merge_no_items ops_ok_def)
next
  case (4 k x xs p ps)
  have split: "\<forall>y\<in>set (merge_ops k zs qs). c < k y"
    if "\<forall>y\<in>set zs. c < k y" "\<forall>q\<in>set qs. c < op_key q" "ops_ok k qs" for c zs qs
    using that merge_keys [of _ k zs qs] by (fastforce simp: ops_ok_def)
  consider "k x < op_key p" | "op_key p < k x" | "k x = op_key p" by (rule linorder_cases)
  then show ?case
  proof cases
    case 1
    with 4 have "\<forall>y\<in>set (merge_ops k xs (p # ps)). k x < k y"
      by (intro split) (auto simp: ops_ok_Cons)
    with 1 4 show ?thesis by simp
  next
    case 2
    with 4 have "\<forall>y\<in>set (merge_ops k (x # xs) ps). op_key p < k y"
      by (intro split) (auto simp: ops_ok_Cons)
    with 2 4 show ?thesis by (auto simp: ops_ok_Cons)
  next
    case 3
    with 4 have "\<forall>y\<in>set (merge_ops k xs ps). op_key p < k y"
      by (intro split) (auto simp: ops_ok_Cons)
    with 3 4 show ?thesis by (auto simp: ops_ok_Cons)
  qed
qed auto

text \<open>What a merged list holds: the entries of the batch that are not removals, and the old
  entries whose key the batch does not name.\<close>

lemma set_merge:
  "\<lbrakk>sorted_keys k xs; ops_ok k ps\<rbrakk> \<Longrightarrow>
    set (merge_ops k xs ps) = {x \<in> set xs. \<forall>p\<in>set ps. op_key p \<noteq> k x}
      \<union> {op_entry p |p. p \<in> set ps \<and> \<not> op_remove p}"
proof (induction k xs ps rule: merge_ops.induct)
  case (2 k p ps)
  then show ?case by (auto simp: merge_no_items)
next
  case (4 k x xs p ps)
  have ops: "ops_ok k ps" and xs: "sorted_keys k xs" "\<forall>y\<in>set xs. k x < k y"
    using "4.prems" by (auto simp: ops_ok_Cons)
  consider "k x < op_key p" | "op_key p < k x" | "k x = op_key p" by (rule linorder_cases)
  then show ?case
  proof cases
    case 1
    with 4 have "\<forall>q\<in>set (p # ps). op_key q \<noteq> k x" by (auto simp: ops_ok_Cons)
    with 4 1 xs show ?thesis by auto
  next
    case 2
    have m: "merge_ops k (x # xs) (p # ps)
        = (if op_remove p then [] else [op_entry p]) @ merge_ops k (x # xs) ps"
      using 2 by (simp add: less_not_sym)
    have ih: "set (merge_ops k (x # xs) ps) = {y \<in> set (x # xs). \<forall>q\<in>set ps. op_key q \<noteq> k y}
        \<union> {op_entry q |q. q \<in> set ps \<and> \<not> op_remove q}"
      using 4 2 ops by (cases "op_remove p") (simp_all add: less_not_sym)
    have "\<forall>y\<in>set (x # xs). op_key p \<noteq> k y" using 2 xs by (auto dest: less_trans)
    with ih show ?thesis unfolding m by auto
  next
    case 3
    have m: "merge_ops k (x # xs) (p # ps)
        = (if op_remove p then [] else [op_entry p]) @ merge_ops k xs ps"
      using 3 by simp
    have ih: "set (merge_ops k xs ps) = {y \<in> set xs. \<forall>q\<in>set ps. op_key q \<noteq> k y}
        \<union> {op_entry q |q. q \<in> set ps \<and> \<not> op_remove q}"
      using 4 3 ops xs by (cases "op_remove p") simp_all
    have "\<forall>y\<in>set xs. op_key p \<noteq> k y" using 3 xs by auto
    with ih 3 show ?thesis unfolding m by auto
  qed
qed auto

section \<open>Fences\<close>

definition in_range :: "'k option \<Rightarrow> 'k option \<Rightarrow> 'k::linorder \<Rightarrow> bool" where
  "in_range lo hi x \<longleftrightarrow> (\<forall>b. lo = Some b \<longrightarrow> b \<le> x) \<and> (\<forall>b. hi = Some b \<longrightarrow> x < b)"

definition bounds_le :: "'k option \<Rightarrow> 'k::linorder option \<Rightarrow> bool" where
  "bounds_le lo hi \<longleftrightarrow> (\<forall>a b. lo = Some a \<longrightarrow> hi = Some b \<longrightarrow> a \<le> b)"

fun fenced :: "('k option \<Rightarrow> 'k option \<Rightarrow> 'c \<Rightarrow> bool) \<Rightarrow> 'k option \<Rightarrow> 'c list \<Rightarrow> ('k::linorder) list
    \<Rightarrow> 'k option \<Rightarrow> bool" where
  "fenced P lo [c] [] hi = (bounds_le lo hi \<and> P lo hi c)"
| "fenced P lo (c # d # cs) (s # ss) hi =
     (bounds_le lo (Some s) \<and> P lo (Some s) c \<and> fenced P (Some s) (d # cs) ss hi)"
| "fenced P lo _ _ hi = False"

lemma fenced_cong [fundef_cong]:
  assumes "cs = cs'" "ss = ss'" "lo = lo'" "hi = hi'"
    and "\<And>c lo hi. c \<in> set cs' \<Longrightarrow> P lo hi c = Q lo hi c"
  shows "fenced P lo cs ss hi = fenced Q lo' cs' ss' hi'"
  unfolding assms(1-4)
  using assms(5) by (induction Q lo' cs' ss' hi' rule: fenced.induct) auto

lemma fenced_Cons:
  "fenced P lo (c # cs) (s # ss) hi \<longleftrightarrow>
    bounds_le lo (Some s) \<and> P lo (Some s) c \<and> fenced P (Some s) cs ss hi"
  by (cases cs) (cases ss; simp)+

lemma fenced_single: "fenced P lo [c] ss hi \<longleftrightarrow> ss = [] \<and> bounds_le lo hi \<and> P lo hi c"
  by (cases ss) auto

lemma fenced_length: "fenced P lo cs ss hi \<Longrightarrow> length cs = Suc (length ss)"
  by (induction P lo cs ss hi rule: fenced.induct) auto

lemma fenced_append:
  assumes "length cs = Suc (length ss)"
  shows "fenced P lo (cs @ ds) (ss @ s # ts) hi \<longleftrightarrow>
    fenced P lo cs ss (Some s) \<and> fenced P (Some s) ds ts hi"
  using assms
proof (induction ss arbitrary: lo cs)
  case Nil
  then show ?case by (cases cs) (auto simp: fenced_Cons)
next
  case (Cons u us)
  then obtain c cs' where cs: "cs = c # cs'" "length cs' = Suc (length us)" by (cases cs) auto
  show ?case
    using Cons.IH [OF cs(2), of "Some u"] cs by (auto simp: fenced_Cons)
qed

lemma fenced_sorted_from:
  "fenced P lo cs ss hi \<Longrightarrow> sorted ss \<and> bounds_le lo hi
    \<and> (\<forall>s\<in>set ss. bounds_le lo (Some s) \<and> bounds_le (Some s) hi)"
proof (induction P lo cs ss hi rule: fenced.induct)
  case (2 P lo c d cs s ss hi)
  then show ?case
    by (auto simp: bounds_le_def intro: order_trans)
qed auto

lemma fenced_sorted: "fenced P lo cs ss hi \<Longrightarrow> sorted ss"
  by (simp add: fenced_sorted_from)

lemma fenced_imp:
  "\<lbrakk>fenced P lo cs ss hi; \<And>lo hi c. \<lbrakk>c \<in> set cs; P lo hi c\<rbrakk> \<Longrightarrow> Q lo hi c\<rbrakk> \<Longrightarrow> fenced Q lo cs ss hi"
  by (induction P lo cs ss hi rule: fenced.induct) auto

text \<open>The splice of a node: a run of children with the separators between them, at position
  \<open>length l\<close>, lies between two bounds, and any run between the same bounds may stand in its place.\<close>

definition lo_at :: "'k option \<Rightarrow> 'k list \<Rightarrow> 'k option" where
  "lo_at lo ls = (if ls = [] then lo else Some (last ls))"

definition hi_at :: "'k option \<Rightarrow> 'k list \<Rightarrow> 'k option" where
  "hi_at hi rs = (case rs of [] \<Rightarrow> hi | r # rs' \<Rightarrow> Some r)"

lemma fenced_prefix:
  assumes "length l = length ls"
  shows "fenced P lo (l @ cs) (ls @ ss) hi \<longleftrightarrow>
    fenced P (lo_at lo ls) cs ss hi \<and> (l = [] \<or> fenced P lo l (butlast ls) (Some (last ls)))"
proof (cases ls rule: rev_cases)
  case (snoc us s)
  then have "length l = Suc (length us)" using assms by simp
  from fenced_append [OF this, of P lo cs s ss hi] snoc assms show ?thesis
    by (auto simp: lo_at_def)
qed (use assms in \<open>auto simp: lo_at_def\<close>)

lemma fenced_suffix:
  assumes "length r = length rs" and "length cs = Suc (length ss)"
  shows "fenced P lo (cs @ r) (ss @ rs) hi \<longleftrightarrow>
    fenced P lo cs ss (hi_at hi rs) \<and> (rs = [] \<or> fenced P (Some (hd rs)) r (tl rs) hi)"
proof (cases rs)
  case (Cons s ts)
  with fenced_append [OF assms(2), of P lo r s ts hi] show ?thesis by (auto simp: hi_at_def)
qed (use assms in \<open>auto simp: hi_at_def\<close>)

lemma fenced_middle:
  assumes "length l = length ls" "length r = length rs"
    and "fenced P lo (l @ cs @ r) (ls @ ss @ rs) hi"
  shows "fenced P (lo_at lo ls) cs ss (hi_at hi rs)"
proof -
  from fenced_length [OF assms(3)] have "length cs = Suc (length ss)" using assms(1,2) by simp
  with assms show ?thesis by (simp add: fenced_prefix fenced_suffix)
qed

lemma fenced_replace:
  assumes "fenced P lo (l @ cs @ r) (ls @ ss @ rs) hi"
    and "length l = length ls" "length r = length rs"
    and "fenced P (lo_at lo ls) cs' ss' (hi_at hi rs)"
  shows "fenced P lo (l @ cs' @ r) (ls @ ss' @ rs) hi"
proof -
  from fenced_length [OF assms(1)] have "length cs = Suc (length ss)" using assms(2,3) by simp
  with assms fenced_length [OF assms(4)] show ?thesis
    by (simp add: fenced_prefix fenced_suffix)
qed

section \<open>Ordered trees\<close>

definition leaf_in :: "('k::linorder, 'e, 'l, 'a) tree_ops \<Rightarrow> 'k option \<Rightarrow> 'k option \<Rightarrow> 'l \<Rightarrow> bool" where
  "leaf_in T lo hi l \<longleftrightarrow> sorted_keys (to_key T) (to_items T l)
    \<and> (\<forall>x\<in>set (to_items T l). in_range lo hi (to_key T x))"

fun ordered :: "('k::linorder, 'e, 'l, 'a) tree_ops \<Rightarrow> 'k option \<Rightarrow> 'k option \<Rightarrow> ('k, 'l, 'a) ftree \<Rightarrow> bool"
where
  "ordered T lo hi (Leaf_node seps aggs kids) = fenced (leaf_in T) lo kids seps hi"
| "ordered T lo hi (Inner_node seps aggs kids) = fenced (ordered T) lo kids seps hi"

fun even_depth :: "nat \<Rightarrow> ('k, 'l, 'a) ftree \<Rightarrow> bool" where
  "even_depth h (Leaf_node seps aggs kids) = (h = 0)"
| "even_depth h (Inner_node seps aggs kids) = (kids \<noteq> [] \<and> list_all (\<lambda>t. 0 < h \<and> even_depth (h - 1) t) kids)"

lemma in_range_le: "\<lbrakk>in_range lo hi x; bounds_le lo' lo; bounds_le hi hi'; lo = None \<longrightarrow> lo' = None;
    hi = None \<longrightarrow> hi' = None\<rbrakk> \<Longrightarrow> in_range lo' hi' x"
  by (cases lo; cases hi; cases lo'; cases hi') (auto simp: in_range_def bounds_le_def)

lemma keys_in_cat:
  assumes "fenced P lo cs ss hi" and "\<And>lo hi c x. \<lbrakk>c \<in> set cs; P lo hi c; x \<in> set (f c)\<rbrakk> \<Longrightarrow> in_range lo hi (k x)"
    and "x \<in> set (concat (map f cs))"
  shows "in_range lo hi (k x)"
  using assms
proof (induction P lo cs ss hi rule: fenced.induct)
  case (2 P lo c d cs s ss hi)
  have b: "bounds_le lo (Some s)" "bounds_le (Some s) hi" "P lo (Some s) c"
    "fenced P (Some s) (d # cs) ss hi"
    using "2.prems"(1) fenced_sorted_from [of P "Some s" "d # cs" ss hi] by auto
  show ?case
  proof (cases "x \<in> set (f c)")
    case True
    with "2.prems"(2) [of c] b have "in_range lo (Some s) (k x)" by simp
    with b show ?thesis by (auto simp: in_range_def bounds_le_def)
  next
    case False
    have "in_range (Some s) hi (k x)"
      by (rule "2.IH") (use b False "2.prems" in \<open>auto\<close>)
    with b show ?thesis by (auto simp: in_range_def bounds_le_def)
  qed
qed auto

lemma sorted_cat:
  assumes "fenced P lo cs ss hi" and "\<And>lo hi c x. \<lbrakk>c \<in> set cs; P lo hi c; x \<in> set (f c)\<rbrakk> \<Longrightarrow> in_range lo hi (k x)"
    and "\<And>lo hi c. \<lbrakk>c \<in> set cs; P lo hi c\<rbrakk> \<Longrightarrow> sorted_keys k (f c)"
  shows "sorted_keys k (concat (map f cs))"
  using assms
proof (induction P lo cs ss hi rule: fenced.induct)
  case (2 P lo c d cs s ss hi)
  have b: "P lo (Some s) c" "fenced P (Some s) (d # cs) ss hi" using "2.prems"(1) by auto
  have l: "in_range lo (Some s) (k x)" if "x \<in> set (f c)" for x using "2.prems"(2) [of c] b that by simp
  have r: "in_range (Some s) hi (k x)" if "x \<in> set (concat (map f (d # cs)))" for x
    by (rule keys_in_cat [OF b(2) _ that]) (use "2.prems"(2) in auto)
  have "sorted_keys k (concat (map f (d # cs)))"
    by (rule "2.IH") (use b "2.prems" in \<open>auto\<close>)
  moreover have "k x < k y" if "x \<in> set (f c)" "y \<in> set (concat (map f (d # cs)))" for x y
    using l [OF that(1)] r [OF that(2)] by (auto simp: in_range_def)
  ultimately show ?case using "2.prems"(3) [of c] b(1) by (auto simp: sorted_wrt_append)
qed auto

lemma ordered_flat:
  "ordered T lo hi t \<Longrightarrow> sorted_keys (to_key T) (flat T t) \<and> (\<forall>x\<in>set (flat T t). in_range lo hi (to_key T x))"
proof (induction T lo hi t rule: ordered.induct)
  case (1 T lo hi seps aggs kids)
  then have f: "fenced (leaf_in T) lo kids seps hi" by simp
  have "sorted_keys (to_key T) (concat (map (to_items T) kids))"
    by (rule sorted_cat [OF f]) (auto simp: leaf_in_def)
  moreover have "in_range lo hi (to_key T x)" if "x \<in> set (concat (map (to_items T) kids))" for x
    by (rule keys_in_cat [OF f _ that]) (auto simp: leaf_in_def)
  ultimately show ?case by simp
next
  case (2 T lo hi seps aggs kids)
  then have f: "fenced (ordered T) lo kids seps hi" by simp
  have "sorted_keys (to_key T) (concat (map (flat T) kids))"
    by (rule sorted_cat [OF f]) (use 2(1) in blast)+
  moreover have "in_range lo hi (to_key T x)" if "x \<in> set (concat (map (flat T) kids))" for x
    by (rule keys_in_cat [OF f _ that]) (use 2(1) in blast)
  ultimately show ?case by simp
qed

end
