(* ===== verification/Fence_Batch.thy ===== *)
theory Fence_Batch
  imports Fence_Laws
begin

text \<open>
  Batches. What every instance of the tree promises is the locale \<open>leaf_codec\<close>; inside it:
  rebalancing and splitting move no entry and keep the order, and a batch whose keys no fence
  of the tree separates is merged into the entries of the tree.
\<close>

section \<open>Splices\<close>

lemma take_drop_parts: "take i xs @ take n (drop i xs) @ drop (i + n) xs = xs"
  by (metis add.commute append_take_drop_id drop_drop)

lemma replace_at_split:
  assumes "fenced P lo kids seps hi" and "i + n \<le> length kids" and "0 < n"
  shows "fenced P lo (take i kids @ take n (drop i kids) @ drop (i + n) kids)
      (take i seps @ take (n - 1) (drop i seps) @ drop (i + (n - 1)) seps) hi"
    and "length (take i kids) = length (take i seps)"
    and "length (drop (i + n) kids) = length (drop (i + (n - 1)) seps)"
  unfolding take_drop_parts
  using fenced_length [OF assms(1)] assms by auto

lemma fenced_window:
  assumes "fenced P lo kids seps hi" and "i + n \<le> length kids" and "0 < n"
  shows "fenced P (lo_at lo (take i seps)) (take n (drop i kids)) (take (n - 1) (drop i seps))
    (hi_at hi (drop (i + (n - 1)) seps))"
  by (rule fenced_middle [OF replace_at_split(2,3,1) [OF assms]])

lemma fenced_replace_at:
  assumes "fenced P lo kids seps hi" and "i + n \<le> length kids" and "0 < n"
    and "fenced P (lo_at lo (take i seps)) cs ss (hi_at hi (drop (i + (n - 1)) seps))"
  shows "fenced P lo (replace_at i n cs kids) (replace_at i (n - 1) ss seps) hi"
  unfolding replace_at_def
  by (rule fenced_replace [OF replace_at_split [OF assms(1-3)] assms(4)])

lemma concat_replace_at:
  assumes "i + n \<le> length kids"
    and "concat (map f cs) = concat (map f (take n (drop i kids)))"
  shows "concat (map f (replace_at i n cs kids)) = concat (map f kids)"
proof -
  have "concat (map f kids) = concat (map f (take i kids)) @ concat (map f (take n (drop i kids)))
      @ concat (map f (drop (i + n) kids))"
    by (metis concat_append map_append take_drop_parts)
  then show ?thesis using assms(2) by (simp add: replace_at_def)
qed

lemma take_drop_nth: "i < length xs \<Longrightarrow> take (Suc 0) (drop i xs) = [xs ! i]"
  by (simp add: take_Suc_conv_app_nth Cons_nth_drop_Suc [symmetric])

lemma take_drop_nth2: "i + 1 < length xs \<Longrightarrow> take 2 (drop i xs) = [xs ! i, xs ! (i + 1)]"
  by (simp add: Cons_nth_drop_Suc [symmetric] numeral_2_eq_2)

lemma merge_child:
  assumes f: "fenced P lo kids seps hi" and i: "i < length kids"
    and P: "\<And>lo hi c x. \<lbrakk>P lo hi c; x \<in> set (f c)\<rbrakk> \<Longrightarrow> in_range lo hi (k x)"
    and ops: "\<And>p. p \<in> set ops \<Longrightarrow> in_range (lo_at lo (take i seps)) (hi_at hi (drop i seps)) (op_key p)"
    and that: "f c = merge_ops k (f (kids ! i)) ops"
  shows "merge_ops k (concat (map f kids)) ops
    = concat (map f (replace_at i 1 [c] kids))"
proof -
  have n: "i + 1 \<le> length kids" "(0::nat) < 1" using i by simp_all
  note sp = replace_at_split [OF f n]
  let ?l = "take i kids" and ?r = "drop (i + 1) kids" and ?ls = "take i seps" and ?rs = "drop i seps"
  have kids: "?l @ [kids ! i] @ ?r = kids" using i by (simp add: id_take_nth_drop [symmetric])
  have f': "fenced P lo (?l @ [kids ! i] @ ?r) (?ls @ [] @ ?rs) hi" using f kids by simp
  have len: "length ?l = length ?ls" "length ?r = length ?rs" using sp(2,3) by simp_all
  have left: "k x < op_key p" if x: "x \<in> set (concat (map f ?l))" and p: "p \<in> set ops" for x p
  proof -
    have "?l \<noteq> []" using x by (cases "?l") auto
    then have "?ls \<noteq> []" using len(1) by (metis length_0_conv)
    moreover have "fenced P lo ?l (butlast ?ls) (Some (last ?ls))"
      using f' x len(1) by (subst (asm) fenced_prefix [OF len(1)]) auto
    then have "in_range lo (Some (last ?ls)) (k x)"
      by (rule keys_in_cat [OF _ _ x]) (use P in blast)
    ultimately show ?thesis using ops [OF p] by (auto simp: in_range_def lo_at_def)
  qed
  have right: "op_key p < k x" if x: "x \<in> set (concat (map f ?r))" and p: "p \<in> set ops" for x p
  proof -
    have "?r \<noteq> []" using x by (cases "?r") auto
    then have ne: "?rs \<noteq> []" using len(2) by (metis length_0_conv)
    have "length (?l @ [kids ! i]) = Suc (length ?ls)" using len by simp
    from fenced_suffix [OF len(2) this, of P lo hi] f' ne
    have "fenced P (Some (hd ?rs)) ?r (tl ?rs) hi" by simp
    then have "in_range (Some (hd ?rs)) hi (k x)"
      by (rule keys_in_cat [OF _ _ x]) (use P in blast)
    then show ?thesis using ops [OF p] ne by (cases ?rs) (auto simp: in_range_def hi_at_def)
  qed
  have "concat (map f kids) = concat (map f ?l) @ f (kids ! i) @ concat (map f ?r)"
    using arg_cong [OF kids, of "\<lambda>cs. concat (map f cs)"] by simp
  then have "merge_ops k (concat (map f kids)) ops
      = concat (map f ?l) @ merge_ops k (f (kids ! i)) ops @ concat (map f ?r)"
    using merge_left [of "concat (map f ?l)" ops k "f (kids ! i) @ concat (map f ?r)"]
      merge_right [of "concat (map f ?r)" ops k "f (kids ! i)"] left right by metis
  then show ?thesis using that by (simp add: replace_at_def)
qed

lemma body_cases: obtains a b c d where "(x :: ('a \<times> 'b \<times> 'c) \<times> 'd) = ((a, b, c), d)"
  by (cases x) auto

section \<open>Leaves\<close>

locale leaf_codec =
  fixes T :: "('k::linorder, 'e, 'l, 'a) tree_ops"
  assumes items_leaf: "to_items T (to_leaf T xs) = xs"
begin

lemma leaf_in_cat:
  assumes "fenced (leaf_in T) lo cs ss hi"
  shows "leaf_in T lo hi (to_leaf T (concat (map (to_items T) cs)))"
  using sorted_cat [OF assms, of "to_items T" "to_key T"] keys_in_cat [OF assms, of "to_items T" "to_key T"]
  by (simp add: leaf_in_def items_leaf)

text \<open>A sorted run cut into non-empty leaves, each fence the key of the first entry to its right.\<close>

lemma fenced_cut:
  assumes "segs \<noteq> []" and "\<forall>seg\<in>set segs. seg \<noteq> []" and "bounds_le lo hi"
    and "leaf_in T lo hi (to_leaf T (concat segs))"
  shows "fenced (leaf_in T) lo (map (to_leaf T) segs) (map (\<lambda>seg. to_key T (hd seg)) (tl segs)) hi"
  using assms
proof (induction segs arbitrary: lo)
  case (Cons seg segs)
  show ?case
  proof (cases segs)
    case Nil
    with Cons.prems show ?thesis by simp
  next
    case segs': (Cons seg' more)
    let ?b = "to_key T (hd seg')"
    obtain x xs y ys where seg: "seg = x # xs" "seg' = y # ys"
      using Cons.prems(2) segs' by (cases seg; cases seg') auto
    from Cons.prems(4) have srt: "sorted_keys (to_key T) (seg @ concat segs)"
      and rng: "\<forall>z\<in>set (seg @ concat segs). in_range lo hi (to_key T z)"
      by (simp_all add: leaf_in_def items_leaf)
    have y: "y \<in> set (concat segs)" "?b = to_key T y" using seg segs' by simp_all
    have "leaf_in T lo (Some ?b) (to_leaf T seg)"
      using srt rng y by (auto simp: leaf_in_def items_leaf in_range_def sorted_wrt_append)
    moreover have "leaf_in T (Some ?b) hi (to_leaf T (concat segs))"
    proof -
      obtain r where "concat segs = y # r" using seg segs' by simp
      then have "\<forall>z\<in>set (concat segs). to_key T y \<le> to_key T z"
        using srt by (auto simp: sorted_wrt_append intro: less_imp_le)
      with srt rng y show ?thesis by (simp add: leaf_in_def items_leaf in_range_def sorted_wrt_append)
    qed
    moreover have "bounds_le lo (Some ?b)" "bounds_le (Some ?b) hi"
      using rng y by (auto simp: bounds_le_def in_range_def intro: less_imp_le)
    ultimately show ?thesis
      using Cons.IH [of "Some ?b"] Cons.prems(2) segs' by (auto simp: fenced_Cons)
  qed
qed simp

lemma fenced_two:
  assumes "bounds_le lo hi" and "leaf_in T lo hi (to_leaf T xs)" and "0 < m" "m < length xs"
  shows "fenced (leaf_in T) lo [to_leaf T (take m xs), to_leaf T (drop m xs)] [to_key T (xs ! m)] hi"
  using fenced_cut [of "[take m xs, drop m xs]" lo hi] assms
  by (cases "xs = []") (auto simp: hd_drop_conv_nth)

lemma rebalance_leaf_ok:
  assumes f: "fenced (leaf_in T) lo kids seps hi" and i: "i < length kids"
    and r: "rebalance_leaf T i (seps, aggs, kids) st = ((seps', aggs', kids'), st')"
  shows "fenced (leaf_in T) lo kids' seps' hi
    \<and> concat (map (to_items T) kids') = concat (map (to_items T) kids)"
proof (cases "length kids \<le> 1 \<or> leaf_min \<le> length (to_items T (kids ! i))")
  case True
  then show ?thesis using assms by (auto simp: rebalance_leaf_def)
next
  case False
  define left where "left = (if i + 1 < length kids then i else i - 1)"
  have l: "left + 2 \<le> length kids" using False i by (auto simp: left_def)
  define joined where "joined = to_items T (kids ! left) @ to_items T (kids ! (left + 1))"
  let ?lo = "lo_at lo (take left seps)" and ?hi = "hi_at hi (drop (left + 1) seps)"
  have w: "fenced (leaf_in T) ?lo [kids ! left, kids ! (left + 1)] (take 1 (drop left seps)) ?hi"
    using fenced_window [OF f l] l by (simp add: take_drop_nth2)
  have j: "leaf_in T ?lo ?hi (to_leaf T joined)"
    using leaf_in_cat [OF w] by (simp add: joined_def)
  have b: "bounds_le ?lo ?hi" using fenced_sorted_from [OF w] by simp
  have two: "concat (map (to_items T) (take 2 (drop left kids))) = joined"
    using l by (simp add: take_drop_nth2 joined_def)
  show ?thesis
  proof (cases "length joined \<le> leaf_max")
    case True
    then have eq: "seps' = replace_at left 1 [] seps" "kids' = replace_at left 2 [to_leaf T joined] kids"
      using r False by (auto simp: rebalance_leaf_def Let_def left_def joined_def split: if_splits)
    have "fenced (leaf_in T) ?lo [to_leaf T joined] [] ?hi" using j b by simp
    then show ?thesis
      using fenced_replace_at [OF f l] concat_replace_at [OF l, of "to_items T" "[to_leaf T joined]"] two
      by (simp add: eq items_leaf)
  next
    case big: False
    let ?m = "length joined div 2"
    from big have m: "0 < ?m" "?m < length joined" by (auto simp: leaf_max_def)
    have eq: "seps' = replace_at left 1 [to_key T (joined ! ?m)] seps"
      "kids' = replace_at left 2 [to_leaf T (take ?m joined), to_leaf T (drop ?m joined)] kids"
      using r False big by (auto simp: rebalance_leaf_def Let_def left_def joined_def split: if_splits)
    from fenced_two [OF b j m] show ?thesis
      using fenced_replace_at [OF f l] two
        concat_replace_at [OF l, of "to_items T" "[to_leaf T (take ?m joined), to_leaf T (drop ?m joined)]"]
      by (simp add: eq items_leaf)
  qed
qed


lemma pieces_concat: "0 < n \<Longrightarrow> concat (pieces n xs) = xs"
  by (induction n xs rule: pieces.induct) (subst pieces.simps, auto)

lemma pieces_nonempty: "\<forall>seg\<in>set (pieces n xs). seg \<noteq> []"
  by (induction n xs rule: pieces.induct) (subst pieces.simps, auto)

lemma pieces_some: "\<lbrakk>0 < n; xs \<noteq> []\<rbrakk> \<Longrightarrow> pieces n xs \<noteq> []"
  by (subst pieces.simps) simp

text \<open>A batch at one leaf.\<close>

lemma apply_to_leaf_ok:
  assumes f: "fenced (leaf_in T) lo kids seps hi" and i: "i < length kids"
    and ops: "ops_ok (to_key T) ops"
      "\<And>p. p \<in> set ops \<Longrightarrow> in_range (lo_at lo (take i seps)) (hi_at hi (drop i seps)) (op_key p)"
    and r: "apply_to_leaf T i ops (seps, aggs, kids) st = ((seps', aggs', kids'), st')"
  shows "fenced (leaf_in T) lo kids' seps' hi
    \<and> concat (map (to_items T) kids') = merge_ops (to_key T) (concat (map (to_items T) kids)) ops"
proof -
  define merged where "merged = merge_ops (to_key T) (to_items T (kids ! i)) ops"
  let ?lo = "lo_at lo (take i seps)" and ?hi = "hi_at hi (drop i seps)"
  have n: "i + 1 \<le> length kids" "(0::nat) < 1" using i by simp_all
  have "fenced (leaf_in T) ?lo [kids ! i] [] ?hi"
    using fenced_window [OF f n] i by (simp add: take_drop_nth)
  then have w: "leaf_in T ?lo ?hi (kids ! i)" "bounds_le ?lo ?hi" by simp_all
  have m: "leaf_in T ?lo ?hi (to_leaf T merged)"
    using w(1) ops merge_keys [of _ "to_key T" "to_items T (kids ! i)" ops]
      merge_sorted [of "to_key T" "to_items T (kids ! i)" ops]
    by (fastforce simp: leaf_in_def items_leaf merged_def ops_ok_def)
  have flat: "merge_ops (to_key T) (concat (map (to_items T) kids)) ops
      = concat (map (to_items T) (replace_at i 1 [to_leaf T merged] kids))"
    by (rule merge_child [OF f i _ ops(2)]) (simp_all add: leaf_in_def items_leaf merged_def)
  show ?thesis
  proof (cases "length merged \<le> leaf_max")
    case True
    let ?kids = "replace_at i 1 [to_leaf T merged] kids"
    have "fenced (leaf_in T) lo ?kids seps hi"
      using fenced_replace_at [OF f n, of "[to_leaf T merged]" "[]"] m w(2)
      by (simp add: replace_at_def)
    moreover have "i < length ?kids" using i by (simp add: replace_at_def)
    moreover have "rebalance_leaf T i (seps, replace_at i 1 [to_leaf_agg T (to_leaf T merged)] aggs, ?kids)
        (st\<lparr>st_entries_copied := st_entries_copied st + int (length (to_items T (kids ! i)) + length merged),
            st_entry_delta := st_entry_delta st + (int (length merged) - int (length (to_items T (kids ! i))))\<rparr>)
        = ((seps', aggs', kids'), st')"
      using r True by (simp add: apply_to_leaf_def Let_def merged_def)
    ultimately show ?thesis using rebalance_leaf_ok flat by metis
  next
    case False
    let ?segs = "pieces leaf_split merged"
    have seps': "seps' = replace_at i 0 (map (\<lambda>seg. to_key T (hd seg)) (tl ?segs)) seps"
      and kids': "kids' = replace_at i 1 (map (to_leaf T) ?segs) kids"
      using r False by (auto simp: apply_to_leaf_def Let_def merged_def)
    have c: "concat ?segs = merged" by (simp add: pieces_concat leaf_split_def)
    have "fenced (leaf_in T) ?lo (map (to_leaf T) ?segs) (map (\<lambda>seg. to_key T (hd seg)) (tl ?segs)) ?hi"
      by (rule fenced_cut)
        (use False m w(2) pieces_nonempty c in \<open>auto simp: pieces_some leaf_split_def\<close>)
    then show ?thesis
      using fenced_replace_at [OF f n] flat c
      by (simp add: seps' kids' replace_at_def items_leaf o_def)
  qed
qed

end

section \<open>Inner nodes\<close>

lemma fenced_halves:
  assumes "fenced P lo kids seps hi" and "0 < m" "m < length kids"
  shows "fenced P lo (take m kids) (take (m - 1) seps) (Some (seps ! (m - 1)))
    \<and> fenced P (Some (seps ! (m - 1))) (drop m kids) (drop m seps) hi"
proof -
  have len: "length kids = Suc (length seps)" by (rule fenced_length [OF assms(1)])
  have "take (m - 1) seps @ seps ! (m - 1) # drop m seps = seps"
    using len assms(2,3) id_take_nth_drop [of "m - 1" seps] by simp
  then have "fenced P lo (take m kids @ drop m kids) (take (m - 1) seps @ seps ! (m - 1) # drop m seps) hi"
    using assms(1) by simp
  then show ?thesis
    by (subst (asm) fenced_append) (use len assms in auto)
qed

lemma ordered_bounds: "ordered T lo hi t \<Longrightarrow> bounds_le lo hi"
  by (cases t) (auto dest: fenced_sorted_from)

lemma split_tree_ok:
  assumes "ordered T lo hi t" and "split_tree m t = (l, up, r)" and "0 < m" "m < child_count t"
  shows "ordered T lo (Some up) l \<and> ordered T (Some up) hi r \<and> flat T l @ flat T r = flat T t"
  using assms
  by (cases t) (auto dest: fenced_halves simp flip: concat_append map_append)

lemma join_trees_ok:
  assumes "ordered T lo (Some s) a" "ordered T (Some s) hi b" and "join_trees a s b = Some j"
  shows "ordered T lo hi j \<and> flat T j = flat T a @ flat T b"
  using assms by (cases a; cases b) (auto simp: fenced_append fenced_length)

lemma split_node_ok:
  assumes f: "fenced (ordered T) lo kids seps hi" and i: "i < length kids"
    and r: "split_node T i (seps, aggs, kids) st = ((seps', aggs', kids'), st')"
  shows "fenced (ordered T) lo kids' seps' hi \<and> concat (map (flat T) kids') = concat (map (flat T) kids)"
proof (cases "child_count (kids ! i) \<le> tree_fanout")
  case True
  then show ?thesis using assms by (auto simp: split_node_def)
next
  case False
  let ?m = "child_count (kids ! i) div 2" and ?lo = "lo_at lo (take i seps)" and ?hi = "hi_at hi (drop i seps)"
  obtain l up rt where sp: "split_tree ?m (kids ! i) = (l, up, rt)" by (rule prod_cases3)
  from False have m: "0 < ?m" "?m < child_count (kids ! i)" by (auto simp: tree_fanout_def)
  have n: "i + 1 \<le> length kids" "(0::nat) < 1" using i by simp_all
  have "ordered T ?lo ?hi (kids ! i)" using fenced_window [OF f n] i by (simp add: take_drop_nth)
  from split_tree_ok [OF this sp m]
  have o: "ordered T ?lo (Some up) l" "ordered T (Some up) ?hi rt" "flat T l @ flat T rt = flat T (kids ! i)"
    by simp_all
  have eq: "seps' = replace_at i 0 [up] seps" "kids' = replace_at i 1 [l, rt] kids"
    using r False sp by (auto simp: split_node_def Let_def)
  have "fenced (ordered T) ?lo [l, rt] [up] ?hi"
    using o ordered_bounds [OF o(1)] ordered_bounds [OF o(2)] by simp
  then show ?thesis
    using fenced_replace_at [OF f n] concat_replace_at [OF n(1), of "flat T" "[l, rt]"] o(3) i
    by (simp add: eq take_drop_nth)
qed

lemma rebalance_node_ok:
  assumes f: "fenced (ordered T) lo kids seps hi" and i: "i < length kids"
    and r: "rebalance_node T i (seps, aggs, kids) st = ((seps', aggs', kids'), st')"
  shows "fenced (ordered T) lo kids' seps' hi \<and> concat (map (flat T) kids') = concat (map (flat T) kids)"
proof -
  define left where "left = (if i + 1 < length kids then i else i - 1)"
  consider (same) "length kids \<le> 1" | (split) "1 < length kids" "tree_node_min \<le> child_count (kids ! i)"
    | (join) "1 < length kids" "child_count (kids ! i) < tree_node_min"
    by linarith
  then show ?thesis
  proof cases
    case same
    then show ?thesis using assms by (auto simp: rebalance_node_def)
  next
    case split
    then have "split_node T i (seps, aggs, kids) st = ((seps', aggs', kids'), st')"
      using r by (simp add: rebalance_node_def)
    then show ?thesis by (rule split_node_ok [OF f i])
  next
    case join
    then have l: "left + 2 \<le> length kids" using i by (auto simp: left_def)
    show ?thesis
    proof (cases "join_trees (kids ! left) (seps ! left) (kids ! (left + 1))")
      case None
      then show ?thesis using join r f by (auto simp: rebalance_node_def Let_def left_def)
    next
      case (Some j)
      let ?lo = "lo_at lo (take left seps)" and ?hi = "hi_at hi (drop (left + 1) seps)"
      let ?kids = "replace_at left 2 [j] kids" and ?seps = "replace_at left 1 [] seps"
      have "left < length seps" using fenced_length [OF f] l by simp
      then have "fenced (ordered T) ?lo [kids ! left, kids ! (left + 1)] [seps ! left] ?hi"
        using fenced_window [OF f l] l by (simp add: take_drop_nth2 take_drop_nth)
      then have w: "ordered T ?lo (Some (seps ! left)) (kids ! left)"
        "ordered T (Some (seps ! left)) ?hi (kids ! (left + 1))" by simp_all
      from join_trees_ok [OF w Some] have j: "ordered T ?lo ?hi j"
        "flat T j = flat T (kids ! left) @ flat T (kids ! (left + 1))" by simp_all
      then have k: "fenced (ordered T) lo ?kids ?seps hi"
        "concat (map (flat T) ?kids) = concat (map (flat T) kids)"
        using fenced_replace_at [OF f l, of "[j]" "[]"] ordered_bounds [OF j(1)] l
          concat_replace_at [OF l, of "flat T" "[j]"]
        by (simp_all add: take_drop_nth2)
      have len: "left < length ?kids" using l by (simp add: replace_at_def)
      have "\<exists>aggs2 st2. split_node T left (?seps, aggs2, ?kids) st2 = ((seps', aggs', kids'), st')"
        using r join Some by (auto simp: rebalance_node_def Let_def left_def split: if_splits)
      then show ?thesis using split_node_ok [OF k(1) len] k(2) by metis
    qed
  qed
qed

section \<open>A batch that no fence separates\<close>

fun tree_fences :: "('k, 'l, 'a) ftree \<Rightarrow> 'k list" where
  "tree_fences (Leaf_node seps aggs kids) = seps"
| "tree_fences (Inner_node seps aggs kids) = seps @ concat (map tree_fences kids)"

definition unsplit :: "('k::linorder) list \<Rightarrow> ('k, 'e) tree_op list \<Rightarrow> bool" where
  "unsplit fences ops \<longleftrightarrow>
    list_all (\<lambda>s. list_all (\<lambda>p. op_key p < s) ops \<or> list_all (\<lambda>p. s \<le> op_key p) ops) fences"

lemma unsplit_append: "unsplit (xs @ ys) ops \<longleftrightarrow> unsplit xs ops \<and> unsplit ys ops"
  by (auto simp: unsplit_def)

lemma unsplit_index:
  assumes "sorted seps" "unsplit seps ops" "p \<in> set ops" "q \<in> set ops"
  shows "child_index seps (op_key q) = child_index seps (op_key p)"
proof -
  have "child_index seps (op_key a) \<le> child_index seps (op_key b)"
    if ab: "a \<in> set ops" "b \<in> set ops" for a b
  proof (rule ccontr)
    let ?i = "child_index seps (op_key b)"
    assume "\<not> ?thesis"
    then have i: "?i < child_index seps (op_key a)" by simp
    then have "?i < length seps" using child_index_bounds(1) [OF assms(1), of "op_key a"] by simp
    moreover from this have "op_key b < seps ! ?i" by (intro child_index_bounds(3) [OF assms(1)]) simp_all
    moreover have "seps ! ?i \<le> op_key a" by (rule child_index_bounds(2) [OF assms(1) i])
    ultimately show False using assms(2) ab unfolding unsplit_def list_all_iff
      by (metis nth_mem not_less)
  qed
  with assms show ?thesis by (simp add: antisym)
qed

lemma op_chunks_unsplit:
  assumes "sorted seps" "unsplit seps ops" "ops \<noteq> []"
  shows "op_chunks seps ops = [(child_index seps (op_key (hd ops)), ops)]"
proof (cases ops)
  case (Cons p ps)
  have "\<forall>q\<in>set ps. child_index seps (op_key q) = child_index seps (op_key p)"
    using unsplit_index [OF assms(1,2)] Cons by simp
  then have "takeWhile (\<lambda>q. child_index seps (op_key q) = child_index seps (op_key p)) ps = ps"
    and d: "dropWhile (\<lambda>q. child_index seps (op_key q) = child_index seps (op_key p)) ps = []"
    by (simp_all add: takeWhile_eq_all_conv dropWhile_eq_Nil_conv)
  then show ?thesis using Cons by (simp add: Let_def d del: dropWhile_eq_Nil_conv)
qed (use assms in simp)

lemma unsplit_window:
  assumes f: "fenced P lo kids seps hi" and u: "unsplit seps ops" and p: "p \<in> set ops" "p' \<in> set ops"
    and rng: "in_range lo hi (op_key p')" and i: "i = child_index seps (op_key p)"
  shows "i < length kids" and "in_range (lo_at lo (take i seps)) (hi_at hi (drop i seps)) (op_key p')"
proof -
  have srt: "sorted seps" by (rule fenced_sorted [OF f])
  have i': "i = child_index seps (op_key p')" using unsplit_index [OF srt u] p i by metis
  note b = child_index_bounds(1) [OF srt, of "op_key p'"] child_index_bounds(2) [OF srt, of _ "op_key p'"]
    child_index_bounds(3) [OF srt, of "op_key p'"]
  show "i < length kids" using b(1) fenced_length [OF f] i' by simp
  have "last (take i seps) \<le> op_key p'" if "take i seps \<noteq> []"
  proof -
    from that have "0 < i" "seps \<noteq> []" by auto
    then show ?thesis using b(1) b(2) [of "i - 1"] i' by (simp add: last_conv_nth)
  qed
  moreover have "op_key p' < hd (drop i seps)" if "drop i seps \<noteq> []"
    using that b(3) [of i] i' by (simp add: hd_drop_conv_nth)
  ultimately show "in_range (lo_at lo (take i seps)) (hi_at hi (drop i seps)) (op_key p')"
    using rng by (cases "drop i seps"; cases "i = 0") (auto simp: in_range_def lo_at_def hi_at_def split: if_splits)
qed

context leaf_codec
begin

text \<open>\<open>postApply\<close> and \<open>rowApply\<close> on such a batch: the entries are merged, the order is kept.\<close>

lemma apply_leaf_node_ok:
  assumes f: "fenced (leaf_in T) lo kids seps hi" and ops: "ops \<noteq> []" "ops_ok (to_key T) ops"
    and u: "unsplit seps ops" and rng: "\<And>p. p \<in> set ops \<Longrightarrow> in_range lo hi (op_key p)"
    and r: "apply_node T h (Leaf_node seps aggs kids) ops st = (t', st')"
  shows "ordered T lo hi t' \<and> flat T t' = merge_ops (to_key T) (concat (map (to_items T) kids)) ops"
proof -
  let ?i = "child_index seps (op_key (hd ops))"
  have p: "hd ops \<in> set ops" using ops by simp
  have i: "?i < length kids" by (rule unsplit_window(1) [OF f u p p rng [OF p] refl])
  have win: "in_range (lo_at lo (take ?i seps)) (hi_at hi (drop ?i seps)) (op_key q)" if "q \<in> set ops" for q
    by (rule unsplit_window(2) [OF f u p that rng [OF that] refl])
  obtain seps' aggs' kids' st2 where
    a: "apply_to_leaf T ?i ops (seps, aggs, kids) (st\<lparr>st_nodes_copied := st_nodes_copied st + 1\<rparr>)
      = ((seps', aggs', kids'), st2)"
    by (rule body_cases)
  have "t' = Leaf_node seps' aggs' kids'"
    using r a op_chunks_unsplit [OF fenced_sorted [OF f] u ops(1)] by (simp add: leaf_step_def Let_def)
  then show ?thesis using apply_to_leaf_ok [OF f i ops(2) win a] by simp
qed

lemma apply_node_ok:
  assumes "ordered T lo hi t" "tree_height t \<le> h" "ops \<noteq> []" "ops_ok (to_key T) ops"
    "unsplit (tree_fences t) ops" "\<And>p. p \<in> set ops \<Longrightarrow> in_range lo hi (op_key p)"
    "apply_node T h t ops st = (t', st')"
  shows "ordered T lo hi t' \<and> flat T t' = merge_ops (to_key T) (flat T t) ops"
  using assms
proof (induction h arbitrary: lo hi t st t' st')
  case 0
  then obtain seps aggs kids where t: "t = Leaf_node seps aggs kids" by (cases t) auto
  with 0 apply_leaf_node_ok [of lo kids seps hi ops 0 aggs st t' st'] show ?case by simp
next
  case (Suc h)
  show ?case
  proof (cases t)
    case (Leaf_node seps aggs kids)
    with Suc.prems apply_leaf_node_ok [of lo kids seps hi ops "Suc h" aggs st t' st'] show ?thesis by simp
  next
    case (Inner_node seps aggs kids)
    let ?i = "child_index seps (op_key (hd ops))"
    have f: "fenced (ordered T) lo kids seps hi" using Suc.prems(1) Inner_node by simp
    have u: "unsplit seps ops" "\<And>c. c \<in> set kids \<Longrightarrow> unsplit (tree_fences c) ops"
      using Suc.prems(5) Inner_node by (auto simp: unsplit_def list_all_iff)
    have p: "hd ops \<in> set ops" using Suc.prems(3) by simp
    have i: "?i < length kids" by (rule unsplit_window(1) [OF f u(1) p p Suc.prems(6) [OF p] refl])
    let ?lo = "lo_at lo (take ?i seps)" and ?hi = "hi_at hi (drop ?i seps)"
    have win: "in_range ?lo ?hi (op_key q)" if "q \<in> set ops" for q
      by (rule unsplit_window(2) [OF f u(1) p that Suc.prems(6) [OF that] refl])
    have n: "?i + 1 \<le> length kids" "(0::nat) < 1" using i by simp_all
    have child: "ordered T ?lo ?hi (kids ! ?i)" using fenced_window [OF f n] i by (simp add: take_drop_nth)
    have "tree_height (kids ! ?i) \<le> h"
      using Suc.prems(2) Inner_node i
      by (auto simp: Max.set_eq_fold [symmetric] simp flip: fold_simps intro: order_trans [OF Max_ge])
    obtain c st2 where c: "apply_node T h (kids ! ?i) ops (st\<lparr>st_nodes_copied := st_nodes_copied st + 1\<rparr>) = (c, st2)"
      by (rule prod.exhaust)
    have co: "ordered T ?lo ?hi c" "flat T c = merge_ops (to_key T) (flat T (kids ! ?i)) ops"
      using Suc.IH [OF child \<open>tree_height (kids ! ?i) \<le> h\<close> Suc.prems(3,4) u(2) win c] i by simp_all
    let ?kids = "replace_at ?i 1 [c] kids" and ?aggs = "replace_at ?i 1 [node_agg T c] aggs"
    have k: "fenced (ordered T) lo ?kids seps hi"
      using fenced_replace_at [OF f n, of "[c]" "[]"] co(1) ordered_bounds [OF co(1)]
      by (simp add: replace_at_def)
    have len: "?i < length ?kids" using i by (simp add: replace_at_def)
    have flat: "merge_ops (to_key T) (concat (map (flat T) kids)) ops = concat (map (flat T) ?kids)"
      by (rule merge_child [OF f i _ win co(2)]) (use ordered_flat in blast)
    obtain seps' aggs' kids' st3 where
      rb: "rebalance_node T ?i (seps, ?aggs, ?kids) st2 = ((seps', aggs', kids'), st3)"
      by (rule body_cases)
    have "t' = Inner_node seps' aggs' kids'"
      using Suc.prems(7) rb c op_chunks_unsplit [OF fenced_sorted [OF f] u(1) Suc.prems(3)] Inner_node
      by (simp add: node_step_def Let_def)
    then show ?thesis using rebalance_node_ok [OF k len rb] flat Inner_node by simp
  qed
qed

end

lemma collapse_ok: "ordered T lo hi t \<Longrightarrow> ordered T lo hi (collapse t) \<and> flat T (collapse t) = flat T t"
  by (induction t rule: collapse.induct) (auto simp: fenced_single)

context leaf_codec
begin

lemma apply_tree_ok:
  assumes "ordered T None None t" "ops_ok (to_key T) ops" "unsplit (tree_fences t) ops"
    and "apply_tree T t ops st = (t', st')"
  shows "ordered T None None t' \<and> flat T t' = merge_ops (to_key T) (flat T t) ops"
proof (cases "ops = []")
  case False
  obtain n st2 where n: "apply_node T (tree_height t) t ops st = (n, st2)" by (rule prod.exhaust)
  with assms(4) False have "t' = collapse n" by (simp add: apply_tree_def)
  moreover have "ordered T None None n \<and> flat T n = merge_ops (to_key T) (flat T t) ops"
    by (rule apply_node_ok [OF assms(1) _ False assms(2,3) _ n]) (simp_all add: in_range_def)
  ultimately show ?thesis using collapse_ok by metis
qed (use assms in \<open>simp add: apply_tree_def\<close>)

end

end
