(* ===== verification/Fence_Shape.thy ===== *)
theory Fence_Shape
  imports Fence_Batch
begin

text \<open>
  What a batch keeps whatever its keys are: the shape (one separator less than children, leaves
  at one depth), the aggregates, and the exactness of the counters \<open>entryDelta\<close> (\<open>rowDelta\<close>)
  and \<open>leafDelta\<close>.
\<close>

section \<open>Shape and aggregates\<close>

definition body_ok :: "('c \<Rightarrow> 'a) \<Rightarrow> ('c \<Rightarrow> bool) \<Rightarrow> ('k, 'a, 'c) body \<Rightarrow> bool" where
  "body_ok agg Q b \<longleftrightarrow> length (snd (snd b)) = Suc (length (fst b))
    \<and> fst (snd b) = map agg (snd (snd b)) \<and> list_all Q (snd (snd b))"

definition leaf_good :: "('k, 'e, 'l, 'a) tree_ops \<Rightarrow> 'l \<Rightarrow> bool" where
  "leaf_good T l \<longleftrightarrow> length (to_items T l) \<le> leaf_max \<and> l = to_leaf T (to_items T l)"

fun shaped :: "('k, 'e, 'l, 'a) tree_ops \<Rightarrow> nat \<Rightarrow> ('k, 'l, 'a) ftree \<Rightarrow> bool" where
  "shaped T h (Leaf_node seps aggs kids) =
     (h = 0 \<and> body_ok (to_leaf_agg T) (leaf_good T) (seps, aggs, kids))"
| "shaped T 0 (Inner_node seps aggs kids) = False"
| "shaped T (Suc h) (Inner_node seps aggs kids) = body_ok (node_agg T) (shaped T h) (seps, aggs, kids)"

fun sep_sorted :: "('k::linorder, 'l, 'a) ftree \<Rightarrow> bool" where
  "sep_sorted (Leaf_node seps aggs kids) = sorted seps"
| "sep_sorted (Inner_node seps aggs kids) = (sorted seps \<and> list_all sep_sorted kids)"

fun leaf_count :: "('k, 'l, 'a) ftree \<Rightarrow> nat" where
  "leaf_count (Leaf_node seps aggs kids) = length kids"
| "leaf_count (Inner_node seps aggs kids) = sum_list (map leaf_count kids)"

definition counted :: "apply_stats \<Rightarrow> apply_stats \<Rightarrow> int \<Rightarrow> int \<Rightarrow> bool" where
  "counted st st' entries leaves \<longleftrightarrow> st_entry_delta st' = st_entry_delta st + entries
    \<and> st_leaf_delta st' = st_leaf_delta st + leaves"

lemma counted_trans:
  "\<lbrakk>counted st st1 a b; counted st1 st2 c d; a + c = e; b + d = f\<rbrakk> \<Longrightarrow> counted st st2 e f"
  by (auto simp: counted_def)

lemma sum_replace_at:
  fixes f :: "'c \<Rightarrow> nat"
  shows "sum_list (map f (replace_at i n cs kids)) + sum_list (map f (take n (drop i kids)))
    = sum_list (map f kids) + sum_list (map f cs)"
proof -
  have "sum_list (map f kids) = sum_list (map f (take i kids)) + sum_list (map f (take n (drop i kids)))
      + sum_list (map f (drop (i + n) kids))"
    by (metis add.assoc map_append sum_list_append take_drop_parts)
  then show ?thesis by (simp add: replace_at_def)
qed

lemma diff_replace_at:
  fixes f :: "'c \<Rightarrow> nat"
  shows "int (sum_list (map f (replace_at i n cs kids))) - int (sum_list (map f kids))
    = int (sum_list (map f cs)) - int (sum_list (map f (take n (drop i kids))))"
  using sum_replace_at [of f i n cs kids] by linarith

lemma body_replace:
  assumes "body_ok agg Q (seps, aggs, kids)" and "i + n \<le> length kids" and "0 < n"
    and "length cs = Suc (length ss)" and "list_all Q cs"
  shows "body_ok agg Q (replace_at i (n - 1) ss seps, replace_at i n (map agg cs) aggs, replace_at i n cs kids)"
  using assms by (auto simp: body_ok_def replace_at_def take_map drop_map list_all_iff dest: in_set_takeD in_set_dropD)

lemma length_replace_at: "i + n \<le> length xs \<Longrightarrow> length (replace_at i n ys xs) = length xs - n + length ys"
  by (simp add: replace_at_def)

lemma bisect_le: "lo \<le> hi \<Longrightarrow> lo \<le> bisect below lo hi \<and> bisect below lo hi \<le> hi"
proof (induction below lo hi rule: bisect.induct)
  case (1 below lo hi)
  let ?m = "(lo + hi) div 2"
  have eq: "bisect below lo hi = (if lo < hi then if below ?m then bisect below (?m + 1) hi
      else bisect below lo ?m else lo)"
    by (subst bisect.simps) (simp add: Let_def)
  have "lo \<le> ?m" "lo < hi \<Longrightarrow> ?m < hi" using 1(3) by auto
  with 1 show ?case unfolding eq by (auto simp: Suc_le_eq)
qed

lemma child_index_less: "length kids = Suc (length seps) \<Longrightarrow> child_index seps x < length kids"
  using bisect_le [of 0 "length seps"] by (simp add: child_index_def less_Suc_eq_le)

section \<open>The runs of a batch\<close>

definition chunks_ok :: "nat \<Rightarrow> (nat \<times> ('k, 'e) tree_op list) list \<Rightarrow> bool" where
  "chunks_ok n chs \<longleftrightarrow> sorted_wrt (<) (map fst chs) \<and> (\<forall>c\<in>set chs. fst c < n)"

lemma child_index_mono:
  assumes "sorted seps" "x \<le> y"
  shows "child_index seps x \<le> child_index seps y"
proof (rule ccontr)
  assume "\<not> ?thesis"
  then have i: "child_index seps y < child_index seps x" by simp
  with child_index_bounds(1) [OF assms(1), of x] have "y < seps ! child_index seps y"
    by (intro child_index_bounds(3) [OF assms(1)]) simp_all
  also have "\<dots> \<le> x" by (rule child_index_bounds(2) [OF assms(1) i])
  finally show False using assms(2) by simp
qed

lemma op_chunks_from:
  "\<lbrakk>sorted seps; sorted_wrt (<) (map op_key ops); ch \<in> set (op_chunks seps ops)\<rbrakk> \<Longrightarrow>
    \<exists>p\<in>set ops. fst ch = child_index seps (op_key p)"
proof (induction seps ops rule: op_chunks.induct)
  case (2 seps p ps)
  let ?P = "\<lambda>q. child_index seps (op_key q) = child_index seps (op_key p)"
  have srt: "sorted_wrt (<) (map op_key (dropWhile ?P ps))"
    using "2.prems"(2) by (auto simp: dropWhile_eq_drop drop_map [symmetric] intro: sorted_wrt_drop)
  from "2.prems"(3) consider "ch = (child_index seps (op_key p), p # takeWhile ?P ps)"
    | "ch \<in> set (op_chunks seps (dropWhile ?P ps))"
    by (auto simp: Let_def)
  then show ?case
  proof cases
    case 2
    with "2.IH" [OF refl refl refl "2.prems"(1) srt] show ?thesis by (auto dest: set_dropWhileD)
  qed auto
qed simp

lemma op_chunks_ok:
  "\<lbrakk>sorted seps; sorted_wrt (<) (map op_key ops); length kids = Suc (length seps)\<rbrakk> \<Longrightarrow>
    chunks_ok (length kids) (op_chunks seps ops)"
proof (induction seps ops rule: op_chunks.induct)
  case (2 seps p ps)
  let ?c = "child_index seps (op_key p)"
  let ?P = "\<lambda>q. child_index seps (op_key q) = ?c"
  let ?later = "dropWhile ?P ps"
  have srt: "sorted_wrt (<) (map op_key ?later)"
    using "2.prems"(2) by (auto simp: dropWhile_eq_drop drop_map [symmetric] intro: sorted_wrt_drop)
  have up: "?c < child_index seps (op_key q)" if q: "q \<in> set ?later" for q
  proof (cases ?later)
    case (Cons d ds)
    have "d \<in> set ps" using Cons by (metis list.set_intros(1) set_dropWhileD)
    then have "?c \<le> child_index seps (op_key d)"
      using "2.prems"(1,2) by (intro child_index_mono) (auto intro: less_imp_le)
    moreover have "child_index seps (op_key d) \<noteq> ?c" using Cons hd_dropWhile [of ?P ps] by auto
    moreover have "op_key d \<le> op_key q" using srt q Cons by (auto intro: less_imp_le)
    then have "child_index seps (op_key d) \<le> child_index seps (op_key q)"
      by (rule child_index_mono [OF "2.prems"(1)])
    ultimately show ?thesis by simp
  next
    case Nil
    with q show ?thesis by (metis empty_iff list.set(1))
  qed
  have "\<forall>ch\<in>set (op_chunks seps ?later). ?c < fst ch"
    using op_chunks_from [OF "2.prems"(1) srt] up by metis
  moreover have "chunks_ok (length kids) (op_chunks seps ?later)"
    using "2.IH" [OF refl refl refl "2.prems"(1) srt "2.prems"(3)] .
  ultimately show ?case
    using child_index_less [OF "2.prems"(3)] by (simp add: chunks_ok_def Let_def)
qed (simp add: chunks_ok_def)

text \<open>One step edits the node at its child and shortens it by at most one.\<close>

definition step_ok :: "('c \<Rightarrow> 'a) \<Rightarrow> ('c \<Rightarrow> bool) \<Rightarrow> ('c \<Rightarrow> nat) \<Rightarrow> ('c \<Rightarrow> nat)
    \<Rightarrow> ('k, 'a, 'c) body \<times> apply_stats \<Rightarrow> ('k, 'a, 'c) body \<times> apply_stats \<Rightarrow> bool" where
  "step_ok agg Q ent lv s s' \<longleftrightarrow> body_ok agg Q (fst s')
    \<and> length (snd (snd (fst s))) \<le> Suc (length (snd (snd (fst s'))))
    \<and> counted (snd s) (snd s')
       (int (sum_list (map ent (snd (snd (fst s'))))) - int (sum_list (map ent (snd (snd (fst s))))))
       (int (sum_list (map lv (snd (snd (fst s'))))) - int (sum_list (map lv (snd (snd (fst s))))))"

lemma fold_chunks_ok:
  assumes step: "\<And>ch s. \<lbrakk>body_ok agg Q (fst s); fst ch < length (snd (snd (fst s)))\<rbrakk> \<Longrightarrow>
      step_ok agg Q ent lv s (step ch s)"
    and "body_ok agg Q (fst s)" "chunks_ok (length (snd (snd (fst s)))) chs"
  shows "body_ok agg Q (fst (foldr step chs s))
    \<and> counted (snd s) (snd (foldr step chs s))
       (int (sum_list (map ent (snd (snd (fst (foldr step chs s)))))) - int (sum_list (map ent (snd (snd (fst s))))))
       (int (sum_list (map lv (snd (snd (fst (foldr step chs s)))))) - int (sum_list (map lv (snd (snd (fst s))))))
    \<and> (\<forall>c. (\<forall>ch\<in>set chs. c < fst ch) \<longrightarrow> c < length (snd (snd (fst s))) \<longrightarrow> c < length (snd (snd (fst (foldr step chs s)))))"
  using assms(3)
proof (induction chs)
  case Nil
  then show ?case using assms(2) by (simp add: counted_def)
next
  case (Cons ch chs)
  let ?s = "foldr step chs s"
  have ih: "body_ok agg Q (fst ?s)"
    "counted (snd s) (snd ?s) (int (sum_list (map ent (snd (snd (fst ?s))))) - int (sum_list (map ent (snd (snd (fst s))))))
       (int (sum_list (map lv (snd (snd (fst ?s))))) - int (sum_list (map lv (snd (snd (fst s))))))"
    "fst ch < length (snd (snd (fst ?s)))"
    using Cons by (auto simp: chunks_ok_def)
  from step [OF ih(1,3)] have st: "step_ok agg Q ent lv ?s (step ch ?s)" .
  then have "counted (snd ?s) (snd (step ch ?s))
       (int (sum_list (map ent (snd (snd (fst (step ch ?s)))))) - int (sum_list (map ent (snd (snd (fst ?s))))))
       (int (sum_list (map lv (snd (snd (fst (step ch ?s)))))) - int (sum_list (map lv (snd (snd (fst ?s))))))"
    by (simp add: step_ok_def)
  from counted_trans [OF ih(2) this refl refl] st ih(3) show ?case
    by (auto simp: step_ok_def)
qed

text \<open>A splice of a node as such a step.\<close>

lemma splice_step:
  assumes "body_ok agg Q (seps, aggs, kids)" and "i + n \<le> length kids" and "0 < n" "n \<le> 2"
    and "length cs = Suc (length ss)" and "list_all Q cs"
    and "counted st st' (int (sum_list (map ent cs)) - int (sum_list (map ent (take n (drop i kids)))))
       (int (sum_list (map lv cs)) - int (sum_list (map lv (take n (drop i kids)))))"
  shows "step_ok agg Q ent lv ((seps, aggs, kids), st)
    ((replace_at i (n - 1) ss seps, replace_at i n (map agg cs) aggs, replace_at i n cs kids), st')"
  using body_replace [OF assms(1-3,5,6)] assms(2,3,4,5,7)
  unfolding step_ok_def by (simp only: fst_conv snd_conv diff_replace_at) (simp add: length_replace_at)

lemma step_ok_refl: "body_ok agg Q (fst s) \<Longrightarrow> step_ok agg Q ent lv s s"
  by (simp add: step_ok_def counted_def)

lemma step_ok_trans:
  assumes "step_ok agg Q ent lv s s1" "step_ok agg Q ent lv s1 s2"
    and "length (snd (snd (fst s))) \<le> Suc (length (snd (snd (fst s2))))"
  shows "step_ok agg Q ent lv s s2"
  unfolding step_ok_def
  by (intro conjI assms(3) counted_trans [OF conjunct2 [OF conjunct2 [OF assms(1) [unfolded step_ok_def]]]
        conjunct2 [OF conjunct2 [OF assms(2) [unfolded step_ok_def]]]])
    (use assms(2) in \<open>simp_all add: step_ok_def\<close>)

section \<open>Leaves\<close>

lemma pieces_length: "seg \<in> set (pieces n xs) \<Longrightarrow> length seg \<le> n"
proof (induction n xs rule: pieces.induct)
  case (1 n xs)
  then show ?case by (subst (asm) (2) pieces.simps) (auto split: if_splits)
qed

context leaf_codec
begin

lemma rebalance_leaf_shape:
  assumes b: "body_ok (to_leaf_agg T) (leaf_good T) b" and i: "i < length (snd (snd b))"
  shows "step_ok (to_leaf_agg T) (leaf_good T) (length \<circ> to_items T) (\<lambda>_. 1) (b, st) (rebalance_leaf T i b st)"
proof -
  obtain seps aggs kids where b': "b = (seps, aggs, kids)" by (rule prod_cases3)
  define left where "left = (if i + 1 < length kids then i else i - 1)"
  define joined where "joined = to_items T (kids ! left) @ to_items T (kids ! (left + 1))"
  let ?m = "length joined div 2" and ?f = "to_leaf T joined"
  let ?two = "[to_leaf T (take ?m joined), to_leaf T (drop ?m joined)]"
  let ?fence = "to_key T (joined ! ?m)"
  define st1 where "st1 = st\<lparr>st_entries_copied := st_entries_copied st + int (length joined)\<rparr>"
  have eq: "rebalance_leaf T i b st =
      (if length kids \<le> 1 \<or> leaf_min \<le> length (to_items T (kids ! i)) then (b, st)
       else if length joined \<le> leaf_max then
         ((replace_at left (2 - 1) [] seps, replace_at left 2 (map (to_leaf_agg T) [?f]) aggs, replace_at left 2 [?f] kids),
          st1\<lparr>st_leaf_delta := st_leaf_delta st1 - 1\<rparr>)
       else
         ((replace_at left (2 - 1) [?fence] seps, replace_at left 2 (map (to_leaf_agg T) ?two) aggs,
           replace_at left 2 ?two kids),
          st1\<lparr>st_sep_bytes := st_sep_bytes st1 + to_fence_bytes T ?fence\<rparr>))"
    unfolding b' rebalance_leaf_def by (simp add: Let_def st1_def joined_def left_def)
  show ?thesis
  proof (cases "length kids \<le> 1 \<or> leaf_min \<le> length (to_items T (kids ! i))")
    case True
    with b show ?thesis unfolding eq by (simp add: step_ok_refl)
  next
    case False
    then have l: "left + 2 \<le> length kids" using i b' by (auto simp: left_def)
    then have two: "take 2 (drop left kids) = [kids ! left, kids ! (left + 1)]" by (simp add: take_drop_nth2)
    show ?thesis
    proof (cases "length joined \<le> leaf_max")
      case True
      show ?thesis
        unfolding eq if_not_P [OF False] if_P [OF True] unfolding b'
        by (rule splice_step [OF b [unfolded b'] l])
          (use True in \<open>simp_all add: two items_leaf joined_def counted_def st1_def leaf_good_def\<close>)
    next
      case big: False
      have "leaf_good T (kids ! left)" "leaf_good T (kids ! (left + 1))" "leaf_good T (kids ! i)"
        using b l i by (auto simp: body_ok_def b' list_all_iff)
      then have "length joined \<le> 2 * leaf_max" by (simp add: leaf_good_def joined_def)
      then have small: "?m \<le> leaf_max" "length joined - ?m \<le> leaf_max" by simp_all
      have "length (take ?m joined) + length (drop ?m joined) = length joined" by simp
      then show ?thesis
        unfolding eq if_not_P [OF False] if_not_P [OF big] unfolding b'
        by (intro splice_step [OF b [unfolded b'] l])
          (use small in \<open>simp_all add: two items_leaf counted_def st1_def leaf_good_def min_absorb2\<close>,
            simp add: joined_def)
    qed
  qed
qed

lemma leaf_step_shape:
  assumes b: "body_ok (to_leaf_agg T) (leaf_good T) (fst s)" and i: "fst ch < length (snd (snd (fst s)))"
  shows "step_ok (to_leaf_agg T) (leaf_good T) (length \<circ> to_items T) (\<lambda>_. 1) s (leaf_step T ch s)"
proof -
  obtain seps aggs kids st where s: "s = ((seps, aggs, kids), st)" by (rule body_cases)
  let ?i = "fst ch"
  define old where "old = to_items T (kids ! ?i)"
  define merged where "merged = merge_ops (to_key T) old (snd ch)"
  define segs where "segs = pieces leaf_split merged"
  let ?fences = "map (\<lambda>seg. to_key T (hd seg)) (tl segs)" and ?parts = "map (to_leaf T) segs"
  have n: "?i + 1 \<le> length kids" "(0::nat) < 1" "(1::nat) \<le> 2" using i s by simp_all
  have one: "take 1 (drop ?i kids) = [kids ! ?i]" using n by (simp add: take_drop_nth)
  define st1 where "st1 = st\<lparr>st_entries_copied := st_entries_copied st + int (length old + length merged),
      st_entry_delta := st_entry_delta st + (int (length merged) - int (length old))\<rparr>"
  let ?l = "to_leaf T merged"
  let ?b = "(replace_at ?i (1 - 1) [] seps, replace_at ?i 1 (map (to_leaf_agg T) [?l]) aggs, replace_at ?i 1 [?l] kids)"
  have eq: "leaf_step T ch s = (if length merged \<le> leaf_max then rebalance_leaf T ?i ?b st1
      else ((replace_at ?i (1 - 1) ?fences seps, replace_at ?i 1 (map (to_leaf_agg T) ?parts) aggs,
             replace_at ?i 1 ?parts kids),
        st1\<lparr>st_leaf_delta := st_leaf_delta st1 + (int (length ?parts) - 1),
            st_sep_bytes := st_sep_bytes st1 + sum_list (map (to_fence_bytes T) ?fences)\<rparr>))"
    unfolding s leaf_step_def apply_to_leaf_def
    by (simp add: Let_def st1_def merged_def old_def segs_def replace_at_def)
  show ?thesis
  proof (cases "length merged \<le> leaf_max")
    case True
    have a: "step_ok (to_leaf_agg T) (leaf_good T) (length \<circ> to_items T) (\<lambda>_. 1) s (?b, st1)"
      unfolding s
      by (rule splice_step [OF b [unfolded s fst_conv] n]) (use True in \<open>simp_all add: one items_leaf old_def counted_def st1_def
          leaf_good_def del: One_nat_def\<close>)
    then have "body_ok (to_leaf_agg T) (leaf_good T) ?b" by (simp add: step_ok_def)
    then have c: "step_ok (to_leaf_agg T) (leaf_good T) (length \<circ> to_items T) (\<lambda>_. 1) (?b, st1) (leaf_step T ch s)"
      unfolding eq if_P [OF True]
      by (rule rebalance_leaf_shape) (use n in \<open>simp add: length_replace_at\<close>)
    have len: "length (snd (snd ?b)) = length (snd (snd (fst s)))" using n by (simp add: s length_replace_at)
    with c have "length (snd (snd (fst s))) \<le> Suc (length (snd (snd (fst (leaf_step T ch s)))))"
      by (simp add: step_ok_def)
    then show ?thesis by (rule step_ok_trans [OF a c])
  next
    case False
    then have "merged \<noteq> []" by auto
    then have ne: "segs \<noteq> []" unfolding segs_def by (rule pieces_some [rotated]) (simp add: leaf_split_def)
    have "sum_list (map length segs) = length merged"
      unfolding segs_def by (metis length_concat pieces_concat leaf_split_def zero_less_numeral)
    then have "sum_list (map (length \<circ> to_items T) ?parts) = length merged" by (simp add: o_def items_leaf)
    moreover have "list_all (leaf_good T) ?parts"
      using pieces_length [of _ leaf_split merged]
      by (auto simp: list_all_iff leaf_good_def items_leaf segs_def leaf_split_def leaf_max_def
          intro: order_trans [of _ 192])
    ultimately show ?thesis
      unfolding eq if_not_P [OF False] unfolding s
      by (intro splice_step [OF b [unfolded s fst_conv] n])
        (use ne in \<open>simp_all add: one old_def counted_def st1_def sum_list_triv del: One_nat_def map_map list_all_length\<close>)
  qed
qed

end

section \<open>Inner nodes\<close>

abbreviation entries :: "('k, 'e, 'l, 'a) tree_ops \<Rightarrow> ('k, 'l, 'a) ftree \<Rightarrow> nat" where
  "entries T t \<equiv> length (flat T t)"

lemma entries_sum: "length (concat (map (flat T) kids)) = sum_list (map (entries T) kids)"
  by (simp add: length_concat o_def)

lemma body_ok_take_drop:
  assumes "body_ok agg Q (seps, aggs, kids)" and "0 < m" "m < length kids"
  shows "body_ok agg Q (take (m - 1) seps, take m aggs, take m kids)
    \<and> body_ok agg Q (drop m seps, drop m aggs, drop m kids)"
  using assms by (auto simp: body_ok_def take_map drop_map list_all_iff dest: in_set_takeD in_set_dropD)

lemma sum_take_drop:
  fixes f :: "'c \<Rightarrow> nat"
  shows "sum_list (map f (take m xs)) + sum_list (map f (drop m xs)) = sum_list (map f xs)"
  by (metis append_take_drop_id map_append sum_list_append)

lemma split_tree_shape:
  assumes "shaped T h t" and "split_tree m t = (l, up, r)" and "0 < m" "m < child_count t"
  shows "shaped T h l \<and> shaped T h r \<and> leaf_count l + leaf_count r = leaf_count t
    \<and> entries T l + entries T r = entries T t"
proof (cases t)
  case (Leaf_node seps aggs kids)
  have "length (concat (map (to_items T) (take m kids))) + length (concat (map (to_items T) (drop m kids)))
      = length (concat (map (to_items T) kids))"
    by (metis append_take_drop_id concat_append length_append map_append)
  then show ?thesis using assms Leaf_node body_ok_take_drop [of "to_leaf_agg T" "leaf_good T" seps aggs kids m] by auto
next
  case (Inner_node seps aggs kids)
  then obtain h' where h: "h = Suc h'" using assms(1) by (cases h) auto
  have "length (concat (map (flat T) (take m kids))) + length (concat (map (flat T) (drop m kids)))
      = length (concat (map (flat T) kids))"
    by (metis append_take_drop_id concat_append length_append map_append)
  then show ?thesis
    using assms Inner_node h body_ok_take_drop [of "node_agg T" "shaped T h'" seps aggs kids m]
      sum_take_drop [of leaf_count m kids] by auto
qed

lemma join_trees_shape:
  assumes "shaped T h a" "shaped T h b"
  shows "\<exists>j. join_trees a s b = Some j \<and> shaped T h j \<and> leaf_count j = leaf_count a + leaf_count b
    \<and> entries T j = entries T a + entries T b"
  using assms by (cases a; cases b; cases h) (auto simp: body_ok_def)

lemma split_node_shape:
  assumes b: "body_ok (node_agg T) (shaped T h) b" and i: "i < length (snd (snd b))"
  shows "step_ok (node_agg T) (shaped T h) (entries T) leaf_count (b, st) (split_node T i b st)
    \<and> length (snd (snd b)) \<le> length (snd (snd (fst (split_node T i b st))))"
proof -
  obtain seps aggs kids where b': "b = (seps, aggs, kids)" by (rule prod_cases3)
  define child where "child = kids ! i"
  obtain l up r where sp: "split_tree (child_count child div 2) child = (l, up, r)" by (rule prod_cases3)
  have eq: "split_node T i b st = (if child_count child \<le> tree_fanout then (b, st)
      else ((replace_at i (1 - 1) [up] seps, replace_at i 1 (map (node_agg T) [l, r]) aggs, replace_at i 1 [l, r] kids),
        st\<lparr>st_nodes_copied := st_nodes_copied st + 2\<rparr>))"
    unfolding b' split_node_def using sp by (simp add: Let_def child_def)
  show ?thesis
  proof (cases "child_count child \<le> tree_fanout")
    case True
    then show ?thesis using b by (simp add: eq step_ok_refl)
  next
    case False
    have n: "i + 1 \<le> length kids" "(0::nat) < 1" "(1::nat) \<le> 2" using i b' by simp_all
    have one: "take 1 (drop i kids) = [child]" using n by (simp add: take_drop_nth child_def)
    have "shaped T h child" using b b' i by (auto simp: body_ok_def child_def list_all_iff)
    moreover have h: "0 < child_count child div 2" "child_count child div 2 < child_count child"
      using False by (auto simp: tree_fanout_def)
    ultimately have sh: "shaped T h l" "shaped T h r" "leaf_count l + leaf_count r = leaf_count child"
      "entries T l + entries T r = entries T child"
      using split_tree_shape [of T h, OF _ sp h] by simp_all
    have "step_ok (node_agg T) (shaped T h) (entries T) leaf_count ((seps, aggs, kids), st)
       ((replace_at i (1 - 1) [up] seps, replace_at i 1 (map (node_agg T) [l, r]) aggs, replace_at i 1 [l, r] kids),
        st\<lparr>st_nodes_copied := st_nodes_copied st + 2\<rparr>)"
      by (rule splice_step [OF b [unfolded b'] n])
        (use sh in \<open>simp_all add: one counted_def del: One_nat_def\<close>)
    then show ?thesis
      unfolding eq if_not_P [OF False] unfolding b' using n by (simp add: length_replace_at)
  qed
qed

lemma rebalance_node_shape:
  assumes b: "body_ok (node_agg T) (shaped T h) b" and i: "i < length (snd (snd b))"
  shows "step_ok (node_agg T) (shaped T h) (entries T) leaf_count (b, st) (rebalance_node T i b st)"
proof -
  obtain seps aggs kids where b': "b = (seps, aggs, kids)" by (rule prod_cases3)
  define left where "left = (if i + 1 < length kids then i else i - 1)"
  define st1 where "st1 = st\<lparr>st_nodes_copied := st_nodes_copied st + 1\<rparr>"
  have eq: "rebalance_node T i b st = (if length kids \<le> 1 then (b, st)
      else if tree_node_min \<le> child_count (kids ! i) then split_node T i b st
      else case join_trees (kids ! left) (seps ! left) (kids ! (left + 1)) of
             None \<Rightarrow> (b, st)
           | Some j \<Rightarrow> split_node T left
               (replace_at left (2 - 1) [] seps, replace_at left 2 (map (node_agg T) [j]) aggs, replace_at left 2 [j] kids) st1)"
    unfolding b' rebalance_node_def by (simp add: Let_def left_def st1_def split: option.split)
  consider "length kids \<le> 1" | "\<not> length kids \<le> 1" "tree_node_min \<le> child_count (kids ! i)"
    | (join) "\<not> length kids \<le> 1" "\<not> tree_node_min \<le> child_count (kids ! i)" by blast
  then show ?thesis
  proof cases
    case 1
    then show ?thesis using b by (simp add: eq step_ok_refl)
  next
    case 2
    then show ?thesis using split_node_shape [OF b i] by (simp add: eq)
  next
    case join
    then have l: "left + 2 \<le> length kids" using i b' by (auto simp: left_def)
    then have two: "take 2 (drop left kids) = [kids ! left, kids ! (left + 1)]" by (simp add: take_drop_nth2)
    have "shaped T h (kids ! left)" "shaped T h (kids ! (left + 1))"
      using b b' l by (auto simp: body_ok_def list_all_iff)
    from join_trees_shape [OF this] obtain j where j:
      "join_trees (kids ! left) (seps ! left) (kids ! (left + 1)) = Some j" "shaped T h j"
      "leaf_count j = leaf_count (kids ! left) + leaf_count (kids ! (left + 1))"
      "entries T j = entries T (kids ! left) + entries T (kids ! (left + 1))" by blast
    let ?b = "(replace_at left (2 - 1) [] seps, replace_at left 2 (map (node_agg T) [j]) aggs, replace_at left 2 [j] kids)"
    have a: "step_ok (node_agg T) (shaped T h) (entries T) leaf_count (b, st) (?b, st1)"
      unfolding b'
      by (rule splice_step [OF b [unfolded b'] l])
        (use j in \<open>simp_all add: two counted_def st1_def del: One_nat_def\<close>)
    then have "body_ok (node_agg T) (shaped T h) ?b" by (simp add: step_ok_def)
    moreover have "left < length (snd (snd ?b))" "length kids \<le> Suc (length (snd (snd ?b)))"
      using l by (simp_all add: length_replace_at)
    ultimately have c: "step_ok (node_agg T) (shaped T h) (entries T) leaf_count (?b, st1) (split_node T left ?b st1)"
      "length kids \<le> Suc (length (snd (snd (fst (split_node T left ?b st1)))))"
      using split_node_shape [of T h ?b left st1] by (blast, meson le_trans Suc_le_mono)
    show ?thesis
      unfolding eq if_not_P [OF join(1)] if_not_P [OF join(2)] j(1) option.case
      by (rule step_ok_trans [OF a c(1)]) (use c(2) b' in simp)
  qed
qed

section \<open>A batch\<close>

lemma fold_max_const: "\<lbrakk>\<forall>c\<in>set kids. f c = (h::nat); kids \<noteq> []\<rbrakk> \<Longrightarrow> Max (insert 0 (f ` set kids)) = h"
  by (cases kids) (auto intro!: Max_eqI)

lemma collapse_shape:
  "shaped T h t \<Longrightarrow> (\<exists>h'. shaped T h' (collapse t)) \<and> entries T (collapse t) = entries T t
    \<and> leaf_count (collapse t) = leaf_count t"
proof (induction t arbitrary: h rule: collapse.induct)
  case (1 seps aggs t)
  then show ?case by (cases h) (auto simp: body_ok_def)
qed auto

lemma body_tree:
  "step_ok agg Q ent lv s s' \<Longrightarrow> body_ok agg Q (fst s') \<and> counted (snd s) (snd s')
     (int (sum_list (map ent (snd (snd (fst s'))))) - int (sum_list (map ent (snd (snd (fst s))))))
     (int (sum_list (map lv (snd (snd (fst s'))))) - int (sum_list (map lv (snd (snd (fst s))))))"
  by (simp add: step_ok_def)

context leaf_codec
begin

text \<open>Any sorted batch on a one-level tree, wherever its fences are.\<close>

lemma apply_leaf_node_shape:
  assumes "shaped T h (Leaf_node seps aggs kids)" "sorted seps" "sorted_wrt (<) (map op_key ops)"
    and "apply_node T h' (Leaf_node seps aggs kids) ops st = (t', st')"
  shows "shaped T 0 t' \<and> counted st st' (int (entries T t') - int (entries T (Leaf_node seps aggs kids)))
    (int (leaf_count t') - int (length kids))"
proof -
  let ?s = "((seps, aggs, kids), st\<lparr>st_nodes_copied := st_nodes_copied st + 1\<rparr>)"
  let ?r = "foldr (leaf_step T) (op_chunks seps ops) ?s"
  have b: "body_ok (to_leaf_agg T) (leaf_good T) (seps, aggs, kids)" using assms(1) by simp
  then have "length kids = Suc (length seps)" by (simp add: body_ok_def)
  from op_chunks_ok [OF assms(2,3) this]
  have "body_ok (to_leaf_agg T) (leaf_good T) (fst ?r) \<and> counted (snd ?s) (snd ?r)
      (int (sum_list (map (length \<circ> to_items T) (snd (snd (fst ?r))))) - int (sum_list (map (length \<circ> to_items T) kids)))
      (int (sum_list (map (\<lambda>_. 1) (snd (snd (fst ?r))))) - int (sum_list (map (\<lambda>_. 1) kids)))"
    using fold_chunks_ok [of "to_leaf_agg T" "leaf_good T" "length \<circ> to_items T" "\<lambda>_. 1" "leaf_step T" ?s]
      leaf_step_shape b by simp
  moreover have "t' = Leaf_node (fst (fst ?r)) (fst (snd (fst ?r))) (snd (snd (fst ?r)))" "st' = snd ?r"
    using assms(4) by (auto simp: Let_def)
  moreover have "counted (snd ?s) x a c \<longleftrightarrow> counted st x a c" for x a c by (simp add: counted_def)
  ultimately show ?thesis
    by (cases "fst ?r") (simp add: length_concat o_def sum_list_triv)
qed

text \<open>A batch that no fence separates, at any height.\<close>

lemma apply_node_shape:
  assumes "shaped T h t" "ordered T lo hi t" "ops \<noteq> []" "ops_ok (to_key T) ops"
    "unsplit (tree_fences t) ops" "\<And>p. p \<in> set ops \<Longrightarrow> in_range lo hi (op_key p)"
    "apply_node T h t ops st = (t', st')"
  shows "shaped T h t' \<and> counted st st' (int (entries T t') - int (entries T t)) (int (leaf_count t') - int (leaf_count t))"
  using assms
proof (induction h arbitrary: lo hi t st t' st')
  case 0
  then obtain seps aggs kids where t: "t = Leaf_node seps aggs kids" by (cases t) auto
  have "sorted seps" using fenced_sorted "0.prems"(2) t by auto
  with apply_leaf_node_shape [of 0 seps aggs kids ops 0 st t' st'] "0.prems" t show ?case
    by (simp add: ops_ok_def)
next
  case (Suc h)
  then obtain seps aggs kids where t: "t = Inner_node seps aggs kids" by (cases t) auto
  let ?i = "child_index seps (op_key (hd ops))"
  have f: "fenced (ordered T) lo kids seps hi" using Suc.prems(2) t by simp
  have b: "body_ok (node_agg T) (shaped T h) (seps, aggs, kids)" using Suc.prems(1) t by simp
  have u: "unsplit seps ops" "\<And>c. c \<in> set kids \<Longrightarrow> unsplit (tree_fences c) ops"
    using Suc.prems(5) t by (auto simp: unsplit_def list_all_iff)
  have p: "hd ops \<in> set ops" using Suc.prems(3) by simp
  have i: "?i < length kids" by (rule unsplit_window(1) [OF f u(1) p p Suc.prems(6) [OF p] refl])
  let ?lo = "lo_at lo (take ?i seps)" and ?hi = "hi_at hi (drop ?i seps)"
  have win: "in_range ?lo ?hi (op_key q)" if "q \<in> set ops" for q
    by (rule unsplit_window(2) [OF f u(1) p that Suc.prems(6) [OF that] refl])
  have n: "?i + 1 \<le> length kids" "(0::nat) < 1" "(1::nat) \<le> 2" using i by simp_all
  have child: "ordered T ?lo ?hi (kids ! ?i)" using fenced_window [OF f n(1,2)] i by (simp add: take_drop_nth)
  have sh: "shaped T h (kids ! ?i)" using b i by (auto simp: body_ok_def list_all_iff)
  obtain c st2 where c: "apply_node T h (kids ! ?i) ops (st\<lparr>st_nodes_copied := st_nodes_copied st + 1\<rparr>) = (c, st2)"
    by (rule prod.exhaust)
  have ih: "shaped T h c" "counted (st\<lparr>st_nodes_copied := st_nodes_copied st + 1\<rparr>) st2
      (int (entries T c) - int (entries T (kids ! ?i))) (int (leaf_count c) - int (leaf_count (kids ! ?i)))"
    using Suc.IH [OF sh child Suc.prems(3,4) u(2) win c] i by simp_all
  let ?b = "(replace_at ?i (1 - 1) [] seps, replace_at ?i 1 (map (node_agg T) [c]) aggs, replace_at ?i 1 [c] kids)"
  have one: "take 1 (drop ?i kids) = [kids ! ?i]" using n by (simp add: take_drop_nth)
  have a: "step_ok (node_agg T) (shaped T h) (entries T) leaf_count ((seps, aggs, kids), st) (?b, st2)"
    by (rule splice_step [OF b n]) (use ih in \<open>simp_all add: one counted_def del: One_nat_def\<close>)
  then have b2: "body_ok (node_agg T) (shaped T h) ?b" by (simp add: step_ok_def)
  have len: "length (snd (snd ?b)) = length kids" using n by (simp add: length_replace_at)
  then have a2: "step_ok (node_agg T) (shaped T h) (entries T) leaf_count (?b, st2) (rebalance_node T ?i ?b st2)"
    using i by (intro rebalance_node_shape b2) simp
  have s: "step_ok (node_agg T) (shaped T h) (entries T) leaf_count ((seps, aggs, kids), st) (rebalance_node T ?i ?b st2)"
    by (rule step_ok_trans [OF a a2]) (use a2 len in \<open>simp add: step_ok_def\<close>)
  have r: "t' = Inner_node (fst (fst (rebalance_node T ?i ?b st2))) (fst (snd (fst (rebalance_node T ?i ?b st2))))
      (snd (snd (fst (rebalance_node T ?i ?b st2))))" "st' = snd (rebalance_node T ?i ?b st2)"
    using Suc.prems(7) c op_chunks_unsplit [OF fenced_sorted [OF f] u(1) Suc.prems(3)] t
    by (auto simp: node_step_def Let_def replace_at_def)
  from body_tree [OF s] show ?case
    unfolding r t by (cases "fst (rebalance_node T ?i ?b st2)") (simp add: entries_sum)
qed

lemma shaped_height: "shaped T h t \<Longrightarrow> tree_height t = h"
proof (induction h arbitrary: t)
  case 0
  then show ?case by (cases t) auto
next
  case (Suc h)
  then obtain seps aggs kids where t: "t = Inner_node seps aggs kids" by (cases t) auto
  then have "\<forall>c\<in>set kids. tree_height c = h" "kids \<noteq> []"
    using Suc by (auto simp: body_ok_def list_all_iff)
  then have "fold max (map tree_height kids) 0 = h"
    using Max.set_eq_fold [of 0 "map tree_height kids"] by (simp add: fold_max_const)
  with t show ?case by simp
qed

end

end
