(* ===== verification/Fence_Root.thy ===== *)
theory Fence_Root
  imports Fence_Shape
begin

text \<open>
  Whole trees: \<open>postApply\<close>/\<open>rowApply\<close> at the root, folding a root that has grown too wide, and the
  leaf that a key leads to.
\<close>

section \<open>Applying at the root\<close>

definition tree_ok :: "('k::linorder, 'e, 'l, 'a) tree_ops \<Rightarrow> ('k, 'l, 'a) ftree \<Rightarrow> bool" where
  "tree_ok T t \<longleftrightarrow> ordered T None None t \<and> (\<exists>h. shaped T h t)"

context leaf_codec
begin

lemma apply_tree_shape:
  assumes "tree_ok T t" "ops_ok (to_key T) ops" "unsplit (tree_fences t) ops"
    and "apply_tree T t ops st = (t', st')"
  shows "tree_ok T t' \<and> flat T t' = merge_ops (to_key T) (flat T t) ops
    \<and> counted st st' (int (entries T t') - int (entries T t)) (int (leaf_count t') - int (leaf_count t))"
proof (cases "ops = []")
  case True
  then show ?thesis using assms by (simp add: apply_tree_def counted_def)
next
  case False
  from assms(1) obtain h where o: "ordered T None None t" and h: "shaped T h t" by (auto simp: tree_ok_def)
  obtain n st2 where n: "apply_node T h t ops st = (n, st2)" by (rule prod.exhaust)
  have r: "t' = collapse n" "st' = st2"
    using assms(4) False n shaped_height [OF h] by (auto simp: apply_tree_def)
  have "shaped T h n \<and> counted st st2 (int (entries T n) - int (entries T t)) (int (leaf_count n) - int (leaf_count t))"
    by (rule apply_node_shape [OF h o False assms(2,3) _ n]) (simp add: in_range_def)
  with collapse_shape [of T h n] apply_tree_ok [OF o assms(2-4)] show ?thesis
    unfolding r tree_ok_def by auto
qed

end

section \<open>Folding a wide root\<close>

lemma fold_groups_ok:
  assumes "fenced P lo kids seps hi" "body_ok agg Q (seps, aggs, kids)"
    and mkP: "\<And>s a k lo hi. fenced P lo k s hi \<Longrightarrow> ordered T lo hi (mk s a k)"
    and mkQ: "\<And>s a k. body_ok agg Q (s, a, k) \<Longrightarrow> shaped T h (mk s a k)"
    and mkF: "\<And>s a k. flat T (mk s a k) = concat (map f k)"
    and "fold_groups T mk seps aggs kids = (s', a', k')"
  shows "fenced (ordered T) lo k' s' hi \<and> body_ok (node_agg T) (shaped T h) (s', a', k')
    \<and> concat (map (flat T) k') = concat (map f kids)"
  using assms
proof (induction T mk seps aggs kids arbitrary: lo s' a' k' rule: fold_groups.induct)
  case (1 T mk seps aggs kids)
  let ?g = group_size
  let ?node = "mk (take (?g - 1) seps) (take ?g aggs) (take ?g kids)"
  have g: "0 < ?g" "?g = 16" by (simp_all add: group_size_def tree_fanout_def)
  show ?case
  proof (cases "length kids \<le> ?g")
    case True
    then have all: "take (?g - 1) seps = seps" "take ?g aggs = aggs" "take ?g kids = kids"
      using "1.prems"(2) by (auto simp: body_ok_def)
    have "fold_groups T mk seps aggs kids = ([], [node_agg T ?node], [?node])"
      using True by (subst fold_groups.simps) (simp add: Let_def)
    with "1.prems" have r: "s' = []" "a' = [node_agg T (mk seps aggs kids)]" "k' = [mk seps aggs kids]"
      unfolding all by simp_all
    have "ordered T lo hi (mk seps aggs kids)" by (rule "1.prems"(3) [OF "1.prems"(1)])
    with "1.prems"(2,4,5) show ?thesis
      by (simp add: r body_ok_def ordered_bounds fenced_single)
  next
    case False
    obtain s2 a2 k2 where rest: "fold_groups T mk (drop ?g seps) (drop ?g aggs) (drop ?g kids) = (s2, a2, k2)"
      by (rule prod_cases3)
    have "fold_groups T mk seps aggs kids
        = (seps ! (?g - 1) # s2, node_agg T ?node # a2, ?node # k2)"
      using False rest by (subst fold_groups.simps) (simp add: Let_def)
    with "1.prems"(6) have r: "s' = seps ! (?g - 1) # s2" "a' = node_agg T ?node # a2" "k' = ?node # k2" by simp_all
    from False have m: "?g < length kids" by simp
    note cut = fenced_halves [OF "1.prems"(1) g(1) m] body_ok_take_drop [OF "1.prems"(2) g(1) m]
    have ih: "fenced (ordered T) (Some (seps ! (?g - 1))) k2 s2 hi \<and> body_ok (node_agg T) (shaped T h) (s2, a2, k2)
        \<and> concat (map (flat T) k2) = concat (map f (drop ?g kids))"
      by (rule "1.IH" [OF refl False]) (use cut "1.prems"(3-5) rest in blast)+
    have o: "ordered T lo (Some (seps ! (?g - 1))) ?node" using "1.prems"(3) cut by blast
    moreover have "shaped T h ?node" using "1.prems"(4) cut by blast
    moreover have "concat (map f (take ?g kids)) @ concat (map f (drop ?g kids)) = concat (map f kids)"
      by (metis append_take_drop_id concat_append map_append)
    ultimately show ?thesis
      using ih ordered_bounds [OF o] by (simp add: r fenced_Cons body_ok_def "1.prems"(5))
  qed
qed

lemma lift_root_ok:
  assumes "ordered T None None t" "shaped T h t"
  shows "ordered T None None (lift_root T t) \<and> shaped T (Suc h) (lift_root T t) \<and> flat T (lift_root T t) = flat T t"
proof (cases t)
  case (Leaf_node seps aggs kids)
  obtain s a k where g: "fold_groups T Leaf_node seps aggs kids = (s, a, k)" by (rule prod_cases3)
  have "fenced (ordered T) None k s None \<and> body_ok (node_agg T) (shaped T h) (s, a, k)
    \<and> concat (map (flat T) k) = concat (map (to_items T) kids)"
    by (rule fold_groups_ok [OF _ _ _ _ _ g]) (use assms Leaf_node in auto)
  then show ?thesis using Leaf_node g by simp
next
  case (Inner_node seps aggs kids)
  then obtain h' where h: "h = Suc h'" using assms(2) by (cases h) auto
  obtain s a k where g: "fold_groups T Inner_node seps aggs kids = (s, a, k)" by (rule prod_cases3)
  have "fenced (ordered T) None k s None \<and> body_ok (node_agg T) (shaped T h) (s, a, k)
    \<and> concat (map (flat T) k) = concat (map (flat T) kids)"
    by (rule fold_groups_ok [OF _ _ _ _ _ g]) (use assms Inner_node h in auto)
  then show ?thesis using Inner_node g by simp
qed

lemma balance_root_ok:
  assumes "tree_ok T t" and "balance_root T t st = (t', st')"
  shows "tree_ok T t' \<and> flat T t' = flat T t \<and> child_count t' \<le> tree_fanout"
  using assms
proof (induction T t st arbitrary: rule: balance_root.induct)
  case (1 T t st)
  show ?case
  proof (cases "tree_fanout < child_count t")
    case True
    from "1.prems"(1) obtain h where "ordered T None None t" "shaped T h t" by (auto simp: tree_ok_def)
    from lift_root_ok [OF this] have up: "tree_ok T (lift_root T t)" "flat T (lift_root T t) = flat T t"
      by (auto simp: tree_ok_def)
    have "balance_root T (lift_root T t) (st\<lparr>st_nodes_copied := st_nodes_copied st + int (child_count (lift_root T t) + 1)\<rparr>) = (t', st')"
      using "1.prems"(2) True by (subst (asm) balance_root.simps) (simp add: Let_def)
    from "1.IH" [OF True refl up(1) this] up(2) show ?thesis by simp
  next
    case False
    with "1.prems" show ?thesis by (subst (asm) balance_root.simps) simp
  qed
qed

section \<open>The leaf of a key\<close>

fun leaf_of :: "('k::linorder) \<Rightarrow> ('k, 'l, 'a) ftree \<Rightarrow> 'l option" where
  "leaf_of key (Leaf_node seps aggs kids) =
     (let i = child_index seps key in if length kids \<le> i then None else Some (kids ! i))"
| "leaf_of key (Inner_node seps aggs kids) =
     (let i = child_index seps key in
      if length kids \<le> i then None else (map (leaf_of key) kids) ! i)"

lemma fenced_split_at:
  assumes f: "fenced P lo kids seps hi" and i: "i = child_index seps key"
    and P: "\<forall>lo hi c x. c \<in> set kids \<longrightarrow> P lo hi c \<longrightarrow> x \<in> set (f c) \<longrightarrow> in_range lo hi (k x)"
  shows "i < length kids" and "concat (map f kids) = concat (map f (take i kids)) @ f (kids ! i) @ concat (map f (drop (Suc i) kids))"
    and "\<And>x. x \<in> set (concat (map f (take i kids))) \<Longrightarrow> k x < key"
    and "\<And>x. x \<in> set (concat (map f (drop (Suc i) kids))) \<Longrightarrow> key < k x"
    and "\<exists>lo' hi'. P lo' hi' (kids ! i)"
proof -
  have srt: "sorted seps" by (rule fenced_sorted [OF f])
  note b = child_index_bounds(1) [OF srt, of key] child_index_bounds(2) [OF srt, of _ key]
    child_index_bounds(3) [OF srt, of key]
  have len: "length kids = Suc (length seps)" by (rule fenced_length [OF f])
  show i': "i < length kids" using b(1) len i by simp
  have kids: "take i kids @ kids ! i # drop (Suc i) kids = kids" by (rule id_take_nth_drop [OF i', symmetric])
  show "concat (map f kids) = concat (map f (take i kids)) @ f (kids ! i) @ concat (map f (drop (Suc i) kids))"
    using arg_cong [OF kids, of "\<lambda>cs. concat (map f cs)"] by simp
  have n: "i + 1 \<le> length kids" "(0::nat) < 1" using i' by simp_all
  from fenced_window [OF f n] i' show "\<exists>lo' hi'. P lo' hi' (kids ! i)" by (auto simp: take_drop_nth)
  have l: "length (take i kids) = length (take i seps)" and r: "length (drop (Suc i) kids) = length (drop i seps)"
    using len i' by simp_all
  have f': "fenced P lo (take i kids @ kids ! i # drop (Suc i) kids) (take i seps @ drop i seps) hi"
    using f kids by simp
  show "k x < key" if x: "x \<in> set (concat (map f (take i kids)))" for x
  proof -
    have ne: "take i kids \<noteq> []" using x by (cases "take i kids") auto
    then have ne': "take i seps \<noteq> []" using l by (metis length_0_conv)
    have "fenced P lo (take i kids) (butlast (take i seps)) (Some (last (take i seps)))"
      using f' ne by (subst (asm) fenced_prefix [OF l]) auto
    then have "in_range lo (Some (last (take i seps))) (k x)"
      by (rule keys_in_cat [OF _ _ x]) (use P in \<open>auto dest: in_set_takeD\<close>)
    moreover have "last (take i seps) \<le> key"
    proof -
      have "0 < i" "i \<le> length seps" using ne' b(1) i by auto
      then show ?thesis using ne' b(2) [of "i - 1"] i by (simp add: last_conv_nth)
    qed
    ultimately show ?thesis by (auto simp: in_range_def)
  qed
  show "key < k x" if x: "x \<in> set (concat (map f (drop (Suc i) kids)))" for x
  proof -
    have "drop (Suc i) kids \<noteq> []" using x by (cases "drop (Suc i) kids") auto
    then have ne: "drop i seps \<noteq> []" using r by (metis length_0_conv)
    have "length (take i kids @ [kids ! i]) = Suc (length (take i seps))" using l by simp
    from fenced_suffix [OF r this, of P lo hi] f' ne
    have "fenced P (Some (hd (drop i seps))) (drop (Suc i) kids) (tl (drop i seps)) hi" by simp
    then have "in_range (Some (hd (drop i seps))) hi (k x)"
      by (rule keys_in_cat [OF _ _ x]) (use P in \<open>auto dest: in_set_dropD\<close>)
    moreover have "key < hd (drop i seps)" using ne b(3) [of i] i by (simp add: hd_drop_conv_nth)
    ultimately show ?thesis by (auto simp: in_range_def intro: less_le_trans)
  qed
qed

text \<open>All entries with the key's value are in the leaf the key leads to.\<close>

lemma leaf_of_ok:
  assumes "ordered T lo hi t"
  shows "\<exists>l as bs. leaf_of key t = Some l \<and> flat T t = as @ to_items T l @ bs
    \<and> (\<forall>x\<in>set as. to_key T x < key) \<and> (\<forall>x\<in>set bs. key < to_key T x) \<and> sorted_keys (to_key T) (to_items T l)"
  using assms
proof (induction T lo hi t rule: ordered.induct)
  case (1 T lo hi seps aggs kids)
  let ?i = "child_index seps key"
  have f: "fenced (leaf_in T) lo kids seps hi" using 1 by simp
  have P: "\<forall>lo hi c x. c \<in> set kids \<longrightarrow> leaf_in T lo hi c \<longrightarrow> x \<in> set (to_items T c) \<longrightarrow> in_range lo hi (to_key T x)"
    by (auto simp: leaf_in_def)
  note sp = fenced_split_at [where f = "to_items T" and k = "to_key T" and key = key, OF f refl P]
  have "sorted_keys (to_key T) (to_items T (kids ! ?i))" using sp(5) by (auto simp: leaf_in_def)
  moreover have "leaf_of key (Leaf_node seps aggs kids) = Some (kids ! ?i)"
    using sp(1) by (simp add: Let_def)
  ultimately show ?case unfolding flat.simps using sp(2-4) by blast
next
  case (2 T lo hi seps aggs kids)
  let ?i = "child_index seps key"
  have f: "fenced (ordered T) lo kids seps hi" using 2 by simp
  have P: "\<forall>lo hi c x. c \<in> set kids \<longrightarrow> ordered T lo hi c \<longrightarrow> x \<in> set (flat T c) \<longrightarrow> in_range lo hi (to_key T x)"
    using ordered_flat by blast
  note sp = fenced_split_at [where f = "flat T" and k = "to_key T" and key = key, OF f refl P]
  from sp(5) obtain lo' hi' where o: "ordered T lo' hi' (kids ! ?i)" by blast
  from "2.IH" [OF nth_mem [OF sp(1)] o] obtain l as bs where l: "leaf_of key (kids ! ?i) = Some l"
    "flat T (kids ! ?i) = as @ to_items T l @ bs" "\<forall>x\<in>set as. to_key T x < key"
    "\<forall>x\<in>set bs. key < to_key T x" "sorted_keys (to_key T) (to_items T l)"
    by blast
  let ?as = "concat (map (flat T) (take ?i kids)) @ as"
  let ?bs = "bs @ concat (map (flat T) (drop (Suc ?i) kids))"
  have "leaf_of key (Inner_node seps aggs kids) = Some l" using sp(1) l(1) by (simp add: Let_def)
  moreover have "flat T (Inner_node seps aggs kids) = ?as @ to_items T l @ ?bs"
    unfolding flat.simps sp(2) l(2) by simp
  moreover have "\<forall>x\<in>set ?as. to_key T x < key" using sp(3) l(3) unfolding set_append by blast
  moreover have "\<forall>x\<in>set ?bs. key < to_key T x" using sp(4) l(4) unfolding set_append by blast
  ultimately show ?case using l(5) by blast
qed

lemma fenced_member_ex: "\<lbrakk>fenced P lo cs ss hi; i < length cs\<rbrakk> \<Longrightarrow> \<exists>lo hi. P lo hi (cs ! i)"
proof -
  assume f: "fenced P lo cs ss hi" and i: "i < length cs"
  have "(0::nat) < 1" "i + 1 \<le> length cs" using i by simp_all
  from fenced_window [OF f this(2,1)] i show ?thesis by (auto simp: take_drop_nth)
qed

end
