(* ===== verification/Row_Tree.thy ===== *)
theory Row_Tree
  imports Fence_Root
begin

text \<open>
  The row directory (\<open>rowNode\<close>, \<open>rowLeaf\<close>, \<open>rowAgg\<close> and their functions in
  \<open>internal/resourcecatalog/searchtree.go\<close>): a tree of rows by name, each leaf with summaries of
  its groups of 16 rows and each node with the aggregates of its children, and the queries that
  skip subtrees and groups by them. A leaf's parallel arrays of names, slots and weights are one
  list of items; \<open>total\<close> and \<open>posCount\<close>, which stay below \<open>2 ^ 24\<close> rows of weight at most 255,
  are integers.
\<close>

section \<open>Data\<close>

record row_item =
  ri_name :: string
  ri_slot :: u32
  ri_weight :: "8 word"

record row_leaf =
  rl_items :: "row_item list"
  rl_group_weight :: "16 word list"
  rl_group_min :: "8 word list"

record row_agg =
  ra_total :: int
  ra_pos_count :: int
  ra_min_pos :: "8 word"

type_synonym row_node = "(string, row_leaf, row_agg) ftree"

definition no_min_weight :: "8 word" where "no_min_weight = 255"
definition row_group_size :: nat where "row_group_size = 16"
definition row_groups :: nat where "row_groups = leaf_max div row_group_size"

text \<open>\<open>finalize\<close>: the sum and the smallest positive weight of every group, item by item.\<close>

definition finalize_step :: "nat \<times> 8 word \<Rightarrow> 16 word list \<times> 8 word list \<Rightarrow> 16 word list \<times> 8 word list" where
  "finalize_step iw s =
     (let g = (if row_groups \<le> fst iw div row_group_size then row_groups - 1 else fst iw div row_group_size);
          w = snd iw; gs = fst s; ms = snd s in
      (gs[g := gs ! g + ucast w], if 0 < w \<and> w < ms ! g then ms[g := w] else ms))"

definition finalize_groups :: "8 word list \<Rightarrow> 16 word list \<times> 8 word list" where
  "finalize_groups ws =
     fold finalize_step (zip [0..<length ws] ws) (replicate row_groups 0, replicate row_groups no_min_weight)"

definition make_row_leaf :: "row_item list \<Rightarrow> row_leaf" where
  "make_row_leaf xs =
     (let g = finalize_groups (map ri_weight xs) in
      \<lparr>rl_items = xs, rl_group_weight = fst g, rl_group_min = snd g\<rparr>)"

definition empty_agg :: row_agg where
  "empty_agg = \<lparr>ra_total = 0, ra_pos_count = 0, ra_min_pos = no_min_weight\<rparr>"

definition agg_weight :: "8 word \<Rightarrow> row_agg \<Rightarrow> row_agg" where
  "agg_weight w a =
     (let a1 = a\<lparr>ra_total := ra_total a + uint w\<rparr> in
      if 0 < w then
        a1\<lparr>ra_pos_count := ra_pos_count a1 + 1, ra_min_pos := (if w < ra_min_pos a1 then w else ra_min_pos a1)\<rparr>
      else a1)"

definition row_leaf_agg :: "row_leaf \<Rightarrow> row_agg" where
  "row_leaf_agg l = fold agg_weight (map ri_weight (rl_items l)) empty_agg"

definition agg_join :: "row_agg \<Rightarrow> row_agg \<Rightarrow> row_agg" where
  "agg_join a acc = \<lparr>ra_total = ra_total acc + ra_total a, ra_pos_count = ra_pos_count acc + ra_pos_count a,
     ra_min_pos = (if ra_min_pos a < ra_min_pos acc then ra_min_pos a else ra_min_pos acc)\<rparr>"

definition row_node_agg :: "row_agg list \<Rightarrow> row_agg" where
  "row_node_agg as = fold agg_join as empty_agg"

definition row_ops :: "(string, row_item, row_leaf, row_agg) tree_ops" where
  "row_ops = \<lparr>to_key = ri_name, to_leaf = make_row_leaf, to_items = rl_items, to_leaf_agg = row_leaf_agg,
     to_node_agg = row_node_agg, to_fence_bytes = (\<lambda>s. int (length s) + 16)\<rparr>"

definition new_row_tree :: row_node where
  "new_row_tree = (let leaf = make_row_leaf [] in Leaf_node [] [row_leaf_agg leaf] [leaf])"

section \<open>Updates\<close>

text \<open>\<open>rowOp\<close>: name, slot, weight, and whether it removes.\<close>

type_synonym row_op = "(string, row_item) tree_op"

definition row_store :: "string \<Rightarrow> u32 \<Rightarrow> 8 word \<Rightarrow> row_op" where
  "row_store name slot w = \<lparr>op_key = name, op_entry = \<lparr>ri_name = name, ri_slot = slot, ri_weight = w\<rparr>, op_remove = False\<rparr>"

definition row_remove :: "string \<Rightarrow> row_op" where
  "row_remove name = \<lparr>op_key = name, op_entry = \<lparr>ri_name = name, ri_slot = 0, ri_weight = 0\<rparr>, op_remove = True\<rparr>"

definition row_apply_to_leaf where "row_apply_to_leaf = apply_to_leaf row_ops"
definition row_rebalance_leaf where "row_rebalance_leaf = rebalance_leaf row_ops"
definition row_rebalance_node where "row_rebalance_node = rebalance_node row_ops"
definition row_split_node where "row_split_node = split_node row_ops"

definition row_apply_node :: "nat \<Rightarrow> row_node \<Rightarrow> row_op list \<Rightarrow> apply_stats \<Rightarrow> row_node \<times> apply_stats" where
  "row_apply_node h t ops st = apply_node row_ops h t ops st"

definition row_apply :: "row_node \<Rightarrow> row_op list \<Rightarrow> apply_stats \<Rightarrow> row_node \<times> apply_stats" where
  "row_apply t ops st = apply_tree row_ops t ops st"

definition balance_row_root :: "row_node \<Rightarrow> apply_stats \<Rightarrow> row_node \<times> apply_stats" where
  "balance_row_root t st = balance_root row_ops t st"

section \<open>Lookups\<close>

definition find_in_leaf :: "string \<Rightarrow> row_leaf \<Rightarrow> (u32 \<times> 8 word) option" where
  "find_in_leaf name l =
     (let i = lower_bound ri_name (rl_items l) name in
      if i < length (rl_items l) \<and> ri_name (rl_items l ! i) = name
      then Some (ri_slot (rl_items l ! i), ri_weight (rl_items l ! i)) else None)"

fun row_find :: "row_node \<Rightarrow> string \<Rightarrow> (u32 \<times> 8 word) option" where
  "row_find (Leaf_node seps aggs kids) name =
     (let i = child_index seps name in
      if length kids \<le> i then None else find_in_leaf name (kids ! i))"
| "row_find (Inner_node seps aggs kids) name =
     (let i = child_index seps name in
      if length kids \<le> i then None else (map (\<lambda>t. row_find t name) kids) ! i)"

fun row_tree_count :: "row_node \<Rightarrow> nat" where
  "row_tree_count (Leaf_node seps aggs kids) = sum_list (map (\<lambda>l. length (rl_items l)) kids)"
| "row_tree_count (Inner_node seps aggs kids) = sum_list (map row_tree_count kids)"

section \<open>The boundary of a prefix\<close>

record row_boundary =
  rb_acc :: int
  rb_name :: string
  rb_slot :: u32
  rb_weight :: "8 word"
  rb_overflow :: bool
  rb_visited :: int
  rb_compares :: int

definition no_boundary :: row_boundary where
  "no_boundary = \<lparr>rb_acc = 0, rb_name = '''', rb_slot = 0, rb_weight = 0, rb_overflow = False,
     rb_visited = 0, rb_compares = 0\<rparr>"

definition tick :: "row_boundary \<Rightarrow> row_boundary" where
  "tick out = out\<lparr>rb_compares := rb_compares out + 1\<rparr>"

text \<open>The groups of a leaf: whole groups that still fit are added; the result is the place to
  scan from.\<close>

fun boundary_groups :: "int \<Rightarrow> 16 word list \<Rightarrow> nat \<Rightarrow> row_boundary \<Rightarrow> nat \<Rightarrow> row_boundary \<times> nat" where
  "boundary_groups cap [] g out i = (out, i)"
| "boundary_groups cap (w # ws) g out i =
     (let out1 = tick out in
      if w = 0 then boundary_groups cap ws (g + 1) out1 i
      else if rb_acc out1 + uint w \<le> cap then
        boundary_groups cap ws (g + 1) (out1\<lparr>rb_acc := rb_acc out1 + uint w\<rparr>) ((g + 1) * row_group_size)
      else (out1, g * row_group_size))"

fun boundary_scan :: "int \<Rightarrow> row_item list \<Rightarrow> row_boundary \<Rightarrow> row_boundary" where
  "boundary_scan cap [] out = out"
| "boundary_scan cap (x # xs) out =
     (let out1 = tick out in
      if ri_weight x = 0 then boundary_scan cap xs out1
      else
        (let out2 = out1\<lparr>rb_visited := rb_visited out1 + 1\<rparr> in
         if rb_acc out2 + uint (ri_weight x) > cap then
           out2\<lparr>rb_name := ri_name x, rb_slot := ri_slot x, rb_weight := ri_weight x, rb_overflow := True\<rparr>
         else boundary_scan cap xs (out2\<lparr>rb_acc := rb_acc out2 + uint (ri_weight x)\<rparr>)))"

definition boundary_leaf :: "int \<Rightarrow> row_leaf \<Rightarrow> row_boundary \<Rightarrow> row_boundary" where
  "boundary_leaf cap l out =
     (let r = boundary_groups cap (rl_group_weight l) 0 out 0 in
      boundary_scan cap (drop (snd r) (rl_items l)) (fst r))"

text \<open>The children of a node with their aggregates: those that fit are added, the first that does
  not is entered, and nothing after it is looked at.\<close>

fun boundary_kids :: "int \<Rightarrow> (row_agg \<times> (row_boundary \<Rightarrow> row_boundary)) list \<Rightarrow> row_boundary \<Rightarrow> row_boundary" where
  "boundary_kids cap [] out = out"
| "boundary_kids cap ((a, enter) # rest) out =
     (let out1 = tick out in
      if rb_acc out1 + ra_total a \<le> cap then
        boundary_kids cap rest (out1\<lparr>rb_acc := rb_acc out1 + ra_total a\<rparr>)
      else enter out1)"

fun boundary_tree :: "int \<Rightarrow> row_node \<Rightarrow> row_boundary \<Rightarrow> row_boundary" where
  "boundary_tree cap (Leaf_node seps aggs kids) out =
     boundary_kids cap (zip aggs (map (\<lambda>l. boundary_leaf cap l) kids)) out"
| "boundary_tree cap (Inner_node seps aggs kids) out =
     boundary_kids cap (zip aggs (map (\<lambda>t. boundary_tree cap t) kids)) out"

definition row_prefix_boundary :: "row_node \<Rightarrow> int \<Rightarrow> row_boundary" where
  "row_prefix_boundary t cap = boundary_tree cap t no_boundary"

section \<open>The next row that fits\<close>

record row_hit =
  rh_name :: string
  rh_slot :: u32
  rh_weight :: "8 word"
  rh_found :: bool
  rh_visited :: int
  rh_compares :: int

definition no_hit :: row_hit where
  "no_hit = \<lparr>rh_name = '''', rh_slot = 0, rh_weight = 0, rh_found = False, rh_visited = 0, rh_compares = 0\<rparr>"

definition hit_tick :: "row_hit \<Rightarrow> row_hit" where
  "hit_tick out = out\<lparr>rh_compares := rh_compares out + 1\<rparr>"

fun hit_scan :: "8 word \<Rightarrow> row_item list \<Rightarrow> row_hit \<Rightarrow> row_hit" where
  "hit_scan budget [] out = out"
| "hit_scan budget (x # xs) out =
     (let out1 = hit_tick out; w = ri_weight x in
      if w = 0 \<or> budget < w then hit_scan budget xs out1
      else out1\<lparr>rh_visited := rh_visited out1 + 1, rh_name := ri_name x, rh_slot := ri_slot x,
                rh_weight := w, rh_found := True\<rparr>)"

text \<open>The groups from number \<open>g\<close> on; within a group the items from \<open>start\<close> on.\<close>

fun hit_groups :: "8 word \<Rightarrow> nat \<Rightarrow> row_item list \<Rightarrow> 8 word list \<Rightarrow> nat \<Rightarrow> row_hit \<Rightarrow> row_hit" where
  "hit_groups budget start items [] g out = out"
| "hit_groups budget start items (m # ms) g out =
     (let out1 = hit_tick out in
      if budget < m then hit_groups budget start items ms (g + 1) out1
      else
        (let lo = max (g * row_group_size) start; hi = min ((g + 1) * row_group_size) (length items);
             out2 = hit_scan budget (drop lo (take hi items)) out1 in
         if rh_found out2 then out2 else hit_groups budget start items ms (g + 1) out2))"

definition hit_leaf :: "string option \<Rightarrow> 8 word \<Rightarrow> row_leaf \<Rightarrow> row_hit \<Rightarrow> row_hit" where
  "hit_leaf after budget l out =
     (let items = rl_items l;
          start = (case after of None \<Rightarrow> 0
                   | Some name \<Rightarrow>
                       (let i = lower_bound ri_name items name in
                        if i < length items \<and> ri_name (items ! i) = name then i + 1 else i)) in
      if length items \<le> start then out
      else hit_groups budget start items (drop (start div row_group_size) (rl_group_min l))
             (start div row_group_size) out)"

fun hit_kids :: "8 word \<Rightarrow> (row_agg \<times> (row_hit \<Rightarrow> row_hit)) list \<Rightarrow> row_hit \<Rightarrow> row_hit" where
  "hit_kids budget [] out = out"
| "hit_kids budget ((a, enter) # rest) out =
     (let out1 = hit_tick out in
      if ra_pos_count a = 0 \<or> budget < ra_min_pos a then hit_kids budget rest out1
      else (let out2 = enter out1 in if rh_found out2 then out2 else hit_kids budget rest out2))"

fun hit_tree :: "string option \<Rightarrow> 8 word \<Rightarrow> row_node \<Rightarrow> row_hit \<Rightarrow> row_hit" where
  "hit_tree after budget (Leaf_node seps aggs kids) out =
     hit_kids budget (zip aggs (map (\<lambda>l. hit_leaf after budget l) kids)) out"
| "hit_tree after budget (Inner_node seps aggs kids) out =
     hit_kids budget (zip aggs (map (\<lambda>t. hit_tree after budget t) kids)) out"

definition row_next_fitting :: "row_node \<Rightarrow> string \<Rightarrow> 8 word \<Rightarrow> bool \<Rightarrow> row_hit" where
  "row_next_fitting t after_name budget has_after =
     hit_tree (if has_after then Some after_name else None) budget t no_hit"

section \<open>Every positive row of a range\<close>

text \<open>\<open>go_on\<close> is the callback's answer; the result is whether the walk goes on and the rows the
  callback has seen.\<close>

fun positive_items :: "string option \<Rightarrow> (row_item \<Rightarrow> bool) \<Rightarrow> row_item list \<Rightarrow> row_item list \<Rightarrow> bool \<times> row_item list" where
  "positive_items hi go_on [] seen = (True, seen)"
| "positive_items hi go_on (x # xs) seen =
     (if (case hi of None \<Rightarrow> False | Some h \<Rightarrow> h \<le> ri_name x) then (False, seen)
      else if ri_weight x = 0 then positive_items hi go_on xs seen
      else if \<not> go_on x then (False, seen @ [x])
      else positive_items hi go_on xs (seen @ [x]))"

fun positive_kids :: "(row_agg \<times> (row_item list \<Rightarrow> bool \<times> row_item list)) list \<Rightarrow> row_item list \<Rightarrow> bool \<times> row_item list"
where
  "positive_kids [] seen = (True, seen)"
| "positive_kids ((a, enter) # rest) seen =
     (if ra_pos_count a = 0 then positive_kids rest seen
      else (let r = enter seen in if fst r then positive_kids rest (snd r) else r))"

fun positive_tree :: "string \<Rightarrow> string option \<Rightarrow> (row_item \<Rightarrow> bool) \<Rightarrow> row_node \<Rightarrow> row_item list \<Rightarrow> bool \<times> row_item list"
where
  "positive_tree lo hi go_on (Leaf_node seps aggs kids) seen =
     positive_kids (zip aggs (map (\<lambda>l. positive_items hi go_on
       (drop (lower_bound ri_name (rl_items l) lo) (rl_items l))) kids)) seen"
| "positive_tree lo hi go_on (Inner_node seps aggs kids) seen =
     positive_kids (zip aggs (map (\<lambda>t. positive_tree lo hi go_on t) kids)) seen"

definition row_each_positive :: "row_node \<Rightarrow> string \<Rightarrow> string \<Rightarrow> bool \<Rightarrow> (row_item \<Rightarrow> bool) \<Rightarrow> row_item list" where
  "row_each_positive t lo_name hi_name has_hi go_on =
     snd (positive_tree lo_name (if has_hi then Some hi_name else None) go_on t [])"

interpretation rows: leaf_codec row_ops
  by unfold_locales (simp add: row_ops_def make_row_leaf_def Let_def)

end
