(* ===== verification/Row_Laws.thy ===== *)
theory Row_Laws
  imports Row_Tree
begin

text \<open>
  The summaries of the row directory are sound (group sums, group minima, aggregates), and the
  queries that use them agree with plain scans of the rows in order.
\<close>

section \<open>Sums and groups\<close>

definition wsum :: "row_item list \<Rightarrow> int" where
  "wsum xs = sum_list (map (\<lambda>x. uint (ri_weight x)) xs)"

lemma wsum_simps [simp]:
  "wsum [] = 0" "wsum (x # xs) = uint (ri_weight x) + wsum xs" "wsum (xs @ ys) = wsum xs + wsum ys"
  by (simp_all add: wsum_def)

lemma wsum_nonneg: "0 \<le> wsum xs"
  by (induction xs) simp_all

lemma wsum_le: "wsum xs \<le> 255 * int (length xs)"
proof (induction xs)
  case (Cons x xs)
  have "uint (ri_weight x) < 2 ^ 8" using uint_bounded [of "ri_weight x"] by simp
  with Cons show ?case by simp
qed simp

definition group_of :: "nat \<Rightarrow> 'b list \<Rightarrow> 'b list" where
  "group_of g xs = drop (16 * g) (take (16 * g + 16) xs)"

lemma group_of_snoc:
  "group_of g (xs @ [x]) = (if length xs div 16 = g then group_of g xs @ [x] else group_of g xs)"
proof -
  consider "length xs < 16 * g" | "16 * g \<le> length xs" "length xs < 16 * g + 16" | "16 * g + 16 \<le> length xs"
    by linarith
  then show ?thesis
  proof cases
    case 1
    then have "length xs div 16 \<noteq> g" by auto
    with 1 show ?thesis by (simp add: group_of_def)
  next
    case 2
    then have "length xs div 16 = g" by auto
    with 2 show ?thesis by (simp add: group_of_def)
  next
    case 3
    then have "length xs div 16 \<noteq> g" by auto
    with 3 show ?thesis by (simp add: group_of_def)
  qed
qed

lemma length_group_of: "length (group_of g xs) \<le> 16"
  by (simp add: group_of_def)

lemma group_of_map: "group_of g (map f xs) = map f (group_of g xs)"
  by (simp add: group_of_def take_map drop_map)

lemma take_group: "wsum (take (16 * g + 16) xs) = wsum (take (16 * g) xs) + wsum (group_of g xs)"
proof -
  have "take (16 * g + 16) xs = take (16 * g) xs @ group_of g xs"
    unfolding group_of_def by (metis append_take_drop_id le_add1 min.absorb1 take_take)
  then show ?thesis by simp
qed

lemma finalize_snoc:
  "finalize_groups (ws @ [w]) = finalize_step (length ws, w) (finalize_groups ws)"
  by (simp add: finalize_groups_def)

lemma finalize_ok:
  assumes "length xs \<le> 256"
  shows "length (fst (finalize_groups (map ri_weight xs))) = 16
    \<and> length (snd (finalize_groups (map ri_weight xs))) = 16
    \<and> (\<forall>g<16. uint (fst (finalize_groups (map ri_weight xs)) ! g) = wsum (group_of g xs)
       \<and> (\<forall>x\<in>set (group_of g xs). 0 < ri_weight x \<longrightarrow> snd (finalize_groups (map ri_weight xs)) ! g \<le> ri_weight x))"
  using assms
proof (induction xs rule: rev_induct)
  case Nil
  then show ?case
    by (simp add: finalize_groups_def row_groups_def leaf_max_def row_group_size_def group_of_def)
next
  case (snoc x xs)
  let ?f = "finalize_groups (map ri_weight xs)"
  let ?n = "length xs div 16" and ?w = "ri_weight x"
  have ih: "length (fst ?f) = 16" "length (snd ?f) = 16"
    "\<And>g. g < 16 \<Longrightarrow> uint (fst ?f ! g) = wsum (group_of g xs)"
    "\<And>g y. \<lbrakk>g < 16; y \<in> set (group_of g xs); 0 < ri_weight y\<rbrakk> \<Longrightarrow> snd ?f ! g \<le> ri_weight y"
    using snoc by auto
  have n: "?n < 16" using snoc.prems by simp
  have step: "finalize_groups (map ri_weight (xs @ [x])) =
      ((fst ?f)[?n := fst ?f ! ?n + ucast ?w],
       if 0 < ?w \<and> ?w < snd ?f ! ?n then (snd ?f)[?n := ?w] else snd ?f)"
    using n by (simp add: finalize_snoc finalize_step_def row_groups_def leaf_max_def row_group_size_def Let_def)
  have "uint (fst ?f ! ?n + ucast ?w) = wsum (group_of ?n (xs @ [x]))"
  proof -
    have g: "group_of ?n (xs @ [x]) = group_of ?n xs @ [x]" by (simp add: group_of_snoc)
    have "wsum (group_of ?n (xs @ [x])) \<le> 255 * 16"
      using wsum_le [of "group_of ?n (xs @ [x])"] length_group_of [of ?n "xs @ [x]"] by linarith
    then have "wsum (group_of ?n xs) + uint ?w < 2 ^ 16" unfolding g by simp
    moreover have "uint (ucast ?w :: 16 word) = uint ?w"
      using uint_bounded [of ?w] by (simp add: unsigned_ucast_eq take_bit_int_eq_self)
    ultimately show ?thesis
      unfolding g using ih(3) [OF n] wsum_nonneg [of "group_of ?n xs"]
      by (simp add: uint_word_ariths mod_pos_pos_trivial)
  qed
  moreover have "(if 0 < ?w \<and> ?w < snd ?f ! ?n then (snd ?f)[?n := ?w] else snd ?f) ! g \<le> ri_weight y"
    if "g < 16" "y \<in> set (group_of g (xs @ [x]))" "0 < ri_weight y" for g y
    using that ih(2) ih(4) [OF that(1) _ that(3)] n
    by (auto simp: group_of_snoc nth_list_update not_less split: if_splits intro: order_trans [OF less_imp_le])
  ultimately show ?case
    unfolding step using ih by (auto simp: nth_list_update group_of_snoc)
qed

section \<open>Aggregates\<close>

definition agg_sound :: "row_agg \<Rightarrow> row_item list \<Rightarrow> bool" where
  "agg_sound a xs \<longleftrightarrow> ra_total a = wsum xs \<and> 0 \<le> ra_pos_count a
    \<and> (ra_pos_count a = 0 \<longleftrightarrow> (\<forall>x\<in>set xs. ri_weight x = 0))
    \<and> (\<forall>x\<in>set xs. 0 < ri_weight x \<longrightarrow> ra_min_pos a \<le> ri_weight x)"

lemma empty_agg_sound: "agg_sound empty_agg []"
  by (simp add: agg_sound_def empty_agg_def)

lemma word_pos_iff: "(0 < (w :: 8 word)) = (w \<noteq> 0)"
  by (simp add: word_gt_0)

lemma agg_weight_sound: "agg_sound a xs \<Longrightarrow> agg_sound (agg_weight (ri_weight x) a) (xs @ [x])"
  by (auto simp: agg_sound_def agg_weight_def Let_def word_pos_iff not_less intro: order_trans less_imp_le)

lemma fold_agg_sound:
  "agg_sound a xs \<Longrightarrow> agg_sound (fold agg_weight (map ri_weight ys) a) (xs @ ys)"
proof (induction ys arbitrary: a xs)
  case (Cons y ys)
  from Cons.IH [OF agg_weight_sound [OF Cons.prems, of y]] show ?case by simp
qed simp

lemma leaf_agg_sound: "agg_sound (row_leaf_agg l) (rl_items l)"
  using fold_agg_sound [OF empty_agg_sound, of "rl_items l"] by (simp add: row_leaf_agg_def)

lemma agg_join_sound: "\<lbrakk>agg_sound acc xs; agg_sound a ys\<rbrakk> \<Longrightarrow> agg_sound (agg_join a acc) (xs @ ys)"
  by (auto simp: agg_sound_def agg_join_def not_less intro: order_trans less_imp_le)

lemma fold_join_sound:
  "\<lbrakk>list_all2 agg_sound as xss; agg_sound acc xs\<rbrakk> \<Longrightarrow> agg_sound (fold agg_join as acc) (xs @ concat xss)"
proof (induction as xss arbitrary: acc xs rule: list_all2_induct)
  case (Cons a as ys xss)
  from Cons.IH [OF agg_join_sound [OF Cons.prems Cons.hyps(1)]] show ?case by simp
qed simp

lemma node_agg_sound:
  "list_all2 agg_sound as xss \<Longrightarrow> agg_sound (row_node_agg as) (concat xss)"
  using fold_join_sound [OF _ empty_agg_sound] by (simp add: row_node_agg_def)

lemma row_items: "to_items row_ops = rl_items" "to_key row_ops = ri_name"
    "to_leaf_agg row_ops = row_leaf_agg" "to_leaf row_ops = make_row_leaf" "to_node_agg row_ops = row_node_agg"
  by (simp_all add: row_ops_def)

lemma shaped_agg_sound: "shaped row_ops h t \<Longrightarrow> agg_sound (node_agg row_ops t) (flat row_ops t)"
proof (induction h arbitrary: t)
  case 0
  then obtain seps aggs kids where t: "t = Leaf_node seps aggs kids" by (cases t) auto
  with 0 have "list_all2 agg_sound aggs (map rl_items kids)"
    by (auto simp: body_ok_def row_items list_all2_map1 list_all2_map2 leaf_agg_sound intro: list.rel_refl_strong)
  with t show ?case by (simp add: node_agg_def row_items node_agg_sound)
next
  case (Suc h)
  then obtain seps aggs kids where t: "t = Inner_node seps aggs kids" by (cases t) auto
  with Suc have "list_all2 agg_sound aggs (map (flat row_ops) kids)"
    by (auto simp: body_ok_def list_all2_map1 list_all2_map2 list_all_iff intro: list.rel_refl_strong)
  with t show ?case by (simp add: node_agg_def row_items node_agg_sound)
qed

section \<open>The boundary\<close>

text \<open>The scan over all rows: the weight before the first row that passes the cap, and that row.\<close>

fun first_over :: "int \<Rightarrow> int \<Rightarrow> row_item list \<Rightarrow> int \<times> row_item option" where
  "first_over cap acc [] = (acc, None)"
| "first_over cap acc (x # xs) =
     (if 0 < ri_weight x \<and> cap < acc + uint (ri_weight x) then (acc, Some x)
      else first_over cap (acc + uint (ri_weight x)) xs)"

definition shows_boundary :: "row_boundary \<Rightarrow> int \<times> row_item option \<Rightarrow> bool" where
  "shows_boundary out r \<longleftrightarrow> rb_acc out = fst r \<and>
     (case snd r of None \<Rightarrow> \<not> rb_overflow out
      | Some x \<Rightarrow> rb_overflow out \<and> rb_name out = ri_name x \<and> rb_slot out = ri_slot x \<and> rb_weight out = ri_weight x)"

lemma first_over_append:
  "first_over cap acc (xs @ ys) =
     (case first_over cap acc xs of (a, None) \<Rightarrow> first_over cap a ys | (a, Some x) \<Rightarrow> (a, Some x))"
  by (induction xs arbitrary: acc) auto

lemma first_over_fits: "acc + wsum xs \<le> cap \<Longrightarrow> first_over cap acc xs = (acc + wsum xs, None)"
proof (induction xs arbitrary: acc)
  case (Cons x xs)
  have "acc + uint (ri_weight x) \<le> cap" using Cons.prems wsum_nonneg [of xs] by simp
  with Cons show ?case by (simp add: not_less add.assoc)
qed simp

lemma first_over_some:
  "\<lbrakk>acc \<le> cap; cap < acc + wsum xs\<rbrakk> \<Longrightarrow> \<exists>a x. first_over cap acc xs = (a, Some x)"
proof (induction xs arbitrary: acc)
  case (Cons x xs)
  show ?case
  proof (cases "0 < ri_weight x \<and> cap < acc + uint (ri_weight x)")
    case False
    then have "acc + uint (ri_weight x) \<le> cap"
      using Cons.prems(1) by (cases "ri_weight x = 0") (auto simp: word_pos_iff)
    moreover have "cap < acc + uint (ri_weight x) + wsum xs" using Cons.prems(2) by simp
    ultimately show ?thesis using Cons.IH False by simp
  qed simp
qed simp

lemma scan_boundary:
  "\<not> rb_overflow out \<Longrightarrow> shows_boundary (boundary_scan cap xs out) (first_over cap (rb_acc out) xs)"
proof (induction xs arbitrary: out)
  case (Cons x xs)
  let ?w = "uint (ri_weight x)"
  let ?out = "(tick out)\<lparr>rb_visited := rb_visited out + 1\<rparr>"
  have acc: "rb_acc (tick out) = rb_acc out" "rb_overflow (tick out) = rb_overflow out" "rb_visited (tick out) = rb_visited out"
    by (simp_all add: tick_def)
  have eq: "boundary_scan cap (x # xs) out = (if ri_weight x = 0 then boundary_scan cap xs (tick out)
      else if cap < rb_acc out + ?w then
        ?out\<lparr>rb_name := ri_name x, rb_slot := ri_slot x, rb_weight := ri_weight x, rb_overflow := True\<rparr>
      else boundary_scan cap xs (?out\<lparr>rb_acc := rb_acc out + ?w\<rparr>))"
    by (simp add: Let_def acc)
  show ?case
    using Cons.IH [of "tick out"] Cons.IH [of "?out\<lparr>rb_acc := rb_acc out + ?w\<rparr>"] Cons.prems
    unfolding eq by (auto simp: acc word_pos_iff shows_boundary_def)
qed (simp add: shows_boundary_def)

lemma groups_boundary:
  assumes "\<forall>j<length ws. uint (ws ! j) = wsum (group_of (g + j) xs)"
    and "rb_acc out = acc + wsum (take i xs)" "rb_acc out \<le> cap" "wsum (take (16 * g) xs) = wsum (take i xs)"
    and "\<not> rb_overflow out"
    and "boundary_groups cap ws g out i = (out', i')"
  shows "rb_acc out' = acc + wsum (take i' xs) \<and> rb_acc out' \<le> cap \<and> \<not> rb_overflow out'"
  using assms
proof (induction ws arbitrary: g out i)
  case (Cons w ws)

  let ?fit = "(tick out)\<lparr>rb_acc := rb_acc out + uint w\<rparr>"
  have acc: "rb_acc (tick out) = rb_acc out" "rb_overflow (tick out) = rb_overflow out"
    by (simp_all add: tick_def)
  have eq: "boundary_groups cap (w # ws) g out i = (if w = 0 then boundary_groups cap ws (g + 1) (tick out) i
      else if rb_acc out + uint w \<le> cap then boundary_groups cap ws (g + 1) ?fit ((g + 1) * 16)
      else (tick out, g * 16))"
    by (simp add: Let_def acc row_group_size_def)
  have w: "uint w = wsum (group_of g xs)" using Cons.prems(1) by fastforce
  have ws: "\<forall>j<length ws. uint (ws ! j) = wsum (group_of (g + 1 + j) xs)"
    using Cons.prems(1) by fastforce
  note tg = take_group [of g xs]
  consider "w = 0" | "w \<noteq> 0" "rb_acc out + uint w \<le> cap" | "w \<noteq> 0" "\<not> rb_acc out + uint w \<le> cap" by blast
  then show ?case
  proof cases
    case 1
    with w have "wsum (group_of g xs) = 0" by simp
    then have z: "wsum (take (16 * (g + 1)) xs) = wsum (take i xs)" using tg Cons.prems(4) by (simp add: add.commute)
    show ?thesis
      by (rule Cons.IH [OF ws _ _ z, of "tick out"]) (use Cons.prems 1 eq in \<open>simp_all add: acc\<close>)
  next
    case 2
    have t: "wsum (take ((g + 1) * 16) xs) = wsum (take i xs) + uint w"
      using tg w Cons.prems(4) by (simp add: add.commute mult.commute)
    show ?thesis
      by (rule Cons.IH [OF ws, of ?fit "(g + 1) * 16"])
        (use Cons.prems 2 t eq in \<open>simp_all add: acc mult.commute\<close>)
  next
    case 3
    with Cons.prems eq show ?thesis by (auto simp: acc mult.commute)
  qed
qed auto

lemma leaf_good_row: "leaf_good row_ops l \<Longrightarrow> length (rl_items l) \<le> 256 \<and> l = make_row_leaf (rl_items l)"
  by (simp add: leaf_good_def row_items leaf_max_def)

lemma leaf_boundary:
  assumes "leaf_good row_ops l" and "rb_acc out \<le> cap" "\<not> rb_overflow out"
  shows "shows_boundary (boundary_leaf cap l out) (first_over cap (rb_acc out) (rl_items l))"
proof -
  let ?xs = "rl_items l"
  note good = leaf_good_row [OF assms(1)]
  obtain out' i where g: "boundary_groups cap (rl_group_weight l) 0 out 0 = (out', i)" by (rule prod.exhaust)
  have gw: "rl_group_weight l = fst (finalize_groups (map ri_weight ?xs))"
    by (subst conjunct2 [OF good]) (simp add: make_row_leaf_def Let_def)
  note fin = finalize_ok [OF conjunct1 [OF good]]
  have "rb_acc out' = rb_acc out + wsum (take i ?xs) \<and> rb_acc out' \<le> cap \<and> \<not> rb_overflow out'"
    by (rule groups_boundary [OF _ _ assms(2) _ assms(3) g]) (use fin in \<open>simp_all add: gw\<close>)
  moreover have "first_over cap (rb_acc out) ?xs = first_over cap (rb_acc out + wsum (take i ?xs)) (drop i ?xs)"
    using calculation first_over_append [of cap "rb_acc out" "take i ?xs" "drop i ?xs"]
      first_over_fits [of "rb_acc out" "take i ?xs" cap] by simp
  ultimately show ?thesis
    using scan_boundary [of out' cap "drop i ?xs"] g by (simp add: boundary_leaf_def)
qed

lemma kids_boundary:
  assumes "list_all2 (\<lambda>ae xs. ra_total (fst ae) = wsum xs
      \<and> (\<forall>out. rb_acc out \<le> cap \<longrightarrow> \<not> rb_overflow out \<longrightarrow>
          shows_boundary (snd ae out) (first_over cap (rb_acc out) xs))) aes xss"
    and "rb_acc out \<le> cap" "\<not> rb_overflow out"
  shows "shows_boundary (boundary_kids cap aes out) (first_over cap (rb_acc out) (concat xss))"
  using assms
proof (induction aes xss arbitrary: out rule: list_all2_induct)
  case Nil
  then show ?case by (simp add: shows_boundary_def)
next
  case (Cons ae aes xs xss)
  obtain a enter where ae: "ae = (a, enter)" by (rule prod.exhaust)
  have acc: "rb_acc (tick out) = rb_acc out" "rb_overflow (tick out) = rb_overflow out"
    by (simp_all add: tick_def)
  show ?case
  proof (cases "rb_acc out + wsum xs \<le> cap")
    case True
    have "shows_boundary (boundary_kids cap aes ((tick out)\<lparr>rb_acc := rb_acc out + wsum xs\<rparr>))
        (first_over cap (rb_acc out + wsum xs) (concat xss))"
      using Cons.IH [of "(tick out)\<lparr>rb_acc := rb_acc out + wsum xs\<rparr>"] True Cons.prems by (simp add: acc)
    then show ?thesis
      using True Cons.hyps(1) first_over_fits [OF True] by (simp add: ae acc first_over_append Let_def)
  next
    case False
    then obtain a' x where f: "first_over cap (rb_acc out) xs = (a', Some x)"
      using first_over_some [OF Cons.prems(1), of xs] by auto
    have "shows_boundary (enter (tick out)) (first_over cap (rb_acc out) xs)"
      using Cons.hyps(1) Cons.prems by (metis ae acc snd_conv)
    then show ?thesis using False Cons.hyps(1) f by (simp add: ae acc first_over_append Let_def)
  qed
qed

lemma tree_boundary:
  "\<lbrakk>shaped row_ops h t; rb_acc out \<le> cap; \<not> rb_overflow out\<rbrakk> \<Longrightarrow>
    shows_boundary (boundary_tree cap t out) (first_over cap (rb_acc out) (flat row_ops t))"
proof (induction h arbitrary: t out)
  case 0
  then obtain seps aggs kids where t: "t = Leaf_node seps aggs kids" by (cases t) auto
  with 0 have k: "aggs = map row_leaf_agg kids" "list_all (leaf_good row_ops) kids"
    by (auto simp: body_ok_def row_items)
  have "shows_boundary (boundary_kids cap (zip aggs (map (\<lambda>l. boundary_leaf cap l) kids)) out)
      (first_over cap (rb_acc out) (concat (map rl_items kids)))"
    by (rule kids_boundary [OF _ 0(2,3)])
      (use k leaf_boundary leaf_agg_sound in \<open>auto simp: zip_map1 zip_map2 zip_same_conv_map list_all2_map1 list_all2_map2
          list_all_iff agg_sound_def intro!: list.rel_refl_strong\<close>)
  with t show ?case by (simp add: row_items)
next
  case (Suc h)
  then obtain seps aggs kids where t: "t = Inner_node seps aggs kids" by (cases t) auto
  with Suc have k: "aggs = map (node_agg row_ops) kids" "list_all (shaped row_ops h) kids"
    by (auto simp: body_ok_def)
  have "shows_boundary (boundary_kids cap (zip aggs (map (\<lambda>t. boundary_tree cap t) kids)) out)
      (first_over cap (rb_acc out) (concat (map (flat row_ops) kids)))"
    by (rule kids_boundary [OF _ Suc.prems(2,3)])
      (use k Suc.IH shaped_agg_sound in \<open>auto simp: zip_map1 zip_map2 zip_same_conv_map list_all2_map1 list_all2_map2
          list_all_iff agg_sound_def intro!: list.rel_refl_strong\<close>)
  with t show ?case by simp
qed

section \<open>The next row that fits\<close>

definition fits :: "8 word \<Rightarrow> row_item \<Rightarrow> bool" where
  "fits budget x \<longleftrightarrow> 0 < ri_weight x \<and> ri_weight x \<le> budget"

definition shows_hit :: "row_hit \<Rightarrow> row_item option \<Rightarrow> bool" where
  "shows_hit out r \<longleftrightarrow>
     (case r of None \<Rightarrow> \<not> rh_found out
      | Some x \<Rightarrow> rh_found out \<and> rh_name out = ri_name x \<and> rh_slot out = ri_slot x \<and> rh_weight out = ri_weight x)"

lemma find_append: "List.find P (xs @ ys) = (case List.find P xs of None \<Rightarrow> List.find P ys | Some x \<Rightarrow> Some x)"
  by (induction xs) auto

lemma scan_hit:
  "\<not> rh_found out \<Longrightarrow> shows_hit (hit_scan budget xs out) (List.find (fits budget) xs)"
proof (induction xs arbitrary: out)
  case (Cons x xs)
  have eq: "hit_scan budget (x # xs) out = (if ri_weight x = 0 \<or> budget < ri_weight x then hit_scan budget xs (hit_tick out)
      else (hit_tick out)\<lparr>rh_visited := rh_visited out + 1, rh_name := ri_name x, rh_slot := ri_slot x,
              rh_weight := ri_weight x, rh_found := True\<rparr>)"
    by (simp add: Let_def hit_tick_def)
  have "\<not> rh_found (hit_tick out)" using Cons.prems by (simp add: hit_tick_def)
  from Cons.IH [OF this] show ?case
    unfolding eq by (auto simp: fits_def word_pos_iff shows_hit_def not_less)
qed (simp add: shows_hit_def)

lemma drop_take_drop: "a \<le> b \<Longrightarrow> drop a xs = drop a (take b xs) @ drop b xs"
  using drop_append [of a "take b xs" "drop b xs"] by (cases "b \<le> length xs") auto

lemma drop_group:
  "drop (max lo start) xs = drop (max lo start) (take (lo + 16) xs) @ drop (max (lo + 16) start) xs"
  using drop_take_drop [of "max lo start" "lo + 16" xs] by (cases "start \<le> lo + 16") (auto simp: max_def)

lemma find_None_group:
  assumes "\<forall>x\<in>set (group_of g xs). 0 < ri_weight x \<longrightarrow> m \<le> ri_weight x" and "budget < m"
  shows "List.find (fits budget) (drop (max (16 * g) start) xs)
    = List.find (fits budget) (drop (max (16 * g + 16) start) xs)"
proof -
  let ?lo = "max (16 * g) start"
  note split = drop_group [of "16 * g" start xs]
  have "x \<in> set (group_of g xs)" if "x \<in> set (drop ?lo (take (16 * g + 16) xs))" for x
    using that set_drop_subset_set_drop [of "16 * g" ?lo "take (16 * g + 16) xs"] by (auto simp: group_of_def)
  then have "List.find (fits budget) (drop ?lo (take (16 * g + 16) xs)) = None"
    using assms by (auto simp: find_None_iff fits_def)
  then show ?thesis by (subst split) (simp add: find_append)
qed

lemma groups_hit:
  assumes "\<forall>j<length ms. \<forall>x\<in>set (group_of (g + j) items). 0 < ri_weight x \<longrightarrow> ms ! j \<le> ri_weight x"
    and "length items \<le> 16 * (g + length ms)" and "\<not> rh_found out"
  shows "shows_hit (hit_groups budget start items ms g out) (List.find (fits budget) (drop (max (16 * g) start) items))"
  using assms
proof (induction ms arbitrary: g out)
  case (Cons m ms)
  have m: "\<forall>x\<in>set (group_of g items). 0 < ri_weight x \<longrightarrow> m \<le> ri_weight x" using Cons.prems(1) by fastforce
  have ms: "\<forall>j<length ms. \<forall>x\<in>set (group_of (g + 1 + j) items). 0 < ri_weight x \<longrightarrow> ms ! j \<le> ri_weight x"
    using Cons.prems(1) by fastforce
  have nf: "\<not> rh_found (hit_tick out)" using Cons.prems(3) by (simp add: hit_tick_def)
  have len: "length items \<le> 16 * (g + 1 + length ms)" using Cons.prems(2) by simp
  let ?lo = "max (16 * g) start"
  let ?out2 = "hit_scan budget (drop ?lo (take (16 * g + 16) items)) (hit_tick out)"
  have "take (min (16 * g + 16) (length items)) items = take (16 * g + 16) items" by (simp add: min_def)
  then have eq: "hit_groups budget start items (m # ms) g out =
      (if budget < m then hit_groups budget start items ms (g + 1) (hit_tick out)
       else if rh_found ?out2 then ?out2 else hit_groups budget start items ms (g + 1) ?out2)"
    by (simp add: Let_def row_group_size_def mult.commute add.commute)
  show ?case
  proof (cases "budget < m")
    case True
    with Cons.IH [OF ms len nf] show ?thesis
      unfolding eq find_None_group [OF m True] by (simp add: add.commute)
  next
    case False
    have sc: "shows_hit ?out2 (List.find (fits budget) (drop ?lo (take (16 * g + 16) items)))"
      by (rule scan_hit [OF nf])
    note split = drop_group [of "16 * g" start items]
    show ?thesis
    proof (cases "rh_found ?out2")
      case True
      then obtain x where "List.find (fits budget) (drop ?lo (take (16 * g + 16) items)) = Some x"
        using sc by (auto simp: shows_hit_def split: option.splits)
      with True False sc show ?thesis unfolding eq by (subst split) (simp add: find_append)
    next
      case nf2: False
      then have "List.find (fits budget) (drop ?lo (take (16 * g + 16) items)) = None"
        using sc by (auto simp: shows_hit_def split: option.splits)
      with nf2 False Cons.IH [OF ms len nf2] show ?thesis
        unfolding eq by (subst split) (simp add: find_append add.commute)
    qed
  qed
qed (simp add: shows_hit_def)

definition beyond :: "string option \<Rightarrow> row_item \<Rightarrow> bool" where
  "beyond after x \<longleftrightarrow> (case after of None \<Rightarrow> True | Some n \<Rightarrow> n < ri_name x)"

lemma find_split:
  "\<lbrakk>\<forall>x\<in>set (take i xs). \<not> Q x; \<forall>x\<in>set (drop i xs). Q x\<rbrakk> \<Longrightarrow>
    List.find (\<lambda>x. Q x \<and> P x) xs = List.find P (drop i xs)"
proof -
  assume a: "\<forall>x\<in>set (take i xs). \<not> Q x" "\<forall>x\<in>set (drop i xs). Q x"
  have "List.find (\<lambda>x. Q x \<and> P x) (take i xs @ drop i xs) = List.find (\<lambda>x. Q x \<and> P x) (drop i xs)"
  proof -
    have "List.find (\<lambda>x. Q x \<and> P x) (take i xs) = None" using a(1) by (auto simp: find_None_iff)
    then show ?thesis by (simp only: find_append option.case)
  qed
  also have "\<dots> = List.find P (drop i xs)"
    using a(2) by (auto intro: find_cong)
  finally show ?thesis by simp
qed

lemma lower_bound_at:
  assumes "sorted_keys k xs" and "lower_bound k xs y < length xs"
  shows "y \<le> k (xs ! lower_bound k xs y)"
proof -
  note lb = lower_bound_spec [OF assms(1), of y]
  have "drop (lower_bound k xs y) xs \<noteq> []" using assms(2) by simp
  then have "\<not> k (hd (drop (lower_bound k xs y) xs)) < y" unfolding lb(2) by (rule hd_dropWhile)
  with assms(2) show ?thesis by (simp add: hd_drop_conv_nth)
qed

lemma after_start:
  assumes "sorted_keys ri_name items"
    and "start = (case after of None \<Rightarrow> 0
           | Some name \<Rightarrow>
               (let i = lower_bound ri_name items name in
                if i < length items \<and> ri_name (items ! i) = name then i + 1 else i))"
  shows "(\<forall>x\<in>set (take start items). \<not> beyond after x) \<and> (\<forall>x\<in>set (drop start items). beyond after x)"
proof (cases after)
  case None
  with assms show ?thesis by (simp add: beyond_def)
next
  case (Some n)
  let ?i = "lower_bound ri_name items n"
  note lb = lower_bound_spec [OF assms(1), of n]
  have before: "\<forall>x\<in>set (take ?i items). ri_name x < n" unfolding lb(1) by (auto dest: set_takeWhileD)
  have at: "n \<le> ri_name (items ! ?i)" if "?i < length items"
    by (rule lower_bound_at [OF assms(1) that])
  have rest: "ri_name (items ! ?i) < ri_name x" if "x \<in> set (drop (Suc ?i) items)" for x
  proof -
    have l: "?i < length items" using that by (cases "?i < length items") auto
    have "sorted_keys ri_name (drop ?i items)"
      using assms(1) by (simp add: drop_map [symmetric] sorted_wrt_drop)
    then show ?thesis using that l by (simp add: Cons_nth_drop_Suc [symmetric])
  qed
  show ?thesis
  proof (cases "?i < length items \<and> ri_name (items ! ?i) = n")
    case True
    then have "start = Suc ?i" using assms(2) Some by simp
    with True before rest Some show ?thesis
      by (auto simp: beyond_def take_Suc_conv_app_nth dest: less_asym)
  next
    case False
    then have s: "start = ?i" using assms(2) Some by (auto simp: Let_def)
    have "n < ri_name x" if x: "x \<in> set (drop ?i items)" for x
    proof -
      have l: "?i < length items" using x by (cases "?i < length items") auto
      then have "x = items ! ?i \<or> x \<in> set (drop (Suc ?i) items)"
        using x by (simp add: Cons_nth_drop_Suc [symmetric])
      with rest at [OF l] False l show ?thesis by (auto intro: le_less_trans)
    qed
    with s before Some show ?thesis by (auto simp: beyond_def dest: less_asym)
  qed
qed

lemma leaf_hit:
  assumes "leaf_good row_ops l" "sorted_keys ri_name (rl_items l)" "\<not> rh_found out"
  shows "shows_hit (hit_leaf after budget l out) (List.find (\<lambda>x. beyond after x \<and> fits budget x) (rl_items l))"
proof -
  let ?xs = "rl_items l"
  note good = leaf_good_row [OF assms(1)]
  define start where "start = (case after of None \<Rightarrow> 0
           | Some name \<Rightarrow>
               (let i = lower_bound ri_name ?xs name in
                if i < length ?xs \<and> ri_name (?xs ! i) = name then i + 1 else i))"
  have eq: "hit_leaf after budget l out = (if length ?xs \<le> start then out
      else hit_groups budget start ?xs (drop (start div 16) (rl_group_min l)) (start div 16) out)"
    by (simp add: hit_leaf_def start_def Let_def row_group_size_def)
  note st = after_start [OF assms(2) start_def]
  have f: "List.find (\<lambda>x. beyond after x \<and> fits budget x) ?xs = List.find (fits budget) (drop start ?xs)"
    using find_split st by blast
  show ?thesis
  proof (cases "length ?xs \<le> start")
    case True
    with f assms(3) show ?thesis by (simp add: eq shows_hit_def)
  next
    case False
    have gm: "rl_group_min l = snd (finalize_groups (map ri_weight ?xs))"
      by (subst conjunct2 [OF good]) (simp add: make_row_leaf_def Let_def)
    note fin = finalize_ok [OF conjunct1 [OF good], folded gm]
    have "start div 16 < 16" using False good by auto
    then have "shows_hit (hit_groups budget start ?xs (drop (start div 16) (rl_group_min l)) (start div 16) out)
        (List.find (fits budget) (drop (max (16 * (start div 16)) start) ?xs))"
      by (intro groups_hit) (use fin good assms(3) in auto)
    moreover have "max (16 * (start div 16)) start = start" by (simp add: max_def)
    ultimately show ?thesis using False by (simp add: eq f)
  qed
qed

lemma kids_hit:
  assumes "list_all2 (\<lambda>ae xs. agg_sound (fst ae) xs
      \<and> (\<forall>out. \<not> rh_found out \<longrightarrow> shows_hit (snd ae out) (List.find (\<lambda>x. Q x \<and> fits budget x) xs))) aes xss"
    and "\<not> rh_found out"
  shows "shows_hit (hit_kids budget aes out) (List.find (\<lambda>x. Q x \<and> fits budget x) (concat xss))"
  using assms
proof (induction aes xss arbitrary: out rule: list_all2_induct)
  case Nil
  then show ?case by (simp add: shows_hit_def)
next
  case (Cons ae aes xs xss)
  obtain a enter where ae: "ae = (a, enter)" by (rule prod.exhaust)
  let ?P = "\<lambda>x. Q x \<and> fits budget x"
  have nf: "\<not> rh_found (hit_tick out)" using Cons.prems by (simp add: hit_tick_def)
  show ?case
  proof (cases "ra_pos_count a = 0 \<or> budget < ra_min_pos a")
    case True
    then have "\<forall>x\<in>set xs. \<not> fits budget x"
      using Cons.hyps(1) by (auto simp: ae agg_sound_def fits_def)
    then have "List.find ?P xs = None" by (simp add: find_None_iff)
    with True Cons.IH [OF nf] show ?thesis by (simp add: ae find_append Let_def)
  next
    case False
    have e: "shows_hit (enter (hit_tick out)) (List.find ?P xs)" using Cons.hyps(1) nf ae by simp
    show ?thesis
    proof (cases "List.find ?P xs")
      case None
      with e have "\<not> rh_found (enter (hit_tick out))" by (simp add: shows_hit_def)
      with Cons.IH [OF this] None False show ?thesis by (simp add: ae find_append Let_def)
    next
      case (Some x)
      with e False show ?thesis by (simp add: ae find_append Let_def shows_hit_def)
    qed
  qed
qed

lemma leaf_in_sorted: "fenced (leaf_in row_ops) lo kids seps hi \<Longrightarrow> l \<in> set kids \<Longrightarrow> sorted_keys ri_name (rl_items l)"
proof (induction "leaf_in row_ops" lo kids seps hi rule: fenced.induct)
qed (auto simp: leaf_in_def row_items)

lemma fenced_member: "fenced P lo cs ss hi \<Longrightarrow> c \<in> set cs \<Longrightarrow> \<exists>lo hi. P lo hi c"
  by (induction P lo cs ss hi rule: fenced.induct) auto

lemma tree_hit:
  "\<lbrakk>shaped row_ops h t; ordered row_ops lo hi t; \<not> rh_found out\<rbrakk> \<Longrightarrow>
    shows_hit (hit_tree after budget t out) (List.find (\<lambda>x. beyond after x \<and> fits budget x) (flat row_ops t))"
proof (induction h arbitrary: t lo hi out)
  case 0
  then obtain seps aggs kids where t: "t = Leaf_node seps aggs kids" by (cases t) auto
  with 0 have k: "aggs = map row_leaf_agg kids" "\<forall>l\<in>set kids. leaf_good row_ops l"
      "\<forall>l\<in>set kids. sorted_keys ri_name (rl_items l)"
    using leaf_in_sorted by (auto simp: body_ok_def row_items list_all_iff)
  have "shows_hit (hit_kids budget (zip aggs (map (\<lambda>l. hit_leaf after budget l) kids)) out)
      (List.find (\<lambda>x. beyond after x \<and> fits budget x) (concat (map rl_items kids)))"
    by (rule kids_hit [OF _ 0(3)])
      (use k leaf_hit leaf_agg_sound in \<open>auto simp: zip_map1 zip_map2 zip_same_conv_map list_all2_map1 list_all2_map2
          intro!: list.rel_refl_strong\<close>)
  with t show ?case by (simp add: row_items)
next
  case (Suc h)
  then obtain seps aggs kids where t: "t = Inner_node seps aggs kids" by (cases t) auto
  with Suc.prems have k: "aggs = map (node_agg row_ops) kids" "\<forall>c\<in>set kids. shaped row_ops h c"
      "\<forall>c\<in>set kids. \<exists>lo hi. ordered row_ops lo hi c"
    using fenced_member by (auto simp: body_ok_def list_all_iff)
  have "shows_hit (hit_kids budget (zip aggs (map (\<lambda>t. hit_tree after budget t) kids)) out)
      (List.find (\<lambda>x. beyond after x \<and> fits budget x) (concat (map (flat row_ops) kids)))"
    by (rule kids_hit [OF _ Suc.prems(3)])
      (use k Suc.IH shaped_agg_sound in \<open>auto simp: zip_map1 zip_map2 zip_same_conv_map list_all2_map1 list_all2_map2
          intro!: list.rel_refl_strong\<close>)
  with t show ?case by simp
qed

section \<open>Every positive row of a range\<close>

definition wanted :: "string \<Rightarrow> string option \<Rightarrow> row_item \<Rightarrow> bool" where
  "wanted lo hi x \<longleftrightarrow> lo \<le> ri_name x \<and> (\<forall>h. hi = Some h \<longrightarrow> ri_name x < h) \<and> 0 < ri_weight x"

text \<open>The elements up to and including the first on which the callback stops.\<close>

definition upto_stop :: "('b \<Rightarrow> bool) \<Rightarrow> 'b list \<Rightarrow> 'b list" where
  "upto_stop go_on xs = takeWhile go_on xs @ take 1 (dropWhile go_on xs)"

lemma upto_stop_simps:
  "upto_stop go_on [] = []"
  "upto_stop go_on (x # xs) = (if go_on x then x # upto_stop go_on xs else [x])"
  by (simp_all add: upto_stop_def)

lemma upto_stop_append:
  "upto_stop go_on (xs @ ys) = (if list_all go_on xs then xs @ upto_stop go_on ys else upto_stop go_on xs)"
  by (induction xs) (auto simp: upto_stop_simps)

lemma upto_stop_all: "list_all go_on xs \<Longrightarrow> upto_stop go_on xs = xs"
  by (induction xs) (auto simp: upto_stop_simps)

text \<open>What a walk over rows \<open>xs\<close> returns: the rows seen, and if it stops, that was the callback's
  doing or nothing wanted can follow.\<close>

definition walks :: "string \<Rightarrow> string option \<Rightarrow> (row_item \<Rightarrow> bool) \<Rightarrow> row_item list \<Rightarrow> row_item list
    \<Rightarrow> bool \<times> row_item list \<Rightarrow> bool" where
  "walks lo hi go_on xs seen r \<longleftrightarrow>
     snd r = seen @ upto_stop go_on (filter (wanted lo hi) xs)
     \<and> (fst r \<longrightarrow> list_all go_on (filter (wanted lo hi) xs))
     \<and> (\<not> fst r \<longrightarrow> \<not> list_all go_on (filter (wanted lo hi) xs) \<or> (\<exists>h x. hi = Some h \<and> x \<in> set xs \<and> h \<le> ri_name x))"

lemma positive_items_walks:
  assumes "sorted_keys ri_name xs" and "\<forall>x\<in>set xs. lo \<le> ri_name x"
  shows "walks lo hi go_on xs seen (positive_items hi go_on xs seen)"
  using assms
proof (induction xs arbitrary: seen)
  case (Cons x xs)
  then have tail: "sorted_keys ri_name xs" "\<forall>y\<in>set xs. lo \<le> ri_name y" "\<forall>y\<in>set xs. ri_name x < ri_name y" by auto
  note ih = Cons.IH [OF tail(1,2)]
  show ?case
  proof (cases "\<exists>h. hi = Some h \<and> h \<le> ri_name x")
    case True
    then obtain h where h: "hi = Some h" "h \<le> ri_name x" by blast
    then have "\<forall>y\<in>set (x # xs). \<not> wanted lo hi y"
      using tail(3) by (auto simp: wanted_def not_less intro: order_trans less_imp_le)
    then have "filter (wanted lo hi) (x # xs) = []" by (simp add: filter_empty_conv)
    with h show ?thesis by (auto simp: walks_def upto_stop_simps)
  next
    case False
    then have hi: "\<not> (case hi of None \<Rightarrow> False | Some h \<Rightarrow> h \<le> ri_name x)" by (auto split: option.split)
    have w: "wanted lo hi x \<longleftrightarrow> ri_weight x \<noteq> 0"
      using False Cons.prems(2) by (auto simp: wanted_def word_pos_iff not_le)
    show ?thesis
      using hi w ih [of seen] ih [of "seen @ [x]"] by (auto simp: walks_def upto_stop_simps)
  qed
qed (simp add: walks_def upto_stop_simps)

lemma walks_leaf:
  assumes "sorted_keys ri_name xs"
  shows "walks lo hi go_on xs seen (positive_items hi go_on (drop (lower_bound ri_name xs lo) xs) seen)"
proof -
  let ?ys = "drop (lower_bound ri_name xs lo) xs"
  note lb = lower_bound_spec [OF assms, of lo]
  have s: "sorted_keys ri_name ?ys" using assms by (simp add: drop_map [symmetric] sorted_wrt_drop)
  have ge: "\<forall>x\<in>set ?ys. lo \<le> ri_name x"
  proof (cases ?ys)
    case (Cons y ys)
    then have "\<not> ri_name y < lo" using hd_dropWhile [of "\<lambda>x. ri_name x < lo" xs] lb(2) by auto
    with s Cons show ?thesis by (auto simp: not_less intro: order_trans less_imp_le)
  qed simp
  have "\<forall>x\<in>set (take (lower_bound ri_name xs lo) xs). \<not> wanted lo hi x"
    unfolding lb(1) by (auto simp: wanted_def dest: set_takeWhileD)
  then have "filter (wanted lo hi) (take (lower_bound ri_name xs lo) xs) = []" by (simp add: filter_empty_conv)
  then have "filter (wanted lo hi) xs = filter (wanted lo hi) ?ys"
    by (metis append_Nil append_take_drop_id filter_append)
  with positive_items_walks [OF s ge, of hi go_on seen] show ?thesis
    by (auto simp: walks_def dest: in_set_dropD)
qed

lemma kids_walk:
  assumes "list_all2 (\<lambda>ae xs. agg_sound (fst ae) xs \<and> (\<forall>seen. walks lo hi go_on xs seen (snd ae seen))) aes xss"
    and "sorted_keys ri_name (concat xss)"
  shows "walks lo hi go_on (concat xss) seen (positive_kids aes seen)"
  using assms
proof (induction aes xss arbitrary: seen rule: list_all2_induct)
  case Nil
  then show ?case by (simp add: walks_def upto_stop_simps)
next
  case (Cons ae aes xs xss)
  obtain a enter where ae: "ae = (a, enter)" by (rule prod.exhaust)
  have tail: "sorted_keys ri_name (concat xss)" "\<forall>x\<in>set xs. \<forall>y\<in>set (concat xss). ri_name x < ri_name y"
    using Cons.prems by (auto simp: sorted_wrt_append)
  let ?w = "filter (wanted lo hi)"
  show ?case
  proof (cases "ra_pos_count a = 0")
    case True
    then have "\<forall>x\<in>set xs. \<not> wanted lo hi x"
      using Cons.hyps(1) by (auto simp: ae agg_sound_def wanted_def)
    then have e: "?w xs = []" by (simp add: filter_empty_conv)
    with True Cons.IH [OF tail(1), of seen] show ?thesis
      by (auto simp: ae walks_def)
  next
    case False
    have en: "walks lo hi go_on xs seen (enter seen)" using Cons.hyps(1) ae by simp
    show ?thesis
    proof (cases "fst (enter seen)")
      case True
      with en have "list_all go_on (?w xs)" "snd (enter seen) = seen @ ?w xs"
        by (auto simp: walks_def upto_stop_all)
      with True False Cons.IH [OF tail(1), of "snd (enter seen)"] show ?thesis
        by (auto simp: ae walks_def upto_stop_append)
    next
      case stop: False
      have "\<not> list_all go_on (?w xs) \<or> ?w (concat xss) = []"
      proof (rule disjCI)
        assume "?w (concat xss) \<noteq> []"
        then obtain y where "y \<in> set (concat xss)" "wanted lo hi y" by (auto simp: filter_empty_conv)
        with en stop tail(2) show "\<not> list_all go_on (?w xs)"
          by (fastforce simp: walks_def wanted_def)
      qed
      with en stop False show ?thesis
        by (auto simp: ae walks_def upto_stop_append upto_stop_simps upto_stop_all)
    qed
  qed
qed

lemma tree_walk:
  "\<lbrakk>shaped row_ops h t; ordered row_ops lo' hi' t\<rbrakk> \<Longrightarrow>
    walks lo hi go_on (flat row_ops t) seen (positive_tree lo hi go_on t seen)"
proof (induction h arbitrary: t lo' hi' seen)
  case 0
  then obtain seps aggs kids where t: "t = Leaf_node seps aggs kids" by (cases t) auto
  with 0 have k: "aggs = map row_leaf_agg kids" "\<forall>l\<in>set kids. sorted_keys ri_name (rl_items l)"
    using leaf_in_sorted by (auto simp: body_ok_def row_items)
  have srt: "sorted_keys ri_name (concat (map rl_items kids))"
    using ordered_flat [OF 0(2)] t by (simp add: row_items)
  have "walks lo hi go_on (concat (map rl_items kids)) seen
      (positive_kids (zip aggs (map (\<lambda>l. positive_items hi go_on (drop (lower_bound ri_name (rl_items l) lo) (rl_items l))) kids)) seen)"
    by (rule kids_walk [OF _ srt])
      (use k walks_leaf leaf_agg_sound in \<open>auto simp: zip_map1 zip_map2 zip_same_conv_map list_all2_map1 list_all2_map2
          intro!: list.rel_refl_strong\<close>)
  with t show ?case by (simp add: row_items)
next
  case (Suc h)
  then obtain seps aggs kids where t: "t = Inner_node seps aggs kids" by (cases t) auto
  with Suc.prems have k: "aggs = map (node_agg row_ops) kids" "\<forall>c\<in>set kids. shaped row_ops h c"
      "\<forall>c\<in>set kids. \<exists>lo hi. ordered row_ops lo hi c"
    using fenced_member by (auto simp: body_ok_def list_all_iff)
  have srt: "sorted_keys ri_name (concat (map (flat row_ops) kids))"
    using ordered_flat [OF Suc.prems(2)] t by (simp add: row_items)
  have "walks lo hi go_on (concat (map (flat row_ops) kids)) seen
      (positive_kids (zip aggs (map (\<lambda>t. positive_tree lo hi go_on t) kids)) seen)"
    by (rule kids_walk [OF _ srt])
      (use k Suc.IH shaped_agg_sound in \<open>auto simp: zip_map1 zip_map2 zip_same_conv_map list_all2_map1 list_all2_map2
          intro!: list.rel_refl_strong\<close>)
  with t show ?case by simp
qed

end
