(* ===== verification/Row_Props.thy ===== *)
theory Row_Props
  imports Row_Laws
begin

text \<open>The properties of the row directory, with the trees on which they are evaluated.\<close>

section \<open>Lookup and batches\<close>

lemma find_eq_unique:
  "\<lbrakk>sorted_keys k xs; x \<in> set xs; k x = y\<rbrakk> \<Longrightarrow> List.find (\<lambda>x. k x = y) xs = Some x"
  by (induction xs) auto

lemma find_in_leaf_ok:
  assumes "sorted_keys ri_name (rl_items l)"
  shows "find_in_leaf name l = map_option (\<lambda>x. (ri_slot x, ri_weight x)) (List.find (\<lambda>x. ri_name x = name) (rl_items l))"
proof -
  let ?xs = "rl_items l" and ?i = "lower_bound ri_name (rl_items l) name"
  note lb = lower_bound_spec [OF assms, of name]
  show ?thesis
  proof (cases "?i < length ?xs \<and> ri_name (?xs ! ?i) = name")
    case True
    then show ?thesis
      using find_eq_unique [OF assms nth_mem, of ?i name] by (simp add: find_in_leaf_def Let_def)
  next
    case False
    have "ri_name x \<noteq> name" if x: "x \<in> set ?xs" for x
    proof
      assume n: "ri_name x = name"
      from x have "x \<in> set (take ?i ?xs) \<or> x \<in> set (drop ?i ?xs)"
        by (metis Un_iff append_take_drop_id set_append)
      then show False
      proof
        assume "x \<in> set (take ?i ?xs)"
        then show False using n unfolding lb(1) by (auto dest: set_takeWhileD)
      next
        assume d: "x \<in> set (drop ?i ?xs)"
        then have l: "?i < length ?xs" by (cases "?i < length ?xs") auto
        from lower_bound_at [OF assms this] have "\<not> ri_name (?xs ! ?i) < name" by simp
        moreover have "x = ?xs ! ?i \<or> ri_name (?xs ! ?i) < ri_name x"
        proof -
          have "sorted_keys ri_name (drop ?i ?xs)" using assms by (simp add: drop_map [symmetric] sorted_wrt_drop)
          with d l show ?thesis by (auto simp: Cons_nth_drop_Suc [symmetric])
        qed
        ultimately show False using False l n by auto
      qed
    qed
    then have "List.find (\<lambda>x. ri_name x = name) ?xs = None" by (auto simp: find_None_iff)
    with False show ?thesis by (auto simp: find_in_leaf_def Let_def)
  qed
qed

lemma row_find_leaf: "row_find t name = Option.bind (leaf_of name t) (find_in_leaf name)"
proof (induction t)
  case (Inner_node seps aggs kids)
  then show ?case by (simp add: Let_def nth_mem)
qed (simp add: Let_def)

lemma row_find_flat:
  assumes "ordered row_ops None None t"
  shows "row_find t name = map_option (\<lambda>x. (ri_slot x, ri_weight x)) (List.find (\<lambda>x. ri_name x = name) (flat row_ops t))"
proof -
  from leaf_of_ok [OF assms, of name] obtain l as bs where l: "leaf_of name t = Some l"
    "flat row_ops t = as @ rl_items l @ bs" "\<forall>x\<in>set as. ri_name x < name" "\<forall>x\<in>set bs. name < ri_name x"
    "sorted_keys ri_name (rl_items l)"
    by (auto simp: row_items)
  have "List.find (\<lambda>x. ri_name x = name) as = None" "List.find (\<lambda>x. ri_name x = name) bs = None"
    using l(3,4) by (auto simp: find_None_iff)
  then show ?thesis
    using find_in_leaf_ok [OF l(5), of name] l(1,2)
    by (auto simp: row_find_leaf find_append split: option.split)
qed

lemma count_flat: "row_tree_count t = entries row_ops t"
proof (induction t)
  case (Inner_node seps aggs kids)
  then have "map row_tree_count kids = map (entries row_ops) kids" by simp
  then show ?case by (simp add: entries_sum del: map_eq_conv)
qed (simp add: row_items length_concat o_def)

lemma find_merge:
  assumes "sorted_keys ri_name xs" "ops_ok ri_name ops"
  shows "List.find (\<lambda>x. ri_name x = name) (merge_ops ri_name xs ops) =
    (case List.find (\<lambda>p. op_key p = name) ops of
       None \<Rightarrow> List.find (\<lambda>x. ri_name x = name) xs
     | Some p \<Rightarrow> if op_remove p then None else Some (op_entry p))"
proof -
  let ?m = "merge_ops ri_name xs ops"
  note sm = set_merge [OF assms] and srt = merge_sorted [OF assms]
  show ?thesis
  proof (cases "List.find (\<lambda>p. op_key p = name) ops")
    case None
    then have ops: "\<forall>p\<in>set ops. op_key p \<noteq> name" by (auto simp: find_None_iff)
    show ?thesis
    proof (cases "List.find (\<lambda>x. ri_name x = name) xs")
      case none: None
      then have "\<forall>x\<in>set ?m. ri_name x \<noteq> name"
        using ops assms(2) by (auto simp: sm find_None_iff ops_ok_def)
      then have "List.find (\<lambda>x. ri_name x = name) ?m = None" by (auto simp: find_None_iff)
      with None none show ?thesis by simp
    next
      case (Some x)
      then have x: "x \<in> set xs" "ri_name x = name" by (auto simp: find_Some_iff)
      then have "x \<in> set ?m" using ops by (auto simp: sm)
      from find_eq_unique [OF srt this x(2)] None Some show ?thesis by simp
    qed
  next
    case (Some p)
    then have p: "p \<in> set ops" "op_key p = name" by (auto simp: find_Some_iff)
    have uniq: "q = p" if "q \<in> set ops" "op_key q = name" for q
      using that p assms(2) by (metis find_eq_unique ops_ok_def option.inject)
    show ?thesis
    proof (cases "op_remove p")
      case True
      have "ri_name x \<noteq> name" if "x \<in> set ?m" for x
        using that unfolding sm
      proof
        assume "x \<in> {op_entry q |q. q \<in> set ops \<and> \<not> op_remove q}"
        then obtain q where q: "x = op_entry q" "q \<in> set ops" "\<not> op_remove q" by blast
        then have "ri_name x = op_key q" using assms(2) by (simp add: ops_ok_def)
        with uniq [OF q(2)] q(3) True show ?thesis by auto
      qed (use p in auto)
      then have "List.find (\<lambda>x. ri_name x = name) ?m = None" by (auto simp: find_None_iff)
      with Some True show ?thesis by simp
    next
      case False
      then have "op_entry p \<in> set ?m" "ri_name (op_entry p) = name"
        using p assms(2) by (auto simp: sm ops_ok_def)
      from find_eq_unique [OF srt this] Some False show ?thesis by simp
    qed
  qed
qed


lemma new_row_tree_ok: "tree_ok row_ops new_row_tree"
proof -
  have l: "rl_items (make_row_leaf []) = []" by (simp add: make_row_leaf_def Let_def)
  then have "ordered row_ops None None new_row_tree"
    by (simp add: new_row_tree_def Let_def leaf_in_def row_items bounds_le_def)
  moreover have "shaped row_ops 0 new_row_tree"
    by (simp add: new_row_tree_def Let_def body_ok_def row_items leaf_good_def l)
  ultimately show ?thesis by (auto simp: tree_ok_def)
qed

definition demo_row_batch :: "row_op list" where
  "demo_row_batch = [row_store ''api'' 1 3, row_store ''db'' 2 0, row_store ''web'' 3 7]"

definition demo_rows_tree :: row_node where
  "demo_rows_tree = fst (row_apply new_row_tree demo_row_batch no_stats)"

lemma demo_batch_ok: "ops_ok ri_name demo_row_batch" "unsplit (tree_fences new_row_tree) demo_row_batch"
  by (simp add: ops_ok_def demo_row_batch_def row_store_def) code_simp

lemma demo_rows_tree_ok: "tree_ok row_ops demo_rows_tree"
  using rows.apply_tree_shape [OF new_row_tree_ok _ demo_batch_ok(2), of no_stats]
    demo_batch_ok(1) by (simp add: row_items demo_rows_tree_def row_apply_def) (metis prod.collapse)


text \<open>
  The queries with summaries are the plain scans: the boundary of the weight cap, found by
  descending over subtree totals and group sums, is the first row at which the running sum of
  weights in name order passes the cap, with the sum before it; without such a row the sum is
  the total and \<open>overflow\<close> is false.
\<close>

lemma prefix_boundary_is_first_over:
  assumes "tree_ok row_ops t" and "0 \<le> cap"
  shows "shows_boundary (row_prefix_boundary t cap) (first_over cap 0 (flat row_ops t))"
proof -
  from assms(1) obtain h where "shaped row_ops h t" by (auto simp: tree_ok_def)
  from tree_boundary [OF this, of no_boundary cap] assms(2) show ?thesis
    by (simp add: row_prefix_boundary_def no_boundary_def)
qed

text \<open>
  \<open>rowNextFitting\<close> answers the first row in name order, after the given name when there is
  one, whose weight is positive and within the budget; skipping subtrees and groups by their
  smallest weight misses none.
\<close>

lemma next_fitting_is_first:
  assumes "tree_ok row_ops t"
  shows "shows_hit (row_next_fitting t after_name budget has_after)
    (List.find (\<lambda>x. (has_after \<longrightarrow> after_name < ri_name x) \<and> 0 < ri_weight x \<and> ri_weight x \<le> budget) (flat row_ops t))"
proof -
  from assms obtain h where h: "shaped row_ops h t" "ordered row_ops None None t" by (auto simp: tree_ok_def)
  have "beyond (if has_after then Some after_name else None) x \<longleftrightarrow> (has_after \<longrightarrow> after_name < ri_name x)" for x
    by (simp add: beyond_def)
  with tree_hit [OF h, of no_hit "if has_after then Some after_name else None" budget] show ?thesis
    by (simp add: row_next_fitting_def no_hit_def fits_def)
qed

text \<open>
  \<open>rowEachPositive\<close> calls back exactly the rows of positive weight in the half-open range of
  names, in order, until the callback stops it.
\<close>

lemma each_positive_is_filter:
  assumes "tree_ok row_ops t"
  shows "row_each_positive t lo_name hi_name has_hi go_on = upto_stop go_on
    (filter (\<lambda>x. lo_name \<le> ri_name x \<and> (has_hi \<longrightarrow> ri_name x < hi_name) \<and> 0 < ri_weight x) (flat row_ops t))"
proof -
  from assms obtain h where h: "shaped row_ops h t" "ordered row_ops None None t" by (auto simp: tree_ok_def)
  have "wanted lo_name (if has_hi then Some hi_name else None)
      = (\<lambda>x. lo_name \<le> ri_name x \<and> (has_hi \<longrightarrow> ri_name x < hi_name) \<and> 0 < ri_weight x)"
    by (rule ext) (simp add: wanted_def)
  with tree_walk [OF h, of lo_name "if has_hi then Some hi_name else None" go_on "[]"] show ?thesis
    by (simp add: row_each_positive_def walks_def)
qed

text \<open>
  Folding a wide root ends with at most \<open>treeFanout\<close> children and changes no row: the result is
  well-formed, with exact aggregates, and holds the same rows in the same order.
\<close>

lemma balance_row_root_bounds:
  assumes "tree_ok row_ops t" and "balance_row_root t st = (t', st')"
  shows "tree_ok row_ops t' \<and> flat row_ops t' = flat row_ops t \<and> child_count t' \<le> 32"
  using balance_root_ok [OF assms(1) assms(2) [unfolded balance_row_root_def]] by (simp add: tree_fanout_def)

end
