(* ===== verification/Row_Fault.thy ===== *)
theory Row_Fault
  imports Row_Props
begin

text \<open>
  A batch that touches the last two leaves of a node. The code splits the batch by child before it
  changes anything and applies the parts from the last child to the first; when the last leaf
  shrinks below its minimum it takes entries from its left sibling, so the fence moves down, and
  the part of the batch that was cut by the old fence is then applied to the shortened sibling.
\<close>

lemma length_merge_one:
  "length xs \<le> Suc (length (merge_ops k xs [p])) \<and> length (merge_ops k xs [p]) \<le> Suc (length xs)"
  by (induction xs) auto

lemma child_index_one: "child_index [f] x = (if f \<le> x then 1 else 0)"
  by (simp add: child_index_def bisect.simps)

lemma apply_right_leaf:
  assumes "length bs < 64" "256 < length as + length bs" "length as \<le> 256"
  shows "\<exists>aggs' st'. apply_to_leaf row_ops 1 [row_remove (ri_name b)] ([f], aggs, [make_row_leaf as, make_row_leaf (b # bs)]) st
    = (([ri_name (as ! ((length as + length bs) div 2))], aggs',
        [make_row_leaf (take ((length as + length bs) div 2) as),
         make_row_leaf (drop ((length as + length bs) div 2) (as @ bs))]), st')"
proof -
  let ?m = "(length as + length bs) div 2"
  have m: "?m < length as" using assms by auto
  have items: "rl_items (make_row_leaf xs) = xs" for xs by (simp add: make_row_leaf_def Let_def)
  have "merge_ops ri_name (b # bs) [row_remove (ri_name b)] = bs" by (simp add: row_remove_def)
  then show ?thesis
    using assms m
    by (auto simp: apply_to_leaf_def Let_def row_items items rebalance_leaf_def leaf_max_def leaf_min_def
        replace_at_def nth_append simp del: merge_ops.simps)
qed

lemma apply_left_leaf:
  assumes "128 \<le> length xs" "length xs < 256"
  shows "\<exists>aggs' l st'. apply_to_leaf row_ops 0 [p] ([f], aggs, [make_row_leaf xs, r]) st = (([f], aggs', [l, r]), st')"
proof -
  have items: "rl_items (make_row_leaf xs) = xs" for xs by (simp add: make_row_leaf_def Let_def)
  show ?thesis
    using length_merge_one [of xs ri_name p] assms
    by (simp add: apply_to_leaf_def Let_def row_items items rebalance_leaf_def leaf_max_def leaf_min_def replace_at_def)
qed

lemma redistributed_batch:
  assumes t: "t = Leaf_node [f] aggs [make_row_leaf as, make_row_leaf (b # bs)]" and ok: "tree_ok row_ops t"
    and len: "length bs < 64" "256 < length as + length bs"
    and p: "ri_name (as ! ((length as + length bs) div 2)) \<le> op_key p" "op_key p < f"
  shows "row_find (fst (row_apply t [p, row_remove (ri_name b)] st)) (op_key p) = row_find t (op_key p)"
proof -
  let ?m = "(length as + length bs) div 2" and ?q = "row_remove (ri_name b)" and ?k = "op_key p"
  have items: "rl_items (make_row_leaf xs) = xs" for xs by (simp add: make_row_leaf_def Let_def)
  from ok t have o: "ordered row_ops None None t" and "\<exists>h. shaped row_ops h t" by (auto simp: tree_ok_def)
  then have as: "length as \<le> 256" using t by (auto simp: body_ok_def leaf_good_def row_items items leaf_max_def)
  have m: "?m < length as" "128 \<le> ?m" using len as by auto
  from o t have srt: "sorted_keys ri_name as" "sorted_keys ri_name (b # bs)" and fb: "\<forall>x\<in>set (b # bs). f \<le> ri_name x"
    by (auto simp: leaf_in_def row_items items in_range_def)
  have b: "f \<le> ri_name b" using fb by simp
  define st1 where "st1 = st\<lparr>st_nodes_copied := st_nodes_copied st + 1\<rparr>"
  define right where "right = make_row_leaf (drop ?m (as @ bs))"
  obtain aggs1 st2 where a1: "apply_to_leaf row_ops 1 [?q] ([f], aggs, [make_row_leaf as, make_row_leaf (b # bs)]) st1
    = (([ri_name (as ! ?m)], aggs1, [make_row_leaf (take ?m as), right]), st2)"
    unfolding right_def using apply_right_leaf [OF len as] by blast
  have "128 \<le> length (take ?m as)" "length (take ?m as) < 256" using m as by auto
  then obtain aggs2 l st3 where a2: "apply_to_leaf row_ops 0 [p] ([ri_name (as ! ?m)], aggs1,
      [make_row_leaf (take ?m as), right]) st2 = (([ri_name (as ! ?m)], aggs2, [l, right]), st3)"
    using apply_left_leaf by blast
  have c: "op_chunks [f] [p, ?q] = [(0, [p]), (1, [?q])]"
    using p b by (simp add: child_index_one row_remove_def not_le)
  have "fst (row_apply t [p, ?q] st) = Leaf_node [ri_name (as ! ?m)] aggs2 [l, right]"
    using a1 a2
    by (simp add: row_apply_def apply_tree_def t leaf_step_def Let_def st1_def [symmetric] c del: op_chunks.simps)
  then have new: "row_find (fst (row_apply t [p, ?q] st)) ?k = find_in_leaf ?k (make_row_leaf (drop ?m (as @ bs)))"
    using p(1) by (simp add: child_index_one Let_def right_def)
  have old: "row_find t ?k = find_in_leaf ?k (make_row_leaf as)"
    using p(2) by (auto simp: t child_index_one Let_def)
  have "sorted_keys ri_name (flat row_ops t)" using ordered_flat [OF o] by (simp add: row_items)
  then have "sorted_keys ri_name (as @ bs)" by (auto simp: t row_items items sorted_wrt_append)
  then have "sorted_keys ri_name (drop ?m (as @ bs))" by (metis drop_map sorted_wrt_drop)
  then have new': "row_find (fst (row_apply t [p, ?q] st)) ?k
      = map_option (\<lambda>x. (ri_slot x, ri_weight x)) (List.find (\<lambda>x. ri_name x = ?k) (drop ?m (as @ bs)))"
    unfolding new by (subst find_in_leaf_ok) (simp_all add: items)
  have old': "row_find t ?k = map_option (\<lambda>x. (ri_slot x, ri_weight x)) (List.find (\<lambda>x. ri_name x = ?k) as)"
    unfolding old by (subst find_in_leaf_ok) (simp_all add: items srt)
  have "List.find (\<lambda>x. ri_name x = ?k) (take ?m as) = None"
  proof -
    have "ri_name x < ri_name (as ! ?m)" if x: "x \<in> set (take ?m as)" for x
    proof -
      have "as = take ?m as @ as ! ?m # drop (Suc ?m) as" by (rule id_take_nth_drop [OF m(1)])
      with srt(1) have "sorted_keys ri_name (take ?m as @ as ! ?m # drop (Suc ?m) as)" by simp
      with x show ?thesis by (simp add: sorted_wrt_append)
    qed
    with p(1) show ?thesis by (fastforce simp: find_None_iff)
  qed
  moreover have "List.find (\<lambda>x. ri_name x = ?k) bs = None"
    using fb p(2) by (fastforce simp: find_None_iff)
  moreover have "List.find (\<lambda>x. ri_name x = ?k) as = List.find (\<lambda>x. ri_name x = ?k) (take ?m as @ drop ?m as)" by simp
  ultimately show ?thesis
    unfolding new' old' using m(1) by (simp add: find_append del: append_take_drop_id split: option.split)
qed

text \<open>
  (C20) An operation of a batch can vanish: when the batch also removes the first row of the last
  leaf and that leaf falls below its minimum, an operation on a name in the upper part of its
  left sibling goes to the wrong leaf. Whether it stores or removes, lookups of that name answer
  what they answered before the batch.
\<close>

theorem batch_operation_lost:
  assumes "t = Leaf_node [f] aggs [make_row_leaf as, make_row_leaf (b # bs)]" "tree_ok row_ops t"
    and "length bs < 64" "256 < length as + length bs"
    and "ri_name (as ! ((length as + length bs) div 2)) \<le> op_key p" "op_key p < f"
  shows "row_find (fst (row_apply t [p, row_remove (ri_name b)] st)) (op_key p) = row_find t (op_key p)"
  by (rule redistributed_batch [OF assms])

text \<open>A directory of 250 and 64 rows, named by growing runs of a letter.\<close>

definition run_row :: "nat \<Rightarrow> row_item" where
  "run_row i = \<lparr>ri_name = replicate i CHR ''a'', ri_slot = word_of_nat i, ri_weight = 0\<rparr>"

definition two_runs :: "nat \<Rightarrow> nat \<Rightarrow> row_node" where
  "two_runs n m = (let kids = [make_row_leaf (map run_row [0..<n]), make_row_leaf (run_row n # map run_row [Suc n..<m])] in
     Leaf_node [ri_name (run_row n)] (map row_leaf_agg kids) kids)"

lemma run_less: "i < j \<Longrightarrow> replicate i c < replicate j (c::char)"
proof -
  assume "i < j"
  then obtain d where "j = i + Suc d" using less_iff_Suc_add by auto
  then have "replicate j c = replicate i c @ replicate (Suc d) c" by (simp only: replicate_add)
  then show ?thesis by (simp add: list_less_def lexord_append_rightI)
qed

lemma run_le: "i \<le> j \<Longrightarrow> replicate i c \<le> replicate j (c::char)"
  using run_less [of i j c] by (cases "i = j") auto

lemma run_sorted: "sorted_keys ri_name (map run_row [a..<b])"
  by (induction b) (auto simp: sorted_wrt_append run_row_def intro: run_less)

lemma make_row_items: "rl_items (make_row_leaf xs) = xs"
  by (simp add: make_row_leaf_def Let_def)

lemma two_runs_ok:
  assumes "n \<le> 256" "n < m" "m - n \<le> 256"
  shows "tree_ok row_ops (two_runs n m)"
proof -
  have m: "run_row n # map run_row [Suc n..<m] = map run_row [n..<m]"
    using assms by (simp add: upt_conv_Cons)
  have "leaf_in row_ops None (Some (ri_name (run_row n))) (make_row_leaf (map run_row [0..<n]))"
    using run_sorted [of 0 n] by (auto simp: leaf_in_def row_items make_row_items in_range_def run_row_def intro: run_less)
  moreover have "leaf_in row_ops (Some (ri_name (run_row n))) None (make_row_leaf (map run_row [n..<m]))"
    using run_sorted [of n m] by (auto simp: leaf_in_def row_items make_row_items in_range_def run_row_def intro: run_le)
  ultimately have "ordered row_ops None None (two_runs n m)"
    by (simp add: two_runs_def m bounds_le_def Let_def)
  moreover have "shaped row_ops 0 (two_runs n m)"
    using assms by (simp add: two_runs_def m Let_def body_ok_def row_items leaf_good_def make_row_items leaf_max_def)
  ultimately show ?thesis by (auto simp: tree_ok_def)
qed

lemma two_runs_find:
  assumes "n \<le> 256" "n < m" "m - n \<le> 256" "k < n"
  shows "row_find (two_runs n m) (ri_name (run_row k)) = Some (word_of_nat k, 0)"
proof -
  have o: "ordered row_ops None None (two_runs n m)" using two_runs_ok [OF assms(1-3)] by (simp add: tree_ok_def)
  have "sorted_keys ri_name (flat row_ops (two_runs n m))" using ordered_flat [OF o] by (simp add: row_items)
  moreover have "run_row k \<in> set (flat row_ops (two_runs n m))"
    using assms(4) by (simp add: two_runs_def Let_def row_items make_row_items)
  ultimately have "List.find (\<lambda>x. ri_name x = ri_name (run_row k)) (flat row_ops (two_runs n m)) = Some (run_row k)"
    by (rule find_eq_unique) simp
  then show ?thesis unfolding row_find_flat [OF o] by (simp add: run_row_def)
qed

lemma two_runs_middle:
  assumes "(n + (m - Suc n)) div 2 \<le> k" "k < n"
  shows "ri_name (map run_row [0..<n] ! ((length (map run_row [0..<n]) + length (map run_row [Suc n..<m])) div 2))
      \<le> op_key (row_remove (ri_name (run_row k)))"
    and "op_key (row_remove (ri_name (run_row k))) < ri_name (run_row n)"
  using assms by (simp_all add: run_row_def row_remove_def run_le run_less)

theorem batch_operation_lost_witness:
  "row_find (fst (row_apply (two_runs 250 314)
      [row_remove (ri_name (run_row 200)), row_remove (ri_name (run_row 250))] no_stats)) (ri_name (run_row 200))
    = Some (200, 0)"
proof -
  have ok: "tree_ok row_ops (two_runs 250 314)" by (rule two_runs_ok) simp_all
  have "row_find (fst (row_apply (two_runs 250 314)
      [row_remove (ri_name (run_row 200)), row_remove (ri_name (run_row 250))] no_stats)) (op_key (row_remove (ri_name (run_row 200))))
    = row_find (two_runs 250 314) (op_key (row_remove (ri_name (run_row 200))))"
    by (rule batch_operation_lost [OF two_runs_def [unfolded Let_def] ok _ _ two_runs_middle [of 250 314 200]])
      (simp_all only: length_map length_upt)
  then show ?thesis using two_runs_find [of 250 314 200] by (simp add: row_remove_def)
qed

end
