(* ===== verification/Slot_Trie.thy ===== *)
theory Slot_Trie
  imports Prelude_Go "HOL-Library.Multiset"
begin

unbundle bit_operations_syntax

text \<open>
  The rows of the search index (\<open>internal/resourcecatalog/searchtree.go\<close>): the row record with
  its label tokens packed into one string, the persistent trie from slots to rows, and the list
  of free slots a batch takes slots from and returns them to.

  A \<open>nil\<close> pointer is \<open>None\<close>; an array of 32 is a list of 32.
\<close>

section \<open>Row records\<close>

record row_record =
  rr_name :: string
  rr_uid :: string
  rr_name_tok :: string
  rr_label_blob :: string
  rr_weight :: "16 word"
  rr_flags :: "8 word"

definition blob_byte :: "string \<Rightarrow> nat \<Rightarrow> nat" where
  "blob_byte blob i = of_char (blob ! i)"

text \<open>The position after skipping \<open>k\<close> tokens, \<open>None\<close> when the blob ends before.\<close>

fun skip_tokens :: "string \<Rightarrow> nat \<Rightarrow> nat \<Rightarrow> nat option" where
  "skip_tokens blob 0 i = Some i"
| "skip_tokens blob (Suc k) i =
     (if length blob \<le> i then None else skip_tokens blob k (i + 1 + blob_byte blob i))"

definition label_token_at :: "row_record option \<Rightarrow> int \<Rightarrow> string" where
  "label_token_at r i =
     (case r of None \<Rightarrow> ''''
      | Some r \<Rightarrow>
          if i < 0 \<or> int (unat (rr_weight r)) \<le> i then ''''
          else (let blob = rr_label_blob r in
            case skip_tokens blob (nat i) 0 of None \<Rightarrow> ''''
            | Some p \<Rightarrow>
                if length blob \<le> p then ''''
                else (let n = blob_byte blob p in
                  if length blob < p + 1 + n then '''' else take n (drop (p + 1) blob))))"

text \<open>\<open>eachLabelToken\<close>: the tokens in the order in which the callback sees them, from a position.\<close>

function tokens_from :: "string \<Rightarrow> nat \<Rightarrow> string list" where
  "tokens_from blob i =
     (if i < length blob then
        (let n = blob_byte blob i in
         if length blob < i + 1 + n then [] else take n (drop (i + 1) blob) # tokens_from blob (i + 1 + n))
      else [])"
  by pat_completeness auto
termination by (relation "measure (\<lambda>(blob, i). length blob - i)") auto

declare tokens_from.simps [simp del]

definition each_label_token :: "row_record option \<Rightarrow> string list" where
  "each_label_token r = (case r of None \<Rightarrow> [] | Some r \<Rightarrow> tokens_from (rr_label_blob r) 0)"

definition encode_label_blob :: "string list \<Rightarrow> string" where
  "encode_label_blob tokens = concat (map (\<lambda>t. char_of (length t mod 256) # t) tokens)"

definition shares_prefix_backing :: "string \<Rightarrow> string \<Rightarrow> bool" where
  "shares_prefix_backing name tok \<longleftrightarrow> length tok \<le> length name \<and> has_prefix name tok"

definition row_retained_bytes :: "row_record option \<Rightarrow> int" where
  "row_retained_bytes r =
     (case r of None \<Rightarrow> 0
      | Some r \<Rightarrow>
          72 + int (length (rr_name r)) + int (length (rr_uid r)) + int (length (rr_label_blob r))
          + (if rr_name_tok r \<noteq> '''' \<and> \<not> shares_prefix_backing (rr_name r) (rr_name_tok r)
             then int (length (rr_name_tok r)) else 0))"

section \<open>The trie\<close>

text \<open>A branch: whether its children are leaves, its 32 leaves, its 32 branches. A leaf is 32 rows.\<close>

datatype trie_branch =
  Trie_branch (tb_leaf_level: bool) (tb_leaf_kids: "row_record option list option list")
    (tb_branch_kids: "trie_branch option list")

text \<open>The level \<open>k\<close> counts down where the code's \<open>depth\<close> counts up: \<open>k = trieDepth - 2 - depth\<close>, so the
  root is at 3 and the branches above the leaves are at 0; \<open>trieShift\<close> is \<open>5 * (k + 1)\<close>.\<close>

definition trie_top :: nat where "trie_top = 3"

definition trie_index :: "nat \<Rightarrow> u32 \<Rightarrow> nat" where
  "trie_index k slot = unat (drop_bit (5 * (k + 1)) slot AND 31)"

definition leaf_index :: "u32 \<Rightarrow> nat" where
  "leaf_index slot = unat (slot AND 31)"

definition zero_branch :: trie_branch where
  "zero_branch = Trie_branch False (replicate 32 None) (replicate 32 None)"

definition new_trie_root :: trie_branch where
  "new_trie_root = zero_branch"

fun trie_get_at :: "nat \<Rightarrow> trie_branch option \<Rightarrow> u32 \<Rightarrow> row_record option" where
  "trie_get_at k None slot = None"
| "trie_get_at 0 (Some (Trie_branch lv leaves kids)) slot =
     (case leaves ! trie_index 0 slot of None \<Rightarrow> None | Some leaf \<Rightarrow> leaf ! leaf_index slot)"
| "trie_get_at (Suc k) (Some (Trie_branch lv leaves kids)) slot =
     trie_get_at k (kids ! trie_index (Suc k) slot) slot"

definition trie_get :: "trie_branch option \<Rightarrow> u32 \<Rightarrow> row_record option" where
  "trie_get rt slot = trie_get_at trie_top rt slot"

text \<open>The second component is what \<open>copied\<close> grows by: 520 for a branch, 256 for a leaf.\<close>

fun trie_set_at :: "nat \<Rightarrow> trie_branch option \<Rightarrow> u32 \<Rightarrow> row_record option \<Rightarrow> trie_branch \<times> int" where
  "trie_set_at 0 n slot rec =
     (let b = (case n of None \<Rightarrow> zero_branch | Some b \<Rightarrow> b);
          i = trie_index 0 slot;
          leaf = (case tb_leaf_kids b ! i of None \<Rightarrow> replicate 32 None | Some l \<Rightarrow> l) in
      (Trie_branch True ((tb_leaf_kids b)[i := Some (leaf[leaf_index slot := rec])]) (tb_branch_kids b),
       520 + 256))"
| "trie_set_at (Suc k) n slot rec =
     (let b = (case n of None \<Rightarrow> zero_branch | Some b \<Rightarrow> b);
          i = trie_index (Suc k) slot;
          sub = trie_set_at k (tb_branch_kids b ! i) slot rec in
      (Trie_branch False (tb_leaf_kids b) ((tb_branch_kids b)[i := Some (fst sub)]), 520 + snd sub))"

definition trie_set :: "trie_branch option \<Rightarrow> u32 \<Rightarrow> row_record option \<Rightarrow> trie_branch \<times> int" where
  "trie_set rt slot rec = trie_set_at trie_top rt slot rec"

fun trie_node_bytes :: "trie_branch \<Rightarrow> int" where
  "trie_node_bytes (Trie_branch lv leaves kids) =
     520 + (if lv then int (length (filter (\<lambda>l. l \<noteq> None) leaves)) * 256
            else sum_list (map (\<lambda>k. case k of None \<Rightarrow> 0 | Some b \<Rightarrow> trie_node_bytes b) kids))"

section \<open>Free slots\<close>

text \<open>A node of the free list: an array of 32 slots and how many of them count. The list of nodes
  is the chain of \<open>next\<close> pointers.\<close>

record free_node =
  fn_slots :: "u32 list"
  fn_n :: nat

record free_stack =
  fs_top :: "free_node list"
  fs_private :: bool
  fs_copied :: int

definition new_free_stack :: "free_node list \<Rightarrow> free_stack" where
  "new_free_stack base = \<lparr>fs_top = base, fs_private = False, fs_copied = 0\<rparr>"

fun pop_from :: "free_node list \<Rightarrow> bool \<Rightarrow> int \<Rightarrow> free_stack \<times> u32 option" where
  "pop_from [] priv copied = (\<lparr>fs_top = [], fs_private = priv, fs_copied = copied\<rparr>, None)"
| "pop_from (n # ns) priv copied =
     (if fn_n n = 0 then pop_from ns False copied
      else (\<lparr>fs_top = n\<lparr>fn_n := fn_n n - 1\<rparr> # ns, fs_private = True,
              fs_copied = (if priv then copied else copied + 144)\<rparr>,
            Some (fn_slots n ! (fn_n n - 1))))"

definition pop_free :: "free_stack \<Rightarrow> free_stack \<times> u32 option" where
  "pop_free f = pop_from (fs_top f) (fs_private f) (fs_copied f)"

text \<open>\<open>publish\<close> packs the pending slots 32 to a node, each node on top of the one before.\<close>

function push_nodes :: "free_node list \<Rightarrow> u32 list \<Rightarrow> int \<Rightarrow> free_node list \<times> int" where
  "push_nodes chain [] copied = (chain, copied)"
| "push_nodes chain (s # ss) copied =
     (let batch = take 32 (s # ss) in
      push_nodes (\<lparr>fn_slots = batch @ replicate (32 - length batch) 0, fn_n = length batch\<rparr> # chain)
        (drop 32 (s # ss)) (copied + 144))"
  by pat_completeness auto
termination by (relation "measure (\<lambda>(_, ss, _). length ss)") auto

definition publish_free :: "free_stack \<Rightarrow> u32 list \<Rightarrow> free_node list \<times> int" where
  "publish_free f pending = push_nodes (fs_top f) pending (fs_copied f)"

definition free_list_bytes :: "free_node list \<Rightarrow> int" where
  "free_list_bytes ns = sum_list (map (\<lambda>_. 144) ns)"

section \<open>Label tokens survive the packing\<close>

lemma encode_blob_Cons:
  "encode_label_blob (t # ts) = char_of (length t mod 256) # t @ encode_label_blob ts"
  by (simp add: encode_label_blob_def)

lemma encode_blob_append: "encode_label_blob (as @ bs) = encode_label_blob as @ encode_label_blob bs"
  by (simp add: encode_label_blob_def)

lemma blob_byte_length: "length t < 256 \<Longrightarrow> blob_byte (pre @ char_of (length t mod 256) # xs) (length pre) = length t"
  by (simp add: blob_byte_def of_char_of take_bit_eq_mod)

lemma tokens_from_encode:
  "\<forall>t\<in>set ts. length t < 256 \<Longrightarrow> tokens_from (pre @ encode_label_blob ts) (length pre) = ts"
proof (induction ts arbitrary: pre)
  case Nil
  then show ?case by (subst tokens_from.simps) (simp add: encode_label_blob_def)
next
  case (Cons t ts)
  let ?c = "char_of (length t mod 256) :: char"
  have "tokens_from ((pre @ ?c # t) @ encode_label_blob ts) (length (pre @ ?c # t)) = ts"
    by (rule Cons.IH) (use Cons.prems in simp)
  then show ?case
    using Cons.prems blob_byte_length [of t pre "t @ encode_label_blob ts"]
    by (subst tokens_from.simps) (simp add: encode_blob_Cons Let_def)
qed

lemma skip_tokens_encode:
  "\<lbrakk>\<forall>t\<in>set ts. length t < 256; k \<le> length ts\<rbrakk> \<Longrightarrow>
    skip_tokens (pre @ encode_label_blob ts) k (length pre) = Some (length pre + length (encode_label_blob (take k ts)))"
proof (induction k arbitrary: ts pre)
  case (Suc k)
  then obtain t ts' where ts: "ts = t # ts'" by (cases ts) auto
  let ?c = "char_of (length t mod 256) :: char"
  have "skip_tokens ((pre @ ?c # t) @ encode_label_blob ts') k (length (pre @ ?c # t))
      = Some (length (pre @ ?c # t) + length (encode_label_blob (take k ts')))"
    by (rule Suc.IH) (use Suc.prems ts in auto)
  then show ?case
    using Suc.prems ts blob_byte_length [of t pre "t @ encode_label_blob ts'"] by (simp add: encode_blob_Cons)
qed (simp add: encode_label_blob_def)

text \<open>
  Packing loses nothing: when every token has at most 255 bytes (a normalized token has at
  most 64), the packed string gives back the tokens in order, and \<open>labelTokenAt\<close> gives the i-th
  of them, the empty string outside the weight.
\<close>

lemma label_blob_roundtrip:
  assumes "\<forall>t\<in>set ts. length t < 256" and "length ts < 2 ^ 16"
    and "rr_label_blob r = encode_label_blob ts" and "rr_weight r = word_of_nat (length ts)"
  shows "each_label_token (Some r) = ts
    \<and> (\<forall>i. label_token_at (Some r) i = (if 0 \<le> i \<and> i < int (length ts) then ts ! nat i else ''''))"
proof (intro conjI allI)
  show "each_label_token (Some r) = ts"
    using tokens_from_encode [OF assms(1), of "[]"] assms(3) by (simp add: each_label_token_def)
next
  fix i :: int
  have w: "unat (rr_weight r) = length ts"
    using assms(2,4) by (simp add: unat_of_nat take_bit_eq_mod)
  show "label_token_at (Some r) i = (if 0 \<le> i \<and> i < int (length ts) then ts ! nat i else '''')"
  proof (cases "0 \<le> i \<and> i < int (length ts)")
    case True
    let ?k = "nat i" and ?e = "encode_label_blob ts"
    have k: "?k < length ts" using True by linarith

    have hd: "encode_label_blob (drop ?k ts) = char_of (length (ts ! ?k) mod 256) # ts ! ?k @ encode_label_blob (drop (Suc ?k) ts)"
      by (metis Cons_nth_drop_Suc k encode_blob_Cons)
    let ?p = "length (encode_label_blob (take ?k ts))"
    have split: "?e = encode_label_blob (take ?k ts) @ char_of (length (ts ! ?k) mod 256) # ts ! ?k @ encode_label_blob (drop (Suc ?k) ts)"
      by (metis append_take_drop_id encode_blob_append hd)
    have "blob_byte ?e ?p = length (ts ! ?k)"
      by (subst split, rule blob_byte_length) (use assms(1) k in simp)
    moreover have "?p + 1 + length (ts ! ?k) \<le> length ?e" by (subst split) simp
    moreover have "drop (?p + 1) ?e = ts ! ?k @ encode_label_blob (drop (Suc ?k) ts)"
      by (subst split) simp
    ultimately show ?thesis
      using True w skip_tokens_encode [OF assms(1), of ?k "[]"] assms(3) k
      by (simp add: label_token_at_def Let_def)
  next
    case False
    then show ?thesis using w by (auto simp: label_token_at_def)
  qed
qed

definition demo_row :: row_record where
  "demo_row = \<lparr>rr_name = ''Web-1'', rr_uid = ''u1'', rr_name_tok = ''web-1'',
    rr_label_blob = encode_label_blob [''app=web'', '''', ''tier=front''], rr_weight = 3, rr_flags = 0\<rparr>"

section \<open>Rows at slots\<close>

text \<open>The arrays of a branch have 32 places, at every level.\<close>

fun trie_ok :: "nat \<Rightarrow> trie_branch option \<Rightarrow> bool" where
  "trie_ok k None = True"
| "trie_ok 0 (Some (Trie_branch lv leaves kids)) =
     (length leaves = 32 \<and> length kids = 32 \<and> lv
      \<and> (\<forall>l\<in>set leaves. \<forall>rows. l = Some rows \<longrightarrow> length rows = 32))"
| "trie_ok (Suc k) (Some (Trie_branch lv leaves kids)) =
     (length leaves = 32 \<and> length kids = 32 \<and> \<not> lv \<and> (\<forall>t\<in>set kids. trie_ok k t))"

text \<open>Two slots share their path down to level \<open>k\<close> exactly when their low \<open>5 * (k + 2)\<close> bits agree.\<close>

lemma unat_and_31: "unat (w AND 31 :: u32) = unat w mod 32"
proof -
  have "w AND 31 = take_bit 5 w" by (simp add: take_bit_eq_mask mask_numeral)
  then show ?thesis by (simp add: unsigned_take_bit_eq) (simp add: take_bit_eq_mod)
qed

lemma trie_index_nat: "trie_index k slot = (unat slot div 32 ^ (k + 1)) mod 32"
proof -
  have "unat (drop_bit (5 * (k + 1)) slot) = unat slot div 2 ^ (5 * (k + 1))"
    by (subst unat_drop_bit_eq) (rule drop_bit_eq_div)
  also have "(2::nat) ^ (5 * (k + 1)) = 32 ^ (k + 1)" by (simp only: power_mult) simp
  finally show ?thesis by (simp add: trie_index_def unat_and_31)
qed

lemma leaf_index_nat: "leaf_index slot = unat slot mod 32"
  by (simp add: leaf_index_def unat_and_31)

lemma same_path_Suc:
  "unat a mod 32 ^ (k + 2) = unat b mod 32 ^ (k + 2)
    \<longleftrightarrow> trie_index k a = trie_index k b \<and> unat a mod 32 ^ (k + 1) = unat b mod 32 ^ (k + 1)"
proof -
  have "(32::nat) ^ (k + 2) = 32 ^ (k + 1) * 32" by simp
  then have m: "x mod 32 ^ (k + 2) = 32 ^ (k + 1) * (x div 32 ^ (k + 1) mod 32) + x mod 32 ^ (k + 1)" for x :: nat
    by (simp only: mod_mult2_eq)
  have "c * u + r = c * v + r' \<longleftrightarrow> u = v \<and> r = r'" if "r < c" "r' < c" for c u v r r' :: nat
  proof
    assume eq: "c * u + r = c * v + r'"
    from that have "c \<noteq> 0" by simp
    with arg_cong [OF eq, of "\<lambda>x. x div c"] arg_cong [OF eq, of "\<lambda>x. x mod c"] that
    show "u = v \<and> r = r'" by simp
  qed simp
  then show ?thesis unfolding m trie_index_nat by simp
qed

lemma trie_set_at_ok:
  assumes "trie_ok k n"
  shows "trie_ok k (Some (fst (trie_set_at k n slot rec)))
    \<and> trie_get_at k (Some (fst (trie_set_at k n slot rec))) s
      = (if unat s mod 32 ^ (k + 2) = unat slot mod 32 ^ (k + 2) then rec else trie_get_at k n s)
    \<and> snd (trie_set_at k n slot rec) = 520 * int (k + 1) + 256"
  using assms
proof (induction k arbitrary: n)
  case 0
  define b where "b = (case n of None \<Rightarrow> zero_branch | Some b \<Rightarrow> b)"
  define leaf where "leaf = (case tb_leaf_kids b ! trie_index 0 slot of None \<Rightarrow> replicate 32 None | Some l \<Rightarrow> l)"
  have lt: "trie_index 0 x < 32" "leaf_index x < 32" for x by (simp_all add: trie_index_nat leaf_index_nat)
  have b: "length (tb_leaf_kids b) = 32" "length (tb_branch_kids b) = 32"
    "\<forall>l\<in>set (tb_leaf_kids b). \<forall>rows. l = Some rows \<longrightarrow> length rows = 32"
    using 0 by (cases n; cases b; auto simp: b_def zero_branch_def split: option.splits)+
  have leaf: "length leaf = 32"
    using b lt(1) [of slot] nth_mem [of "trie_index 0 slot" "tb_leaf_kids b"]
    by (cases "tb_leaf_kids b ! trie_index 0 slot") (auto simp: leaf_def)
  have get: "trie_get_at 0 n s = (case tb_leaf_kids b ! trie_index 0 s of None \<Rightarrow> None | Some l \<Rightarrow> l ! leaf_index s)"
    using lt by (cases n; cases b) (auto simp: b_def zero_branch_def)
  have same: "unat s mod 32 ^ (0 + 2) = unat slot mod 32 ^ (0 + 2)
      \<longleftrightarrow> trie_index 0 s = trie_index 0 slot \<and> leaf_index s = leaf_index slot"
    using same_path_Suc [of s 0 slot] by (simp add: leaf_index_nat)
  have ok: "\<forall>l\<in>set ((tb_leaf_kids b)[trie_index 0 slot := Some (leaf[leaf_index slot := rec])]).
      \<forall>rows. l = Some rows \<longrightarrow> length rows = 32"
    using b(3) leaf by (auto dest!: subsetD [OF set_update_subset_insert])
  have "leaf ! j = None" if "tb_leaf_kids b ! trie_index 0 slot = None" "j < 32" for j
    using that by (simp add: leaf_def)
  then show ?case
    unfolding same get trie_set_at.simps Let_def b_def [symmetric] leaf_def [symmetric]
    using b ok lt [of s] lt [of slot] leaf
    by (cases "trie_index 0 s = trie_index 0 slot")
      (auto simp: nth_list_update leaf_def split: option.splits)
next
  case (Suc k)
  define b where "b = (case n of None \<Rightarrow> zero_branch | Some b \<Rightarrow> b)"
  let ?i = "trie_index (Suc k) slot"
  have lt: "trie_index (Suc k) x < 32" for x by (simp add: trie_index_nat)
  have b: "length (tb_leaf_kids b) = 32" "length (tb_branch_kids b) = 32" "\<forall>t\<in>set (tb_branch_kids b). trie_ok k t"
    using Suc.prems by (cases n; cases b; auto simp: b_def zero_branch_def)+
  have get: "trie_get_at (Suc k) n s = trie_get_at k (tb_branch_kids b ! trie_index (Suc k) s) s"
    using lt by (cases n; cases b) (auto simp: b_def zero_branch_def)
  have ih: "trie_ok k (Some (fst (trie_set_at k (tb_branch_kids b ! ?i) slot rec)))
    \<and> trie_get_at k (Some (fst (trie_set_at k (tb_branch_kids b ! ?i) slot rec))) s
      = (if unat s mod 32 ^ (k + 2) = unat slot mod 32 ^ (k + 2) then rec else trie_get_at k (tb_branch_kids b ! ?i) s)
    \<and> snd (trie_set_at k (tb_branch_kids b ! ?i) slot rec) = 520 * int (k + 1) + 256"
    by (rule Suc.IH) (use b lt [of slot] in \<open>auto dest: nth_mem\<close>)
  have same: "unat s mod 32 ^ (Suc k + 2) = unat slot mod 32 ^ (Suc k + 2)
      \<longleftrightarrow> trie_index (Suc k) s = trie_index (Suc k) slot \<and> unat s mod 32 ^ (k + 2) = unat slot mod 32 ^ (k + 2)"
    using same_path_Suc [of s "Suc k" slot] by simp
  have "\<forall>t\<in>set ((tb_branch_kids b)[?i := Some (fst (trie_set_at k (tb_branch_kids b ! ?i) slot rec))]). trie_ok k t"
    using b(3) ih by (auto dest!: subsetD [OF set_update_subset_insert])
  then show ?case
    unfolding same get trie_set_at.simps Let_def b_def [symmetric]
    using b ih lt [of s] lt [of slot]
    by (cases "trie_index (Suc k) s = ?i") (simp_all add: algebra_simps)
qed

text \<open>
  The slot table is a map: in a well-shaped trie, \<open>trieSet\<close> leaves a well-shaped trie that
  has the row at its slot and every other slot as it was, for all slots below \<open>maxSlot\<close>; it
  copies four branches and one leaf. A fresh root has no row.
\<close>

lemma trie_set_get:
  assumes "trie_ok trie_top rt" and "unat slot < 2 ^ 24" "unat s < 2 ^ 24"
  shows "trie_ok trie_top (Some (fst (trie_set rt slot rec)))
    \<and> trie_get (Some (fst (trie_set rt slot rec))) s = (if s = slot then rec else trie_get rt s)
    \<and> snd (trie_set rt slot rec) = 4 * 520 + 256
    \<and> trie_ok trie_top (Some (fst (trie_set None slot rec))) \<and> trie_get (Some new_trie_root) s = None"
proof -
  have m: "unat x mod 32 ^ (trie_top + 2) = unat x" if "unat x < 2 ^ 24" for x :: u32
    using that by (simp add: trie_top_def)
  have "trie_get (Some new_trie_root) s = None"
    by (simp add: trie_get_def trie_top_def numeral_3_eq_3 new_trie_root_def zero_branch_def trie_index_nat)
  then show ?thesis
    using trie_set_at_ok [OF assms(1), of slot rec s] trie_set_at_ok [of trie_top None slot rec s]
    unfolding m [OF assms(2)] m [OF assms(3)] trie_set_def trie_get_def
    by (simp add: trie_top_def word_unat_eq_iff)
qed

section \<open>Free slots are conserved\<close>

definition chain_ok :: "free_node list \<Rightarrow> bool" where
  "chain_ok ns \<longleftrightarrow> list_all (\<lambda>n. length (fn_slots n) = 32 \<and> fn_n n \<le> 32) ns"

definition free_slots :: "free_node list \<Rightarrow> u32 list" where
  "free_slots ns = concat (map (\<lambda>n. take (fn_n n) (fn_slots n)) ns)"

text \<open>What a batch does with the list: it pops some slots, then publishes the slots it frees.\<close>

fun pop_many :: "nat \<Rightarrow> free_stack \<Rightarrow> free_stack \<times> u32 list" where
  "pop_many 0 f = (f, [])"
| "pop_many (Suc n) f =
     (case pop_free f of
        (f', None) \<Rightarrow> (f', [])
      | (f', Some s) \<Rightarrow> (fst (pop_many n f'), s # snd (pop_many n f')))"

lemma pop_from_ok:
  assumes "chain_ok ns"
  shows "chain_ok (fs_top (fst (pop_from ns p c)))
    \<and> mset (free_slots ns) = (case snd (pop_from ns p c) of None \<Rightarrow> {#} | Some s \<Rightarrow> {#s#})
      + mset (free_slots (fs_top (fst (pop_from ns p c))))
    \<and> (snd (pop_from ns p c) = None \<longleftrightarrow> free_slots ns = [])"
  using assms
proof (induction ns p c rule: pop_from.induct)
  case (2 n ns priv copied)
  show ?case
  proof (cases "fn_n n = 0")
    case True
    then show ?thesis using 2 by (simp add: chain_ok_def free_slots_def)
  next
    case False
    then obtain m where m: "fn_n n = Suc m" by (cases "fn_n n") auto
    moreover have "m < length (fn_slots n)" using 2 m by (simp add: chain_ok_def)
    ultimately show ?thesis
      using 2 by (simp add: chain_ok_def free_slots_def take_Suc_conv_app_nth)
  qed
qed (simp add: chain_ok_def free_slots_def)

lemma push_nodes_ok:
  assumes "chain_ok ns"
  shows "chain_ok (fst (push_nodes ns ss c)) \<and> mset (free_slots (fst (push_nodes ns ss c))) = mset ss + mset (free_slots ns)
    \<and> snd (push_nodes ns ss c) - c = free_list_bytes (fst (push_nodes ns ss c)) - free_list_bytes ns"
  using assms
proof (induction ns ss c rule: push_nodes.induct)
  case (2 ns s ss c)
  define b where "b = take 32 (s # ss)"
  let ?b = b
  let ?n = "\<lparr>fn_slots = ?b @ replicate (32 - length ?b) 0, fn_n = length ?b\<rparr>"
  have "length b \<le> 32" by (simp add: b_def)
  then have ok: "chain_ok (?n # ns)" using "2.prems" by (simp add: chain_ok_def)
  have "mset (free_slots (?n # ns)) = mset ?b + mset (free_slots ns)" by (simp add: free_slots_def)
  moreover have "mset ?b + mset (drop 32 (s # ss)) = mset (s # ss)"
    unfolding b_def by (metis append_take_drop_id mset_append)
  moreover have "free_list_bytes (?n # ns) = 144 + free_list_bytes ns" by (simp add: free_list_bytes_def)
  ultimately show ?case
    using "2.IH" [OF b_def ok] unfolding push_nodes.simps Let_def b_def [symmetric]
    by (simp only: add_diff_eq) (simp add: add.assoc add.commute)
qed simp

lemma pop_many_ok:
  "chain_ok (fs_top f) \<Longrightarrow> chain_ok (fs_top (fst (pop_many n f)))
    \<and> mset (free_slots (fs_top f)) = mset (snd (pop_many n f)) + mset (free_slots (fs_top (fst (pop_many n f))))
    \<and> (length (snd (pop_many n f)) < n \<longrightarrow> free_slots (fs_top (fst (pop_many n f))) = [])"
proof (induction n arbitrary: f)
  case (Suc n)
  obtain f' r where p: "pop_free f = (f', r)" by (rule prod.exhaust)
  note ok = pop_from_ok [OF Suc.prems, of "fs_private f" "fs_copied f", folded pop_free_def, unfolded p fst_conv snd_conv]
  show ?case
  proof (cases r)
    case None
    with ok p show ?thesis by auto
  next
    case (Some s)
    with ok p Suc.IH [of f'] show ?thesis by simp
  qed
qed simp

text \<open>
  No slot is lost and none is handed out twice: after a batch pops any number of slots and
  publishes those it frees, the popped slots and the published list are together exactly the
  old list and the freed slots; a pop fails only on an empty list; so a slot a batch took is
  free again only if the batch freed it.
\<close>

lemma free_slots_conserved:
  assumes "chain_ok base" and "pop_many n (new_free_stack base) = (f, popped)"
  shows "mset popped + mset (free_slots (fst (publish_free f freed))) = mset (free_slots base) + mset freed
    \<and> chain_ok (fst (publish_free f freed))
    \<and> (length popped < n \<longrightarrow> length popped = length (free_slots base))
    \<and> (distinct (free_slots base @ freed) \<longrightarrow> set popped \<inter> set (free_slots (fst (publish_free f freed))) = {})"
proof -
  have m: "mset (free_slots base) = mset popped + mset (free_slots (fs_top f))" "chain_ok (fs_top f)"
    "length popped < n \<longrightarrow> free_slots (fs_top f) = []"
    using pop_many_ok [of "new_free_stack base" n] assms by (simp_all add: new_free_stack_def)
  note p = push_nodes_ok [OF m(2), of freed "fs_copied f", folded publish_free_def]
  have total: "mset (popped @ free_slots (fst (publish_free f freed))) = mset (free_slots base @ freed)"
    using m(1) p by (simp add: add.assoc add.commute)
  have "length popped = length (free_slots base)" if "length popped < n"
    using m(3) that arg_cong [OF m(1), of size] by simp
  moreover have "set popped \<inter> set (free_slots (fst (publish_free f freed))) = {}"
    if "distinct (free_slots base @ freed)"
    using mset_eq_imp_distinct_iff [OF total] that by simp
  ultimately show ?thesis using total p by simp
qed

end
