(* ===== verification/Post_Tree.thy ===== *)
theory Post_Tree
  imports Fence_Root Slot_Trie
begin

text \<open>
  The postings of the search index (\<open>postEntry\<close>, \<open>postKey\<close>, \<open>postKeyer\<close>, \<open>postNode\<close>, \<open>postCursor\<close>
  in \<open>internal/resourcecatalog/searchtree.go\<close>): a tree of entries ordered by the key that a keyer
  derives from the row at the entry's slot, and the cursor that walks it.
\<close>

section \<open>Keys\<close>

datatype post_key = Post_key (pk_token: string) (pk_name: string) (pk_uid: string)

text \<open>\<open>strings.Compare\<close>.\<close>

definition go_compare :: "string \<Rightarrow> string \<Rightarrow> int" where
  "go_compare a b = (if a = b then 0 else if a < b then - 1 else 1)"

definition compare_post_key :: "post_key \<Rightarrow> post_key \<Rightarrow> int" where
  "compare_post_key a b =
     (if go_compare (pk_token a) (pk_token b) \<noteq> 0 then go_compare (pk_token a) (pk_token b)
      else if go_compare (pk_name a) (pk_name b) \<noteq> 0 then go_compare (pk_name a) (pk_name b)
      else go_compare (pk_uid a) (pk_uid b))"

instantiation post_key :: linorder
begin

definition less_eq_post_key :: "post_key \<Rightarrow> post_key \<Rightarrow> bool" where
  "less_eq_post_key a b \<longleftrightarrow> compare_post_key a b \<le> 0"

definition less_post_key :: "post_key \<Rightarrow> post_key \<Rightarrow> bool" where
  "less_post_key a b \<longleftrightarrow> compare_post_key a b < 0"

instance
proof
  fix a b c :: post_key
  show "a < b \<longleftrightarrow> a \<le> b \<and> \<not> b \<le> a"
    by (auto simp: less_eq_post_key_def less_post_key_def compare_post_key_def go_compare_def)
  show "a \<le> a" by (simp add: less_eq_post_key_def compare_post_key_def go_compare_def)
  show "a \<le> b \<Longrightarrow> b \<le> c \<Longrightarrow> a \<le> c"
    by (auto simp: less_eq_post_key_def compare_post_key_def go_compare_def split: if_splits)
  show "a \<le> b \<Longrightarrow> b \<le> a \<Longrightarrow> a = b"
    by (cases a; cases b) (auto simp: less_eq_post_key_def compare_post_key_def go_compare_def split: if_splits)
  show "a \<le> b \<or> b \<le> a"
    by (auto simp: less_eq_post_key_def compare_post_key_def go_compare_def)
qed

end

definition post_key_bytes_of :: "post_key \<Rightarrow> int" where
  "post_key_bytes_of k = 48 + int (length (pk_token k) + length (pk_name k) + length (pk_uid k))"

record post_entry =
  pe_slot :: u32
  pe_tok_idx :: "16 word"
  pe_field :: "8 word"
  pe_prev_lcp :: "8 word"

record post_keyer =
  ky_root :: "trie_branch option"
  ky_namespace :: string
  ky_kind_tok :: string

definition token_of :: "post_keyer \<Rightarrow> row_record \<Rightarrow> 16 word \<Rightarrow> string" where
  "token_of K r idx =
     (if idx = 0 then rr_name_tok r else if idx = 1 then ky_namespace K else if idx = 2 then ky_kind_tok K
      else label_token_at (Some r) (uint idx - 3))"

definition key_of :: "post_keyer \<Rightarrow> post_entry \<Rightarrow> post_key" where
  "key_of K e =
     (case trie_get (ky_root K) (pe_slot e) of None \<Rightarrow> Post_key '''' '''' ''''
      | Some r \<Rightarrow> Post_key (token_of K r (pe_tok_idx e)) (rr_name r) (rr_uid r))"

section \<open>The tree\<close>

type_synonym post_node = "(post_key, post_entry list, unit) ftree"
type_synonym post_op = "(post_key, post_entry) tree_op"

definition post_ops :: "post_keyer \<Rightarrow> (post_key, post_entry, post_entry list, unit) tree_ops" where
  "post_ops K = \<lparr>to_key = key_of K, to_leaf = (\<lambda>xs. xs), to_items = (\<lambda>l. l), to_leaf_agg = (\<lambda>_. ()),
     to_node_agg = (\<lambda>_. ()), to_fence_bytes = post_key_bytes_of\<rparr>"

definition new_post_tree :: post_node where
  "new_post_tree = Leaf_node [] [()] [[]]"

definition post_apply :: "post_keyer \<Rightarrow> post_node \<Rightarrow> post_op list \<Rightarrow> apply_stats \<Rightarrow> post_node \<times> apply_stats" where
  "post_apply K t ops st = apply_tree (post_ops K) t ops st"

definition balance_post_root :: "post_keyer \<Rightarrow> post_node \<Rightarrow> apply_stats \<Rightarrow> post_node \<times> apply_stats" where
  "balance_post_root K t st = balance_root (post_ops K) t st"

fun post_tree_count :: "post_node \<Rightarrow> nat" where
  "post_tree_count (Leaf_node seps aggs kids) = sum_list (map length kids)"
| "post_tree_count (Inner_node seps aggs kids) = sum_list (map post_tree_count kids)"

lemma post_items [simp]: "to_items (post_ops K) = (\<lambda>l. l)" "to_key (post_ops K) = key_of K"
    "to_leaf (post_ops K) = (\<lambda>l. l)"
  by (simp_all add: post_ops_def)

interpretation posts: leaf_codec "post_ops K" for K
  by unfold_locales simp

section \<open>The cursor\<close>

text \<open>The path from the root, the node nearest the leaf first, with the child taken in each.\<close>

type_synonym post_path = "(post_node \<times> nat) list"

record post_cursor =
  pc_path :: post_path
  pc_leaf :: "post_entry list"
  pc_pos :: nat
  pc_ok :: bool

fun first_leaf :: "post_node \<Rightarrow> post_path \<Rightarrow> (post_path \<times> post_entry list) option" where
  "first_leaf (Leaf_node seps aggs []) path = None"
| "first_leaf (Leaf_node seps aggs (l # ls)) path = Some ((Leaf_node seps aggs (l # ls), 0) # path, l)"
| "first_leaf (Inner_node seps aggs []) path = None"
| "first_leaf (Inner_node seps aggs (t # ts)) path = first_leaf t ((Inner_node seps aggs (t # ts), 0) # path)"

fun advance_leaf :: "post_path \<Rightarrow> (post_path \<times> post_entry list) option" where
  "advance_leaf [] = None"
| "advance_leaf ((Leaf_node seps aggs kids, i) # rest) =
     (if i + 1 < length kids then Some ((Leaf_node seps aggs kids, i + 1) # rest, kids ! (i + 1))
      else advance_leaf rest)"
| "advance_leaf ((Inner_node seps aggs kids, i) # rest) =
     (if i + 1 < length kids then first_leaf (kids ! (i + 1)) ((Inner_node seps aggs kids, i + 1) # rest)
      else advance_leaf rest)"

fun leaf_total :: "post_node \<Rightarrow> nat" where
  "leaf_total (Leaf_node seps aggs kids) = length kids"
| "leaf_total (Inner_node seps aggs kids) = sum_list (map leaf_total kids)"

fun leaves_after :: "post_path \<Rightarrow> nat" where
  "leaves_after [] = 0"
| "leaves_after ((Leaf_node seps aggs kids, i) # rest) = length (drop (Suc i) kids) + leaves_after rest"
| "leaves_after ((Inner_node seps aggs kids, i) # rest) =
     sum_list (map leaf_total (drop (Suc i) kids)) + leaves_after rest"

lemma first_leaf_count: "first_leaf t path = Some (path', l) \<Longrightarrow> Suc (leaves_after path') = leaf_total t + leaves_after path"
  by (induction t path rule: first_leaf.induct) auto

lemma advance_leaf_count: "advance_leaf path = Some (path', l) \<Longrightarrow> Suc (leaves_after path') = leaves_after path"
proof (induction path rule: advance_leaf.induct)
  case (2 seps aggs kids i rest)
  then show ?case by (auto split: if_splits)
next
  case (3 seps aggs kids i rest)
  show ?case
  proof (cases "i + 1 < length kids")
    case True
    then have "drop (Suc i) kids = kids ! Suc i # drop (Suc (Suc i)) kids" by (simp add: Cons_nth_drop_Suc)
    with 3 True first_leaf_count show ?thesis by fastforce
  qed (use 3 in auto)
qed simp

text \<open>\<open>skipEmpty\<close>: on to the next leaf while the position is past the end. Each turn leaves one leaf
  fewer ahead.\<close>

function skip_empty :: "post_cursor \<Rightarrow> post_cursor" where
  "skip_empty c =
     (if pc_ok c \<and> length (pc_leaf c) \<le> pc_pos c then
        (case advance_leaf (pc_path c) of
           None \<Rightarrow> c\<lparr>pc_ok := False\<rparr>
         | Some (path, l) \<Rightarrow> skip_empty (c\<lparr>pc_path := path, pc_leaf := l, pc_pos := 0\<rparr>))
      else c)"
  by pat_completeness auto
termination
  by (relation "measure (\<lambda>c. leaves_after (pc_path c))") (auto dest!: advance_leaf_count)

declare skip_empty.simps [simp del]

text \<open>The descent of \<open>seekPost\<close>; \<open>None\<close> is its early return with \<open>ok\<close> false.\<close>

fun seek_down :: "post_keyer \<Rightarrow> post_key option \<Rightarrow> post_node \<Rightarrow> post_path \<Rightarrow> (post_path \<times> post_entry list \<times> nat) option" where
  "seek_down K key (Leaf_node seps aggs kids) path =
     (let i = (case key of None \<Rightarrow> 0 | Some k \<Rightarrow> child_index seps k) in
      if length kids \<le> i then None
      else Some ((Leaf_node seps aggs kids, i) # path, kids ! i,
                 case key of None \<Rightarrow> 0 | Some k \<Rightarrow> lower_bound (key_of K) (kids ! i) k))"
| "seek_down K key (Inner_node seps aggs kids) path =
     (let i = (case key of None \<Rightarrow> 0 | Some k \<Rightarrow> child_index seps k) in
      if length kids \<le> i then None
      else (map (\<lambda>t. seek_down K key t ((Inner_node seps aggs kids, i) # path)) kids) ! i)"

definition seek_post :: "post_node \<Rightarrow> post_keyer \<Rightarrow> post_key \<Rightarrow> bool \<Rightarrow> post_cursor" where
  "seek_post t K key has_key =
     (case seek_down K (if has_key then Some key else None) t [] of
        None \<Rightarrow> \<lparr>pc_path = [], pc_leaf = [], pc_pos = 0, pc_ok = False\<rparr>
      | Some (path, l, pos) \<Rightarrow> skip_empty \<lparr>pc_path = path, pc_leaf = l, pc_pos = pos, pc_ok = True\<rparr>)"

definition cursor_valid :: "post_cursor \<Rightarrow> bool" where
  "cursor_valid c \<longleftrightarrow> pc_ok c \<and> pc_pos c < length (pc_leaf c)"

definition cursor_entry :: "post_cursor \<Rightarrow> post_entry" where
  "cursor_entry c = pc_leaf c ! pc_pos c"

definition cursor_next :: "post_cursor \<Rightarrow> post_cursor" where
  "cursor_next c = (if pc_ok c then skip_empty (c\<lparr>pc_pos := pc_pos c + 1\<rparr>) else c)"

text \<open>The first entries a caller reads with \<open>valid\<close>, \<open>entry\<close>, \<open>next\<close>.\<close>

fun drain :: "nat \<Rightarrow> post_cursor \<Rightarrow> post_entry list" where
  "drain 0 c = []"
| "drain (Suc n) c = (if cursor_valid c then cursor_entry c # drain n (cursor_next c) else [])"

section \<open>What is ahead of a cursor\<close>

fun entries_after :: "post_keyer \<Rightarrow> post_path \<Rightarrow> post_entry list" where
  "entries_after K [] = []"
| "entries_after K ((Leaf_node seps aggs kids, i) # rest) = concat (drop (Suc i) kids) @ entries_after K rest"
| "entries_after K ((Inner_node seps aggs kids, i) # rest) =
     concat (map (flat (post_ops K)) (drop (Suc i) kids)) @ entries_after K rest"

definition ahead :: "post_keyer \<Rightarrow> post_cursor \<Rightarrow> post_entry list" where
  "ahead K c = (if pc_ok c then drop (pc_pos c) (pc_leaf c) @ entries_after K (pc_path c) else [])"

text \<open>Nodes have children, as in every tree the operations build.\<close>

fun has_leaves :: "post_node \<Rightarrow> bool" where
  "has_leaves (Leaf_node seps aggs kids) = (kids \<noteq> [])"
| "has_leaves (Inner_node seps aggs kids) = (kids \<noteq> [] \<and> list_all has_leaves kids)"

definition path_ok :: "post_path \<Rightarrow> bool" where
  "path_ok path \<longleftrightarrow> list_all (\<lambda>ni. has_leaves (fst ni)) path"

lemma first_leaf_ok:
  "\<lbrakk>has_leaves t; path_ok path\<rbrakk> \<Longrightarrow> \<exists>path' l. first_leaf t path = Some (path', l) \<and> path_ok path'
    \<and> l @ entries_after K path' = flat (post_ops K) t @ entries_after K path"
  by (induction t path rule: first_leaf.induct) (auto simp: path_ok_def)

lemma advance_leaf_ok:
  "path_ok path \<Longrightarrow> (case advance_leaf path of None \<Rightarrow> entries_after K path = []
    | Some (path', l) \<Rightarrow> path_ok path' \<and> l @ entries_after K path' = entries_after K path)"
proof (induction path rule: advance_leaf.induct)
  case (2 seps aggs kids i rest)
  then show ?case
    by (cases "i + 1 < length kids")
      (auto simp: path_ok_def Cons_nth_drop_Suc [symmetric] split: option.splits)
next
  case (3 seps aggs kids i rest)
  show ?case
  proof (cases "i + 1 < length kids")
    case True
    then have d: "drop (Suc i) kids = kids ! Suc i # drop (Suc (Suc i)) kids" by (simp add: Cons_nth_drop_Suc)
    have "has_leaves (kids ! (i + 1))" "path_ok ((Inner_node seps aggs kids, i + 1) # rest)"
      using "3.prems" True by (auto simp: path_ok_def list_all_iff)
    from first_leaf_ok [OF this, of K] d True show ?thesis by fastforce
  qed (use 3 in \<open>auto simp: path_ok_def split: option.splits\<close>)
qed simp

lemma skip_empty_ok:
  "path_ok (pc_path c) \<Longrightarrow> path_ok (pc_path (skip_empty c)) \<and> ahead K (skip_empty c) = ahead K c
    \<and> (pc_ok (skip_empty c) \<longrightarrow> pc_pos (skip_empty c) < length (pc_leaf (skip_empty c)))"
proof (induction c rule: skip_empty.induct)
  case (1 c)
  show ?case
  proof (cases "pc_ok c \<and> length (pc_leaf c) \<le> pc_pos c")
    case True
    show ?thesis
    proof (cases "advance_leaf (pc_path c)")
      case None
      then have "skip_empty c = c\<lparr>pc_ok := False\<rparr>" using True by (subst skip_empty.simps) simp
      with advance_leaf_ok [OF 1(2), of K] None True 1(2) show ?thesis by (simp add: ahead_def)
    next
      case (Some pl)
      obtain path l where pl: "pl = (path, l)" by (rule prod.exhaust)
      have eq: "skip_empty c = skip_empty (c\<lparr>pc_path := path, pc_leaf := l, pc_pos := 0\<rparr>)"
        using True Some pl by (subst skip_empty.simps) simp
      have ok: "path_ok path" "l @ entries_after K path = entries_after K (pc_path c)"
        using advance_leaf_ok [OF 1(2), of K] Some pl by simp_all
      show ?thesis
        using 1(1) [OF True Some pl [symmetric]] ok True unfolding eq by (simp add: ahead_def)
    qed
  next
    case False
    then have "skip_empty c = c" by (subst skip_empty.simps) auto
    with 1 False show ?thesis by auto
  qed
qed

lemma drain_ahead:
  "\<lbrakk>path_ok (pc_path c); pc_ok c \<longrightarrow> pc_pos c < length (pc_leaf c)\<rbrakk> \<Longrightarrow> drain n c = take n (ahead K c)"
proof (induction n arbitrary: c)
  case (Suc n)
  show ?case
  proof (cases "pc_ok c")
    case True
    with Suc.prems have p: "pc_pos c < length (pc_leaf c)" by simp
    let ?c = "c\<lparr>pc_pos := pc_pos c + 1\<rparr>"
    have n: "cursor_next c = skip_empty ?c" using True by (simp add: cursor_next_def)
    have "path_ok (pc_path ?c)" using Suc.prems(1) by simp
    note sk = skip_empty_ok [OF this, of K]
    have "ahead K c = cursor_entry c # ahead K ?c"
      using True p by (simp add: ahead_def cursor_entry_def Cons_nth_drop_Suc [symmetric])
    moreover have "drain n (cursor_next c) = take n (ahead K (cursor_next c))"
      unfolding n using sk by (intro Suc.IH) auto
    ultimately show ?thesis using True p sk n by (simp add: cursor_valid_def)
  qed (simp add: cursor_valid_def ahead_def)
qed simp

lemma shaped_has_leaves: "shaped T h t \<Longrightarrow> has_leaves (t :: post_node)"
proof (induction h arbitrary: t)
  case 0
  then show ?case by (cases t) (auto simp: body_ok_def)
next
  case (Suc h)
  then obtain seps aggs kids where "t = Inner_node seps aggs kids" by (cases t) auto
  with Suc show ?case by (auto simp: body_ok_def list_all_iff)
qed

lemma dropWhile_around:
  "\<lbrakk>\<forall>x\<in>set as. P x; \<forall>x\<in>set bs. \<not> P x\<rbrakk> \<Longrightarrow> dropWhile P (as @ xs @ bs) = dropWhile P xs @ bs"
proof -
  assume a: "\<forall>x\<in>set as. P x" "\<forall>x\<in>set bs. \<not> P x"
  have "dropWhile P (xs @ bs) = dropWhile P xs @ bs"
    using a(2) by (induction xs) (cases bs; simp)+
  then show ?thesis using a(1) by simp
qed

lemma seek_down_ok:
  assumes "ordered (post_ops K) lo hi t" "has_leaves t" "path_ok path"
  shows "\<exists>path' l pos. seek_down K key t path = Some (path', l, pos) \<and> path_ok path'
    \<and> drop pos l @ entries_after K path'
      = (case key of None \<Rightarrow> flat (post_ops K) t | Some k \<Rightarrow> dropWhile (\<lambda>e. key_of K e < k) (flat (post_ops K) t))
        @ entries_after K path"
  using assms
proof (induction t arbitrary: lo hi path)
  case (Leaf_node seps aggs kids)
  then have f: "fenced (leaf_in (post_ops K)) lo kids seps hi" and p: "path_ok path" "kids \<noteq> []" by simp_all
  show ?case
  proof (cases key)
    case None
    with p show ?thesis by (cases kids) (auto simp: path_ok_def)
  next
    case (Some k)
    let ?i = "child_index seps k"
    have P: "\<forall>lo hi c x. c \<in> set kids \<longrightarrow> leaf_in (post_ops K) lo hi c \<longrightarrow> x \<in> set c \<longrightarrow> in_range lo hi (key_of K x)"
      by (auto simp: leaf_in_def)
    note sp = fenced_split_at [where f = "\<lambda>l. l" and k = "key_of K" and key = k, OF f refl P]
    have srt: "sorted_keys (key_of K) (kids ! ?i)" using sp(5) by (auto simp: leaf_in_def)
    have flat: "concat kids = concat (take ?i kids) @ kids ! ?i @ concat (drop (Suc ?i) kids)"
      using sp(2) by simp
    have "dropWhile (\<lambda>e. key_of K e < k) (concat kids)
        = dropWhile (\<lambda>e. key_of K e < k) (kids ! ?i) @ concat (drop (Suc ?i) kids)"
      unfolding flat by (rule dropWhile_around) (use sp(3,4) in \<open>auto dest: less_asym\<close>)
    with sp(1) p Some lower_bound_spec(2) [OF srt, of k] show ?thesis
      by (simp add: path_ok_def Let_def)
  qed
next
  case (Inner_node seps aggs kids)
  then have f: "fenced (ordered (post_ops K)) lo kids seps hi" and p: "path_ok path" "kids \<noteq> []"
    and hl: "\<forall>c\<in>set kids. has_leaves c" by (simp_all add: list_all_iff)
  define i where "i = (case key of None \<Rightarrow> 0 | Some k \<Rightarrow> child_index seps k)"
  have P: "\<forall>lo hi c x. c \<in> set kids \<longrightarrow> ordered (post_ops K) lo hi c \<longrightarrow> x \<in> set (flat (post_ops K) c) \<longrightarrow> in_range lo hi (key_of K x)"
    by (intro allI impI) (use ordered_flat [of "post_ops K"] in \<open>fastforce\<close>)
  have i: "i < length kids" and o: "\<exists>lo hi. ordered (post_ops K) lo hi (kids ! i)"
    and d: "(case key of None \<Rightarrow> concat (map (flat (post_ops K)) kids)
        | Some k \<Rightarrow> dropWhile (\<lambda>e. key_of K e < k) (concat (map (flat (post_ops K)) kids)))
      = (case key of None \<Rightarrow> flat (post_ops K) (kids ! i) | Some k \<Rightarrow> dropWhile (\<lambda>e. key_of K e < k) (flat (post_ops K) (kids ! i)))
        @ concat (map (flat (post_ops K)) (drop (Suc i) kids))"
  proof -
    show "i < length kids"
      using p(2) fenced_split_at(1) [where f = "flat (post_ops K)" and k = "key_of K", OF f refl P]
      by (auto simp: i_def split: option.split)
    then show "\<exists>lo hi. ordered (post_ops K) lo hi (kids ! i)" using fenced_member_ex [OF f] by simp
    show "(case key of None \<Rightarrow> concat (map (flat (post_ops K)) kids)
        | Some k \<Rightarrow> dropWhile (\<lambda>e. key_of K e < k) (concat (map (flat (post_ops K)) kids)))
      = (case key of None \<Rightarrow> flat (post_ops K) (kids ! i) | Some k \<Rightarrow> dropWhile (\<lambda>e. key_of K e < k) (flat (post_ops K) (kids ! i)))
        @ concat (map (flat (post_ops K)) (drop (Suc i) kids))"
    proof (cases key)
      case None
      with p(2) show ?thesis by (cases kids) (auto simp: i_def)
    next
      case (Some k)
      note sp = fenced_split_at [where f = "flat (post_ops K)" and k = "key_of K" and key = k, OF f refl P]
      have "dropWhile (\<lambda>e. key_of K e < k) (concat (map (flat (post_ops K)) kids))
          = dropWhile (\<lambda>e. key_of K e < k) (flat (post_ops K) (kids ! child_index seps k))
            @ concat (map (flat (post_ops K)) (drop (Suc (child_index seps k)) kids))"
        unfolding sp(2) by (rule dropWhile_around) (use sp(3,4) in \<open>blast dest: less_asym\<close>)+
      with Some show ?thesis by (simp add: i_def)
    qed
  qed
  let ?path = "(Inner_node seps aggs kids, i) # path"
  have ok: "path_ok ?path" using Inner_node.prems(2) p(1) by (simp add: path_ok_def)
  obtain lo' hi' where o': "ordered (post_ops K) lo' hi' (kids ! i)" using o by blast
  have hi: "has_leaves (kids ! i)" using hl i by simp
  obtain path' l pos where s: "seek_down K key (kids ! i) ?path = Some (path', l, pos)" "path_ok path'"
    "drop pos l @ entries_after K path' = (case key of None \<Rightarrow> flat (post_ops K) (kids ! i)
       | Some k \<Rightarrow> dropWhile (\<lambda>e. key_of K e < k) (flat (post_ops K) (kids ! i))) @ entries_after K ?path"
    using Inner_node.IH [OF nth_mem [OF i] o' hi ok] by (elim exE conjE) (rule that)
  have "seek_down K key (Inner_node seps aggs kids) path = seek_down K key (kids ! i) ?path"
    using i by (simp add: i_def Let_def)
  with s d show ?case by (simp split: option.splits)
qed

end
