(* ===== verification/Post_Props.thy ===== *)
theory Post_Props
  imports Post_Tree
begin

text \<open>The properties of the posting tree, with the trees on which they are evaluated.\<close>

section \<open>Properties\<close>

text \<open>
  (C22) The cursor enumerates: from \<open>seekPost\<close> with a key a caller reads exactly the postings whose
  key is not below it, in key order; without a key, all of them.
\<close>

theorem cursor_enumerates:
  assumes "tree_ok (post_ops K) t"
  shows "drain n (seek_post t K key has_key) = take n
    (if has_key then dropWhile (\<lambda>e. key_of K e < key) (flat (post_ops K) t) else flat (post_ops K) t)"
proof -
  from assms obtain h where o: "ordered (post_ops K) None None t" and h: "shaped (post_ops K) h t"
    by (auto simp: tree_ok_def)
  let ?key = "if has_key then Some key else None"
  have "path_ok []" by (simp add: path_ok_def)
  from seek_down_ok [OF o shaped_has_leaves [OF h] this, of ?key]
  obtain path l pos where s: "seek_down K ?key t [] = Some (path, l, pos)" "path_ok path"
    "drop pos l @ entries_after K path
      = (if has_key then dropWhile (\<lambda>e. key_of K e < key) (flat (post_ops K) t) else flat (post_ops K) t)"
    by (auto split: if_splits)
  let ?c = "\<lparr>pc_path = path, pc_leaf = l, pc_pos = pos, pc_ok = True\<rparr>"
  have c: "seek_post t K key has_key = skip_empty ?c" using s(1) by (simp add: seek_post_def)
  have "path_ok (pc_path ?c)" using s(2) by simp
  note sk = skip_empty_ok [OF this, of K]
  have "ahead K ?c = drop pos l @ entries_after K path" by (simp add: ahead_def)
  with s(3) sk show ?thesis unfolding c by (subst drain_ahead [where K = K]) simp_all
qed


lemma post_count_flat: "post_tree_count t = entries (post_ops K) t"
proof (induction t)
  case (Inner_node seps aggs kids)
  then have "map post_tree_count kids = map (entries (post_ops K)) kids" by simp
  then show ?case by (simp add: entries_sum del: map_eq_conv)
qed (simp add: length_concat)


lemma new_post_tree_ok: "tree_ok (post_ops K) new_post_tree"
proof -
  have "ordered (post_ops K) None None new_post_tree"
    by (simp add: new_post_tree_def leaf_in_def bounds_le_def)
  moreover have "shaped (post_ops K) 0 new_post_tree"
    by (simp add: new_post_tree_def body_ok_def leaf_good_def post_ops_def)
  ultimately show ?thesis by (auto simp: tree_ok_def)
qed

section \<open>A concrete tree\<close>

definition demo_pod :: "string \<Rightarrow> row_record" where
  "demo_pod name = \<lparr>rr_name = name, rr_uid = ''u-'' @ name, rr_name_tok = name, rr_label_blob = encode_label_blob [''app=web''],
     rr_weight = 1, rr_flags = 0\<rparr>"

definition demo_keyer :: post_keyer where
  "demo_keyer = \<lparr>ky_root = Some (fst (trie_set (Some (fst (trie_set None 5 (Some (demo_pod ''web''))))) 6 (Some (demo_pod ''db'')))),
     ky_namespace = ''prod'', ky_kind_tok = ''pod''\<rparr>"

definition demo_post :: "u32 \<Rightarrow> post_op" where
  "demo_post slot = \<lparr>op_key = key_of demo_keyer \<lparr>pe_slot = slot, pe_tok_idx = 3, pe_field = 1, pe_prev_lcp = 0\<rparr>,
     op_entry = \<lparr>pe_slot = slot, pe_tok_idx = 3, pe_field = 1, pe_prev_lcp = 0\<rparr>, op_remove = False\<rparr>"

lemma demo_rows_stored: "trie_get (ky_root demo_keyer) 5 = Some (demo_pod ''web'')"
    "trie_get (ky_root demo_keyer) 6 = Some (demo_pod ''db'')"
  by code_simp+

lemma demo_keys [simp]: "op_key (demo_post 5) = Post_key ''app=web'' ''web'' ''u-web''"
    "op_key (demo_post 6) = Post_key ''app=web'' ''db'' ''u-db''"
  unfolding demo_post_def key_of_def by (simp_all add: demo_rows_stored) (simp_all add: token_of_def demo_pod_def; code_simp)+

definition demo_post_tree :: post_node where
  "demo_post_tree = fst (post_apply demo_keyer new_post_tree [demo_post 6, demo_post 5] no_stats)"

lemma demo_post_keyed [simp]: "key_of demo_keyer (op_entry (demo_post s)) = op_key (demo_post s)"
    "op_remove (demo_post s) = False"
  by (simp_all add: demo_post_def)

lemma demo_posts_ok: "ops_ok (key_of demo_keyer) [demo_post 6, demo_post 5]"
  unfolding ops_ok_def by (auto simp: less_post_key_def compare_post_key_def go_compare_def)

lemma demo_posts_unsplit: "unsplit (tree_fences new_post_tree) ops"
  by (simp add: unsplit_def new_post_tree_def)


lemma demo_post_tree_ok: "tree_ok (post_ops demo_keyer) demo_post_tree"
  using posts.apply_tree_shape [OF new_post_tree_ok _ demo_posts_unsplit, of demo_keyer "[demo_post 6, demo_post 5]" no_stats]
    demo_posts_ok by (simp add: demo_post_tree_def post_apply_def) (metis prod.collapse)

theorem cursor_enumerates_witness:
  "drain 3 (seek_post demo_post_tree demo_keyer (op_key (demo_post 5)) True)
    = take 3 (dropWhile (\<lambda>e. key_of demo_keyer e < op_key (demo_post 5)) (flat (post_ops demo_keyer) demo_post_tree))"
  using cursor_enumerates [OF demo_post_tree_ok, of 3 "op_key (demo_post 5)" True] by (simp del: demo_keys)

end
