(* ===== verification/Stream_Hub.thy ===== *)
theory Stream_Hub
  imports Cluster_Id
begin

text \<open>
  The hub of the state-change stream (\<open>internal/stream/stream.go\<close>, \<open>internal/contract/stream.go\<close>) and
  the write loop of its SSE handler (\<open>internal/httpapi/stream.go\<close>): a replay ring per cluster, the
  subscriptions with their bounded channels, and the cursors that clients send back. One lock covers
  every operation, so the operations are functions of the hub. SHA-256 and the RFC 3339 formatting
  of times are fields of \<open>hub_env\<close>; only the length of a digest is ever used of them.
\<close>

section \<open>Events\<close>

record entity_ref =
  er_cluster_id :: string
  er_namespace :: string
  er_workload_kind :: string
  er_workload_name :: string
  er_workload_uid :: string
  er_pod_name :: string
  er_pod_uid :: string
  er_container_name :: string
  er_service_name :: string
  er_service_namespace :: string
  er_service_version :: string

definition StreamKindPod :: string where "StreamKindPod = ''pod''"
definition StreamKindWorkload :: string where "StreamKindWorkload = ''workload''"
definition StreamKindKubeEvent :: string where "StreamKindKubeEvent = ''kubeevent''"
definition StreamKindAlert :: string where "StreamKindAlert = ''alert''"
definition StreamKindReset :: string where "StreamKindReset = ''reset''"

definition StreamActionAdded :: string where "StreamActionAdded = ''added''"
definition StreamActionUpdated :: string where "StreamActionUpdated = ''updated''"
definition StreamActionDeleted :: string where "StreamActionDeleted = ''deleted''"
definition StreamActionReset :: string where "StreamActionReset = ''reset''"

record envelope =
  en_id :: string
  en_kind :: string
  en_action :: string
  en_cluster_id :: string
  en_observed_at :: string
  en_namespace :: string
  en_entity :: "entity_ref option"
  en_resource_version :: string

definition zero_envelope :: envelope where
  "zero_envelope = \<lparr>en_id = '''', en_kind = '''', en_action = '''', en_cluster_id = '''', en_observed_at = '''',
     en_namespace = '''', en_entity = None, en_resource_version = ''''\<rparr>"

definition max_event_id :: nat where "max_event_id = 64"

record stream_event =
  se_envelope :: envelope
  se_enqueued_at :: time
  se_seq :: u64

definition zero_event :: stream_event where
  "zero_event = \<lparr>se_envelope = zero_envelope, se_enqueued_at = 0, se_seq = 0\<rparr>"

section \<open>Configuration\<close>

record hub_config =
  hc_ring_size :: int
  hc_subscriber_buffer :: int
  hc_max_connections :: int
  hc_max_per_subject :: int
  hc_cluster_ids :: "string list"
  hc_max_clusters :: int
  hc_max_retained_events :: int

definition max_ring_size :: int where "max_ring_size = 65536"
definition max_connections :: int where "max_connections = 4096"
definition max_subscriber_buffer :: int where "max_subscriber_buffer = 4096"
definition max_subscriber_slots :: int where "max_subscriber_slots = 262144"

definition hub_defaults :: hub_config where
  "hub_defaults = \<lparr>hc_ring_size = 1024, hc_subscriber_buffer = 64, hc_max_connections = 256,
     hc_max_per_subject = 8, hc_cluster_ids = [], hc_max_clusters = 64, hc_max_retained_events = max_ring_size\<rparr>"

definition or_default :: "int \<Rightarrow> int \<Rightarrow> int" where
  "or_default x d = (if x \<le> 0 then d else x)"

definition set_defaults :: "hub_config \<Rightarrow> hub_config" where
  "set_defaults c = c\<lparr>
     hc_ring_size := or_default (hc_ring_size c) (hc_ring_size hub_defaults),
     hc_subscriber_buffer := or_default (hc_subscriber_buffer c) (hc_subscriber_buffer hub_defaults),
     hc_max_connections := or_default (hc_max_connections c) (hc_max_connections hub_defaults),
     hc_max_per_subject := or_default (hc_max_per_subject c) (hc_max_per_subject hub_defaults),
     hc_max_clusters := or_default (hc_max_clusters c) (hc_max_clusters hub_defaults),
     hc_max_retained_events := or_default (hc_max_retained_events c) (hc_max_retained_events hub_defaults)\<rparr>"

text \<open>The scan of the cluster identifiers, with those already seen.\<close>

fun check_cluster_ids :: "string list \<Rightarrow> string list \<Rightarrow> string option" where
  "check_cluster_ids seen [] = None"
| "check_cluster_ids seen (i # is) =
     (if \<not> valid_cluster_id i then Some ''invalid stream cluster ID''
      else if i \<in> set seen then Some ''duplicate stream cluster ID''
      else check_cluster_ids (i # seen) is)"

definition validate_config :: "hub_config \<Rightarrow> string option" where
  "validate_config c =
     (if hc_ring_size c > max_ring_size then Some ''stream ring size exceeds maximum''
      else if hc_max_connections c > max_connections then Some ''stream connections exceeds maximum''
      else if hc_subscriber_buffer c > max_subscriber_buffer then Some ''stream subscriber buffer exceeds maximum''
      else if hc_max_connections c * hc_subscriber_buffer c > max_subscriber_slots
      then Some ''stream subscriber slots exceed maximum''
      else if hc_max_clusters c < 1 \<or> hc_max_clusters c > 64
        \<or> hc_max_retained_events c < hc_ring_size c \<or> hc_max_retained_events c > max_ring_size
        \<or> int (length (hc_cluster_ids c)) > hc_max_clusters c
        \<or> int (length (hc_cluster_ids c)) * hc_ring_size c > hc_max_retained_events c
      then Some ''invalid stream cluster retention limits''
      else check_cluster_ids [] (hc_cluster_ids c))"

section \<open>Scopes\<close>

record stream_filter =
  sf_cluster_id :: string
  sf_all :: bool
  sf_namespaces :: "string list"

definition filter_allows :: "stream_filter \<Rightarrow> envelope \<Rightarrow> bool" where
  "filter_allows f e =
     (if en_cluster_id e \<noteq> sf_cluster_id f then False
      else if en_kind e = StreamKindReset then True
      else if sf_all f then True
      else if en_namespace e = '''' then False
      else en_namespace e \<in> set (sf_namespaces f))"

section \<open>State\<close>

record hub_env =
  he_sha256 :: "string \<Rightarrow> string"
  he_parses :: "string \<Rightarrow> bool"
  he_rfc3339_nano :: "time \<Rightarrow> string"
  he_rfc3339 :: "time \<Rightarrow> string"

record cluster_ring =
  cr_seq :: u64
  cr_events :: "stream_event list"
  cr_start :: nat
  cr_count :: nat

text \<open>A subscription with its channel. \<open>su_open\<close> says whether it is in \<open>h.subs\<close>; its channel is closed when it
  is not. \<open>su_written\<close> is what its handler has written to the response.\<close>

record subscription =
  su_subject :: string
  su_filter :: stream_filter
  su_binding :: string
  su_replay :: "stream_event list"
  su_chan :: "stream_event list"
  su_open :: bool
  su_written :: "stream_event list"

text \<open>What the observer is told.\<close>

datatype hub_obs = Stream_opened | Stream_closed string | Stream_rejected string | Stream_dropped string
  | Stream_replayed nat | Stream_reset | Stream_published string

record hub =
  hb_config :: hub_config
  hb_closed :: bool
  hb_instance :: string
  hb_rings :: "(string, cluster_ring) gomap"
  hb_allocated :: int
  hb_subs :: "(nat, subscription) gomap"
  hb_subject_conns :: "(string, int) gomap"
  hb_seen :: "hub_obs list"

definition tell :: "hub_obs list \<Rightarrow> hub \<Rightarrow> hub" where
  "tell os h = h\<lparr>hb_seen := hb_seen h @ os\<rparr>"

definition hex_digit :: "nat \<Rightarrow> char" where
  "hex_digit n = (if n < 10 then char_of (48 + n) else char_of (87 + n))"

definition hex_encode :: "string \<Rightarrow> string" where
  "hex_encode s = concat (map (\<lambda>c. let n = of_char c in [hex_digit (n div 16), hex_digit (n mod 16)]) s)"

text \<open>\<open>newWithRandom\<close>; the entropy is the 12 bytes read, \<open>None\<close> when the read fails.\<close>

definition new_hub :: "hub_config \<Rightarrow> string option \<Rightarrow> string + hub" where
  "new_hub c0 entropy =
     (let c = set_defaults c0 in
      case validate_config c of
        Some e \<Rightarrow> Inl e
      | None \<Rightarrow>
          (case entropy of
             None \<Rightarrow> Inl ''stream instance ID entropy unavailable''
           | Some b \<Rightarrow> Inr \<lparr>hb_config = c, hb_closed = False, hb_instance = hex_encode b, hb_rings = [],
                         hb_allocated = 0, hb_subs = [], hb_subject_conns = [], hb_seen = []\<rparr>))"

definition hub_allowed :: "hub \<Rightarrow> string \<Rightarrow> bool" where
  "hub_allowed h i \<longleftrightarrow> hc_cluster_ids (hb_config h) = [] \<or> i \<in> set (hc_cluster_ids (hb_config h))"

definition open_subs :: "hub \<Rightarrow> (nat \<times> subscription) list" where
  "open_subs h = filter (\<lambda>p. su_open (snd p)) (hb_subs h)"

section \<open>Cursors\<close>

definition cursor_binding :: "hub_env \<Rightarrow> string \<Rightarrow> string \<Rightarrow> stream_filter \<Rightarrow> string" where
  "cursor_binding V inst subject f =
     hex_encode (take 8 (he_sha256 V (inst @ subject @ sf_cluster_id f @ (if sf_all f then [char_of (1::nat)] else [])
       @ concat (map (\<lambda>n. char_of (0::nat) # n) (sort (sf_namespaces f))))))"

text \<open>\<open>strconv.FormatUint\<close> and \<open>strconv.ParseUint\<close> in base 10.\<close>

fun digits :: "nat \<Rightarrow> string" where
  "digits n = (if n < 10 then [char_of (48 + n)] else digits (n div 10) @ [char_of (48 + n mod 10)])"

declare digits.simps [simp del]

definition format_uint :: "u64 \<Rightarrow> string" where
  "format_uint x = digits (unat x)"

definition is_digit :: "char \<Rightarrow> bool" where
  "is_digit c \<longleftrightarrow> CHR ''0'' \<le> c \<and> c \<le> CHR ''9''"

definition digits_value :: "string \<Rightarrow> nat" where
  "digits_value s = foldl (\<lambda>n c. 10 * n + (of_char c - 48)) 0 s"

definition parse_uint :: "string \<Rightarrow> u64 option" where
  "parse_uint s =
     (if s = [] \<or> \<not> list_all is_digit s \<or> 2 ^ 64 \<le> digits_value s then None
      else Some (of_nat (digits_value s)))"

definition event_id :: "string \<Rightarrow> string \<Rightarrow> u64 \<Rightarrow> string" where
  "event_id inst binding q = inst @ ''.'' @ binding @ ''-'' @ format_uint q"

definition is_hex :: "char \<Rightarrow> bool" where
  "is_hex c \<longleftrightarrow> is_digit c \<or> (CHR ''a'' \<le> c \<and> c \<le> CHR ''f'')"

definition parse_last_event_id :: "hub \<Rightarrow> string \<Rightarrow> (string \<times> string \<times> u64) option" where
  "parse_last_event_id h s =
     (if s = [] \<or> length s > max_event_id then None
      else case str_cut s (CHR ''.'') of (inst, rest, dot) \<Rightarrow>
        case str_cut rest (CHR ''-'') of (binding, sequence, dash) \<Rightarrow>
          if \<not> dot \<or> \<not> dash \<or> length inst \<noteq> length (hb_instance h) \<or> length binding \<noteq> 16
            \<or> sequence = [] \<or> length sequence > 20 \<or> \<not> list_all is_hex inst \<or> \<not> list_all is_hex binding
          then None
          else (case parse_uint sequence of None \<Rightarrow> None | Some n \<Rightarrow> Some (inst, binding, n)))"

section \<open>Publishing\<close>

definition first_seq :: "cluster_ring \<Rightarrow> u64" where
  "first_seq r = cr_seq r - of_nat (cr_count r) + 1"

definition new_ring :: "hub_config \<Rightarrow> cluster_ring" where
  "new_ring c = \<lparr>cr_seq = 0, cr_events = replicate (nat (hc_ring_size c)) zero_event, cr_start = 0, cr_count = 0\<rparr>"

definition ring_push :: "stream_event \<Rightarrow> cluster_ring \<Rightarrow> cluster_ring" where
  "ring_push ev r =
     (let n = length (cr_events r) in
      if cr_count r < n
      then r\<lparr>cr_events := (cr_events r)[(cr_start r + cr_count r) mod n := ev], cr_count := cr_count r + 1\<rparr>
      else r\<lparr>cr_events := (cr_events r)[cr_start r := ev], cr_start := (cr_start r + 1) mod n\<rparr>)"

text \<open>Up to the fan-out: the event that enters the ring, or \<open>None\<close> when the envelope is ignored.\<close>

definition enqueue_event :: "hub_env \<Rightarrow> envelope \<Rightarrow> time \<Rightarrow> hub \<Rightarrow> (hub \<times> stream_event) option" where
  "enqueue_event V e0 now h =
     (if \<not> valid_cluster_id (en_cluster_id e0) then None
      else let i = en_cluster_id e0;
               e = (if he_parses V (en_observed_at e0) then e0 else e0\<lparr>en_observed_at := he_rfc3339_nano V now\<rparr>) in
        if hb_closed h \<or> \<not> hub_allowed h i then None
        else (case (case map_of (hb_rings h) i of
                      Some r \<Rightarrow> Some (r, hb_allocated h)
                    | None \<Rightarrow>
                        if int (length (hb_rings h)) \<ge> hc_max_clusters (hb_config h)
                          \<or> hb_allocated h + hc_ring_size (hb_config h) > hc_max_retained_events (hb_config h)
                        then None
                        else Some (new_ring (hb_config h), hb_allocated h + hc_ring_size (hb_config h))) of
                None \<Rightarrow> None
              | Some (r, slots) \<Rightarrow>
                  let r1 = r\<lparr>cr_seq := cr_seq r + 1\<rparr>;
                      ev = \<lparr>se_envelope = e\<lparr>en_id := ''''\<rparr>, se_enqueued_at = now, se_seq = cr_seq r1\<rparr> in
                  Some (h\<lparr>hb_rings := put i (ring_push ev r1) (hb_rings h), hb_allocated := slots\<rparr>, ev)))"

definition decorate :: "string \<Rightarrow> string \<Rightarrow> stream_event \<Rightarrow> stream_event" where
  "decorate inst binding ev =
     ev\<lparr>se_envelope := (se_envelope ev)\<lparr>en_id := event_id inst binding (se_seq ev)\<rparr>\<rparr>"

definition hub_remove_locked :: "nat \<Rightarrow> hub \<Rightarrow> hub \<times> bool" where
  "hub_remove_locked n h =
     (case map_of (hb_subs h) n of
        None \<Rightarrow> (h, False)
      | Some s \<Rightarrow>
          if \<not> su_open s then (h, False)
          else let k = get0 (hb_subject_conns h) (su_subject s) - 1 in
            (h\<lparr>hb_subs := put n (s\<lparr>su_open := False\<rparr>) (hb_subs h),
               hb_subject_conns := (if k \<le> 0 then del (su_subject s) (hb_subject_conns h)
                                    else put (su_subject s) k (hb_subject_conns h))\<rparr>, True))"

text \<open>The subscriptions that the event is offered to, in turn: sent to the channel, or dropped when it is
  full.\<close>

definition offer_event :: "hub \<Rightarrow> stream_event \<Rightarrow> subscription \<Rightarrow> subscription \<times> bool" where
  "offer_event h ev s =
     (if \<not> su_open s \<or> \<not> filter_allows (su_filter s) (se_envelope ev) then (s, False)
      else if int (length (su_chan s)) < hc_subscriber_buffer (hb_config h)
      then (s\<lparr>su_chan := su_chan s @ [decorate (hb_instance h) (su_binding s) ev]\<rparr>, False)
      else (s, True))"

definition fan_out :: "stream_event \<Rightarrow> hub \<Rightarrow> hub \<times> nat list" where
  "fan_out ev h =
     (h\<lparr>hb_subs := map (\<lambda>(n, s). (n, fst (offer_event h ev s))) (hb_subs h)\<rparr>,
      map fst (filter (\<lambda>(n, s). snd (offer_event h ev s)) (hb_subs h)))"

definition remove_all :: "nat list \<Rightarrow> hub \<Rightarrow> hub" where
  "remove_all ns h = fold (\<lambda>n h. fst (hub_remove_locked n h)) ns h"

definition hub_publish :: "hub_env \<Rightarrow> envelope \<Rightarrow> time \<Rightarrow> hub \<Rightarrow> hub" where
  "hub_publish V e now h =
     (case enqueue_event V e now h of
        None \<Rightarrow> h
      | Some (h1, ev) \<Rightarrow>
          (case fan_out ev h1 of (h2, dropped) \<Rightarrow>
             tell (Stream_published (en_kind e)
                   # concat (map (\<lambda>_. [Stream_dropped ''slow_subscriber'', Stream_closed ''slow_subscriber'']) dropped))
               (remove_all dropped h2)))"

section \<open>Subscribing\<close>

text \<open>The events after position \<open>want\<close>, read from the ring.\<close>

definition ring_event :: "cluster_ring \<Rightarrow> u64 \<Rightarrow> stream_event" where
  "ring_event r s = cr_events r ! ((cr_start r + unat (s - first_seq r)) mod length (cr_events r))"

definition replay_events :: "cluster_ring \<Rightarrow> u64 \<Rightarrow> stream_event list" where
  "replay_events r want = map (\<lambda>k. ring_event r (want + 1 + of_nat k)) [0..<unat (cr_seq r - want)]"

definition reset_event :: "hub_env \<Rightarrow> string \<Rightarrow> string \<Rightarrow> stream_filter \<Rightarrow> u64 \<Rightarrow> time \<Rightarrow> stream_event" where
  "reset_event V inst binding f q now =
     \<lparr>se_envelope = zero_envelope\<lparr>en_id := event_id inst binding q, en_kind := StreamKindReset,
        en_action := StreamActionReset, en_cluster_id := sf_cluster_id f, en_observed_at := he_rfc3339 V now\<rparr>,
      se_enqueued_at = now, se_seq = 0\<rparr>"

text \<open>What a subscription starts with: the replay, and whether it is a reset. \<open>want\<close> is \<open>None\<close> when no replay is
  requested, otherwise whether the cursor is of another instance, and its sequence number.\<close>

definition start_replay :: "hub_env \<Rightarrow> hub \<Rightarrow> string \<Rightarrow> stream_filter \<Rightarrow> (bool \<times> u64) option \<Rightarrow> time
    \<Rightarrow> stream_event list \<times> bool" where
  "start_replay V h binding f want now =
     (let ring = map_of (hb_rings h) (sf_cluster_id f);
          ring_seq = (case ring of None \<Rightarrow> 0 | Some r \<Rightarrow> cr_seq r) in
      case want of
        None \<Rightarrow> ([], False)
      | Some (foreign, q) \<Rightarrow>
          if foreign \<or> q > ring_seq
            \<or> (case ring of None \<Rightarrow> False | Some r \<Rightarrow> 0 < cr_count r \<and> q + 1 < first_seq r)
          then ([reset_event V (hb_instance h) binding f ring_seq now], True)
          else ((case ring of
                   None \<Rightarrow> []
                 | Some r \<Rightarrow> map (decorate (hb_instance h) binding)
                               (filter (\<lambda>ev. filter_allows f (se_envelope ev)) (replay_events r q))), False))"

datatype hub_error = Err_capacity | Err_closed | Err_bad_last_event_id

definition rejected :: "string \<Rightarrow> hub_error \<Rightarrow> hub \<Rightarrow> hub \<times> (hub_error + nat)" where
  "rejected reason e h = (tell [Stream_rejected reason] h, Inl e)"

text \<open>The answer is the number of the new subscription.\<close>

definition admit :: "hub_env \<Rightarrow> string \<Rightarrow> string \<Rightarrow> stream_filter \<Rightarrow> (bool \<times> u64) option \<Rightarrow> time \<Rightarrow> hub
    \<Rightarrow> hub \<times> (hub_error + nat)" where
  "admit V key binding f want now h =
     (if hb_closed h then rejected ''shutdown'' Err_closed h
      else if \<not> hub_allowed h (sf_cluster_id f) then rejected ''cluster'' Err_capacity h
      else if int (length (open_subs h)) \<ge> hc_max_connections (hb_config h) then rejected ''capacity'' Err_capacity h
      else if get0 (hb_subject_conns h) key \<ge> hc_max_per_subject (hb_config h)
      then rejected ''subject_capacity'' Err_capacity h
      else (case start_replay V h binding f want now of (replay, reset) \<Rightarrow>
        let n = length (hb_subs h);
            s = \<lparr>su_subject = key, su_filter = f, su_binding = binding, su_replay = replay, su_chan = [],
                 su_open = True, su_written = []\<rparr> in
        (tell (Stream_opened # (if \<not> reset \<and> replay \<noteq> [] then [Stream_replayed (length replay)] else [])
               @ (if reset then [Stream_reset] else []))
           (h\<lparr>hb_subs := hb_subs h @ [(n, s)],
              hb_subject_conns := put key (get0 (hb_subject_conns h) key + 1) (hb_subject_conns h)\<rparr>), Inr n)))"

definition hub_subscribe :: "hub_env \<Rightarrow> string \<Rightarrow> stream_filter \<Rightarrow> string \<Rightarrow> time \<Rightarrow> hub
    \<Rightarrow> hub \<times> (hub_error + nat)" where
  "hub_subscribe V subject f cursor now h =
     (if \<not> valid_cluster_id (sf_cluster_id f) then rejected ''cluster'' Err_capacity h
      else let key = he_sha256 V subject; binding = cursor_binding V (hb_instance h) key f in
        if cursor = [] then admit V key binding f None now h
        else (case parse_last_event_id h cursor of
                None \<Rightarrow> rejected ''bad_last_event_id'' Err_bad_last_event_id h
              | Some (inst, cursor_bound, q) \<Rightarrow>
                  if inst = hb_instance h \<and> cursor_bound \<noteq> binding
                  then rejected ''cursor_scope'' Err_bad_last_event_id h
                  else admit V key binding f (Some (inst \<noteq> hb_instance h, q)) now h))"

section \<open>Closing\<close>

definition hub_remove :: "nat \<Rightarrow> string \<Rightarrow> hub \<Rightarrow> hub" where
  "hub_remove n reason h =
     (case hub_remove_locked n h of (h1, removed) \<Rightarrow> if removed then tell [Stream_closed reason] h1 else h1)"

definition hub_close_sub :: "nat \<Rightarrow> hub \<Rightarrow> hub" where
  "hub_close_sub n h = hub_remove n ''client'' h"

definition hub_close :: "hub \<Rightarrow> hub" where
  "hub_close h =
     (if hb_closed h then h
      else let ns = map fst (open_subs h) in
        tell (map (\<lambda>_. Stream_closed ''shutdown'') ns) (remove_all ns (h\<lparr>hb_closed := True\<rparr>)))"

definition hub_stats :: "hub \<Rightarrow> nat \<times> nat" where
  "hub_stats h = (length (open_subs h), sum_list (map (\<lambda>(i, r). cr_count r) (hb_rings h)))"

section \<open>The handler's writes\<close>

text \<open>One turn of the handler: the next event of the replay, then of the channel; \<open>None\<close> when there is nothing
  to write now.\<close>

definition next_write :: "subscription \<Rightarrow> subscription option" where
  "next_write s =
     (if length (su_written s) < length (su_replay s)
      then Some (s\<lparr>su_written := su_written s @ [su_replay s ! length (su_written s)]\<rparr>)
      else (case su_chan s of
              [] \<Rightarrow> None
            | ev # evs \<Rightarrow> Some (s\<lparr>su_written := su_written s @ [ev], su_chan := evs\<rparr>)))"

definition handler_write :: "nat \<Rightarrow> hub \<Rightarrow> hub" where
  "handler_write n h =
     (case map_of (hb_subs h) n of
        None \<Rightarrow> h
      | Some s \<Rightarrow> (case next_write s of None \<Rightarrow> h | Some s' \<Rightarrow> h\<lparr>hb_subs := put n s' (hb_subs h)\<rparr>))"

end
