(* ===== verification/Hub_Laws.thy ===== *)
theory Hub_Laws
  imports Stream_Hub
begin

text \<open>
  The laws of the stream hub. A run of the hub is seen together with the log of every cluster: all
  events that ever entered its ring. The ring is the window of the log's last events; the hub keeps
  its bounds; and a subscription is a position in the log whose events it has been sent without gap.
\<close>

section \<open>Runs\<close>

datatype hub_op = Op_publish envelope time | Op_subscribe string stream_filter string time
  | Op_close_sub nat | Op_close | Op_write nat

type_synonym event_log = "string \<Rightarrow> stream_event list"

definition log_publish :: "hub_env \<Rightarrow> envelope \<Rightarrow> time \<Rightarrow> hub \<Rightarrow> event_log \<Rightarrow> event_log" where
  "log_publish V e now h L =
     (case enqueue_event V e now h of None \<Rightarrow> L
      | Some (h1, ev) \<Rightarrow> L(en_cluster_id e := L (en_cluster_id e) @ [ev]))"

fun hub_step :: "hub_env \<Rightarrow> hub_op \<Rightarrow> hub \<times> event_log \<Rightarrow> hub \<times> event_log" where
  "hub_step V (Op_publish e now) (h, L) = (hub_publish V e now h, log_publish V e now h L)"
| "hub_step V (Op_subscribe subject f cursor now) (h, L) = (fst (hub_subscribe V subject f cursor now h), L)"
| "hub_step V (Op_close_sub n) (h, L) = (hub_close_sub n h, L)"
| "hub_step V Op_close (h, L) = (hub_close h, L)"
| "hub_step V (Op_write n) (h, L) = (handler_write n h, L)"

section \<open>Maps with distinct keys\<close>

lemma put_map:
  "\<lbrakk>distinct (keys_of m); map_of m k = Some v\<rbrakk> \<Longrightarrow> put k (f v) m = map (\<lambda>(j, w). (j, if j = k then f w else w)) m"
proof (induction m)
  case (Cons a m)
  obtain j w where a: "a = (j, w)" by (rule prod.exhaust)
  show ?case
  proof (cases "j = k")
    case True
    have "(\<lambda>(j, w). (j, if j = k then f w else w)) p = p" if p: "p \<in> set m" for p
    proof -
      have "fst p \<in> fst ` set m" using p by (rule imageI)
      then have "fst p \<noteq> k" using Cons.prems(1) True a by auto
      then show ?thesis by (simp add: case_prod_beta)
    qed
    then have "map (\<lambda>(j, w). (j, if j = k then f w else w)) m = m" by (rule map_idI)
    with True Cons.prems a show ?thesis by simp
  next
    case False
    with Cons a show ?thesis by simp
  qed
qed simp

lemma map_of_map_values: "map_of (map (\<lambda>(j, w). (j, g j w)) m) k = map_option (g k) (map_of m k)"
  by (induction m) auto

lemma keys_map_values [simp]: "map fst (map (\<lambda>(j, w). (j, g j w)) m) = map fst m"
  by (induction m) auto

lemma keys_map_values_comp [simp]: "map (fst \<circ> (\<lambda>(j, w). (j, g j w))) m = map fst m"
  by (induction m) auto

lemma msum_map_values: "msum F (map (\<lambda>(j, w). (j, g j w)) m) = sum_list (map (\<lambda>(j, w). F (g j w)) m)"
  by (induction m) (auto simp: msum_def)

lemma msum_eq: "msum F m = sum_list (map (\<lambda>(j, w). F w) m)"
  by (induction m) (auto simp: msum_def)

lemma put_entries: "set (put k v m) \<subseteq> insert (k, v) (set m)"
  by (induction m) auto

lemma del_entries: "set (del k m) \<subseteq> set m"
  by (induction m) auto

section \<open>The ring is the end of the log\<close>

definition numbered :: "stream_event list \<Rightarrow> bool" where
  "numbered evs \<longleftrightarrow> (\<forall>j < length evs. se_seq (evs ! j) = of_nat (j + 1))"

definition ring_shows :: "nat \<Rightarrow> cluster_ring \<Rightarrow> stream_event list \<Rightarrow> bool" where
  "ring_shows n r evs \<longleftrightarrow> 0 < n \<and> length (cr_events r) = n \<and> cr_seq r = of_nat (length evs)
     \<and> cr_count r = min n (length evs) \<and> cr_start r = (if length evs \<le> n then 0 else length evs mod n)
     \<and> (\<forall>j < length evs. length evs - n \<le> j \<longrightarrow> cr_events r ! (j mod n) = evs ! j)"

lemma new_ring_shows: "0 < hc_ring_size c \<Longrightarrow> ring_shows (nat (hc_ring_size c)) (new_ring c) []"
  by (simp add: ring_shows_def new_ring_def)

lemma ring_push_shows:
  assumes "ring_shows n r evs"
  shows "ring_shows n (ring_push ev (r\<lparr>cr_seq := cr_seq r + 1\<rparr>)) (evs @ [ev])"
proof -
  let ?l = "length evs"
  have n: "0 < n" "length (cr_events r) = n" "cr_seq r = of_nat ?l" "cr_count r = min n ?l"
    and st: "cr_start r = (if ?l \<le> n then 0 else ?l mod n)"
    and ev: "\<And>j. \<lbrakk>j < ?l; ?l - n \<le> j\<rbrakk> \<Longrightarrow> cr_events r ! (j mod n) = evs ! j"
    using assms by (auto simp: ring_shows_def)
  define r' where "r' = ring_push ev (r\<lparr>cr_seq := cr_seq r + 1\<rparr>)"
  have slot: "cr_events r' = (cr_events r)[?l mod n := ev]"
    using n st by (auto simp: r'_def ring_push_def Let_def)
  have "cr_events r' ! (j mod n) = (evs @ [ev]) ! j" if j: "j < Suc ?l" "Suc ?l - n \<le> j" for j
  proof (cases "j = ?l")
    case True
    then show ?thesis using n by (simp add: slot)
  next
    case False
    with j have "j < ?l" "?l - j < n" by auto
    then have "j mod n \<noteq> ?l mod n"
    proof -
      assume a: "j < ?l" "?l - j < n"
      have "\<not> n dvd ?l - j" using a by (auto dest: dvd_imp_le)
      then have "?l mod n \<noteq> j mod n" using a(1) by (simp add: mod_eq_dvd_iff_nat)
      then show ?thesis by simp
    qed
    then show ?thesis using ev [of j] \<open>j < ?l\<close> j(2) n by (simp add: slot nth_append)
  qed
  moreover have "cr_seq r' = of_nat (Suc ?l)" "cr_count r' = min n (Suc ?l)" "length (cr_events r') = n"
    using n by (auto simp: r'_def ring_push_def Let_def)
  moreover have "cr_start r' = (if Suc ?l \<le> n then 0 else Suc ?l mod n)"
  proof -
    consider "?l < n" | "?l = n" | "n < ?l" by linarith
    then show ?thesis
    proof cases
      case 3
      then have "cr_start r' = (?l mod n + 1) mod n" using n st by (simp add: r'_def ring_push_def Let_def)
      with 3 show ?thesis by (simp add: mod_Suc_eq)
    qed (use n st in \<open>auto simp: r'_def ring_push_def Let_def mod_Suc\<close>)
  qed
  ultimately show ?thesis using n(1) unfolding r'_def [symmetric] by (simp add: ring_shows_def)
qed

lemma ring_event_shows:
  assumes "ring_shows n r evs" "length evs < 2 ^ 64" "j < length evs" "length evs - n \<le> j"
  shows "ring_event r (of_nat (j + 1)) = evs ! j"
proof -
  let ?l = "length evs"
  have n: "0 < n" "length (cr_events r) = n" "cr_seq r = of_nat ?l" "cr_count r = min n ?l"
    and st: "cr_start r = (if ?l \<le> n then 0 else ?l mod n)"
    and ev: "cr_events r ! (j mod n) = evs ! j"
    using assms by (auto simp: ring_shows_def)
  let ?d = "j - (?l - n)"
  have "of_nat (j + 1) - first_seq r = (of_nat ?d :: u64)"
  proof -
    have "first_seq r = of_nat (?l - min n ?l) + 1" using n by (simp add: first_seq_def of_nat_diff)
    moreover have "(of_nat (j + 1) :: u64) = of_nat ?d + (of_nat (?l - min n ?l) + 1)"
    proof -
      have "j + 1 = ?d + (?l - min n ?l) + 1" using assms(4) by auto
      then show ?thesis by (metis add.assoc of_nat_1 of_nat_add)
    qed
    ultimately show ?thesis by simp
  qed
  moreover have "unat (of_nat ?d :: u64) = ?d" using assms(2,3) by (intro of_nat_inverse) simp_all
  moreover have "(cr_start r + ?d) mod n = j mod n"
  proof (cases "?l \<le> n")
    case True
    then show ?thesis using st by simp
  next
    case False
    then have "?l + ?d = j + n" using assms(4) by simp
    then have "(?l + ?d) mod n = j mod n" by simp
    then show ?thesis using False st by (simp add: mod_add_left_eq)
  qed
  ultimately show ?thesis using n(2) ev by (simp add: ring_event_def)
qed

lemma replay_events_shows:
  assumes "ring_shows n r evs" "length evs < 2 ^ 64" "p \<le> length evs" "length evs - n \<le> p"
  shows "replay_events r (of_nat p) = drop p evs"
proof -
  let ?l = "length evs"
  have "unat (cr_seq r - of_nat p) = ?l - p"
  proof -
    have "cr_seq r - of_nat p = of_nat (?l - p)" using assms(1,3) by (simp add: ring_shows_def of_nat_diff)
    moreover have "unat (of_nat (?l - p) :: u64) = ?l - p" using assms(2) by (intro of_nat_inverse) simp_all
    ultimately show ?thesis by (simp only:)
  qed
  moreover have "ring_event r (of_nat p + 1 + of_nat k) = drop p evs ! k" if "k < ?l - p" for k
  proof -
    have e: "(of_nat p + 1 + of_nat k :: u64) = of_nat (p + k + 1)" by simp
    show ?thesis unfolding e using ring_event_shows [OF assms(1,2), of "p + k"] that assms(4) by simp
  qed
  ultimately show ?thesis by (intro nth_equalityI) (auto simp: replay_events_def)
qed

section \<open>The bounds\<close>

definition open_count :: "(subscription \<Rightarrow> bool) \<Rightarrow> hub \<Rightarrow> int" where
  "open_count P h = msum (\<lambda>s. of_bool (su_open s \<and> P s)) (hb_subs h)"

abbreviation of_subject :: "string \<Rightarrow> subscription \<Rightarrow> bool" where
  "of_subject k s \<equiv> su_subject s = k"

abbreviation any_sub :: "subscription \<Rightarrow> bool" where
  "any_sub s \<equiv> True"

definition config_ok :: "hub_config \<Rightarrow> bool" where
  "config_ok c \<longleftrightarrow> validate_config c = None \<and> 0 < hc_ring_size c \<and> 0 < hc_subscriber_buffer c
     \<and> 0 < hc_max_connections c \<and> 0 < hc_max_per_subject c"

definition rings_ok :: "hub \<Rightarrow> bool" where
  "rings_ok h \<longleftrightarrow> distinct (keys_of (hb_rings h)) \<and> int (length (hb_rings h)) \<le> hc_max_clusters (hb_config h)
     \<and> hb_allocated h = int (length (hb_rings h)) * hc_ring_size (hb_config h)
     \<and> hb_allocated h \<le> hc_max_retained_events (hb_config h)"

definition subs_ok :: "hub \<Rightarrow> bool" where
  "subs_ok h \<longleftrightarrow> keys_of (hb_subs h) = [0..<length (hb_subs h)]
     \<and> list_all (\<lambda>(n, s). int (length (su_chan s)) \<le> hc_subscriber_buffer (hb_config h)) (hb_subs h)
     \<and> open_count any_sub h \<le> hc_max_connections (hb_config h)
     \<and> (hb_closed h \<longrightarrow> open_count any_sub h = 0)"

definition conns_ok :: "hub \<Rightarrow> bool" where
  "conns_ok h \<longleftrightarrow> distinct (keys_of (hb_subject_conns h)) \<and> list_all (\<lambda>(k, v). 0 < v) (hb_subject_conns h)
     \<and> (\<forall>k. get0 (hb_subject_conns h) k = open_count (of_subject k) h
          \<and> open_count (of_subject k) h \<le> hc_max_per_subject (hb_config h))"

fun told :: "hub_obs \<Rightarrow> int" where
  "told Stream_opened = 1"
| "told (Stream_closed reason) = - 1"
| "told obs = 0"

definition gauge :: "hub \<Rightarrow> int" where
  "gauge h = sum_list (map told (hb_seen h))"

definition logs_ok :: "hub \<Rightarrow> event_log \<Rightarrow> bool" where
  "logs_ok h L \<longleftrightarrow> (\<forall>i. numbered (L i)
     \<and> (case map_of (hb_rings h) i of None \<Rightarrow> L i = []
        | Some r \<Rightarrow> ring_shows (nat (hc_ring_size (hb_config h))) r (L i)))"

definition hub_ok :: "hub \<times> event_log \<Rightarrow> bool" where
  "hub_ok hl \<longleftrightarrow> (case hl of (h, L) \<Rightarrow> config_ok (hb_config h) \<and> rings_ok h \<and> subs_ok h \<and> conns_ok h
     \<and> gauge h = open_count any_sub h \<and> logs_ok h L)"

lemma tell_simps [simp]:
  "hb_config (tell os h) = hb_config h" "hb_closed (tell os h) = hb_closed h" "hb_instance (tell os h) = hb_instance h"
  "hb_rings (tell os h) = hb_rings h" "hb_allocated (tell os h) = hb_allocated h" "hb_subs (tell os h) = hb_subs h"
  "hb_subject_conns (tell os h) = hb_subject_conns h" "gauge (tell os h) = gauge h + sum_list (map told os)"
  "open_count P (tell os h) = open_count P h"
  by (simp_all add: tell_def gauge_def open_count_def)

lemma tell_ok [simp]: "rings_ok (tell os h) = rings_ok h" "subs_ok (tell os h) = subs_ok h"
    "conns_ok (tell os h) = conns_ok h" "logs_ok (tell os h) L = logs_ok h L"
  by (simp_all add: rings_ok_def subs_ok_def conns_ok_def logs_ok_def cong: option.case_cong)

lemma open_count_open_subs: "int (length (open_subs h)) = open_count any_sub h"
proof -
  have "int (length (filter (\<lambda>p. su_open (snd p)) m)) = msum (\<lambda>s. of_bool (su_open s \<and> any_sub s)) m" for m :: "(nat, subscription) gomap"
    by (induction m) auto
  then show ?thesis by (simp add: open_subs_def open_count_def)
qed

lemma open_count_nonneg: "0 \<le> open_count P h"
  by (auto simp: open_count_def intro!: msum_nonneg)

subsection \<open>Removing subscriptions\<close>

abbreviation shut :: "nat set \<Rightarrow> nat \<Rightarrow> subscription \<Rightarrow> subscription" where
  "shut N n s \<equiv> (if n \<in> N then s\<lparr>su_open := False\<rparr> else s)"

lemma shut_closed: "\<not> su_open s \<Longrightarrow> s\<lparr>su_open := False\<rparr> = s"
  by simp

lemma remove_locked_keeps:
  assumes "distinct (keys_of (hb_subs h))" and "hub_remove_locked n h = (h', b)"
  shows "hb_config h' = hb_config h \<and> hb_closed h' = hb_closed h \<and> hb_instance h' = hb_instance h
    \<and> hb_rings h' = hb_rings h \<and> hb_allocated h' = hb_allocated h \<and> hb_seen h' = hb_seen h
    \<and> hb_subs h' = map (\<lambda>(m, s). (m, shut {n} m s)) (hb_subs h)
    \<and> (b \<longleftrightarrow> (\<exists>s. map_of (hb_subs h) n = Some s \<and> su_open s))
    \<and> open_count any_sub h' = open_count any_sub h - of_bool b"
proof (cases "map_of (hb_subs h) n")
  case None
  then have "n \<notin> fst ` set (hb_subs h)" by (simp add: map_of_eq_None_iff)
  then have "map (\<lambda>(m, s). (m, shut {n} m s)) (hb_subs h) = hb_subs h"
    by (intro map_idI) (force simp: case_prod_beta)
  with None assms show ?thesis by (simp add: hub_remove_locked_def)
next
  case (Some s)
  have m: "map (\<lambda>(m, s). (m, shut {n} m s)) (hb_subs h) = put n (s\<lparr>su_open := False\<rparr>) (hb_subs h)"
    using put_map [OF assms(1) Some, of "\<lambda>s. s\<lparr>su_open := False\<rparr>"] by simp
  show ?thesis
  proof (cases "su_open s")
    case True
    define k where "k = get0 (hb_subject_conns h) (su_subject s) - 1"
    have h': "h' = h\<lparr>hb_subs := put n (s\<lparr>su_open := False\<rparr>) (hb_subs h),
        hb_subject_conns := (if k \<le> 0 then del (su_subject s) (hb_subject_conns h)
                             else put (su_subject s) k (hb_subject_conns h))\<rparr>" and b
      using assms(2) Some True by (auto simp: hub_remove_locked_def Let_def k_def)
    then show ?thesis unfolding m using Some True assms(1) by (simp add: open_count_def msum_put)
  next
    case False
    then have "put n (s\<lparr>su_open := False\<rparr>) (hb_subs h) = hb_subs h"
      using update_triv [OF Some] by (simp add: shut_closed)
    with False assms(2) Some m show ?thesis by (simp add: hub_remove_locked_def)
  qed
qed

lemma remove_locked_conns:
  assumes "distinct (keys_of (hb_subs h))" and "hub_remove_locked n h = (h', b)" and "conns_ok h"
  shows "conns_ok h'"
proof (cases b)
  case False
  with assms(2,3) show ?thesis
    by (auto simp: hub_remove_locked_def Let_def split: option.splits if_splits)
next
  case True
  then obtain s where s: "map_of (hb_subs h) n = Some s" "su_open s"
    using remove_locked_keeps [OF assms(1,2)] by auto
  define k where "k = get0 (hb_subject_conns h) (su_subject s) - 1"
  have h': "h' = h\<lparr>hb_subs := put n (s\<lparr>su_open := False\<rparr>) (hb_subs h),
      hb_subject_conns := (if k \<le> 0 then del (su_subject s) (hb_subject_conns h)
                           else put (su_subject s) k (hb_subject_conns h))\<rparr>"
    using assms(2) s by (auto simp: hub_remove_locked_def Let_def k_def)
  have c: "open_count (of_subject j) h' = open_count (of_subject j) h - of_bool (su_subject s = j)" for j
    unfolding h' using s assms(1) by (simp add: open_count_def msum_put)
  have "0 \<le> k" using c [of "su_subject s"] assms(3) open_count_nonneg [of "of_subject (su_subject s)" h']
    by (simp add: k_def conns_ok_def)
  then have g: "get0 (hb_subject_conns h') j = get0 (hb_subject_conns h) j - of_bool (su_subject s = j)" for j
    unfolding h' by (auto simp: k_def)
  have "list_all (\<lambda>(k, v). 0 < v) (hb_subject_conns h')"
    using assms(3) put_entries [of "su_subject s" k "hb_subject_conns h"] del_entries [of "su_subject s" "hb_subject_conns h"]
    unfolding h' conns_ok_def list_all_iff by auto
  moreover have "distinct (keys_of (hb_subject_conns h'))" unfolding h' using assms(3) by (simp add: conns_ok_def)
  moreover have "hb_config h' = hb_config h" by (simp add: h')
  moreover have "get0 (hb_subject_conns h') j = open_count (of_subject j) h'
      \<and> open_count (of_subject j) h' \<le> hc_max_per_subject (hb_config h)" for j
  proof -
    have "get0 (hb_subject_conns h) j = open_count (of_subject j) h
        \<and> open_count (of_subject j) h \<le> hc_max_per_subject (hb_config h)"
      using assms(3) unfolding conns_ok_def by blast
    then show ?thesis using c [of j] g [of j] by auto
  qed
  ultimately show ?thesis unfolding conns_ok_def by simp
qed

lemma remove_all_keeps:
  assumes "distinct (keys_of (hb_subs h))" "conns_ok h" "distinct ns"
    and "\<forall>n\<in>set ns. \<exists>s. map_of (hb_subs h) n = Some s \<and> su_open s"
  shows "hb_config (remove_all ns h) = hb_config h \<and> hb_closed (remove_all ns h) = hb_closed h
    \<and> hb_instance (remove_all ns h) = hb_instance h
    \<and> hb_rings (remove_all ns h) = hb_rings h \<and> hb_allocated (remove_all ns h) = hb_allocated h
    \<and> hb_seen (remove_all ns h) = hb_seen h
    \<and> hb_subs (remove_all ns h) = map (\<lambda>(m, s). (m, shut (set ns) m s)) (hb_subs h)
    \<and> open_count any_sub (remove_all ns h) = open_count any_sub h - int (length ns)
    \<and> conns_ok (remove_all ns h)"
  using assms
proof (induction ns arbitrary: h)
  case Nil
  then show ?case by (simp add: remove_all_def)
next
  case (Cons n ns)
  obtain h1 b where r: "hub_remove_locked n h = (h1, b)" by (rule prod.exhaust)
  note k = remove_locked_keeps [OF Cons.prems(1) r]
  have b: b using k Cons.prems(4) by simp
  have subs: "hb_subs h1 = map (\<lambda>(m, s). (m, shut {n} m s)) (hb_subs h)" using k by simp
  have "\<forall>m\<in>set ns. \<exists>s. map_of (hb_subs h1) m = Some s \<and> su_open s"
    using Cons.prems(3,4) unfolding subs by (fastforce simp: map_of_map_values)
  moreover have "distinct (keys_of (hb_subs h1))" using Cons.prems(1) unfolding subs keys_map_values .
  moreover have "conns_ok h1" by (rule remove_locked_conns [OF Cons.prems(1) r Cons.prems(2)])
  ultimately have ih: "hb_config (remove_all ns h1) = hb_config h1 \<and> hb_closed (remove_all ns h1) = hb_closed h1
    \<and> hb_instance (remove_all ns h1) = hb_instance h1
    \<and> hb_rings (remove_all ns h1) = hb_rings h1 \<and> hb_allocated (remove_all ns h1) = hb_allocated h1
    \<and> hb_seen (remove_all ns h1) = hb_seen h1
    \<and> hb_subs (remove_all ns h1) = map (\<lambda>(m, s). (m, shut (set ns) m s)) (hb_subs h1)
    \<and> open_count any_sub (remove_all ns h1) = open_count any_sub h1 - int (length ns)
    \<and> conns_ok (remove_all ns h1)"
    using Cons.IH Cons.prems(3) by simp
  have u: "remove_all (n # ns) h = remove_all ns h1" by (simp add: remove_all_def r)
  have s: "map (\<lambda>(m, s). (m, shut (set ns) m s)) (hb_subs h1) = map (\<lambda>(m, s). (m, shut (set (n # ns)) m s)) (hb_subs h)"
    unfolding subs by auto
  show ?case unfolding u using ih k b s by simp
qed

subsection \<open>The operations\<close>

lemma hub_okD:
  assumes "hub_ok (h, L)"
  shows "config_ok (hb_config h)" "rings_ok h" "subs_ok h" "conns_ok h" "gauge h = open_count any_sub h" "logs_ok h L"
    "distinct (keys_of (hb_subs h))"
  using assms by (simp_all add: hub_ok_def subs_ok_def)

lemma chans_shut: "list_all (\<lambda>(n, s). int (length (su_chan s)) \<le> b) (map (\<lambda>(m, s). (m, shut N m s)) m)
    = list_all (\<lambda>(n, s). int (length (su_chan s)) \<le> b) m"
  by (induction m) (auto split: if_splits)

lemma remove_all_ok:
  assumes "hub_ok (h, L)" "distinct ns" "\<forall>n\<in>set ns. \<exists>s. map_of (hb_subs h) n = Some s \<and> su_open s"
    and "sum_list (map told os) = - int (length ns)"
  shows "hub_ok (tell os (remove_all ns h), L)"
proof -
  note h = hub_okD [OF assms(1)]
  note r = remove_all_keeps [OF h(7,4) assms(2,3)]
  have "keys_of (hb_subs (remove_all ns h)) = keys_of (hb_subs h)" using r by (simp only: keys_map_values)
  moreover have "length (hb_subs (remove_all ns h)) = length (hb_subs h)" using r by simp
  moreover have "open_count any_sub (remove_all ns h) = 0" if "hb_closed h"
  proof -
    have "open_count any_sub h = 0" using h(3) that by (simp add: subs_ok_def)
    with r open_count_nonneg [of any_sub "remove_all ns h"] show ?thesis by simp
  qed
  ultimately have "subs_ok (remove_all ns h)"
    using h(3) r by (auto simp: subs_ok_def chans_shut)
  moreover have "rings_ok (remove_all ns h)" using h(2) r by (simp add: rings_ok_def)
  moreover have "logs_ok (remove_all ns h) L"
    using h(6) r by (simp add: logs_ok_def cong: option.case_cong)
  moreover have "gauge (remove_all ns h) = gauge h" using r by (simp add: gauge_def)
  ultimately show ?thesis using h r assms(4) by (simp add: hub_ok_def)
qed

lemma remove_one:
  "hub_remove n reason h = (if (\<exists>s. map_of (hb_subs h) n = Some s \<and> su_open s)
     then tell [Stream_closed reason] (remove_all [n] h) else h)"
  by (auto simp: hub_remove_def remove_all_def hub_remove_locked_def Let_def split: option.split)

lemma hub_remove_ok: "hub_ok (h, L) \<Longrightarrow> hub_ok (hub_remove n reason h, L)"
  unfolding remove_one by (auto intro!: remove_all_ok)

lemma open_sub_entries:
  assumes "distinct (keys_of m)"
  shows "\<forall>n\<in>set (map fst (filter (\<lambda>p. su_open (snd p)) m)). \<exists>s. map_of m n = Some s \<and> su_open s"
proof
  fix n assume "n \<in> set (map fst (filter (\<lambda>p. su_open (snd p)) m))"
  then obtain s where "(n, s) \<in> set m" "su_open s" by auto
  with assms show "\<exists>s. map_of m n = Some s \<and> su_open s" by auto
qed

lemma hub_close_ok:
  assumes "hub_ok (h, L)"
  shows "hub_ok (hub_close h, L)"
proof (cases "hb_closed h")
  case False
  note h = hub_okD [OF assms]
  let ?h = "h\<lparr>hb_closed := True\<rparr>" and ?ns = "map fst (open_subs h)"
  have d: "distinct ?ns" using h(7) by (simp add: open_subs_def distinct_map_filter)
  have o: "\<forall>n\<in>set ?ns. \<exists>s. map_of (hb_subs h) n = Some s \<and> su_open s"
    unfolding open_subs_def by (rule open_sub_entries [OF h(7)])
  have c: "conns_ok ?h" using h(4) by (simp add: conns_ok_def open_count_def)
  have p: "distinct (keys_of (hb_subs ?h))" "\<forall>n\<in>set ?ns. \<exists>s. map_of (hb_subs ?h) n = Some s \<and> su_open s"
    using h(7) o by simp_all
  note r = remove_all_keeps [OF p(1) c d p(2)]
  have oc: "open_count any_sub ?h = int (length ?ns)" using open_count_open_subs [of h] by (simp add: open_count_def)
  have r: "hb_config (remove_all ?ns ?h) = hb_config h \<and> hb_closed (remove_all ?ns ?h)
    \<and> hb_rings (remove_all ?ns ?h) = hb_rings h \<and> hb_allocated (remove_all ?ns ?h) = hb_allocated h
    \<and> hb_seen (remove_all ?ns ?h) = hb_seen h
    \<and> hb_subs (remove_all ?ns ?h) = map (\<lambda>(m, s). (m, shut (set ?ns) m s)) (hb_subs h)
    \<and> open_count any_sub (remove_all ?ns ?h) = 0 \<and> conns_ok (remove_all ?ns ?h)"
    using r oc by simp
  have "keys_of (hb_subs (remove_all ?ns ?h)) = keys_of (hb_subs h)" using r by (simp only: keys_map_values)
  then have "subs_ok (remove_all ?ns ?h)"
    using h(3) r open_count_nonneg [of any_sub h] by (auto simp: subs_ok_def chans_shut)
  moreover have "rings_ok (remove_all ?ns ?h)" "logs_ok (remove_all ?ns ?h) L"
    using h(2,6) r by (simp_all add: rings_ok_def logs_ok_def cong: option.case_cong)
  moreover have "sum_list (map told (map (\<lambda>_. Stream_closed ''shutdown'') ?ns)) = - open_count any_sub h"
    by (simp add: o_def sum_list_triv open_count_open_subs)
  moreover have "gauge (remove_all ?ns ?h) = gauge h" using r by (simp add: gauge_def)
  ultimately show ?thesis using False h r by (simp add: hub_close_def hub_ok_def Let_def)
qed (use assms in \<open>simp add: hub_close_def\<close>)

lemma numbered_snoc: "\<lbrakk>numbered evs; se_seq ev = of_nat (length evs + 1)\<rbrakk> \<Longrightarrow> numbered (evs @ [ev])"
  by (auto simp: numbered_def nth_append less_Suc_eq)

lemma hub_okI:
  assumes "config_ok (hb_config h)" "rings_ok h" "subs_ok h" "conns_ok h" "gauge h = open_count any_sub h" "logs_ok h L"
  shows "hub_ok (h, L)"
  using assms by (simp add: hub_ok_def)

lemma log_of_cluster:
  "logs_ok h L \<Longrightarrow> (case map_of (hb_rings h) i of None \<Rightarrow> L i = []
     | Some r \<Rightarrow> ring_shows (nat (hc_ring_size (hb_config h))) r (L i)) \<and> numbered (L i)"
  by (simp add: logs_ok_def)

lemma enqueue_ok:
  assumes "hub_ok (h, L)" and "enqueue_event V e now h = Some (h1, ev)"
  shows "hub_ok (h1, L(en_cluster_id e := L (en_cluster_id e) @ [ev])) \<and> hb_subs h1 = hb_subs h
    \<and> hb_config h1 = hb_config h \<and> hb_instance h1 = hb_instance h \<and> \<not> hb_closed h1
    \<and> en_cluster_id (se_envelope ev) = en_cluster_id e \<and> log_publish V e now h L = L(en_cluster_id e := L (en_cluster_id e) @ [ev])"
proof -
  note h = hub_okD [OF assms(1)]
  let ?i = "en_cluster_id e"
  define n where "n = nat (hc_ring_size (hb_config h))"
  have n: "0 < hc_ring_size (hb_config h)" using h(1) by (simp add: config_ok_def)
  obtain r slots where ring: "(case map_of (hb_rings h) ?i of Some r \<Rightarrow> Some (r, hb_allocated h)
        | None \<Rightarrow> if int (length (hb_rings h)) \<ge> hc_max_clusters (hb_config h)
              \<or> hb_allocated h + hc_ring_size (hb_config h) > hc_max_retained_events (hb_config h) then None
            else Some (new_ring (hb_config h), hb_allocated h + hc_ring_size (hb_config h))) = Some (r, slots)"
    and h1: "h1 = h\<lparr>hb_rings := put ?i (ring_push ev (r\<lparr>cr_seq := cr_seq r + 1\<rparr>)) (hb_rings h), hb_allocated := slots\<rparr>"
    and ev: "se_seq ev = cr_seq r + 1" "en_cluster_id (se_envelope ev) = ?i" and cl: "\<not> hb_closed h"
    using assms(2) by (auto simp: enqueue_event_def Let_def split: if_splits option.splits prod.splits)
  have rs: "ring_shows n r (L ?i)"
  proof (cases "map_of (hb_rings h) ?i")
    case None
    then have "L ?i = []" using log_of_cluster [OF h(6), of ?i] by simp
    with None ring new_ring_shows [OF n] show ?thesis by (auto simp: n_def split: if_splits)
  next
    case (Some r')
    with ring log_of_cluster [OF h(6), of ?i] show ?thesis by (simp add: n_def)
  qed
  have num: "\<forall>j. numbered (L j)" using h(6) by (simp add: logs_ok_def)
  have "se_seq ev = of_nat (length (L ?i) + 1)" using rs ev(1) by (simp add: ring_shows_def)
  then have "numbered (L ?i @ [ev])" using num by (intro numbered_snoc) simp_all
  then have "logs_ok h1 (L(?i := L ?i @ [ev]))"
    using log_of_cluster [OF h(6)] ring_push_shows [OF rs, of ev]
    unfolding logs_ok_def h1 n_def by (simp cong: option.case_cong)
  moreover have "rings_ok h1"
  proof (cases "map_of (hb_rings h) ?i")
    case None
    then have "?i \<notin> fst ` set (hb_rings h)" by (simp add: map_of_eq_None_iff)
    with None h(2) ring show ?thesis unfolding rings_ok_def h1
      by (auto simp: length_put algebra_simps split: if_splits)
  next
    case (Some r')
    then have "?i \<in> fst ` set (hb_rings h)" by (force dest: map_of_SomeD)
    with Some h(2) ring show ?thesis unfolding rings_ok_def h1 by (auto simp: length_put)
  qed
  moreover have "subs_ok h1" "conns_ok h1" "gauge h1 = gauge h" "open_count any_sub h1 = open_count any_sub h"
    using h(3,4) by (simp_all add: h1 subs_ok_def conns_ok_def gauge_def open_count_def)
  ultimately show ?thesis
    using h cl ev(2) assms(2) by (intro conjI hub_okI) (simp_all add: h1 log_publish_def)
qed

lemma offer_keeps [simp]:
  "su_open (fst (offer_event h ev s)) = su_open s" "su_subject (fst (offer_event h ev s)) = su_subject s"
  "su_filter (fst (offer_event h ev s)) = su_filter s" "su_binding (fst (offer_event h ev s)) = su_binding s"
  "su_replay (fst (offer_event h ev s)) = su_replay s" "su_written (fst (offer_event h ev s)) = su_written s"
  by (simp_all add: offer_event_def)

lemma offer_bounded:
  "int (length (su_chan s)) \<le> hc_subscriber_buffer (hb_config h)
    \<Longrightarrow> int (length (su_chan (fst (offer_event h ev s)))) \<le> hc_subscriber_buffer (hb_config h)"
  by (simp add: offer_event_def)

lemma offer_dropped: "snd (offer_event h ev s) \<Longrightarrow> su_open s \<and> filter_allows (su_filter s) (se_envelope ev)"
  by (auto simp: offer_event_def split: if_splits)

lemma fan_out_ok:
  assumes "hub_ok (h, L)" and "fan_out ev h = (h', dropped)"
  shows "hub_ok (h', L) \<and> distinct dropped \<and> (\<forall>n\<in>set dropped. \<exists>s. map_of (hb_subs h') n = Some s \<and> su_open s)
    \<and> hb_config h' = hb_config h"
proof -
  note h = hub_okD [OF assms(1)]
  have h': "h' = h\<lparr>hb_subs := map (\<lambda>(n, s). (n, fst (offer_event h ev s))) (hb_subs h)\<rparr>"
    and d: "dropped = map fst (filter (\<lambda>(n, s). snd (offer_event h ev s)) (hb_subs h))"
    using assms(2) by (simp_all add: fan_out_def)
  have oc: "open_count (of_subject k) h' = open_count (of_subject k) h" "open_count any_sub h' = open_count any_sub h" for k
    by (simp_all add: h' open_count_def msum_def o_def case_prod_beta)
  have "list_all (\<lambda>(n, s). int (length (su_chan s)) \<le> hc_subscriber_buffer (hb_config h)) (hb_subs h')"
    using h(3) offer_bounded [of _ h ev] by (auto simp: h' subs_ok_def list_all_iff)
  then have "subs_ok h'" using h(3) oc by (simp add: subs_ok_def h')
  moreover have "conns_ok h'" using h(4) oc by (simp add: conns_ok_def h')
  moreover have "rings_ok h'" "logs_ok h' L" "gauge h' = gauge h" using h(2,6) by (simp_all add: rings_ok_def logs_ok_def gauge_def h' cong: option.case_cong)
  moreover have "distinct dropped" using h(7) by (simp add: d distinct_map_filter)
  moreover have "\<exists>s. map_of (hb_subs h') n = Some s \<and> su_open s" if "n \<in> set dropped" for n
  proof -
    from that obtain s where s: "(n, s) \<in> set (hb_subs h)" "snd (offer_event h ev s)" by (auto simp: d)
    with h(7) have "map_of (hb_subs h) n = Some s" by simp
    with offer_dropped [OF s(2)] show ?thesis by (simp add: h' map_of_map_values)
  qed
  ultimately show ?thesis using h oc by (auto intro!: hub_okI simp: h')
qed

lemma hub_publish_ok:
  assumes "hub_ok (h, L)"
  shows "hub_ok (hub_publish V e now h, log_publish V e now h L)"
proof (cases "enqueue_event V e now h")
  case None
  with assms show ?thesis by (simp add: hub_publish_def log_publish_def)
next
  case (Some he)
  obtain h1 ev where he: "he = (h1, ev)" by (rule prod.exhaust)
  note e = enqueue_ok [OF assms Some [unfolded he]]
  obtain h2 dropped where f: "fan_out ev h1 = (h2, dropped)" by (rule prod.exhaust)
  let ?L = "L(en_cluster_id e := L (en_cluster_id e) @ [ev])"
  have ok: "hub_ok (h1, ?L)" using e by simp
  note f' = fan_out_ok [OF ok f]
  have t: "sum_list (map told (Stream_published (en_kind e) # concat (map (\<lambda>_. [Stream_dropped ''slow_subscriber'',
      Stream_closed ''slow_subscriber'']) dropped))) = - int (length dropped)"
    by (induction dropped) simp_all
  from f' have "hub_ok (h2, ?L)" "distinct dropped" "\<forall>n\<in>set dropped. \<exists>s. map_of (hb_subs h2) n = Some s \<and> su_open s"
    by simp_all
  from remove_all_ok [OF this t] e show ?thesis
    by (simp add: hub_publish_def Some he f)
qed

lemma rejected_ok: "hub_ok (h, L) \<Longrightarrow> hub_ok (fst (rejected reason e h), L)"
  by (auto intro!: hub_okI dest: hub_okD simp: rejected_def)

definition new_sub :: "string \<Rightarrow> stream_filter \<Rightarrow> string \<Rightarrow> stream_event list \<Rightarrow> subscription" where
  "new_sub key f binding replay = \<lparr>su_subject = key, su_filter = f, su_binding = binding, su_replay = replay,
     su_chan = [], su_open = True, su_written = []\<rparr>"

text \<open>An admission either changes nothing but the observer's record, or appends one open subscription.\<close>

lemma admit_cases:
  assumes "admit V key binding f want now h = (h', res)"
  obtains (no) reason e where "(h', res) = rejected reason e h"
  | (yes) replay reset os where "start_replay V h binding f want now = (replay, reset)" "res = Inr (length (hb_subs h))"
    "h' = tell os (h\<lparr>hb_subs := hb_subs h @ [(length (hb_subs h), new_sub key f binding replay)],
       hb_subject_conns := put key (get0 (hb_subject_conns h) key + 1) (hb_subject_conns h)\<rparr>)"
    "sum_list (map told os) = 1" "\<not> hb_closed h" "hub_allowed h (sf_cluster_id f)"
    "open_count any_sub h < hc_max_connections (hb_config h)"
    "get0 (hb_subject_conns h) key < hc_max_per_subject (hb_config h)"
proof (cases "hb_closed h \<or> \<not> hub_allowed h (sf_cluster_id f) \<or> int (length (open_subs h)) \<ge> hc_max_connections (hb_config h)
    \<or> get0 (hb_subject_conns h) key \<ge> hc_max_per_subject (hb_config h)")
  case True
  with assms have "\<exists>reason e. rejected reason e h = (h', res)" by (auto simp: admit_def split: if_splits)
  with no show thesis by (metis (no_types))
next
  case False
  obtain replay reset where r: "start_replay V h binding f want now = (replay, reset)" by (rule prod.exhaust)
  have t: "sum_list (map told (Stream_opened # (if \<not> reset \<and> replay \<noteq> [] then [Stream_replayed (length replay)] else [])
      @ (if reset then [Stream_reset] else []))) = 1" by simp
  show thesis
    by (rule yes [OF r _ _ t])
      (use False assms r open_count_open_subs [of h] in \<open>auto simp: admit_def Let_def new_sub_def\<close>)
qed

lemma admit_ok:
  assumes "hub_ok (h, L)" and "admit V key binding f want now h = (h', res)"
  shows "hub_ok (h', L)"
  using assms(2)
proof (cases rule: admit_cases)
  case (no reason e)
  with rejected_ok [OF assms(1)] show ?thesis by (metis fst_conv)
next
  case (yes replay reset os)
  note h = hub_okD [OF assms(1)]
  let ?k = "get0 (hb_subject_conns h) key + 1"
  let ?h = "h\<lparr>hb_subs := hb_subs h @ [(length (hb_subs h), new_sub key f binding replay)],
       hb_subject_conns := put key ?k (hb_subject_conns h)\<rparr>"
  have oc: "open_count any_sub ?h = open_count any_sub h + 1"
    "open_count (of_subject k) ?h = open_count (of_subject k) h + of_bool (key = k)" for k
    by (simp_all add: open_count_def new_sub_def)
  have c: "get0 (hb_subject_conns h) k = open_count (of_subject k) h"
    "open_count (of_subject k) h \<le> hc_max_per_subject (hb_config h)" for k
    using h(4) by (simp_all add: conns_ok_def)
  have pos: "list_all (\<lambda>(k, v). 0 < v) (put key ?k (hb_subject_conns h))"
    using h(4) put_entries [of key ?k "hb_subject_conns h"] c(1) [of key] open_count_nonneg [of "of_subject key" h]
    unfolding conns_ok_def list_all_iff by fastforce
  have "conns_ok ?h"
    using h(4) yes(8) pos c oc(2) unfolding conns_ok_def by simp
  moreover have "0 < hc_subscriber_buffer (hb_config h)" using h(1) by (simp add: config_ok_def)
  then have "subs_ok ?h" using h(3) yes(5,7) oc(1) by (simp add: subs_ok_def new_sub_def)
  moreover have "rings_ok ?h" "logs_ok ?h L" "gauge ?h = gauge h"
    using h(2,6) by (simp_all add: rings_ok_def logs_ok_def gauge_def cong: option.case_cong)
  ultimately show ?thesis using h yes(4) oc(1) unfolding yes(3) by (intro hub_okI) simp_all
qed

lemma hub_subscribe_ok:
  assumes "hub_ok (h, L)"
  shows "hub_ok (fst (hub_subscribe V subject f cursor now h), L)"
proof -
  have a: "hub_ok (fst (admit V key binding f want now h), L)" for key binding want
    by (rule admit_ok [OF assms]) (rule prod.collapse [symmetric])
  show ?thesis
    unfolding hub_subscribe_def
    using a rejected_ok [OF assms] by (auto simp: Let_def split: option.split prod.split)
qed

lemma next_write_keeps:
  assumes "next_write s = Some s'"
  shows "su_open s' = su_open s \<and> su_subject s' = su_subject s \<and> su_filter s' = su_filter s \<and> su_binding s' = su_binding s
    \<and> su_replay s' = su_replay s \<and> length (su_chan s') \<le> length (su_chan s)"
  using assms by (auto simp: next_write_def split: if_splits list.splits)

lemma handler_write_ok:
  assumes "hub_ok (h, L)"
  shows "hub_ok (handler_write n h, L)"
proof (cases "Option.bind (map_of (hb_subs h) n) next_write")
  case None
  with assms show ?thesis by (auto simp: handler_write_def bind_eq_None_conv split: option.splits)
next
  case (Some s')
  then obtain s where s: "map_of (hb_subs h) n = Some s" "next_write s = Some s'" by (auto simp: bind_eq_Some_conv)
  note h = hub_okD [OF assms] and k = next_write_keeps [OF s(2)]
  let ?h = "h\<lparr>hb_subs := put n s' (hb_subs h)\<rparr>"
  have e: "handler_write n h = ?h" using s by (simp add: handler_write_def)
  have m: "put n s' (hb_subs h) = map (\<lambda>(j, w). (j, if j = n then s' else w)) (hb_subs h)"
    using put_map [OF h(7) s(1), of "\<lambda>_. s'"] .
  have oc: "open_count (of_subject x) ?h = open_count (of_subject x) h" "open_count any_sub ?h = open_count any_sub h" for x
    using h(7) s k by (simp_all add: open_count_def msum_put)
  have keys: "keys_of (put n s' (hb_subs h)) = keys_of (hb_subs h)" unfolding m by simp
  have len: "length (put n s' (hb_subs h)) = length (hb_subs h)" unfolding m by simp
  have "(n, s) \<in> set (hb_subs h)" by (rule map_of_SomeD [OF s(1)])
  then have "int (length (su_chan s)) \<le> hc_subscriber_buffer (hb_config h)"
    using h(3) by (auto simp: subs_ok_def list_all_iff)
  then have "int (length (su_chan s')) \<le> hc_subscriber_buffer (hb_config h)" using k by simp
  then have "list_all (\<lambda>(n, s). int (length (su_chan s)) \<le> hc_subscriber_buffer (hb_config h)) (put n s' (hb_subs h))"
    using h(3) put_entries [of n s' "hb_subs h"] unfolding subs_ok_def list_all_iff by fastforce
  then have "subs_ok ?h" using h(3) oc keys len by (simp add: subs_ok_def)
  moreover have "conns_ok ?h" using h(4) oc by (simp add: conns_ok_def)
  moreover have "rings_ok ?h" "logs_ok ?h L" "gauge ?h = gauge h"
    using h(2,6) by (simp_all add: rings_ok_def logs_ok_def gauge_def cong: option.case_cong)
  ultimately show ?thesis unfolding e using h oc by (intro hub_okI) simp_all
qed

lemma hub_step_ok: "hub_ok hl \<Longrightarrow> hub_ok (hub_step V opn hl)"
proof (cases hl)
  case (Pair h L)
  assume "hub_ok hl"
  then show ?thesis unfolding Pair
    by (cases opn) (simp_all add: hub_publish_ok hub_subscribe_ok hub_remove_ok hub_close_sub_def hub_close_ok handler_write_ok)
qed

lemma set_defaults_pos:
  "0 < hc_ring_size (set_defaults c)" "0 < hc_subscriber_buffer (set_defaults c)"
  "0 < hc_max_connections (set_defaults c)" "0 < hc_max_per_subject (set_defaults c)"
  by (simp_all add: set_defaults_def or_default_def hub_defaults_def)

lemma new_hub_ok:
  assumes "new_hub c entropy = Inr h"
  shows "hub_ok (h, \<lambda>_. [])"
proof -
  let ?c = "set_defaults c"
  obtain b where v: "validate_config ?c = None"
    and h: "h = \<lparr>hb_config = ?c, hb_closed = False, hb_instance = hex_encode b, hb_rings = [], hb_allocated = 0,
      hb_subs = [], hb_subject_conns = [], hb_seen = []\<rparr>"
    using assms by (auto simp: new_hub_def Let_def split: option.splits)
  then have "hc_max_clusters ?c \<ge> 1 \<and> hc_max_retained_events ?c \<ge> hc_ring_size ?c"
    by (auto simp: validate_config_def split: if_splits)
  then show ?thesis using v set_defaults_pos [of c] unfolding h
    by (intro hub_okI) (simp_all add: config_ok_def rings_ok_def subs_ok_def conns_ok_def gauge_def open_count_def logs_ok_def
      numbered_def)
qed

section \<open>The contracts\<close>

lemma remove_locked_same [simp]:
  "hb_config (fst (hub_remove_locked n h)) = hb_config h" "hb_instance (fst (hub_remove_locked n h)) = hb_instance h"
  by (simp_all add: hub_remove_locked_def Let_def split: option.split)

lemma remove_all_same [simp]: "hb_config (remove_all ns h) = hb_config h" "hb_instance (remove_all ns h) = hb_instance h"
  unfolding remove_all_def by (induction ns arbitrary: h) simp_all

lemma enqueue_same:
  "enqueue_event V e now h = Some (h1, ev) \<Longrightarrow> hb_config h1 = hb_config h \<and> hb_instance h1 = hb_instance h \<and> hb_subs h1 = hb_subs h"
  by (auto simp: enqueue_event_def Let_def split: if_splits option.splits)

lemma rejected_same: "rejected reason e h = (h', res) \<Longrightarrow> hb_config h' = hb_config h \<and> hb_instance h' = hb_instance h \<and> hb_subs h' = hb_subs h"
  by (auto simp: rejected_def)

lemma admit_same: "hb_config (fst (admit V key binding f want now h)) = hb_config h
    \<and> hb_instance (fst (admit V key binding f want now h)) = hb_instance h"
  using rejected_same by (auto simp: admit_def rejected_def Let_def split: prod.split)

lemma hub_step_same:
  "hb_config (fst (hub_step V opn hl)) = hb_config (fst hl) \<and> hb_instance (fst (hub_step V opn hl)) = hb_instance (fst hl)"
proof (cases hl)
  case (Pair h L)
  show ?thesis
  proof (cases opn)
    case (Op_publish e now)
    then show ?thesis unfolding Pair
      by (auto simp: hub_publish_def fan_out_def enqueue_same split: option.split)
  next
    case (Op_subscribe subject f cursor now)
    then show ?thesis unfolding Pair
      by (auto simp: hub_subscribe_def Let_def admit_same rejected_def split: option.split)
  qed (auto simp: Pair hub_close_sub_def remove_one hub_close_def Let_def handler_write_def split: option.split)
qed

interpretation hub_gauge: ledger "hub_step V" hub_ok "\<lambda>hl. gauge (fst hl)"
  "\<lambda>hl. open_count any_sub (fst hl)" "\<lambda>hl. hc_max_connections (hb_config (fst hl))" for V
proof unfold_locales
  fix hl and opn :: hub_op
  show "hub_ok hl \<Longrightarrow> hub_ok (hub_step V opn hl)" by (rule hub_step_ok)
  show "hub_ok hl \<Longrightarrow> gauge (fst hl) = open_count any_sub (fst hl)" by (auto simp: hub_ok_def)
  show "hub_ok hl \<Longrightarrow> 0 \<le> gauge (fst hl) \<and> gauge (fst hl) \<le> hc_max_connections (hb_config (fst hl))"
    using open_count_nonneg [of any_sub "fst hl"] by (auto simp: hub_ok_def subs_ok_def)
  show "hc_max_connections (hb_config (fst (hub_step V opn hl))) = hc_max_connections (hb_config (fst hl))"
    by (simp add: hub_step_same)
qed

interpretation hub_slots: ledger "hub_step V" hub_ok "\<lambda>hl. hb_allocated (fst hl)"
  "\<lambda>hl. int (length (hb_rings (fst hl))) * hc_ring_size (hb_config (fst hl))"
  "\<lambda>hl. hc_max_retained_events (hb_config (fst hl))" for V
proof unfold_locales
  fix hl and opn :: hub_op
  show "hub_ok hl \<Longrightarrow> hb_allocated (fst hl) = int (length (hb_rings (fst hl))) * hc_ring_size (hb_config (fst hl))"
    by (auto simp: hub_ok_def rings_ok_def)
  show "hub_ok hl \<Longrightarrow> 0 \<le> hb_allocated (fst hl) \<and> hb_allocated (fst hl) \<le> hc_max_retained_events (hb_config (fst hl))"
    by (auto simp: hub_ok_def rings_ok_def config_ok_def)
  show "hc_max_retained_events (hb_config (fst (hub_step V opn hl))) = hc_max_retained_events (hb_config (fst hl))"
    by (simp add: hub_step_same)
qed

end
