(* ===== verification/Stream_Sources.thy ===== *)
theory Stream_Sources
  imports Hub_Laws Wire_Protocol "HOL-Library.Multiset"
begin

text \<open>
  What feeds the stream hub: catalog changes of the registry's watch (\<open>internal/stream/kubernetes.go\<close>) and
  the poller that turns snapshots of the alert source into changes (\<open>internal/stream/alerts.go\<close>). The alert source
  itself is the interface \<open>datasource.Alerts\<close>, a function argument here; SHA-256 is that of \<open>hub_env\<close>.
\<close>

section \<open>Watch frames\<close>

record cluster_change =
  ch_kind :: string
  ch_action :: string
  ch_namespace :: string
  ch_entity :: entity_ref
  ch_resource_version :: string

definition envelope_from_change :: "string \<Rightarrow> cluster_change \<Rightarrow> envelope" where
  "envelope_from_change i c = \<lparr>en_id = '''', en_kind = ch_kind c, en_action = ch_action c, en_cluster_id = i,
     en_observed_at = '''', en_namespace = ch_namespace c, en_entity = Some (ch_entity c),
     en_resource_version = ch_resource_version c\<rparr>"

definition zero_ref :: entity_ref where
  "zero_ref = \<lparr>er_cluster_id = '''', er_namespace = '''', er_workload_kind = '''', er_workload_name = '''',
     er_workload_uid = '''', er_pod_name = '''', er_pod_uid = '''', er_container_name = '''', er_service_name = '''',
     er_service_namespace = '''', er_service_version = ''''\<rparr>"

text \<open>The kind and the entity of a catalog row; \<open>None\<close> for a kind the stream does not carry.\<close>

definition stream_entity :: "string \<Rightarrow> catalog_resource \<Rightarrow> (string \<times> entity_ref option) option" where
  "stream_entity i r =
     (let e = zero_ref\<lparr>er_cluster_id := i, er_namespace := cr_namespace r\<rparr> in
      if cr_kind r = KindPod
      then Some (StreamKindPod, Some (e\<lparr>er_pod_uid := cr_uid r, er_pod_name := cr_name r\<rparr>))
      else if cr_kind r \<in> {KindDeployment, KindStatefulSet, KindDaemonSet, KindCronJob}
      then Some (StreamKindWorkload,
             Some (e\<lparr>er_workload_uid := cr_uid r, er_workload_kind := cr_kind r, er_workload_name := cr_name r\<rparr>))
      else if cr_kind r = KindEvent then Some (StreamKindKubeEvent, None)
      else None)"

definition stream_action :: "catalog_action \<Rightarrow> string option" where
  "stream_action a = (case a of Catalog_created \<Rightarrow> Some StreamActionAdded | Catalog_updated \<Rightarrow> Some StreamActionUpdated
     | Catalog_deleted \<Rightarrow> Some StreamActionDeleted | Catalog_unspecified \<Rightarrow> None)"

text \<open>\<open>stamp\<close> formats the milliseconds as RFC 3339.\<close>

definition envelope_from_watch_frame :: "(int \<Rightarrow> string) \<Rightarrow> watch_frame option \<Rightarrow> envelope option" where
  "envelope_from_watch_frame stamp frame =
     (case frame of
        None \<Rightarrow> None
      | Some f \<Rightarrow>
          let i = wf_cluster_id f; at_ms = stamp (wf_observed_unix_ms f) in
          if wf_type f = Watch_expired \<or> wf_type f = Watch_snapshot_commit
          then Some (zero_envelope\<lparr>en_kind := StreamKindReset, en_action := StreamActionReset, en_cluster_id := i,
                 en_observed_at := at_ms\<rparr>)
          else if wf_type f \<noteq> Watch_delta then None
          else (case wf_change f of
                  None \<Rightarrow> None
                | Some c \<Rightarrow>
                    (case (cc_resource c, stream_action (cc_action c)) of
                       (Some r, Some act) \<Rightarrow>
                         map_option (\<lambda>(kind, entity). zero_envelope\<lparr>en_kind := kind, en_action := act, en_cluster_id := i,
                           en_namespace := cr_namespace r, en_entity := entity, en_observed_at := at_ms\<rparr>)
                           (stream_entity i r)
                     | _ \<Rightarrow> None)))"

definition publish_watch_frame :: "hub_env \<Rightarrow> (int \<Rightarrow> string) \<Rightarrow> watch_frame option \<Rightarrow> time \<Rightarrow> hub \<Rightarrow> hub" where
  "publish_watch_frame V stamp frame now h =
     (case envelope_from_watch_frame stamp frame of None \<Rightarrow> h | Some e \<Rightarrow> hub_publish V e now h)"

section \<open>Alerts\<close>

record alert_instance =
  al_id :: string
  al_name :: string
  al_severity :: string
  al_status :: string
  al_starts_at :: string
  al_ends_at :: string
  al_labels :: "(string, string) gomap"
  al_annotations :: "(string, string) gomap"
  al_entity :: "entity_ref option"
  al_entity_name :: string
  al_source_url :: string
  al_source :: string
  al_group_size :: int
  al_group_key :: string

record alert_config =
  ac_cluster_id :: string
  ac_interval :: duration
  ac_max_backoff :: duration
  ac_max_alerts :: int
  ac_window :: duration
  ac_jitter :: bool

definition alert_defaults :: "alert_config \<Rightarrow> alert_config" where
  "alert_defaults c0 =
     (let c1 = (if ac_cluster_id c0 = '''' then c0\<lparr>ac_cluster_id := ''default''\<rparr> else c0);
          c2 = (if ac_interval c1 \<le> 0 then c1\<lparr>ac_interval := 30 * second\<rparr> else c1);
          c3 = (if ac_max_backoff c2 < ac_interval c2 then c2\<lparr>ac_max_backoff := 300 * second\<rparr> else c2);
          c4 = (if ac_max_alerts c3 \<le> 0 then c3\<lparr>ac_max_alerts := 2000\<rparr> else c3) in
      if ac_window c4 \<le> 0 then c4\<lparr>ac_window := 3600 * second\<rparr> else c4)"

definition max_alert_id :: nat where "max_alert_id = 512"
definition max_entity_uid :: nat where "max_entity_uid = 128"

record alert_state =
  as_status :: string
  as_namespace :: string
  as_identity :: string
  as_visible :: string
  as_entity :: "entity_ref option"

record alert_poller =
  ap_config :: alert_config
  ap_primed :: bool
  ap_snapshot :: "(string, alert_state) gomap"
  ap_truncated :: bool
  ap_jitter :: u64

subsection \<open>Fingerprints\<close>

definition be64 :: "nat \<Rightarrow> string" where
  "be64 n = map (\<lambda>k. char_of (n div 256 ^ k mod 256)) [7, 6, 5, 4, 3, 2, 1, 0]"

definition hash_string :: "string \<Rightarrow> string" where
  "hash_string v = be64 (length v) @ v"

definition xor_char :: "char \<Rightarrow> char \<Rightarrow> char" where
  "xor_char a b = char_of (Bit_Operations.xor (of_char a :: nat) (of_char b))"

definition xor_into :: "string \<Rightarrow> string \<Rightarrow> string" where
  "xor_into acc entry = map2 xor_char acc entry"

definition hash_map :: "hub_env \<Rightarrow> (string, string) gomap \<Rightarrow> string" where
  "hash_map V m =
     be64 (length m)
     @ foldl xor_into (replicate 32 (char_of (0::nat))) (map (\<lambda>(k, v). he_sha256 V (hash_string k @ hash_string v)) m)"

definition format_int :: "int \<Rightarrow> string" where
  "format_int x = (if x < 0 then CHR ''-'' # digits (nat (- x)) else digits (nat x))"

definition alert_fingerprint :: "hub_env \<Rightarrow> alert_instance \<Rightarrow> string" where
  "alert_fingerprint V a = he_sha256 V
     (concat (map hash_string [al_name a, al_severity a, al_status a, al_starts_at a, al_ends_at a, al_entity_name a,
         al_source_url a, al_source a, format_int (al_group_size a), al_group_key a])
      @ hash_map V (al_labels a) @ hash_map V (al_annotations a)
      @ (case al_entity a of
           None \<Rightarrow> hash_string ''''
         | Some e \<Rightarrow> concat (map hash_string [er_cluster_id e, er_namespace e, er_workload_kind e, er_workload_name e,
             er_workload_uid e, er_pod_name e, er_pod_uid e, er_container_name e, er_service_name e, er_service_namespace e,
             er_service_version e])))"

subsection \<open>One poll\<close>

definition new_alert_poller :: "hub_env \<Rightarrow> alert_config \<Rightarrow> alert_poller" where
  "new_alert_poller V c0 =
     (let c = alert_defaults c0 in
      \<lparr>ap_config = c, ap_primed = False, ap_snapshot = [], ap_truncated = False,
       ap_jitter = word_rcat (rev (map (\<lambda>b. of_char b :: 8 word) (take 8 (he_sha256 V (ac_cluster_id c)))))\<rparr>)"

text \<open>The namespace comes from the trusted catalog, never from the alert. A nil catalog reads as an empty one.\<close>

definition trusted_alert_entity :: "string \<Rightarrow> entity_ref option \<Rightarrow> (string, string) gomap
    \<Rightarrow> string \<times> string \<times> entity_ref option" where
  "trusted_alert_entity i claimed trusted =
     (case claimed of
        None \<Rightarrow> ('''', '''', None)
      | Some e \<Rightarrow>
          let pod = (if er_pod_uid e \<noteq> '''' \<and> length (er_pod_uid e) \<le> max_entity_uid
                     then map_of trusted (''pod:'' @ er_pod_uid e) else None);
              workload = (if er_workload_uid e \<noteq> '''' \<and> length (er_workload_uid e) \<le> max_entity_uid
                     then map_of trusted (''workload:'' @ er_workload_uid e) else None) in
          (case (pod, workload) of
             (Some ns, _) \<Rightarrow> (ns, ''pod:'' @ er_pod_uid e,
               Some (zero_ref\<lparr>er_cluster_id := i, er_namespace := ns, er_pod_uid := er_pod_uid e\<rparr>))
           | (None, Some ns) \<Rightarrow> (ns, ''workload:'' @ er_workload_uid e,
               Some (zero_ref\<lparr>er_cluster_id := i, er_namespace := ns, er_workload_uid := er_workload_uid e\<rparr>))
           | (None, None) \<Rightarrow> ('''', '''', None)))"

definition alert_state_of :: "hub_env \<Rightarrow> string \<Rightarrow> (string, string) gomap \<Rightarrow> string \<Rightarrow> alert_instance \<Rightarrow> alert_state" where
  "alert_state_of V i trusted status a =
     (case trusted_alert_entity i (al_entity a) trusted of (ns, ident, entity) \<Rightarrow>
        \<lparr>as_status = status, as_namespace = ns, as_identity = ident, as_visible = alert_fingerprint V a, as_entity = entity\<rparr>)"

text \<open>\<open>collect\<close>; the second component counts the alerts beyond the cap.\<close>

definition collect_alert :: "hub_env \<Rightarrow> alert_config \<Rightarrow> (string, string) gomap \<Rightarrow> string \<Rightarrow> alert_instance
    \<Rightarrow> (string, alert_state) gomap \<times> nat \<Rightarrow> (string, alert_state) gomap \<times> nat" where
  "collect_alert V c trusted status a acc =
     (if int (length (fst acc)) \<ge> ac_max_alerts c then (fst acc, snd acc + 1)
      else if al_id a = '''' \<or> length (al_id a) > max_alert_id then acc
      else (put (al_id a) (alert_state_of V (ac_cluster_id c) trusted status a) (fst acc), snd acc))"

definition collect_alerts :: "hub_env \<Rightarrow> alert_config \<Rightarrow> (string, string) gomap \<Rightarrow> alert_instance list \<Rightarrow> alert_instance list
    \<Rightarrow> (string, alert_state) gomap \<times> nat" where
  "collect_alerts V c trusted firing resolved =
     fold (collect_alert V c trusted ''resolved'') resolved (fold (collect_alert V c trusted ''firing'') firing ([], 0))"

definition alert_envelope :: "string \<Rightarrow> string \<Rightarrow> alert_state \<Rightarrow> envelope" where
  "alert_envelope i act st = zero_envelope\<lparr>en_kind := StreamKindAlert, en_action := act, en_cluster_id := i,
     en_namespace := as_namespace st, en_entity := as_entity st\<rparr>"

definition alert_changes :: "string \<Rightarrow> (string, alert_state) gomap \<Rightarrow> string \<times> alert_state \<Rightarrow> envelope list" where
  "alert_changes i old p =
     (case map_of old (fst p) of
        None \<Rightarrow> [alert_envelope i StreamActionAdded (snd p)]
      | Some prev \<Rightarrow>
          if as_namespace prev \<noteq> as_namespace (snd p) \<or> as_identity prev \<noteq> as_identity (snd p)
          then [alert_envelope i StreamActionDeleted prev, alert_envelope i StreamActionUpdated (snd p)]
          else if as_status prev \<noteq> as_status (snd p) \<or> as_visible prev \<noteq> as_visible (snd p)
          then [alert_envelope i StreamActionUpdated (snd p)]
          else [])"

definition alert_removals :: "string \<Rightarrow> (string, alert_state) gomap \<Rightarrow> string \<times> alert_state \<Rightarrow> envelope list" where
  "alert_removals i current p =
     (if map_of current (fst p) = None then [alert_envelope i StreamActionDeleted (snd p)] else [])"

definition alert_diff :: "string \<Rightarrow> (string, alert_state) gomap \<Rightarrow> (string, alert_state) gomap \<Rightarrow> envelope list" where
  "alert_diff i old current = concat (map (alert_changes i old) current) @ concat (map (alert_removals i current) old)"

text \<open>\<open>PollOnce\<close>: what is published, and the error of the source when there is one.\<close>

definition poll_once :: "hub_env \<Rightarrow> (string \<Rightarrow> time \<Rightarrow> time \<Rightarrow> string + (alert_instance list \<times> alert_instance list))
    \<Rightarrow> (string, string) gomap \<Rightarrow> time \<Rightarrow> alert_poller \<Rightarrow> (alert_poller \<times> envelope list) \<times> string option" where
  "poll_once V src trusted now p =
     (let c = ap_config p in
      case src (ac_cluster_id c) (now - ac_window c) now of
        Inl err \<Rightarrow> ((p, []), Some err)
      | Inr (firing, resolved) \<Rightarrow>
          (case collect_alerts V c trusted firing resolved of (current, over) \<Rightarrow>
             let p1 = p\<lparr>ap_truncated := (0 < over)\<rparr> in
             if 0 < over then ((p1, []), None)
             else if \<not> ap_primed p then ((p1\<lparr>ap_snapshot := current, ap_primed := True\<rparr>, []), None)
             else ((p1\<lparr>ap_snapshot := current\<rparr>, alert_diff (ac_cluster_id c) (ap_snapshot p) current), None)))"

definition publish_alerts :: "hub_env \<Rightarrow> time \<Rightarrow> envelope list \<Rightarrow> hub \<Rightarrow> hub" where
  "publish_alerts V now es h = fold (\<lambda>e h. hub_publish V e now h) es h"

subsection \<open>The delays of the loop\<close>

definition alert_delay :: "alert_config \<Rightarrow> bool \<Rightarrow> duration \<Rightarrow> duration" where
  "alert_delay c failed delay =
     (if failed then (if delay * 2 > ac_max_backoff c then ac_max_backoff c else delay * 2) else ac_interval c)"

definition jitter_next :: "u64 \<Rightarrow> u64" where
  "jitter_next x0 =
     (let x1 = Bit_Operations.xor x0 (push_bit 13 x0); x2 = Bit_Operations.xor x1 (drop_bit 7 x1) in
      Bit_Operations.xor x2 (push_bit 17 x2))"

definition jittered :: "duration \<Rightarrow> alert_poller \<Rightarrow> duration \<times> alert_poller" where
  "jittered delay p =
     (let x = jitter_next (ap_jitter p) in
      (delay - sint (of_int delay div 10 * (x mod 101) div 100 :: u64), p\<lparr>ap_jitter := x\<rparr>))"

definition alert_wait :: "alert_poller \<Rightarrow> bool \<Rightarrow> duration \<Rightarrow> (duration \<times> duration) \<times> alert_poller" where
  "alert_wait p failed delay =
     (let d = alert_delay (ap_config p) failed delay in
      if ac_jitter (ap_config p) then (case jittered d p of (w, p') \<Rightarrow> ((d, w), p')) else ((d, d), p))"

section \<open>The order of alerts does not matter\<close>

definition valid_alert :: "alert_instance \<Rightarrow> bool" where
  "valid_alert a \<longleftrightarrow> al_id a \<noteq> '''' \<and> length (al_id a) \<le> max_alert_id"

abbreviation store_alert :: "hub_env \<Rightarrow> alert_config \<Rightarrow> (string, string) gomap \<Rightarrow> string \<Rightarrow> alert_instance
    \<Rightarrow> (string, alert_state) gomap \<Rightarrow> (string, alert_state) gomap" where
  "store_alert V c trusted status a m \<equiv> put (al_id a) (alert_state_of V (ac_cluster_id c) trusted status a) m"

lemma collect_over_mono: "snd acc \<le> snd (fold (collect_alert V c trusted status) as acc)"
proof (induction "as" arbitrary: acc)
  case (Cons a "as")
  have "snd acc \<le> snd (collect_alert V c trusted status a acc)" by (simp add: collect_alert_def)
  with Cons show ?case by (simp add: order_trans)
qed simp

lemma collect_complete:
  "fold (collect_alert V c trusted status) as (m, 0) = (m', 0) \<Longrightarrow>
    m' = fold (store_alert V c trusted status) (filter valid_alert as) m"
proof (induction "as" arbitrary: m)
  case (Cons a "as")
  obtain m1 k where s: "collect_alert V c trusted status a (m, 0) = (m1, k)" by (rule prod.exhaust)
  have "k = 0" using collect_over_mono [of "(m1, k)" V c trusted status "as"] Cons.prems s by simp
  then have "m1 = (if valid_alert a then store_alert V c trusted status a m else m)"
    using s by (auto simp: collect_alert_def valid_alert_def split: if_splits)
  with Cons \<open>k = 0\<close> s show ?case by (simp split: if_splits)
qed simp

lemma fold_store_distinct: "distinct (keys_of m) \<Longrightarrow> distinct (keys_of (fold (store_alert V c trusted status) as m))"
  by (induction "as" arbitrary: m) simp_all

lemma fold_store_map:
  "distinct (map al_id as) \<Longrightarrow> map_of (fold (store_alert V c trusted status) as m) i
     = (case List.find (\<lambda>a. al_id a = i) as of None \<Rightarrow> map_of m i
        | Some a \<Rightarrow> Some (alert_state_of V (ac_cluster_id c) trusted status a))"
proof (induction "as" arbitrary: m)
  case (Cons a "as")
  have "List.find (\<lambda>b. al_id b = i) as = None" if "al_id a = i"
    using Cons.prems that by (auto simp: find_None_iff) (metis image_eqI)
  with Cons show ?case by (auto split: option.split)
qed simp

lemma find_same_set:
  assumes "distinct (map al_id as)" "mset as = mset bs"
  shows "List.find (\<lambda>a. al_id a = i) as = List.find (\<lambda>a. al_id a = i) bs"
proof -
  have d: "distinct (map al_id bs)" using assms by (metis mset_eq_imp_distinct_iff mset_map)
  have s: "set as = set bs" using assms(2) by (rule mset_eq_setD)
  have u: "List.find (\<lambda>a. al_id a = i) cs = Some a" if "distinct (map al_id cs)" "a \<in> set cs" "al_id a = i" for a cs
    using that by (induction cs) auto
  show ?thesis
  proof (cases "\<exists>a\<in>set as. al_id a = i")
    case True
    with u [OF assms(1)] u [OF d] s show ?thesis by auto
  next
    case False
    then have "List.find (\<lambda>a. al_id a = i) as = None" "List.find (\<lambda>a. al_id a = i) bs = None"
      using s by (auto simp: find_None_iff)
    then show ?thesis by simp
  qed
qed

lemma collect_alerts_complete:
  assumes "collect_alerts V c trusted firing resolved = (m, 0)"
  shows "m = fold (store_alert V c trusted ''resolved'') (filter valid_alert resolved)
      (fold (store_alert V c trusted ''firing'') (filter valid_alert firing) [])"
proof -
  obtain m1 k where s: "fold (collect_alert V c trusted ''firing'') firing ([], 0) = (m1, k)" by (rule prod.exhaust)
  have "k = 0" using collect_over_mono [of "(m1, k)" V c trusted "''resolved''" resolved] assms s
    by (simp add: collect_alerts_def)
  with s collect_complete [of V c trusted "''firing''" firing "[]" m1] collect_complete [of V c trusted "''resolved''" resolved m1 m] assms
  show ?thesis by (simp add: collect_alerts_def)
qed

lemma distinct_filter_ids: "distinct (map al_id as) \<Longrightarrow> distinct (map al_id (filter P as))"
  by (simp add: distinct_map_filter)

lemma collect_alerts_same:
  assumes "collect_alerts V c trusted firing resolved = (m, 0)" "collect_alerts V c trusted firing' resolved' = (m', 0)"
    and "distinct (map al_id firing)" "distinct (map al_id resolved)" "mset firing' = mset firing" "mset resolved' = mset resolved"
  shows "map_of m' = map_of m \<and> distinct (keys_of m) \<and> distinct (keys_of m')"
proof -
  have d: "distinct (map al_id firing')" "distinct (map al_id resolved')"
    using assms(3-6) by (metis mset_eq_imp_distinct_iff mset_map)+
  have f: "List.find (\<lambda>a. al_id a = i) (filter valid_alert firing') = List.find (\<lambda>a. al_id a = i) (filter valid_alert firing)"
    "List.find (\<lambda>a. al_id a = i) (filter valid_alert resolved') = List.find (\<lambda>a. al_id a = i) (filter valid_alert resolved)" for i
    by (intro find_same_set distinct_filter_ids d; simp add: assms mset_filter)+
  show ?thesis
    unfolding collect_alerts_complete [OF assms(1)] collect_alerts_complete [OF assms(2)]
    by (intro conjI ext fold_store_distinct)
      (simp_all add: f fold_store_map distinct_filter_ids d assms(3,4) split: option.split)
qed

lemma alert_diff_same:
  assumes "map_of m' = map_of m" "distinct (keys_of m')"
  shows "alert_diff i m m' = []"
proof -
  have "alert_changes i m p = []" if "p \<in> set m'" for p
  proof -
    have "map_of m (fst p) = Some (snd p)" using that assms by (metis map_of_is_SomeI prod.collapse)
    then show ?thesis by (simp add: alert_changes_def)
  qed
  moreover have "alert_removals i m' p = []" if "p \<in> set m" for p
  proof -
    have "fst p \<in> fst ` set m" using that by (rule imageI)
    then have "map_of m' (fst p) \<noteq> None" unfolding assms(1) by (simp add: map_of_eq_None_iff)
    then show ?thesis by (simp add: alert_removals_def)
  qed
  ultimately show ?thesis by (simp add: alert_diff_def)
qed


section \<open>The delays stay bounded\<close>

lemma jitter_share:
  fixes x :: u64
  assumes "0 \<le> d" "d < 2 ^ 56"
  shows "sint ((of_int d :: u64) div 10 * (x mod 101) div 100) = d div 10 * uint (x mod 101) div 100"
proof -
  have m: "uint (x mod 101) = uint x mod 101" by (simp add: uint_mod)
  have le: "uint (x mod 101) \<le> 100" unfolding m using pos_mod_bound [of 101 "uint x"] by linarith
  have d: "uint (of_int d :: u64) = d" using assms by (simp add: uint_word_of_int)
  then have q: "uint ((of_int d :: u64) div 10) = d div 10" by (simp add: uint_div)
  have "d div 10 * uint (x mod 101) \<le> d div 10 * 100" using le assms(1) by (intro mult_left_mono) auto
  also have "d div 10 * 100 < 2 ^ 60" using assms by auto
  finally have p: "d div 10 * uint (x mod 101) < 2 ^ 60" .
  have nn: "0 \<le> d div 10 * uint (x mod 101)" using assms(1) by simp
  have "uint ((of_int d :: u64) div 10 * (x mod 101)) = d div 10 * uint (x mod 101)"
    unfolding uint_mult_lem [THEN iffD1, of "(of_int d :: u64) div 10" "x mod 101"] 
    using p q nn by (simp add: uint_word_arith_bintrs(3) take_bit_int_eq_self)
  then have u: "uint ((of_int d :: u64) div 10 * (x mod 101) div 100) = d div 10 * uint (x mod 101) div 100"
    by (simp add: uint_div)
  moreover have "d div 10 * uint (x mod 101) div 100 < 2 ^ 60" using p nn by (simp add: div_le_dividend order_le_less_trans)
  moreover have "0 \<le> d div 10 * uint (x mod 101) div 100" using nn by (simp add: pos_imp_zdiv_nonneg_iff)
  ultimately show ?thesis by (simp only: sint_uint) (rule signed_take_bit_int_eq_self; simp)
qed

text \<open>The jittered delay lies between nine tenths of the delay and the delay.\<close>

lemma jittered_bounds:
  assumes "0 \<le> d" "d < 2 ^ 56"
  shows "d - d div 10 \<le> fst (jittered d p) \<and> fst (jittered d p) \<le> d"
proof -
  let ?x = "jitter_next (ap_jitter p)"
  have m: "uint (?x mod 101) = uint ?x mod 101" by (simp add: uint_mod)
  have le: "uint (?x mod 101) \<le> 100" unfolding m using pos_mod_bound [of 101 "uint ?x"] by linarith
  have "d div 10 * uint (?x mod 101) \<le> d div 10 * 100" using le assms(1) by (intro mult_left_mono) auto
  then have "d div 10 * uint (?x mod 101) div 100 \<le> d div 10" by linarith
  moreover have "0 \<le> d div 10 * uint (?x mod 101) div 100"
    using assms(1) by (intro div_int_pos_iff [THEN iffD2]) simp
  ultimately show ?thesis using jitter_share [OF assms, of ?x] by (simp add: jittered_def Let_def)
qed

end
