(* ===== verification/Hub_Follow.thy ===== *)
theory Hub_Follow
  imports Hub_Laws
begin

text \<open>
  What one subscription is sent: the cursors it reads back, and the invariant that its events are
  the allowed events of its cluster's log from its starting position on.
\<close>

section \<open>Cursors\<close>

lemma hex_digit_ok: "n < 16 \<Longrightarrow> is_hex (hex_digit n)"
proof -
  assume "n < 16"
  then have "n \<in> {0, 1, 2, 3, 4, 5, 6, 7, 8, 9, 10, 11, 12, 13, 14, 15}" by (simp add: atLeastLessThan_iff, arith)
  then show ?thesis by (auto simp: hex_digit_def is_hex_def is_digit_def less_eq_char_def)
qed

lemma hex_encode_ok: "length (hex_encode s) = 2 * length s \<and> list_all is_hex (hex_encode s)"
proof (induction s)
  case Nil
  then show ?case by (simp add: hex_encode_def)
next
  case (Cons c s)
  have "(of_char c :: nat) < 256" by simp
  then have "(of_char c :: nat) div 16 < 16" by (subst div_less_iff_less_mult) (simp_all del: nat_of_char_less_256)
  then have "is_hex (hex_digit (of_char c div 16))" "is_hex (hex_digit (of_char c mod 16))"
    by (intro hex_digit_ok; simp)+
  with Cons show ?case by (simp add: hex_encode_def Let_def)
qed

lemma digit_char: "k < 10 \<Longrightarrow> is_digit (char_of (48 + k)) \<and> (of_char (char_of (48 + k)) :: nat) = 48 + k"
  by (simp add: is_digit_def less_eq_char_def)

lemma digits_ok: "list_all is_digit (digits n) \<and> digits_value (digits n) = n \<and> digits n \<noteq> []"
proof (induction n rule: digits.induct)
  case (1 n)
  show ?case
  proof (cases "n < 10")
    case True
    then show ?thesis
      using digit_char [OF True] by (subst (1 2 3) digits.simps) (simp add: digits_value_def)
  next
    case False
    have "n mod 10 < 10" by simp
    note d = digit_char [OF this]
    show ?thesis
      using 1 [OF False] d False by (subst (1 2 3) digits.simps) (simp add: digits_value_def)
  qed
qed

lemma digits_length: "n < 10 ^ k \<Longrightarrow> 0 < k \<Longrightarrow> length (digits n) \<le> k"
proof (induction k arbitrary: n)
  case (Suc k)
  show ?case
  proof (cases "n < 10")
    case True
    then show ?thesis by (subst digits.simps) simp
  next
    case False
    then have k: "0 < k" using Suc.prems(1) by (cases k) auto
    have "n div 10 < 10 ^ k" using Suc.prems(1) by (simp add: div_less_iff_less_mult)
    with False Suc.IH [OF _ k] show ?thesis by (subst digits.simps) simp
  qed
qed simp

lemma format_uint_ok:
  "parse_uint (format_uint q) = Some q \<and> format_uint q \<noteq> [] \<and> length (format_uint q) \<le> 20
    \<and> list_all is_digit (format_uint q)"
proof -
  have u: "unat q < 2 ^ 64" using unsigned_less [of q] by simp
  have "length (digits (unat q)) \<le> 20" by (rule digits_length) (use u in \<open>simp_all\<close>)
  then show ?thesis
    using digits_ok [of "unat q"] u by (simp add: format_uint_def parse_uint_def linorder_not_le)
qed

lemma hex_no_sep: "list_all is_hex s \<Longrightarrow> CHR ''.'' \<notin> set s \<and> CHR ''-'' \<notin> set s"
  by (auto simp: list_all_iff is_hex_def is_digit_def less_eq_char_def)

lemma parse_event_id:
  assumes "length (hb_instance h) = 24" "list_all is_hex (hb_instance h)"
    and "length binding = 16" "list_all is_hex binding"
  shows "parse_last_event_id h (event_id (hb_instance h) binding q) = Some (hb_instance h, binding, q)"
proof -
  have "CHR ''.'' \<notin> set (hb_instance h)" "CHR ''-'' \<notin> set binding"
    using hex_no_sep assms(2,4) by blast+
  then have c: "str_cut (event_id (hb_instance h) binding q) (CHR ''.'') = (hb_instance h, binding @ ''-'' @ format_uint q, True)"
    "str_cut (binding @ ''-'' @ format_uint q) (CHR ''-'') = (binding, format_uint q, True)"
    using str_cut_append [of "CHR ''.''" "hb_instance h"] str_cut_append [of "CHR ''-''" binding]
    by (simp_all add: event_id_def)
  have l: "length (event_id (hb_instance h) binding q) \<le> max_event_id" "event_id (hb_instance h) binding q \<noteq> []"
    using assms format_uint_ok [of q] by (simp_all add: event_id_def max_event_id_def)
  show ?thesis
    unfolding parse_last_event_id_def c using c l assms format_uint_ok [of q] by simp
qed

section \<open>What a subscription is sent\<close>

definition sent_from :: "string \<Rightarrow> string \<Rightarrow> stream_filter \<Rightarrow> nat \<Rightarrow> stream_event list \<Rightarrow> stream_event list" where
  "sent_from inst binding f p evs =
     map (decorate inst binding) (filter (\<lambda>ev. filter_allows f (se_envelope ev)) (drop p evs))"

definition total_sent :: "subscription \<Rightarrow> stream_event list" where
  "total_sent s = su_written s @ drop (length (su_written s)) (su_replay s) @ su_chan s"

text \<open>The subscription numbered \<open>n\<close> has filter \<open>f\<close> and binding \<open>b\<close> and follows the log of its cluster from
  position \<open>p\<close>, up to the end while it is open, after \<open>pre\<close>.\<close>

definition follows :: "nat \<Rightarrow> stream_filter \<Rightarrow> string \<Rightarrow> stream_event list \<Rightarrow> nat \<Rightarrow> hub \<times> event_log \<Rightarrow> bool" where
  "follows n f b pre p hl \<longleftrightarrow> (\<exists>s k. map_of (hb_subs (fst hl)) n = Some s \<and> su_filter s = f \<and> su_binding s = b
     \<and> p \<le> k \<and> k \<le> length (snd hl (sf_cluster_id f)) \<and> (su_open s \<longrightarrow> k = length (snd hl (sf_cluster_id f)))
     \<and> total_sent s = pre @ sent_from (hb_instance (fst hl)) b f p (take k (snd hl (sf_cluster_id f))))"

lemma followsI:
  assumes "map_of (hb_subs h) n = Some s" "su_filter s = f" "su_binding s = b" "p \<le> k" "k \<le> length (L (sf_cluster_id f))"
    and "su_open s \<longrightarrow> k = length (L (sf_cluster_id f))"
    and "total_sent s = pre @ sent_from (hb_instance h) b f p (take k (L (sf_cluster_id f)))"
  shows "follows n f b pre p (h, L)"
  using assms unfolding follows_def by auto

lemma followsE:
  assumes "follows n f b pre p (h, L)"
  obtains s k where "map_of (hb_subs h) n = Some s" "su_filter s = f" "su_binding s = b" "p \<le> k"
    "k \<le> length (L (sf_cluster_id f))" "su_open s \<longrightarrow> k = length (L (sf_cluster_id f))"
    "total_sent s = pre @ sent_from (hb_instance h) b f p (take k (L (sf_cluster_id f)))"
  using assms unfolding follows_def by auto

lemma total_sent_write: "next_write s = Some s' \<Longrightarrow> total_sent s' = total_sent s"
  by (auto simp: next_write_def total_sent_def Cons_nth_drop_Suc [symmetric] split: if_splits list.splits)

lemma total_sent_shut [simp]: "total_sent (s\<lparr>su_open := b\<rparr>) = total_sent s"
  by (simp add: total_sent_def)

text \<open>Closing a subscription leaves what it was sent.\<close>

lemma follows_shut:
  assumes "follows n f b pre p (h, L)" "hb_subs h' = map (\<lambda>(m, s). (m, shut N m s)) (hb_subs h)"
    and "hb_instance h' = hb_instance h"
  shows "follows n f b pre p (h', L)"
  using assms(1)
proof (rule followsE)
  fix s k
  assume s: "map_of (hb_subs h) n = Some s" "su_filter s = f" "su_binding s = b" "p \<le> k"
    "k \<le> length (L (sf_cluster_id f))" "su_open s \<longrightarrow> k = length (L (sf_cluster_id f))"
    "total_sent s = pre @ sent_from (hb_instance h) b f p (take k (L (sf_cluster_id f)))"
  have "map_of (hb_subs h') n = Some (shut N n s)" unfolding assms(2) by (simp add: map_of_map_values s(1))
  then show ?thesis by (rule followsI) (use s assms(3) in \<open>auto split: if_splits\<close>)
qed

lemma filter_allows_id [simp]: "filter_allows f (e\<lparr>en_id := i\<rparr>) = filter_allows f e"
  by (simp add: filter_allows_def)

lemma offer_sent:
  assumes "su_open s" "\<not> snd (offer_event h ev s)"
  shows "total_sent (fst (offer_event h ev s)) = total_sent s
    @ (if filter_allows (su_filter s) (se_envelope ev) then [decorate (hb_instance h) (su_binding s) ev] else [])"
  using assms by (auto simp: offer_event_def total_sent_def)

lemma offer_refused: "snd (offer_event h ev s) \<or> \<not> su_open s \<Longrightarrow> fst (offer_event h ev s) = s"
  by (auto simp: offer_event_def)

lemma sent_snoc:
  assumes "p \<le> length evs"
  shows "sent_from inst b f p (evs @ [ev])
    = sent_from inst b f p evs @ (if filter_allows f (se_envelope ev) then [decorate inst b ev] else [])"
  using assms by (simp add: sent_from_def)

lemma follows_publish:
  assumes "hub_ok (h, L)" "follows n f b pre p (h, L)"
  shows "follows n f b pre p (hub_publish V e now h, log_publish V e now h L)"
proof (cases "enqueue_event V e now h")
  case None
  with assms show ?thesis by (simp add: hub_publish_def log_publish_def)
next
  case (Some he)
  obtain h1 ev where he: "he = (h1, ev)" by (rule prod.exhaust)
  note q = enqueue_ok [OF assms(1) Some [unfolded he]]
  obtain h2 dropped where fo: "fan_out ev h1 = (h2, dropped)" by (rule prod.exhaust)
  let ?i = "en_cluster_id e" and ?L = "L(en_cluster_id e := L (en_cluster_id e) @ [ev])"
  have ok1: "hub_ok (h1, ?L)" using q by simp
  note f2 = fan_out_ok [OF ok1 fo]
  have ok2: "hub_ok (h2, ?L)" using f2 by simp
  have subs: "hb_subs (remove_all dropped h2) = map (\<lambda>(m, s). (m, shut (set dropped) m s)) (hb_subs h2)"
    using remove_all_keeps [OF hub_okD(7,4) [OF ok2]] f2 by simp
  have d: "m \<in> set dropped \<longleftrightarrow> snd (offer_event h1 ev s)" if "map_of (hb_subs h) m = Some s" for m s
  proof -
    have dr: "dropped = map fst (filter (\<lambda>(n, s). snd (offer_event h1 ev s)) (hb_subs h))"
      using fo q by (simp add: fan_out_def)
    have u: "s' = s" if "(m, s') \<in> set (hb_subs h)" for s'
      using map_of_is_SomeI [OF hub_okD(7) [OF assms(1)] that] \<open>map_of (hb_subs h) m = Some s\<close> by simp
    show ?thesis
    proof
      assume "m \<in> set dropped"
      then obtain s' where "(m, s') \<in> set (hb_subs h)" "snd (offer_event h1 ev s')" unfolding dr by auto
      with u [of s'] show "snd (offer_event h1 ev s)" by simp
    next
      assume "snd (offer_event h1 ev s)"
      with map_of_SomeD [OF that] have "(m, s) \<in> set (filter (\<lambda>(n, s). snd (offer_event h1 ev s)) (hb_subs h))" by simp
      then show "m \<in> set dropped" unfolding dr set_map by (rule image_eqI [rotated]) simp
    qed
  qed
  from assms(2) obtain s k where s: "map_of (hb_subs h) n = Some s" "su_filter s = f" "su_binding s = b" "p \<le> k"
    "k \<le> length (L (sf_cluster_id f))" "su_open s \<longrightarrow> k = length (L (sf_cluster_id f))"
    "total_sent s = pre @ sent_from (hb_instance h) b f p (take k (L (sf_cluster_id f)))"
    by (rule followsE)
  have m2: "map_of (hb_subs h2) n = Some (fst (offer_event h1 ev s))"
    using fo q s(1) by (auto simp: fan_out_def map_of_map_values)
  let ?s = "shut (set dropped) n (fst (offer_event h1 ev s))"
  have m3: "map_of (hb_subs (remove_all dropped h2)) n = Some ?s"
    unfolding subs by (simp add: map_of_map_values m2)
  have len: "k \<le> length (?L (sf_cluster_id f))" using s(5) by auto
  have inst: "hb_instance (remove_all dropped h2) = hb_instance h" using q fo by (auto simp: fan_out_def)
  have other: "filter_allows f (se_envelope ev) \<Longrightarrow> sf_cluster_id f = ?i" using q by (auto simp: filter_allows_def split: if_splits)
  have "follows n f b pre p (remove_all dropped h2, ?L)"
  proof (cases "su_open s \<and> \<not> snd (offer_event h1 ev s)")
    case True
    then have no: "n \<notin> set dropped" using d [OF s(1)] by simp
    have k: "k = length (L (sf_cluster_id f))" using s(6) True by simp
    show ?thesis
    proof (rule followsI [OF m3, of _ _ _ "length (?L (sf_cluster_id f))"])
      show "total_sent ?s = pre @ sent_from (hb_instance (remove_all dropped h2)) b f p
          (take (length (?L (sf_cluster_id f))) (?L (sf_cluster_id f)))"
        using no True offer_sent [of s h1 ev] s k q other inst
        by (auto simp: sent_snoc)
    qed (use s k no in auto)
  next
    case False
    then have keep: "fst (offer_event h1 ev s) = s" using offer_refused by blast
    have closed: "\<not> su_open ?s" using False keep d [OF s(1)] by auto
    have t: "take k (?L (sf_cluster_id f)) = take k (L (sf_cluster_id f))" using s(5) by auto
    show ?thesis
      by (rule followsI [OF m3, of _ _ _ k]) (use s closed keep len t inst in \<open>auto split: if_splits\<close>)
  qed
  then show ?thesis using q by (simp add: hub_publish_def Some he fo follows_def)
qed

lemma follows_append:
  assumes "hub_ok (h, L)" "follows n f b pre p (h, L)"
    and "hb_subs h' = hb_subs h @ [(length (hb_subs h), s')]" "hb_instance h' = hb_instance h"
  shows "follows n f b pre p (h', L)"
  using assms(2)
proof (rule followsE)
  fix s k
  assume s: "map_of (hb_subs h) n = Some s" "su_filter s = f" "su_binding s = b" "p \<le> k"
    "k \<le> length (L (sf_cluster_id f))" "su_open s \<longrightarrow> k = length (L (sf_cluster_id f))"
    "total_sent s = pre @ sent_from (hb_instance h) b f p (take k (L (sf_cluster_id f)))"
  have "n \<in> set (keys_of (hb_subs h))" using map_of_SomeD [OF s(1)] by force
  moreover have "keys_of (hb_subs h) = [0..<length (hb_subs h)]" using hub_okD(3) [OF assms(1)] by (simp add: subs_ok_def)
  ultimately have "n < length (hb_subs h)" by (simp only: set_upt atLeastLessThan_iff)
  then have "map_of (hb_subs h') n = Some s" unfolding assms(3) using s(1) by (simp add: map_add_def)
  then show ?thesis by (rule followsI) (use s assms(4) in auto)
qed

lemma follows_same:
  "\<lbrakk>follows n f b pre p (h, L); hb_subs h' = hb_subs h; hb_instance h' = hb_instance h\<rbrakk> \<Longrightarrow> follows n f b pre p (h', L)"
  by (simp add: follows_def)

lemma follows_admit:
  assumes "hub_ok (h, L)" "follows n f b pre p (h, L)" "admit V key binding f' want now h = (h', res)"
  shows "follows n f b pre p (h', L)"
  using assms(3)
proof (cases rule: admit_cases)
  case (no reason e)
  then show ?thesis using rejected_same [of reason e h h' res] follows_same [OF assms(2)] by simp
next
  case (yes replay reset os)
  then show ?thesis using follows_append [OF assms(1,2), of h'] by simp
qed

lemma follows_subscribe:
  assumes "hub_ok (h, L)" "follows n f b pre p (h, L)"
  shows "follows n f b pre p (fst (hub_subscribe V subject f' cursor now h), L)"
proof -
  have a: "follows n f b pre p (fst (admit V key binding f' want now h), L)" for key binding want
    by (rule follows_admit [OF assms]) (rule prod.collapse [symmetric])
  have r: "follows n f b pre p (fst (rejected reason e h), L)" for reason e
    using follows_same [OF assms(2)] by (simp add: rejected_def)
  show ?thesis unfolding hub_subscribe_def using a r by (auto simp: Let_def split: option.split prod.split)
qed

lemma follows_write:
  assumes "hub_ok (h, L)" "follows n f b pre p (h, L)"
  shows "follows n f b pre p (handler_write m h, L)"
proof (cases "Option.bind (map_of (hb_subs h) m) next_write")
  case None
  then have "handler_write m h = h" by (auto simp: handler_write_def bind_eq_None_conv split: option.splits)
  with assms(2) show ?thesis by simp
next
  case (Some t')
  then obtain t where t: "map_of (hb_subs h) m = Some t" "next_write t = Some t'" by (auto simp: bind_eq_Some_conv)
  have e: "handler_write m h = h\<lparr>hb_subs := put m t' (hb_subs h)\<rparr>" using t by (simp add: handler_write_def)
  note k = next_write_keeps [OF t(2)] and w = total_sent_write [OF t(2)]
  from assms(2) obtain s j where s: "map_of (hb_subs h) n = Some s" "su_filter s = f" "su_binding s = b" "p \<le> j"
    "j \<le> length (L (sf_cluster_id f))" "su_open s \<longrightarrow> j = length (L (sf_cluster_id f))"
    "total_sent s = pre @ sent_from (hb_instance h) b f p (take j (L (sf_cluster_id f)))"
    by (rule followsE)
  show ?thesis unfolding e
    by (rule followsI [of _ _ "if n = m then t' else s" _ _ _ j]) (use s t k w in auto)
qed

lemma follows_step:
  assumes "hub_ok hl" "follows n f b pre p hl"
  shows "follows n f b pre p (hub_step V opn hl)"
proof (cases hl)
  case (Pair h L)
  note ok = assms(1) [unfolded Pair] and fl = assms(2) [unfolded Pair]
  have all: "follows n f b pre p (tell os (remove_all ns h'), L)"
    if "distinct ns" "\<forall>n\<in>set ns. \<exists>s. map_of (hb_subs h') n = Some s \<and> su_open s" "hub_ok (h', L)"
      "hb_subs h' = hb_subs h" "hb_instance h' = hb_instance h" for os ns h'
  proof -
    have "follows n f b pre p (h', L)" by (rule follows_same [OF fl that(4,5)])
    then show ?thesis
      by (rule follows_shut [where N = "set ns"])
        (use remove_all_keeps [OF hub_okD(7,4) [OF that(3)] that(1,2)] in simp_all)
  qed
  have rm: "follows n f b pre p (hub_remove m reason h, L)" for m reason
    unfolding remove_one using fl all [of "[m]" h "[Stream_closed reason]"] ok by simp
  have cl: "follows n f b pre p (hub_close h, L)"
  proof (cases "hb_closed h")
    case False
    let ?ns = "map fst (open_subs h)"
    note h = hub_okD [OF ok]
    have d: "distinct ?ns" using h(7) by (simp add: open_subs_def distinct_map_filter)
    have o: "\<forall>n\<in>set ?ns. \<exists>s. map_of (hb_subs h) n = Some s \<and> su_open s"
      unfolding open_subs_def by (rule open_sub_entries [OF h(7)])
    have c: "conns_ok (h\<lparr>hb_closed := True\<rparr>)" using h(4) by (simp add: conns_ok_def open_count_def)
    have p: "distinct (keys_of (hb_subs (h\<lparr>hb_closed := True\<rparr>)))"
      "\<forall>n\<in>set ?ns. \<exists>s. map_of (hb_subs (h\<lparr>hb_closed := True\<rparr>)) n = Some s \<and> su_open s"
      using h(7) o by simp_all
    have "follows n f b pre p (h\<lparr>hb_closed := True\<rparr>, L)" by (rule follows_same [OF fl]) simp_all
    then have "follows n f b pre p (tell (map (\<lambda>_. Stream_closed ''shutdown'') ?ns) (remove_all ?ns (h\<lparr>hb_closed := True\<rparr>)), L)"
      by (rule follows_shut [where N = "set ?ns"]) (use remove_all_keeps [OF p(1) c d p(2)] in simp_all)
    with False show ?thesis by (simp add: hub_close_def Let_def)
  qed (use fl in \<open>simp add: hub_close_def\<close>)
  show ?thesis unfolding Pair
    by (cases opn) (simp_all add: follows_publish [OF ok fl] follows_subscribe [OF ok fl] rm cl hub_close_sub_def
      follows_write [OF ok fl])
qed

lemma hub_run_same:
  "hb_config (fst (fold (hub_step V) ops hl)) = hb_config (fst hl) \<and> hb_instance (fst (fold (hub_step V) ops hl)) = hb_instance (fst hl)"
  by (induction ops arbitrary: hl) (simp_all add: hub_step_same)

lemma follows_run:
  "\<lbrakk>hub_ok hl; follows n f b pre p hl\<rbrakk> \<Longrightarrow> follows n f b pre p (fold (hub_step V) ops hl)"
proof (induction ops arbitrary: hl)
  case (Cons opn ops)
  then show ?case using hub_step_ok follows_step by simp
qed simp

section \<open>Where a subscription starts\<close>

text \<open>A cursor at a position that the ring still covers starts the replay right after it.\<close>

lemma start_replay_kept:
  assumes "hub_ok (h, L)" "p \<le> length (L (sf_cluster_id f))" "length (L (sf_cluster_id f)) < 2 ^ 63"
    and "length (L (sf_cluster_id f)) - nat (hc_ring_size (hb_config h)) \<le> p"
  shows "start_replay V h binding f (Some (False, of_nat p)) now
    = (sent_from (hb_instance h) binding f p (L (sf_cluster_id f)), False)"
proof -
  let ?i = "sf_cluster_id f" and ?n = "nat (hc_ring_size (hb_config h))"
  note c = log_of_cluster [OF hub_okD(6) [OF assms(1)], of ?i]
  have lt: "length (L ?i) < 2 ^ 64" using assms(3) by simp
  have u: "unat (of_nat m :: u64) = m" if "m \<le> length (L ?i) + 1" for m
    using that assms(3) by (intro of_nat_inverse [OF refl]) simp
  show ?thesis
  proof (cases "map_of (hb_rings h) ?i")
    case None
    with c assms(2) show ?thesis by (simp add: start_replay_def sent_from_def)
  next
    case (Some r)
    with c have r: "ring_shows ?n r (L ?i)" by simp
    have seq: "cr_seq r = of_nat (length (L ?i))" "cr_count r = min ?n (length (L ?i))" using r by (auto simp: ring_shows_def)
    have le: "(of_nat p :: u64) \<le> cr_seq r"
      using assms(2) u [of p] u [of "length (L ?i)"] unfolding seq by (simp add: word_le_nat_alt)
    have "\<not> (of_nat p + 1 < first_seq r)"
    proof -
      have "first_seq r = of_nat (length (L ?i) - min ?n (length (L ?i)) + 1)"
        by (simp add: first_seq_def seq of_nat_diff)
      moreover have "(of_nat p + 1 :: u64) = of_nat (p + 1)" by simp
      ultimately show ?thesis
        using assms(2,4) u [of "p + 1"] u [of "length (L ?i) - min ?n (length (L ?i)) + 1"]
        by (simp only: word_less_nat_alt not_less)
    qed
    with le replay_events_shows [OF r lt assms(2,4)] Some show ?thesis
      by (auto simp: start_replay_def sent_from_def Let_def)
  qed
qed

end
