(* ===== verification/Hub_Props.thy ===== *)
theory Hub_Props
  imports Hub_Follow
begin

text \<open>The properties of the stream hub.\<close>

section \<open>A hub on which they are evaluated\<close>

definition demo_env :: hub_env where
  "demo_env = \<lparr>he_sha256 = (\<lambda>s. replicate 32 (char_of (length s))), he_parses = (\<lambda>s. s \<noteq> ''''),
     he_rfc3339_nano = (\<lambda>t. ''now''), he_rfc3339 = (\<lambda>t. ''now'')\<rparr>"

definition demo_hub_config :: hub_config where
  "demo_hub_config = \<lparr>hc_ring_size = 2, hc_subscriber_buffer = 1, hc_max_connections = 0, hc_max_per_subject = 0,
     hc_cluster_ids = [], hc_max_clusters = 0, hc_max_retained_events = 0\<rparr>"

definition demo_entropy :: string where "demo_entropy = ''0123456789ab''"

definition demo_hub :: hub where
  "demo_hub = (case new_hub demo_hub_config (Some demo_entropy) of Inr h \<Rightarrow> h | Inl e \<Rightarrow> undefined)"

definition demo_envelope :: "string \<Rightarrow> envelope" where
  "demo_envelope ns = zero_envelope\<lparr>en_kind := StreamKindPod, en_action := StreamActionAdded, en_cluster_id := ''c1'',
     en_namespace := ns\<rparr>"

definition demo_filter :: stream_filter where
  "demo_filter = \<lparr>sf_cluster_id = ''c1'', sf_all = False, sf_namespaces = [''a'']\<rparr>"

definition demo_binding :: string where
  "demo_binding = cursor_binding demo_env (hb_instance demo_hub) (he_sha256 demo_env ''ann'') demo_filter"

lemma demo_hub_new: "new_hub demo_hub_config (Some demo_entropy) = Inr demo_hub"
  by code_simp

lemma demo_config: "hc_max_retained_events (hb_config demo_hub) = 65536" "hc_ring_size (hb_config demo_hub) = 2"
  by code_simp+

text \<open>A run of publications to two namespaces.\<close>

definition demo_publishes :: "hub_op list" where
  "demo_publishes = [Op_publish (demo_envelope ''a'') 1, Op_publish (demo_envelope ''b'') 2, Op_publish (demo_envelope ''a'') 3]"

section \<open>Bounds\<close>

text \<open>
  (C23) Every state the hub reaches is well-formed: the rings, their retained events, the connections,
  the connections of one subject and every channel stay within their configured bounds, and what
  the observer was told (opened less closed) is the number of live connections.
\<close>

theorem hub_stays_well_formed:
  assumes "new_hub c entropy = Inr h0" and "fold (hub_step V) ops (h0, \<lambda>_. []) = (h, L)"
  shows "int (length (hb_rings h)) \<le> hc_max_clusters (hb_config h)
    \<and> int (snd (hub_stats h)) \<le> hc_max_retained_events (hb_config h)
    \<and> int (fst (hub_stats h)) \<le> hc_max_connections (hb_config h) \<and> gauge h = int (fst (hub_stats h))
    \<and> (\<forall>k. get0 (hb_subject_conns h) k = open_count (of_subject k) h \<and> open_count (of_subject k) h \<le> hc_max_per_subject (hb_config h))
    \<and> list_all (\<lambda>(n, s). int (length (su_chan s)) \<le> hc_subscriber_buffer (hb_config h)) (hb_subs h)"
proof -
  have ok: "hub_ok (h, L)" using hub_gauge.run_inv [OF new_hub_ok [OF assms(1)], of V ops] assms(2) by simp
  note h = hub_okD [OF ok]
  let ?n = "hc_ring_size (hb_config h)"
  have n: "0 < ?n" using h(1) by (simp add: config_ok_def)
  have "int (cr_count r) \<le> ?n" if "(i, r) \<in> set (hb_rings h)" for i r
  proof -
    have "map_of (hb_rings h) i = Some r" using that h(2) by (simp add: rings_ok_def)
    with log_of_cluster [OF h(6), of i] n show ?thesis by (auto simp: ring_shows_def)
  qed
  then have "int (sum_list (map (\<lambda>(i, r). cr_count r) m)) \<le> int (length m) * ?n" if "set m \<subseteq> set (hb_rings h)" for m
    using that by (induction m) (fastforce simp: algebra_simps)+
  from this [of "hb_rings h"] have "int (snd (hub_stats h)) \<le> hb_allocated h"
    using h(2) by (simp add: hub_stats_def rings_ok_def)
  then have "int (snd (hub_stats h)) \<le> hc_max_retained_events (hb_config h)" using h(2) by (simp add: rings_ok_def)
  then show ?thesis
    using h open_count_open_subs [of h] by (simp add: rings_ok_def subs_ok_def conns_ok_def hub_stats_def)
qed

theorem hub_stays_well_formed_witness:
  "snd (hub_stats (fst (fold (hub_step demo_env) demo_publishes (demo_hub, \<lambda>_. [])))) \<le> 65536"
  using hub_stays_well_formed [OF demo_hub_new prod.collapse [symmetric], of demo_env demo_publishes]
  by (simp add: hub_run_same demo_config)

section \<open>The ring\<close>

text \<open>
  (C24) The ring of a cluster is a window of its log: after every run, from every position it still
  covers, reading the ring up to its last sequence number gives exactly the rest of the log, in order,
  and the events are numbered from 1 without gap.
\<close>

theorem ring_is_window:
  assumes "new_hub c entropy = Inr h0" "fold (hub_step V) ops (h0, \<lambda>_. []) = (h, L)"
    and "map_of (hb_rings h) i = Some r" "length (L i) < 2 ^ 63" "p \<le> length (L i)" "length (L i) \<le> p + nat (hc_ring_size (hb_config h))"
  shows "replay_events r (of_nat p) = drop p (L i) \<and> cr_seq r = of_nat (length (L i))
    \<and> (\<forall>j < length (L i). se_seq (L i ! j) = of_nat (j + 1))"
proof -
  have "hub_ok (h, L)" using hub_gauge.run_inv [OF new_hub_ok [OF assms(1)], of V ops] assms(2) by simp
  from log_of_cluster [OF hub_okD(6) [OF this], of i] assms(3)
  have r: "ring_shows (nat (hc_ring_size (hb_config h))) r (L i)" and n: "numbered (L i)" by simp_all
  have "length (L i) < 2 ^ 64" "length (L i) - nat (hc_ring_size (hb_config h)) \<le> p" using assms(4,6) by simp_all
  from replay_events_shows [OF r this(1) assms(5) this(2)] show ?thesis
    using r n by (simp add: ring_shows_def numbered_def)
qed

definition demo_after :: "hub \<times> event_log" where
  "demo_after = fold (hub_step demo_env) demo_publishes (demo_hub, \<lambda>_. [])"

definition demo_ring :: cluster_ring where
  "demo_ring = (case map_of (hb_rings (fst demo_after)) ''c1'' of Some r \<Rightarrow> r | None \<Rightarrow> new_ring demo_hub_config)"

lemma demo_ring_at: "map_of (hb_rings (fst demo_after)) ''c1'' = Some demo_ring" "length (snd demo_after ''c1'') = 3"
  by code_simp+

theorem ring_is_window_witness: "replay_events demo_ring 1 = drop 1 (snd demo_after ''c1'')"
proof -
  have run: "fold (hub_step demo_env) demo_publishes (demo_hub, \<lambda>_. []) = (fst demo_after, snd demo_after)"
    by (simp add: demo_after_def)
  have "hc_ring_size (hb_config (fst demo_after)) = 2"
    unfolding demo_after_def by (simp add: hub_run_same demo_config)
  with ring_is_window [OF demo_hub_new run demo_ring_at(1), of 1] show ?thesis by (simp add: demo_ring_at(2))
qed

section \<open>Cursors\<close>

lemma new_hub_instance:
  assumes "new_hub c (Some b) = Inr h0"
  shows "hb_instance h0 = hex_encode b"
  using assms by (auto simp: new_hub_def Let_def split: option.splits)

lemma run_instance:
  assumes "new_hub c (Some b) = Inr h0" "length b = 12" "fold (hub_step V) ops (h0, L0) = (h, L)"
  shows "length (hb_instance h) = 24" "list_all is_hex (hb_instance h)"
proof -
  have "hb_instance h = hex_encode b"
    using hub_run_same [of V ops "(h0, L0)"] assms(3) new_hub_instance [OF assms(1)] by simp
  with hex_encode_ok [of b] assms(2) show "length (hb_instance h) = 24" "list_all is_hex (hb_instance h)" by simp_all
qed

lemma cursor_binding_ok:
  assumes "\<forall>x. length (he_sha256 V x) = 32"
  shows "length (cursor_binding V inst key f) = 16 \<and> list_all is_hex (cursor_binding V inst key f)"
  unfolding cursor_binding_def using assms hex_encode_ok by simp

text \<open>
  (C27) The identifier of an event is read back: a cursor with the hub's instance and a 16-digit
  hexadecimal binding parses to that instance, that binding and that sequence number, for all
  \<open>uint64\<close> numbers.
\<close>

theorem cursor_roundtrip:
  assumes "new_hub c (Some b) = Inr h0" "length b = 12" "fold (hub_step V) ops (h0, L0) = (h, L)"
    and "\<forall>x. length (he_sha256 V x) = 32"
  shows "parse_last_event_id h (event_id (hb_instance h) (cursor_binding V (hb_instance h) key f) q)
    = Some (hb_instance h, cursor_binding V (hb_instance h) key f, q)"
  using parse_event_id [OF run_instance [OF assms(1-3)]] cursor_binding_ok [OF assms(4)] by blast

lemma demo_sha: "\<forall>x. length (he_sha256 demo_env x) = 32"
  by (simp add: demo_env_def)

theorem cursor_roundtrip_witness:
  "parse_last_event_id demo_hub (event_id (hb_instance demo_hub) demo_binding 18446744073709551615)
    = Some (hb_instance demo_hub, demo_binding, 18446744073709551615)"
  using cursor_roundtrip [OF demo_hub_new _ _ demo_sha, of "[]" "\<lambda>_. []"] by (simp add: demo_binding_def demo_entropy_def)

section \<open>Resuming a stream\<close>

lemma subscribe_follows:
  assumes "hub_ok (h, L)" "length (hb_instance h) = 24" "list_all is_hex (hb_instance h)"
    and "\<forall>x. length (he_sha256 V x) = 32"
    and "p \<le> length (L (sf_cluster_id f))" "length (L (sf_cluster_id f)) < 2 ^ 63"
    and "length (L (sf_cluster_id f)) \<le> p + nat (hc_ring_size (hb_config h))"
    and "binding = cursor_binding V (hb_instance h) (he_sha256 V subject) f"
    and "hub_subscribe V subject f (event_id (hb_instance h) binding (of_nat p)) now h = (h1, Inr n)"
  shows "hub_ok (h1, L) \<and> follows n f binding [] p (h1, L) \<and> hb_instance h1 = hb_instance h"
proof -
  let ?i = "sf_cluster_id f" and ?key = "he_sha256 V subject"
  have b: "length binding = 16" "list_all is_hex binding" using cursor_binding_ok [OF assms(4)] assms(8) by auto
  have pe: "parse_last_event_id h (event_id (hb_instance h) binding (of_nat p)) = Some (hb_instance h, binding, of_nat p)"
    by (rule parse_event_id [OF assms(2,3) b])
  have ne: "event_id (hb_instance h) binding (of_nat p) \<noteq> []" by (simp add: event_id_def)
  have ad: "admit V ?key binding f (Some (False, of_nat p)) now h = (h1, Inr n)"
    using assms(9) pe ne by (auto simp: hub_subscribe_def Let_def assms(8) [symmetric] rejected_def split: if_splits)
  have ok: "hub_ok (h1, L)" by (rule admit_ok [OF assms(1) ad])
  have "length (L ?i) - nat (hc_ring_size (hb_config h)) \<le> p" using assms(7) by simp
  note st = start_replay_kept [OF assms(1,5,6) this, of V binding now]
  from ad show ?thesis
  proof (cases rule: admit_cases)
    case (no reason e)
    then show ?thesis by (simp add: rejected_def)
  next
    case (yes replay reset os)
    have rp: "replay = sent_from (hb_instance h) binding f p (L ?i)" using yes(1) st by simp
    have n: "n = length (hb_subs h)" using yes(2) by simp
    have "n \<notin> set (keys_of (hb_subs h))" using hub_okD(3) [OF assms(1)] n by (simp add: subs_ok_def)
    then have "map_of (hb_subs h) n = None" by (simp add: map_of_eq_None_iff)
    then have m: "map_of (hb_subs h1) n = Some (new_sub ?key f binding replay)"
      using yes(3) n by (simp add: map_add_def)
    have "follows n f binding [] p (h1, L)"
      by (rule followsI [OF m, of _ _ _ "length (L ?i)"])
        (use assms(5) rp yes(3) in \<open>simp_all add: new_sub_def total_sent_def\<close>)
    with ok yes(3) show ?thesis by simp
  qed
qed

text \<open>
  (C25) A resumed stream has no gap and no duplicate. A client that reconnects with the identifier of
  position \<open>p\<close>, which its ring still covers, is sent after any further run exactly the events of its
  cluster's log from \<open>p\<close> on that its scope allows, in order, up to some point of the log, and up to
  the end of the log as long as the subscription is open: what it has written, the rest of the
  replay and its channel together.
\<close>

theorem resumed_stream_has_no_gap:
  assumes "new_hub c (Some b) = Inr h0" "length b = 12" "fold (hub_step V) ops (h0, \<lambda>_. []) = (h, L)"
    and "\<forall>x. length (he_sha256 V x) = 32"
    and "p \<le> length (L (sf_cluster_id f))" "length (L (sf_cluster_id f)) < 2 ^ 63"
    and "length (L (sf_cluster_id f)) \<le> p + nat (hc_ring_size (hb_config h))"
    and "binding = cursor_binding V (hb_instance h) (he_sha256 V subject) f"
    and "hub_subscribe V subject f (event_id (hb_instance h) binding (of_nat p)) now h = (h1, Inr n)"
    and "fold (hub_step V) ops' (h1, L) = (h', L')"
  shows "\<exists>s k. map_of (hb_subs h') n = Some s \<and> k \<le> length (L' (sf_cluster_id f))
    \<and> (su_open s \<longrightarrow> k = length (L' (sf_cluster_id f)))
    \<and> su_written s @ drop (length (su_written s)) (su_replay s) @ su_chan s
      = map (decorate (hb_instance h) binding)
          (filter (\<lambda>ev. filter_allows f (se_envelope ev)) (drop p (take k (L' (sf_cluster_id f)))))"
proof -
  have ok: "hub_ok (h, L)" using hub_gauge.run_inv [OF new_hub_ok [OF assms(1)], of V ops] assms(3) by simp
  note sf = subscribe_follows [OF ok run_instance [OF assms(1-3)] assms(4-9)]
  then have ok1: "hub_ok (h1, L)" and fl: "follows n f binding [] p (h1, L)" and i: "hb_instance h1 = hb_instance h"
    by simp_all
  have fl': "follows n f binding [] p (h', L')" using follows_run [OF ok1 fl, of V ops'] assms(10) by simp
  have i': "hb_instance h' = hb_instance h" using hub_run_same [of V ops' "(h1, L)"] assms(10) i by simp
  from fl' obtain s k where s: "map_of (hb_subs h') n = Some s" "k \<le> length (L' (sf_cluster_id f))"
    "su_open s \<longrightarrow> k = length (L' (sf_cluster_id f))"
    "total_sent s = [] @ sent_from (hb_instance h') binding f p (take k (L' (sf_cluster_id f)))"
    by (rule followsE)
  then show ?thesis unfolding total_sent_def sent_from_def i' by auto
qed

definition demo_resumed :: "hub \<times> (hub_error + nat)" where
  "demo_resumed = hub_subscribe demo_env ''ann'' demo_filter (event_id (hb_instance (fst demo_after)) demo_binding (of_nat 1)) 4
     (fst demo_after)"

lemma demo_admit:
  "snd (admit demo_env (he_sha256 demo_env ''ann'') demo_binding demo_filter (Some (False, 1)) 4 (fst demo_after)) = Inr 0"
  by code_simp

lemma demo_instance: "hb_instance (fst demo_after) = hb_instance demo_hub"
  by code_simp

lemma demo_resumed_admit:
  "demo_resumed = admit demo_env (he_sha256 demo_env ''ann'') demo_binding demo_filter (Some (False, 1)) 4 (fst demo_after)"
proof -
  have run: "fold (hub_step demo_env) demo_publishes (demo_hub, \<lambda>_. []) = (fst demo_after, snd demo_after)"
    by (simp add: demo_after_def)
  have b: "length demo_entropy = 12" by (simp add: demo_entropy_def)
  have "parse_last_event_id (fst demo_after) (event_id (hb_instance (fst demo_after)) demo_binding 1)
      = Some (hb_instance (fst demo_after), demo_binding, 1)"
    using parse_event_id [OF run_instance [OF demo_hub_new b run]] cursor_binding_ok [OF demo_sha]
    by (simp add: demo_binding_def)
  moreover have "event_id (hb_instance (fst demo_after)) demo_binding 1 \<noteq> []" by (simp add: event_id_def)
  moreover have "valid_cluster_id (sf_cluster_id demo_filter)" by code_simp
  ultimately show ?thesis
    by (simp add: demo_resumed_def hub_subscribe_def Let_def demo_binding_def demo_instance)
qed

lemma demo_resumed_ok: "snd demo_resumed = Inr 0"
  using demo_admit by (simp add: demo_resumed_admit)

lemma demo_log: "length (snd demo_after (sf_cluster_id demo_filter)) = 3" "hc_ring_size (hb_config (fst demo_after)) = 2"
  by code_simp+

theorem resumed_stream_has_no_gap_witness:
  "\<exists>s k. map_of (hb_subs (fst demo_resumed)) 0 = Some s \<and> k \<le> length (snd demo_after ''c1'')
    \<and> (su_open s \<longrightarrow> k = length (snd demo_after ''c1''))
    \<and> su_written s @ drop (length (su_written s)) (su_replay s) @ su_chan s
      = map (decorate (hb_instance (fst demo_after)) demo_binding)
          (filter (\<lambda>ev. filter_allows demo_filter (se_envelope ev)) (drop 1 (take k (snd demo_after ''c1''))))"
proof -
  have run: "fold (hub_step demo_env) demo_publishes (demo_hub, \<lambda>_. []) = (fst demo_after, snd demo_after)"
    by (simp add: demo_after_def)
  have sub: "hub_subscribe demo_env ''ann'' demo_filter (event_id (hb_instance (fst demo_after)) demo_binding (of_nat 1)) 4
      (fst demo_after) = (fst demo_resumed, Inr 0)"
    using demo_resumed_ok by (simp add: demo_resumed_def prod_eq_iff)
  have "length demo_entropy = 12" by (simp add: demo_entropy_def)
  from resumed_stream_has_no_gap [OF demo_hub_new this run demo_sha _ _ _ _ sub, of "[]" "fst demo_resumed" "snd demo_after"]
  have "demo_binding = cursor_binding demo_env (hb_instance (fst demo_after)) (he_sha256 demo_env ''ann'') demo_filter \<Longrightarrow> ?thesis"
    using demo_log by (simp add: demo_filter_def)
  then show ?thesis by (simp add: demo_binding_def demo_instance)
qed

section \<open>Progress\<close>

lemma write_progress:
  assumes "map_of (hb_subs h) n = Some s"
  shows "\<exists>s'. map_of (hb_subs (handler_write n h)) n = Some s' \<and> total_sent s' = total_sent s \<and> su_open s' = su_open s
    \<and> (length (su_written s') = min (length (total_sent s)) (length (su_written s) + 1))"
proof (cases "next_write s")
  case None
  then have "total_sent s = su_written s" by (auto simp: next_write_def total_sent_def split: if_splits list.splits)
  with None assms show ?thesis by (simp add: handler_write_def)
next
  case (Some s')
  have "length (su_written s') = length (su_written s) + 1 \<and> length (su_written s) < length (total_sent s)"
    using Some by (auto simp: next_write_def total_sent_def split: if_splits list.splits)
  with Some assms total_sent_write [OF Some] next_write_keeps [OF Some] show ?thesis
    by (auto simp: handler_write_def)
qed

lemma writes_progress:
  assumes "map_of (hb_subs h) n = Some s"
  shows "\<exists>s'. map_of (hb_subs (fst (fold (hub_step V) (replicate m (Op_write n)) (h, L)))) n = Some s'
    \<and> total_sent s' = total_sent s \<and> su_open s' = su_open s \<and> snd (fold (hub_step V) (replicate m (Op_write n)) (h, L)) = L
    \<and> min (length (total_sent s)) (length (su_written s) + m) \<le> length (su_written s')"
  using assms
proof (induction m arbitrary: h s)
  case 0
  then show ?case by simp
next
  case (Suc m)
  from write_progress [OF Suc.prems] obtain s1 where s1: "map_of (hb_subs (handler_write n h)) n = Some s1"
    "total_sent s1 = total_sent s" "su_open s1 = su_open s"
    "length (su_written s1) = min (length (total_sent s)) (length (su_written s) + 1)" by blast
  from Suc.IH [OF s1(1)] s1(2-4) show ?case by fastforce
qed

lemma written_all: "length (total_sent s) \<le> length (su_written s) \<Longrightarrow> su_written s = total_sent s"
  by (simp add: total_sent_def)

text \<open>
  (C26) Everything published arrives. If the resumed subscription is still open after a further run,
  then after finitely many more turns of its handler the response holds every event of the log from
  the cursor's position on that the scope allows, in order, with nothing in between.
\<close>

theorem open_stream_catches_up:
  assumes "new_hub c (Some b) = Inr h0" "length b = 12" "fold (hub_step V) ops (h0, \<lambda>_. []) = (h, L)"
    and "\<forall>x. length (he_sha256 V x) = 32"
    and "p \<le> length (L (sf_cluster_id f))" "length (L (sf_cluster_id f)) < 2 ^ 63"
    and "length (L (sf_cluster_id f)) \<le> p + nat (hc_ring_size (hb_config h))"
    and "binding = cursor_binding V (hb_instance h) (he_sha256 V subject) f"
    and "hub_subscribe V subject f (event_id (hb_instance h) binding (of_nat p)) now h = (h1, Inr n)"
    and "fold (hub_step V) ops' (h1, L) = (h', L')"
    and "map_of (hb_subs h') n = Some s" "su_open s"
  shows "\<exists>m. \<forall>j \<ge> m. \<exists>s'. map_of (hb_subs (fst (fold (hub_step V) (replicate j (Op_write n)) (h', L')))) n = Some s'
    \<and> su_written s' = map (decorate (hb_instance h) binding)
        (filter (\<lambda>ev. filter_allows f (se_envelope ev)) (drop p (L' (sf_cluster_id f))))"
proof -
  have ok: "hub_ok (h, L)" using hub_gauge.run_inv [OF new_hub_ok [OF assms(1)], of V ops] assms(3) by simp
  note sf = subscribe_follows [OF ok run_instance [OF assms(1-3)] assms(4-9)]
  then have ok1: "hub_ok (h1, L)" and fl: "follows n f binding [] p (h1, L)" and i: "hb_instance h1 = hb_instance h"
    by simp_all
  have fl': "follows n f binding [] p (h', L')" using follows_run [OF ok1 fl, of V ops'] assms(10) by simp
  have i': "hb_instance h' = hb_instance h" using hub_run_same [of V ops' "(h1, L)"] assms(10) i by simp
  from fl' obtain t k where "map_of (hb_subs h') n = Some t" "su_open t \<longrightarrow> k = length (L' (sf_cluster_id f))"
    "total_sent t = [] @ sent_from (hb_instance h') binding f p (take k (L' (sf_cluster_id f)))"
    by (rule followsE)
  then have t: "total_sent s = sent_from (hb_instance h) binding f p (L' (sf_cluster_id f))"
    using assms(11,12) i' by simp
  show ?thesis
  proof (rule exI [of _ "length (total_sent s)"], intro allI impI)
    fix j assume j: "length (total_sent s) \<le> j"
    from writes_progress [OF assms(11), of V j L'] obtain s' where
      s': "map_of (hb_subs (fst (fold (hub_step V) (replicate j (Op_write n)) (h', L')))) n = Some s'"
      "total_sent s' = total_sent s" "min (length (total_sent s)) (length (su_written s) + j) \<le> length (su_written s')" by blast
    with j written_all [of s'] t
    show "\<exists>s'. map_of (hb_subs (fst (fold (hub_step V) (replicate j (Op_write n)) (h', L')))) n = Some s'
      \<and> su_written s' = map (decorate (hb_instance h) binding)
          (filter (\<lambda>ev. filter_allows f (se_envelope ev)) (drop p (L' (sf_cluster_id f))))"
      by (auto simp: sent_from_def)
  qed
qed

lemma demo_admit_open:
  "map_option su_open (map_of (hb_subs (fst (admit demo_env (he_sha256 demo_env ''ann'') demo_binding demo_filter
     (Some (False, 1)) 4 (fst demo_after)))) 0) = Some True"
  by code_simp

theorem open_stream_catches_up_witness:
  "\<exists>m. \<forall>j \<ge> m. \<exists>s'. map_of (hb_subs (fst (fold (hub_step demo_env) (replicate j (Op_write 0)) (fst demo_resumed, snd demo_after)))) 0 = Some s'
    \<and> su_written s' = map (decorate (hb_instance (fst demo_after)) demo_binding)
        (filter (\<lambda>ev. filter_allows demo_filter (se_envelope ev)) (drop 1 (snd demo_after (sf_cluster_id demo_filter))))"
proof -
  have run: "fold (hub_step demo_env) demo_publishes (demo_hub, \<lambda>_. []) = (fst demo_after, snd demo_after)"
    by (simp add: demo_after_def)
  have sub: "hub_subscribe demo_env ''ann'' demo_filter (event_id (hb_instance (fst demo_after)) demo_binding (of_nat 1)) 4
      (fst demo_after) = (fst demo_resumed, Inr 0)"
    using demo_resumed_ok by (simp add: demo_resumed_def prod_eq_iff)
  have e: "length demo_entropy = 12" by (simp add: demo_entropy_def)
  have b: "demo_binding = cursor_binding demo_env (hb_instance (fst demo_after)) (he_sha256 demo_env ''ann'') demo_filter"
    by (simp add: demo_binding_def demo_instance)
  obtain s where s: "map_of (hb_subs (fst demo_resumed)) 0 = Some s" "su_open s"
    using demo_admit_open by (auto simp: demo_resumed_admit)
  have l: "1 \<le> length (snd demo_after (sf_cluster_id demo_filter))" "length (snd demo_after (sf_cluster_id demo_filter)) < 2 ^ 63"
    "length (snd demo_after (sf_cluster_id demo_filter)) \<le> 1 + nat (hc_ring_size (hb_config (fst demo_after)))"
    by (simp_all add: demo_log)
  have no: "fold (hub_step demo_env) [] (fst demo_resumed, snd demo_after) = (fst demo_resumed, snd demo_after)" by simp
  show ?thesis by (rule open_stream_catches_up [OF demo_hub_new e run demo_sha l b sub no s])
qed

section \<open>Scope\<close>

definition scoped_sub :: "(string \<Rightarrow> stream_filter \<Rightarrow> bool) \<Rightarrow> subscription \<Rightarrow> bool" where
  "scoped_sub Q s \<longleftrightarrow> Q (su_subject s) (su_filter s) \<and> (\<forall>ev \<in> set (su_replay s @ su_chan s @ su_written s). filter_allows (su_filter s) (se_envelope ev))"

definition scoped_hub :: "(string \<Rightarrow> stream_filter \<Rightarrow> bool) \<Rightarrow> hub \<Rightarrow> bool" where
  "scoped_hub Q h \<longleftrightarrow> (\<forall>s \<in> set (map snd (hb_subs h)). scoped_sub Q s)"

text \<open>A subscription that is admitted meets \<open>Q\<close>.\<close>

definition opens_by :: "(string \<Rightarrow> stream_filter \<Rightarrow> bool) \<Rightarrow> hub_env \<Rightarrow> hub_op \<Rightarrow> bool" where
  "opens_by Q V opn = (case opn of
     Op_subscribe subject f cursor now \<Rightarrow> valid_cluster_id (sf_cluster_id f) \<longrightarrow> Q (he_sha256 V subject) f
   | _ \<Rightarrow> True)"

lemma scoped_hub_map:
  assumes "scoped_hub Q h" "hb_subs h' = map (\<lambda>(n, s). (n, g n s)) (hb_subs h)" "\<And>n s. scoped_sub Q s \<Longrightarrow> scoped_sub Q (g n s)"
  shows "scoped_hub Q h'"
  using assms by (force simp: scoped_hub_def)

lemma scoped_shut: "scoped_sub Q s \<Longrightarrow> scoped_sub Q (s\<lparr>su_open := b\<rparr>)"
  by (simp add: scoped_sub_def)

lemma scoped_remove_locked: "scoped_hub Q h \<Longrightarrow> scoped_hub Q (fst (hub_remove_locked n h))"
  using put_entries [of n _ "hb_subs h"]
  by (fastforce simp: hub_remove_locked_def Let_def scoped_hub_def scoped_shut dest: map_of_SomeD split: option.split)

lemma scoped_remove_all: "scoped_hub Q h \<Longrightarrow> scoped_hub Q (remove_all ns h)"
  unfolding remove_all_def by (induction ns arbitrary: h) (simp_all add: scoped_remove_locked)

lemma scoped_tell [simp]: "scoped_hub Q (tell os h) = scoped_hub Q h"
  by (simp add: scoped_hub_def)

lemma scoped_offer: "scoped_sub Q s \<Longrightarrow> scoped_sub Q (fst (offer_event h ev s))"
  by (auto simp: scoped_sub_def offer_event_def decorate_def)

lemma scoped_replay:
  "\<lbrakk>start_replay V h binding f want now = (replay, reset); ev \<in> set replay\<rbrakk> \<Longrightarrow> filter_allows f (se_envelope ev)"
  by (auto simp: start_replay_def Let_def decorate_def reset_event_def filter_allows_def split: option.splits if_splits)

lemma scoped_admit: "scoped_hub Q h \<Longrightarrow> Q key f \<Longrightarrow> scoped_hub Q (fst (admit V key binding f want now h))"
proof -
  assume h: "scoped_hub Q h" and q: "Q key f"
  obtain h' res where a: "admit V key binding f want now h = (h', res)" by (rule prod.exhaust)
  then show ?thesis
  proof (cases rule: admit_cases)
    case (no reason e)
    with h a show ?thesis by (simp add: rejected_def)
  next
    case (yes replay reset os)
    have "scoped_sub Q (new_sub key f binding replay)"
      using scoped_replay [OF yes(1)] q by (auto simp: scoped_sub_def new_sub_def)
    with h a yes(3) show ?thesis by (simp add: scoped_hub_def)
  qed
qed

lemma scoped_step: "scoped_hub Q (fst hl) \<Longrightarrow> opens_by Q V opn \<Longrightarrow> scoped_hub Q (fst (hub_step V opn hl))"
proof (cases hl)
  case (Pair h L)
  assume "scoped_hub Q (fst hl)" and opn: "opens_by Q V opn"
  then have h: "scoped_hub Q h" by (simp add: Pair)
  show ?thesis
  proof (cases opn)
    case (Op_publish e now)
    have "scoped_hub Q (fst (fan_out ev h1))" if "hb_subs h1 = hb_subs h" for ev h1
      by (rule scoped_hub_map [OF h, of _ "\<lambda>n s. fst (offer_event h1 ev s)"]) (simp_all add: fan_out_def that scoped_offer)
    then show ?thesis unfolding Pair Op_publish
      using h enqueue_same scoped_remove_all
      by (auto simp: hub_publish_def split: option.split prod.split) (metis fst_conv)
  next
    case (Op_subscribe subject f cursor now)
    with h opn scoped_admit show ?thesis unfolding Pair
      by (auto simp: opens_by_def hub_subscribe_def Let_def rejected_def split: option.split prod.split)
  next
    case (Op_close_sub n)
    with h scoped_remove_all show ?thesis unfolding Pair by (simp add: hub_close_sub_def remove_one)
  next
    case Op_close
    have "scoped_hub Q (h\<lparr>hb_closed := True\<rparr>)" using h by (simp add: scoped_hub_def)
    with h scoped_remove_all Op_close show ?thesis unfolding Pair by (simp add: hub_close_def Let_def)
  next
    case (Op_write n)
    have "scoped_hub Q (handler_write n h)"
    proof (cases "Option.bind (map_of (hb_subs h) n) next_write")
      case None
      then have "handler_write n h = h" by (auto simp: handler_write_def bind_eq_None_conv split: option.splits)
      with h show ?thesis by simp
    next
      case (Some s')
      then obtain s where s: "map_of (hb_subs h) n = Some s" "next_write s = Some s'" by (auto simp: bind_eq_Some_conv)
      have "scoped_sub Q s" using h map_of_SomeD [OF s(1)] by (force simp: scoped_hub_def)
      then have "scoped_sub Q s'" using s(2)
        by (auto simp: scoped_sub_def next_write_def split: if_splits list.splits)
      with h s put_entries [of n s' "hb_subs h"] show ?thesis by (fastforce simp: handler_write_def scoped_hub_def)
    qed
    with Op_write show ?thesis by (simp add: Pair)
  qed
qed

lemma scoped_run: "scoped_hub Q (fst hl) \<Longrightarrow> \<forall>opn \<in> set ops. opens_by Q V opn \<Longrightarrow> scoped_hub Q (fst (fold (hub_step V) ops hl))"
  by (induction ops arbitrary: hl) (simp_all add: scoped_step)

lemma new_hub_scoped: "new_hub c entropy = Inr h0 \<Longrightarrow> scoped_hub Q h0"
  by (auto simp: new_hub_def Let_def scoped_hub_def split: option.splits)

text \<open>
  No event leaves its scope. In every run whatever a subscription replays, has queued or has
  written is of its own cluster, and is a reset, or its scope is unrestricted, or it has a namespace
  and the namespace is one of the scope.
\<close>

lemma streams_stay_in_scope:
  assumes "new_hub c entropy = Inr h0" "fold (hub_step V) ops (h0, \<lambda>_. []) = (h, L)"
    and "map_of (hb_subs h) n = Some s" "ev \<in> set (su_replay s @ su_chan s @ su_written s)"
  shows "en_cluster_id (se_envelope ev) = sf_cluster_id (su_filter s)
    \<and> (en_kind (se_envelope ev) = StreamKindReset \<or> sf_all (su_filter s)
      \<or> (en_namespace (se_envelope ev) \<noteq> '''' \<and> en_namespace (se_envelope ev) \<in> set (sf_namespaces (su_filter s))))"
proof -
  have "scoped_hub (\<lambda>_ _. True) h0" by (rule new_hub_scoped [OF assms(1)])
  then have "scoped_hub (\<lambda>_ _. True) h"
    using scoped_run [of _ "(h0, \<lambda>_. [])" ops V] assms(2) by (simp add: opens_by_def split: hub_op.split)
  moreover have "s \<in> set (map snd (hb_subs h))" using map_of_SomeD [OF assms(3)] by force
  ultimately have "filter_allows (su_filter s) (se_envelope ev)" using assms(4) unfolding scoped_hub_def scoped_sub_def by blast
  then show ?thesis by (auto simp: filter_allows_def split: if_splits)
qed

definition demo_scoped_ops :: "hub_op list" where
  "demo_scoped_ops = Op_subscribe ''ann'' demo_filter '''' 0 # demo_publishes"

definition demo_scoped_sub :: subscription where
  "demo_scoped_sub = the (map_of (hb_subs (fst (fold (hub_step demo_env) demo_scoped_ops (demo_hub, \<lambda>_. [])))) 0)"

lemma demo_scoped_at:
  "map_of (hb_subs (fst (fold (hub_step demo_env) demo_scoped_ops (demo_hub, \<lambda>_. [])))) 0 = Some demo_scoped_sub"
  "su_chan demo_scoped_sub \<noteq> []" "en_kind (se_envelope (hd (su_chan demo_scoped_sub))) \<noteq> StreamKindReset"
proof -
  let ?o = "map_of (hb_subs (fst (fold (hub_step demo_env) demo_scoped_ops (demo_hub, \<lambda>_. [])))) 0"
  have "case ?o of None \<Rightarrow> False
    | Some s \<Rightarrow> su_chan s \<noteq> [] \<and> en_kind (se_envelope (hd (su_chan s))) \<noteq> StreamKindReset" by code_simp
  then show "?o = Some demo_scoped_sub" "su_chan demo_scoped_sub \<noteq> []"
      "en_kind (se_envelope (hd (su_chan demo_scoped_sub))) \<noteq> StreamKindReset"
    by (auto simp: demo_scoped_sub_def split: option.splits)
qed

end
