(* ===== verification/Source_Props.thy ===== *)
theory Source_Props
  imports Stream_Sources Hub_Props
begin

text \<open>
  The sources of the stream against the hub: who is told of a change. The quiet poll of \<open>Stream_Sources\<close> is
  evaluated here on two alerts.
\<close>

definition demo_alert :: "string \<Rightarrow> alert_instance" where
  "demo_alert i = \<lparr>al_id = i, al_name = i, al_severity = ''critical'', al_status = ''firing'', al_starts_at = '''',
     al_ends_at = '''', al_labels = [], al_annotations = [], al_entity = None, al_entity_name = '''', al_source_url = '''',
     al_source = '''', al_group_size = 1, al_group_key = ''''\<rparr>"

definition demo_alert_config :: alert_config where
  "demo_alert_config = \<lparr>ac_cluster_id = ''c1'', ac_interval = 0, ac_max_backoff = 0, ac_max_alerts = 0, ac_window = 0,
     ac_jitter = False\<rparr>"

definition demo_poller :: alert_poller where
  "demo_poller = \<lparr>ap_config = alert_defaults demo_alert_config, ap_primed = False, ap_snapshot = [], ap_truncated = False, ap_jitter = 1\<rparr>"

definition demo_poll :: "string list \<Rightarrow> alert_poller \<Rightarrow> (alert_poller \<times> envelope list) \<times> string option" where
  "demo_poll ids p = poll_once demo_env (\<lambda>i a b. Inr (map demo_alert ids, [])) [] 0 p"

lemma demo_poll_first:
  "snd (demo_poll [''x'', ''y''] demo_poller) = None" "\<not> ap_truncated (fst (fst (demo_poll [''x'', ''y''] demo_poller)))"
  "ap_config (fst (fst (demo_poll [''x'', ''y''] demo_poller))) = ap_config demo_poller"
  by (simp_all add: demo_poll_def poll_once_def demo_poller_def alert_defaults_def demo_alert_config_def collect_alerts_def
    collect_alert_def demo_alert_def Let_def max_alert_id_def)

lemma demo_poll_answers: "snd (demo_poll ids p) = None"
  by (simp add: demo_poll_def poll_once_def Let_def split: prod.split)


section \<open>Who is told\<close>

text \<open>What one publication does to an open subscription whose scope allows the event: the event is the last
  of its channel, or the subscription has been closed.\<close>

lemma publish_reaches:
  assumes "hub_ok (h, L)" "enqueue_event V e now h = Some (h1, ev)"
    and "map_of (hb_subs h) n = Some s" "su_open s" "filter_allows (su_filter s) (se_envelope ev)"
  shows "\<exists>s'. map_of (hb_subs (hub_publish V e now h)) n = Some s'
    \<and> (\<not> su_open s' \<or> su_chan s' = su_chan s @ [decorate (hb_instance h) (su_binding s) ev])"
proof -
  note q = enqueue_ok [OF assms(1,2)]
  obtain h2 dropped where fo: "fan_out ev h1 = (h2, dropped)" by (rule prod.exhaust)
  let ?L = "L(en_cluster_id e := L (en_cluster_id e) @ [ev])"
  have ok1: "hub_ok (h1, ?L)" using q by simp
  note f2 = fan_out_ok [OF ok1 fo]
  have ok2: "hub_ok (h2, ?L)" using f2 by simp
  have subs: "hb_subs (remove_all dropped h2) = map (\<lambda>(m, s). (m, shut (set dropped) m s)) (hb_subs h2)"
    using remove_all_keeps [OF hub_okD(7,4) [OF ok2]] f2 by simp
  have "map_of (hb_subs h2) n = Some (fst (offer_event h1 ev s))"
    using fo q assms(3) by (auto simp: fan_out_def map_of_map_values)
  then have m: "map_of (hb_subs (hub_publish V e now h)) n = Some (shut (set dropped) n (fst (offer_event h1 ev s)))"
    by (simp add: hub_publish_def assms(2) fo subs map_of_map_values)
  have "n \<in> set dropped" if "snd (offer_event h1 ev s)"
  proof -
    have "(n, s) \<in> set (filter (\<lambda>(n, s). snd (offer_event h1 ev s)) (hb_subs h1))"
      using map_of_SomeD [OF assms(3)] that q by simp
    moreover have "dropped = map fst (filter (\<lambda>(n, s). snd (offer_event h1 ev s)) (hb_subs h1))"
      using fo by (simp add: fan_out_def)
    ultimately show ?thesis by (simp only: set_map) (rule image_eqI [rotated], assumption, simp)
  qed
  with m assms(4,5) q show ?thesis by (auto simp: offer_event_def split: if_splits)
qed

text \<open>
  A change of a catalog row reaches its scope. When the hub accepts the frame of a created,
  updated or deleted pod, every open subscription of the cluster whose scope has the pod's namespace
  gets, as the last event of its channel, an event of kind \<open>pod\<close> with the pod's UID and namespace, or
  is closed as too slow.
\<close>

lemma pod_change_reaches_scope:
  assumes "new_hub c entropy = Inr h0" "fold (hub_step V) ops (h0, \<lambda>_. []) = (h, L)"
    and "wf_type f = Watch_delta" "wf_change f = Some ch" "cc_resource ch = Some r" "cc_action ch \<noteq> Catalog_unspecified"
    and "cr_kind r = KindPod" "cr_namespace r \<noteq> ''''"
    and "envelope_from_watch_frame stamp (Some f) = Some e" "enqueue_event V e now h \<noteq> None"
    and "map_of (hb_subs h) n = Some s" "su_open s" "sf_cluster_id (su_filter s) = wf_cluster_id f"
    and "sf_all (su_filter s) \<or> cr_namespace r \<in> set (sf_namespaces (su_filter s))"
  shows "\<exists>s'. map_of (hb_subs (publish_watch_frame V stamp (Some f) now h)) n = Some s'
    \<and> (\<not> su_open s' \<or> (\<exists>ev ref. su_chan s' = su_chan s @ [ev] \<and> en_kind (se_envelope ev) = StreamKindPod
        \<and> en_namespace (se_envelope ev) = cr_namespace r \<and> en_entity (se_envelope ev) = Some ref \<and> er_pod_uid ref = cr_uid r))"
proof -
  have ok: "hub_ok (h, L)" using hub_gauge.run_inv [OF new_hub_ok [OF assms(1)], of V ops] assms(2) by simp
  obtain h1 ev where en: "enqueue_event V e now h = Some (h1, ev)" using assms(10) by auto
  obtain act ref where e: "e = zero_envelope\<lparr>en_kind := StreamKindPod, en_action := act, en_cluster_id := wf_cluster_id f,
      en_namespace := cr_namespace r, en_entity := Some ref, en_observed_at := stamp (wf_observed_unix_ms f)\<rparr>"
    and ref: "er_pod_uid ref = cr_uid r"
    using assms(3-7,9)
    by (auto simp: envelope_from_watch_frame_def stream_entity_def Let_def split: option.splits)
  have ev: "en_kind (se_envelope ev) = StreamKindPod" "en_namespace (se_envelope ev) = cr_namespace r"
    "en_entity (se_envelope ev) = Some ref" "en_cluster_id (se_envelope ev) = wf_cluster_id f"
    using en unfolding enqueue_event_def e by (auto simp: Let_def split: if_splits option.splits)
  have al: "filter_allows (su_filter s) (se_envelope ev)"
    using ev assms(8,13,14) by (auto simp: filter_allows_def StreamKindPod_def StreamKindReset_def)
  from publish_reaches [OF ok en assms(11,12) al] obtain s' where s':
    "map_of (hb_subs (hub_publish V e now h)) n = Some s'"
    "\<not> su_open s' \<or> su_chan s' = su_chan s @ [decorate (hb_instance h) (su_binding s) ev]" by blast
  then show ?thesis using ev ref assms(9) by (auto simp: publish_watch_frame_def decorate_def)
qed

text \<open>When an alert moves to another namespace, both the scope that saw it and the scope that sees it now are
  told.\<close>

lemma moved_alert_tells_both:
  assumes "poll_once V src trusted now p = ((p', es), None)" "\<not> ap_truncated p'" "ap_primed p"
    and "map_of (ap_snapshot p) i = Some old" "map_of (ap_snapshot p') i = Some new" "as_namespace old \<noteq> as_namespace new"
  shows "alert_envelope (ac_cluster_id (ap_config p)) StreamActionDeleted old \<in> set es
    \<and> alert_envelope (ac_cluster_id (ap_config p)) StreamActionUpdated new \<in> set es"
proof -
  have es: "es = alert_diff (ac_cluster_id (ap_config p)) (ap_snapshot p) (ap_snapshot p')"
    using assms(1-3) by (auto simp: poll_once_def Let_def split: sum.splits prod.splits if_splits)
  have "(i, new) \<in> set (ap_snapshot p')" by (rule map_of_SomeD [OF assms(5)])
  moreover have "alert_changes (ac_cluster_id (ap_config p)) (ap_snapshot p) (i, new)
      = [alert_envelope (ac_cluster_id (ap_config p)) StreamActionDeleted old,
         alert_envelope (ac_cluster_id (ap_config p)) StreamActionUpdated new]"
    using assms(4,6) by (simp add: alert_changes_def)
  ultimately show ?thesis unfolding es alert_diff_def by force
qed

end
