(* ===== verification/Query_Guard.thy ===== *)
theory Query_Guard
  imports Go_Float
begin

text \<open>
  The request guard of the API (\<open>internal/queryprotect/protect.go\<close>): a token bucket and a concurrency count
  for every user and every dashboard, in maps of bounded size. The buckets are shared: the release
  function of an admitted request keeps pointers to the two it was counted in, so they live in a
  store and the maps hold their addresses. A Go map is ranged over in any order; the model takes the order
  of the list. The mutex makes every operation atomic. A rate is a finite
  number here; the counters of \<open>Metrics\<close> are left out.
\<close>

record guard_config =
  gc_user_rate :: rat
  gc_dashboard_rate :: rat
  gc_user_burst :: int
  gc_dashboard_burst :: int
  gc_user_concurrent :: int
  gc_dashboard_concurrent :: int
  gc_query_timeout :: duration
  gc_slow_threshold :: duration
  gc_idle_ttl :: duration
  gc_max_identities :: int

definition default_guard_config :: guard_config where
  "default_guard_config = \<lparr>gc_user_rate = 200, gc_dashboard_rate = 1000, gc_user_burst = 400, gc_dashboard_burst = 2000,
     gc_user_concurrent = 8, gc_dashboard_concurrent = 32, gc_query_timeout = 12 * second, gc_slow_threshold = 2 * second,
     gc_idle_ttl = 600 * second, gc_max_identities = 4096\<rparr>"

definition positive_or :: "'a::linordered_idom \<Rightarrow> 'a \<Rightarrow> 'a" where
  "positive_or x d = (if x \<le> 0 then d else x)"

definition guard_defaults :: "guard_config \<Rightarrow> guard_config" where
  "guard_defaults c = (let d = default_guard_config in
     \<lparr>gc_user_rate = positive_or (gc_user_rate c) (gc_user_rate d),
      gc_dashboard_rate = positive_or (gc_dashboard_rate c) (gc_dashboard_rate d),
      gc_user_burst = positive_or (gc_user_burst c) (gc_user_burst d),
      gc_dashboard_burst = positive_or (gc_dashboard_burst c) (gc_dashboard_burst d),
      gc_user_concurrent = positive_or (gc_user_concurrent c) (gc_user_concurrent d),
      gc_dashboard_concurrent = positive_or (gc_dashboard_concurrent c) (gc_dashboard_concurrent d),
      gc_query_timeout = positive_or (gc_query_timeout c) (gc_query_timeout d),
      gc_slow_threshold = positive_or (gc_slow_threshold c) (gc_slow_threshold d),
      gc_idle_ttl = positive_or (gc_idle_ttl c) (gc_idle_ttl d),
      gc_max_identities = positive_or (gc_max_identities c) (gc_max_identities d)\<rparr>)"

section \<open>State\<close>

record bucket =
  bu_tokens :: rat
  bu_last :: time
  bu_touched :: time
  bu_concurrent :: int

text \<open>A permit is the release function of an admitted request: the identities, the buckets it is counted in, and
  whether its \<open>once\<close> is done.\<close>

record permit =
  pm_user :: string
  pm_dashboard :: string
  pm_user_at :: nat
  pm_dashboard_at :: nat
  pm_done :: bool

record guard =
  gu_config :: guard_config
  gu_store :: "bucket list"
  gu_users :: "(string, nat) gomap"
  gu_dashboards :: "(string, nat) gomap"
  gu_ops :: u64
  gu_permits :: "permit list"

definition new_guard :: "guard_config \<Rightarrow> guard" where
  "new_guard c = \<lparr>gu_config = guard_defaults c, gu_store = [], gu_users = [], gu_dashboards = [], gu_ops = 0, gu_permits = []\<rparr>"

definition identity_counts :: "guard \<Rightarrow> nat \<times> nat" where
  "identity_counts g = (length (gu_users g), length (gu_dashboards g))"

section \<open>Buckets\<close>

definition go_trunc :: "rat \<Rightarrow> int" where
  "go_trunc x = (if 0 \<le> x then \<lfloor>x\<rfloor> else \<lceil>x\<rceil>)"

definition take_token :: "bucket \<Rightarrow> time \<Rightarrow> rat \<Rightarrow> int \<Rightarrow> bucket \<times> bool \<times> duration" where
  "take_token s now rate burst =
     (let t1 = fl64 (bu_tokens s + fl64 (go_seconds (time_sub now (bu_last s)) * rate));
          t2 = (if t1 > fl64 (of_int burst) then fl64 (of_int burst) else t1);
          s1 = s\<lparr>bu_tokens := t2, bu_last := now, bu_touched := now\<rparr> in
      if 1 \<le> t2 then (s1\<lparr>bu_tokens := fl64 (t2 - 1)\<rparr>, True, 0)
      else (s1, False, go_trunc (fl64 (fl64 (fl64 (1 - t2) / rate) * 1000000000))))"

definition refund :: "nat \<Rightarrow> bucket list \<Rightarrow> bucket list" where
  "refund a bs = bs[a := (bs ! a)\<lparr>bu_tokens := fl64 (bu_tokens (bs ! a) + 1)\<rparr>]"

section \<open>The maps\<close>

text \<open>\<open>evict\<close> drops the identities without requests that have been idle for the TTL.\<close>

definition evict_idle :: "guard_config \<Rightarrow> bucket list \<Rightarrow> time \<Rightarrow> (string, nat) gomap \<Rightarrow> (string, nat) gomap" where
  "evict_idle c bs now m =
     filter (\<lambda>(k, a). \<not> (bu_concurrent (bs ! a) = 0 \<and> time_sub now (bu_touched (bs ! a)) \<ge> gc_idle_ttl c)) m"

text \<open>\<open>evictOldest\<close>: the scan keeps a key and its time; the empty key stands for none.\<close>

fun oldest_idle :: "bucket list \<Rightarrow> (string, nat) gomap \<Rightarrow> string \<Rightarrow> time \<Rightarrow> string" where
  "oldest_idle bs [] key old = key"
| "oldest_idle bs ((k, a) # m) key old =
     (if bu_concurrent (bs ! a) > 0 then oldest_idle bs m key old
      else if key = '''' \<or> bu_touched (bs ! a) < old then oldest_idle bs m k (bu_touched (bs ! a))
      else oldest_idle bs m key old)"

definition evict_oldest :: "bucket list \<Rightarrow> (string, nat) gomap \<Rightarrow> (string, nat) gomap" where
  "evict_oldest bs m = (let key = oldest_idle bs m '''' 0 in if key \<noteq> '''' then del key m else m)"

definition get_bucket :: "guard_config \<Rightarrow> string \<Rightarrow> time \<Rightarrow> int \<Rightarrow> bucket list \<Rightarrow> (string, nat) gomap
    \<Rightarrow> (bucket list \<times> (string, nat) gomap) \<times> nat option" where
  "get_bucket c key now burst bs m =
     (case map_of m key of
        Some a \<Rightarrow> ((bs, m), Some a)
      | None \<Rightarrow>
          let m1 = (if int (length m) \<ge> gc_max_identities c then evict_oldest bs m else m) in
          if int (length m1) \<ge> gc_max_identities c then ((bs, m1), None)
          else ((bs @ [\<lparr>bu_tokens = fl64 (of_int burst), bu_last = now, bu_touched = now, bu_concurrent = 0\<rparr>],
                 put key (length bs) m1), Some (length bs)))"

section \<open>Requests\<close>

definition tick_guard :: "time \<Rightarrow> guard \<Rightarrow> guard" where
  "tick_guard now g0 =
     (let g = g0\<lparr>gu_ops := gu_ops g0 + 1\<rparr>; c = gu_config g in
      if gu_ops g mod 64 = 0
      then g\<lparr>gu_users := evict_idle c (gu_store g) now (gu_users g),
             gu_dashboards := evict_idle c (gu_store g) now (gu_dashboards g)\<rparr>
      else g)"

datatype verdict = Admitted nat | Refused string duration

definition count_in :: "nat \<Rightarrow> bucket list \<Rightarrow> bucket list" where
  "count_in a bs = bs[a := (bs ! a)\<lparr>bu_concurrent := bu_concurrent (bs ! a) + 1\<rparr>]"

text \<open>The two buckets, then the four limits in the order of the code.\<close>

definition judge :: "guard \<Rightarrow> string \<Rightarrow> string \<Rightarrow> nat \<Rightarrow> nat \<Rightarrow> time \<Rightarrow> guard \<times> verdict" where
  "judge g user dashboard u d now =
     (let c = gu_config g; bs = gu_store g in
      case take_token (bs ! u) now (gc_user_rate c) (gc_user_burst c) of (su, ok_u, wait_u) \<Rightarrow>
      let bs1 = bs[u := su] in
      if \<not> ok_u then (g\<lparr>gu_store := bs1\<rparr>, Refused ''user_rate'' wait_u)
      else (case take_token (bs1 ! d) now (gc_dashboard_rate c) (gc_dashboard_burst c) of (sd, ok_d, wait_d) \<Rightarrow>
        let bs2 = bs1[d := sd] in
        if \<not> ok_d then (g\<lparr>gu_store := refund u bs2\<rparr>, Refused ''dashboard_rate'' wait_d)
        else if bu_concurrent (bs2 ! u) \<ge> gc_user_concurrent c
        then (g\<lparr>gu_store := refund d (refund u bs2)\<rparr>, Refused ''user_concurrency'' second)
        else if bu_concurrent (bs2 ! d) \<ge> gc_dashboard_concurrent c
        then (g\<lparr>gu_store := refund d (refund u bs2)\<rparr>, Refused ''dashboard_concurrency'' second)
        else (g\<lparr>gu_store := count_in d (count_in u bs2),
                gu_permits := gu_permits g @ [\<lparr>pm_user = user, pm_dashboard = dashboard, pm_user_at = u,
                  pm_dashboard_at = d, pm_done = False\<rparr>]\<rparr>, Admitted (length (gu_permits g)))))"

definition acquire :: "string \<Rightarrow> string \<Rightarrow> time \<Rightarrow> guard \<Rightarrow> guard \<times> verdict" where
  "acquire user dashboard now g0 =
     (let g = tick_guard now g0; c = gu_config g in
      case get_bucket c user now (gc_user_burst c) (gu_store g) (gu_users g) of ((bs1, us), u) \<Rightarrow>
      let g1 = g\<lparr>gu_store := bs1, gu_users := us\<rparr> in
      case u of
        None \<Rightarrow> (g1, Refused ''identity_capacity'' second)
      | Some ua \<Rightarrow>
          (case get_bucket c dashboard now (gc_dashboard_burst c) bs1 (gu_dashboards g) of ((bs2, ds), d) \<Rightarrow>
           let g2 = g1\<lparr>gu_store := bs2, gu_dashboards := ds\<rparr> in
           case d of
             None \<Rightarrow> (g2, Refused ''identity_capacity'' second)
           | Some da \<Rightarrow> judge g2 user dashboard ua da now))"

definition count_out :: "nat \<Rightarrow> bucket list \<Rightarrow> bucket list" where
  "count_out a bs = bs[a := (bs ! a)\<lparr>bu_concurrent := bu_concurrent (bs ! a) - 1\<rparr>]"

definition touch :: "nat \<Rightarrow> time \<Rightarrow> bucket list \<Rightarrow> bucket list" where
  "touch a now bs = bs[a := (bs ! a)\<lparr>bu_touched := now\<rparr>]"

text \<open>The release function reads the clock once for each bucket; a number that no permit has is not a function
  anyone holds.\<close>

definition release :: "nat \<Rightarrow> time \<Rightarrow> time \<Rightarrow> guard \<Rightarrow> guard" where
  "release n now_u now_d g =
     (if n < length (gu_permits g) \<and> \<not> pm_done (gu_permits g ! n) then
        (let p = gu_permits g ! n; u = pm_user_at p; d = pm_dashboard_at p in
         g\<lparr>gu_store := touch d now_d (touch u now_u (count_out d (count_out u (gu_store g)))),
           gu_permits := (gu_permits g)[n := p\<lparr>pm_done := True\<rparr>]\<rparr>)
      else g)"

text \<open>What can happen to a guard.\<close>

datatype guard_event = Ask string string time | Give_back nat time time

fun guard_step :: "guard_event \<Rightarrow> guard \<Rightarrow> guard" where
  "guard_step (Ask user dashboard now) g = fst (acquire user dashboard now g)"
| "guard_step (Give_back n now_u now_d) g = release n now_u now_d g"

end
