(* ===== verification/Guard_Laws.thy ===== *)
theory Guard_Laws
  imports Query_Guard
begin

text \<open>
  The books of the request guard: a bucket counts exactly the requests in flight of its identity,
  which is why an identity with requests in flight is never dropped, and why the pointers a release
  function holds are those of the maps.
\<close>

section \<open>One side\<close>

text \<open>The buckets of the users, or of the dashboards, against the number in flight of each identity.\<close>

definition side_ok :: "int \<Rightarrow> int \<Rightarrow> bucket list \<Rightarrow> (string, nat) gomap \<Rightarrow> (string \<Rightarrow> nat) \<Rightarrow> bool" where
  "side_ok mx cap bs m flying \<longleftrightarrow> distinct (keys_of m) \<and> int (length m) \<le> mx
     \<and> (\<forall>(k, a) \<in> set m. a < length bs \<and> bu_concurrent (bs ! a) = int (flying k) \<and> int (flying k) \<le> cap)
     \<and> (\<forall>k. 0 < flying k \<longrightarrow> k \<in> fst ` set m)"

lemma side_okD:
  assumes "side_ok mx cap bs m flying" "(k, a) \<in> set m"
  shows "a < length bs" "bu_concurrent (bs ! a) = int (flying k)" "int (flying k) \<le> cap"
  using assms by (auto simp: side_ok_def)

text \<open>Dropping idle identities.\<close>

lemma side_ok_drop:
  assumes "side_ok mx cap bs m flying" "set m' \<subseteq> set m" "distinct (keys_of m')" "length m' \<le> length m"
    and "\<And>k a. \<lbrakk>(k, a) \<in> set m; bu_concurrent (bs ! a) \<noteq> 0\<rbrakk> \<Longrightarrow> (k, a) \<in> set m'"
  shows "side_ok mx cap bs m' flying"
proof -
  have "k \<in> fst ` set m'" if "0 < flying k" for k
  proof -
    have "k \<in> fst ` set m" using assms(1) that by (simp add: side_ok_def)
    then obtain a where a: "(k, a) \<in> set m" by auto
    have "bu_concurrent (bs ! a) \<noteq> 0" using side_okD(2) [OF assms(1) a] that by simp
    from assms(5) [OF a this] show ?thesis by (rule image_eqI [rotated]) simp
  qed
  then show ?thesis using assms(1-4) by (auto simp: side_ok_def)
qed

lemma evict_idle_keeps:
  "set (evict_idle c bs now m) \<subseteq> set m \<and> (distinct (keys_of m) \<longrightarrow> distinct (keys_of (evict_idle c bs now m)))
    \<and> length (evict_idle c bs now m) \<le> length m
    \<and> (\<forall>k a. (k, a) \<in> set m \<longrightarrow> bu_concurrent (bs ! a) \<noteq> 0 \<longrightarrow> (k, a) \<in> set (evict_idle c bs now m))"
  unfolding evict_idle_def by (auto simp: distinct_map_filter length_filter_le)

lemma oldest_idle_cases:
  "oldest_idle bs m key old = key \<or> (\<exists>a. (oldest_idle bs m key old, a) \<in> set m \<and> bu_concurrent (bs ! a) \<le> 0)"
proof (induction bs m key old rule: oldest_idle.induct)
  case (2 bs k a m key old)
  show ?case
  proof (cases "bu_concurrent (bs ! a) > 0")
    case True
    with "2.IH"(1) show ?thesis by auto
  next
    case busy: False
    show ?thesis
    proof (cases "key = '''' \<or> bu_touched (bs ! a) < old")
      case True
      from "2.IH"(2) [OF busy True] show ?thesis
      proof
        assume "oldest_idle bs m k (bu_touched (bs ! a)) = k"
        then have "oldest_idle bs ((k, a) # m) key old = k" using busy True by auto
        then show ?thesis using busy by auto
      qed (use busy True in auto)
    next
      case False
      with "2.IH"(3) busy show ?thesis by auto
    qed
  qed
qed simp

lemma evict_oldest_keeps:
  assumes "distinct (keys_of m)" "\<forall>(k, a) \<in> set m. 0 \<le> bu_concurrent (bs ! a)"
  shows "set (evict_oldest bs m) \<subseteq> set m \<and> distinct (keys_of (evict_oldest bs m)) \<and> length (evict_oldest bs m) \<le> length m
    \<and> (\<forall>k a. (k, a) \<in> set m \<longrightarrow> bu_concurrent (bs ! a) \<noteq> 0 \<longrightarrow> (k, a) \<in> set (evict_oldest bs m))"
proof (cases "oldest_idle bs m '''' 0 = ''''")
  case True
  with assms show ?thesis by (simp add: evict_oldest_def)
next
  case False
  let ?k = "oldest_idle bs m '''' 0"
  obtain a where a: "(?k, a) \<in> set m" "bu_concurrent (bs ! a) \<le> 0"
    using oldest_idle_cases [of bs m "''''" 0] False by auto
  then have z: "bu_concurrent (bs ! a) = 0" using assms(2) by force
  have e: "evict_oldest bs m = filter (\<lambda>p. fst p \<noteq> ?k) m"
    using False by (simp add: evict_oldest_def Let_def AList.delete_eq case_prod_unfold eq_commute)
  have "(k, b) \<in> set (evict_oldest bs m)" if "(k, b) \<in> set m" "bu_concurrent (bs ! b) \<noteq> 0" for k b
  proof -
    have "k \<noteq> ?k"
    proof
      assume "k = ?k"
      then have "b = a" using that(1) a(1) assms(1) by (metis eq_key_imp_eq_value)
      with that(2) z show False by simp
    qed
    with that(1) show ?thesis by (simp add: e)
  qed
  then show ?thesis unfolding e using assms(1) by (auto simp: distinct_map_filter)
qed

lemma get_bucket_ok:
  assumes "side_ok (gc_max_identities c) cap bs m flying" "0 \<le> cap"
    and "get_bucket c key now burst bs m = ((bs', m'), r)"
  shows "side_ok (gc_max_identities c) cap bs' m' flying
    \<and> (\<exists>xs. bs' = bs @ xs) \<and> (\<forall>a. r = Some a \<longrightarrow> (key, a) \<in> set m')
    \<and> (\<forall>p \<in> set m'. p \<in> set m \<or> snd p = length bs)
    \<and> (\<forall>k a. (k, a) \<in> set m \<longrightarrow> 0 < flying k \<longrightarrow> (k, a) \<in> set m')
    \<and> (distinct (map snd m) \<longrightarrow> distinct (map snd m'))"
proof (cases "map_of m key")
  case (Some a)
  then show ?thesis using assms map_of_SomeD [OF Some] by (auto simp: get_bucket_def)
next
  case None
  define m1 where "m1 = (if int (length m) \<ge> gc_max_identities c then evict_oldest bs m else m)"
  have d: "distinct (keys_of m)" "\<forall>(k, a) \<in> set m. 0 \<le> bu_concurrent (bs ! a)"
    using assms(1) by (auto simp: side_ok_def)
  note ev = evict_oldest_keeps [OF d]
  have m1: "set m1 \<subseteq> set m" "distinct (keys_of m1)" "length m1 \<le> length m"
    "\<And>k a. \<lbrakk>(k, a) \<in> set m; bu_concurrent (bs ! a) \<noteq> 0\<rbrakk> \<Longrightarrow> (k, a) \<in> set m1"
    using ev d(1) by (auto simp: m1_def)
  have ok1: "side_ok (gc_max_identities c) cap bs m1 flying"
    by (rule side_ok_drop [OF assms(1) m1(1-3)]) (rule m1(4))
  have keep: "(k, a) \<in> set m1" if "(k, a) \<in> set m" "0 < flying k" for k a
    by (rule m1(4) [OF that(1)]) (use side_okD(2) [OF assms(1) that(1)] that(2) in simp)
  have dm: "distinct (map snd m1)" if "distinct (map snd m)"
    using that by (auto simp: m1_def evict_oldest_def Let_def AList.delete_eq distinct_map_filter)
  show ?thesis
  proof (cases "int (length m1) \<ge> gc_max_identities c")
    case True
    then have "bs' = bs" "m' = m1" "r = None"
      using assms(3) None by (auto simp: get_bucket_def Let_def m1_def split: if_splits)
    with ok1 m1(1) keep dm show ?thesis by auto
  next
    case False
    let ?b = "\<lparr>bu_tokens = fl64 (of_int burst), bu_last = now, bu_touched = now, bu_concurrent = 0\<rparr>"
    have r: "bs' = bs @ [?b]" "m' = put key (length bs) m1" "r = Some (length bs)"
      using assms(3) None False by (auto simp: get_bucket_def Let_def m1_def split: if_splits)
    have "key \<notin> fst ` set m" using None by (simp add: map_of_eq_None_iff)
    then have key: "key \<notin> fst ` set m1" "flying key = 0"
      using m1(1) assms(1) by (auto simp: side_ok_def)
    then have put: "put key (length bs) m1 = m1 @ [(key, length bs)]" by (intro put_new) simp
    have old: "a < length bs" if "(k, a) \<in> set m1" for k a using side_okD(1) [OF ok1 that] .
    have fly: "\<forall>k. 0 < flying k \<longrightarrow> k \<in> fst ` set m1" using ok1 by (simp add: side_ok_def)
    have "side_ok (gc_max_identities c) cap bs' m' flying"
      using ok1 False key assms(2) fly old unfolding r put side_ok_def
      by (auto simp: nth_append)
    moreover have "length bs \<notin> set (map snd m1)" using old by force
    ultimately show ?thesis using keep dm m1(1) unfolding r put by auto
  qed
qed

section \<open>Stores that agree on the counts\<close>

definition same_counts :: "bucket list \<Rightarrow> bucket list \<Rightarrow> bool" where
  "same_counts bs bs' \<longleftrightarrow> length bs' = length bs \<and> (\<forall>a < length bs. bu_concurrent (bs' ! a) = bu_concurrent (bs ! a))"

lemma side_ok_same: "\<lbrakk>side_ok mx cap bs m flying; same_counts bs bs'\<rbrakk> \<Longrightarrow> side_ok mx cap bs' m flying"
  by (auto simp: side_ok_def same_counts_def)

lemma same_counts_trans: "\<lbrakk>same_counts a b; same_counts b c\<rbrakk> \<Longrightarrow> same_counts a c"
  by (simp add: same_counts_def)

lemma same_counts_update: "bu_concurrent s = bu_concurrent (bs ! a) \<Longrightarrow> same_counts bs (bs[a := s])"
  unfolding same_counts_def by (cases "a < length bs") (auto simp: nth_list_update)

lemma refund_same: "same_counts bs (refund a bs)"
  by (simp add: refund_def same_counts_update)

lemma touch_same: "same_counts bs (touch a now bs)"
  by (simp add: touch_def same_counts_update)

lemma take_token_same: "take_token s now rate burst = (s', b, w) \<Longrightarrow> bu_concurrent s' = bu_concurrent s"
  by (auto simp: take_token_def Let_def split: if_splits)

text \<open>One more, or one less, in flight.\<close>

lemma side_ok_count:
  assumes "side_ok mx cap bs m flying" "distinct (map snd m)" "(key, a) \<in> set m"
    and "int (flying key) + d \<le> cap" "0 \<le> int (flying key) + d"
  shows "side_ok mx cap (bs[a := (bs ! a)\<lparr>bu_concurrent := bu_concurrent (bs ! a) + d\<rparr>]) m
    (flying(key := nat (int (flying key) + d)))"
proof -
  have u: "k = key \<longleftrightarrow> b = a" if "(k, b) \<in> set m" for k b
  proof
    assume "k = key"
    then show "b = a" using that assms(1,3) by (auto simp: side_ok_def dest: eq_key_imp_eq_value)
  next
    assume "b = a"
    with that assms(2,3) show "k = key" by (metis distinct_map fst_conv inj_on_eq_iff snd_conv)
  qed
  show ?thesis
    unfolding side_ok_def
  proof (intro conjI ballI allI impI)
    fix p assume p: "p \<in> set m"
    obtain k b where kb: "p = (k, b)" by (rule prod.exhaust)
    note s = side_okD [OF assms(1) p [unfolded kb]] and t = side_okD [OF assms(1,3)]
    show "case p of (k, b) \<Rightarrow> b < length (bs[a := (bs ! a)\<lparr>bu_concurrent := bu_concurrent (bs ! a) + d\<rparr>])
        \<and> bu_concurrent (bs[a := (bs ! a)\<lparr>bu_concurrent := bu_concurrent (bs ! a) + d\<rparr>] ! b)
          = int ((flying(key := nat (int (flying key) + d))) k)
        \<and> int ((flying(key := nat (int (flying key) + d))) k) \<le> cap"
      using s t assms(4,5) u [of k b] p kb by (auto simp: nth_list_update)
  next
    fix k assume "0 < (flying(key := nat (int (flying key) + d))) k"
    then have "k = key \<or> 0 < flying k" by (auto split: if_splits)
    then show "k \<in> fst ` set m" using assms(1,3) by (auto simp: side_ok_def intro: rev_image_eqI)
  qed (use assms(1) in \<open>simp_all add: side_ok_def\<close>)
qed

text \<open>A change to a bucket of the other side.\<close>

lemma side_ok_other:
  assumes "side_ok mx cap bs m flying" "a \<notin> set (map snd m)"
  shows "side_ok mx cap (bs[a := s]) m flying"
proof -
  have "b \<noteq> a" if "(k, b) \<in> set m" for k b using assms(2) that by force
  then have "bs[a := s] ! b = bs ! b" if "(k, b) \<in> set m" for k b by (metis that nth_list_update_neq)
  then show ?thesis using assms(1) by (fastforce simp: side_ok_def)
qed

section \<open>The whole guard\<close>

definition flying :: "(permit \<Rightarrow> string) \<Rightarrow> permit list \<Rightarrow> string \<Rightarrow> nat" where
  "flying f ps k = length (filter (\<lambda>p. \<not> pm_done p \<and> f p = k) ps)"

definition books :: "guard_config \<Rightarrow> (string, nat) gomap \<Rightarrow> (string, nat) gomap \<Rightarrow> bucket list \<Rightarrow> permit list \<Rightarrow> bool" where
  "books c us ds bs ps \<longleftrightarrow>
     side_ok (gc_max_identities c) (gc_user_concurrent c) bs us (flying pm_user ps)
     \<and> side_ok (gc_max_identities c) (gc_dashboard_concurrent c) bs ds (flying pm_dashboard ps)
     \<and> distinct (map snd us) \<and> distinct (map snd ds) \<and> snd ` set us \<inter> snd ` set ds = {}
     \<and> (\<forall>p \<in> set ps. pm_done p \<or> (pm_user p, pm_user_at p) \<in> set us \<and> (pm_dashboard p, pm_dashboard_at p) \<in> set ds)"

lemma booksI [intro?]:
  assumes "side_ok (gc_max_identities c) (gc_user_concurrent c) bs us (flying pm_user ps)"
    and "side_ok (gc_max_identities c) (gc_dashboard_concurrent c) bs ds (flying pm_dashboard ps)"
    and "distinct (map snd us)" "distinct (map snd ds)" "snd ` set us \<inter> snd ` set ds = {}"
    and "\<And>p. p \<in> set ps \<Longrightarrow> pm_done p \<or> (pm_user p, pm_user_at p) \<in> set us \<and> (pm_dashboard p, pm_dashboard_at p) \<in> set ds"
  shows "books c us ds bs ps"
  using assms by (simp add: books_def)

lemma booksD:
  assumes "books c us ds bs ps"
  shows "side_ok (gc_max_identities c) (gc_user_concurrent c) bs us (flying pm_user ps)"
    and "side_ok (gc_max_identities c) (gc_dashboard_concurrent c) bs ds (flying pm_dashboard ps)"
    and "distinct (map snd us)" "distinct (map snd ds)" "snd ` set us \<inter> snd ` set ds = {}"
    and "p \<in> set ps \<Longrightarrow> pm_done p \<or> (pm_user p, pm_user_at p) \<in> set us \<and> (pm_dashboard p, pm_dashboard_at p) \<in> set ds"
  using assms by (simp_all add: books_def)

lemma books_apart:
  assumes "books c us ds bs ps" "(user, ua) \<in> set us" "(dash, da) \<in> set ds"
  shows "ua \<notin> set (map snd ds) \<and> da \<notin> set (map snd us)"
proof -
  have "ua \<in> snd ` set us" "da \<in> snd ` set ds" using assms(2,3) by force+
  then show ?thesis using booksD(5) [OF assms(1)] by auto
qed

definition guard_ok :: "guard \<Rightarrow> bool" where
  "guard_ok g \<longleftrightarrow> 0 \<le> gc_user_concurrent (gu_config g) \<and> 0 \<le> gc_dashboard_concurrent (gu_config g)
     \<and> books (gu_config g) (gu_users g) (gu_dashboards g) (gu_store g) (gu_permits g)"

lemma flying_pos: "\<lbrakk>p \<in> set ps; \<not> pm_done p\<rbrakk> \<Longrightarrow> 0 < flying f ps (f p)"
  by (auto simp: flying_def filter_empty_conv)

lemma flying_append [simp]:
  "flying f (ps @ [p]) = (flying f ps)(f p := flying f ps (f p) + (if pm_done p then 0 else 1))"
  by (auto simp: flying_def)

lemma flying_done:
  assumes "n < length ps" "\<not> pm_done (ps ! n)" "f ((ps ! n)\<lparr>pm_done := True\<rparr>) = f (ps ! n)"
  shows "flying f (ps[n := (ps ! n)\<lparr>pm_done := True\<rparr>]) = (flying f ps)(f (ps ! n) := flying f ps (f (ps ! n)) - 1)"
proof
  fix k
  have "flying f (take n ps @ ps ! n # drop (Suc n) ps) k
      = flying f (take n ps) k + (if f (ps ! n) = k then 1 else 0) + flying f (drop (Suc n) ps) k"
    using assms(2) by (simp add: flying_def)
  then have "flying f ps k = flying f (take n ps) k + (if f (ps ! n) = k then 1 else 0) + flying f (drop (Suc n) ps) k"
    unfolding id_take_nth_drop [OF assms(1), symmetric] .
  then show "flying f (ps[n := (ps ! n)\<lparr>pm_done := True\<rparr>]) k
      = ((flying f ps)(f (ps ! n) := flying f ps (f (ps ! n)) - 1)) k"
    using assms by (auto simp: upd_conv_take_nth_drop flying_def)
qed

lemma books_same: "\<lbrakk>books c us ds bs ps; same_counts bs bs'\<rbrakk> \<Longrightarrow> books c us ds bs' ps"
  by (auto simp: books_def intro: side_ok_same)

lemma side_ok_append: "side_ok mx cap bs m f \<Longrightarrow> side_ok mx cap (bs @ xs) m f"
  by (fastforce simp: side_ok_def nth_append)

text \<open>Dropping idle identities on both sides.\<close>

lemma books_evict:
  assumes "books c us ds bs ps"
  shows "books c (evict_idle c bs now us) (evict_idle c bs now ds) bs ps"
proof -
  note ku = evict_idle_keeps [of c bs now us] and kd = evict_idle_keeps [of c bs now ds]
  have su: "side_ok (gc_max_identities c) (gc_user_concurrent c) bs us (flying pm_user ps)"
    and sd: "side_ok (gc_max_identities c) (gc_dashboard_concurrent c) bs ds (flying pm_dashboard ps)"
    using assms by (simp_all add: books_def)
  have "side_ok (gc_max_identities c) (gc_user_concurrent c) bs (evict_idle c bs now us) (flying pm_user ps)"
    by (rule side_ok_drop [OF su]) (use ku su in \<open>auto simp: side_ok_def\<close>)
  moreover have "side_ok (gc_max_identities c) (gc_dashboard_concurrent c) bs (evict_idle c bs now ds) (flying pm_dashboard ps)"
    by (rule side_ok_drop [OF sd]) (use kd sd in \<open>auto simp: side_ok_def\<close>)
  moreover have "distinct (map snd (evict_idle c bs now us)) \<and> distinct (map snd (evict_idle c bs now ds))"
    using assms by (simp add: books_def evict_idle_def distinct_map_filter)
  moreover have "snd ` set (evict_idle c bs now us) \<inter> snd ` set (evict_idle c bs now ds) = {}"
    using assms ku kd unfolding books_def by blast
  moreover have "pm_done p \<or> (pm_user p, pm_user_at p) \<in> set (evict_idle c bs now us)
      \<and> (pm_dashboard p, pm_dashboard_at p) \<in> set (evict_idle c bs now ds)" if p: "p \<in> set ps" for p
  proof (cases "pm_done p")
    case False
    then have "(pm_user p, pm_user_at p) \<in> set us" "(pm_dashboard p, pm_dashboard_at p) \<in> set ds"
      using assms p by (auto simp: books_def)
    with ku kd show ?thesis
      using side_okD(2) [OF su, of "pm_user p"] side_okD(2) [OF sd, of "pm_dashboard p"]
        flying_pos [OF p False, of pm_user] flying_pos [OF p False, of pm_dashboard] by fastforce
  qed simp
  ultimately show ?thesis by (simp add: books_def)
qed

lemma tick_guard_ok: "guard_ok g \<Longrightarrow> guard_ok (tick_guard now g)"
  by (auto simp: guard_ok_def tick_guard_def Let_def books_evict)

text \<open>Finding the bucket of a user, and of a dashboard.\<close>

lemma disjoint_one_more: "\<lbrakk>A' \<subseteq> insert x A; x \<notin> B; A \<inter> B = {}\<rbrakk> \<Longrightarrow> A' \<inter> B = {}"
  by blast

lemma books_get_user:
  assumes b: "books c us ds bs ps" and "0 \<le> gc_user_concurrent c"
    and g: "get_bucket c key now burst bs us = ((bs', us'), r)"
  shows "books c us' ds bs' ps \<and> (\<forall>a. r = Some a \<longrightarrow> (key, a) \<in> set us')"
proof -
  note s = b [unfolded books_def]
  note got = get_bucket_ok [OF _ assms(2) g]
  have su: "side_ok (gc_max_identities c) (gc_user_concurrent c) bs us (flying pm_user ps)"
    and sd: "side_ok (gc_max_identities c) (gc_dashboard_concurrent c) bs ds (flying pm_dashboard ps)"
    using s by simp_all
  from got [OF su] obtain xs where su': "side_ok (gc_max_identities c) (gc_user_concurrent c) bs' us' (flying pm_user ps)"
    and bs': "bs' = bs @ xs" and r: "\<forall>a. r = Some a \<longrightarrow> (key, a) \<in> set us'"
    and new: "\<forall>p \<in> set us'. p \<in> set us \<or> snd p = length bs"
    and keep: "\<forall>k a. (k, a) \<in> set us \<longrightarrow> 0 < flying pm_user ps k \<longrightarrow> (k, a) \<in> set us'"
    and dist: "distinct (map snd us')" using s by blast
  have "length bs \<notin> snd ` set ds" using sd by (fastforce simp: side_ok_def)
  moreover have "snd ` set us' \<subseteq> insert (length bs) (snd ` set us)" using new by auto
  ultimately have disj: "snd ` set us' \<inter> snd ` set ds = {}"
    using disjoint_one_more booksD(5) [OF b] by metis
  have "pm_done p \<or> (pm_user p, pm_user_at p) \<in> set us' \<and> (pm_dashboard p, pm_dashboard_at p) \<in> set ds"
    if "p \<in> set ps" for p
    using booksD(6) [OF b that] keep flying_pos [OF that, of pm_user] by blast
  from booksI [OF su' side_ok_append [OF sd, of xs, folded bs'] dist booksD(4) [OF b] disj this]
  show ?thesis using r by blast
qed

lemma books_get_dashboard:
  assumes b: "books c us ds bs ps" and "0 \<le> gc_dashboard_concurrent c"
    and g: "get_bucket c key now burst bs ds = ((bs', ds'), r)"
  shows "books c us ds' bs' ps \<and> (\<forall>a. r = Some a \<longrightarrow> (key, a) \<in> set ds')"
proof -
  note s = b [unfolded books_def]
  note got = get_bucket_ok [OF _ assms(2) g]
  have su: "side_ok (gc_max_identities c) (gc_user_concurrent c) bs us (flying pm_user ps)"
    and sd: "side_ok (gc_max_identities c) (gc_dashboard_concurrent c) bs ds (flying pm_dashboard ps)"
    using s by simp_all
  from got [OF sd] obtain xs where sd': "side_ok (gc_max_identities c) (gc_dashboard_concurrent c) bs' ds' (flying pm_dashboard ps)"
    and bs': "bs' = bs @ xs" and r: "\<forall>a. r = Some a \<longrightarrow> (key, a) \<in> set ds'"
    and new: "\<forall>p \<in> set ds'. p \<in> set ds \<or> snd p = length bs"
    and keep: "\<forall>k a. (k, a) \<in> set ds \<longrightarrow> 0 < flying pm_dashboard ps k \<longrightarrow> (k, a) \<in> set ds'"
    and dist: "distinct (map snd ds')" using s by blast
  have "length bs \<notin> snd ` set us" using su by (fastforce simp: side_ok_def)
  moreover have "snd ` set ds' \<subseteq> insert (length bs) (snd ` set ds)" using new by auto
  ultimately have disj: "snd ` set us \<inter> snd ` set ds' = {}"
    using disjoint_one_more booksD(5) [OF b] by (metis Int_commute)
  have "pm_done p \<or> (pm_user p, pm_user_at p) \<in> set us \<and> (pm_dashboard p, pm_dashboard_at p) \<in> set ds'"
    if "p \<in> set ps" for p
    using booksD(6) [OF b that] keep flying_pos [OF that, of pm_dashboard] by blast
  from booksI [OF side_ok_append [OF su, of xs, folded bs'] sd' booksD(3) [OF b] dist disj this]
  show ?thesis using r by blast
qed

text \<open>Admitting a request.\<close>

lemma books_admit:
  assumes b: "books c us ds bs ps" and u: "(user, ua) \<in> set us" and d: "(dash, da) \<in> set ds"
    and lu: "bu_concurrent (bs ! ua) < gc_user_concurrent c" and ld: "bu_concurrent (bs ! da) < gc_dashboard_concurrent c"
  shows "books c us ds (count_in da (count_in ua bs))
    (ps @ [\<lparr>pm_user = user, pm_dashboard = dash, pm_user_at = ua, pm_dashboard_at = da, pm_done = False\<rparr>])"
proof -
  note s = b [unfolded books_def]
  have su: "side_ok (gc_max_identities c) (gc_user_concurrent c) bs us (flying pm_user ps)"
    and sd: "side_ok (gc_max_identities c) (gc_dashboard_concurrent c) bs ds (flying pm_dashboard ps)"
    using s by simp_all
  have apart: "ua \<notin> set (map snd ds)" "da \<notin> set (map snd us)"
    using books_apart [OF b u d] by simp_all
  have cu: "int (flying pm_user ps user) + 1 \<le> gc_user_concurrent c"
    and cd: "int (flying pm_dashboard ps dash) + 1 \<le> gc_dashboard_concurrent c"
    using side_okD(2) [OF su u] side_okD(2) [OF sd d] lu ld by simp_all
  have "side_ok (gc_max_identities c) (gc_user_concurrent c) (count_in ua bs) us
      ((flying pm_user ps)(user := flying pm_user ps user + 1))"
    using side_ok_count [OF su _ u cu] s by (simp add: count_in_def nat_add_distrib)
  from side_ok_other [OF this apart(2)]
  have 1: "side_ok (gc_max_identities c) (gc_user_concurrent c) (count_in da (count_in ua bs)) us
      ((flying pm_user ps)(user := flying pm_user ps user + 1))" by (simp add: count_in_def)
  have "side_ok (gc_max_identities c) (gc_dashboard_concurrent c) (count_in ua bs) ds (flying pm_dashboard ps)"
    using side_ok_other [OF sd apart(1)] by (simp add: count_in_def)
  from side_ok_count [OF this _ d cd]
  have 2: "side_ok (gc_max_identities c) (gc_dashboard_concurrent c) (count_in da (count_in ua bs)) ds
      ((flying pm_dashboard ps)(dash := flying pm_dashboard ps dash + 1))"
    using s by (simp add: count_in_def nat_add_distrib)
  show ?thesis
  proof (rule booksI [OF _ _ booksD(3-5) [OF b]])
    fix p assume "p \<in> set (ps @ [\<lparr>pm_user = user, pm_dashboard = dash, pm_user_at = ua, pm_dashboard_at = da, pm_done = False\<rparr>])"
    then show "pm_done p \<or> (pm_user p, pm_user_at p) \<in> set us \<and> (pm_dashboard p, pm_dashboard_at p) \<in> set ds"
      using booksD(6) [OF b] u d by auto
  qed (use 1 2 in simp_all)
qed

text \<open>A release.\<close>

lemma books_release:
  assumes b: "books c us ds bs ps" and n: "n < length ps" "\<not> pm_done (ps ! n)"
  shows "books c us ds (count_out (pm_dashboard_at (ps ! n)) (count_out (pm_user_at (ps ! n)) bs))
    (ps[n := (ps ! n)\<lparr>pm_done := True\<rparr>])"
proof -
  let ?p = "ps ! n"
  note s = b [unfolded books_def]
  have su: "side_ok (gc_max_identities c) (gc_user_concurrent c) bs us (flying pm_user ps)"
    and sd: "side_ok (gc_max_identities c) (gc_dashboard_concurrent c) bs ds (flying pm_dashboard ps)"
    using s by simp_all
  have p: "?p \<in> set ps" using n(1) by simp
  then have u: "(pm_user ?p, pm_user_at ?p) \<in> set us" and d: "(pm_dashboard ?p, pm_dashboard_at ?p) \<in> set ds"
    using s n(2) by auto
  have apart: "pm_user_at ?p \<notin> set (map snd ds)" "pm_dashboard_at ?p \<notin> set (map snd us)"
    using books_apart [OF b u d] by simp_all
  note fu = flying_pos [OF p n(2), of pm_user] and fd = flying_pos [OF p n(2), of pm_dashboard]
  have nat1: "nat (int m + - 1) = m - 1" for m by simp
  have "side_ok (gc_max_identities c) (gc_user_concurrent c) (count_out (pm_user_at ?p) bs) us
      ((flying pm_user ps)(pm_user ?p := flying pm_user ps (pm_user ?p) - 1))"
    using side_ok_count [OF su _ u, of "- 1", unfolded nat1] side_okD(3) [OF su u] fu s by (simp add: count_out_def)
  from side_ok_other [OF this apart(2)]
  have 1: "side_ok (gc_max_identities c) (gc_user_concurrent c)
      (count_out (pm_dashboard_at ?p) (count_out (pm_user_at ?p) bs)) us
      ((flying pm_user ps)(pm_user ?p := flying pm_user ps (pm_user ?p) - 1))" by (simp add: count_out_def)
  have "side_ok (gc_max_identities c) (gc_dashboard_concurrent c) (count_out (pm_user_at ?p) bs) ds (flying pm_dashboard ps)"
    using side_ok_other [OF sd apart(1)] by (simp add: count_out_def)
  from side_ok_count [OF this _ d, of "- 1", unfolded nat1]
  have 2: "side_ok (gc_max_identities c) (gc_dashboard_concurrent c)
      (count_out (pm_dashboard_at ?p) (count_out (pm_user_at ?p) bs)) ds
      ((flying pm_dashboard ps)(pm_dashboard ?p := flying pm_dashboard ps (pm_dashboard ?p) - 1))"
    using side_okD(3) [OF sd d] fd s by (simp add: count_out_def)
  show ?thesis
  proof (rule booksI [OF _ _ booksD(3-5) [OF b]])
    fix q assume "q \<in> set (ps[n := ?p\<lparr>pm_done := True\<rparr>])"
    then have "q \<in> set ps \<or> pm_done q"
      using set_update_subset_insert [of ps n "?p\<lparr>pm_done := True\<rparr>"] by auto
    then show "pm_done q \<or> (pm_user q, pm_user_at q) \<in> set us \<and> (pm_dashboard q, pm_dashboard_at q) \<in> set ds"
      using booksD(6) [OF b] by blast
  qed (use 1 2 n in \<open>simp_all add: flying_done\<close>)
qed

section \<open>Every step\<close>

lemma judge_ok:
  assumes ok: "guard_ok g" and u: "(user, ua) \<in> set (gu_users g)" and d: "(dash, da) \<in> set (gu_dashboards g)"
  shows "guard_ok (fst (judge g user dash ua da now))"
proof -
  let ?c = "gu_config g"
  have b: "books ?c (gu_users g) (gu_dashboards g) (gu_store g) (gu_permits g)" using ok by (simp add: guard_ok_def)
  obtain su oku wu where tu: "take_token (gu_store g ! ua) now (gc_user_rate ?c) (gc_user_burst ?c) = (su, oku, wu)"
    by (metis prod.exhaust)
  let ?bs1 = "(gu_store g)[ua := su]"
  have s1: "same_counts (gu_store g) ?bs1" by (rule same_counts_update) (rule take_token_same [OF tu])
  obtain sd okd wd where td: "take_token (?bs1 ! da) now (gc_dashboard_rate ?c) (gc_dashboard_burst ?c) = (sd, okd, wd)"
    by (metis prod.exhaust)
  let ?bs2 = "?bs1[da := sd]"
  have "same_counts ?bs1 ?bs2" by (rule same_counts_update) (rule take_token_same [OF td])
  note s2 = same_counts_trans [OF s1 this]
  note s3 = same_counts_trans [OF s2 refund_same]
  note s4 = same_counts_trans [OF s3 refund_same]
  have keep: "guard_ok (g\<lparr>gu_store := bs\<rparr>)" if "same_counts (gu_store g) bs" for bs
    using ok books_same [OF b that] by (simp add: guard_ok_def)
  note adm = books_admit [OF books_same [OF b s2] u d]
  show ?thesis
    using keep [OF s1] keep [OF s3] keep [OF s4] adm ok
    by (auto simp: judge_def Let_def tu td guard_ok_def)
qed

lemma acquire_ok:
  assumes "guard_ok g0"
  shows "guard_ok (fst (acquire user dash now g0))"
proof -
  define g where "g = tick_guard now g0"
  have ok: "guard_ok g" unfolding g_def by (rule tick_guard_ok [OF assms])
  have lims: "0 \<le> gc_user_concurrent (gu_config g)" "0 \<le> gc_dashboard_concurrent (gu_config g)"
    and b: "books (gu_config g) (gu_users g) (gu_dashboards g) (gu_store g) (gu_permits g)"
    using ok by (simp_all add: guard_ok_def)
  obtain bs1 us u where gu: "get_bucket (gu_config g) user now (gc_user_burst (gu_config g)) (gu_store g) (gu_users g)
      = ((bs1, us), u)" by (metis prod.exhaust)
  note bu = books_get_user [OF b lims(1) gu]
  obtain bs2 ds d where gd: "get_bucket (gu_config g) dash now (gc_dashboard_burst (gu_config g)) bs1 (gu_dashboards g)
      = ((bs2, ds), d)" by (metis prod.exhaust)
  have bd: "books (gu_config g) us ds bs2 (gu_permits g) \<and> (\<forall>a. d = Some a \<longrightarrow> (dash, a) \<in> set ds)"
    using books_get_dashboard [OF _ lims(2) gd] bu by blast
  have "guard_ok (g\<lparr>gu_store := bs1, gu_users := us\<rparr>)" using lims bu by (simp add: guard_ok_def)
  moreover have ok2: "guard_ok (g\<lparr>gu_users := us, gu_store := bs2, gu_dashboards := ds\<rparr>)"
    using lims bd by (simp add: guard_ok_def)
  moreover have "guard_ok (fst (judge (g\<lparr>gu_users := us, gu_store := bs2, gu_dashboards := ds\<rparr>) user dash a e now))"
    if "u = Some a" "d = Some e" for a e
    by (rule judge_ok [OF ok2]) (use that bu bd in simp_all)
  ultimately show ?thesis
    by (simp add: acquire_def g_def [symmetric] Let_def gu gd split: option.split)
qed

lemma release_ok:
  assumes "guard_ok g"
  shows "guard_ok (release n now_u now_d g)"
proof (cases "n < length (gu_permits g) \<and> \<not> pm_done (gu_permits g ! n)")
  case True
  have b: "books (gu_config g) (gu_users g) (gu_dashboards g) (gu_store g) (gu_permits g)"
    using assms by (simp add: guard_ok_def)
  note books_same [OF books_release [OF b conjunct1 [OF True] conjunct2 [OF True]] same_counts_trans [OF touch_same touch_same]]
  with assms True show ?thesis by (simp add: release_def Let_def guard_ok_def)
next
  case False
  then have "release n now_u now_d g = g" unfolding release_def by (rule if_not_P)
  with assms show ?thesis by simp
qed

lemma guard_step_ok: "guard_ok g \<Longrightarrow> guard_ok (guard_step e g)"
  by (cases e) (simp_all add: acquire_ok release_ok)

interpretation guard: step_system guard_step guard_ok
  by unfold_locales (rule guard_step_ok)

lemma new_guard_ok: "guard_ok (new_guard c)"
  by (auto simp: guard_ok_def new_guard_def books_def side_ok_def flying_def guard_defaults_def Let_def
      positive_or_def default_guard_config_def)

text \<open>No step changes the configuration.\<close>

lemma judge_config: "gu_config (fst (judge g user dash u d now)) = gu_config g"
  by (simp add: judge_def Let_def split: prod.split)

lemma acquire_config: "gu_config (fst (acquire user dash now g)) = gu_config g"
  by (simp add: acquire_def tick_guard_def Let_def judge_config split: prod.split option.split)

lemma step_config: "gu_config (guard_step e g) = gu_config g"
  by (cases e) (simp_all add: acquire_config release_def Let_def)

lemma run_config: "gu_config (fold guard_step es g) = gu_config g"
  by (induction es arbitrary: g) (simp_all add: step_config)

lemma side_flying:
  assumes "side_ok mx cap bs m f" "0 \<le> cap"
  shows "int (f k) \<le> cap \<and> (f k = 0 \<or> (\<exists>a. map_of m k = Some a \<and> bu_concurrent (bs ! a) = int (f k)))"
proof (cases "f k = 0")
  case False
  then have "k \<in> fst ` set m" using assms(1) by (simp add: side_ok_def)
  then obtain a where a: "(k, a) \<in> set m" by auto
  moreover have "map_of m k = Some a" by (rule map_of_is_SomeI) (use assms(1) a in \<open>simp_all add: side_ok_def\<close>)
  ultimately show ?thesis using side_okD(2,3) [OF assms(1)] by auto
qed (use assms(2) in simp)

section \<open>Capacity\<close>

text \<open>A new identity is turned away only when the map is full of identities with requests in flight. The empty
  string is the exception: \<open>evictOldest\<close> takes it for \<open>no key\<close>, so an idle empty identity keeps its place.\<close>

lemma oldest_idle_found:
  assumes "key \<noteq> '''' \<or> (\<exists>k a. (k, a) \<in> set m \<and> bu_concurrent (bs ! a) \<le> 0)" and "'''' \<notin> fst ` set m"
  shows "oldest_idle bs m key old \<noteq> ''''"
  using assms by (induction bs m key old rule: oldest_idle.induct) auto

lemma capacity_refused:
  assumes "get_bucket c key now burst bs m = ((bs', m'), None)" "'''' \<notin> fst ` set m" "distinct (keys_of m)"
    and "int (length m) \<le> gc_max_identities c" "(k, a) \<in> set m"
  shows "0 < bu_concurrent (bs ! a)"
proof (rule ccontr)
  assume idle: "\<not> 0 < bu_concurrent (bs ! a)"
  let ?k = "oldest_idle bs m '''' 0"
  have k: "?k \<noteq> ''''" using assms(2,5) idle by (intro oldest_idle_found) (auto simp: not_less)
  then obtain b where "(?k, b) \<in> set m" using oldest_idle_cases [of bs m "''''" 0] by auto
  then have mem: "?k \<in> set (keys_of m)" by force
  then have "0 < length m" by (cases m) auto
  then have "length (evict_oldest bs m) < length m"
    using k mem assms(3) by (simp add: evict_oldest_def Let_def length_del)
  then show False
    using assms(1,4) by (auto simp: get_bucket_def Let_def split: option.splits if_splits)
qed

end
