(* ===== verification/Guard_Props.thy ===== *)
theory Guard_Props
  imports Guard_Laws
begin

text \<open>The properties of the request guard.\<close>


end
