(* ===== verification/Usage_Store.thy ===== *)
theory Usage_Store
  imports Remote_Catalog
begin

text \<open>
  The container usage of the API (\<open>internal/clusterstate/usage_store.go\<close>, \<open>usage_poller.go\<close>): one immutable snapshot
  per cluster under global limits. \<open>Update\<close> reserves room under the store's lock, builds the new snapshot outside
  it, and publishes it under the lock again; updates of one cluster exclude each other, updates of different clusters
  interleave. So an update is two steps here, with what it has reserved kept in its cluster. The joining of
  usage into a screen (\<open>EnrichUsage\<close>) is left out.
\<close>

section \<open>State\<close>

definition usage_overhead :: int where "usage_overhead = 128"

record container_usage =
  cu_cpu :: int
  cu_memory :: int

definition zero_usage :: container_usage where
  "zero_usage = \<lparr>cu_cpu = 0, cu_memory = 0\<rparr>"

record usage_limits =
  ul_cluster_entries :: int
  ul_entries :: int
  ul_cluster_bytes :: int
  ul_bytes :: int
  ul_peak_entries :: int
  ul_peak_bytes :: int

record usage_snapshot =
  un_values :: "(string, container_usage) gomap"
  un_bytes :: int

record usage_build =
  ub_values :: "(string, container_usage) gomap"
  ub_bytes :: int
  ub_entry_delta :: int
  ub_byte_delta :: int

record usage_cluster =
  uc_value :: "usage_snapshot option"
  uc_build :: "usage_build option"

record usage_store =
  us_clusters :: "(string, usage_cluster) gomap"
  us_limits :: usage_limits
  us_total_entries :: int
  us_total_bytes :: int
  us_build_entries :: int
  us_build_bytes :: int
  us_reserved_entries :: int
  us_reserved_bytes :: int

definition usage_limits_valid :: "usage_limits \<Rightarrow> bool" where
  "usage_limits_valid L \<longleftrightarrow>
     1 \<le> ul_cluster_entries L \<and> ul_cluster_entries L \<le> 100000 \<and> ul_cluster_entries L \<le> ul_entries L \<and> ul_entries L \<le> 1000000
     \<and> usage_overhead \<le> ul_cluster_bytes L \<and> ul_cluster_bytes L \<le> ul_bytes L \<and> ul_bytes L \<le> 64 * 2 ^ 20
     \<and> ul_entries L \<le> ul_peak_entries L \<and> ul_peak_entries L \<le> 2000000
     \<and> ul_bytes L \<le> ul_peak_bytes L \<and> ul_peak_bytes L \<le> 128 * 2 ^ 20"

fun usage_clusters :: "(string, usage_cluster) gomap \<Rightarrow> string list \<Rightarrow> string + (string, usage_cluster) gomap" where
  "usage_clusters m [] = Inr m"
| "usage_clusters m (i # is) =
     (if \<not> valid_cluster_id i then Inl ''invalid cluster''
      else if map_of m i \<noteq> None then Inl ''duplicate cluster''
      else usage_clusters (put i \<lparr>uc_value = None, uc_build = None\<rparr> m) is)"

definition new_usage_store :: "string list \<Rightarrow> usage_limits \<Rightarrow> string + usage_store" where
  "new_usage_store ids L =
     (if ids = [] \<or> length ids > 64 \<or> \<not> usage_limits_valid L then Inl ''invalid usage limits''
      else case usage_clusters [] ids of
        Inl e \<Rightarrow> Inl e
      | Inr m \<Rightarrow> Inr \<lparr>us_clusters = m, us_limits = L, us_total_entries = 0, us_total_bytes = 0, us_build_entries = 0,
          us_build_bytes = 0, us_reserved_entries = 0, us_reserved_bytes = 0\<rparr>)"

definition uniform_limits :: "int \<Rightarrow> usage_limits" where
  "uniform_limits n = \<lparr>ul_cluster_entries = n, ul_entries = n, ul_cluster_bytes = n * (253 + usage_overhead),
     ul_bytes = n * (253 + usage_overhead), ul_peak_entries = n * 2, ul_peak_bytes = n * (253 + usage_overhead) * 2\<rparr>"

section \<open>Updates\<close>

text \<open>The check of the values and the sum of their bytes, value by value.\<close>

fun usage_bytes :: "usage_limits \<Rightarrow> (string, container_usage) gomap \<Rightarrow> int \<Rightarrow> string + int" where
  "usage_bytes L [] n = Inr n"
| "usage_bytes L ((uid, v) # vs) n =
     (if uid = '''' \<or> length uid > 253 \<or> cu_cpu v < 0 \<or> cu_cpu v > 1000000000 \<or> cu_memory v < 0 \<or> cu_memory v > 1000000000
      then Inl ''invalid usage value''
      else let n1 = n + (int (length uid) + usage_overhead) in
        if n1 > ul_cluster_bytes L then Inl ''usage byte capacity'' else usage_bytes L vs n1)"

text \<open>A read of a missing key yields the zero usage, also here.\<close>

definition same_usage :: "usage_snapshot option \<Rightarrow> (string, container_usage) gomap \<Rightarrow> int \<Rightarrow> bool" where
  "same_usage old values n =
     (case old of
        None \<Rightarrow> False
      | Some s \<Rightarrow> un_bytes s = n \<and> length (un_values s) = length values
          \<and> list_all (\<lambda>(uid, v). (case map_of (un_values s) uid of None \<Rightarrow> zero_usage | Some w \<Rightarrow> w) = v) values)"

definition snap_entries :: "usage_snapshot option \<Rightarrow> int" where
  "snap_entries s = (case s of None \<Rightarrow> 0 | Some s \<Rightarrow> int (length (un_values s)))"

definition snap_bytes :: "usage_snapshot option \<Rightarrow> int" where
  "snap_bytes s = (case s of None \<Rightarrow> 0 | Some s \<Rightarrow> un_bytes s)"

datatype usage_answer = Usage_error string | Usage_waits | Usage_same | Usage_building

text \<open>Up to the end of the first critical section. \<open>Usage_waits\<close>: another update of the cluster holds its lock, and
  the call has not happened yet.\<close>

definition begin_update :: "string \<Rightarrow> (string, container_usage) gomap \<Rightarrow> usage_store \<Rightarrow> usage_store \<times> usage_answer" where
  "begin_update i values u =
     (let L = us_limits u in
      case map_of (us_clusters u) i of
        None \<Rightarrow> (u, Usage_error ''invalid usage snapshot'')
      | Some c \<Rightarrow>
          if int (length values) > ul_cluster_entries L then (u, Usage_error ''invalid usage snapshot'')
          else case usage_bytes L values 0 of
            Inl e \<Rightarrow> (u, Usage_error e)
          | Inr n \<Rightarrow>
              if uc_build c \<noteq> None then (u, Usage_waits)
              else if same_usage (uc_value c) values n then (u, Usage_same)
              else
                let de = int (length values) - snap_entries (uc_value c);
                    db = n - snap_bytes (uc_value c);
                    re = max 0 de; rb = max 0 db in
                if us_total_entries u + us_reserved_entries u + re > ul_entries L
                   \<or> us_total_bytes u + us_reserved_bytes u + rb > ul_bytes L
                   \<or> us_total_entries u + us_build_entries u + int (length values) > ul_peak_entries L
                   \<or> us_total_bytes u + us_build_bytes u + n > ul_peak_bytes L
                then (u, Usage_error ''global usage capacity'')
                else
                  (u\<lparr>us_clusters := put i (c\<lparr>uc_build := Some \<lparr>ub_values = values, ub_bytes = n, ub_entry_delta = de,
                       ub_byte_delta = db\<rparr>\<rparr>) (us_clusters u),
                     us_reserved_entries := us_reserved_entries u + re, us_reserved_bytes := us_reserved_bytes u + rb,
                     us_build_entries := us_build_entries u + int (length values), us_build_bytes := us_build_bytes u + n\<rparr>,
                   Usage_building))"

text \<open>The second critical section.\<close>

definition finish_update :: "string \<Rightarrow> usage_store \<Rightarrow> usage_store" where
  "finish_update i u =
     (case map_of (us_clusters u) i of
        None \<Rightarrow> u
      | Some c \<Rightarrow>
          (case uc_build c of
             None \<Rightarrow> u
           | Some b \<Rightarrow>
               u\<lparr>us_clusters := put i \<lparr>uc_value = Some \<lparr>un_values = ub_values b, un_bytes = ub_bytes b\<rparr>, uc_build = None\<rparr>
                   (us_clusters u),
                 us_build_entries := us_build_entries u - int (length (ub_values b)),
                 us_build_bytes := us_build_bytes u - ub_bytes b,
                 us_reserved_entries := us_reserved_entries u - max 0 (ub_entry_delta b),
                 us_reserved_bytes := us_reserved_bytes u - max 0 (ub_byte_delta b),
                 us_total_entries := us_total_entries u + ub_entry_delta b,
                 us_total_bytes := us_total_bytes u + ub_byte_delta b\<rparr>))"

text \<open>\<open>Update\<close> when nobody else runs.\<close>

definition usage_update :: "string \<Rightarrow> (string, container_usage) gomap \<Rightarrow> usage_store \<Rightarrow> usage_store \<times> string option" where
  "usage_update i values u =
     (case begin_update i values u of
        (u1, Usage_building) \<Rightarrow> (finish_update i u1, None)
      | (u1, Usage_error e) \<Rightarrow> (u1, Some e)
      | (u1, _) \<Rightarrow> (u1, None))"

definition usage_lookup :: "usage_store \<Rightarrow> string \<Rightarrow> string \<Rightarrow> container_usage option" where
  "usage_lookup u i uid =
     (case map_of (us_clusters u) i of
        None \<Rightarrow> None
      | Some c \<Rightarrow> (case uc_value c of None \<Rightarrow> None | Some s \<Rightarrow> map_of (un_values s) uid))"

definition usage_retained :: "usage_store \<Rightarrow> int \<times> int" where
  "usage_retained u = (us_total_entries u, us_total_bytes u)"

datatype usage_op = Begin_update string "(string, container_usage) gomap" | Finish_update string

text \<open>The values are a Go map, so a step with a repeated key is no step of the program.\<close>

fun usage_step :: "usage_op \<Rightarrow> usage_store \<Rightarrow> usage_store" where
  "usage_step (Begin_update i values) u = (if distinct (keys_of values) then fst (begin_update i values u) else u)"
| "usage_step (Finish_update i) u = finish_update i u"

section \<open>The poller\<close>

text \<open>One round of \<open>runCluster\<close>: nothing is kept of a cluster whose catalog is gone, and otherwise only the usage of
  pods the catalog has. \<open>None\<close> is a failed query of the metrics.\<close>

definition poll_usage :: "remote_catalog \<Rightarrow> string \<Rightarrow> (string, container_usage) gomap option \<Rightarrow> usage_store
    \<Rightarrow> usage_store \<times> bool" where
  "poll_usage r i answer u =
     (if \<not> catalog_available r i then map_prod id (\<lambda>e. e = None) (usage_update i [] u)
      else case answer of
        None \<Rightarrow> (u, False)
      | Some values \<Rightarrow> map_prod id (\<lambda>e. e = None) (usage_update i (filter (\<lambda>(uid, _). has_pod_uid r i uid) values) u))"

record usage_poller =
  po_interval :: duration
  po_timeout :: duration
  po_retry_min :: duration
  po_retry_max :: duration

definition poller_defaults :: "usage_poller \<Rightarrow> usage_poller" where
  "poller_defaults p =
     \<lparr>po_interval = (if po_interval p = 0 then 30 * second else po_interval p),
      po_timeout = (if po_timeout p = 0 then 10 * second else po_timeout p),
      po_retry_min = (if po_retry_min p = 0 then second else po_retry_min p),
      po_retry_max = (if po_retry_max p = 0 then 30 * second else po_retry_max p)\<rparr>"

definition poller_valid :: "usage_poller \<Rightarrow> bool" where
  "poller_valid p \<longleftrightarrow>
     1000000 \<le> po_interval p \<and> po_interval p \<le> 24 * 3600 * second \<and> 1000000 \<le> po_timeout p \<and> po_timeout p \<le> 60 * second
     \<and> 1000000 \<le> po_retry_min p \<and> po_retry_min p \<le> 60 * second \<and> po_retry_min p \<le> po_retry_max p \<and> po_retry_max p \<le> 300 * second"

text \<open>The delay after a round, and the backoff kept for the next one. A \<open>Delay\<close> function of the caller may
  replace the jitter; the random number is an argument.\<close>

definition poll_delay :: "usage_poller \<Rightarrow> (duration \<Rightarrow> duration) option \<Rightarrow> int \<Rightarrow> bool \<Rightarrow> duration \<Rightarrow> duration \<times> duration" where
  "poll_delay p custom rand ok backoff =
     (let d = (if ok then po_interval p else backoff);
          next = (if ok then po_retry_min p else min (backoff * 2) (po_retry_max p));
          d1 = (case custom of Some f \<Rightarrow> f d | None \<Rightarrow> if ok then d else d + rand mod max 1 (d div 5));
          d2 = (if d1 < 1000000 \<or> d1 > po_interval p + po_retry_max p then po_interval p else d1) in
      (d2, next))"

end
