(* ===== verification/Usage_Props.thy ===== *)
theory Usage_Props
  imports Usage_Store
begin

text \<open>
  The books of the usage store under interleaved updates, and what a reader finds after an update.
\<close>

section \<open>The invariant\<close>

definition usage_value_ok :: "usage_limits \<Rightarrow> (string, container_usage) gomap \<Rightarrow> int \<Rightarrow> bool" where
  "usage_value_ok L values n \<longleftrightarrow> distinct (keys_of values) \<and> int (length values) \<le> ul_cluster_entries L
     \<and> n = sum_list (map (\<lambda>(uid, _). int (length uid) + usage_overhead) values) \<and> n \<le> ul_cluster_bytes L"

definition build_ok :: "usage_limits \<Rightarrow> usage_snapshot option \<Rightarrow> usage_build \<Rightarrow> bool" where
  "build_ok L old b \<longleftrightarrow> usage_value_ok L (ub_values b) (ub_bytes b)
     \<and> ub_entry_delta b = int (length (ub_values b)) - snap_entries old \<and> ub_byte_delta b = ub_bytes b - snap_bytes old"

definition usage_cluster_ok :: "usage_limits \<Rightarrow> usage_cluster \<Rightarrow> bool" where
  "usage_cluster_ok L c \<longleftrightarrow> (\<forall>s. uc_value c = Some s \<longrightarrow> usage_value_ok L (un_values s) (un_bytes s))
     \<and> (\<forall>b. uc_build c = Some b \<longrightarrow> build_ok L (uc_value c) b)"

abbreviation held_entries :: "usage_cluster \<Rightarrow> int" where "held_entries c \<equiv> snap_entries (uc_value c)"
abbreviation held_bytes :: "usage_cluster \<Rightarrow> int" where "held_bytes c \<equiv> snap_bytes (uc_value c)"

abbreviation kept_entries :: "usage_cluster \<Rightarrow> int" where
  "kept_entries c \<equiv> part (\<lambda>b. max 0 (ub_entry_delta b)) (uc_build c)"
abbreviation kept_bytes :: "usage_cluster \<Rightarrow> int" where
  "kept_bytes c \<equiv> part (\<lambda>b. max 0 (ub_byte_delta b)) (uc_build c)"
abbreviation built_entries :: "usage_cluster \<Rightarrow> int" where
  "built_entries c \<equiv> part (\<lambda>b. int (length (ub_values b))) (uc_build c)"
abbreviation built_bytes :: "usage_cluster \<Rightarrow> int" where
  "built_bytes c \<equiv> part ub_bytes (uc_build c)"

definition usage_ok :: "usage_store \<Rightarrow> bool" where
  "usage_ok u \<longleftrightarrow> usage_limits_valid (us_limits u) \<and> distinct (keys_of (us_clusters u))
     \<and> (\<forall>(i, c) \<in> set (us_clusters u). usage_cluster_ok (us_limits u) c)
     \<and> us_total_entries u = msum held_entries (us_clusters u) \<and> us_total_bytes u = msum held_bytes (us_clusters u)
     \<and> us_reserved_entries u = msum kept_entries (us_clusters u) \<and> us_reserved_bytes u = msum kept_bytes (us_clusters u)
     \<and> us_build_entries u = msum built_entries (us_clusters u) \<and> us_build_bytes u = msum built_bytes (us_clusters u)
     \<and> us_total_entries u + us_reserved_entries u \<le> ul_entries (us_limits u)
     \<and> us_total_bytes u + us_reserved_bytes u \<le> ul_bytes (us_limits u)
     \<and> us_total_entries u + us_build_entries u \<le> ul_peak_entries (us_limits u)
     \<and> us_total_bytes u + us_build_bytes u \<le> ul_peak_bytes (us_limits u)"

lemma usage_bytes_sum:
  "usage_bytes L vs n = Inr m \<Longrightarrow>
    m = n + sum_list (map (\<lambda>(uid, _). int (length uid) + usage_overhead) vs) \<and> (n \<le> ul_cluster_bytes L \<longrightarrow> m \<le> ul_cluster_bytes L)"
  by (induction L vs n rule: usage_bytes.induct) (auto simp: Let_def split: if_splits)

lemma put_in: "(k, v) \<in> set (put i x m) \<Longrightarrow> v = x \<or> (k, v) \<in> set m"
  by (induction m) (auto split: if_splits)

lemma usage_cluster_okD: "\<lbrakk>usage_ok u; map_of (us_clusters u) i = Some c\<rbrakk> \<Longrightarrow> usage_cluster_ok (us_limits u) c"
  by (auto simp: usage_ok_def dest: map_of_SomeD)

lemma usage_ok_limits:
  assumes "usage_ok u"
  shows "us_total_entries u + us_reserved_entries u \<le> ul_entries (us_limits u)"
    "us_total_bytes u + us_reserved_bytes u \<le> ul_bytes (us_limits u)"
    "us_total_entries u + us_build_entries u \<le> ul_peak_entries (us_limits u)"
    "us_total_bytes u + us_build_bytes u \<le> ul_peak_bytes (us_limits u)"
  using assms by (simp_all add: usage_ok_def)

lemma usage_ok_put:
  assumes ok: "usage_ok u" and c: "map_of (us_clusters u) i = Some c" and c': "usage_cluster_ok (us_limits u) c'"
    and u': "us_clusters u' = put i c' (us_clusters u)" "us_limits u' = us_limits u"
      "us_total_entries u' = us_total_entries u + (held_entries c' - held_entries c)"
      "us_total_bytes u' = us_total_bytes u + (held_bytes c' - held_bytes c)"
      "us_reserved_entries u' = us_reserved_entries u + (kept_entries c' - kept_entries c)"
      "us_reserved_bytes u' = us_reserved_bytes u + (kept_bytes c' - kept_bytes c)"
      "us_build_entries u' = us_build_entries u + (built_entries c' - built_entries c)"
      "us_build_bytes u' = us_build_bytes u + (built_bytes c' - built_bytes c)"
    and lim: "us_total_entries u' + us_reserved_entries u' \<le> ul_entries (us_limits u)"
      "us_total_bytes u' + us_reserved_bytes u' \<le> ul_bytes (us_limits u)"
      "us_total_entries u' + us_build_entries u' \<le> ul_peak_entries (us_limits u)"
      "us_total_bytes u' + us_build_bytes u' \<le> ul_peak_bytes (us_limits u)"
  shows "usage_ok u'"
proof -
  have d: "distinct (keys_of (us_clusters u))" using ok by (simp add: usage_ok_def)
  have "\<forall>(k, x) \<in> set (us_clusters u'). usage_cluster_ok (us_limits u') x"
    using ok c' u'(1,2) by (auto simp: usage_ok_def dest!: put_in)
  then show ?thesis
    using ok u' lim d c by (simp add: usage_ok_def msum_put)
qed

lemma begin_update_ok:
  assumes ok: "usage_ok u" and d: "distinct (keys_of values)"
  shows "usage_ok (fst (begin_update i values u))"
proof (cases "snd (begin_update i values u) = Usage_building")
  case False
  then have "fst (begin_update i values u) = u"
    by (auto simp: begin_update_def Let_def split: option.splits sum.splits if_splits)
  with ok show ?thesis by simp
next
  case True
  then obtain c n where c: "map_of (us_clusters u) i = Some c" and n: "usage_bytes (us_limits u) values 0 = Inr n"
    and few: "int (length values) \<le> ul_cluster_entries (us_limits u)" and idle: "uc_build c = None"
    by (auto simp: begin_update_def Let_def split: option.splits sum.splits if_splits)
  have L: "usage_limits_valid (us_limits u)" using ok by (simp add: usage_ok_def)
  then have "0 \<le> ul_cluster_bytes (us_limits u)" by (simp add: usage_limits_valid_def usage_overhead_def)
  then have vals: "usage_value_ok (us_limits u) values n"
    using usage_bytes_sum [OF n] few d by (simp add: usage_value_ok_def)
  let ?b = "\<lparr>ub_values = values, ub_bytes = n, ub_entry_delta = int (length values) - held_entries c,
    ub_byte_delta = n - held_bytes c\<rparr>"
  have "usage_cluster_ok (us_limits u) (c\<lparr>uc_build := Some ?b\<rparr>)"
    using usage_cluster_okD [OF ok c] vals by (simp add: usage_cluster_ok_def build_ok_def)
  then show ?thesis
    using True c n few idle
    by (intro usage_ok_put [OF ok c, of "c\<lparr>uc_build := Some ?b\<rparr>"]) (auto simp: begin_update_def Let_def split: if_splits)
qed

lemma finish_update_ok:
  assumes ok: "usage_ok u"
  shows "usage_ok (finish_update i u)"
proof (cases "\<exists>c b. map_of (us_clusters u) i = Some c \<and> uc_build c = Some b")
  case False
  then have "finish_update i u = u" by (auto simp: finish_update_def split: option.split)
  with ok show ?thesis by simp
next
  case True
  then obtain c b where c: "map_of (us_clusters u) i = Some c" and b: "uc_build c = Some b" by blast
  have bok: "build_ok (us_limits u) (uc_value c) b"
    using usage_cluster_okD [OF ok c] b by (simp add: usage_cluster_ok_def)
  let ?c = "\<lparr>uc_value = Some \<lparr>un_values = ub_values b, un_bytes = ub_bytes b\<rparr>, uc_build = None\<rparr>"
  have "usage_cluster_ok (us_limits u) ?c" using bok by (simp add: usage_cluster_ok_def build_ok_def)
  moreover have "held_entries c \<ge> 0" by (simp add: snap_entries_def split: option.split)
  moreover have "held_bytes c \<ge> 0"
    using usage_cluster_okD [OF ok c]
    by (auto simp: snap_bytes_def usage_cluster_ok_def usage_value_ok_def usage_overhead_def intro!: sum_list_nonneg split: option.split)
  moreover have "held_entries ?c = int (length (ub_values b))" "held_bytes ?c = ub_bytes b"
    by (simp_all add: snap_entries_def snap_bytes_def)
  ultimately show ?thesis
    using c b bok usage_ok_limits [OF ok]
    by (intro usage_ok_put [OF ok c, of ?c]) (simp_all add: finish_update_def build_ok_def)
qed

lemma usage_step_ok: "usage_ok u \<Longrightarrow> usage_ok (usage_step op u)"
  by (cases op) (simp_all add: begin_update_ok finish_update_ok)

lemma usage_limits_step: "us_limits (usage_step op u) = us_limits u"
  by (cases op) (auto simp: begin_update_def finish_update_def Let_def split: option.split sum.split)

lemma usage_clusters_empty:
  "\<lbrakk>usage_clusters m ids = Inr m'; distinct (keys_of m); \<forall>(i, c) \<in> set m. c = \<lparr>uc_value = None, uc_build = None\<rparr>\<rbrakk>
    \<Longrightarrow> distinct (keys_of m') \<and> (\<forall>(i, c) \<in> set m'. c = \<lparr>uc_value = None, uc_build = None\<rparr>)"
proof (induction m ids rule: usage_clusters.induct)
  case (2 m i "is")
  then show ?case by (auto split: if_splits dest!: put_in)
qed simp

lemma new_usage_ok:
  assumes "new_usage_store ids L = Inr u"
  shows "usage_ok u"
proof -
  obtain m where m: "usage_clusters [] ids = Inr m" and L: "usage_limits_valid L"
    and u: "us_clusters u = m" "us_limits u = L" "us_total_entries u = 0" "us_total_bytes u = 0" "us_build_entries u = 0"
      "us_build_bytes u = 0" "us_reserved_entries u = 0" "us_reserved_bytes u = 0"
    using assms by (auto simp: new_usage_store_def split: if_splits sum.splits)
  have e: "distinct (keys_of m)" "\<And>i c. (i, c) \<in> set m \<Longrightarrow> c = \<lparr>uc_value = None, uc_build = None\<rparr>"
    using usage_clusters_empty [OF m] by auto
  have z: "msum f m = 0" if "f \<lparr>uc_value = None, uc_build = None\<rparr> = 0" for f
  proof -
    have "map (f \<circ> snd) m = map (\<lambda>_. 0) m" using e(2) that by (intro map_cong) auto
    then show ?thesis unfolding msum_def by (simp only:) (induction m, simp_all)
  qed
  have "\<forall>(i, c) \<in> set m. usage_cluster_ok L c" using e(2) by (fastforce simp: usage_cluster_ok_def)
  then show ?thesis
    using L e(1) by (simp add: usage_ok_def u z snap_entries_def snap_bytes_def usage_limits_valid_def usage_overhead_def)
qed

text \<open>A map that agrees with another on its own keys, and has as many, is the other map.\<close>

lemma map_of_eq_by_length:
  assumes "distinct (keys_of m)" "distinct (keys_of n)" "length m = length n"
    and "\<And>k v. (k, v) \<in> set m \<Longrightarrow> map_of m k = map_of n k"
  shows "map_of m = map_of n"
proof
  fix k
  have "set (keys_of m) \<subseteq> set (keys_of n)"
  proof
    fix k assume "k \<in> set (keys_of m)"
    then obtain v where kv: "(k, v) \<in> set m" by auto
    have "map_of n k = Some v" using assms(4) [OF kv] map_of_is_SomeI [OF assms(1) kv] by simp
    then show "k \<in> set (keys_of n)" by (metis keys_map_of option.simps(3))
  qed
  moreover have "card (set (keys_of m)) = card (set (keys_of n))"
    using assms(1-3) by (metis distinct_card length_map)
  ultimately have keys: "set (keys_of m) = set (keys_of n)" by (simp add: card_subset_eq)
  show "map_of m k = map_of n k"
  proof (cases "k \<in> set (keys_of m)")
    case True
    then show ?thesis using assms(4) by auto
  next
    case False
    with keys show ?thesis by (metis keys_map_of)
  qed
qed

section \<open>The contracts\<close>

lemma held_nonneg:
  assumes "usage_ok u"
  shows "0 \<le> msum held_entries (us_clusters u)" "0 \<le> msum held_bytes (us_clusters u)"
    "0 \<le> msum kept_entries (us_clusters u)" "0 \<le> msum kept_bytes (us_clusters u)"
proof -
  have "0 \<le> held_bytes c" if "(i, c) \<in> set (us_clusters u)" for i c
    using assms that by (fastforce simp: usage_ok_def usage_cluster_ok_def usage_value_ok_def snap_bytes_def
        usage_overhead_def intro!: sum_list_nonneg split: option.split)
  then show "0 \<le> msum held_bytes (us_clusters u)" by (rule msum_nonneg)
qed (auto intro!: msum_nonneg simp: snap_entries_def part_def split: option.split)

interpretation usage_entries: ledger usage_step usage_ok us_total_entries
  "\<lambda>u. msum held_entries (us_clusters u)" "\<lambda>u. ul_entries (us_limits u)"
proof
  fix u op
  show "usage_ok u \<Longrightarrow> usage_ok (usage_step op u)" by (rule usage_step_ok)
  show "usage_ok u \<Longrightarrow> us_total_entries u = msum held_entries (us_clusters u)" by (simp add: usage_ok_def)
  show "usage_ok u \<Longrightarrow> 0 \<le> us_total_entries u \<and> us_total_entries u \<le> ul_entries (us_limits u)"
    using held_nonneg [of u] usage_ok_limits(1) [of u] by (simp add: usage_ok_def)
  show "ul_entries (us_limits (usage_step op u)) = ul_entries (us_limits u)" by (simp add: usage_limits_step)
qed

interpretation usage_room: ledger usage_step usage_ok us_total_bytes
  "\<lambda>u. msum held_bytes (us_clusters u)" "\<lambda>u. ul_bytes (us_limits u)"
proof unfold_locales
  fix u op
  show "usage_ok u \<Longrightarrow> us_total_bytes u = msum held_bytes (us_clusters u)" by (simp add: usage_ok_def)
  show "usage_ok u \<Longrightarrow> 0 \<le> us_total_bytes u \<and> us_total_bytes u \<le> ul_bytes (us_limits u)"
    using held_nonneg [of u] usage_ok_limits(2) [of u] by (simp add: usage_ok_def)
  show "ul_bytes (us_limits (usage_step op u)) = ul_bytes (us_limits u)" by (simp add: usage_limits_step)
qed

section \<open>Properties\<close>

text \<open>
  (C33) However the updates of the clusters interleave, what the store reports as retained is the sum over its
  clusters and within the global limits, no cluster holds more than its own limits, and the snapshots that
  are held and those being built stay within the peak limits together.
\<close>

theorem usage_within_limits:
  assumes new: "new_usage_store ids L = Inr u0" and u: "u = fold usage_step ops u0"
  shows "usage_retained u = (msum held_entries (us_clusters u), msum held_bytes (us_clusters u))
    \<and> fst (usage_retained u) \<le> ul_entries L \<and> snd (usage_retained u) \<le> ul_bytes L
    \<and> (\<forall>i c. map_of (us_clusters u) i = Some c \<longrightarrow> held_entries c \<le> ul_cluster_entries L \<and> held_bytes c \<le> ul_cluster_bytes L)
    \<and> msum held_entries (us_clusters u) + msum built_entries (us_clusters u) \<le> ul_peak_entries L
    \<and> msum held_bytes (us_clusters u) + msum built_bytes (us_clusters u) \<le> ul_peak_bytes L"
proof -
  have ok0: "usage_ok u0" by (rule new_usage_ok [OF new])
  have L: "us_limits u0 = L" using new by (auto simp: new_usage_store_def split: if_splits sum.splits)
  have ok: "usage_ok u" unfolding u by (rule usage_entries.run_inv [OF ok0])
  have lim: "us_limits u = L" unfolding u using L by (induction ops arbitrary: u0) (simp_all add: usage_limits_step)
  have "held_entries c \<le> ul_cluster_entries L \<and> held_bytes c \<le> ul_cluster_bytes L" if "map_of (us_clusters u) i = Some c" for i c
    using usage_cluster_okD [OF ok that] ok lim
    by (auto simp: usage_cluster_ok_def usage_value_ok_def snap_entries_def snap_bytes_def usage_ok_def usage_limits_valid_def
        usage_overhead_def split: option.split)
  moreover note usage_entries.run_books [OF ok0, of ops, folded u] usage_room.run_books [OF ok0, of ops, folded u]
    usage_entries.run_within [OF ok0, of ops, folded u] usage_room.run_within [OF ok0, of ops, folded u] usage_ok_limits [OF ok]
  ultimately show ?thesis using ok L lim by (simp add: usage_retained_def usage_ok_def)
qed

text \<open>When no other update runs, an update does one of three things.\<close>

lemma usage_update_cases:
  assumes "usage_update i values u = (u', r)"
  obtains (failed) e where "r = Some e" "u' = u"
  | (same) c n where "r = None" "u' = u" "map_of (us_clusters u) i = Some c" "usage_bytes (us_limits u) values 0 = Inr n"
      "same_usage (uc_value c) values n"
  | (waits) c where "r = None" "u' = u" "map_of (us_clusters u) i = Some c" "uc_build c \<noteq> None"
  | (stored) n where "r = None" "map_of (us_clusters u) i \<noteq> None"
      "us_clusters u' = put i \<lparr>uc_value = Some \<lparr>un_values = values, un_bytes = n\<rparr>, uc_build = None\<rparr> (us_clusters u)"
  using assms
  by (auto simp: usage_update_def begin_update_def finish_update_def Let_def split: option.splits sum.splits if_splits)

text \<open>
  (C34) A refused update changes nothing. After an accepted one the reads of its cluster are those of the new
  values, and the reads of the other clusters are unchanged, provided that no container with zero usage
  is new: the comparison with the old snapshot takes a missing container for one with zero usage, and then keeps the
  old snapshot (\<open>usage_update_lost\<close> is an instance).
\<close>

theorem usage_update_stores:
  assumes ok: "usage_ok u" and idle: "\<forall>c. map_of (us_clusters u) i = Some c \<longrightarrow> uc_build c = None"
    and d: "distinct (keys_of values)" and run: "usage_update i values u = (u', r)"
    and old: "\<forall>uid. map_of values uid = Some zero_usage \<longrightarrow> usage_lookup u i uid \<noteq> None"
  shows "(r \<noteq> None \<longrightarrow> u' = u) \<and> (r = None \<longrightarrow> usage_lookup u' i = map_of values)
    \<and> (j \<noteq> i \<longrightarrow> usage_lookup u' j = usage_lookup u j)"
  using run
proof (cases rule: usage_update_cases)
  case (same c n)
  then obtain s where s: "uc_value c = Some s" and len: "length (un_values s) = length values"
    and all: "list_all (\<lambda>(uid, v). (case map_of (un_values s) uid of None \<Rightarrow> zero_usage | Some w \<Rightarrow> w) = v) values"
    by (auto simp: same_usage_def split: option.splits)
  have eq: "(case map_of (un_values s) uid of None \<Rightarrow> zero_usage | Some w \<Rightarrow> w) = v" if "(uid, v) \<in> set values" for uid v
    using all that by (fastforce simp: list_all_iff)
  have ds: "distinct (keys_of (un_values s))"
    using usage_cluster_okD [OF ok same(3)] s by (simp add: usage_cluster_ok_def usage_value_ok_def)
  have "map_of values uid = map_of (un_values s) uid" if "(uid, v) \<in> set values" for uid v
    using eq [OF that] old map_of_is_SomeI [OF d that] same(3) s by (auto simp: usage_lookup_def split: option.splits)
  then have "map_of values = map_of (un_values s)" by (rule map_of_eq_by_length [OF d ds len [symmetric]])
  with same s show ?thesis by (simp add: usage_lookup_def fun_eq_iff)
qed (use idle in \<open>auto simp: usage_lookup_def fun_eq_iff\<close>)

section \<open>Witnesses\<close>

definition demo_limits :: usage_limits where
  "demo_limits = \<lparr>ul_cluster_entries = 2, ul_entries = 3, ul_cluster_bytes = 400, ul_bytes = 600, ul_peak_entries = 6,
     ul_peak_bytes = 1200\<rparr>"

definition demo_usage :: usage_store where
  "demo_usage = (case new_usage_store [''a'', ''b''] demo_limits of
     Inr u \<Rightarrow> fold usage_step [Begin_update ''a'' [(''pod1'', \<lparr>cu_cpu = 5, cu_memory = 7\<rparr>)], Finish_update ''a''] u)"

lemma demo_usage_ok: "usage_ok demo_usage"
proof -
  obtain u where u: "new_usage_store [''a'', ''b''] demo_limits = Inr u" by (cases "new_usage_store [''a'', ''b''] demo_limits") (code_simp, blast)
  show ?thesis
    unfolding demo_usage_def u by (simp del: fold_simps fold.simps) (rule usage_entries.run_inv [OF new_usage_ok [OF u]])
qed

text \<open>The pod is replaced by one without usage, under a name of the same length: the update is accepted and lost.\<close>

lemma usage_update_lost:
  "usage_update ''a'' [(''pod2'', zero_usage)] demo_usage = (demo_usage, None)
    \<and> usage_lookup demo_usage ''a'' ''pod2'' = None
    \<and> usage_lookup demo_usage ''a'' ''pod1'' = Some \<lparr>cu_cpu = 5, cu_memory = 7\<rparr>"
  by code_simp

theorem usage_within_limits_witness:
  "\<exists>u. new_usage_store [''a'', ''b''] demo_limits = Inr u
    \<and> fst (usage_retained (fold usage_step [Begin_update ''a'' [(''pod1'', zero_usage)]] u)) \<le> ul_entries demo_limits"
proof -
  obtain u where u: "new_usage_store [''a'', ''b''] demo_limits = Inr u"
    by (cases "new_usage_store [''a'', ''b''] demo_limits") (code_simp, blast)
  with usage_within_limits [OF u refl, of "[Begin_update ''a'' [(''pod1'', zero_usage)]]"] show ?thesis by blast
qed

theorem usage_update_stores_witness:
  "usage_lookup (fst (usage_update ''a'' [(''pod2'', \<lparr>cu_cpu = 1, cu_memory = 1\<rparr>)] demo_usage)) ''a''
    = map_of [(''pod2'', \<lparr>cu_cpu = 1, cu_memory = 1\<rparr>)]"
proof -
  let ?v = "[(''pod2'', \<lparr>cu_cpu = 1, cu_memory = 1\<rparr>)]"
  have "list_all (\<lambda>(_, c). uc_build c = None) (us_clusters demo_usage)" by code_simp
  then have idle: "\<forall>c. map_of (us_clusters demo_usage) ''a'' = Some c \<longrightarrow> uc_build c = None"
    by (auto simp: list_all_iff dest!: map_of_SomeD)
  have old: "\<forall>uid. map_of ?v uid = Some zero_usage \<longrightarrow> usage_lookup demo_usage ''a'' uid \<noteq> None"
    by (simp add: zero_usage_def)
  have "snd (usage_update ''a'' ?v demo_usage) = None" by code_simp
  then show ?thesis
    using usage_update_stores [OF demo_usage_ok idle _ prod.collapse [symmetric] old, of "''a''"] by simp
qed

end
