(* ===== verification/Access_Scope.thy ===== *)
theory Access_Scope
  imports Prelude_Go "HOL-Library.List_Lexorder" "HOL-Library.Char_ord"
begin

text \<open>
  Who may see what: the scope of a request (\<open>internal/scope/scope.go\<close>) and its computation from the roles of a
  verified token (\<open>internal/auth/roles.go\<close>). A role is \<open>platform.admin\<close>, \<open>cluster.viewer\<close> with an optional cluster,
  \<open>namespace.viewer\<close> with a namespace or a cluster and a namespace, or \<open>dashboard.editor\<close>; everything else is ignored.
  The order in which the code ranges over its maps does not matter, since it sorts the outcome.
\<close>

section \<open>Scopes\<close>

record access_cluster =
  ac_id :: string
  ac_name :: string
  ac_namespaces :: "string list"
  ac_all :: bool

record access_scope =
  sc_subject :: string
  sc_edit_dashboard :: bool
  sc_publish_dashboard :: bool
  sc_edit_topology :: bool
  sc_manage_workloads :: bool
  sc_explore_resources :: bool
  sc_clusters :: "access_cluster list"

definition allows_namespace :: "access_cluster \<Rightarrow> string \<Rightarrow> bool" where
  "allows_namespace c ns = (if ac_all c then True else ns \<in> set (ac_namespaces c))"

definition accessible :: "access_cluster \<Rightarrow> bool" where
  "accessible c = (ac_all c \<or> ac_namespaces c \<noteq> [])"

datatype namespaces_json = All_namespaces | Namespaces "string list"

definition namespaces_json_of :: "access_cluster \<Rightarrow> namespaces_json" where
  "namespaces_json_of c = (if ac_all c then All_namespaces else Namespaces (sort (ac_namespaces c)))"

definition scope_cluster :: "access_scope \<Rightarrow> string \<Rightarrow> access_cluster option" where
  "scope_cluster s i = List.find (\<lambda>c. ac_id c = i) (sc_clusters s)"

text \<open>\<open>strings.TrimSpace\<close>: the white space of Unicode, in its encodings.\<close>

definition white_space :: "string list" where
  "white_space =
     map (\<lambda>n. [char_of n]) [9, 10, 11, 12, 13, 32 :: nat]
     @ map (map char_of) ([[0xC2, 0x85], [0xC2, 0xA0], [0xE1, 0x9A, 0x80]] @ map (\<lambda>n. [0xE2, 0x80, n]) [0x80 ..< 0x8B]
         @ [[0xE2, 0x80, 0xA8], [0xE2, 0x80, 0xA9], [0xE2, 0x80, 0xAF], [0xE2, 0x81, 0x9F], [0xE3, 0x80, 0x80 :: nat]])"

function trim_left :: "string list \<Rightarrow> string \<Rightarrow> string" where
  "trim_left ws s =
     (case List.find (\<lambda>w. w \<noteq> [] \<and> has_prefix s w) ws of
        None \<Rightarrow> s
      | Some w \<Rightarrow> trim_left ws (drop (length w) s))"
  by pat_completeness auto
termination
proof (relation "measure (\<lambda>(_, s). length s)")
  fix ws :: "string list" and s w :: string
  assume "List.find (\<lambda>w. w \<noteq> [] \<and> has_prefix s w) ws = Some w"
  then have "w \<noteq> []" "has_prefix s w" by (auto simp: find_Some_iff)
  then show "((ws, drop (length w) s), (ws, s)) \<in> measure (\<lambda>(_, s). length s)"
    by (cases s) (auto simp: has_prefix_iff)
qed simp

declare trim_left.simps [simp del]

definition trim_space :: "string \<Rightarrow> string" where
  "trim_space s = rev (trim_left (map rev white_space) (rev (trim_left white_space s)))"

definition parse_namespaces :: "string \<Rightarrow> string list \<times> bool" where
  "parse_namespaces v0 =
     (let v = trim_space v0 in
      if v = '''' \<or> v = ''*'' \<or> v = ''all'' then ([], True)
      else (sort (filter (\<lambda>p. p \<noteq> '''') (map trim_space (str_split (CHR '','') v))), False))"

section \<open>Roles\<close>

record auth_claims =
  jc_subject :: string
  jc_email :: string
  jc_username :: string
  jc_roles :: "string list"

record principal =
  pr_subject :: string
  pr_email :: string
  pr_username :: string
  pr_roles :: "string list"
  pr_can_edit :: bool
  pr_can_publish :: bool

abbreviation "RolePlatformAdmin \<equiv> ''platform.admin''"
abbreviation "RoleClusterViewer \<equiv> ''cluster.viewer''"
abbreviation "RoleNamespaceViewer \<equiv> ''namespace.viewer''"
abbreviation "RoleDashboardEditor \<equiv> ''dashboard.editor''"

definition map_roles :: "string list \<Rightarrow> (string, string) gomap \<Rightarrow> string list" where
  "map_roles roles m =
     (if m = [] \<or> roles = [] then roles
      else map (\<lambda>role. case map_of m role of Some mapped \<Rightarrow> mapped | None \<Rightarrow> role) roles)"

definition principal_name :: "principal \<Rightarrow> string" where
  "principal_name p =
     (if pr_username p \<noteq> '''' then pr_username p else if pr_email p \<noteq> '''' then pr_email p else pr_subject p)"

text \<open>What the loop over the roles collects in \<open>ScopeFor\<close>.\<close>

record role_state =
  rs_all :: bool
  rs_admin :: bool
  rs_edit :: bool
  rs_publish :: bool
  rs_namespaces :: "string list"

definition no_roles :: role_state where
  "no_roles = \<lparr>rs_all = False, rs_admin = False, rs_edit = False, rs_publish = False, rs_namespaces = []\<rparr>"

definition add_namespace :: "string \<Rightarrow> role_state \<Rightarrow> role_state" where
  "add_namespace ns st = st\<lparr>rs_namespaces := List.insert ns (rs_namespaces st)\<rparr>"

definition apply_role :: "string \<Rightarrow> string \<Rightarrow> role_state \<Rightarrow> role_state" where
  "apply_role cluster_id role st =
     (case str_cut role (CHR '':'') of (name, arg, has_arg) \<Rightarrow>
      if name = RolePlatformAdmin then
        (if \<not> has_arg then st\<lparr>rs_all := True, rs_admin := True, rs_publish := True\<rparr> else st)
      else if name = RoleDashboardEditor then (if \<not> has_arg then st\<lparr>rs_edit := True\<rparr> else st)
      else if name = RoleClusterViewer then
        (if \<not> has_arg \<or> (arg \<noteq> '''' \<and> arg = cluster_id) then st\<lparr>rs_all := True\<rparr> else st)
      else if name = RoleNamespaceViewer then
        (if arg = '''' then st
         else (case str_cut arg (CHR ''/'') of (cid, ns, has_cluster) \<Rightarrow>
           if \<not> has_cluster then add_namespace cid st
           else if cid = cluster_id \<and> ns \<noteq> '''' then add_namespace ns st else st))
      else st)"

definition scope_for :: "auth_claims \<Rightarrow> string \<Rightarrow> string \<Rightarrow> principal \<times> access_scope" where
  "scope_for claims cluster_id cluster_name0 =
     (let cluster_name = (if cluster_name0 = '''' then cluster_id else cluster_name0);
          st = fold (apply_role cluster_id) (jc_roles claims) no_roles;
          c = \<lparr>ac_id = cluster_id, ac_name = cluster_name,
               ac_namespaces = (if rs_all st then [] else sort (rs_namespaces st)), ac_all = rs_all st\<rparr> in
      (\<lparr>pr_subject = jc_subject claims, pr_email = jc_email claims, pr_username = jc_username claims,
        pr_roles = jc_roles claims, pr_can_edit = rs_edit st, pr_can_publish = rs_publish st\<rparr>,
       \<lparr>sc_subject = jc_subject claims, sc_edit_dashboard = rs_edit st, sc_publish_dashboard = rs_publish st,
        sc_edit_topology = rs_admin st, sc_manage_workloads = rs_admin st, sc_explore_resources = rs_admin st,
        sc_clusters = [c]\<rparr>))"

text \<open>\<open>ScopeForCentral\<close>: the configured clusters by identity (a later one of the same identity wins), and the
  access that the roles open so far.\<close>

definition known_clusters :: "access_cluster list \<Rightarrow> (string, access_cluster) gomap" where
  "known_clusters configured =
     fold (\<lambda>c m. put (ac_id c) (if ac_name c = '''' then c\<lparr>ac_name := ac_id c\<rparr> else c) m) configured []"

type_synonym access_map = "(string, access_cluster) gomap"

text \<open>\<open>get\<close>, then a change of the cluster it answers.\<close>

definition with_access :: "access_map \<Rightarrow> string \<Rightarrow> (access_cluster \<Rightarrow> access_cluster) \<Rightarrow> access_map \<Rightarrow> access_map" where
  "with_access known i f acc =
     (case map_of acc i of
        Some c \<Rightarrow> put i (f c) acc
      | None \<Rightarrow> (case map_of known i of
          None \<Rightarrow> acc
        | Some base \<Rightarrow> put i (f (base\<lparr>ac_all := False, ac_namespaces := []\<rparr>)) acc))"

record central_state =
  ct_access :: access_map
  ct_admin :: bool
  ct_edit :: bool
  ct_publish :: bool

definition open_all :: "access_cluster \<Rightarrow> access_cluster" where
  "open_all c = c\<lparr>ac_all := True\<rparr>"

definition open_namespace :: "string \<Rightarrow> access_cluster \<Rightarrow> access_cluster" where
  "open_namespace ns c = c\<lparr>ac_namespaces := ac_namespaces c @ [ns]\<rparr>"

definition central_role :: "access_map \<Rightarrow> string \<Rightarrow> central_state \<Rightarrow> central_state" where
  "central_role known role st =
     (case str_cut role (CHR '':'') of (name, arg, has_arg) \<Rightarrow>
      if name = RolePlatformAdmin then
        (if \<not> has_arg
         then st\<lparr>ct_access := fold (\<lambda>i. with_access known i open_all) (keys_of known) (ct_access st),
                ct_admin := True, ct_publish := True\<rparr>
         else st)
      else if name = RoleDashboardEditor then (if \<not> has_arg then st\<lparr>ct_edit := True\<rparr> else st)
      else if name = RoleClusterViewer then
        (if has_arg \<and> arg \<noteq> '''' then st\<lparr>ct_access := with_access known arg open_all (ct_access st)\<rparr> else st)
      else if name = RoleNamespaceViewer then
        (if \<not> has_arg then st
         else (case str_cut arg (CHR ''/'') of (cid, ns, ok) \<Rightarrow>
           if ok \<and> ns \<noteq> '''' then st\<lparr>ct_access := with_access known cid (open_namespace ns) (ct_access st)\<rparr> else st))
      else st)"

text \<open>\<open>unique\<close> drops repetitions next to each other.\<close>

fun unique_sorted :: "string list \<Rightarrow> string list" where
  "unique_sorted (x # y # xs) = (if x = y then unique_sorted (y # xs) else x # unique_sorted (y # xs))"
| "unique_sorted xs = xs"

definition scope_for_central :: "auth_claims \<Rightarrow> access_cluster list \<Rightarrow> principal \<times> access_scope" where
  "scope_for_central claims configured =
     (let known = known_clusters configured;
          st = fold (central_role known) (jc_roles claims) \<lparr>ct_access = [], ct_admin = False, ct_edit = False, ct_publish = False\<rparr>;
          out = map (\<lambda>(_, c). c\<lparr>ac_namespaces := unique_sorted (sort (ac_namespaces c))\<rparr>) (ct_access st) in
      (\<lparr>pr_subject = jc_subject claims, pr_email = jc_email claims, pr_username = jc_username claims,
        pr_roles = jc_roles claims, pr_can_edit = ct_edit st, pr_can_publish = ct_publish st\<rparr>,
       \<lparr>sc_subject = jc_subject claims, sc_edit_dashboard = ct_edit st, sc_publish_dashboard = ct_publish st,
        sc_edit_topology = ct_admin st, sc_manage_workloads = ct_admin st, sc_explore_resources = ct_admin st,
        sc_clusters = sort_key ac_id out\<rparr>))"

section \<open>The gate of the handlers\<close>

text \<open>\<open>authorize\<close> and \<open>namespaceFilter\<close> of \<open>internal/httpapi/server.go\<close>.\<close>

definition authorize :: "access_scope \<Rightarrow> string \<Rightarrow> access_cluster option" where
  "authorize s i = (case scope_cluster s i of None \<Rightarrow> None | Some c \<Rightarrow> if accessible c then Some c else None)"

definition namespace_filter :: "access_cluster \<Rightarrow> string \<Rightarrow> (bool \<times> string list) option" where
  "namespace_filter c requested =
     (if requested = '''' \<or> requested = ''all'' then Some (ac_all c, ac_namespaces c)
      else if \<not> allows_namespace c requested then None
      else Some (False, [requested]))"

end
