(* ===== verification/Scope_Props.thy ===== *)
theory Scope_Props
  imports Access_Scope
begin

text \<open>What the roles of a token open, and nothing else: the scope that is computed is the one that the roles name.\<close>

section \<open>Roles and scopes as relations\<close>

definition role_opens :: "string \<Rightarrow> string \<Rightarrow> string \<Rightarrow> bool" where
  "role_opens role i ns \<longleftrightarrow>
     role = RolePlatformAdmin \<or> (i \<noteq> '''' \<and> role = RoleClusterViewer @ '':'' @ i)
     \<or> (ns \<noteq> '''' \<and> role = RoleNamespaceViewer @ '':'' @ i @ ''/'' @ ns)"

definition opens :: "access_map \<Rightarrow> string \<Rightarrow> string \<Rightarrow> bool" where
  "opens acc i ns \<longleftrightarrow> (\<exists>c. map_of acc i = Some c \<and> allows_namespace c ns)"

definition access_ok :: "access_map \<Rightarrow> access_map \<Rightarrow> bool" where
  "access_ok known acc \<longleftrightarrow> distinct (keys_of acc) \<and> (\<forall>(i, c) \<in> set acc. ac_id c = i) \<and> fst ` set acc \<subseteq> fst ` set known"

lemma put_entry_cases: "(k, v) \<in> set (put i x m) \<Longrightarrow> (k = i \<and> v = x) \<or> (k, v) \<in> set m"
  by (induction m) (auto split: if_splits)

lemma access_ok_put: "\<lbrakk>access_ok known acc; ac_id c = i; i \<in> fst ` set known\<rbrakk> \<Longrightarrow> access_ok known (put i c acc)"
  by (auto simp: access_ok_def dest!: put_entry_cases)

lemma access_okD: "\<lbrakk>access_ok known acc; (i, c) \<in> set acc\<rbrakk> \<Longrightarrow> ac_id c = i \<and> i \<in> fst ` set known"
  unfolding access_ok_def by force

lemma with_access_ok:
  assumes "access_ok known acc" "access_ok known known" "\<And>c. ac_id (f c) = ac_id c"
  shows "access_ok known (with_access known i f acc)"
  unfolding with_access_def
proof (cases "map_of acc i")
  case (Some c)
  then have "ac_id c = i" "i \<in> fst ` set known"
    using access_okD [OF assms(1) map_of_SomeD [OF Some]] by simp_all
  with Some assms(1,3) show "access_ok known (case map_of acc i of Some c \<Rightarrow> put i (f c) acc
      | None \<Rightarrow> (case map_of known i of None \<Rightarrow> acc | Some base \<Rightarrow> put i (f (base\<lparr>ac_all := False, ac_namespaces := []\<rparr>)) acc))"
    by (simp add: access_ok_put)
next
  case None
  show "access_ok known (case map_of acc i of Some c \<Rightarrow> put i (f c) acc
      | None \<Rightarrow> (case map_of known i of None \<Rightarrow> acc | Some base \<Rightarrow> put i (f (base\<lparr>ac_all := False, ac_namespaces := []\<rparr>)) acc))"
  proof (cases "map_of known i")
    case none: None
    with None assms(1) show ?thesis by simp
  next
    case (Some base)
    then have "ac_id base = i" "i \<in> fst ` set known"
      using access_okD [OF assms(2) map_of_SomeD [OF Some]] by simp_all
    with None Some assms(1,3) show ?thesis by (simp add: access_ok_put)
  qed
qed

lemma opens_with_access:
  assumes "access_ok known acc"
    and "\<And>c ns. allows_namespace (f c) ns = (allows_namespace c ns \<or> P ns)"
  shows "opens (with_access known i f acc) j ns \<longleftrightarrow> opens acc j ns \<or> (j = i \<and> i \<in> fst ` set known \<and> P ns)"
proof (cases "map_of acc i")
  case (Some c)
  then have "i \<in> fst ` set known" using access_okD [OF assms(1) map_of_SomeD [OF Some]] by simp
  with Some show ?thesis by (auto simp: with_access_def opens_def assms(2))
next
  case None
  show ?thesis
  proof (cases "map_of known i")
    case none: None
    then have "i \<notin> fst ` set known" by (simp add: map_of_eq_None_iff)
    with None none show ?thesis by (simp add: with_access_def)
  next
    case (Some base)
    then have k: "i \<in> fst ` set known" by (metis keys_map_of option.simps(3) set_map)
    show ?thesis
    proof (cases "j = i")
      case True
      have "allows_namespace (f (base\<lparr>ac_all := False, ac_namespaces := []\<rparr>)) ns = P ns"
        unfolding assms(2) by (simp add: allows_namespace_def)
      with True None Some k show ?thesis by (simp add: with_access_def opens_def)
    next
      case False
      with None Some show ?thesis by (simp add: with_access_def opens_def)
    qed
  qed
qed

lemmas opens_all = opens_with_access [where f = open_all and P = "\<lambda>_. True"]
lemmas opens_one = opens_with_access [where f = "open_namespace m" and P = "\<lambda>ns. ns = m" for m]

lemma allows_open [simp]:
  "allows_namespace (open_all c) ns" "ac_id (open_all c) = ac_id c" "ac_id (open_namespace m c) = ac_id c"
  "allows_namespace (open_namespace m c) ns = (allows_namespace c ns \<or> ns = m)"
  by (auto simp: open_all_def open_namespace_def allows_namespace_def)

lemma admin_access:
  assumes "access_ok known acc" "access_ok known known"
  shows "access_ok known (fold (\<lambda>i. with_access known i open_all) is acc)
    \<and> (opens (fold (\<lambda>i. with_access known i open_all) is acc) j ns
       \<longleftrightarrow> opens acc j ns \<or> (j \<in> set is \<and> j \<in> fst ` set known))"
  using assms(1)
proof (induction "is" arbitrary: acc)
  case (Cons i "is")
  have "access_ok known (with_access known i open_all acc)" by (rule with_access_ok [OF Cons.prems assms(2)]) simp
  from Cons.IH [OF this] show ?case by (auto simp: opens_all [OF Cons.prems])
qed simp

section \<open>One role\<close>

lemma role_cut:
  assumes "str_cut role c = (name, arg, has)" "c \<notin> set lit"
  shows "(name = lit \<and> \<not> has) = (role = lit)" "(name = lit \<and> has \<and> arg = x) = (role = lit @ c # x)"
proof -
  show "(name = lit \<and> \<not> has) = (role = lit)"
    using assms str_cut_found [of role c name arg] str_cut_missing [of role c name arg] by (cases has) auto
  show "(name = lit \<and> has \<and> arg = x) = (role = lit @ c # x)"
  proof (cases has)
    case True
    then have "role = name @ c # arg" "c \<notin> set name" using assms(1) str_cut_found [of role c name arg] by simp_all
    then show ?thesis using sep_inject [OF _ assms(2), of name arg x] True by auto
  next
    case False
    then have "c \<notin> set role" using assms(1) str_cut_missing [of role c name arg] by simp
    with False show ?thesis by auto
  qed
qed

lemma central_role_opens:
  assumes ok: "access_ok known (ct_access st)" "access_ok known known" and i: "CHR ''/'' \<notin> set i"
  shows "access_ok known (ct_access (central_role known role st))
    \<and> (opens (ct_access (central_role known role st)) i ns
       \<longleftrightarrow> opens (ct_access st) i ns \<or> (i \<in> fst ` set known \<and> role_opens role i ns))"
proof -
  obtain name arg has where cut: "str_cut role (CHR '':'') = (name, arg, has)" by (metis prod.exhaust)
  obtain cid m ok' where cut2: "str_cut arg (CHR ''/'') = (cid, m, ok')" by (metis prod.exhaust)
  have n: "CHR '':'' \<notin> set RolePlatformAdmin" "CHR '':'' \<notin> set RoleClusterViewer" "CHR '':'' \<notin> set RoleNamespaceViewer"
    by simp_all
  note lit = role_cut [OF cut]
  have r: "role_opens role i ns \<longleftrightarrow> (name = RolePlatformAdmin \<and> \<not> has) \<or> (i \<noteq> '''' \<and> name = RoleClusterViewer \<and> has \<and> arg = i)
      \<or> (ns \<noteq> '''' \<and> name = RoleNamespaceViewer \<and> has \<and> arg = i @ CHR ''/'' # ns)"
    unfolding role_opens_def by (simp add: lit(1) [OF n(1)] lit(2) [OF n(2)] lit(2) [OF n(3)])
  have a: "arg = i @ CHR ''/'' # ns \<longleftrightarrow> ok' \<and> cid = i \<and> m = ns"
    using role_cut(2) [OF cut2 i, of ns] by auto
  note adm = admin_access [OF ok, of "keys_of known" i ns]
  note keep = with_access_ok [OF ok]
  consider "name = RolePlatformAdmin" | "name = RoleDashboardEditor" | "name = RoleClusterViewer" | "name = RoleNamespaceViewer"
    | "name \<noteq> RolePlatformAdmin" "name \<noteq> RoleDashboardEditor" "name \<noteq> RoleClusterViewer" "name \<noteq> RoleNamespaceViewer"
    by argo
  then show ?thesis
  proof cases
    case 1
    then show ?thesis using ok adm by (simp add: central_role_def cut r)
  next
    case 2
    then show ?thesis using ok by (simp add: central_role_def cut r)
  next
    case 3
    then show ?thesis using ok keep [of open_all] by (auto simp: central_role_def cut r opens_all [OF ok(1)])
  next
    case 4
    then show ?thesis using ok keep [of "open_namespace m"]
      by (auto simp: central_role_def cut cut2 r a opens_one [OF ok(1)])
  next
    case 5
    then show ?thesis using ok by (simp add: central_role_def cut r)
  qed
qed

lemma central_roles_open:
  assumes "access_ok known (ct_access st)" "access_ok known known" "CHR ''/'' \<notin> set i"
  shows "access_ok known (ct_access (fold (central_role known) roles st))
    \<and> (opens (ct_access (fold (central_role known) roles st)) i ns
       \<longleftrightarrow> opens (ct_access st) i ns \<or> (i \<in> fst ` set known \<and> (\<exists>role \<in> set roles. role_opens role i ns)))"
  using assms(1)
proof (induction roles arbitrary: st)
  case (Cons role roles)
  note step = central_role_opens [OF Cons.prems assms(2,3), of role ns]
  from Cons.IH [OF conjunct1 [OF step]] step show ?case by auto
qed simp

lemma central_role_admin: "ct_admin (central_role known role st) \<longleftrightarrow> ct_admin st \<or> role = RolePlatformAdmin"
proof -
  obtain name arg has where cut: "str_cut role (CHR '':'') = (name, arg, has)" by (metis prod.exhaust)
  have "(name = RolePlatformAdmin \<and> \<not> has) = (role = RolePlatformAdmin)" by (rule role_cut(1) [OF cut]) simp
  then show ?thesis by (cases "name = RolePlatformAdmin") (simp_all add: central_role_def cut split: prod.split)
qed

lemma central_roles_admin:
  "ct_admin (fold (central_role known) roles st) \<longleftrightarrow> ct_admin st \<or> RolePlatformAdmin \<in> set roles"
  by (induction roles arbitrary: st) (auto simp: central_role_admin)

section \<open>The outcome\<close>

lemma set_unique_sorted: "set (unique_sorted xs) = set xs"
  by (induction xs rule: unique_sorted.induct) auto

lemma known_ok: "access_ok (known_clusters cs) (known_clusters cs) \<and> fst ` set (known_clusters cs) = ac_id ` set cs"
proof -
  have "access_ok m' m' \<and> fst ` set m' = fst ` set m \<union> ac_id ` set cs"
    if "access_ok m m" "m' = fold (\<lambda>c m. put (ac_id c) (if ac_name c = '''' then c\<lparr>ac_name := ac_id c\<rparr> else c) m) cs m" for m m'
    using that
  proof (induction cs arbitrary: m m')
    case (Cons c cs)
    let ?m = "put (ac_id c) (if ac_name c = '''' then c\<lparr>ac_name := ac_id c\<rparr> else c) m"
    have "access_ok ?m ?m" using Cons.prems(1) by (auto simp: access_ok_def dest!: put_entry_cases)
    from Cons.IH [OF this, of m'] Cons.prems(2) show ?case by auto
  qed simp
  from this [of "[]"] show ?thesis by (simp add: known_clusters_def access_ok_def)
qed

lemma find_by_key:
  assumes "\<forall>(i, c) \<in> set m. ac_id (f c) = i" "distinct (map ac_id xs)" "set xs = (\<lambda>(_, c). f c) ` set m"
  shows "List.find (\<lambda>c. ac_id c = i) xs = map_option f (map_of m i)"
proof -
  show ?thesis
  proof (cases "map_of m i")
    case None
    have "ac_id c \<noteq> i" if "c \<in> set xs" for c
    proof -
      have "c \<in> (\<lambda>(_, c). f c) ` set m" using that assms(3) by simp
      then obtain k d where "(k, d) \<in> set m" "c = f d" by (auto simp: case_prod_unfold)
      then have "ac_id c = k" "k \<in> fst ` set m" using assms(1) by force+
      with None show ?thesis by (auto simp: map_of_eq_None_iff)
    qed
    then have "List.find (\<lambda>c. ac_id c = i) xs = None" by (auto simp: find_None_iff)
    with None show ?thesis by simp
  next
    case (Some c)
    then have mem: "(i, c) \<in> set m" by (rule map_of_SomeD)
    have x: "f c \<in> set xs" unfolding assms(3) using mem by (rule rev_image_eqI) simp
    have "ac_id (f c) = i" using assms(1) mem by fastforce
    with x have "List.find (\<lambda>c. ac_id c = i) xs = Some (f c)"
      using assms(2) by (induction xs) (auto simp: image_iff)
    with Some show ?thesis by simp
  qed
qed

lemma outcome:
  fixes f :: "access_cluster \<Rightarrow> access_cluster"
  assumes "access_ok known acc" "\<And>c. ac_id (f c) = ac_id c"
  shows "List.find (\<lambda>c. ac_id c = i) (sort_key ac_id (map (\<lambda>(_, c). f c) acc)) = map_option f (map_of acc i)"
proof (rule find_by_key)
  show keys: "\<forall>(i, c) \<in> set acc. ac_id (f c) = i" using assms by (simp add: access_ok_def)
  then have "map ac_id (map (\<lambda>(_, c). f c) acc) = keys_of acc" by auto
  then have "distinct (map ac_id (map (\<lambda>(_, c). f c) acc))" using assms(1) by (simp only: access_ok_def)
  then show "distinct (map ac_id (sort_key ac_id (map (\<lambda>(_, c). f c) acc)))"
    by (simp only: distinct_map set_sort distinct_sort)
qed simp

lemma central_opens:
  assumes "CHR ''/'' \<notin> set i"
  shows "(\<exists>c. scope_cluster (snd (scope_for_central claims configured)) i = Some c \<and> allows_namespace c ns)
      = (i \<in> ac_id ` set configured \<and> (\<exists>role \<in> set (jc_roles claims). role_opens role i ns))"
proof -
  define known where "known = known_clusters configured"
  define st where "st = fold (central_role known) (jc_roles claims)
    \<lparr>ct_access = [], ct_admin = False, ct_edit = False, ct_publish = False\<rparr>"
  let ?f = "\<lambda>c. c\<lparr>ac_namespaces := unique_sorted (sort (ac_namespaces c))\<rparr>"
  have k: "access_ok known known" "fst ` set known = ac_id ` set configured"
    using known_ok [of configured] by (simp_all add: known_def)
  have none: "access_ok known (ct_access \<lparr>ct_access = [], ct_admin = False, ct_edit = False, ct_publish = False\<rparr>)"
    "\<not> opens (ct_access \<lparr>ct_access = [], ct_admin = False, ct_edit = False, ct_publish = False\<rparr>) i ns"
    by (simp_all add: access_ok_def opens_def)
  have "access_ok known (ct_access st) \<and> (opens (ct_access st) i ns
      \<longleftrightarrow> i \<in> fst ` set known \<and> (\<exists>role \<in> set (jc_roles claims). role_opens role i ns))"
    unfolding st_def using central_roles_open [OF none(1) k(1) assms, of "jc_roles claims" ns] none(2) by simp
  then have ok: "access_ok known (ct_access st)"
    and o: "opens (ct_access st) i ns \<longleftrightarrow> i \<in> fst ` set known \<and> (\<exists>role \<in> set (jc_roles claims). role_opens role i ns)"
    by blast+
  have "scope_cluster (snd (scope_for_central claims configured)) i = map_option ?f (map_of (ct_access st) i)"
    unfolding scope_cluster_def scope_for_central_def Let_def known_def [symmetric] st_def [symmetric]
    using outcome [OF ok] by (simp del: map_map)
  moreover have "allows_namespace (?f c) ns = allows_namespace c ns" for c
    by (simp add: allows_namespace_def set_unique_sorted)
  ultimately have "(\<exists>c. scope_cluster (snd (scope_for_central claims configured)) i = Some c \<and> allows_namespace c ns)
      = opens (ct_access st) i ns" by (auto simp: opens_def)
  then show ?thesis using o k(2) by simp
qed

text \<open>
  (C32) With central authentication a token opens a namespace of a cluster exactly when the cluster is configured
  and a role of the token is the administrator's, names the cluster, or names the namespace in the cluster; and
  the rights of an administrator are given exactly to the role \<open>platform.admin\<close>.
\<close>

theorem central_scope_exact:
  assumes "CHR ''/'' \<notin> set i"
  shows "(\<exists>c. scope_cluster (snd (scope_for_central claims configured)) i = Some c \<and> allows_namespace c ns)
      = (i \<in> ac_id ` set configured \<and> (\<exists>role \<in> set (jc_roles claims). role_opens role i ns))
    \<and> sc_manage_workloads (snd (scope_for_central claims configured)) = (RolePlatformAdmin \<in> set (jc_roles claims))"
  using central_opens [OF assms] by (simp add: scope_for_central_def Let_def central_roles_admin)

section \<open>One cluster\<close>

text \<open>Without a central registry an unqualified role speaks of the cluster of the process.\<close>

definition single_opens :: "string \<Rightarrow> string \<Rightarrow> string \<Rightarrow> bool" where
  "single_opens role i ns \<longleftrightarrow> role_opens role i ns \<or> role = RoleClusterViewer
     \<or> (ns \<noteq> '''' \<and> CHR ''/'' \<notin> set ns \<and> role = RoleNamespaceViewer @ '':'' @ ns)"

definition state_opens :: "role_state \<Rightarrow> string \<Rightarrow> bool" where
  "state_opens st ns \<longleftrightarrow> rs_all st \<or> ns \<in> set (rs_namespaces st)"

lemma apply_role_opens:
  assumes i: "CHR ''/'' \<notin> set i"
  shows "state_opens (apply_role i role st) ns \<longleftrightarrow> state_opens st ns \<or> single_opens role i ns"
proof -
  obtain name arg has where cut: "str_cut role (CHR '':'') = (name, arg, has)" by (metis prod.exhaust)
  obtain cid m ok where cut2: "str_cut arg (CHR ''/'') = (cid, m, ok)" by (metis prod.exhaust)
  have n: "CHR '':'' \<notin> set RolePlatformAdmin" "CHR '':'' \<notin> set RoleClusterViewer" "CHR '':'' \<notin> set RoleNamespaceViewer"
    by simp_all
  note lit = role_cut [OF cut]
  have e: "role = RolePlatformAdmin \<longleftrightarrow> name = RolePlatformAdmin \<and> \<not> has"
    "role = RoleClusterViewer \<longleftrightarrow> name = RoleClusterViewer \<and> \<not> has"
    "role = RoleClusterViewer @ '':'' @ x \<longleftrightarrow> name = RoleClusterViewer \<and> has \<and> arg = x"
    "role = RoleNamespaceViewer @ '':'' @ i @ ''/'' @ ns \<longleftrightarrow> name = RoleNamespaceViewer \<and> has \<and> arg = i @ ''/'' @ ns"
    "role = RoleNamespaceViewer @ '':'' @ x \<longleftrightarrow> name = RoleNamespaceViewer \<and> has \<and> arg = x" for x
    using lit(1) [OF n(1)] lit(1) [OF n(2)] lit(2) [OF n(2), of x] lit(2) [OF n(3), of "i @ CHR ''/'' # ns"]
      lit(2) [OF n(3), of x] by simp_all
  have r: "single_opens role i ns \<longleftrightarrow> (name = RolePlatformAdmin \<and> \<not> has) \<or> (name = RoleClusterViewer \<and> (\<not> has \<or> (i \<noteq> '''' \<and> arg = i)))
      \<or> (ns \<noteq> '''' \<and> name = RoleNamespaceViewer \<and> has \<and> (arg = i @ ''/'' @ ns \<or> (CHR ''/'' \<notin> set ns \<and> arg = ns)))"
    unfolding role_opens_def single_opens_def e by argo
  have a: "arg = i @ ''/'' @ ns \<longleftrightarrow> ok \<and> cid = i \<and> m = ns"
    using role_cut(2) [OF cut2 i, of ns] by auto
  have b: "CHR ''/'' \<notin> set ns \<and> arg = ns \<longleftrightarrow> \<not> ok \<and> cid = ns"
    using str_cut_missing [of arg "CHR ''/''" cid m] str_cut_none [of "CHR ''/''" ns] cut2 by (cases ok) auto
  have h: "\<not> has \<Longrightarrow> arg = ''''" using str_cut_missing [of role "CHR '':''" name arg] cut by simp
  consider "name = RolePlatformAdmin" | "name = RoleDashboardEditor" | "name = RoleClusterViewer" | "name = RoleNamespaceViewer"
    | "name \<noteq> RolePlatformAdmin" "name \<noteq> RoleDashboardEditor" "name \<noteq> RoleClusterViewer" "name \<noteq> RoleNamespaceViewer"
    by argo
  then show ?thesis
  proof cases
    case 4
    have "cid \<noteq> ''''" if "arg \<noteq> ''''" "\<not> ok" using that b cut2 str_cut_missing [of arg "CHR ''/''" cid m] by auto
    moreover have "single_opens role i ns \<longleftrightarrow> ns \<noteq> '''' \<and> has \<and> (ok \<and> cid = i \<and> m = ns \<or> \<not> ok \<and> cid = ns)"
      unfolding r a b using 4 by auto
    ultimately show ?thesis using h 4 cut2 str_cut_none [of "CHR ''/''" "''''"]
      by (cases "arg = ''''") (auto simp: apply_role_def cut cut2 state_opens_def add_namespace_def)
  qed (auto simp: apply_role_def cut r state_opens_def)
qed

lemma single_scope_exact:
  assumes "CHR ''/'' \<notin> set i"
  shows "\<exists>c. scope_cluster (snd (scope_for claims i name)) i = Some c
    \<and> (allows_namespace c ns \<longleftrightarrow> (\<exists>role \<in> set (jc_roles claims). single_opens role i ns))"
proof -
  have "state_opens (fold (apply_role i) roles st) ns \<longleftrightarrow> state_opens st ns \<or> (\<exists>role \<in> set roles. single_opens role i ns)" for roles st
    by (induction roles arbitrary: st) (auto simp: apply_role_opens [OF assms])
  from this [of "jc_roles claims" no_roles] show ?thesis
    by (auto simp: scope_for_def Let_def scope_cluster_def allows_namespace_def state_opens_def no_roles_def)
qed

end
