(* ===== verification/Scope_Stream.thy ===== *)
theory Scope_Stream
  imports Scope_Props Hub_Props
begin

text \<open>
  From the token to the stream (\<open>handleEventStream\<close> of \<open>internal/httpapi/stream.go\<close>): the filter of a subscription
  is the scope that the roles of the caller's token open, so the events a stream shows are those the roles name.
\<close>

definition filter_of :: "access_cluster \<Rightarrow> stream_filter" where
  "filter_of c = \<lparr>sf_cluster_id = ac_id c, sf_all = ac_all c, sf_namespaces = ac_namespaces c\<rparr>"

text \<open>\<open>None\<close> is the answer 403.\<close>

definition open_stream :: "hub_env \<Rightarrow> access_scope \<Rightarrow> string \<Rightarrow> string \<Rightarrow> time \<Rightarrow> hub \<Rightarrow> hub \<times> (hub_error + nat) option" where
  "open_stream V s i cursor now h =
     (case authorize s i of
        None \<Rightarrow> (h, None)
      | Some c \<Rightarrow> map_prod id Some (hub_subscribe V (if sc_subject s = '''' then ''auth-none'' else sc_subject s) (filter_of c) cursor now h))"

text \<open>A token of each subject, and the requests its holders make besides what else happens to the hub.\<close>

definition stream_request :: "(string \<Rightarrow> auth_claims) \<Rightarrow> access_cluster list \<Rightarrow> hub_op \<Rightarrow> bool" where
  "stream_request tok configured opn =
     (case opn of
        Op_subscribe subject f cursor now \<Rightarrow>
          (\<exists>i c. authorize (snd (scope_for_central (tok subject) configured)) i = Some c \<and> f = filter_of c)
      | _ \<Rightarrow> True)"

lemma open_stream_request:
  assumes "jc_subject (tok subject) = subject" "subject \<noteq> ''''"
    and "authorize (snd (scope_for_central (tok subject) configured)) i = Some c"
  shows "open_stream V (snd (scope_for_central (tok subject) configured)) i cursor now h
      = map_prod id Some (hub_subscribe V subject (filter_of c) cursor now h)
    \<and> stream_request tok configured (Op_subscribe subject (filter_of c) cursor now)"
  using assms by (auto simp: open_stream_def stream_request_def scope_for_central_def Let_def)

definition role_filter :: "hub_env \<Rightarrow> (string \<Rightarrow> auth_claims) \<Rightarrow> access_cluster list \<Rightarrow> string \<Rightarrow> stream_filter \<Rightarrow> bool" where
  "role_filter V tok configured key f \<longleftrightarrow>
     (\<exists>subject i c. key = he_sha256 V subject \<and> valid_cluster_id i
        \<and> scope_cluster (snd (scope_for_central (tok subject) configured)) i = Some c \<and> ac_id c = i \<and> f = filter_of c)"

lemma authorize_cluster: "authorize s i = Some c \<Longrightarrow> scope_cluster s i = Some c \<and> ac_id c = i"
  by (auto simp: authorize_def scope_cluster_def find_Some_iff split: option.splits if_splits)

lemma stream_request_opens:
  assumes "stream_request tok configured opn"
  shows "opens_by (role_filter V tok configured) V opn"
proof (cases opn)
  case (Op_subscribe subject f cursor now)
  with assms obtain i c where a: "authorize (snd (scope_for_central (tok subject) configured)) i = Some c" "f = filter_of c"
    by (auto simp: stream_request_def)
  have "role_filter V tok configured (he_sha256 V subject) f" if "valid_cluster_id (sf_cluster_id f)"
    unfolding role_filter_def using authorize_cluster [OF a(1)] a(2) that by (auto simp: filter_of_def)
  with Op_subscribe show ?thesis by (simp add: opens_by_def)
qed (simp_all add: opens_by_def)

lemma valid_no_slash: "valid_cluster_id i \<Longrightarrow> CHR ''/'' \<notin> set i"
  using valid_cluster_id_chars by (fastforce simp: is_id_char_def is_lower_alnum_def less_eq_char_def)


definition demo_tok :: "string \<Rightarrow> auth_claims" where
  "demo_tok subject = \<lparr>jc_subject = subject, jc_email = '''', jc_username = '''',
     jc_roles = [''other.role'', ''namespace.viewer:c1/a'', ''namespace.viewer:c2/b'']\<rparr>"

definition demo_clusters :: "access_cluster list" where
  "demo_clusters = [\<lparr>ac_id = ''c1'', ac_name = '''', ac_namespaces = [], ac_all = True\<rparr>]"

lemma demo_requests: "\<forall>opn \<in> set demo_scoped_ops. stream_request demo_tok demo_clusters opn"
proof -
  have "authorize (snd (scope_for_central (demo_tok ''ann'') demo_clusters)) ''c1''
      = Some \<lparr>ac_id = ''c1'', ac_name = ''c1'', ac_namespaces = [''a''], ac_all = False\<rparr>" by code_simp
  moreover have "demo_filter = filter_of \<lparr>ac_id = ''c1'', ac_name = ''c1'', ac_namespaces = [''a''], ac_all = False\<rparr>"
    by (simp add: demo_filter_def filter_of_def)
  ultimately have "stream_request demo_tok demo_clusters (Op_subscribe ''ann'' demo_filter '''' 0)"
    unfolding stream_request_def by auto
  then show ?thesis by (simp add: demo_scoped_ops_def demo_publishes_def stream_request_def)
qed

theorem central_scope_exact_witness:
  "\<exists>c. scope_cluster (snd (scope_for_central (demo_tok ''ann'') demo_clusters)) ''c1'' = Some c \<and> allows_namespace c ''a''"
  using central_scope_exact [of "''c1''" "demo_tok ''ann''" demo_clusters "''a''"]
  by (simp add: demo_tok_def demo_clusters_def role_opens_def)


end
