(* ===== verification/Response_Cache.thy ===== *)
theory Response_Cache
  imports Prelude_Go
begin

text \<open>
  The response cache of the API (\<open>internal/cache/cache.go\<close>): the local level, a map with a recency list bounded by
  entries and by bytes, and the gate in front of Redis that keeps a failing server from being asked. The
  entries are shared by the map and the list; here the map holds them and the list holds their keys, front first.
  \<open>None\<close> stands for a panic (the last element of an empty list). Redis itself, the collapsing of
  concurrent misses and the waiting for another instance's lock are not modelled.
\<close>

section \<open>The local level\<close>

record cache_config =
  cf_default_ttl :: duration
  cf_max_entries :: int
  cf_max_value_bytes :: int
  cf_max_local_bytes :: int
  cf_redis_cooldown :: duration

definition cache_defaults :: "cache_config \<Rightarrow> cache_config" where
  "cache_defaults c =
     (let max_local = (if cf_max_local_bytes c \<le> 0 then 64 * 2 ^ 20 else cf_max_local_bytes c);
          max_value = (if cf_max_value_bytes c \<le> 0 then 4 * 2 ^ 20 else cf_max_value_bytes c) in
      \<lparr>cf_default_ttl = (if cf_default_ttl c \<le> 0 then 5 * second else cf_default_ttl c),
       cf_max_entries = (if cf_max_entries c \<le> 0 then 1024 else cf_max_entries c),
       cf_max_value_bytes = (if max_local < max_value then max_local else max_value),
       cf_max_local_bytes = max_local,
       cf_redis_cooldown = (if cf_redis_cooldown c \<le> 0 then 2 * second else cf_redis_cooldown c)\<rparr>)"

text \<open>A value is a serialized response or a value of the process.\<close>

datatype 'v cache_value = Raw string | Boxed 'v

definition value_size :: "'v cache_value \<Rightarrow> int" where
  "value_size v = (case v of Raw b \<Rightarrow> int (length b) | Boxed _ \<Rightarrow> 1)"

record 'v cache_entry =
  ce_val :: "'v cache_value"
  ce_expires :: time
  ce_size :: int

record 'v local_cache =
  lc_items :: "(string, 'v cache_entry) gomap"
  lc_order :: "string list"
  lc_bytes :: int
  lc_config :: cache_config

definition new_cache :: "cache_config \<Rightarrow> 'v local_cache" where
  "new_cache c = \<lparr>lc_items = [], lc_order = [], lc_bytes = 0, lc_config = cache_defaults c\<rparr>"

definition cache_remove :: "string \<Rightarrow> 'v cache_entry \<Rightarrow> 'v local_cache \<Rightarrow> 'v local_cache" where
  "cache_remove k e c =
     c\<lparr>lc_items := del k (lc_items c), lc_order := remove1 k (lc_order c), lc_bytes := lc_bytes c - ce_size e\<rparr>"

definition move_to_front :: "string \<Rightarrow> 'v local_cache \<Rightarrow> 'v local_cache" where
  "move_to_front k c = c\<lparr>lc_order := k # remove1 k (lc_order c)\<rparr>"

definition cache_get :: "string \<Rightarrow> time \<Rightarrow> 'v local_cache \<Rightarrow> 'v local_cache \<times> 'v cache_value option" where
  "cache_get k now c =
     (case map_of (lc_items c) k of
        None \<Rightarrow> (c, None)
      | Some e \<Rightarrow> if \<not> now < ce_expires e then (cache_remove k e c, None) else (move_to_front k c, Some (ce_val e)))"

text \<open>The two loops of \<open>set\<close>: \<open>counted\<close> says whether the number of entries is tested too.\<close>

definition over_limit :: "bool \<Rightarrow> 'v local_cache \<Rightarrow> bool" where
  "over_limit counted c \<longleftrightarrow> (counted \<and> int (length (lc_items c)) > cf_max_entries (lc_config c))
     \<or> lc_bytes c > cf_max_local_bytes (lc_config c)"

function shrink :: "bool \<Rightarrow> 'v local_cache \<Rightarrow> 'v local_cache option" where
  "shrink counted c =
     (if \<not> over_limit counted c then Some c
      else if lc_order c = [] then None
      else case map_of (lc_items c) (last (lc_order c)) of
        None \<Rightarrow> None
      | Some e \<Rightarrow> shrink counted (cache_remove (last (lc_order c)) e c))"
  by pat_completeness auto
termination
  by (relation "measure (\<lambda>(_, c). length (lc_order c))") (auto simp: cache_remove_def length_remove1)

declare shrink.simps [simp del]

definition cache_set :: "string \<Rightarrow> 'v cache_value \<Rightarrow> duration \<Rightarrow> time \<Rightarrow> 'v local_cache \<Rightarrow> 'v local_cache option" where
  "cache_set k v ttl now c =
     (let size = value_size v; e = \<lparr>ce_val = v, ce_expires = now + ttl, ce_size = size\<rparr> in
      if size > cf_max_local_bytes (lc_config c) then Some c
      else case map_of (lc_items c) k of
        Some old \<Rightarrow>
          shrink False (move_to_front k (c\<lparr>lc_bytes := lc_bytes c + (size - ce_size old), lc_items := put k e (lc_items c)\<rparr>))
      | None \<Rightarrow>
          shrink True (c\<lparr>lc_order := k # lc_order c, lc_items := put k e (lc_items c), lc_bytes := lc_bytes c + size\<rparr>))"

text \<open>\<open>Len\<close> drops what has expired, from the back.\<close>

fun drop_expired :: "time \<Rightarrow> string list \<Rightarrow> 'v local_cache \<Rightarrow> 'v local_cache" where
  "drop_expired now [] c = c"
| "drop_expired now (k # ks) c =
     drop_expired now ks
       (case map_of (lc_items c) k of
          None \<Rightarrow> c
        | Some e \<Rightarrow> if \<not> now < ce_expires e then cache_remove k e c else c)"

definition cache_len :: "time \<Rightarrow> 'v local_cache \<Rightarrow> 'v local_cache \<times> nat" where
  "cache_len now c = (let c1 = drop_expired now (rev (lc_order c)) c in (c1, length (lc_items c1)))"

text \<open>The typed read and store of \<open>Do\<close> and the first read of \<open>Bytes\<close>, which passes over a boxed value.\<close>

definition bytes_hit :: "string \<Rightarrow> time \<Rightarrow> 'v local_cache \<Rightarrow> 'v local_cache \<times> string option" where
  "bytes_hit k now c =
     (case cache_get k now c of
        (c1, Some (Raw b)) \<Rightarrow> (c1, Some b)
      | (c1, _) \<Rightarrow> (c1, None))"

section \<open>The gate of Redis\<close>

text \<open>The end of the cooldown (\<open>None\<close>: the zero time), and whether a probe is under way.\<close>

record redis_gate =
  rd_off :: "time option"
  rd_probe :: bool

definition redis_available :: "time \<Rightarrow> redis_gate \<Rightarrow> redis_gate \<times> bool" where
  "redis_available now g =
     (case rd_off g of
        None \<Rightarrow> (g, True)
      | Some off \<Rightarrow> if now < off \<or> rd_probe g then (g, False) else (g\<lparr>rd_probe := True\<rparr>, True))"

definition redis_cooling :: "time \<Rightarrow> redis_gate \<Rightarrow> bool" where
  "redis_cooling now g = (rd_probe g \<or> (case rd_off g of None \<Rightarrow> False | Some off \<Rightarrow> now < off))"

definition redis_failure :: "cache_config \<Rightarrow> time \<Rightarrow> redis_gate \<Rightarrow> redis_gate" where
  "redis_failure c now g = \<lparr>rd_off = Some (now + cf_redis_cooldown c), rd_probe = False\<rparr>"

definition redis_success :: "redis_gate \<Rightarrow> redis_gate" where
  "redis_success g = \<lparr>rd_off = None, rd_probe = False\<rparr>"

text \<open>A command of Redis that was let through ends in one of the two.\<close>

definition redis_outcome :: "cache_config \<Rightarrow> time \<Rightarrow> bool \<Rightarrow> redis_gate \<Rightarrow> redis_gate" where
  "redis_outcome c now ok g = (if ok then redis_success g else redis_failure c now g)"

end
