(* ===== verification/Cache_Props.thy ===== *)
theory Cache_Props
  imports Response_Cache
begin

text \<open>
  The local level of the response cache keeps its books, never runs off its list, and evicts the least recently
  used entries and no more; the gate lets one probe through after each cooldown.
\<close>

section \<open>The invariant\<close>

text \<open>Without the bounds, which hold again when \<open>set\<close> returns.\<close>

definition cache_linked :: "'v local_cache \<Rightarrow> bool" where
  "cache_linked c \<longleftrightarrow> distinct (keys_of (lc_items c)) \<and> distinct (lc_order c) \<and> set (lc_order c) = fst ` set (lc_items c)
     \<and> lc_bytes c = msum ce_size (lc_items c) \<and> (\<forall>(k, e) \<in> set (lc_items c). ce_size e = value_size (ce_val e))"

definition cache_ok :: "'v local_cache \<Rightarrow> bool" where
  "cache_ok c \<longleftrightarrow> cache_linked c \<and> 1 \<le> cf_max_entries (lc_config c) \<and> 1 \<le> cf_max_local_bytes (lc_config c)
     \<and> int (length (lc_items c)) \<le> cf_max_entries (lc_config c) \<and> lc_bytes c \<le> cf_max_local_bytes (lc_config c)"

lemma value_size_nonneg: "0 \<le> value_size v"
  by (simp add: value_size_def split: cache_value.split)

lemma linked_entry:
  assumes "cache_linked c" "k \<in> set (lc_order c)"
  obtains e where "map_of (lc_items c) k = Some e"
  using assms by (auto simp: cache_linked_def map_of_eq_None_iff elim!: option.exhaust [of "map_of (lc_items c) k"])

lemma linked_remove:
  assumes "cache_linked c" "map_of (lc_items c) k = Some e"
  shows "cache_linked (cache_remove k e c)"
proof -
  have "\<forall>(j, x) \<in> set (del k (lc_items c)). ce_size x = value_size (ce_val x)"
    using assms(1) by (auto simp: cache_linked_def AList.delete_eq)
  then show ?thesis
    using assms by (simp add: cache_linked_def cache_remove_def msum_del distinct_remove1)
      (metis keys_del set_map)
qed

lemma linked_front: "\<lbrakk>cache_linked c; k \<in> set (lc_order c)\<rbrakk> \<Longrightarrow> cache_linked (move_to_front k c)"
  by (auto simp: cache_linked_def move_to_front_def distinct_remove1)

lemma cache_ok_remove:
  assumes "cache_ok c" "map_of (lc_items c) k = Some e"
  shows "cache_ok (cache_remove k e c)"
proof -
  have l: "cache_linked c" using assms(1) by (simp add: cache_ok_def)
  have "ce_size e = value_size (ce_val e)" using l map_of_SomeD [OF assms(2)] by (auto simp: cache_linked_def)
  then have "0 \<le> ce_size e" by (simp add: value_size_nonneg)
  moreover have "length (del k (lc_items c)) \<le> length (lc_items c)" by (simp add: AList.delete_eq)
  ultimately show ?thesis
    using assms(1) linked_remove [OF l assms(2)] by (simp add: cache_ok_def cache_remove_def)
qed

lemma cache_get_ok: "cache_ok c \<Longrightarrow> cache_ok (fst (cache_get k now c))"
proof (cases "map_of (lc_items c) k")
  case (Some e)
  assume ok: "cache_ok c"
  then have "k \<in> set (lc_order c)" using map_of_SomeD [OF Some] by (force simp: cache_ok_def cache_linked_def)
  then have "cache_ok (move_to_front k c)"
    using ok linked_front [of c k] by (simp add: cache_ok_def) (simp add: move_to_front_def)
  with ok Some show ?thesis by (simp add: cache_get_def cache_ok_remove)
qed (simp add: cache_get_def)

lemma drop_expired_ok: "cache_ok c \<Longrightarrow> cache_ok (drop_expired now ks c)"
  by (induction ks arbitrary: c) (auto simp: cache_ok_remove split: option.split)

section \<open>Eviction\<close>

lemma remove1_last: "distinct xs \<Longrightarrow> xs \<noteq> [] \<Longrightarrow> remove1 (last xs) xs = butlast xs"
  by (induction xs) (auto split: if_splits)

text \<open>With the first entry within the bounds, the loop ends before it reaches it, and what it drops are the last
  entries.\<close>

lemma shrink_keeps_front:
  assumes "cache_linked c" "lc_order c = k # ks" "map_of (lc_items c) k = Some e"
    and "ce_size e \<le> cf_max_local_bytes (lc_config c)" "1 \<le> cf_max_entries (lc_config c)"
  shows "\<exists>c' n. shrink counted c = Some c' \<and> cache_linked c' \<and> \<not> over_limit counted c' \<and> lc_config c' = lc_config c
    \<and> lc_order c' = k # take n ks \<and> (\<forall>x \<in> set (lc_order c'). map_of (lc_items c') x = map_of (lc_items c) x)
    \<and> length (lc_items c') \<le> length (lc_items c) \<and> (\<not> over_limit counted c \<longrightarrow> n = length ks)"
  using assms
proof (induction ks arbitrary: c rule: rev_induct)
  case Nil
  have keys: "set (keys_of (lc_items c)) = {k}" using Nil.prems(1,2) by (auto simp: cache_linked_def)
  have d: "distinct (keys_of (lc_items c))" using Nil.prems(1) by (simp add: cache_linked_def)
  then have len: "length (lc_items c) = 1" using distinct_card [OF d] keys by simp
  then obtain p where p: "lc_items c = [p]" by (metis One_nat_def length_0_conv length_Suc_conv)
  then have "lc_items c = [(k, e)]" using keys Nil.prems(3) by (cases p) auto
  then have "\<not> over_limit counted c"
    using Nil.prems(1,4,5) by (simp add: over_limit_def cache_linked_def)
  with Nil.prems show ?case by (auto simp: shrink.simps [of counted c])
next
  case (snoc x ks)
  show ?case
  proof (cases "over_limit counted c")
    case False
    with snoc.prems show ?thesis
      by (intro exI [of _ c] exI [of _ "length (ks @ [x])"]) (simp add: shrink.simps [of counted c])
  next
    case True
    have l: "last (lc_order c) = x" "lc_order c \<noteq> []" using snoc.prems(2) by simp_all
    have d: "distinct (lc_order c)" using snoc.prems(1) by (simp add: cache_linked_def)
    obtain y where y: "map_of (lc_items c) x = Some y"
      using linked_entry [OF snoc.prems(1), of x] snoc.prems(2) by auto
    let ?c = "cache_remove x y c"
    have ord: "lc_order ?c = k # ks"
      using remove1_last [OF d l(2)] l snoc.prems(2) by (simp add: cache_remove_def butlast_append)
    have kx: "k \<noteq> x" using d snoc.prems(2) by auto
    have lk: "cache_linked ?c" by (rule linked_remove [OF snoc.prems(1) y])
    have e: "map_of (lc_items ?c) k = Some e" using kx snoc.prems(3) by (simp add: cache_remove_def)
    have conf: "lc_config ?c = lc_config c" by (simp add: cache_remove_def)
    from snoc.IH [OF lk ord e, unfolded conf, OF snoc.prems(4,5)] obtain c' n where c': "shrink counted ?c = Some c'" "cache_linked c'" "\<not> over_limit counted c'"
      "lc_config c' = lc_config c" "lc_order c' = k # take n ks"
      "\<forall>z \<in> set (lc_order c'). map_of (lc_items c') z = map_of (lc_items ?c) z" "length (lc_items c') \<le> length (lc_items ?c)"
      by blast
    have "shrink counted c = Some c'"
      using True l y c'(1) by (simp add: shrink.simps [of counted c])
    moreover have "x \<notin> set (lc_order c')"
      using d snoc.prems(2) c'(5) by (auto dest: in_set_takeD)
    then have "\<forall>z \<in> set (lc_order c'). map_of (lc_items c') z = map_of (lc_items c) z"
      using c'(6) by (auto simp: cache_remove_def)
    moreover have "length (lc_items ?c) \<le> length (lc_items c)" by (simp add: cache_remove_def AList.delete_eq)
    moreover have "take n ks = take (min n (length ks)) (ks @ [x])" by (simp add: min_def)
    ultimately show ?thesis using c'(2-5,7) True
      by (intro exI [of _ c'] exI [of _ "min n (length ks)"]) simp
  qed
qed

lemma cache_set_front:
  assumes ok: "cache_ok c" and fits: "value_size v \<le> cf_max_local_bytes (lc_config c)"
  shows "\<exists>c' n. cache_set k v ttl now c = Some c' \<and> cache_ok c' \<and> lc_config c' = lc_config c
    \<and> lc_order c' = k # take n (remove1 k (lc_order c))
    \<and> map_of (lc_items c') k = Some \<lparr>ce_val = v, ce_expires = now + ttl, ce_size = value_size v\<rparr>
    \<and> (\<forall>j \<in> set (lc_order c'). j \<noteq> k \<longrightarrow> map_of (lc_items c') j = map_of (lc_items c) j)"
proof -
  let ?e = "\<lparr>ce_val = v, ce_expires = now + ttl, ce_size = value_size v\<rparr>"
  have l: "cache_linked c" "1 \<le> cf_max_entries (lc_config c)" "1 \<le> cf_max_local_bytes (lc_config c)"
    "int (length (lc_items c)) \<le> cf_max_entries (lc_config c)" using ok by (simp_all add: cache_ok_def)
  have vals: "\<forall>(j, x) \<in> set (put k ?e (lc_items c)). ce_size x = value_size (ce_val x)"
  proof -
    have "(j, x) \<in> set (put k ?e m) \<Longrightarrow> x = ?e \<or> (j, x) \<in> set m" for j x m
      by (induction m) (auto split: if_splits)
    then show ?thesis using l(1) by (fastforce simp: cache_linked_def)
  qed
  show ?thesis
  proof (cases "map_of (lc_items c) k")
    case (Some old)
    let ?c = "move_to_front k (c\<lparr>lc_bytes := lc_bytes c + (value_size v - ce_size old), lc_items := put k ?e (lc_items c)\<rparr>)"
    have k: "k \<in> set (lc_order c)" "k \<in> fst ` set (lc_items c)"
      using l(1) map_of_SomeD [OF Some] by (force simp: cache_linked_def)+
    have "cache_linked ?c"
      using l(1) vals k Some by (auto simp: cache_linked_def move_to_front_def msum_put distinct_remove1)
    moreover have "lc_order ?c = k # remove1 k (lc_order c)" "map_of (lc_items ?c) k = Some ?e" "lc_config ?c = lc_config c"
      by (simp_all add: move_to_front_def)
    ultimately obtain c' n where c': "shrink False ?c = Some c'" "cache_linked c'" "\<not> over_limit False c'" "lc_config c' = lc_config c"
      "lc_order c' = k # take n (remove1 k (lc_order c))"
      "\<forall>x \<in> set (lc_order c'). map_of (lc_items c') x = map_of (lc_items ?c) x" "length (lc_items c') \<le> length (lc_items ?c)"
      using shrink_keeps_front [of ?c k "remove1 k (lc_order c)" ?e False] fits l(2) by (metis cache_entry.select_convs(3))
    have "length (lc_items ?c) = length (lc_items c)"
      using k(2) by (simp add: move_to_front_def length_put)
    then have "cache_ok c'" using c' l(2-4) by (auto simp: cache_ok_def over_limit_def)
    with c' Some fits show ?thesis
      by (intro exI [of _ c'] exI [of _ n]) (simp add: cache_set_def Let_def move_to_front_def)
  next
    case None
    let ?c = "c\<lparr>lc_order := k # lc_order c, lc_items := put k ?e (lc_items c), lc_bytes := lc_bytes c + value_size v\<rparr>"
    have k: "k \<notin> set (lc_order c)" using l(1) None by (simp add: cache_linked_def map_of_eq_None_iff)
    have "cache_linked ?c" using l(1) vals k None by (auto simp: cache_linked_def msum_put)
    moreover have "lc_order ?c = k # lc_order c" "map_of (lc_items ?c) k = Some ?e" "lc_config ?c = lc_config c" by simp_all
    ultimately obtain c' n where c': "shrink True ?c = Some c'" "cache_linked c'" "\<not> over_limit True c'" "lc_config c' = lc_config c"
      "lc_order c' = k # take n (lc_order c)"
      "\<forall>x \<in> set (lc_order c'). map_of (lc_items c') x = map_of (lc_items ?c) x"
      using shrink_keeps_front [of ?c k "lc_order c" ?e True] fits l(2) by (metis cache_entry.select_convs(3))
    have "cache_ok c'" using c' l(2,3) by (auto simp: cache_ok_def over_limit_def)
    with c' None fits k show ?thesis
      by (intro exI [of _ c'] exI [of _ n]) (simp add: cache_set_def Let_def remove1_idem)
  qed
qed

section \<open>Runs\<close>

datatype 'v cache_op = Cache_get string time | Cache_set string "'v cache_value" duration time | Cache_len time

fun cache_step :: "'v cache_op \<Rightarrow> 'v local_cache option \<Rightarrow> 'v local_cache option" where
  "cache_step opn None = None"
| "cache_step (Cache_get k now) (Some c) = Some (fst (cache_get k now c))"
| "cache_step (Cache_set k v ttl now) (Some c) = cache_set k v ttl now c"
| "cache_step (Cache_len now) (Some c) = Some (fst (cache_len now c))"

definition cache_alive :: "cache_config \<Rightarrow> 'v local_cache option \<Rightarrow> bool" where
  "cache_alive cf s \<longleftrightarrow> (\<exists>c. s = Some c \<and> cache_ok c \<and> lc_config c = cf)"

lemma cache_remove_config [simp]: "lc_config (cache_remove k e c) = lc_config c"
  by (simp add: cache_remove_def)

lemma drop_expired_config [simp]: "lc_config (drop_expired now ks c) = lc_config c"
  by (induction ks arbitrary: c) (auto split: option.split)

lemma cache_step_alive: "cache_alive cf s \<Longrightarrow> cache_alive cf (cache_step opn s)"
proof -
  assume "cache_alive cf s"
  then obtain c where c: "s = Some c" "cache_ok c" "lc_config c = cf" by (auto simp: cache_alive_def)
  show ?thesis
  proof (cases opn)
    case (Cache_get k now)
    have "lc_config (fst (cache_get k now c)) = cf"
      using c(3) by (simp add: cache_get_def move_to_front_def split: option.split)
    with Cache_get c cache_get_ok [OF c(2)] show ?thesis by (simp add: cache_alive_def)
  next
    case (Cache_set k v ttl now)
    show ?thesis
    proof (cases "value_size v \<le> cf_max_local_bytes (lc_config c)")
      case True
      from cache_set_front [OF c(2) True, of k ttl now] c Cache_set show ?thesis by (auto simp: cache_alive_def)
    next
      case False
      with Cache_set c show ?thesis by (simp add: cache_alive_def cache_set_def)
    qed
  next
    case (Cache_len now)
    with c show ?thesis by (simp add: cache_alive_def cache_len_def Let_def drop_expired_ok)
  qed
qed

interpretation responses: step_system cache_step "cache_alive cf" for cf
  by unfold_locales (rule cache_step_alive)

lemma new_cache_ok: "cache_ok (new_cache cf) \<and> lc_config (new_cache cf) = cache_defaults cf"
  by (auto simp: cache_ok_def cache_linked_def new_cache_def cache_defaults_def Let_def)

section \<open>Properties\<close>


text \<open>
  (C35) A value that fits is found again until it expires; storing it makes it the most recently used, and drops only the least
  recently used of the others: what stays is a prefix of the recency list, with the entries unchanged.
\<close>

theorem cache_set_evicts_oldest:
  assumes "cache_ok c" "value_size v \<le> cf_max_local_bytes (lc_config c)"
  shows "\<exists>c' n. cache_set k v ttl now c = Some c' \<and> lc_order c' = k # take n (remove1 k (lc_order c))
    \<and> (\<forall>t < now + ttl. snd (cache_get k t c') = Some v)
    \<and> (\<forall>j \<in> set (lc_order c'). j \<noteq> k \<longrightarrow> map_of (lc_items c') j = map_of (lc_items c) j)"
proof -
  from cache_set_front [OF assms, of k ttl now] obtain c' n where
    "cache_set k v ttl now c = Some c'" "lc_order c' = k # take n (remove1 k (lc_order c))"
    "map_of (lc_items c') k = Some \<lparr>ce_val = v, ce_expires = now + ttl, ce_size = value_size v\<rparr>"
    "\<forall>j \<in> set (lc_order c'). j \<noteq> k \<longrightarrow> map_of (lc_items c') j = map_of (lc_items c) j" by blast
  then show ?thesis by (intro exI [of _ c'] exI [of _ n]) (simp add: cache_get_def)
qed

text \<open>The gate: closed during the cooldown, then open for one caller until that one has ended.\<close>

lemma gate_single_probe:
  assumes "g = redis_failure c t g0" "1 \<le> cf_redis_cooldown c"
  shows "now < t + cf_redis_cooldown c \<Longrightarrow> redis_available now g = (g, False)"
    and "t + cf_redis_cooldown c \<le> now \<Longrightarrow> \<exists>g1. redis_available now g = (g1, True)
      \<and> (\<forall>later. redis_available later g1 = (g1, False)) \<and> redis_cooling now g1"
  using assms by (auto simp: redis_failure_def redis_available_def redis_cooling_def)

definition demo_cache :: "nat local_cache" where
  "demo_cache = the (fold cache_step [Cache_set ''a'' (Raw ''xx'') 5 0, Cache_set ''b'' (Raw ''yyy'') 5 1, Cache_get ''a'' 2]
     (Some (new_cache \<lparr>cf_default_ttl = 0, cf_max_entries = 2, cf_max_value_bytes = 0, cf_max_local_bytes = 6, cf_redis_cooldown = 0\<rparr>)))"

lemma demo_cache_facts: "lc_order demo_cache = [''a'', ''b'']" "cf_max_local_bytes (lc_config demo_cache) = 6"
  by code_simp+

lemma demo_cache_ok: "cache_ok demo_cache"
  using responses.run_inv [of _ "Some (new_cache \<lparr>cf_default_ttl = 0, cf_max_entries = 2, cf_max_value_bytes = 0,
      cf_max_local_bytes = 6, cf_redis_cooldown = 0\<rparr>)"
      "[Cache_set ''a'' (Raw ''xx'') 5 0, Cache_set ''b'' (Raw ''yyy'') 5 1, Cache_get ''a'' 2]"] new_cache_ok
  unfolding demo_cache_def cache_alive_def by (metis option.sel)

theorem cache_set_evicts_oldest_witness:
  "\<exists>c'. cache_set ''c'' (Raw ''zzzz'') 5 3 demo_cache = Some c' \<and> snd (cache_get ''c'' 4 c') = Some (Raw ''zzzz'')"
  using cache_set_evicts_oldest [OF demo_cache_ok, of "Raw ''zzzz''" "''c''" 5 3]
  by (auto simp: demo_cache_facts value_size_def)

end
