(* ===== verification/Go_Base64.thy ===== *)
theory Go_Base64
  imports Prelude_Go
begin

text \<open>
  \<open>base64.RawURLEncoding\<close> of Go's library: three bytes are four characters, a rest of one or two bytes is two or
  three, without padding. Decoding skips line breaks and ignores the unused low bits of a rest.
\<close>

definition b64_char :: "nat \<Rightarrow> char" where
  "b64_char n = char_of (if n < 26 then 65 + n else if n < 52 then 71 + n else if n < 62 then n - 4 else if n = 62 then 45 else 95)"

definition b64_value :: "char \<Rightarrow> nat option" where
  "b64_value c =
     (let n = of_char c in
      if 65 \<le> n \<and> n \<le> 90 then Some (n - 65) else if 97 \<le> n \<and> n \<le> 122 then Some (n - 71)
      else if 48 \<le> n \<and> n \<le> 57 then Some (n + 4) else if n = 45 then Some 62 else if n = 95 then Some 63 else None)"

fun b64_pack :: "nat list \<Rightarrow> nat list" where
  "b64_pack [] = []"
| "b64_pack [a] = [a div 4, a mod 4 * 16]"
| "b64_pack [a, b] = [a div 4, a mod 4 * 16 + b div 16, b mod 16 * 4]"
| "b64_pack (a # b # c # bs) =
     [a div 4, a mod 4 * 16 + b div 16, b mod 16 * 4 + c div 64, c mod 64] @ b64_pack bs"

fun b64_unpack :: "nat list \<Rightarrow> nat list option" where
  "b64_unpack [] = Some []"
| "b64_unpack [a] = None"
| "b64_unpack [a, b] = Some [a * 4 + b div 16]"
| "b64_unpack [a, b, c] = Some [a * 4 + b div 16, b mod 16 * 16 + c div 4]"
| "b64_unpack (a # b # c # d # vs) =
     map_option (\<lambda>bs. [a * 4 + b div 16, b mod 16 * 16 + c div 4, c mod 4 * 64 + d] @ bs) (b64_unpack vs)"

definition b64_encode :: "string \<Rightarrow> string" where
  "b64_encode s = map b64_char (b64_pack (map of_char s))"

definition b64_decode :: "string \<Rightarrow> string option" where
  "b64_decode s =
     (let vs = map b64_value (filter (\<lambda>c. of_char c \<noteq> (10 :: nat) \<and> of_char c \<noteq> (13 :: nat)) s) in
      if list_all (\<lambda>v. v \<noteq> None) vs then map_option (map char_of) (b64_unpack (map the vs)) else None)"

lemma b64_char_value:
  assumes "n < 64"
  shows "b64_value (b64_char n) = Some n" "of_char (b64_char n) \<noteq> (10 :: nat)" "of_char (b64_char n) \<noteq> (13 :: nat)"
proof -
  let ?m = "if n < 26 then 65 + n else if n < 52 then 71 + n else if n < 62 then n - 4 else if n = 62 then 45 else 95"
  have m: "of_char (b64_char n) = ?m" using assms by (simp add: b64_char_def)
  show "b64_value (b64_char n) = Some n" "of_char (b64_char n) \<noteq> (10 :: nat)" "of_char (b64_char n) \<noteq> (13 :: nat)"
    unfolding b64_value_def m Let_def using assms by auto
qed

lemma digit_div: "(y :: nat) < n \<Longrightarrow> (x * n + y) div n = x" and digit_mod: "(y :: nat) < n \<Longrightarrow> (x * n + y) mod n = y"
  by simp_all

lemma b64_parts:
  fixes a b c :: nat
  assumes "a < 256" "b < 256" "c < 256"
  shows "a div 4 < 64" "a mod 4 < 4" "b div 16 < 16" "b mod 16 < 16" "c div 64 < 4" "c mod 64 < 64"
  using assms by (simp_all add: div_less_iff_less_mult)

lemma b64_pack_small: "\<forall>b \<in> set bs. b < 256 \<Longrightarrow> \<forall>v \<in> set (b64_pack bs). v < 64"
proof (induction bs rule: b64_pack.induct)
  case (4 a b c bs)
  then have p: "a < 256" "b < 256" "c < 256" by simp_all
  note q = b64_parts [OF p]
  have "a mod 4 * 16 + b div 16 < 64" "b mod 16 * 4 + c div 64 < 64" using q by linarith+
  with 4 q show ?case by simp
next
  case (3 a b)
  then have p: "a < 256" "b < 256" "b < 256" by simp_all
  note q = b64_parts [OF p]
  have "a mod 4 * 16 + b div 16 < 64" "b mod 16 * 4 < 64" using q by linarith+
  with q show ?case by simp
next
  case (2 a)
  then have p: "a < 256" "a < 256" "a < 256" by simp_all
  note q = b64_parts [OF p]
  have "a mod 4 * 16 < 64" using q by linarith
  with q show ?case by simp
qed simp

lemma b64_unpack_pack: "\<forall>b \<in> set bs. b < 256 \<Longrightarrow> b64_unpack (b64_pack bs) = Some bs"
proof (induction bs rule: b64_pack.induct)
  case (4 a b c bs)
  then have p: "a < 256" "b < 256" "c < 256" by simp_all
  note q = b64_parts [OF p]
  have "(a mod 4 * 16 + b div 16) div 16 = a mod 4" "(a mod 4 * 16 + b div 16) mod 16 = b div 16"
    "(b mod 16 * 4 + c div 64) div 4 = b mod 16" "(b mod 16 * 4 + c div 64) mod 4 = c div 64"
    using q digit_div digit_mod by blast+
  then have "a div 4 * 4 + (a mod 4 * 16 + b div 16) div 16 = a"
    "(a mod 4 * 16 + b div 16) mod 16 * 16 + (b mod 16 * 4 + c div 64) div 4 = b"
    "(b mod 16 * 4 + c div 64) mod 4 * 64 + c mod 64 = c"
    by (simp_all only: div_mult_mod_eq)
  moreover have "b64_unpack (b64_pack bs) = Some bs" using 4 by simp
  ultimately show ?case by (simp only: b64_pack.simps append.simps b64_unpack.simps option.map)
next
  case (3 a b)
  then have p: "a < 256" "b < 256" "b < 256" by simp_all
  note q = b64_parts [OF p]
  have "(a mod 4 * 16 + b div 16) div 16 = a mod 4" "(a mod 4 * 16 + b div 16) mod 16 = b div 16" "b mod 16 * 4 div 4 = b mod 16"
    using q digit_div digit_mod by (blast, blast, simp)
  then have "a div 4 * 4 + (a mod 4 * 16 + b div 16) div 16 = a" "(a mod 4 * 16 + b div 16) mod 16 * 16 + b mod 16 * 4 div 4 = b"
    by (simp_all only: div_mult_mod_eq)
  then show ?case by (simp only: b64_pack.simps b64_unpack.simps)
next
  case (2 a)
  have "a mod 4 * 16 div 16 = a mod 4" by simp
  then have "a div 4 * 4 + a mod 4 * 16 div 16 = a" by (simp only: div_mult_mod_eq)
  then show ?case by (simp only: b64_pack.simps b64_unpack.simps)
qed simp

lemma b64_roundtrip: "b64_decode (b64_encode s) = Some s"
proof -
  let ?vs = "b64_pack (map of_char s) :: nat list"
  have bytes: "\<forall>b \<in> set (map of_char s). b < (256 :: nat)" by auto
  note small = b64_pack_small [OF bytes]
  have keep: "filter (\<lambda>c. of_char c \<noteq> (10 :: nat) \<and> of_char c \<noteq> (13 :: nat)) (map b64_char ?vs) = map b64_char ?vs"
    using small b64_char_value(2,3) by (auto intro!: filter_True)
  have "map b64_value (map b64_char ?vs) = map Some ?vs"
    using small b64_char_value(1) by simp
  then have "b64_decode (b64_encode s) = map_option (map char_of) (b64_unpack ?vs)"
    unfolding b64_decode_def b64_encode_def keep Let_def by (simp only:) (simp add: list_all_iff o_def)
  then show ?thesis by (simp add: b64_unpack_pack [OF bytes] o_def)
qed

lemma b64_encode_length: "3 * length (b64_encode s) \<le> 4 * length s + 2"
proof -
  have "3 * length (b64_pack bs) \<le> 4 * length bs + 2" for bs
    by (induction bs rule: b64_pack.induct) simp_all
  from this [of "map of_char s"] show ?thesis by (simp add: b64_encode_def)
qed

lemma b64_encode_nonempty: "s \<noteq> [] \<Longrightarrow> b64_encode s \<noteq> []"
  by (cases "map of_char s :: nat list" rule: b64_pack.cases) (auto simp: b64_encode_def)

end
