(* ===== verification/Page_Cursor.thy ===== *)
theory Page_Cursor
  imports Stream_Hub Go_Base64
begin

unbundle bit_operations_syntax

text \<open>
  The cursors of the resource lists (\<open>internal/resourcecatalog/cursor.go\<close>): the position after which a page goes on
  and the fingerprint of the query, in one string that a browser carries around. A cursor of another query is refused.
\<close>

definition cursor_version :: string where "cursor_version = ''1''"
definition cursor_sep :: char where "cursor_sep = char_of (31 :: nat)"
definition max_cursor_len :: nat where "max_cursor_len = 512"
definition max_cursor_ns_len :: nat where "max_cursor_ns_len = 63"
definition max_cursor_name :: nat where "max_cursor_name = 253"

record cursor_key =
  ck_namespace :: string
  ck_name :: string

definition encode_cursor :: "cursor_key \<Rightarrow> string \<Rightarrow> string" where
  "encode_cursor k fp = b64_encode
     (cursor_version @ [cursor_sep] @ fp @ [cursor_sep] @ ck_namespace k @ [cursor_sep] @ ck_name k)"

definition safe_cursor_char :: "char \<Rightarrow> bool" where
  "safe_cursor_char c \<longleftrightarrow> (CHR ''a'' \<le> c \<and> c \<le> CHR ''z'') \<or> (CHR ''A'' \<le> c \<and> c \<le> CHR ''Z'')
     \<or> (CHR ''0'' \<le> c \<and> c \<le> CHR ''9'') \<or> c = CHR ''-'' \<or> c = CHR ''.'' \<or> c = CHR ''_'' \<or> c = CHR '':''"

definition safe_cursor_segment :: "string \<Rightarrow> bool" where
  "safe_cursor_segment s = list_all safe_cursor_char s"

text \<open>\<open>None\<close> is \<open>ErrInvalidCursor\<close>.\<close>

definition decode_cursor :: "string \<Rightarrow> string \<Rightarrow> cursor_key option" where
  "decode_cursor s fp =
     (if length s > max_cursor_len then None
      else case b64_decode s of
        None \<Rightarrow> None
      | Some raw \<Rightarrow>
          (case str_split cursor_sep raw of
             [version, f, ns, name] \<Rightarrow>
               if version \<noteq> cursor_version \<or> f \<noteq> fp then None
               else if length ns > max_cursor_ns_len \<or> length name > max_cursor_name \<or> name = '''' then None
               else if \<not> safe_cursor_segment ns \<or> \<not> safe_cursor_segment name then None
               else Some \<lparr>ck_namespace = ns, ck_name = name\<rparr>
           | _ \<Rightarrow> None))"

section \<open>Fingerprints\<close>

text \<open>FNV-1a with 64 bits, and its bytes from the low end.\<close>

definition fnv1a :: "string \<Rightarrow> u64" where
  "fnv1a s = foldl (\<lambda>h c. (h XOR of_nat (of_char c)) * 1099511628211) 14695981039346656037 s"

definition low_bytes :: "u64 \<Rightarrow> string" where
  "low_bytes x = map (\<lambda>i. char_of (unat (drop_bit (8 * i) x AND 255))) [0 ..< 8]"

definition format_bool :: "bool \<Rightarrow> string" where
  "format_bool b = (if b then ''true'' else ''false'')"

record list_request =
  lr_namespaces_all :: bool
  lr_namespaces :: "string list"
  lr_name_prefix :: string
  lr_label_selector :: string
  lr_limit :: int
  lr_cursor :: string
  lr_descending :: bool

definition query_fingerprint :: "string \<Rightarrow> list_request \<Rightarrow> string list \<Rightarrow> bool \<Rightarrow> string" where
  "query_fingerprint gvr req namespaces al =
     hex_encode (low_bytes (fnv1a (concat (map (\<lambda>p. p @ [char_of (0 :: nat)])
       ([gvr, format_bool (lr_descending req), lr_name_prefix req, lr_label_selector req, format_bool al] @ sort namespaces)))))"

section \<open>Round trip\<close>

definition cursor_key_ok :: "cursor_key \<Rightarrow> bool" where
  "cursor_key_ok k \<longleftrightarrow> length (ck_namespace k) \<le> max_cursor_ns_len \<and> length (ck_name k) \<le> max_cursor_name \<and> ck_name k \<noteq> ''''
     \<and> safe_cursor_segment (ck_namespace k) \<and> safe_cursor_segment (ck_name k)"

lemma of_char_sep: "of_char cursor_sep = (31 :: nat)"
  by (simp add: cursor_sep_def)

lemma not_sep: "of_char c \<noteq> (31 :: nat) \<Longrightarrow> c \<noteq> cursor_sep"
  using of_char_sep by metis

lemma safe_char_range: "safe_cursor_char c \<Longrightarrow> (45 :: nat) \<le> of_char c"
  by (auto simp: safe_cursor_char_def less_eq_char_def)

lemma safe_no_sep: "safe_cursor_segment s \<Longrightarrow> cursor_sep \<notin> set s"
  using safe_char_range of_char_sep by (fastforce simp: safe_cursor_segment_def list_all_iff)

lemma decode_encode:
  assumes "cursor_sep \<notin> set fp" "cursor_sep \<notin> set (ck_namespace k)" "cursor_sep \<notin> set (ck_name k)"
    and "length (encode_cursor k fp) \<le> max_cursor_len"
  shows "decode_cursor (encode_cursor k fp) fp = (if cursor_key_ok k then Some k else None)"
proof -
  have "CHR ''1'' \<noteq> cursor_sep" by (rule not_sep) simp
  then have "cursor_sep \<notin> set cursor_version" by (auto simp: cursor_version_def)
  then have "str_split cursor_sep (cursor_version @ cursor_sep # fp @ cursor_sep # ck_namespace k @ cursor_sep # ck_name k)
      = [cursor_version, fp, ck_namespace k, ck_name k]"
    using assms(1-3) by (simp add: str_split_append str_split_clean)
  with assms(4) show ?thesis
    by (auto simp: decode_cursor_def encode_cursor_def b64_roundtrip cursor_key_ok_def)
qed

lemma encode_cursor_length:
  assumes "length fp \<le> 60" "length (ck_namespace k) \<le> max_cursor_ns_len" "length (ck_name k) \<le> max_cursor_name"
  shows "length (encode_cursor k fp) \<le> max_cursor_len"
proof -
  let ?raw = "cursor_version @ [cursor_sep] @ fp @ [cursor_sep] @ ck_namespace k @ [cursor_sep] @ ck_name k"
  have "length ?raw \<le> 380" using assms by (simp add: cursor_version_def max_cursor_ns_len_def max_cursor_name_def)
  moreover have "3 * length (b64_encode ?raw) \<le> 4 * length ?raw + 2" by (rule b64_encode_length)
  ultimately show ?thesis unfolding encode_cursor_def max_cursor_len_def by linarith
qed

lemma cursor_key_roundtrip:
  assumes "cursor_sep \<notin> set fp" "length fp \<le> 60" "cursor_key_ok k"
  shows "decode_cursor (encode_cursor k fp) fp = Some k"
  using decode_encode [OF assms(1), of k] assms(3) encode_cursor_length [OF assms(2), of k] safe_no_sep
  by (simp add: cursor_key_ok_def)

lemma hex_digit_char: "n < 16 \<Longrightarrow> hex_digit n \<noteq> cursor_sep"
  by (rule not_sep) (simp add: hex_digit_def)

lemma fingerprint_clean: "cursor_sep \<notin> set (query_fingerprint gvr req nss al)" "length (query_fingerprint gvr req nss al) = 16"
proof -
  have "cursor_sep \<notin> set (hex_encode s)" for s
  proof
    assume "cursor_sep \<in> set (hex_encode s)"
    then obtain c where "cursor_sep = hex_digit (of_char c div 16) \<or> cursor_sep = hex_digit (of_char c mod 16)"
      by (auto simp: hex_encode_def Let_def)
    moreover have "of_char c div 16 < (16 :: nat)" "of_char c mod 16 < (16 :: nat)"
      by (simp_all add: div_less_iff_less_mult)
    ultimately show False using hex_digit_char by metis
  qed
  then show "cursor_sep \<notin> set (query_fingerprint gvr req nss al)" by (simp add: query_fingerprint_def)
  have "length (hex_encode s) = 2 * length s" for s by (induction s) (simp_all add: hex_encode_def Let_def)
  then show "length (query_fingerprint gvr req nss al) = 16" by (simp add: query_fingerprint_def low_bytes_def)
qed

end
