(* ===== verification/List_Index.thy ===== *)
theory List_Index
  imports Page_Cursor Fence_Shape
begin

text \<open>
  The list of one resource type (\<open>internal/resourcecatalog/index.go\<close>, and \<open>resolve\<close> of \<open>catalog.go\<close>): an immutable
  snapshot of the objects sorted by namespace and name, read page by page. A page searches its place by the
  key in its cursor, walks over the spans of the allowed namespaces, and stops at the page size, at the byte
  budget or after a bounded number of rows. The parser of label selectors belongs to the Kubernetes libraries; a
  selector is what it decides about labels.
\<close>

section \<open>The snapshot\<close>

record object_meta =
  om_namespace :: string
  om_name :: string
  om_uid :: string
  om_labels :: "(string, string) gomap"
  om_created :: "time option"

record index_row =
  ir_namespace :: string
  ir_name :: string
  ir_obj :: "object_meta option"

abbreviation row_key :: "index_row \<Rightarrow> string \<times> string" where
  "row_key r \<equiv> (ir_namespace r, ir_name r)"

definition less_row :: "index_row \<Rightarrow> index_row \<Rightarrow> bool" where
  "less_row a b = (if ir_namespace a \<noteq> ir_namespace b then ir_namespace a < ir_namespace b else ir_name a < ir_name b)"

text \<open>Objects of another type are passed over (\<open>None\<close>).\<close>

definition build_index_snapshot :: "object_meta option list \<Rightarrow> index_row list" where
  "build_index_snapshot objs =
     sort_key row_key (map (\<lambda>m. \<lparr>ir_namespace = om_namespace m, ir_name = om_name m, ir_obj = Some m\<rparr>)
       (List.map_filter id objs))"

text \<open>\<open>sort.Search n f\<close>: the first position where \<open>f\<close> holds.\<close>

definition search_first :: "nat \<Rightarrow> (nat \<Rightarrow> bool) \<Rightarrow> nat" where
  "search_first n f = bisect (\<lambda>i. \<not> f i) 0 n"

definition index_lookup :: "index_row list \<Rightarrow> string \<Rightarrow> string \<Rightarrow> index_row option" where
  "index_lookup rows ns name =
     (let want = \<lparr>ir_namespace = ns, ir_name = name, ir_obj = None\<rparr>;
          i = search_first (length rows) (\<lambda>i. \<not> less_row (rows ! i) want) in
      if i < length rows \<and> ir_namespace (rows ! i) = ns \<and> ir_name (rows ! i) = name then Some (rows ! i) else None)"

type_synonym row_span = "nat \<times> nat"

definition namespace_span :: "index_row list \<Rightarrow> string \<Rightarrow> row_span" where
  "namespace_span rows ns =
     (search_first (length rows) (\<lambda>i. ir_namespace (rows ! i) \<ge> ns),
      search_first (length rows) (\<lambda>i. ir_namespace (rows ! i) > ns))"

section \<open>Requests\<close>

definition default_page_size :: int where "default_page_size = 50"
definition max_page_size :: int where "max_page_size = 200"
definition max_response_bytes :: int where "max_response_bytes = 2 ^ 20"
definition max_name_filter_len :: nat where "max_name_filter_len = 253"
definition max_selector_len :: nat where "max_selector_len = 512"
definition max_selector_requirements :: nat where "max_selector_requirements = 8"
definition max_scan_rows :: int where "max_scan_rows = 5000"
definition scan_factor :: int where "scan_factor = 20"
definition row_overhead_bytes :: int where "row_overhead_bytes = 96"

record resolved_request =
  rq_limit :: int
  rq_descending :: bool
  rq_name_prefix :: string
  rq_selector :: "((string, string) gomap \<Rightarrow> bool) option"
  rq_span_all :: bool
  rq_namespaces :: "string list"
  rq_cursor :: "cursor_key option"
  rq_fingerprint :: string
  rq_max_bytes :: int

fun drop_repeats :: "string list \<Rightarrow> string list" where
  "drop_repeats (x # y # xs) = (if y = x then drop_repeats (x # xs) else x # drop_repeats (y # xs))"
| "drop_repeats xs = xs"

definition sorted_unique :: "string list \<Rightarrow> string list" where
  "sorted_unique xs = (if xs = [] then [] else drop_repeats (sort xs))"

text \<open>A parsed selector: the number of its requirements, and its decision (\<open>None\<close>: it has none). \<open>parse\<close> is the
  library's parser.\<close>

type_synonym selector_parser = "string \<Rightarrow> (nat \<times> ((string, string) gomap \<Rightarrow> bool) option) option"

datatype list_error = Err_invalid_filter | Err_invalid_cursor

definition resolve_request :: "selector_parser \<Rightarrow> string \<Rightarrow> bool \<Rightarrow> list_request \<Rightarrow> list_error + resolved_request" where
  "resolve_request parse gvr namespaced req =
     (let limit = (if lr_limit req \<le> 0 then default_page_size else lr_limit req) in
      if limit > max_page_size then Inl Err_invalid_filter
      else if length (lr_name_prefix req) > max_name_filter_len then Inl Err_invalid_filter
      else if \<not> safe_cursor_segment (lr_name_prefix req) then Inl Err_invalid_filter
      else case
        (if lr_label_selector req = '''' then Some None
         else if length (lr_label_selector req) > max_selector_len then None
         else case parse (lr_label_selector req) of
           None \<Rightarrow> None
         | Some (n, sel) \<Rightarrow> if n > max_selector_requirements then None else Some sel) of
        None \<Rightarrow> Inl Err_invalid_filter
      | Some sel \<Rightarrow>
          let al = (if namespaced then lr_namespaces_all req else True);
              nss = (if namespaced then sorted_unique (lr_namespaces req) else []);
              fp = query_fingerprint gvr req nss al;
              out = \<lparr>rq_limit = limit, rq_descending = lr_descending req, rq_name_prefix = lr_name_prefix req,
                     rq_selector = sel, rq_span_all = al, rq_namespaces = nss, rq_cursor = None, rq_fingerprint = fp,
                     rq_max_bytes = max_response_bytes\<rparr> in
          if lr_cursor req = '''' then Inr out
          else case decode_cursor (lr_cursor req) fp of
            None \<Rightarrow> Inl Err_invalid_cursor
          | Some k \<Rightarrow> Inr (out\<lparr>rq_cursor := Some k\<rparr>))"

definition response_budget :: "resolved_request \<Rightarrow> int" where
  "response_budget r =
     (if rq_max_bytes r \<le> 0 \<or> rq_max_bytes r > max_response_bytes then max_response_bytes else rq_max_bytes r)"

definition row_matches :: "index_row \<Rightarrow> resolved_request \<Rightarrow> bool" where
  "row_matches row req =
     (if rq_name_prefix req \<noteq> '''' \<and> \<not> has_prefix (ir_name row) (rq_name_prefix req) then False
      else case rq_selector req of
        None \<Rightarrow> True
      | Some sel \<Rightarrow> (case ir_obj row of None \<Rightarrow> False | Some m \<Rightarrow> sel (om_labels m)))"

section \<open>The walk\<close>

definition less_key :: "cursor_key \<Rightarrow> cursor_key \<Rightarrow> bool" where
  "less_key a b = (if ck_namespace a \<noteq> ck_namespace b then ck_namespace a < ck_namespace b else ck_name a < ck_name b)"

definition key_of_row :: "index_row \<Rightarrow> cursor_key" where
  "key_of_row r = \<lparr>ck_namespace = ir_namespace r, ck_name = ir_name r\<rparr>"

definition clip_span :: "index_row list \<Rightarrow> cursor_key \<Rightarrow> bool \<Rightarrow> row_span \<Rightarrow> row_span list" where
  "clip_span rows cursor desc sp =
     (case sp of (lo, hi) \<Rightarrow>
      if desc then
        (let hi1 = lo + search_first (hi - lo) (\<lambda>i. \<not> less_key (key_of_row (rows ! (lo + i))) cursor) in
         if hi1 > lo then [(lo, hi1)] else [])
      else
        (let lo1 = lo + search_first (hi - lo) (\<lambda>i. less_key cursor (key_of_row (rows ! (lo + i)))) in
         if lo1 < hi then [(lo1, hi)] else []))"

definition clip_spans :: "index_row list \<Rightarrow> row_span list \<Rightarrow> cursor_key \<Rightarrow> bool \<Rightarrow> row_span list" where
  "clip_spans rows spans cursor desc = concat (map (clip_span rows cursor desc) spans)"

text \<open>The position in a span counts down in a descending walk, to one below its start.\<close>

record row_walker =
  wk_rows :: "index_row list"
  wk_spans :: "row_span list"
  wk_desc :: bool
  wk_s :: nat
  wk_i :: int
  wk_done :: bool

definition span_start :: "bool \<Rightarrow> row_span \<Rightarrow> int" where
  "span_start desc sp = (if desc then int (snd sp) - 1 else int (fst sp))"

definition request_spans :: "index_row list \<Rightarrow> resolved_request \<Rightarrow> row_span list" where
  "request_spans rows req =
     (let spans = (if rq_span_all req then [(0, length rows)]
                   else filter (\<lambda>sp. fst sp < snd sp) (map (namespace_span rows) (rq_namespaces req)));
          clipped = (case rq_cursor req of None \<Rightarrow> spans | Some k \<Rightarrow> clip_spans rows spans k (rq_descending req)) in
      if rq_descending req then rev clipped else clipped)"

definition new_walker :: "index_row list \<Rightarrow> resolved_request \<Rightarrow> row_walker" where
  "new_walker rows req =
     (let spans = request_spans rows req in
      \<lparr>wk_rows = rows, wk_spans = spans, wk_desc = rq_descending req, wk_s = 0,
       wk_i = (if spans = [] then 0 else span_start (rq_descending req) (spans ! 0)), wk_done = (spans = [])\<rparr>)"

definition in_span :: "bool \<Rightarrow> row_span \<Rightarrow> int \<Rightarrow> bool" where
  "in_span desc sp i = (if desc then int (fst sp) \<le> i else i < int (snd sp))"

definition has_next :: "row_walker \<Rightarrow> bool" where
  "has_next w =
     (if wk_done w \<or> wk_s w \<ge> length (wk_spans w) then False
      else in_span (wk_desc w) (wk_spans w ! wk_s w) (wk_i w) \<or> wk_s w + 1 < length (wk_spans w))"

definition enter_span :: "row_walker \<Rightarrow> row_walker" where
  "enter_span w =
     (let s = wk_s w + 1 in
      if s < length (wk_spans w) then w\<lparr>wk_s := s, wk_i := span_start (wk_desc w) (wk_spans w ! s)\<rparr> else w\<lparr>wk_s := s\<rparr>)"

lemma enter_span_simps [simp]: "wk_s (enter_span w) = wk_s w + 1" "wk_spans (enter_span w) = wk_spans w"
  "wk_rows (enter_span w) = wk_rows w" "wk_desc (enter_span w) = wk_desc w" "wk_done (enter_span w) = wk_done w"
  by (simp_all add: enter_span_def Let_def)

function walker_next :: "row_walker \<Rightarrow> row_walker \<times> index_row option" where
  "walker_next w =
     (if \<not> (\<not> wk_done w \<and> wk_s w < length (wk_spans w)) then (w\<lparr>wk_done := True\<rparr>, None)
      else if \<not> in_span (wk_desc w) (wk_spans w ! wk_s w) (wk_i w) then walker_next (enter_span w)
      else (w\<lparr>wk_i := (if wk_desc w then wk_i w - 1 else wk_i w + 1)\<rparr>, Some (wk_rows w ! nat (wk_i w))))"
  by pat_completeness auto
termination
  by (relation "measure (\<lambda>w. length (wk_spans w) - wk_s w)") auto

declare walker_next.simps [simp del]

section \<open>Pages\<close>

record list_row =
  lw_namespace :: string
  lw_name :: string
  lw_uid :: string
  lw_created_at :: string

record list_page =
  lp_items :: "list_row list"
  lp_next_cursor :: string
  lp_truncated :: bool
  lp_total :: nat

definition to_row :: "(time \<Rightarrow> string) \<Rightarrow> index_row \<Rightarrow> list_row" where
  "to_row stamp r =
     \<lparr>lw_namespace = ir_namespace r, lw_name = ir_name r,
      lw_uid = (case ir_obj r of None \<Rightarrow> '''' | Some m \<Rightarrow> om_uid m),
      lw_created_at = (case ir_obj r of None \<Rightarrow> '''' | Some m \<Rightarrow> (case om_created m of None \<Rightarrow> '''' | Some t \<Rightarrow> stamp t))\<rparr>"

definition scan_budget :: "resolved_request \<Rightarrow> int" where
  "scan_budget req =
     (let b = min (rq_limit req * scan_factor) max_scan_rows in if b < rq_limit req then rq_limit req else b)"

definition row_cost :: "index_row \<Rightarrow> int" where
  "row_cost r = row_overhead_bytes + int (length (ir_namespace r)) + int (length (ir_name r))"

text \<open>What is left to walk; the loop of \<open>page\<close> ends because every turn takes one row away.\<close>

definition walker_left :: "row_walker \<Rightarrow> nat" where
  "walker_left w =
     (if wk_done w then 0
      else (\<Sum>(lo, hi) \<leftarrow> drop (Suc (wk_s w)) (wk_spans w). hi - lo)
        + (if wk_s w < length (wk_spans w)
           then (if wk_desc w then nat (wk_i w + 1 - int (fst (wk_spans w ! wk_s w)))
                 else nat (int (snd (wk_spans w ! wk_s w)) - wk_i w))
           else 0))"

lemma enter_span_left:
  assumes "wk_s w < length (wk_spans w)"
  shows "walker_left (enter_span w) \<le> walker_left w"
proof (cases "wk_s w + 1 < length (wk_spans w)")
  case True
  let ?s = "wk_spans w ! (wk_s w + 1)"
  obtain lo hi where s: "?s = (lo, hi)" by (rule prod.exhaust)
  have "drop (Suc (wk_s w)) (wk_spans w) = ?s # drop (Suc (Suc (wk_s w))) (wk_spans w)"
    using True by (simp add: Cons_nth_drop_Suc)
  with True s show ?thesis by (auto simp: walker_left_def enter_span_def Let_def span_start_def)
qed (simp add: walker_left_def)

lemma walker_next_left: "walker_next w = (w', Some r) \<Longrightarrow> walker_left w' < walker_left w"
proof (induction w rule: walker_next.induct)
  case (1 w)
  show ?case
  proof (cases "\<not> wk_done w \<and> wk_s w < length (wk_spans w)")
    case False
    with 1(2) show ?thesis by (simp add: walker_next.simps [of w])
  next
    case live: True
    show ?thesis
    proof (cases "in_span (wk_desc w) (wk_spans w ! wk_s w) (wk_i w)")
      case False
      then have "walker_left w' < walker_left (enter_span w)"
        using 1 live by (simp add: walker_next.simps [of w])
      with enter_span_left [of w] live show ?thesis by simp
    next
      case True
      then have "w' = w\<lparr>wk_i := (if wk_desc w then wk_i w - 1 else wk_i w + 1)\<rparr>"
        using 1(2) live by (simp add: walker_next.simps [of w])
      with True live show ?thesis by (auto simp: walker_left_def in_span_def)
    qed
  qed
qed

function page_loop :: "(time \<Rightarrow> string) \<Rightarrow> resolved_request \<Rightarrow> row_walker \<Rightarrow> int \<Rightarrow> int \<Rightarrow> cursor_key option \<Rightarrow> list_page
    \<Rightarrow> list_page" where
  "page_loop stamp req w budget examined last_key page =
     (case walker_next w of
        (w1, None) \<Rightarrow> page
      | (w1, Some row) \<Rightarrow>
          let cost = row_cost row in
          if row_matches row req \<and> lp_items page \<noteq> [] \<and> cost > budget then
            (let p = page\<lparr>lp_truncated := True\<rparr> in
             case last_key of None \<Rightarrow> p | Some k \<Rightarrow> p\<lparr>lp_next_cursor := encode_cursor k (rq_fingerprint req)\<rparr>)
          else
            (let budget1 = (if row_matches row req then budget - cost else budget);
                 page1 = (if row_matches row req then page\<lparr>lp_items := lp_items page @ [to_row stamp row]\<rparr> else page);
                 k = key_of_row row in
             if int (length (lp_items page1)) \<ge> rq_limit req \<or> examined + 1 \<ge> scan_budget req then
               (if has_next w1
                then page1\<lparr>lp_truncated := True, lp_next_cursor := encode_cursor k (rq_fingerprint req)\<rparr> else page1)
             else page_loop stamp req w1 budget1 (examined + 1) (Some k) page1))"
  by pat_completeness auto
termination
  by (relation "measure (\<lambda>(_, _, w, _). walker_left w)") (auto dest: walker_next_left [OF sym])

declare page_loop.simps [simp del]

definition list_page_of :: "(time \<Rightarrow> string) \<Rightarrow> index_row list \<Rightarrow> resolved_request \<Rightarrow> list_page" where
  "list_page_of stamp rows req =
     page_loop stamp req (new_walker rows req) (response_budget req) 0 None
       \<lparr>lp_items = [], lp_next_cursor = '''', lp_truncated = False, lp_total = length rows\<rparr>"

end
