(* ===== verification/List_Laws.thy ===== *)
theory List_Laws
  imports List_Index Fence_Laws
begin

text \<open>
  What a walk over a snapshot yields: the rows of the allowed namespaces beyond the cursor, in order. The searches
  become filters of the sorted list, the spans become slices, and the walker a list of rows still to come.
\<close>

section \<open>Searching a sorted list\<close>

lemma bisect_cong: "(\<And>i. i < hi \<Longrightarrow> P i = Q i) \<Longrightarrow> bisect P lo hi = bisect Q lo hi"
proof (induction P lo hi rule: bisect.induct)
  case (1 P lo hi)
  show ?case
  proof (cases "lo < hi")
    case True
    then have "(lo + hi) div 2 < hi" by simp
    then have "P ((lo + hi) div 2) = Q ((lo + hi) div 2)" "\<And>i. i < (lo + hi) div 2 \<Longrightarrow> P i = Q i" using 1(3) by auto
    with 1 True show ?thesis by (simp add: bisect.simps [of P lo hi] bisect.simps [of Q lo hi] Let_def)
  next
    case False
    then show ?thesis by (simp add: bisect.simps [of P lo hi] bisect.simps [of Q lo hi])
  qed
qed

lemma search_splits:
  assumes "\<And>i j. \<lbrakk>i \<le> j; j < length xs; P (xs ! i)\<rbrakk> \<Longrightarrow> P (xs ! j)"
  shows "search_first (length xs) (\<lambda>i. P (xs ! i)) \<le> length xs"
    and "take (search_first (length xs) (\<lambda>i. P (xs ! i))) xs = filter (\<lambda>x. \<not> P x) xs"
    and "drop (search_first (length xs) (\<lambda>i. P (xs ! i))) xs = filter P xs"
proof -
  define n where "n = search_first (length xs) (\<lambda>i. P (xs ! i))"
  have "parts_at (\<lambda>i. \<not> P (xs ! i)) 0 (length xs) n"
    unfolding n_def search_first_def by (rule bisect_parts) (use assms in auto)
  then have n: "n \<le> length xs" "\<And>i. i < n \<Longrightarrow> \<not> P (xs ! i)" "\<And>i. \<lbrakk>n \<le> i; i < length xs\<rbrakk> \<Longrightarrow> P (xs ! i)"
    by (auto simp: parts_at_def)
  have "\<forall>x \<in> set (take n xs). \<not> P x" "\<forall>x \<in> set (drop n xs). P x"
    using n by (auto simp: in_set_conv_nth)
  then have "filter P (take n xs) = []" "filter P (drop n xs) = drop n xs"
    "filter (\<lambda>x. \<not> P x) (take n xs) = take n xs" "filter (\<lambda>x. \<not> P x) (drop n xs) = []"
    by (auto simp: filter_empty_conv)
  then have "filter P (take n xs @ drop n xs) = drop n xs" "filter (\<lambda>x. \<not> P x) (take n xs @ drop n xs) = take n xs"
    unfolding filter_append by simp_all
  with n(1) show "search_first (length xs) (\<lambda>i. P (xs ! i)) \<le> length xs"
    "take (search_first (length xs) (\<lambda>i. P (xs ! i))) xs = filter (\<lambda>x. \<not> P x) xs"
    "drop (search_first (length xs) (\<lambda>i. P (xs ! i))) xs = filter P xs"
    unfolding n_def [symmetric] by simp_all
qed

lemma filter_before:
  assumes "sorted_wrt R xs" "\<And>x y. \<lbrakk>x \<in> set xs; y \<in> set xs; R x y; B x; A y\<rbrakk> \<Longrightarrow> False"
    "\<And>x. x \<in> set xs \<Longrightarrow> \<not> (A x \<and> B x)"
  shows "filter (\<lambda>x. A x \<or> B x) xs = filter A xs @ filter B xs"
  using assms
proof (induction xs)
  case (Cons x xs)
  then have IH: "filter (\<lambda>x. A x \<or> B x) xs = filter A xs @ filter B xs" by auto
  show ?case
  proof (cases "B x")
    case True
    then have "filter A xs = []" using Cons.prems(1,2) by (auto simp: filter_empty_conv)
    with True IH Cons.prems(3) [of x] show ?thesis by simp
  qed (use IH in simp)
qed simp

section \<open>Keys\<close>

abbreviation cursor_pair :: "cursor_key \<Rightarrow> string \<times> string" where
  "cursor_pair k \<equiv> (ck_namespace k, ck_name k)"

lemma less_key_pair: "less_key a b \<longleftrightarrow> cursor_pair a < cursor_pair b"
  by (auto simp: less_key_def less_prod_def)

lemma less_row_pair: "less_row a b \<longleftrightarrow> row_key a < row_key b"
  by (auto simp: less_row_def less_prod_def)

lemma key_of_row_pair [simp]: "cursor_pair (key_of_row r) = row_key r"
  by (simp add: key_of_row_def)

definition rows_ok :: "index_row list \<Rightarrow> bool" where
  "rows_ok rows \<longleftrightarrow> sorted_wrt (\<lambda>a b. row_key a < row_key b) rows"

lemma rows_ok_mono:
  assumes "rows_ok rows" "i \<le> j" "j < length rows"
  shows "row_key (rows ! i) \<le> row_key (rows ! j)" "ir_namespace (rows ! i) \<le> ir_namespace (rows ! j)"
proof -
  have "i = j \<or> row_key (rows ! i) < row_key (rows ! j)"
    using assms by (cases "i = j") (auto simp: rows_ok_def sorted_wrt_iff_nth_less)
  then show "row_key (rows ! i) \<le> row_key (rows ! j)" "ir_namespace (rows ! i) \<le> ir_namespace (rows ! j)"
    by (auto simp: less_prod_def)
qed

lemma rows_ok_slice: "rows_ok rows \<Longrightarrow> rows_ok (take n (drop m rows))"
  by (simp add: rows_ok_def sorted_wrt_take sorted_wrt_drop)

text \<open>A snapshot is sorted; with one object for a name it is strictly sorted.\<close>

lemma build_index_ok:
  assumes "distinct (map (\<lambda>m. (om_namespace m, om_name m)) (List.map_filter id objs))"
  shows "rows_ok (build_index_snapshot objs)"
proof -
  let ?f = "\<lambda>m. \<lparr>ir_namespace = om_namespace m, ir_name = om_name m, ir_obj = Some m\<rparr>"
  let ?xs = "map ?f (List.map_filter id objs)"
  have "map row_key ?xs = map (\<lambda>m. (om_namespace m, om_name m)) (List.map_filter id objs)" by simp
  then have "distinct (map row_key ?xs)" using assms by (simp only:)
  then have d: "distinct (map row_key (sort_key row_key ?xs))"
    by (simp only: distinct_map set_sort distinct_sort)
  have "sorted (map row_key (sort_key row_key ?xs))" by (rule sorted_sort_key)
  with d have "sorted_wrt (<) (map row_key (sort_key row_key ?xs))" using strict_sorted_iff by blast
  then show ?thesis by (simp add: rows_ok_def build_index_snapshot_def sorted_wrt_map)
qed

lemma index_lookup_find:
  assumes "rows_ok rows"
  shows "index_lookup rows ns name = List.find (\<lambda>r. ir_namespace r = ns \<and> ir_name r = name) rows"
proof -
  let ?P = "\<lambda>r. \<not> row_key r < (ns, name)"
  define i where "i = search_first (length rows) (\<lambda>i. ?P (rows ! i))"
  have mono: "?P (rows ! b)" if "a \<le> b" "b < length rows" "?P (rows ! a)" for a b
    using rows_ok_mono(1) [OF assms that(1,2)] that(3) by order
  have s: "i \<le> length rows" "take i rows = filter (\<lambda>x. \<not> ?P x) rows" "drop i rows = filter ?P rows"
    unfolding i_def by (rule search_splits, erule (2) mono)+
  have lk: "index_lookup rows ns name
      = (if i < length rows \<and> row_key (rows ! i) = (ns, name) then Some (rows ! i) else None)"
    by (simp add: index_lookup_def less_row_pair i_def Let_def)
  have before: "\<forall>r \<in> set (take i rows). row_key r < (ns, name)"
    unfolding s(2) by (auto simp del: less_prod_simp)
  have rows: "rows = take i rows @ drop i rows" by simp
  have fb: "List.find (\<lambda>r. ir_namespace r = ns \<and> ir_name r = name) (take i rows) = None"
    using before by (fastforce simp: find_None_iff)
  have split: "List.find P (xs @ ys) = (case List.find P xs of None \<Rightarrow> List.find P ys | Some x \<Rightarrow> Some x)" for P and xs ys :: "index_row list"
    by (induction xs) auto
  have f: "List.find (\<lambda>r. ir_namespace r = ns \<and> ir_name r = name) rows
      = List.find (\<lambda>r. ir_namespace r = ns \<and> ir_name r = name) (drop i rows)"
    by (subst rows, subst split) (simp add: fb)
  show ?thesis
  proof (cases "drop i rows")
    case Nil
    then show ?thesis unfolding f lk by simp
  next
    case (Cons r rest)
    then have i: "i < length rows" "rows ! i = r" by (metis drop_all list.distinct(1) not_le, metis nth_via_drop)
    have "sorted_wrt (\<lambda>a b. row_key a < row_key b) (drop i rows)" using assms by (simp only: rows_ok_def sorted_wrt_drop)
    then have "\<forall>x \<in> set rest. row_key r < row_key x" unfolding Cons by (simp del: less_prod_simp)
    moreover have "r \<in> set (filter ?P rows)" unfolding s(3) [symmetric] Cons by simp
    then have "\<not> row_key r < (ns, name)" by (simp del: less_prod_simp)
    ultimately have "\<forall>x \<in> set rest. row_key x \<noteq> (ns, name)" by fastforce
    then have "List.find (\<lambda>r. ir_namespace r = ns \<and> ir_name r = name) rest = None" by (auto simp: find_None_iff)
    then show ?thesis unfolding f lk Cons using i by simp
  qed
qed

section \<open>Spans\<close>

definition row_slice :: "index_row list \<Rightarrow> row_span \<Rightarrow> index_row list" where
  "row_slice rows sp = take (snd sp - fst sp) (drop (fst sp) rows)"

definition span_ok :: "index_row list \<Rightarrow> row_span \<Rightarrow> bool" where
  "span_ok rows sp \<longleftrightarrow> fst sp < snd sp \<and> snd sp \<le> length rows"

lemma row_slice_empty: "snd sp \<le> fst sp \<Longrightarrow> row_slice rows sp = []"
  by (simp add: row_slice_def)

lemma namespace_slice:
  assumes "rows_ok rows"
  shows "snd (namespace_span rows ns) \<le> length rows"
    and "row_slice rows (namespace_span rows ns) = filter (\<lambda>r. ir_namespace r = ns) rows"
proof -
  let ?f = ir_namespace
  define lo hi where "lo = search_first (length rows) (\<lambda>i. ?f (rows ! i) \<ge> ns)"
    and "hi = search_first (length rows) (\<lambda>i. ?f (rows ! i) > ns)"
  have mono: "?f (rows ! a) \<le> ?f (rows ! b)" if "a \<le> b" "b < length rows" for a b
    by (rule rows_ok_mono(2) [OF assms that])
  have lo: "lo \<le> length rows" "take lo rows = filter (\<lambda>r. \<not> ?f r \<ge> ns) rows" "drop lo rows = filter (\<lambda>r. ?f r \<ge> ns) rows"
    unfolding lo_def using search_splits [of rows "\<lambda>r. ?f r \<ge> ns"] mono by (meson order_trans)+
  have hi: "hi \<le> length rows" "take hi rows = filter (\<lambda>r. \<not> ?f r > ns) rows"
    unfolding hi_def using search_splits [of rows "\<lambda>r. ?f r > ns"] mono by (meson less_le_trans)+
  have srt: "sorted_wrt (\<lambda>a b. row_key a < row_key b) rows" using assms by (simp only: rows_ok_def)
  have "filter (\<lambda>r. ?f r < ns \<or> ?f r = ns) rows = filter (\<lambda>r. ?f r < ns) rows @ filter (\<lambda>r. ?f r = ns) rows"
    by (rule filter_before [OF srt]) auto
  moreover have "filter (\<lambda>r. \<not> ?f r > ns) rows = filter (\<lambda>r. ?f r < ns \<or> ?f r = ns) rows" by (rule filter_cong) auto
  ultimately have "hi = lo + length (filter (\<lambda>r. ?f r = ns) rows)"
    using arg_cong [OF lo(2), of length] arg_cong [OF hi(2), of length] lo(1) hi(1) by (simp add: not_le)
  moreover have "filter (\<lambda>r. ?f r = ns \<or> ?f r > ns) rows = filter (\<lambda>r. ?f r = ns) rows @ filter (\<lambda>r. ?f r > ns) rows"
    by (rule filter_before [OF srt]) auto
  moreover have "filter (\<lambda>r. ?f r \<ge> ns) rows = filter (\<lambda>r. ?f r = ns \<or> ?f r > ns) rows" by (rule filter_cong) auto
  ultimately have "take (hi - lo) (drop lo rows) = filter (\<lambda>r. ?f r = ns) rows" using lo(3) by simp
  then show "row_slice rows (namespace_span rows ns) = filter (\<lambda>r. ?f r = ns) rows"
    by (simp add: row_slice_def namespace_span_def lo_def hi_def)
  show "snd (namespace_span rows ns) \<le> length rows" using hi(1) by (simp add: namespace_span_def hi_def)
qed

lemma filter_namespaces:
  assumes "rows_ok rows" "sorted_wrt (<) nss"
  shows "concat (map (\<lambda>ns. filter (\<lambda>r. ir_namespace r = ns) rows) nss) = filter (\<lambda>r. ir_namespace r \<in> set nss) rows"
  using assms(2)
proof (induction nss)
  case (Cons ns nss)
  have srt: "sorted_wrt (\<lambda>a b. row_key a < row_key b) rows" using assms(1) by (simp only: rows_ok_def)
  have "filter (\<lambda>r. ir_namespace r = ns \<or> ir_namespace r \<in> set nss) rows
      = filter (\<lambda>r. ir_namespace r = ns) rows @ filter (\<lambda>r. ir_namespace r \<in> set nss) rows"
    by (rule filter_before [OF srt]) (use Cons.prems in auto)
  with Cons show ?case by simp
qed simp

text \<open>Clipping keeps the part of a row_slice beyond the cursor.\<close>

definition beyond :: "bool \<Rightarrow> cursor_key \<Rightarrow> index_row \<Rightarrow> bool" where
  "beyond desc k r = (if desc then less_key (key_of_row r) k else less_key k (key_of_row r))"

lemma clip_slices:
  assumes "rows_ok rows" "span_ok rows sp"
  shows "concat (map (row_slice rows) (clip_span rows k desc sp)) = filter (beyond desc k) (row_slice rows sp)
    \<and> (\<forall>s \<in> set (clip_span rows k desc sp). span_ok rows s)"
proof -
  obtain lo hi where sp: "sp = (lo, hi)" by (rule prod.exhaust)
  let ?xs = "row_slice rows sp"
  have len: "length ?xs = hi - lo" using assms(2) by (auto simp: row_slice_def span_ok_def sp)
  have nth: "rows ! (lo + i) = ?xs ! i" if "i < hi - lo" for i
    using that assms(2) by (simp add: row_slice_def span_ok_def sp)
  have srt: "rows_ok ?xs" unfolding row_slice_def by (rule rows_ok_slice [OF assms(1)])
  have same: "search_first (hi - lo) (\<lambda>i. P (rows ! (lo + i))) = search_first (length ?xs) (\<lambda>i. P (?xs ! i))" for P
    unfolding search_first_def len by (rule bisect_cong) (simp add: nth)
  have mono: "row_key (?xs ! a) \<le> row_key (?xs ! b)" if "a \<le> b" "b < length ?xs" for a b
    by (rule rows_ok_mono(1) [OF srt that])
  show ?thesis
  proof (cases desc)
    case True
    let ?P = "\<lambda>r. \<not> less_key (key_of_row r) k"
    define n where "n = search_first (length ?xs) (\<lambda>i. ?P (?xs ! i))"
    have n: "n \<le> length ?xs" "take n ?xs = filter (\<lambda>x. \<not> ?P x) ?xs"
      unfolding n_def less_key_pair key_of_row_pair
      using search_splits [of ?xs "\<lambda>r. \<not> row_key r < cursor_pair k"] mono by (meson le_less_trans)+
    have sl: "row_slice rows (lo, lo + n) = take n ?xs" using n(1) len by (simp add: row_slice_def sp min_def)
    have "clip_span rows k desc sp = (if lo + n > lo then [(lo, lo + n)] else [])"
      using True same [of ?P] by (simp add: clip_span_def sp n_def Let_def)
    then show ?thesis using n sl len assms(2) True by (auto simp: span_ok_def sp beyond_def [abs_def])
  next
    case False
    let ?P = "\<lambda>r. less_key k (key_of_row r)"
    define n where "n = search_first (length ?xs) (\<lambda>i. ?P (?xs ! i))"
    have n: "n \<le> length ?xs" "drop n ?xs = filter ?P ?xs"
      unfolding n_def less_key_pair key_of_row_pair
      using search_splits [of ?xs "\<lambda>r. cursor_pair k < row_key r"] mono by (meson less_le_trans)+
    have sl: "row_slice rows (lo + n, hi) = drop n ?xs" by (simp add: row_slice_def sp drop_take add.commute)
    have "clip_span rows k desc sp = (if lo + n < hi then [(lo + n, hi)] else [])"
      using False same [of ?P] by (simp add: clip_span_def sp n_def Let_def)
    then show ?thesis using n sl len assms(2) False by (auto simp: span_ok_def sp beyond_def [abs_def])
  qed
qed

section \<open>The spans of a request\<close>

definition allowed_row :: "resolved_request \<Rightarrow> index_row \<Rightarrow> bool" where
  "allowed_row req r \<longleftrightarrow> rq_span_all req \<or> ir_namespace r \<in> set (rq_namespaces req)"

definition ahead_rows :: "index_row list \<Rightarrow> resolved_request \<Rightarrow> index_row list" where
  "ahead_rows rows req =
     (let xs = filter (\<lambda>r. allowed_row req r \<and> (case rq_cursor req of None \<Rightarrow> True | Some k \<Rightarrow> beyond (rq_descending req) k r)) rows in
      if rq_descending req then rev xs else xs)"

definition span_rows :: "index_row list \<Rightarrow> bool \<Rightarrow> row_span \<Rightarrow> index_row list" where
  "span_rows rows desc sp = (if desc then rev (row_slice rows sp) else row_slice rows sp)"

lemma concat_rev: "concat (map (\<lambda>x. rev (f x)) (rev xs)) = rev (concat (map f xs))"
  by (simp add: rev_concat rev_map o_def)

lemma request_spans_ahead:
  assumes "rows_ok rows" "sorted_wrt (<) (rq_namespaces req)"
  shows "concat (map (span_rows rows (rq_descending req)) (request_spans rows req)) = ahead_rows rows req"
    and "\<forall>sp \<in> set (request_spans rows req). span_ok rows sp \<or> (rows = [] \<and> request_spans rows req = [(0, 0)])"
proof -
  define base where "base = (if rq_span_all req then [(0, length rows)]
    else filter (\<lambda>sp. fst sp < snd sp) (map (namespace_span rows) (rq_namespaces req)))"
  have b1: "concat (map (row_slice rows) base) = filter (allowed_row req) rows"
  proof (cases "rq_span_all req")
    case True
    then show ?thesis by (simp add: base_def row_slice_def allowed_row_def)
  next
    case False
    have "concat (map (row_slice rows) (filter (\<lambda>sp. fst sp < snd sp) spans)) = concat (map (row_slice rows) spans)" for spans
      by (induction spans) (auto simp: row_slice_empty)
    then have "concat (map (row_slice rows) base) = concat (map (\<lambda>ns. row_slice rows (namespace_span rows ns)) (rq_namespaces req))"
      using False by (simp add: base_def o_def)
    also have "\<dots> = filter (\<lambda>r. ir_namespace r \<in> set (rq_namespaces req)) rows"
      unfolding namespace_slice(2) [OF assms(1)] by (rule filter_namespaces [OF assms])
    finally show ?thesis using False by (simp add: allowed_row_def [abs_def])
  qed
  have b2: "\<forall>sp \<in> set base. span_ok rows sp \<or> (rows = [] \<and> base = [(0, 0)])"
  proof (cases "rq_span_all req")
    case False
    have "snd sp \<le> length rows" if "sp \<in> set (map (namespace_span rows) (rq_namespaces req))" for sp
      using that namespace_slice(1) [OF assms(1)] by auto
    with False show ?thesis by (auto simp: base_def span_ok_def)
  qed (auto simp: base_def span_ok_def)
  define clipped where "clipped = (case rq_cursor req of None \<Rightarrow> base | Some k \<Rightarrow> clip_spans rows base k (rq_descending req))"
  have rs: "request_spans rows req = (if rq_descending req then rev clipped else clipped)"
    unfolding request_spans_def base_def [symmetric] clipped_def [symmetric] Let_def ..
  have c: "concat (map (row_slice rows) clipped)
      = filter (\<lambda>r. allowed_row req r \<and> (case rq_cursor req of None \<Rightarrow> True | Some k \<Rightarrow> beyond (rq_descending req) k r)) rows
    \<and> (\<forall>sp \<in> set clipped. span_ok rows sp \<or> (rows = [] \<and> clipped = [(0, 0)]))"
  proof (cases "rq_cursor req")
    case None
    with b1 b2 show ?thesis by (simp add: clipped_def)
  next
    case (Some k)
    show ?thesis
    proof (cases "rows = [] \<and> base = [(0, 0)]")
      case True
      then have "clip_spans rows base k (rq_descending req) = []"
        by (auto simp: clip_spans_def clip_span_def search_first_def bisect.simps)
      with Some True show ?thesis by (simp add: clipped_def)
    next
      case False
      with b2 have ok: "\<forall>sp \<in> set base. span_ok rows sp" by blast
      then have "concat (map (row_slice rows) (clip_spans rows base k (rq_descending req)))
          = filter (beyond (rq_descending req) k) (concat (map (row_slice rows) base))
        \<and> (\<forall>sp \<in> set (clip_spans rows base k (rq_descending req)). span_ok rows sp)"
        by (induction base) (use clip_slices [OF assms(1)] in \<open>auto simp: clip_spans_def\<close>)
      with Some show ?thesis unfolding b1 by (simp add: clipped_def filter_filter conj_commute)
    qed
  qed
  show "concat (map (span_rows rows (rq_descending req)) (request_spans rows req)) = ahead_rows rows req"
    using c by (simp add: rs ahead_rows_def span_rows_def [abs_def] concat_rev Let_def)
  show "\<forall>sp \<in> set (request_spans rows req). span_ok rows sp \<or> (rows = [] \<and> request_spans rows req = [(0, 0)])"
    using c by (auto simp: rs)
qed

end
