(* ===== verification/List_Props.thy ===== *)
theory List_Props
  imports List_Laws
begin

text \<open>
  Paging is complete: whoever follows the cursors from the first page gets every row that the request asks for,
  once and in order. A page is a segment of the walk, and the next one starts where it ended.
\<close>

section \<open>The walker as a list\<close>

definition current_rows :: "row_walker \<Rightarrow> index_row list" where
  "current_rows w =
     (case wk_spans w ! wk_s w of (lo, hi) \<Rightarrow>
        if wk_desc w then rev (row_slice (wk_rows w) (lo, nat (wk_i w + 1))) else row_slice (wk_rows w) (nat (wk_i w), hi))"

definition walker_rows :: "row_walker \<Rightarrow> index_row list" where
  "walker_rows w =
     (if wk_done w \<or> length (wk_spans w) \<le> wk_s w then []
      else current_rows w @ concat (map (span_rows (wk_rows w) (wk_desc w)) (drop (Suc (wk_s w)) (wk_spans w))))"

definition walker_ok :: "row_walker \<Rightarrow> bool" where
  "walker_ok w \<longleftrightarrow> (\<forall>sp \<in> set (wk_spans w). fst sp \<le> snd sp \<and> snd sp \<le> length (wk_rows w))
     \<and> (\<not> wk_done w \<and> wk_s w < length (wk_spans w) \<longrightarrow>
        (case wk_spans w ! wk_s w of (lo, hi) \<Rightarrow>
           if wk_desc w then int lo - 1 \<le> wk_i w \<and> wk_i w \<le> int hi - 1 else int lo \<le> wk_i w \<and> wk_i w \<le> int hi))"

lemma row_slice_Cons: "\<lbrakk>i < hi; hi \<le> length rows\<rbrakk> \<Longrightarrow> row_slice rows (i, hi) = rows ! i # row_slice rows (Suc i, hi)"
proof -
  assume i: "i < hi" "hi \<le> length rows"
  then have "take (hi - i) (drop i rows) = rows ! i # take (hi - Suc i) (drop (Suc i) rows)"
    using Cons_nth_drop_Suc [of i rows] Suc_diff_Suc [of i hi] by (metis less_le_trans take_Suc_Cons)
  then show ?thesis by (simp add: row_slice_def)
qed

lemma row_slice_snoc: "\<lbrakk>lo \<le> i; i < length rows\<rbrakk> \<Longrightarrow> row_slice rows (lo, Suc i) = row_slice rows (lo, i) @ [rows ! i]"
  by (simp add: row_slice_def Suc_diff_le take_Suc_conv_app_nth)

lemma enter_span_rows:
  assumes "walker_ok w" "\<not> wk_done w" "wk_s w < length (wk_spans w)"
  shows "walker_ok (enter_span w)"
    and "walker_rows (enter_span w) = concat (map (span_rows (wk_rows w) (wk_desc w)) (drop (Suc (wk_s w)) (wk_spans w)))"
proof -
  obtain lo hi where s: "wk_spans w ! (wk_s w + 1) = (lo, hi)" by (rule prod.exhaust)
  show "walker_ok (enter_span w)"
  proof (cases "wk_s w + 1 < length (wk_spans w)")
    case True
    then have "lo \<le> hi" using assms(1) s nth_mem [OF True] by (fastforce simp: walker_ok_def)
    with True s assms(1) show ?thesis by (auto simp: walker_ok_def enter_span_def Let_def span_start_def)
  qed (use assms(1) in \<open>simp add: walker_ok_def\<close>)
  show "walker_rows (enter_span w) = concat (map (span_rows (wk_rows w) (wk_desc w)) (drop (Suc (wk_s w)) (wk_spans w)))"
  proof (cases "wk_s w + 1 < length (wk_spans w)")
    case True
    then have "drop (Suc (wk_s w)) (wk_spans w) = (lo, hi) # drop (Suc (Suc (wk_s w))) (wk_spans w)"
      using s by (simp flip: Cons_nth_drop_Suc)
    moreover have "current_rows (enter_span w) = span_rows (wk_rows w) (wk_desc w) (lo, hi)"
      using True s by (simp add: current_rows_def enter_span_def Let_def span_start_def span_rows_def)
    ultimately show ?thesis using True assms(2) by (simp add: walker_rows_def)
  qed (simp add: walker_rows_def)
qed

lemma walker_next_rows:
  assumes "walker_ok w" "walker_next w = (w', r)"
  shows "walker_ok w' \<and> wk_spans w' = wk_spans w \<and> wk_rows w' = wk_rows w
    \<and> (case r of None \<Rightarrow> walker_rows w = [] | Some x \<Rightarrow> walker_rows w = x # walker_rows w')"
  using assms
proof (induction w rule: walker_next.induct)
  case (1 w)
  show ?case
  proof (cases "\<not> wk_done w \<and> wk_s w < length (wk_spans w)")
    case False
    then have "w' = w\<lparr>wk_done := True\<rparr>" "r = None" using 1(3) by (simp_all add: walker_next.simps [of w])
    with False 1(2) show ?thesis by (auto simp: walker_ok_def walker_rows_def)
  next
    case live: True
    obtain lo hi where s: "wk_spans w ! wk_s w = (lo, hi)" by (rule prod.exhaust)
    have sp: "lo \<le> hi" "hi \<le> length (wk_rows w)"
      using 1(2) live s nth_mem [of "wk_s w" "wk_spans w"] by (fastforce simp: walker_ok_def)+
    have i: "if wk_desc w then int lo - 1 \<le> wk_i w \<and> wk_i w \<le> int hi - 1 else int lo \<le> wk_i w \<and> wk_i w \<le> int hi"
      using 1(2) live s by (simp add: walker_ok_def split: if_splits)
    show ?thesis
    proof (cases "in_span (wk_desc w) (wk_spans w ! wk_s w) (wk_i w)")
      case False
      have "current_rows w = []"
        using False s i by (auto simp: current_rows_def in_span_def row_slice_def split: if_splits)
      then have "walker_rows w = walker_rows (enter_span w)"
        using enter_span_rows(2) [OF 1(2)] live by (simp add: walker_rows_def)
      moreover have "walker_next (enter_span w) = (w', r)" using 1(3) False live by (simp add: walker_next.simps [of w])
      ultimately show ?thesis using 1(1) live False enter_span_rows(1) [OF 1(2)] by (simp split: option.splits)
    next
      case True
      then have w': "w' = w\<lparr>wk_i := (if wk_desc w then wk_i w - 1 else wk_i w + 1)\<rparr>" "r = Some (wk_rows w ! nat (wk_i w))"
        using 1(3) live by (simp_all add: walker_next.simps [of w])
      have "current_rows w = wk_rows w ! nat (wk_i w) # current_rows w'"
      proof (cases "wk_desc w")
        case d: True
        then have "int lo \<le> wk_i w" "wk_i w \<le> int hi - 1" using True s i by (simp_all add: in_span_def)
        then have "lo \<le> nat (wk_i w)" "nat (wk_i w) < length (wk_rows w)" "nat (wk_i w + 1) = Suc (nat (wk_i w))" using sp by linarith+
        then show ?thesis using d s by (simp add: current_rows_def w'(1) row_slice_snoc)
      next
        case d: False
        then have "int lo \<le> wk_i w" "wk_i w < int hi" using True s i by (simp_all add: in_span_def)
        then have "nat (wk_i w) < hi" "nat (wk_i w + 1) = Suc (nat (wk_i w))" by linarith+
        then show ?thesis using d s sp by (simp add: current_rows_def w'(1) row_slice_Cons)
      qed
      moreover have "walker_ok w'"
        using 1(2) True live s i by (auto simp: walker_ok_def w'(1) in_span_def)
      ultimately show ?thesis using live w' by (simp add: walker_rows_def)
    qed
  qed
qed

definition spans_full :: "row_walker \<Rightarrow> bool" where
  "spans_full w \<longleftrightarrow> (\<forall>sp \<in> set (wk_spans w). span_ok (wk_rows w) sp) \<or> length (wk_spans w) \<le> 1"

lemma has_next_rows:
  assumes "walker_ok w" "spans_full w"
  shows "has_next w \<longleftrightarrow> walker_rows w \<noteq> []"
proof (cases "wk_done w \<or> length (wk_spans w) \<le> wk_s w")
  case True
  then show ?thesis by (auto simp: has_next_def walker_rows_def)
next
  case live: False
  obtain lo hi where s: "wk_spans w ! wk_s w = (lo, hi)" by (rule prod.exhaust)
  have sp: "hi \<le> length (wk_rows w)"
    using assms(1) live s nth_mem [of "wk_s w" "wk_spans w"] by (fastforce simp: walker_ok_def)
  have i: "if wk_desc w then int lo - 1 \<le> wk_i w \<and> wk_i w \<le> int hi - 1 else int lo \<le> wk_i w \<and> wk_i w \<le> int hi"
    using assms(1) live s by (simp add: walker_ok_def split: if_splits)
  have c: "in_span (wk_desc w) (wk_spans w ! wk_s w) (wk_i w) \<longleftrightarrow> current_rows w \<noteq> []"
    using i sp s by (auto simp: in_span_def current_rows_def row_slice_def split: if_splits)
  have l: "wk_s w + 1 < length (wk_spans w)
      \<longleftrightarrow> concat (map (span_rows (wk_rows w) (wk_desc w)) (drop (Suc (wk_s w)) (wk_spans w))) \<noteq> []"
  proof (cases "wk_s w + 1 < length (wk_spans w)")
    case True
    then have "span_ok (wk_rows w) (wk_spans w ! (wk_s w + 1))" using assms(2) nth_mem [OF True] by (auto simp: spans_full_def)
    then have "span_rows (wk_rows w) (wk_desc w) (wk_spans w ! (wk_s w + 1)) \<noteq> []"
      by (auto simp: span_ok_def span_rows_def row_slice_def)
    with True show ?thesis by (simp flip: Cons_nth_drop_Suc)
  qed simp
  show ?thesis using live c l by (simp add: has_next_def walker_rows_def)
qed

lemma new_walker_rows:
  assumes "rows_ok rows" "sorted_wrt (<) (rq_namespaces req)"
  shows "walker_ok (new_walker rows req)" "spans_full (new_walker rows req)"
    and "walker_rows (new_walker rows req) = ahead_rows rows req"
proof -
  let ?spans = "request_spans rows req"
  note sp = request_spans_ahead [OF assms]
  have ok: "\<forall>sp \<in> set ?spans. fst sp \<le> snd sp \<and> snd sp \<le> length rows"
    using sp(2) by (auto simp: span_ok_def)
  show "walker_ok (new_walker rows req)"
  proof (cases ?spans)
    case (Cons s ss)
    with ok have "fst s \<le> snd s" by simp
    with Cons ok show ?thesis by (cases s) (auto simp: walker_ok_def new_walker_def Let_def span_start_def)
  qed (simp add: walker_ok_def new_walker_def)
  show "spans_full (new_walker rows req)"
    using sp(2) by (auto simp: spans_full_def new_walker_def Let_def)
  show "walker_rows (new_walker rows req) = ahead_rows rows req"
  proof (cases ?spans)
    case Nil
    then show ?thesis using sp(1) by (simp add: walker_rows_def new_walker_def)
  next
    case (Cons s ss)
    then have "current_rows (new_walker rows req) = span_rows rows (rq_descending req) s"
      by (cases s) (simp add: current_rows_def new_walker_def Let_def span_start_def span_rows_def)
    with Cons sp(1) show ?thesis by (simp add: walker_rows_def) (simp add: new_walker_def Let_def)
  qed
qed


section \<open>A page is a segment of the walk\<close>

lemma page_loop_emits:
  fixes stamp page row req budget
  defines "page1 \<equiv> if row_matches row req then page\<lparr>lp_items := lp_items page @ [to_row stamp row]\<rparr> else page"
    and "budget1 \<equiv> if row_matches row req then budget - row_cost row else budget"
  assumes "walker_next w = (w1, Some row)" "\<not> (row_matches row req \<and> lp_items page \<noteq> [] \<and> row_cost row > budget)"
  shows "page_loop stamp req w budget examined last_key page
    = (if int (length (lp_items page1)) \<ge> rq_limit req \<or> examined + 1 \<ge> scan_budget req
       then (if has_next w1
             then page1\<lparr>lp_truncated := True, lp_next_cursor := encode_cursor (key_of_row row) (rq_fingerprint req)\<rparr> else page1)
       else page_loop stamp req w1 budget1 (examined + 1) (Some (key_of_row row)) page1)"
  unfolding page_loop.simps [of stamp req w] assms(3) Let_def prod.case option.case page1_def budget1_def
  using assms(4) by (simp only: if_False)

lemma page_loop_segment:
  assumes "walker_ok w" "spans_full w" "lp_items page \<noteq> [] \<longrightarrow> last_key \<noteq> None"
    "lp_next_cursor page = ''''" "\<not> lp_truncated page"
  shows "\<exists>n \<le> length (walker_rows w).
     lp_items (page_loop stamp req w budget examined last_key page)
       = lp_items page @ map (to_row stamp) (filter (\<lambda>r. row_matches r req) (take n (walker_rows w)))
     \<and> (lp_items page = [] \<and> walker_rows w \<noteq> [] \<longrightarrow> 0 < n)
     \<and> lp_truncated (page_loop stamp req w budget examined last_key page) = (n < length (walker_rows w))
     \<and> lp_next_cursor (page_loop stamp req w budget examined last_key page)
       = (if n < length (walker_rows w)
          then encode_cursor (if n = 0 then the last_key else key_of_row (walker_rows w ! (n - 1))) (rq_fingerprint req)
          else '''')"
  using assms
proof (induction stamp req w budget examined last_key page rule: page_loop.induct)
  case (1 stamp req w budget examined last_key page)
  let ?P = "page_loop stamp req w budget examined last_key page"
  obtain w1 r where nx: "walker_next w = (w1, r)" by (rule prod.exhaust)
  note step = walker_next_rows [OF 1(2) nx]
  show ?case
  proof (cases r)
    case None
    then show ?thesis using step nx 1(5,6) by (simp add: page_loop.simps [of stamp req w])
  next
    case (Some row)
    let ?xs = "walker_rows w" and ?ys = "walker_rows w1"
    have xs: "?xs = row # ?ys" using step Some by simp
    have full: "walker_ok w1" "spans_full w1" using step 1(3) by (simp_all add: spans_full_def)
    show ?thesis
    proof (cases "row_matches row req \<and> lp_items page \<noteq> [] \<and> row_cost row > budget")
      case True
      then obtain k where k: "last_key = Some k" using 1(4) by auto
      have "?P = page\<lparr>lp_truncated := True, lp_next_cursor := encode_cursor k (rq_fingerprint req)\<rparr>"
        using True Some nx k by (simp add: page_loop.simps [of stamp req w] Let_def)
      with True k xs show ?thesis by (intro exI [of _ 0]) simp
    next
      case emit: False
      let ?page1 = "if row_matches row req then page\<lparr>lp_items := lp_items page @ [to_row stamp row]\<rparr> else page"
      let ?budget1 = "if row_matches row req then budget - row_cost row else budget"
      have items: "lp_items ?page1 = lp_items page @ map (to_row stamp) (filter (\<lambda>r. row_matches r req) [row])"
        and keep: "lp_next_cursor ?page1 = ''''" "\<not> lp_truncated ?page1" using 1(5,6) by simp_all
      show ?thesis
      proof (cases "int (length (lp_items ?page1)) \<ge> rq_limit req \<or> examined + 1 \<ge> scan_budget req")
        case True
        have "?P = (if has_next w1
            then ?page1\<lparr>lp_truncated := True, lp_next_cursor := encode_cursor (key_of_row row) (rq_fingerprint req)\<rparr> else ?page1)"
          unfolding page_loop_emits [OF nx [unfolded Some] emit] using True by (simp only: if_True)
        with has_next_rows [OF full] show ?thesis unfolding xs
          by (intro exI [of _ 1]) (cases "?ys = []"; use keep items in simp)
      next
        case False
        have P: "?P = page_loop stamp req w1 ?budget1 (examined + 1) (Some (key_of_row row)) ?page1"
          unfolding page_loop_emits [OF nx [unfolded Some] emit] using False by (simp only: if_False)
        obtain n where n: "n \<le> length ?ys"
          "lp_items ?P = lp_items ?page1 @ map (to_row stamp) (filter (\<lambda>r. row_matches r req) (take n ?ys))"
          "lp_truncated ?P = (n < length ?ys)"
          "lp_next_cursor ?P = (if n < length ?ys
             then encode_cursor (if n = 0 then key_of_row row else key_of_row (?ys ! (n - 1))) (rq_fingerprint req) else '''')"
          using 1(1) [OF nx [symmetric] Some refl emit refl refl refl False full _ keep] unfolding P option.sel by blast
        show ?thesis unfolding xs
          by (rule exI [of _ "Suc n"]) (use n items in \<open>auto simp: nth_Cons' simp del: if_split\<close>)
      qed
    qed
  qed
qed


section \<open>Cursors name positions of the walk\<close>

definition walk_rows :: "index_row list \<Rightarrow> resolved_request \<Rightarrow> index_row list" where
  "walk_rows rows req =
     (let xs = filter (allowed_row req) rows in if rq_descending req then rev xs else xs)"

lemma ahead_walk:
  "ahead_rows rows req
   = filter (\<lambda>r. case rq_cursor req of None \<Rightarrow> True | Some k \<Rightarrow> beyond (rq_descending req) k r) (walk_rows rows req)"
  by (simp add: ahead_rows_def walk_rows_def rev_filter conj_commute Let_def)

lemma walk_sorted:
  assumes "rows_ok rows"
  shows "sorted_wrt (\<lambda>a b. beyond (rq_descending req) (key_of_row a) b) (walk_rows rows req)"
proof -
  have "sorted_wrt (\<lambda>a b. row_key a < row_key b) (filter (allowed_row req) rows)"
    using assms unfolding rows_ok_def by (rule sorted_wrt_filter)
  then show ?thesis
    by (simp add: walk_rows_def beyond_def less_key_pair sorted_wrt_rev Let_def del: less_prod_simp)
qed

lemma filter_beyond:
  assumes "sorted_wrt R xs" "n < length xs" "\<And>x y. R x y \<Longrightarrow> \<not> R y x" "\<And>x. \<not> R x x"
  shows "filter (R (xs ! n)) xs = drop (Suc n) xs"
proof -
  have xs: "xs = take n xs @ xs ! n # drop (Suc n) xs" using assms(2) by (rule id_take_nth_drop)
  then have s: "sorted_wrt R (take n xs @ xs ! n # drop (Suc n) xs)" using assms(1) by simp
  then have "\<forall>x \<in> set (take n xs). R x (xs ! n)" "\<forall>x \<in> set (drop (Suc n) xs). R (xs ! n) x"
    by (auto simp: sorted_wrt_append)
  then have "filter (R (xs ! n)) (take n xs) = []" "filter (R (xs ! n)) (drop (Suc n) xs) = drop (Suc n) xs"
    using assms(3) by (auto simp: filter_empty_conv)
  then show ?thesis by (subst xs) (simp add: assms(4))
qed

lemma ahead_after:
  assumes "rows_ok rows" "n < length (walk_rows rows req)"
  shows "ahead_rows rows (req\<lparr>rq_cursor := Some (key_of_row (walk_rows rows req ! n))\<rparr>) = drop (Suc n) (walk_rows rows req)"
proof -
  have "walk_rows rows (req\<lparr>rq_cursor := c\<rparr>) = walk_rows rows req" for c
    by (simp add: walk_rows_def allowed_row_def [abs_def])
  moreover have "filter (beyond (rq_descending req) (key_of_row (walk_rows rows req ! n))) (walk_rows rows req)
      = drop (Suc n) (walk_rows rows req)"
    by (rule filter_beyond [OF walk_sorted [OF assms(1)] assms(2)]) (auto simp: beyond_def less_key_pair split: if_splits)
  ultimately show ?thesis by (simp add: ahead_walk)
qed

text \<open>One page of the walk, from any position in it.\<close>

lemma page_segment:
  assumes "rows_ok rows" "sorted_wrt (<) (rq_namespaces req)"
  shows "\<exists>n \<le> length (ahead_rows rows req).
     lp_items (list_page_of stamp rows req) = map (to_row stamp) (filter (\<lambda>r. row_matches r req) (take n (ahead_rows rows req)))
     \<and> (ahead_rows rows req \<noteq> [] \<longrightarrow> 0 < n)
     \<and> lp_next_cursor (list_page_of stamp rows req)
       = (if n < length (ahead_rows rows req)
          then encode_cursor (key_of_row (ahead_rows rows req ! (n - 1))) (rq_fingerprint req) else '''')"
proof -
  note w = new_walker_rows [OF assms]
  let ?p = "\<lparr>lp_items = [], lp_next_cursor = '''', lp_truncated = False, lp_total = length rows\<rparr>"
  obtain n where n: "n \<le> length (ahead_rows rows req)"
    "lp_items (list_page_of stamp rows req) = lp_items ?p @ map (to_row stamp) (filter (\<lambda>r. row_matches r req) (take n (ahead_rows rows req)))"
    "lp_items ?p = [] \<and> ahead_rows rows req \<noteq> [] \<longrightarrow> 0 < n"
    "lp_next_cursor (list_page_of stamp rows req) = (if n < length (ahead_rows rows req)
       then encode_cursor (if n = 0 then the None else key_of_row (ahead_rows rows req ! (n - 1))) (rq_fingerprint req) else '''')"
    using page_loop_segment [OF w(1,2), of ?p None stamp req "response_budget req" 0] unfolding w(3) list_page_of_def by auto
  then show ?thesis by (intro exI [of _ n]) auto
qed

section \<open>Requests with a cursor\<close>

lemma sorted_unique_strict: "sorted_wrt (<) (sorted_unique xs)" "set (sorted_unique xs) = set xs"
proof -
  have "set (drop_repeats ys) = set ys" for ys by (induction ys rule: drop_repeats.induct) auto
  moreover have "sorted ys \<Longrightarrow> sorted_wrt (<) (drop_repeats ys)" for ys
  proof (induction ys rule: drop_repeats.induct)
    case (1 x y ys)
    then show ?case using \<open>\<And>ys. set (drop_repeats ys) = set ys\<close> [of "y # ys"] by force
  qed simp_all
  ultimately show "sorted_wrt (<) (sorted_unique xs)" "set (sorted_unique xs) = set xs"
    by (simp_all add: sorted_unique_def)
qed

lemma encode_cursor_nonempty: "encode_cursor k fp \<noteq> ''''"
  by (simp add: encode_cursor_def b64_encode_nonempty)

lemma resolve_with_cursor:
  assumes "resolve_request parse gvr namespaced (req\<lparr>lr_cursor := ''''\<rparr>) = Inr rq"
  shows "rq_cursor rq = None" "sorted_wrt (<) (rq_namespaces rq)"
    "cursor_sep \<notin> set (rq_fingerprint rq)" "length (rq_fingerprint rq) = 16"
    and "cursor_key_ok k \<Longrightarrow> resolve_request parse gvr namespaced (req\<lparr>lr_cursor := encode_cursor k (rq_fingerprint rq)\<rparr>)
      = Inr (rq\<lparr>rq_cursor := Some k\<rparr>)"
proof -
  show "rq_cursor rq = None" "sorted_wrt (<) (rq_namespaces rq)"
    "cursor_sep \<notin> set (rq_fingerprint rq)" "length (rq_fingerprint rq) = 16"
    using assms
    by (auto simp: resolve_request_def Let_def sorted_unique_strict fingerprint_clean split: if_splits option.splits)
  then have d: "cursor_key_ok k \<Longrightarrow> decode_cursor (encode_cursor k (rq_fingerprint rq)) (rq_fingerprint rq) = Some k"
    by (intro cursor_key_roundtrip) simp_all
  have fp: "query_fingerprint gvr (req\<lparr>lr_cursor := c\<rparr>) nss al = query_fingerprint gvr req nss al" for c nss al
    by (simp add: query_fingerprint_def)
  show "cursor_key_ok k \<Longrightarrow> resolve_request parse gvr namespaced (req\<lparr>lr_cursor := encode_cursor k (rq_fingerprint rq)\<rparr>)
      = Inr (rq\<lparr>rq_cursor := Some k\<rparr>)"
    using assms d
    by (auto simp: resolve_request_def Let_def fp encode_cursor_nonempty split: if_splits option.splits)
qed


section \<open>Following the cursors\<close>

text \<open>A client that asks for the first page and then follows the cursors; every answer consumes one unit of fuel.\<close>

fun follow_pages :: "nat \<Rightarrow> (time \<Rightarrow> string) \<Rightarrow> selector_parser \<Rightarrow> string \<Rightarrow> bool \<Rightarrow> index_row list \<Rightarrow> list_request
    \<Rightarrow> list_row list list option" where
  "follow_pages 0 stamp parse gvr namespaced rows req = None"
| "follow_pages (Suc fuel) stamp parse gvr namespaced rows req =
     (case resolve_request parse gvr namespaced req of
        Inl e \<Rightarrow> None
      | Inr rq \<Rightarrow>
          let p = list_page_of stamp rows rq in
          if lp_next_cursor p = '''' then Some [lp_items p]
          else map_option (Cons (lp_items p))
            (follow_pages fuel stamp parse gvr namespaced rows (req\<lparr>lr_cursor := lp_next_cursor p\<rparr>)))"

lemma follow_from:
  assumes "rows_ok rows" "\<forall>r \<in> set rows. cursor_key_ok (key_of_row r)"
    and "resolve_request parse gvr namespaced (req\<lparr>lr_cursor := ''''\<rparr>) = Inr rq"
    and "m \<le> length (walk_rows rows rq)" "length (walk_rows rows rq) - m < fuel"
    and "lr_cursor req = (if m = 0 then '''' else encode_cursor (key_of_row (walk_rows rows rq ! (m - 1))) (rq_fingerprint rq))"
  shows "\<exists>pages. follow_pages fuel stamp parse gvr namespaced rows req = Some pages
    \<and> concat pages = map (to_row stamp) (filter (\<lambda>r. row_matches r rq) (drop m (walk_rows rows rq)))"
  using assms(3-6)
proof (induction fuel arbitrary: m req)
  case (Suc fuel)
  let ?xs = "walk_rows rows rq"
  note rq = resolve_with_cursor [OF Suc.prems(1)]
  define rqm where "rqm = (if m = 0 then rq else rq\<lparr>rq_cursor := Some (key_of_row (?xs ! (m - 1)))\<rparr>)"
  have key: "cursor_key_ok (key_of_row (?xs ! i))" if "i < length ?xs" for i
  proof -
    have "?xs ! i \<in> set ?xs" using that by (rule nth_mem)
    then have "?xs ! i \<in> set rows" by (auto simp: walk_rows_def Let_def split: if_splits)
    with assms(2) show ?thesis by blast
  qed
  have res: "resolve_request parse gvr namespaced req = Inr rqm"
  proof (cases "m = 0")
    case True
    then have "req\<lparr>lr_cursor := ''''\<rparr> = req" using Suc.prems(4) by simp
    with True Suc.prems(1) show ?thesis by (simp add: rqm_def)
  next
    case False
    then have "req = req\<lparr>lr_cursor := encode_cursor (key_of_row (?xs ! (m - 1))) (rq_fingerprint rq)\<rparr>" using Suc.prems(4) by simp
    with rq(5) [OF key [of "m - 1"]] False Suc.prems(2) show ?thesis by (simp add: rqm_def)
  qed
  have ahead: "ahead_rows rows rqm = drop m ?xs"
    using ahead_after [OF assms(1), of "m - 1" rq] Suc.prems(2) rq(1) by (cases "m = 0") (auto simp: rqm_def ahead_walk)
  have same: "row_matches r rqm = row_matches r rq" "rq_fingerprint rqm = rq_fingerprint rq" "rq_namespaces rqm = rq_namespaces rq" for r
    by (simp_all add: rqm_def row_matches_def split: option.splits)
  let ?p = "list_page_of stamp rows rqm"
  obtain n where n: "n \<le> length ?xs - m" "drop m ?xs \<noteq> [] \<longrightarrow> 0 < n"
    "lp_items ?p = map (to_row stamp) (filter (\<lambda>r. row_matches r rq) (take n (drop m ?xs)))"
    "lp_next_cursor ?p = (if n < length ?xs - m then encode_cursor (key_of_row (drop m ?xs ! (n - 1))) (rq_fingerprint rq) else '''')"
    using page_segment [OF assms(1), of rqm stamp] rq(2) unfolding ahead same by auto
  show ?case
  proof (cases "n < length ?xs - m")
    case False
    with n have "lp_next_cursor ?p = ''''" "lp_items ?p = map (to_row stamp) (filter (\<lambda>r. row_matches r rq) (drop m ?xs))" by simp_all
    with res show ?thesis by simp
  next
    case True
    then have pos: "0 < n" and ne: "lp_next_cursor ?p \<noteq> ''''" using n by (auto simp: encode_cursor_nonempty)
    have left: "m + n \<le> length ?xs" "length ?xs - (m + n) < fuel" using Suc.prems(2,3) True pos by linarith+
    have "drop m ?xs ! (n - 1) = ?xs ! (m + n - 1)" using True pos by simp
    then have "lp_next_cursor ?p = encode_cursor (key_of_row (?xs ! (m + n - 1))) (rq_fingerprint rq)" using n(4) True by simp
    then obtain pages where "follow_pages fuel stamp parse gvr namespaced rows (req\<lparr>lr_cursor := lp_next_cursor ?p\<rparr>) = Some pages"
      "concat pages = map (to_row stamp) (filter (\<lambda>r. row_matches r rq) (drop (m + n) ?xs))"
      using Suc.IH [of "req\<lparr>lr_cursor := lp_next_cursor ?p\<rparr>" "m + n"] Suc.prems(1) left pos by auto
    moreover have "drop m ?xs = take n (drop m ?xs) @ drop (m + n) ?xs"
      using append_take_drop_id [of n "drop m ?xs"] by (simp add: add.commute)
    then have "map (to_row stamp) (filter (\<lambda>r. row_matches r rq) (drop m ?xs))
        = lp_items ?p @ map (to_row stamp) (filter (\<lambda>r. row_matches r rq) (drop (m + n) ?xs))"
      using n(3) by (metis filter_append map_append)
    ultimately show ?thesis using res ne by simp
  qed
qed simp

text \<open>
  (C30) Paging loses and repeats nothing. Let the rows of a snapshot have different keys that a cursor can carry, and let
  the first request be valid. Then a client that follows the cursors ends after at most one page per row and one more,
  is never refused, and its pages concatenated are exactly the rows of the allowed namespaces that pass the filters, in the
  order of the request.
\<close>

theorem paging_enumerates:
  assumes "rows_ok rows" "\<forall>r \<in> set rows. cursor_key_ok (key_of_row r)"
    and "lr_cursor req = ''''" "resolve_request parse gvr namespaced req = Inr rq" "length rows < fuel"
  shows "\<exists>pages. follow_pages fuel stamp parse gvr namespaced rows req = Some pages
    \<and> concat pages
      = map (to_row stamp) (filter (\<lambda>r. row_matches r rq)
          (let xs = filter (\<lambda>r. rq_span_all rq \<or> ir_namespace r \<in> set (rq_namespaces rq)) rows in
           if rq_descending rq then rev xs else xs))"
proof -
  have e: "req\<lparr>lr_cursor := ''''\<rparr> = req" using assms(3) by simp
  have "length (walk_rows rows rq) \<le> length rows" by (simp add: walk_rows_def Let_def)
  then have "\<exists>pages. follow_pages fuel stamp parse gvr namespaced rows req = Some pages
      \<and> concat pages = map (to_row stamp) (filter (\<lambda>r. row_matches r rq) (walk_rows rows rq))"
    using follow_from [OF assms(1,2), of parse gvr namespaced req rq 0 fuel stamp, unfolded e] assms(3-5) by simp
  then show ?thesis unfolding walk_rows_def allowed_row_def .
qed

section \<open>Budgets of a page\<close>

definition item_cost :: "list_row \<Rightarrow> int" where
  "item_cost r = row_overhead_bytes + int (length (lw_namespace r)) + int (length (lw_name r))"

lemma item_cost_to_row [simp]: "item_cost (to_row stamp r) = row_cost r"
  by (simp add: item_cost_def to_row_def row_cost_def)

lemma row_cost_pos: "0 < row_cost r"
  by (simp add: row_cost_def row_overhead_bytes_def)

lemma page_loop_budget:
  assumes "int (length (lp_items page)) < rq_limit req" "budget = B - (\<Sum>r \<leftarrow> lp_items page. item_cost r)"
    and "length (lp_items page) \<le> 1 \<or> 0 \<le> budget"
  shows "int (length (lp_items (page_loop stamp req w budget examined last_key page))) \<le> rq_limit req
    \<and> (length (lp_items (page_loop stamp req w budget examined last_key page)) \<le> 1
       \<or> (\<Sum>r \<leftarrow> lp_items (page_loop stamp req w budget examined last_key page). item_cost r) \<le> B)"
  using assms
proof (induction stamp req w budget examined last_key page rule: page_loop.induct)
  case (1 stamp req w budget examined last_key page)
  let ?P = "page_loop stamp req w budget examined last_key page"
  let ?ok = "\<lambda>p :: list_page. int (length (lp_items p)) \<le> rq_limit req
    \<and> (length (lp_items p) \<le> 1 \<or> (\<Sum>r \<leftarrow> lp_items p. item_cost r) \<le> B)"
  have ok: "?ok page" using 1(2-4) by auto
  obtain w1 r where nx: "walker_next w = (w1, r)" by (rule prod.exhaust)
  show ?case
  proof (cases r)
    case None
    then show ?thesis using nx ok by (simp add: page_loop.simps [of stamp req w])
  next
    case (Some row)
    let ?page1 = "if row_matches row req then page\<lparr>lp_items := lp_items page @ [to_row stamp row]\<rparr> else page"
    let ?budget1 = "if row_matches row req then budget - row_cost row else budget"
    let ?over = "row_matches row req \<and> lp_items page \<noteq> [] \<and> row_cost row > budget"
    have ok1: "?ok ?page1" "?budget1 = B - (\<Sum>r \<leftarrow> lp_items ?page1. item_cost r)"
      "length (lp_items ?page1) \<le> 1 \<or> 0 \<le> ?budget1" if "\<not> ?over"
      using that 1(2-4) ok by (cases "lp_items page = []"; auto)+
    show ?thesis
    proof (cases ?over)
      case True
      then show ?thesis using Some nx ok by (simp add: page_loop.simps [of stamp req w] Let_def split: option.splits)
    next
      case emit: False
      show ?thesis
      proof (cases "int (length (lp_items ?page1)) \<ge> rq_limit req \<or> examined + 1 \<ge> scan_budget req")
        case True
        have "lp_items ?P = lp_items ?page1"
          unfolding page_loop_emits [OF nx [unfolded Some] emit] using True by simp
        then show ?thesis using ok1(1) [OF emit] by simp
      next
        case False
        have P: "?P = page_loop stamp req w1 ?budget1 (examined + 1) (Some (key_of_row row)) ?page1"
          unfolding page_loop_emits [OF nx [unfolded Some] emit] using False by (simp only: if_False)
        show ?thesis unfolding P
          by (rule 1(1) [OF nx [symmetric] Some refl emit refl refl refl False _ ok1(2,3) [OF emit]]) (use False in simp)
      qed
    qed
  qed
qed

lemma page_within_budget:
  assumes "0 < rq_limit req"
  shows "int (length (lp_items (list_page_of stamp rows req))) \<le> rq_limit req"
    and "length (lp_items (list_page_of stamp rows req)) \<le> 1
      \<or> (\<Sum>r \<leftarrow> lp_items (list_page_of stamp rows req). item_cost r) \<le> response_budget req"
  using page_loop_budget [of "\<lparr>lp_items = [], lp_next_cursor = '''', lp_truncated = False, lp_total = length rows\<rparr>" req
    "response_budget req" "response_budget req" stamp "new_walker rows req" 0 None] assms
  by (simp_all add: list_page_of_def)


section \<open>An instance\<close>

definition demo_rows :: "index_row list" where
  "demo_rows = build_index_snapshot (map (\<lambda>(ns, name). Some \<lparr>om_namespace = ns, om_name = name, om_uid = name, om_labels = [],
     om_created = None\<rparr>) [(''b'', ''y''), (''a'', ''y''), (''c'', ''x''), (''b'', ''x''), (''a'', ''x'')])"

definition demo_list_request :: list_request where
  "demo_list_request = \<lparr>lr_namespaces_all = False, lr_namespaces = [''b'', ''a'', ''b''], lr_name_prefix = '''', lr_label_selector = '''',
     lr_limit = 3, lr_cursor = '''', lr_descending = True\<rparr>"

definition demo_resolved :: resolved_request where
  "demo_resolved = projr (resolve_request (\<lambda>_. None) ''v1/pods'' True demo_list_request)"

lemma demo_rows_ok: "rows_ok demo_rows" "\<forall>r \<in> set demo_rows. cursor_key_ok (key_of_row r)" "length demo_rows = 5"
proof -
  have rows: "map row_key demo_rows = [(''a'', ''x''), (''a'', ''y''), (''b'', ''x''), (''b'', ''y''), (''c'', ''x'')]"
    by code_simp
  then have "sorted_wrt (<) (map row_key demo_rows)" by simp
  then show "rows_ok demo_rows" by (simp only: rows_ok_def sorted_wrt_map)
  show "length demo_rows = 5" using arg_cong [OF rows, of length] by simp
  show "\<forall>r \<in> set demo_rows. cursor_key_ok (key_of_row r)"
  proof
    fix r
    assume "r \<in> set demo_rows"
    then have "row_key r \<in> set (map row_key demo_rows)" by force
    then show "cursor_key_ok (key_of_row r)" unfolding rows
      by (auto simp: cursor_key_ok_def key_of_row_def safe_cursor_segment_def safe_cursor_char_def max_cursor_ns_len_def
          max_cursor_name_def less_eq_char_def)
  qed
qed

lemma demo_resolves: "resolve_request (\<lambda>_. None) ''v1/pods'' True demo_list_request = Inr demo_resolved"
  by (simp add: demo_resolved_def resolve_request_def demo_list_request_def Let_def default_page_size_def max_page_size_def
      max_name_filter_len_def safe_cursor_segment_def)

theorem paging_enumerates_witness:
  "\<exists>pages. follow_pages 6 (\<lambda>_. '''') (\<lambda>_. None) ''v1/pods'' True demo_rows demo_list_request = Some pages
    \<and> concat pages = map (to_row (\<lambda>_. '''')) (filter (\<lambda>r. row_matches r demo_resolved)
        (let xs = filter (\<lambda>r. rq_span_all demo_resolved \<or> ir_namespace r \<in> set (rq_namespaces demo_resolved)) demo_rows in
         if rq_descending demo_resolved then rev xs else xs))"
  by (rule paging_enumerates [OF demo_rows_ok(1,2) _ demo_resolves])
    (simp_all add: demo_rows_ok(3) demo_list_request_def)

end
