(* ===== verification/Go_Text.thy ===== *)
theory Go_Text
  imports Prelude_Go
begin

text \<open>
  What the code uses of Go's texts: the runes of a byte string (\<open>[]rune(s)\<close>, where every byte that starts no valid
  encoding is a rune of its own), and the regular expressions of package \<open>regexp\<close>, whose matches are leftmost and, among
  those, the first in the order of a backtracking search.
\<close>

section \<open>Runes\<close>

abbreviation byte_of :: "char \<Rightarrow> nat" where
  "byte_of c \<equiv> of_char c"

definition between :: "nat \<Rightarrow> nat \<Rightarrow> char \<Rightarrow> bool" where
  "between lo hi c \<longleftrightarrow> lo \<le> byte_of c \<and> byte_of c \<le> hi"

text \<open>The width of the first rune; 1 for a byte that starts no valid encoding.\<close>

fun rune_width :: "string \<Rightarrow> nat" where
  "rune_width [] = 0"
| "rune_width (b # bs) =
     (if between 0xC2 0xDF b then (case bs of b1 # _ \<Rightarrow> if between 0x80 0xBF b1 then 2 else 1 | _ \<Rightarrow> 1)
      else if between 0xE0 0xEF b then
        (case bs of b1 # b2 # _ \<Rightarrow>
           if between (if byte_of b = 0xE0 then 0xA0 else 0x80) (if byte_of b = 0xED then 0x9F else 0xBF) b1
              \<and> between 0x80 0xBF b2 then 3 else 1
         | _ \<Rightarrow> 1)
      else if between 0xF0 0xF4 b then
        (case bs of b1 # b2 # b3 # _ \<Rightarrow>
           if between (if byte_of b = 0xF0 then 0x90 else 0x80) (if byte_of b = 0xF4 then 0x8F else 0xBF) b1
              \<and> between 0x80 0xBF b2 \<and> between 0x80 0xBF b3 then 4 else 1
         | _ \<Rightarrow> 1)
      else 1)"

lemma rune_width_bounds: "s \<noteq> [] \<Longrightarrow> 0 < rune_width s \<and> rune_width s \<le> length s"
  by (cases s rule: rune_width.cases) (auto split: list.splits)

function runes :: "string \<Rightarrow> string list" where
  "runes s = (if s = [] then [] else take (rune_width s) s # runes (drop (rune_width s) s))"
  by pat_completeness auto
termination
  by (relation "measure length") (use rune_width_bounds in auto)

declare runes.simps [simp del]

lemma runes_Nil [simp]: "runes [] = []"
  by (simp add: runes.simps)

lemma concat_runes [simp]: "concat (runes s) = s"
proof (induction s rule: runes.induct)
  case (1 s)
  then show ?case by (cases "s = []") (simp_all add: runes.simps [of s])
qed

text \<open>A rune does not reach over the end of a text when what follows does not start with a continuation byte.\<close>

definition fresh_start :: "string \<Rightarrow> bool" where
  "fresh_start s \<longleftrightarrow> (case s of [] \<Rightarrow> True | c # _ \<Rightarrow> \<not> between 0x80 0xBF c)"

lemma fresh_not_between: "\<lbrakk>fresh_start (c # s); 0x80 \<le> lo; hi \<le> 0xBF\<rbrakk> \<Longrightarrow> \<not> between lo hi c"
  by (auto simp: fresh_start_def between_def)

lemma rune_width_append:
  assumes "s \<noteq> []" "fresh_start t"
  shows "rune_width (s @ t) = rune_width s"
proof (cases t)
  case (Cons c t')
  have nb: "\<not> between lo hi c" if "0x80 \<le> lo" "hi \<le> 0xBF" for lo hi
    using fresh_not_between [of c t'] assms(2) that Cons by simp
  obtain b bs where s: "s = b # bs" using assms(1) by (cases s) auto
  consider "bs = []" | b1 where "bs = [b1]" | b1 b2 where "bs = [b1, b2]" | b1 b2 b3 bs' where "bs = b1 # b2 # b3 # bs'"
    by (metis list.exhaust)
  then show ?thesis by cases (simp_all add: s Cons nb split: list.split)
qed simp

lemma runes_append: "fresh_start t \<Longrightarrow> runes (s @ t) = runes s @ runes t"
proof (induction s rule: runes.induct)
  case (1 s)
  show ?case
  proof (cases "s = []")
    case False
    note w = rune_width_append [OF False 1(2)] rune_width_bounds [OF False]
    have "runes (s @ t) = take (rune_width s) s # runes (drop (rune_width s) s @ t)"
      using False w by (subst runes.simps) simp
    with 1 False show ?thesis by (simp add: runes.simps [of s])
  qed simp
qed

section \<open>Regular expressions\<close>

datatype rx =
    Rx_class "char \<Rightarrow> bool"
  | Rx_seq rx rx
  | Rx_alt rx rx
  | Rx_rep nat "nat option" rx
  | Rx_boundary
  | Rx_group rx

text \<open>A position: how far, what follows, the byte before, and the captured group.\<close>

record rx_at =
  ra_pos :: nat
  ra_rest :: string
  ra_prev :: "char option"
  ra_group :: "(nat \<times> nat) option"

definition word_char :: "char \<Rightarrow> bool" where
  "word_char c \<longleftrightarrow> between 48 57 c \<or> between 65 90 c \<or> between 97 122 c \<or> c = CHR ''_''"

definition at_boundary :: "rx_at \<Rightarrow> bool" where
  "at_boundary a \<longleftrightarrow> (case ra_prev a of None \<Rightarrow> False | Some c \<Rightarrow> word_char c)
     \<noteq> (case ra_rest a of [] \<Rightarrow> False | c # _ \<Rightarrow> word_char c)"

text \<open>Greedy repetition; \<open>n\<close> bounds the number of turns.\<close>

primrec repeat_rx :: "nat \<Rightarrow> nat \<Rightarrow> (rx_at \<Rightarrow> rx_at list) \<Rightarrow> rx_at \<Rightarrow> rx_at list" where
  "repeat_rx 0 least f a = (if least = 0 then [a] else [])"
| "repeat_rx (Suc n) least f a = concat (map (repeat_rx n (least - 1) f) (f a)) @ (if least = 0 then [a] else [])"

text \<open>The ends of the matches from a position, in the order of a backtracking search. The bodies of the repetitions in use
  match no empty text, so an unbounded one makes at most as many turns as there are bytes left.\<close>

primrec match_rx :: "rx \<Rightarrow> rx_at \<Rightarrow> rx_at list" where
  "match_rx (Rx_class P) a =
     (case ra_rest a of
        [] \<Rightarrow> []
      | c # cs \<Rightarrow> if P c then [a\<lparr>ra_pos := Suc (ra_pos a), ra_rest := cs, ra_prev := Some c\<rparr>] else [])"
| "match_rx (Rx_seq r q) a = concat (map (match_rx q) (match_rx r a))"
| "match_rx (Rx_alt r q) a = match_rx r a @ match_rx q a"
| "match_rx (Rx_rep least most r) a =
     repeat_rx (case most of None \<Rightarrow> length (ra_rest a) | Some n \<Rightarrow> n) least (match_rx r) a"
| "match_rx Rx_boundary a = (if at_boundary a then [a] else [])"
| "match_rx (Rx_group r) a = map (\<lambda>b. b\<lparr>ra_group := Some (ra_pos a, ra_pos b)\<rparr>) (match_rx r a)"

text \<open>\<open>FindAllStringSubmatchIndex\<close> with one group: the successive leftmost matches, each from the end of the last. \<open>n\<close>
  is the number of bytes left, and no expression in use matches the empty text.\<close>

record rx_match =
  rm_start :: nat
  rm_end :: nat
  rm_group :: "(nat \<times> nat) option"

primrec find_matches :: "nat \<Rightarrow> rx \<Rightarrow> rx_at \<Rightarrow> rx_match list" where
  "find_matches 0 r a = []"
| "find_matches (Suc n) r a =
     (case ra_rest a of
        [] \<Rightarrow> []
      | c # cs \<Rightarrow>
          (case match_rx r (a\<lparr>ra_group := None\<rparr>) of
             [] \<Rightarrow> find_matches n r (a\<lparr>ra_pos := Suc (ra_pos a), ra_rest := cs, ra_prev := Some c\<rparr>)
           | b # _ \<Rightarrow> \<lparr>rm_start = ra_pos a, rm_end = ra_pos b, rm_group = ra_group b\<rparr> # find_matches n r b))"

definition find_all :: "rx \<Rightarrow> string \<Rightarrow> rx_match list" where
  "find_all r s = find_matches (length s) r \<lparr>ra_pos = 0, ra_rest = s, ra_prev = None, ra_group = None\<rparr>"

text \<open>Positions stay within the text.\<close>

definition rx_within :: "nat \<Rightarrow> rx_at \<Rightarrow> bool" where
  "rx_within n a \<longleftrightarrow> ra_pos a + length (ra_rest a) = n
     \<and> (case ra_group a of None \<Rightarrow> True | Some (i, j) \<Rightarrow> i \<le> j \<and> j \<le> ra_pos a)"

lemma repeat_within:
  "\<lbrakk>\<And>a b. \<lbrakk>rx_within n a; b \<in> set (f a)\<rbrakk> \<Longrightarrow> rx_within n b \<and> ra_pos a \<le> ra_pos b; rx_within n a; b \<in> set (repeat_rx k least f a)\<rbrakk>
    \<Longrightarrow> rx_within n b \<and> ra_pos a \<le> ra_pos b"
proof (induction k arbitrary: least a)
  case (Suc k)
  from Suc.prems(3) consider "b = a" | c where "c \<in> set (f a)" "b \<in> set (repeat_rx k (least - 1) f c)"
    by (auto split: if_splits)
  then show ?case
  proof cases
    case 2
    from Suc.prems(1) [OF Suc.prems(2) 2(1)] Suc.IH [OF Suc.prems(1) _ 2(2)] show ?thesis by fastforce
  qed (use Suc.prems(2) in simp)
qed (auto split: if_splits)

lemma match_within: "\<lbrakk>rx_within n a; b \<in> set (match_rx r a)\<rbrakk> \<Longrightarrow> rx_within n b \<and> ra_pos a \<le> ra_pos b"
proof (induction r arbitrary: a b)
  case (Rx_class P)
  then show ?case by (cases "ra_rest a") (auto simp: rx_within_def split: if_splits option.splits)
next
  case (Rx_seq r q)
  from Rx_seq.prems(2) obtain c where c: "c \<in> set (match_rx r a)" "b \<in> set (match_rx q c)" by auto
  from Rx_seq.IH(1) [OF Rx_seq.prems(1) c(1)] Rx_seq.IH(2) [OF _ c(2)] show ?case by (meson order_trans)
next
  case (Rx_rep least most r)
  show ?case by (rule repeat_within [OF Rx_rep.IH Rx_rep.prems(1)]) (use Rx_rep.prems(2) in auto)
next
  case (Rx_group r)
  from Rx_group.prems(2) obtain c where c: "c \<in> set (match_rx r a)" "b = c\<lparr>ra_group := Some (ra_pos a, ra_pos c)\<rparr>" by auto
  from Rx_group.IH [OF Rx_group.prems(1) c(1)] show ?case by (simp add: c(2) rx_within_def)
next
  case (Rx_alt r q)
  from Rx_alt.prems(2) have "b \<in> set (match_rx r a) \<or> b \<in> set (match_rx q a)" by simp
  with Rx_alt.IH [OF Rx_alt.prems(1)] show ?case by blast
next
  case Rx_boundary
  then show ?case by (simp split: if_splits)
qed

lemma find_matches_within:
  "\<lbrakk>rx_within n a; m \<in> set (find_matches k r a)\<rbrakk>
    \<Longrightarrow> rm_start m \<le> rm_end m \<and> rm_end m \<le> n \<and> (\<forall>i j. rm_group m = Some (i, j) \<longrightarrow> i \<le> j \<and> j \<le> n)"
proof (induction k arbitrary: a)
  case (Suc k)
  then obtain c cs where rest: "ra_rest a = c # cs" by (cases "ra_rest a") auto
  let ?a = "a\<lparr>ra_group := None\<rparr>"
  have a: "rx_within n ?a" using Suc.prems(1) by (simp add: rx_within_def)
  show ?case
  proof (cases "match_rx r ?a")
    case Nil
    have "rx_within n (a\<lparr>ra_pos := Suc (ra_pos a), ra_rest := cs, ra_prev := Some c\<rparr>)"
      using Suc.prems(1) rest by (auto simp: rx_within_def split: option.splits)
    from Suc.IH [OF this] Suc.prems(2) rest Nil show ?thesis by simp
  next
    case (Cons b bs)
    have "rx_within n b \<and> ra_pos ?a \<le> ra_pos b" by (rule match_within [OF a, of _ r]) (simp add: Cons)
    then have b: "rx_within n b" "ra_pos a \<le> ra_pos b" by simp_all
    from Suc.prems(2) rest Cons have "m = \<lparr>rm_start = ra_pos a, rm_end = ra_pos b, rm_group = ra_group b\<rparr> \<or> m \<in> set (find_matches k r b)"
      by simp
    then show ?thesis
    proof
      assume "m = \<lparr>rm_start = ra_pos a, rm_end = ra_pos b, rm_group = ra_group b\<rparr>"
      with b show ?thesis by (auto simp: rx_within_def)
    qed (rule Suc.IH [OF b(1)])
  qed
qed simp

lemma find_all_within:
  assumes "m \<in> set (find_all r s)"
  shows "rm_start m \<le> rm_end m" "rm_end m \<le> length s" "rm_group m = Some (i, j) \<Longrightarrow> i \<le> j \<and> j \<le> length s"
  using find_matches_within [of "length s" "\<lparr>ra_pos = 0, ra_rest = s, ra_prev = None, ra_group = None\<rparr>" m "length s" r] assms
  by (simp_all add: find_all_def rx_within_def)

end
