(* ===== verification/Log_Mask.thy ===== *)
theory Log_Mask
  imports Go_Text
begin

text \<open>
  The masking of log messages (\<open>internal/datasource/mask/mask.go\<close>): rules find spans, overlapping ones are dropped, and
  what is left is replaced by a mark of fixed length. The expressions are those of the code; a class without case also holds the
  two other letters that Unicode folds to \<open>s\<close> and \<open>k\<close>. Spans of equal bounds and different kind keep the order of the rules
  here, which the sort of the code does not promise.
\<close>

section \<open>The rules\<close>

text \<open>U+2022, six times.\<close>

definition mask_char :: string where "mask_char = map char_of [0xE2, 0x80, 0xA2 :: nat]"
definition masked_len :: nat where "masked_len = 6"

definition digit_char :: "char \<Rightarrow> bool" where "digit_char = between 48 57"
definition upper_char :: "char \<Rightarrow> bool" where "upper_char = between 65 90"
definition lower_char :: "char \<Rightarrow> bool" where "lower_char = between 97 122"
definition alnum_char :: "char \<Rightarrow> bool" where "alnum_char c \<longleftrightarrow> digit_char c \<or> upper_char c \<or> lower_char c"
definition space_char :: "char \<Rightarrow> bool" where "space_char c \<longleftrightarrow> byte_of c \<in> {9, 10, 12, 13, 32 :: nat}"
definition quote_char :: "char \<Rightarrow> bool" where "quote_char c \<longleftrightarrow> byte_of c = (34 :: nat) \<or> byte_of c = (39 :: nat)"

definition rx_chars :: "string \<Rightarrow> rx" where
  "rx_chars cs = Rx_class (\<lambda>c. c \<in> set cs)"

fun rx_all :: "rx list \<Rightarrow> rx" where
  "rx_all [r] = r"
| "rx_all (r # rs) = Rx_seq r (rx_all rs)"
| "rx_all [] = Rx_rep 0 (Some 0) Rx_boundary"

fun rx_any :: "rx list \<Rightarrow> rx" where
  "rx_any [r] = r"
| "rx_any (r # rs) = Rx_alt r (rx_any rs)"
| "rx_any [] = Rx_class (\<lambda>_. False)"

definition rx_text :: "string \<Rightarrow> rx" where
  "rx_text s = rx_all (map (\<lambda>c. rx_chars [c]) s)"

text \<open>A lower-case letter without regard to case.\<close>

definition rx_letter :: "char \<Rightarrow> rx" where
  "rx_letter c =
     (let both = Rx_class (\<lambda>d. d = c \<or> byte_of d + 32 = (byte_of c :: nat) \<and> upper_char d) in
      if c = CHR ''s'' then Rx_alt both (rx_text (map char_of [0xC5, 0xBF :: nat]))
      else if c = CHR ''k'' then Rx_alt both (rx_text (map char_of [0xE2, 0x84, 0xAA :: nat]))
      else both)"

definition rx_word :: "string \<Rightarrow> rx" where
  "rx_word s = rx_all (map rx_letter s)"

abbreviation "rx_opt r \<equiv> Rx_rep 0 (Some 1) r"
abbreviation "rx_star r \<equiv> Rx_rep 0 None r"
abbreviation "rx_plus r \<equiv> Rx_rep 1 None r"

record mask_rule =
  mr_kind :: string
  mr_re :: rx
  mr_group :: bool

text \<open>The value after a key: quotes, a colon or an equals sign, and what is neither space nor quote nor closing.\<close>

definition rx_value :: "rx list" where
  "rx_value = [rx_opt (Rx_class quote_char), rx_star (Rx_class space_char), rx_chars '':='', rx_star (Rx_class space_char),
     rx_opt (Rx_class quote_char),
     Rx_group (rx_plus (Rx_class (\<lambda>c. \<not> (space_char c \<or> quote_char c \<or> c = CHR '','' \<or> c = CHR ''}''))))]"

definition mail_char :: "char \<Rightarrow> bool" where
  "mail_char c \<longleftrightarrow> alnum_char c \<or> c \<in> set ''._%+-''"

definition host_char :: "char \<Rightarrow> bool" where
  "host_char c \<longleftrightarrow> alnum_char c \<or> c \<in> set ''.-''"

definition token_char :: "char \<Rightarrow> bool" where
  "token_char c \<longleftrightarrow> alnum_char c \<or> c \<in> set ''._-''"

definition card_rx :: rx where
  "card_rx = rx_all [Rx_boundary, Rx_rep 13 (Some 19) (Rx_seq (Rx_class digit_char) (rx_opt (rx_chars '' -''))), Rx_boundary]"

definition bearer_rx :: rx where
  "bearer_rx = rx_all [Rx_boundary, rx_chars ''Bb'', rx_text ''earer'', rx_plus (Rx_class space_char),
     Rx_group (Rx_rep 12 None (Rx_class token_char))]"

definition jwt_rx :: rx where
  "jwt_rx = rx_all [Rx_boundary, rx_text ''eyJ'', Rx_rep 16 None (Rx_class token_char)]"

definition password_rx :: rx where
  "password_rx = rx_all (Rx_boundary # rx_any (map rx_word [''password'', ''passwd'', ''pwd'']) # rx_value)"

definition secret_rx :: rx where
  "secret_rx = rx_all (Rx_boundary
     # rx_any [rx_word ''secret'', rx_all [rx_word ''api'', rx_opt (rx_chars ''_-''), rx_word ''key''],
         rx_all [rx_word ''access'', rx_opt (rx_chars ''_-''), rx_word ''key''], rx_word ''token'']
     # rx_value)"

definition email_rx :: rx where
  "email_rx = rx_all [Rx_boundary, rx_plus (Rx_class mail_char), rx_chars ''@'', rx_plus (Rx_class host_char), rx_chars ''.'',
     Rx_rep 2 None (Rx_class (\<lambda>c. upper_char c \<or> lower_char c)), Rx_boundary]"

definition ip_rx :: rx where
  "ip_rx = rx_all [Rx_boundary, Rx_rep 3 (Some 3) (rx_all [Rx_rep 1 (Some 3) (Rx_class digit_char), rx_chars ''.'']),
     Rx_rep 1 (Some 3) (Rx_class digit_char), Rx_boundary]"

definition mask_rules :: "mask_rule list" where
  "mask_rules =
     [\<lparr>mr_kind = ''card'', mr_re = card_rx, mr_group = False\<rparr>, \<lparr>mr_kind = ''token'', mr_re = bearer_rx, mr_group = True\<rparr>,
      \<lparr>mr_kind = ''token'', mr_re = jwt_rx, mr_group = False\<rparr>, \<lparr>mr_kind = ''password'', mr_re = password_rx, mr_group = True\<rparr>,
      \<lparr>mr_kind = ''secret'', mr_re = secret_rx, mr_group = True\<rparr>, \<lparr>mr_kind = ''email'', mr_re = email_rx, mr_group = False\<rparr>,
      \<lparr>mr_kind = ''ip'', mr_re = ip_rx, mr_group = False\<rparr>]"

section \<open>Collecting spans\<close>

record mask_span =
  ms_start :: nat
  ms_end :: nat
  ms_kind :: string

definition span_of_match :: "mask_rule \<Rightarrow> rx_match \<Rightarrow> mask_span" where
  "span_of_match r m =
     (case (if mr_group r then rm_group m else None) of
        Some (i, j) \<Rightarrow> \<lparr>ms_start = i, ms_end = j, ms_kind = mr_kind r\<rparr>
      | None \<Rightarrow> \<lparr>ms_start = rm_start m, ms_end = rm_end m, ms_kind = mr_kind r\<rparr>)"

definition found_spans :: "mask_rule list \<Rightarrow> string \<Rightarrow> mask_span list" where
  "found_spans rules s =
     filter (\<lambda>p. ms_start p < ms_end p) (concat (map (\<lambda>r. map (span_of_match r) (find_all (mr_re r) s)) rules))"

fun keep_apart :: "mask_span \<Rightarrow> mask_span list \<Rightarrow> mask_span list" where
  "keep_apart prior [] = []"
| "keep_apart prior (s # ss) = (if ms_start s < ms_end prior then keep_apart prior ss else s # keep_apart s ss)"

definition collect_spans :: "mask_rule list \<Rightarrow> string \<Rightarrow> mask_span list" where
  "collect_spans rules s =
     (case sort_key (\<lambda>p. (int (ms_start p), - int (ms_end p))) (found_spans rules s) of
        [] \<Rightarrow> []
      | p # ps \<Rightarrow> p # keep_apart p ps)"

section \<open>Masking\<close>

record masked_span =
  mk_start :: nat
  mk_length :: nat
  mk_kind :: string

definition mask_text :: string where
  "mask_text = concat (replicate masked_len mask_char)"

text \<open>A slice of bounds out of range panics (\<open>None\<close>). The loop carries the end of the last span and what is built.\<close>

definition go_slice :: "string \<Rightarrow> nat \<Rightarrow> nat \<Rightarrow> string option" where
  "go_slice s i j = (if i \<le> j \<and> j \<le> length s then Some (take (j - i) (drop i s)) else None)"

fun mask_loop :: "string \<Rightarrow> nat \<Rightarrow> string \<Rightarrow> masked_span list \<Rightarrow> mask_span list \<Rightarrow> (string \<times> masked_span list) option" where
  "mask_loop msg prev b out [] =
     (case go_slice msg prev (length msg) of None \<Rightarrow> None | Some x \<Rightarrow> Some (b @ x, out))"
| "mask_loop msg prev b out (s # ss) =
     (case go_slice msg prev (ms_start s) of
        None \<Rightarrow> None
      | Some x \<Rightarrow>
          mask_loop msg (ms_end s) (b @ x @ mask_text)
            (out @ [\<lparr>mk_start = length (runes (b @ x)), mk_length = masked_len, mk_kind = ms_kind s\<rparr>]) ss)"

definition apply_rules :: "mask_rule list \<Rightarrow> string \<Rightarrow> (string \<times> masked_span list) option" where
  "apply_rules rules msg =
     (let found = collect_spans rules msg in if found = [] then Some (msg, []) else mask_loop msg 0 '''' [] found)"

definition apply_mask :: "string \<Rightarrow> (string \<times> masked_span list) option" where
  "apply_mask msg = apply_rules mask_rules msg"

end
