(* ===== verification/Mask_Props.thy ===== *)
theory Mask_Props
  imports Log_Mask
begin

text \<open>
  What masking hides: of every span that a rule finds at least the start, and all of it when no two spans overlap in part.
  The spans that are reported point at the marks, counted in runes. An instance shows what overlapping in part lets through.
\<close>

section \<open>The spans that are kept\<close>

definition spans_apart :: "mask_span list \<Rightarrow> bool" where
  "spans_apart ps \<longleftrightarrow> sorted_wrt (\<lambda>p q. ms_end p \<le> ms_start q) ps \<and> list_all (\<lambda>p. ms_start p < ms_end p) ps"

definition hidden :: "mask_span list \<Rightarrow> nat \<Rightarrow> bool" where
  "hidden ps i \<longleftrightarrow> list_ex (\<lambda>p. ms_start p \<le> i \<and> i < ms_end p) ps"

lemma hidden_simps [simp]: "hidden [] i = False"
  "hidden (p # ps) i \<longleftrightarrow> ms_start p \<le> i \<and> i < ms_end p \<or> hidden ps i"
  by (simp_all add: hidden_def)

lemma hiddenI: "\<lbrakk>p \<in> set ps; ms_start p \<le> i; i < ms_end p\<rbrakk> \<Longrightarrow> hidden ps i"
  by (auto simp: hidden_def list_ex_iff)

lemma keep_apart_subset: "set (keep_apart p ps) \<subseteq> set ps"
  by (induction p ps rule: keep_apart.induct) auto

lemma keep_apart_ok:
  assumes "sorted (map ms_start (p # ps))" "\<forall>q \<in> set (p # ps). ms_start q < ms_end q"
  shows "spans_apart (p # keep_apart p ps) \<and> (\<forall>q \<in> set (p # ps). hidden (p # keep_apart p ps) (ms_start q))"
  using assms
proof (induction p ps rule: keep_apart.induct)
  case (2 p s ss)
  show ?case
  proof (cases "ms_start s < ms_end p")
    case True
    with 2 show ?thesis by auto
  next
    case False
    then have IH: "spans_apart (s # keep_apart s ss)" "\<forall>q \<in> set (s # ss). hidden (s # keep_apart s ss) (ms_start q)"
      using 2 by auto
    have "\<forall>q \<in> set (keep_apart s ss). ms_start s \<le> ms_start q" using 2(3) keep_apart_subset [of s ss] by auto
    with IH False 2(3,4) show ?thesis by (fastforce simp: spans_apart_def)
  qed
qed (simp add: spans_apart_def)

lemma found_within: "p \<in> set (found_spans rules s) \<Longrightarrow> ms_start p < ms_end p \<and> ms_end p \<le> length s"
  using find_all_within by (fastforce simp: found_spans_def span_of_match_def split: option.splits if_splits)

lemma collect_ok:
  shows "spans_apart (collect_spans rules s)" "\<forall>p \<in> set (collect_spans rules s). ms_end p \<le> length s"
    and "set (collect_spans rules s) \<subseteq> set (found_spans rules s)"
    and "p \<in> set (found_spans rules s) \<Longrightarrow> hidden (collect_spans rules s) (ms_start p)"
proof -
  let ?f = "\<lambda>p. (int (ms_start p), - int (ms_end p))"
  define ps where "ps = sort_key ?f (found_spans rules s)"
  have set: "set ps = set (found_spans rules s)" by (simp add: ps_def)
  have "sorted (map ?f ps)" by (simp add: ps_def)
  then have srt: "sorted (map ms_start ps)"
    by (simp add: sorted_map) (erule sorted_wrt_mono_rel [rotated], auto)
  have pos: "\<forall>p \<in> set ps. ms_start p < ms_end p \<and> ms_end p \<le> length s" using found_within set by blast
  have c: "collect_spans rules s = (case ps of [] \<Rightarrow> [] | p # ps \<Rightarrow> p # keep_apart p ps)"
    by (simp add: collect_spans_def ps_def)
  show "spans_apart (collect_spans rules s)"
    using keep_apart_ok srt pos by (auto simp: c spans_apart_def split: list.split)
  show sub: "set (collect_spans rules s) \<subseteq> set (found_spans rules s)"
    using keep_apart_subset unfolding set [symmetric] by (fastforce simp: c split: list.splits)
  then show "\<forall>p \<in> set (collect_spans rules s). ms_end p \<le> length s" using pos set by blast
  assume "p \<in> set (found_spans rules s)"
  then have "p \<in> set ps" by (simp add: set)
  then show "hidden (collect_spans rules s) (ms_start p)"
    using keep_apart_ok srt pos by (cases ps) (auto simp: c)
qed

text \<open>Spans that are nested or disjoint are hidden whole.\<close>

definition overlap_in_part :: "mask_span \<Rightarrow> mask_span \<Rightarrow> bool" where
  "overlap_in_part p q \<longleftrightarrow> ms_start p < ms_start q \<and> ms_start q < ms_end p \<and> ms_end p < ms_end q"

definition sort_before :: "mask_span \<Rightarrow> mask_span \<Rightarrow> bool" where
  "sort_before p q \<longleftrightarrow> ms_start p < ms_start q \<or> ms_start p = ms_start q \<and> ms_end q \<le> ms_end p"

lemma keep_apart_hides:
  assumes "sorted_wrt sort_before (p # ps)" "\<forall>a \<in> set (p # ps). \<forall>b \<in> set (p # ps). \<not> overlap_in_part a b"
    and "q \<in> set (p # ps)" "ms_start q \<le> i" "i < ms_end q"
  shows "hidden (p # keep_apart p ps) i"
  using assms
proof (induction p ps rule: keep_apart.induct)
  case (2 p s ss)
  show ?case
  proof (cases "ms_start s < ms_end p")
    case True
    show ?thesis
    proof (cases "q = s")
      case q: True
      have "sort_before p s" "\<not> overlap_in_part p s" using 2(3,4) by auto
      then have "ms_start p \<le> ms_start s" "ms_end s \<le> ms_end p \<or> ms_end p \<le> ms_start s"
        by (auto simp: sort_before_def overlap_in_part_def)
      with True q 2(6,7) show ?thesis by auto
    next
      case False
      with 2(5) have "q \<in> set (p # ss)" by simp
      moreover have "sorted_wrt sort_before (p # ss)" "\<forall>a \<in> set (p # ss). \<forall>b \<in> set (p # ss). \<not> overlap_in_part a b"
        using 2(3,4) by simp_all
      ultimately show ?thesis using 2(1) [OF True] 2(6,7) True by simp
    qed
  next
    case False
    have tail: "sorted_wrt sort_before (s # ss)" "\<forall>a \<in> set (s # ss). \<forall>b \<in> set (s # ss). \<not> overlap_in_part a b"
      using 2(3,4) by simp_all
    show ?thesis
    proof (cases "q = p")
      case True
      with 2(6,7) show ?thesis by simp
    next
      case neq: False
      with 2(5) have "q \<in> set (s # ss)" by simp
      with 2(2) [OF False tail] 2(6,7) False show ?thesis by simp
    qed
  qed
qed simp

lemma collect_hides:
  assumes "\<forall>a \<in> set (found_spans rules s). \<forall>b \<in> set (found_spans rules s). \<not> overlap_in_part a b"
    and "q \<in> set (found_spans rules s)" "ms_start q \<le> i" "i < ms_end q"
  shows "hidden (collect_spans rules s) i"
proof -
  let ?f = "\<lambda>p. (int (ms_start p), - int (ms_end p))"
  obtain p ps where ps: "sort_key ?f (found_spans rules s) = p # ps"
    using assms(2) by (cases "sort_key ?f (found_spans rules s)") (metis empty_iff set_empty2 set_sort, blast)
  have set: "set (p # ps) = set (found_spans rules s)" using ps by (metis set_sort)
  have "sorted (map ?f (p # ps))" unfolding ps [symmetric] by (rule sorted_sort_key)
  then have "sorted_wrt sort_before (p # ps)"
    unfolding sorted_map by (rule sorted_wrt_mono_rel [rotated]) (auto simp: sort_before_def)
  moreover have "\<forall>a \<in> set (p # ps). \<forall>b \<in> set (p # ps). \<not> overlap_in_part a b" unfolding set by (rule assms(1))
  moreover have "q \<in> set (p # ps)" unfolding set by (rule assms(2))
  ultimately have "hidden (p # keep_apart p ps) i" using assms(3,4) by (rule keep_apart_hides)
  then show ?thesis by (simp add: collect_spans_def ps)
qed

section \<open>The masked text\<close>

text \<open>A span becomes a mark, the bytes outside stay.\<close>

definition mask_cell :: "string \<Rightarrow> mask_span list \<Rightarrow> nat \<Rightarrow> string" where
  "mask_cell msg ps i = (if i \<in> ms_start ` set ps then mask_text else if hidden ps i then [] else [msg ! i])"

definition masked_reference :: "string \<Rightarrow> mask_span list \<Rightarrow> string" where
  "masked_reference msg ps = concat (map (mask_cell msg ps) [0 ..< length msg])"

lemma open_cells:
  assumes "\<forall>p \<in> set ps. j \<le> ms_start p" "i \<le> j" "j \<le> length msg"
  shows "concat (map (mask_cell msg ps) [i ..< j]) = take (j - i) (drop i msg)"
proof -
  have "mask_cell msg ps k = [msg ! k]" if "k \<in> set [i ..< j]" for k
    using assms(1) that by (auto simp: mask_cell_def hidden_def list_ex_iff)
  then have "map (mask_cell msg ps) [i ..< j] = map (\<lambda>k. [msg ! k]) [i ..< j]" by (rule map_cong [OF refl])
  then have "concat (map (mask_cell msg ps) [i ..< j]) = map ((!) msg) [i ..< j]" by (simp only: concat_map_singleton)
  also have "\<dots> = take (j - i) (drop i msg)"
    by (rule nth_equalityI) (use assms(2,3) in auto)
  finally show ?thesis .
qed

lemma span_cells:
  assumes "ms_start p < ms_end p" "\<forall>q \<in> set ps. ms_end p \<le> ms_start q"
  shows "concat (map (mask_cell msg (p # ps)) [ms_start p ..< ms_end p]) = mask_text"
proof -
  have "mask_cell msg (p # ps) k = []" if "k \<in> set [Suc (ms_start p) ..< ms_end p]" for k
    using assms that by (auto simp: mask_cell_def)
  then have "concat (map (mask_cell msg (p # ps)) [Suc (ms_start p) ..< ms_end p]) = []" by simp
  then show ?thesis using assms(1) by (simp add: upt_conv_Cons mask_cell_def)
qed

lemma later_cells:
  assumes "ms_start p < ms_end p"
  shows "map (mask_cell msg (p # ps)) [ms_end p ..< n] = map (mask_cell msg ps) [ms_end p ..< n]"
  using assms by (intro map_cong) (auto simp: mask_cell_def)

text \<open>What is reported of a span: where its mark starts.\<close>

fun span_marks :: "string \<Rightarrow> nat \<Rightarrow> string \<Rightarrow> mask_span list \<Rightarrow> masked_span list" where
  "span_marks msg prev b [] = []"
| "span_marks msg prev b (s # ss) =
     (let x = take (ms_start s - prev) (drop prev msg) in
      \<lparr>mk_start = length (runes (b @ x)), mk_length = masked_len, mk_kind = ms_kind s\<rparr>
      # span_marks msg (ms_end s) (b @ x @ mask_text) ss)"

lemma mask_loop_reference:
  assumes "spans_apart ps" "\<forall>p \<in> set ps. prev \<le> ms_start p \<and> ms_end p \<le> length msg" "prev \<le> length msg"
  shows "mask_loop msg prev b out ps
    = Some (b @ concat (map (mask_cell msg ps) [prev ..< length msg]), out @ span_marks msg prev b ps)"
  using assms
proof (induction ps arbitrary: prev b out)
  case Nil
  then show ?case by (simp add: go_slice_def open_cells)
next
  case (Cons p ps)
  then have p: "ms_start p < ms_end p" "prev \<le> ms_start p" "ms_end p \<le> length msg"
    and later: "\<forall>q \<in> set ps. ms_end p \<le> ms_start q" by (auto simp: spans_apart_def)
  let ?x = "take (ms_start p - prev) (drop prev msg)"
  have "[prev ..< length msg] = [prev ..< ms_start p] @ [ms_start p ..< ms_end p] @ [ms_end p ..< length msg]"
    using p upt_add_eq_append by (metis le_add_diff_inverse less_imp_le order_trans append.assoc)
  moreover have "concat (map (mask_cell msg (p # ps)) [prev ..< ms_start p]) = ?x"
    by (rule open_cells) (use p later in auto)
  ultimately have cells: "concat (map (mask_cell msg (p # ps)) [prev ..< length msg])
      = ?x @ mask_text @ concat (map (mask_cell msg ps) [ms_end p ..< length msg])"
    by (simp only: map_append concat_append span_cells [OF p(1) later] later_cells [OF p(1)])
  have "mask_loop msg (ms_end p) b' out' ps
      = Some (b' @ concat (map (mask_cell msg ps) [ms_end p ..< length msg]), out' @ span_marks msg (ms_end p) b' ps)" for b' out'
    by (rule Cons.IH) (use Cons.prems p later in \<open>auto simp: spans_apart_def\<close>)
  then show ?case using p by (simp add: go_slice_def cells Let_def)
qed

lemma apply_rules_reference:
  "apply_rules rules msg
   = Some (masked_reference msg (collect_spans rules msg), span_marks msg 0 '''' (collect_spans rules msg))"
proof (cases "collect_spans rules msg")
  case Nil
  then show ?thesis using open_cells [of "[]" "length msg" 0 msg]
    by (simp add: apply_rules_def masked_reference_def)
next
  case (Cons p ps)
  then have "apply_rules rules msg = mask_loop msg 0 '''' [] (collect_spans rules msg)" by (simp add: apply_rules_def)
  with mask_loop_reference [OF collect_ok(1), of rules msg 0 msg "''''" "[]"] collect_ok(2) [of rules msg] show ?thesis
    by (simp add: masked_reference_def)
qed

text \<open>
  (C40) Masking never panics, whatever the message. Its text is the message with every kept span replaced by the mark and the
  bytes outside unchanged. Kept spans are spans the rules found; of every span found the first byte is hidden, and
  the whole of it when no two spans found overlap in part.
\<close>

theorem mask_hides_found:
  "\<exists>out. apply_mask msg = Some (masked_reference msg (collect_spans mask_rules msg), out)
    \<and> map mk_kind out = map ms_kind (collect_spans mask_rules msg)
    \<and> set (collect_spans mask_rules msg) \<subseteq> set (found_spans mask_rules msg)
    \<and> (\<forall>q \<in> set (found_spans mask_rules msg). hidden (collect_spans mask_rules msg) (ms_start q))
    \<and> ((\<forall>a \<in> set (found_spans mask_rules msg). \<forall>b \<in> set (found_spans mask_rules msg). \<not> overlap_in_part a b)
       \<longrightarrow> (\<forall>q \<in> set (found_spans mask_rules msg). \<forall>i. ms_start q \<le> i \<and> i < ms_end q \<longrightarrow> hidden (collect_spans mask_rules msg) i))"
proof -
  have "map mk_kind (span_marks msg n b ps) = map ms_kind ps" for n b ps
    by (induction msg n b ps rule: span_marks.induct) (simp_all add: Let_def)
  then show ?thesis
    unfolding apply_mask_def apply_rules_reference
    by (intro exI conjI refl ballI impI allI, simp) (use collect_ok(3,4) collect_hides in blast)+
qed

section \<open>Marks\<close>

lemma runes_mask: "runes (mask_text @ s) = replicate masked_len mask_char @ runes s"
proof -
  have one: "runes (mask_char @ s) = mask_char # runes s" for s
  proof -
    have "rune_width (mask_char @ s) = 3" by (simp add: mask_char_def between_def)
    then show ?thesis by (subst runes.simps) (simp add: mask_char_def)
  qed
  have "runes (concat (replicate n mask_char) @ s) = replicate n mask_char @ runes s" for n
    by (induction n) (simp_all add: one)
  then show ?thesis by (simp add: mask_text_def)
qed

lemma fresh_mask: "fresh_start (mask_text @ s)"
proof -
  obtain t where "mask_text = char_of (0xE2 :: nat) # t" by (simp add: mask_text_def masked_len_def mask_char_def eval_nat_numeral)
  then have e: "mask_text @ s = char_of (0xE2 :: nat) # t @ s" by simp
  show ?thesis unfolding fresh_start_def e by (simp add: between_def)
qed

lemma loop_marks:
  assumes "mask_loop msg prev b out ps = Some (res, out')"
    and "\<forall>s. \<forall>k \<in> set out. take (mk_length k) (drop (mk_start k) (runes (b @ s))) = replicate masked_len mask_char"
  shows "\<forall>k \<in> set out'. take (mk_length k) (drop (mk_start k) (runes res)) = replicate masked_len mask_char"
  using assms
proof (induction msg prev b out ps rule: mask_loop.induct)
  case (1 msg prev b out)
  then show ?case by (auto split: option.splits)
next
  case (2 msg prev b out p ps)
  then obtain x where x: "go_slice msg prev (ms_start p) = Some x" by (auto split: option.splits)
  let ?k = "\<lparr>mk_start = length (runes (b @ x)), mk_length = masked_len, mk_kind = ms_kind p\<rparr>"
  have "mask_loop msg (ms_end p) (b @ x @ mask_text) (out @ [?k]) ps = Some (res, out')" using 2(2) x by simp
  moreover have "take (mk_length k) (drop (mk_start k) (runes ((b @ x @ mask_text) @ s))) = replicate masked_len mask_char"
    if "k \<in> set (out @ [?k])" for k s
  proof -
    from that consider "k \<in> set out" | "k = ?k" by auto
    then show ?thesis
    proof cases
      case 1
      then show ?thesis using 2(3) by (simp add: append.assoc)
    next
      case 2
      have "runes ((b @ x) @ mask_text @ s) = runes (b @ x) @ replicate masked_len mask_char @ runes s"
        unfolding runes_append [OF fresh_mask] runes_mask ..
      with 2 show ?thesis by simp
    qed
  qed
  ultimately show ?case using 2(1) [OF x] by blast
qed

text \<open>
  The reported spans point at the marks: counted in runes of the masked text, each of them starts and ends where a mark
  does, also when the message is not valid UTF-8.
\<close>

theorem mask_spans_at_marks:
  "case apply_mask msg of
     None \<Rightarrow> False
   | Some (text, out) \<Rightarrow>
       list_all (\<lambda>k. take (mk_length k) (drop (mk_start k) (runes text)) = replicate masked_len mask_char) out"
proof (cases "collect_spans mask_rules msg = []")
  case True
  then show ?thesis by (simp add: apply_mask_def apply_rules_def)
next
  case False
  then have "apply_mask msg = mask_loop msg 0 '''' [] (collect_spans mask_rules msg)"
    by (simp add: apply_mask_def apply_rules_def)
  moreover obtain res out where res: "apply_mask msg = Some (res, out)"
    by (simp add: apply_mask_def apply_rules_reference)
  ultimately have "\<forall>k \<in> set out. take (mk_length k) (drop (mk_start k) (runes res)) = replicate masked_len mask_char"
    using loop_marks [of msg 0 "''''" "[]" "collect_spans mask_rules msg" res out] by simp
  then show ?thesis unfolding res by (simp add: list_all_iff)
qed

section \<open>What gets through\<close>

text \<open>
  A password that ends in the first digits of a card number: the password starts first, so the card, which overlaps it in
  part, is dropped, and the digits after the password stay in the text.
\<close>

definition demo_log :: string where
  "demo_log = ''pwd=a-1234 567890123 456 x''"

lemma mask_leaks_tail:
  "found_spans mask_rules demo_log = [\<lparr>ms_start = 6, ms_end = 25, ms_kind = ''card''\<rparr>, \<lparr>ms_start = 4, ms_end = 10, ms_kind = ''password''\<rparr>]"
  "apply_mask demo_log = Some (''pwd='' @ mask_text @ '' 567890123 456 x'',
     [\<lparr>mk_start = 4, mk_length = 6, mk_kind = ''password''\<rparr>])"
proof -
  show f: "found_spans mask_rules demo_log
      = [\<lparr>ms_start = 6, ms_end = 25, ms_kind = ''card''\<rparr>, \<lparr>ms_start = 4, ms_end = 10, ms_kind = ''password''\<rparr>]"
    by code_simp
  have c: "collect_spans mask_rules demo_log = [\<lparr>ms_start = 4, ms_end = 10, ms_kind = ''password''\<rparr>]"
    by (simp add: collect_spans_def f)
  have "runes ''pwd='' = [''p'', ''w'', ''d'', ''='']" by code_simp
  then show "apply_mask demo_log = Some (''pwd='' @ mask_text @ '' 567890123 456 x'',
     [\<lparr>mk_start = 4, mk_length = 6, mk_kind = ''password''\<rparr>])"
    unfolding apply_mask_def apply_rules_def c Let_def by (simp add: go_slice_def demo_log_def masked_len_def)
qed

definition demo_mail_log :: string where
  "demo_mail_log = ''from bob@x.co''"

lemma demo_mail_found: "map (\<lambda>p. (ms_start p, ms_end p, ms_kind p)) (found_spans mask_rules demo_mail_log) = [(5, 13, ''email'')]"
  by code_simp

theorem mask_hides_found_witness:
  "\<exists>p. set (found_spans mask_rules demo_mail_log) = {p} \<and> ms_start p = 5 \<and> ms_end p = 13
    \<and> (\<forall>i. 5 \<le> i \<and> i < 13 \<longrightarrow> hidden (collect_spans mask_rules demo_mail_log) i)"
proof -
  obtain p where p: "found_spans mask_rules demo_mail_log = [p]" "ms_start p = 5" "ms_end p = 13"
    using demo_mail_found by (auto simp: map_eq_Cons_conv)
  then have "\<forall>a \<in> set (found_spans mask_rules demo_mail_log). \<forall>b \<in> set (found_spans mask_rules demo_mail_log). \<not> overlap_in_part a b"
    by (simp add: overlap_in_part_def)
  with mask_hides_found [of demo_mail_log] p show ?thesis by auto
qed

end
