(* ===== verification/Dashboard_Check.thy ===== *)
theory Dashboard_Check
  imports Go_Text
begin

text \<open>
  The validation of dashboards (\<open>internal/dashboard/model.go\<close>, \<open>Validate\<close> of \<open>validate.go\<close>): identities, variables, widgets,
  their queries and options, and their places on a grid of 12 columns and 96 rows. A coordinate is a 64-bit \<open>int\<close>, since its sums
  can overflow. The encoding of a definition by \<open>encoding/json\<close> is an argument. The error \<open>panic\<close> is an index out of range.
\<close>

type_synonym i64 = "64 word"

definition dash_schema_version :: int where "dash_schema_version = 1"
definition max_definition_bytes :: int where "max_definition_bytes = 65536"
definition grid_columns :: int where "grid_columns = 12"
definition grid_rows :: int where "grid_rows = 96"

record dash_layout =
  ly_x :: i64
  ly_y :: i64
  ly_w :: i64
  ly_h :: i64

record dash_variable =
  dv_id :: string
  dv_label :: string
  dv_kind :: string

record dash_widget =
  dw_id :: string
  dw_title :: string
  dw_type :: string
  dw_binding :: string
  dw_query_refs :: "string list"
  dw_max_rows :: "int option"
  dw_layout :: dash_layout

record dash_definition =
  dd_schema_version :: int
  dd_id :: string
  dd_title :: string
  dd_description :: string
  dd_variables :: "dash_variable list"
  dd_widgets :: "dash_widget list"

text \<open>The pattern \<open>^[a-z][a-z0-9-]{0,63}$\<close>.\<close>

definition id_pattern :: "string \<Rightarrow> bool" where
  "id_pattern s \<longleftrightarrow> (case s of
      [] \<Rightarrow> False
    | c # cs \<Rightarrow> between 97 122 c \<and> length cs \<le> 63 \<and> list_all (\<lambda>c. between 97 122 c \<or> between 48 57 c \<or> c = CHR ''-'') cs)"

definition valid_text :: "string \<Rightarrow> bool" where
  "valid_text s \<longleftrightarrow> (let n = length (runes s) in n > 0 \<and> n \<le> 160)"

fun check_variables :: "dash_variable list \<Rightarrow> string list \<Rightarrow> string list \<Rightarrow> string option" where
  "check_variables [] ids kinds = None"
| "check_variables (v # vs) ids kinds =
     (if \<not> valid_text (dv_id v) \<or> \<not> id_pattern (dv_id v) \<or> dv_id v \<in> set ids \<or> \<not> valid_text (dv_label v)
         \<or> dv_kind v \<noteq> ''scope'' \<and> dv_kind v \<noteq> ''range'' \<or> dv_kind v \<in> set kinds
      then Some ''invalid variable''
      else check_variables vs (dv_id v # ids) (dv_kind v # kinds))"

definition widget_bindings :: "(string, string list) gomap" where
  "widget_bindings =
     [(''TimeSeries'', [''trends'']), (''Stat'', [''nodes.ready'', ''pods.running'']), (''Gauge'', [''pods.runningPercent'']),
      (''Table'', [''unhealthy'']), (''LogStream'', [''unsupported.logs'']), (''EventTimeline'', [''events''])]"

definition binding_allowed :: "string \<Rightarrow> string \<Rightarrow> bool" where
  "binding_allowed typ b \<longleftrightarrow> (case map_of widget_bindings typ of None \<Rightarrow> False | Some bs \<Rightarrow> b \<in> set bs)"

fun check_refs :: "string list \<Rightarrow> string list \<Rightarrow> string list \<Rightarrow> string option" where
  "check_refs refs [] seen = None"
| "check_refs refs (r # rs) seen =
     (if r \<in> set seen then Some ''duplicate queryRef''
      else if r \<notin> set refs then Some ''unknown queryRef''
      else check_refs refs rs (r # seen))"

section \<open>The grid\<close>

text \<open>The cells that are taken; \<open>mark_cells\<close> is the double loop, cell by cell.\<close>

type_synonym grid = "(int \<times> int) list"

fun mark_cells :: "(int \<times> int) list \<Rightarrow> grid \<Rightarrow> string + grid" where
  "mark_cells [] g = Inr g"
| "mark_cells ((y, x) # cs) g =
     (if y < 0 \<or> grid_rows \<le> y \<or> x < 0 \<or> grid_columns \<le> x then Inl ''panic''
      else if (y, x) \<in> set g then Inl ''layout overlap''
      else mark_cells cs ((y, x) # g))"

definition layout_cells :: "dash_layout \<Rightarrow> (int \<times> int) list" where
  "layout_cells l = concat (map (\<lambda>y. map (\<lambda>x. (y, x)) [sint (ly_x l) .. sint (ly_x l + ly_w l) - 1])
     [sint (ly_y l) .. sint (ly_y l + ly_h l) - 1])"

definition layout_in_bounds :: "dash_layout \<Rightarrow> bool" where
  "layout_in_bounds l \<longleftrightarrow> \<not> (sint (ly_x l) < 0 \<or> sint (ly_y l) < 0 \<or> sint (ly_w l) < 1 \<or> sint (ly_h l) < 1
     \<or> sint (ly_x l + ly_w l) > grid_columns \<or> sint (ly_y l + ly_h l) > grid_rows)"

definition place_layout :: "dash_layout \<Rightarrow> grid \<Rightarrow> string + grid" where
  "place_layout l g = (if \<not> layout_in_bounds l then Inl ''layout out of bounds'' else mark_cells (layout_cells l) g)"

definition check_widget :: "string list \<Rightarrow> dash_widget \<Rightarrow> string list \<Rightarrow> grid \<Rightarrow> string + grid" where
  "check_widget refs w ids g =
     (if \<not> valid_text (dw_id w) \<or> \<not> id_pattern (dw_id w) \<or> dw_id w \<in> set ids \<or> \<not> valid_text (dw_title w)
         \<or> \<not> binding_allowed (dw_type w) (dw_binding w)
      then Inl ''invalid widget''
      else case
        (if dw_type w = ''TimeSeries''
         then (if length (dw_query_refs w) < 1 \<or> length (dw_query_refs w) > 8 then Some ''invalid queryRefs''
               else check_refs refs (dw_query_refs w) [])
         else if dw_query_refs w \<noteq> [] then Some ''queryRefs forbidden for widget type'' else None) of
        Some e \<Rightarrow> Inl e
      | None \<Rightarrow>
          if (dw_type w = ''Table'' \<or> dw_type w = ''EventTimeline'') \<noteq> (dw_max_rows w \<noteq> None) \<and> dw_max_rows w \<noteq> None
          then Inl ''options forbidden for widget type''
          else if (case dw_max_rows w of None \<Rightarrow> False | Some n \<Rightarrow> n < 1 \<or> n > 5000) then Inl ''invalid maxRows''
          else place_layout (dw_layout w) g)"

fun check_widgets :: "string list \<Rightarrow> dash_widget list \<Rightarrow> string list \<Rightarrow> grid \<Rightarrow> string option" where
  "check_widgets refs [] ids g = None"
| "check_widgets refs (w # ws) ids g =
     (case check_widget refs w ids g of
        Inl e \<Rightarrow> Some e
      | Inr g' \<Rightarrow> check_widgets refs ws (dw_id w # ids) g')"

definition validate_dashboard :: "(dash_definition \<Rightarrow> string) \<Rightarrow> string list \<Rightarrow> dash_definition \<Rightarrow> string option" where
  "validate_dashboard canonical refs d =
     (if dd_schema_version d \<noteq> dash_schema_version then Some ''unsupported schemaVersion''
      else if \<not> valid_text (dd_id d) \<or> \<not> id_pattern (dd_id d) \<or> \<not> valid_text (dd_title d) \<or> length (runes (dd_description d)) > 160
      then Some ''invalid dashboard identity''
      else if length (dd_variables d) > 2 \<or> length (dd_widgets d) < 1 \<or> length (dd_widgets d) > 24
      then Some ''dashboard limits exceeded''
      else case check_variables (dd_variables d) [] [] of
        Some e \<Rightarrow> Some e
      | None \<Rightarrow>
          (case check_widgets refs (dd_widgets d) [] [] of
             Some e \<Rightarrow> Some e
           | None \<Rightarrow> if int (length (canonical d)) > max_definition_bytes then Some ''canonical definition too large'' else None))"

section \<open>Placing is exact\<close>

text \<open>A widget's rectangle over the integers.\<close>

definition rect :: "dash_layout \<Rightarrow> (int \<times> int) set" where
  "rect l = {sint (ly_y l) ..< sint (ly_y l) + sint (ly_h l)} \<times> {sint (ly_x l) ..< sint (ly_x l) + sint (ly_w l)}"

definition grid_area :: "(int \<times> int) set" where
  "grid_area = {0 ..< grid_rows} \<times> {0 ..< grid_columns}"

definition no_overflow :: "dash_layout \<Rightarrow> bool" where
  "no_overflow l \<longleftrightarrow> sint (ly_x l) + sint (ly_w l) < 2 ^ 63 \<and> sint (ly_y l) + sint (ly_h l) < 2 ^ 63"

lemma sint_plus:
  assumes "0 \<le> sint a" "0 \<le> sint b" "sint a + sint b < 2 ^ 63"
  shows "sint (a + b :: i64) = sint a + sint b"
  using assms by (simp add: sint_word_ariths signed_take_bit_int_eq_self)

lemma mark_cells_exact:
  "distinct cs \<Longrightarrow> (\<exists>g'. mark_cells cs g = Inr g' \<and> set g' = set cs \<union> set g)
    \<longleftrightarrow> set cs \<subseteq> grid_area \<and> set cs \<inter> set g = {}"
proof (induction cs g rule: mark_cells.induct)
  case (2 y x cs g)
  have "(y, x) \<in> grid_area \<longleftrightarrow> \<not> (y < 0 \<or> grid_rows \<le> y \<or> x < 0 \<or> grid_columns \<le> x)" by (auto simp: grid_area_def)
  with 2 show ?case by (cases "(y, x) \<in> set g") (auto simp: Un_commute Un_left_commute)
qed simp

lemma mark_cells_set: "mark_cells cs g = Inr g' \<Longrightarrow> set g' = set cs \<union> set g"
  by (induction cs g rule: mark_cells.induct) (auto split: if_splits)

lemma mark_cells_no_panic: "set cs \<subseteq> grid_area \<Longrightarrow> mark_cells cs g \<noteq> Inl ''panic''"
  by (induction cs g rule: mark_cells.induct) (auto simp: grid_area_def)

lemma layout_cells_set:
  "set (layout_cells l) = {sint (ly_y l) ..< sint (ly_y l + ly_h l)} \<times> {sint (ly_x l) ..< sint (ly_x l + ly_w l)}"
  by (auto simp: layout_cells_def)

lemma layout_cells_distinct: "distinct (layout_cells l)"
proof -
  have "distinct (concat (map (\<lambda>y. map (\<lambda>x. (y, x)) xs) ys))" if "distinct xs" "distinct ys" for xs ys :: "int list"
    using that by (induction ys) (auto simp: distinct_map inj_on_def)
  then show ?thesis by (simp add: layout_cells_def)
qed

lemma bounds_rect: "no_overflow l \<Longrightarrow> layout_in_bounds l \<longleftrightarrow> 1 \<le> sint (ly_w l) \<and> 1 \<le> sint (ly_h l) \<and> rect l \<subseteq> grid_area"
proof (cases "0 \<le> sint (ly_x l) \<and> 0 \<le> sint (ly_y l) \<and> 1 \<le> sint (ly_w l) \<and> 1 \<le> sint (ly_h l)")
  case True
  assume n: "no_overflow l"
  then have "sint (ly_x l + ly_w l) = sint (ly_x l) + sint (ly_w l)" "sint (ly_y l + ly_h l) = sint (ly_y l) + sint (ly_h l)"
    using True by (auto simp: no_overflow_def intro!: sint_plus)
  with True show ?thesis by (auto simp: layout_in_bounds_def rect_def grid_area_def times_subset_iff)
next
  case False
  then show ?thesis by (fastforce simp: layout_in_bounds_def rect_def grid_area_def times_subset_iff)
qed

lemma in_bounds_cells: "\<lbrakk>no_overflow l; layout_in_bounds l\<rbrakk> \<Longrightarrow> set (layout_cells l) = rect l"
  using sint_plus [of "ly_x l" "ly_w l"] sint_plus [of "ly_y l" "ly_h l"]
  by (auto simp: layout_cells_set rect_def no_overflow_def layout_in_bounds_def)

text \<open>An overflowing sum is negative, so such a layout has no cells at all.\<close>

lemma in_bounds_area: "layout_in_bounds l \<Longrightarrow> set (layout_cells l) \<subseteq> grid_area"
  by (auto simp: layout_cells_set layout_in_bounds_def grid_area_def)

lemma place_exact:
  assumes "no_overflow l"
  shows "(\<exists>g'. place_layout l g = Inr g') \<longleftrightarrow> 1 \<le> sint (ly_w l) \<and> 1 \<le> sint (ly_h l) \<and> rect l \<subseteq> grid_area \<and> rect l \<inter> set g = {}"
    and "place_layout l g = Inr g' \<Longrightarrow> set g' = rect l \<union> set g"
proof -
  show "place_layout l g = Inr g' \<Longrightarrow> set g' = rect l \<union> set g"
    using mark_cells_set in_bounds_cells [OF assms] by (simp add: place_layout_def split: if_splits)
  show "(\<exists>g'. place_layout l g = Inr g') \<longleftrightarrow> 1 \<le> sint (ly_w l) \<and> 1 \<le> sint (ly_h l) \<and> rect l \<subseteq> grid_area \<and> rect l \<inter> set g = {}"
  proof (cases "layout_in_bounds l")
    case True
    then have "(\<exists>g'. place_layout l g = Inr g') \<longleftrightarrow> (\<exists>g'. mark_cells (layout_cells l) g = Inr g' \<and> set g' = set (layout_cells l) \<union> set g)"
      using mark_cells_set by (fastforce simp: place_layout_def)
    also have "\<dots> \<longleftrightarrow> rect l \<subseteq> grid_area \<and> rect l \<inter> set g = {}"
      using mark_cells_exact [OF layout_cells_distinct, of l g] unfolding in_bounds_cells [OF assms True] .
    finally show ?thesis using bounds_rect [OF assms] True by blast
  next
    case False
    then show ?thesis using bounds_rect [OF assms] by (auto simp: place_layout_def)
  qed
qed

section \<open>Widgets\<close>

text \<open>What a widget has to satisfy apart from its place.\<close>

definition widget_fields_ok :: "string list \<Rightarrow> dash_widget \<Rightarrow> bool" where
  "widget_fields_ok refs w \<longleftrightarrow>
     valid_text (dw_id w) \<and> id_pattern (dw_id w) \<and> valid_text (dw_title w) \<and> binding_allowed (dw_type w) (dw_binding w)
     \<and> (if dw_type w = ''TimeSeries''
        then dw_query_refs w \<noteq> [] \<and> length (dw_query_refs w) \<le> 8 \<and> distinct (dw_query_refs w) \<and> set (dw_query_refs w) \<subseteq> set refs
        else dw_query_refs w = [])
     \<and> (dw_max_rows w \<noteq> None \<longrightarrow> dw_type w \<in> {''Table'', ''EventTimeline''} \<and> the (dw_max_rows w) \<in> {1 .. 5000})"

lemma check_refs_None: "check_refs refs rs seen = None \<longleftrightarrow> distinct rs \<and> set rs \<inter> set seen = {} \<and> set rs \<subseteq> set refs"
  by (induction refs rs seen rule: check_refs.induct) auto

lemma check_widget_place:
  "check_widget refs w ids g =
    (if widget_fields_ok refs w \<and> dw_id w \<notin> set ids then place_layout (dw_layout w) g
     else Inl (projl (check_widget refs w ids g)))"
  using check_refs_None [of refs "dw_query_refs w" "[]"]
  by (cases "dw_max_rows w"; cases "dw_type w = ''TimeSeries''"; cases "dw_query_refs w")
    (auto simp: check_widget_def widget_fields_ok_def split: option.split)

lemma not_in_image: "y \<notin> f ` A \<longleftrightarrow> (\<forall>v \<in> A. f v \<noteq> y)"
  by blast

lemma check_widgets_exact:
  assumes "\<forall>w \<in> set ws. no_overflow (dw_layout w)"
  shows "check_widgets refs ws ids g = None \<longleftrightarrow>
    (\<forall>w \<in> set ws. widget_fields_ok refs w \<and> dw_id w \<notin> set ids \<and> 1 \<le> sint (ly_w (dw_layout w)) \<and> 1 \<le> sint (ly_h (dw_layout w))
       \<and> rect (dw_layout w) \<subseteq> grid_area \<and> rect (dw_layout w) \<inter> set g = {})
    \<and> distinct (map dw_id ws) \<and> sorted_wrt (\<lambda>v w. rect (dw_layout v) \<inter> rect (dw_layout w) = {}) ws"
  using assms
proof (induction ws arbitrary: ids g)
  case (Cons w ws)
  let ?l = "dw_layout w"
  have n: "no_overflow ?l" "\<forall>w \<in> set ws. no_overflow (dw_layout w)" using Cons.prems by simp_all
  show ?case
  proof (cases "widget_fields_ok refs w \<and> dw_id w \<notin> set ids \<and> (\<exists>g'. place_layout ?l g = Inr g')")
    case True
    then obtain g' where g': "place_layout ?l g = Inr g'" by blast
    then have e: "check_widgets refs (w # ws) ids g = check_widgets refs ws (dw_id w # ids) g'"
      using check_widget_place [of refs w ids g] True by simp
    have d: "rect (dw_layout v) \<inter> set g' = {} \<longleftrightarrow> rect ?l \<inter> rect (dw_layout v) = {} \<and> rect (dw_layout v) \<inter> set g = {}" for v
      using place_exact(2) [OF n(1) g'] by blast
    show ?thesis
      unfolding e Cons.IH [OF n(2)] d using True place_exact(1) [OF n(1), of g] by (auto simp: not_in_image)
  next
    case False
    then have "check_widgets refs (w # ws) ids g \<noteq> None"
      using check_widget_place [of refs w ids g] by (auto split: sum.splits if_splits)
    with False place_exact(1) [OF n(1)] show ?thesis by auto
  qed
qed simp

lemma check_variables_None:
  "check_variables vs ids kinds = None \<longleftrightarrow>
    (\<forall>v \<in> set vs. valid_text (dv_id v) \<and> id_pattern (dv_id v) \<and> valid_text (dv_label v) \<and> dv_kind v \<in> {''scope'', ''range''}
       \<and> dv_id v \<notin> set ids \<and> dv_kind v \<notin> set kinds)
    \<and> distinct (map dv_id vs) \<and> distinct (map dv_kind vs)"
proof (induction vs arbitrary: ids kinds)
  case (Cons v vs)
  let ?ok = "valid_text (dv_id v) \<and> id_pattern (dv_id v) \<and> valid_text (dv_label v) \<and> dv_kind v \<in> {''scope'', ''range''}
    \<and> dv_id v \<notin> set ids \<and> dv_kind v \<notin> set kinds"
  have "check_variables (v # vs) ids kinds = None \<longleftrightarrow> ?ok \<and> check_variables vs (dv_id v # ids) (dv_kind v # kinds) = None"
    by simp argo
  then show ?case unfolding Cons.IH by (auto simp: not_in_image)
qed simp

end
