(* ===== verification/Dashboard_Props.thy ===== *)
theory Dashboard_Props
  imports Dashboard_Check
begin

text \<open>
  Which dashboards are accepted, exactly; that the validation indexes no array out of range; and a layout outside the
  grid that is accepted because the sum of its coordinates overflows.
\<close>

text \<open>
  (C39) A dashboard whose coordinates do not overflow is accepted exactly when it has the supported version, valid
  identities, at most two variables of different kinds, 1 to 24 valid widgets with different identities, all of
  them on the grid and no two of them overlapping, and an encoding within the limit.
\<close>

theorem dashboard_valid_exact:
  assumes "\<forall>w \<in> set (dd_widgets d). no_overflow (dw_layout w)"
  shows "validate_dashboard canonical refs d = None \<longleftrightarrow>
    dd_schema_version d = dash_schema_version \<and> valid_text (dd_id d) \<and> id_pattern (dd_id d) \<and> valid_text (dd_title d)
    \<and> length (runes (dd_description d)) \<le> 160
    \<and> length (dd_variables d) \<le> 2 \<and> distinct (map dv_id (dd_variables d)) \<and> distinct (map dv_kind (dd_variables d))
    \<and> (\<forall>v \<in> set (dd_variables d). valid_text (dv_id v) \<and> id_pattern (dv_id v) \<and> valid_text (dv_label v)
         \<and> dv_kind v \<in> {''scope'', ''range''})
    \<and> 1 \<le> length (dd_widgets d) \<and> length (dd_widgets d) \<le> 24 \<and> distinct (map dw_id (dd_widgets d))
    \<and> (\<forall>w \<in> set (dd_widgets d). widget_fields_ok refs w \<and> 1 \<le> sint (ly_w (dw_layout w)) \<and> 1 \<le> sint (ly_h (dw_layout w))
         \<and> rect (dw_layout w) \<subseteq> grid_area)
    \<and> sorted_wrt (\<lambda>v w. rect (dw_layout v) \<inter> rect (dw_layout w) = {}) (dd_widgets d)
    \<and> int (length (canonical d)) \<le> max_definition_bytes"
proof -
  have "validate_dashboard canonical refs d = None \<longleftrightarrow>
      dd_schema_version d = dash_schema_version
      \<and> (valid_text (dd_id d) \<and> id_pattern (dd_id d) \<and> valid_text (dd_title d) \<and> length (runes (dd_description d)) \<le> 160)
      \<and> (length (dd_variables d) \<le> 2 \<and> 1 \<le> length (dd_widgets d) \<and> length (dd_widgets d) \<le> 24)
      \<and> check_variables (dd_variables d) [] [] = None \<and> check_widgets refs (dd_widgets d) [] [] = None
      \<and> int (length (canonical d)) \<le> max_definition_bytes"
    by (simp add: validate_dashboard_def not_le not_less Suc_le_eq split: option.split)
  then show ?thesis unfolding check_variables_None check_widgets_exact [OF assms] by auto
qed

section \<open>Overflow\<close>

lemma check_refs_no_panic: "check_refs refs rs seen \<noteq> Some ''panic''"
  by (induction refs rs seen rule: check_refs.induct) auto

lemma check_widget_no_panic: "check_widget refs w ids g \<noteq> Inl ''panic''"
  using check_refs_no_panic [of refs "dw_query_refs w" "[]"] mark_cells_no_panic [OF in_bounds_area, of "dw_layout w" g]
  by (auto simp: check_widget_def place_layout_def split: option.split)

text \<open>No dashboard makes the validation index an array out of range, whatever its coordinates.\<close>

lemma dashboard_never_panics: "validate_dashboard canonical refs d \<noteq> Some ''panic''"
proof -
  have "check_widgets refs ws ids g \<noteq> Some ''panic''" for ws ids g
    by (induction refs ws ids g rule: check_widgets.induct) (use check_widget_no_panic in \<open>auto split: sum.split\<close>)
  moreover have "check_variables vs ids kinds \<noteq> Some ''panic''" for vs ids kinds
    by (induction vs ids kinds rule: check_variables.induct) auto
  ultimately show ?thesis by (auto simp: validate_dashboard_def split: option.split)
qed

text \<open>
  The bounds are tested on sums that wrap around. A widget at column \<open>2 ^ 63 - 1\<close> with width 1 ends at a negative
  column, which passes for a column of the grid, and the loop that marks its cells has no turn.
\<close>

definition demo_widget :: "string \<Rightarrow> i64 \<Rightarrow> dash_widget" where
  "demo_widget i x = \<lparr>dw_id = i, dw_title = ''Pods'', dw_type = ''Stat'', dw_binding = ''pods.running'', dw_query_refs = [],
     dw_max_rows = None, dw_layout = \<lparr>ly_x = x, ly_y = 0, ly_w = 1, ly_h = 2\<rparr>\<rparr>"

definition demo_dashboard :: "i64 \<Rightarrow> dash_definition" where
  "demo_dashboard x = \<lparr>dd_schema_version = 1, dd_id = ''main'', dd_title = ''Main'', dd_description = '''', dd_variables = [],
     dd_widgets = [demo_widget ''a'' 0, demo_widget ''b'' x]\<rparr>"

lemma overflowing_layout_accepted:
  "validate_dashboard (\<lambda>_. '''') [] (demo_dashboard 0x7FFFFFFFFFFFFFFF) = None"
  "sint (ly_x (dw_layout (demo_widget ''b'' 0x7FFFFFFFFFFFFFFF))) = 2 ^ 63 - 1"
  by code_simp+

theorem dashboard_valid_exact_witness:
  "validate_dashboard (\<lambda>_. '''') [] (demo_dashboard 1) = None
    \<and> rect (dw_layout (demo_widget ''a'' 0)) \<inter> rect (dw_layout (demo_widget ''b'' 1)) = {}"
proof -
  have "\<forall>w \<in> set (dd_widgets (demo_dashboard 1)). no_overflow (dw_layout w)"
    by (simp add: demo_dashboard_def demo_widget_def no_overflow_def)
  moreover have v: "validate_dashboard (\<lambda>_. '''') [] (demo_dashboard 1) = None" by code_simp
  ultimately show ?thesis
    using dashboard_valid_exact [of "demo_dashboard 1" "\<lambda>_. ''''" "[]"] by (simp add: demo_dashboard_def)
qed

end
