(* ===== verification/Row_Tokens.thy ===== *)
theory Row_Tokens
  imports Post_Tree List_Index
begin

text \<open>
  The tokens of a row of the search index (\<open>search.go\<close>, \<open>searchindex.go\<close> of \<open>internal/resourcecatalog\<close>): its name, its
  namespace, the kind and its labels, brought to a canonical form; the postings they become; and the decision of the
  scan that works without the index. Names and labels are ASCII, which Kubernetes validates, so \<open>strings.ToLower\<close> is read for
  ASCII.
\<close>

section \<open>Normal form\<close>

definition token_prefix_bytes :: nat where "token_prefix_bytes = 64"
definition max_label_keys :: nat where "max_label_keys = 16"
definition max_ns_label_tokens :: int where "max_ns_label_tokens = 2 ^ 18"

definition field_name :: nat where "field_name = 0"
definition field_namespace :: nat where "field_namespace = 1"
definition field_kind :: nat where "field_kind = 2"
definition field_label :: nat where "field_label = 3"

definition lower_byte :: "char \<Rightarrow> char" where
  "lower_byte c = (if (65 :: nat) \<le> of_char c \<and> of_char c \<le> (90 :: nat) then char_of (of_char c + 32 :: nat) else c)"

definition normalize_token :: "string \<Rightarrow> string" where
  "normalize_token s = take token_prefix_bytes (map lower_byte s)"

definition token_bytes_of :: "string \<Rightarrow> int" where
  "token_bytes_of s = int (min (length s) token_prefix_bytes)"

definition safe_token_char :: "char \<Rightarrow> bool" where
  "safe_token_char c \<longleftrightarrow> (CHR ''a'' \<le> c \<and> c \<le> CHR ''z'') \<or> (CHR ''0'' \<le> c \<and> c \<le> CHR ''9'')
     \<or> c = CHR ''-'' \<or> c = CHR ''.'' \<or> c = CHR ''_'' \<or> c = CHR ''/'' \<or> c = CHR '':''"

definition safe_token :: "string \<Rightarrow> bool" where
  "safe_token s \<longleftrightarrow> s \<noteq> '''' \<and> list_all safe_token_char s"

section \<open>Labels\<close>

text \<open>The labels of an object are a Go map; the code sorts its keys.\<close>

definition sorted_label_keys :: "(string, string) gomap \<Rightarrow> string list \<times> bool" where
  "sorted_label_keys ls =
     (let ks = sort (keys_of ls) in if length ks > max_label_keys then (take max_label_keys ks, True) else (ks, False))"

definition label_value :: "(string, string) gomap \<Rightarrow> string \<Rightarrow> string" where
  "label_value ls k = (case map_of ls k of None \<Rightarrow> '''' | Some v \<Rightarrow> v)"

definition label_token_count :: "(string, string) gomap \<Rightarrow> string list \<Rightarrow> int" where
  "label_token_count ls ks = sum_list (map (\<lambda>k. if label_value ls k \<noteq> '''' then 2 else 1) ks)"

definition row_labels :: "index_row \<Rightarrow> (string, string) gomap" where
  "row_labels row = (case ir_obj row of None \<Rightarrow> [] | Some m \<Rightarrow> om_labels m)"

definition row_uid :: "index_row \<Rightarrow> string" where
  "row_uid row = (case ir_obj row of None \<Rightarrow> '''' | Some m \<Rightarrow> om_uid m)"

definition label_tokens_of :: "index_row \<Rightarrow> string list \<times> bool" where
  "label_tokens_of row =
     (let ls = row_labels row in
      if ls = [] then ([], False)
      else case sorted_label_keys ls of (ks, truncated) \<Rightarrow>
        (concat (map (\<lambda>k. normalize_token k # (if label_value ls k \<noteq> '''' then [normalize_token (label_value ls k)] else [])) ks),
         truncated))"

record row_input =
  ri_in_name :: string
  ri_in_uid :: string
  ri_in_labels :: "string list"
  ri_in_truncated :: bool

definition row_flag_keys_truncated :: "8 word" where "row_flag_keys_truncated = 1"

definition record_of_input :: "row_input \<Rightarrow> row_record" where
  "record_of_input i =
     \<lparr>rr_name = ri_in_name i, rr_uid = ri_in_uid i, rr_name_tok = normalize_token (ri_in_name i),
      rr_label_blob = encode_label_blob (ri_in_labels i), rr_weight = of_nat (length (ri_in_labels i)),
      rr_flags = (if ri_in_truncated i then row_flag_keys_truncated else 0)\<rparr>"

section \<open>Canonical tokens\<close>

record token_slot =
  ts_tok :: string
  ts_field :: nat
  ts_idx :: "16 word"

text \<open>Of neighbours with the same token the first stays.\<close>

fun first_of_token :: "token_slot list \<Rightarrow> token_slot list" where
  "first_of_token (a # b # ts) = (if ts_tok b = ts_tok a then first_of_token (a # ts) else a # first_of_token (b # ts))"
| "first_of_token ts = ts"

definition canonical_tokens :: "row_record \<Rightarrow> string \<Rightarrow> string \<Rightarrow> bool \<Rightarrow> bool \<Rightarrow> token_slot list" where
  "canonical_tokens rec ns_tok kind_tok namespaced with_labels =
     first_of_token (sort_key (\<lambda>t. (ts_tok t, ts_field t))
       ((if safe_token (rr_name_tok rec) then [\<lparr>ts_tok = rr_name_tok rec, ts_field = field_name, ts_idx = 0\<rparr>] else [])
        @ (if namespaced \<and> safe_token ns_tok then [\<lparr>ts_tok = ns_tok, ts_field = field_namespace, ts_idx = 1\<rparr>] else [])
        @ (if safe_token kind_tok then [\<lparr>ts_tok = kind_tok, ts_field = field_kind, ts_idx = 2\<rparr>] else [])
        @ (if with_labels
           then List.map_filter (\<lambda>(i, tok). if safe_token tok then Some \<lparr>ts_tok = tok, ts_field = field_label, ts_idx = of_nat (3 + i)\<rparr> else None)
                  (List.enumerate 0 (each_label_token (Some rec)))
           else [])))"

fun lcp_length :: "string \<Rightarrow> string \<Rightarrow> nat" where
  "lcp_length (a # as) (b # bs) = (if a = b then Suc (lcp_length as bs) else 0)"
| "lcp_length _ _ = 0"

definition common_prefix_len :: "string \<Rightarrow> string \<Rightarrow> 8 word" where
  "common_prefix_len a b = of_nat (min (lcp_length a b) token_prefix_bytes)"

text \<open>The postings of a list of tokens; the length shared with the token before goes into the entry.\<close>

fun token_ops :: "row_record \<Rightarrow> u32 \<Rightarrow> bool \<Rightarrow> string option \<Rightarrow> token_slot list \<Rightarrow> post_op list" where
  "token_ops rec slot remove prior [] = []"
| "token_ops rec slot remove prior (t # ts) =
     \<lparr>op_key = Post_key (ts_tok t) (rr_name rec) (rr_uid rec),
      op_entry = \<lparr>pe_slot = slot, pe_tok_idx = ts_idx t, pe_field = of_nat (ts_field t),
        pe_prev_lcp = (case prior of None \<Rightarrow> 0 | Some p \<Rightarrow> common_prefix_len p (ts_tok t))\<rparr>,
      op_remove = remove\<rparr> # token_ops rec slot remove (Some (ts_tok t)) ts"

definition build_row_ops :: "row_record \<Rightarrow> u32 \<Rightarrow> string \<Rightarrow> string \<Rightarrow> bool \<Rightarrow> bool \<Rightarrow> bool \<Rightarrow> post_op list" where
  "build_row_ops rec slot ns_tok kind_tok namespaced with_labels remove =
     token_ops rec slot remove None (canonical_tokens rec ns_tok kind_tok namespaced with_labels)"

definition replace_row_ops :: "row_record \<Rightarrow> u32 \<Rightarrow> string \<Rightarrow> string \<Rightarrow> bool \<Rightarrow> bool \<Rightarrow> bool \<Rightarrow> post_op list" where
  "replace_row_ops rec slot ns_tok kind_tok namespaced before after =
     build_row_ops rec slot ns_tok kind_tok namespaced before True @ build_row_ops rec slot ns_tok kind_tok namespaced after False"

section \<open>The scan without the index\<close>

record scope_match =
  sm_token :: string
  sm_field :: nat
  sm_matched :: bool

definition consider_token :: "string \<Rightarrow> string \<Rightarrow> nat \<Rightarrow> scope_match \<Rightarrow> scope_match" where
  "consider_token query raw f m =
     (let tok = normalize_token raw in
      if \<not> safe_token tok \<or> \<not> has_prefix tok query then m
      else \<lparr>sm_token = (if \<not> sm_matched m \<or> tok < sm_token m then tok else sm_token m),
            sm_field = (if \<not> sm_matched m \<or> f < sm_field m then f else sm_field m), sm_matched = True\<rparr>)"

text \<open>The answer, whether the labels were cut, and the label tokens counted so far in the namespace.\<close>

definition scoped_match :: "index_row \<Rightarrow> string \<Rightarrow> string \<Rightarrow> int \<Rightarrow> scope_match \<times> bool \<times> int" where
  "scoped_match row kind_tok query ns_tokens =
     (let m0 = consider_token query (ir_name row) field_name \<lparr>sm_token = '''', sm_field = 0, sm_matched = False\<rparr>;
          m1 = (if ir_namespace row \<noteq> '''' then consider_token query (ir_namespace row) field_namespace m0 else m0);
          m2 = (if kind_tok \<noteq> '''' then consider_token query kind_tok field_kind m1 else m1);
          ls = row_labels row in
      if ls = [] then (m2, False, ns_tokens)
      else case sorted_label_keys ls of (ks, truncated) \<Rightarrow>
        let n = label_token_count ls ks in
        if ns_tokens + n > max_ns_label_tokens then (m2, True, ns_tokens)
        else (fold (\<lambda>k m. let m' = consider_token query k field_label m in
                if label_value ls k \<noteq> '''' then consider_token query (label_value ls k) field_label m' else m') ks m2,
              truncated, ns_tokens + n))"

end
