(* ===== verification/Fold_State.thy ===== *)
theory Fold_State
  imports Row_Props Row_Tokens
begin

text \<open>
  Which rows of a namespace have their labels indexed (\<open>foldState\<close>, \<open>recomputeFold\<close>, \<open>foldDiffRange\<close> of
  \<open>internal/resourcecatalog/searchindex.go\<close>): the bootstrap takes the rows in the order of their names and indexes the labels of
  each row that still fits the namespace's limit; the maintenance finds the same set again with the summaries of the row
  directory, as a prefix and at most 31 rows behind it.
\<close>

section \<open>The bootstrap\<close>

text \<open>The names that are included, and the tokens used, from a number of tokens used before.\<close>

fun bootstrap_fold :: "int \<Rightarrow> int \<Rightarrow> row_item list \<Rightarrow> string list \<times> int" where
  "bootstrap_fold cap acc [] = ([], acc)"
| "bootstrap_fold cap acc (x # xs) =
     (if acc + uint (ri_weight x) > cap then bootstrap_fold cap acc xs
      else (let r = bootstrap_fold cap (acc + uint (ri_weight x)) xs in (ri_name x # fst r, snd r)))"

section \<open>The maintenance\<close>

record row_ref =
  rf_name :: string
  rf_slot :: u32

record fold_state =
  fd_acc :: int
  fd_bound_name :: string
  fd_bound_valid :: bool
  fd_suffix :: "row_ref list"
  fd_visited :: int
  fd_compares :: int

definition max_suffix_rows :: nat where "max_suffix_rows = 31"

function fold_suffix :: "row_node \<Rightarrow> string \<Rightarrow> int \<Rightarrow> fold_state \<Rightarrow> fold_state" where
  "fold_suffix dir after budget out =
     (if length (fd_suffix out) < max_suffix_rows \<and> 0 < budget then
        (let cap8 = (if budget > 255 then 255 else budget);
             hit = row_next_fitting dir after (of_int cap8) True;
             out1 = out\<lparr>fd_visited := fd_visited out + rh_visited hit, fd_compares := fd_compares out + rh_compares hit\<rparr> in
         if \<not> rh_found hit then out1
         else fold_suffix dir (rh_name hit) (budget - uint (rh_weight hit))
                (out1\<lparr>fd_suffix := fd_suffix out1 @ [\<lparr>rf_name = rh_name hit, rf_slot = rh_slot hit\<rparr>],
                      fd_acc := fd_acc out1 + uint (rh_weight hit)\<rparr>))
      else out)"
  by pat_completeness auto
termination
  by (relation "measure (\<lambda>(_, _, _, out). max_suffix_rows - length (fd_suffix out))") auto

declare fold_suffix.simps [simp del]

definition recompute_fold :: "row_node \<Rightarrow> fold_state" where
  "recompute_fold dir =
     (let b = row_prefix_boundary dir max_ns_label_tokens;
          out = \<lparr>fd_acc = rb_acc b, fd_bound_name = '''', fd_bound_valid = False, fd_suffix = [],
                 fd_visited = rb_visited b, fd_compares = rb_compares b\<rparr> in
      if \<not> rb_overflow b then out
      else fold_suffix dir (rb_name b) (max_ns_label_tokens - rb_acc b)
             (out\<lparr>fd_bound_name := rb_name b, fd_bound_valid := True\<rparr>))"

definition fold_includes :: "fold_state \<Rightarrow> string \<Rightarrow> bool" where
  "fold_includes f name \<longleftrightarrow>
     \<not> fd_bound_valid f \<or> name < fd_bound_name f \<or> list_ex (\<lambda>r. rf_name r = name) (fd_suffix f)"

section \<open>Rows behind the boundary\<close>

text \<open>The rows of positive weight that the bootstrap includes with a budget left.\<close>

fun fitting :: "int \<Rightarrow> row_item list \<Rightarrow> row_item list" where
  "fitting budget [] = []"
| "fitting budget (x # xs) =
     (if 0 < ri_weight x \<and> uint (ri_weight x) \<le> budget then x # fitting (budget - uint (ri_weight x)) xs else fitting budget xs)"

lemma bootstrap_fitting:
  assumes "0 \<le> cap - acc" "distinct (map ri_name xs)"
  shows "snd (bootstrap_fold cap acc xs) = acc + wsum (fitting (cap - acc) xs)
    \<and> (\<forall>x \<in> set xs. 0 < ri_weight x \<longrightarrow> (ri_name x \<in> set (fst (bootstrap_fold cap acc xs)) \<longleftrightarrow> x \<in> set (fitting (cap - acc) xs)))
    \<and> set (fst (bootstrap_fold cap acc xs)) \<subseteq> ri_name ` set xs \<and> set (fitting (cap - acc) xs) \<subseteq> set xs"
  using assms
proof (induction xs arbitrary: acc)
  case (Cons x xs)
  let ?w = "uint (ri_weight x)"
  have w: "0 \<le> ?w" "0 < ri_weight x \<longleftrightarrow> 0 < ?w" by (simp_all add: word_less_def)
  have d: "distinct (map ri_name xs)" "\<forall>y \<in> set xs. ri_name y \<noteq> ri_name x"
    using Cons.prems(2) by (simp, metis Cons.prems(2) distinct.simps(2) image_eqI list.simps(9) set_map)
  show ?case
  proof (cases "acc + ?w \<le> cap")
    case True
    then have "0 \<le> cap - (acc + ?w)" by simp
    note IH = Cons.IH [OF this d(1)]
    show ?thesis
    proof (cases "0 < ?w")
      case pos: True
      with True w IH [unfolded diff_diff_eq [symmetric]] d(2) show ?thesis by (auto simp: Let_def)
    next
      case False
      with w(1) have "?w = 0" by linarith
      with True IH w d(2) show ?thesis by (auto simp: Let_def)
    qed
  next
    case False
    note IH = Cons.IH [OF Cons.prems(1) d(1)]
    have "set (fst (bootstrap_fold cap acc xs)) \<subseteq> ri_name ` set xs" "set (fitting (cap - acc) xs) \<subseteq> set xs" using IH by blast+
    with d(2) have out: "ri_name x \<notin> set (fst (bootstrap_fold cap acc xs))" "x \<notin> set (fitting (cap - acc) xs)" by fastforce+
    from False IH d(2) out show ?thesis by auto
  qed
qed simp

lemma fitting_find:
  "case List.find (\<lambda>x. 0 < ri_weight x \<and> uint (ri_weight x) \<le> budget) xs of
     None \<Rightarrow> fitting budget xs = []
   | Some y \<Rightarrow> \<exists>as bs. xs = as @ y # bs \<and> fitting budget xs = y # fitting (budget - uint (ri_weight y)) bs
       \<and> 0 < ri_weight y \<and> uint (ri_weight y) \<le> budget"
proof (induction xs)
  case (Cons x xs)
  show ?case
  proof (cases "0 < ri_weight x \<and> uint (ri_weight x) \<le> budget")
    case True
    then have "List.find (\<lambda>x. 0 < ri_weight x \<and> uint (ri_weight x) \<le> budget) (x # xs) = Some x"
      "x # xs = [] @ x # xs \<and> fitting budget (x # xs) = x # fitting (budget - uint (ri_weight x)) xs" by simp_all
    with True show ?thesis by (simp only: option.case) blast
  next
    case False
    then have f: "fitting budget (x # xs) = fitting budget xs"
      "List.find (\<lambda>x. 0 < ri_weight x \<and> uint (ri_weight x) \<le> budget) (x # xs)
        = List.find (\<lambda>x. 0 < ri_weight x \<and> uint (ri_weight x) \<le> budget) xs" by auto
    show ?thesis
    proof (cases "List.find (\<lambda>x. 0 < ri_weight x \<and> uint (ri_weight x) \<le> budget) xs")
      case None
      with Cons.IH show ?thesis unfolding f by simp
    next
      case (Some y)
      with Cons.IH obtain as bs where "xs = as @ y # bs" "fitting budget xs = y # fitting (budget - uint (ri_weight y)) bs"
        "0 < ri_weight y" "uint (ri_weight y) \<le> budget" by auto
      with False have "x # xs = (x # as) @ y # bs \<and> fitting budget (x # xs) = y # fitting (budget - uint (ri_weight y)) bs
        \<and> 0 < ri_weight y \<and> uint (ri_weight y) \<le> budget" unfolding f by simp
      then show ?thesis unfolding f(2) Some option.case by blast
    qed
  qed
qed simp

lemma find_skip: "\<forall>x \<in> set as. \<not> P x \<Longrightarrow> List.find P (as @ bs) = List.find P bs"
  by (induction as) auto

lemma cap8_le:
  assumes "0 < budget"
  shows "(w :: 8 word) \<le> of_int (if budget > 255 then 255 else budget) \<longleftrightarrow> uint w \<le> budget"
proof -
  have "uint w \<le> 255" using uint_bounded [of w] by simp
  then show ?thesis using assms by (auto simp: word_le_def uint_word_of_int)
qed

text \<open>The loop finds the rows of \<open>fitting\<close> one after the other, when the limit of 31 does not stop it first.\<close>

lemma fold_suffix_ok:
  assumes t: "tree_ok row_ops dir"
    and rows: "flat row_ops dir = pre @ post" "\<forall>x \<in> set pre. ri_name x \<le> after" "\<forall>x \<in> set post. after < ri_name x"
    and room: "int (length (fd_suffix out)) + budget \<le> int max_suffix_rows"
  shows "fd_suffix (fold_suffix dir after budget out) = fd_suffix out @ map (\<lambda>x. \<lparr>rf_name = ri_name x, rf_slot = ri_slot x\<rparr>) (fitting budget post)
    \<and> fd_acc (fold_suffix dir after budget out) = fd_acc out + wsum (fitting budget post)
    \<and> fd_bound_name (fold_suffix dir after budget out) = fd_bound_name out
    \<and> fd_bound_valid (fold_suffix dir after budget out) = fd_bound_valid out"
  using t rows room
proof (induction dir after budget out arbitrary: pre post rule: fold_suffix.induct)
  case (1 dir after budget out)
  have none: "fitting b xs = []" if "b \<le> 0" for b xs
  proof (induction xs)
    case (Cons x xs)
    have "\<not> (0 < ri_weight x \<and> uint (ri_weight x) \<le> b)" using that by (auto simp: word_less_def)
    with Cons show ?case by simp
  qed simp
  show ?case
  proof (cases "0 < budget")
    case False
    then have "fold_suffix dir after budget out = out" by (subst fold_suffix.simps) simp
    with False none [of budget] show ?thesis by simp
  next
    case budget: True
    then have go: "length (fd_suffix out) < max_suffix_rows \<and> 0 < budget" using 1(6) by linarith
    let ?c = "if budget > 255 then 255 else budget"
    define hit where "hit = row_next_fitting dir after (of_int ?c) True"
    have "List.find (\<lambda>x. (True \<longrightarrow> after < ri_name x) \<and> 0 < ri_weight x \<and> ri_weight x \<le> of_int ?c) (flat row_ops dir)
        = List.find (\<lambda>x. 0 < ri_weight x \<and> uint (ri_weight x) \<le> budget) post"
    proof -
      have "List.find (\<lambda>x. (True \<longrightarrow> after < ri_name x) \<and> 0 < ri_weight x \<and> ri_weight x \<le> of_int ?c) (flat row_ops dir)
        = List.find (\<lambda>x. (True \<longrightarrow> after < ri_name x) \<and> 0 < ri_weight x \<and> ri_weight x \<le> of_int ?c) post"
        unfolding 1(3) by (rule find_skip) (use 1(4) in auto)
      also have "\<dots> = List.find (\<lambda>x. 0 < ri_weight x \<and> uint (ri_weight x) \<le> budget) post"
        by (rule find_cong) (use 1(5) in \<open>simp_all only: cap8_le [OF budget] simp_thms\<close>)
      finally show ?thesis .
    qed
    moreover have "shows_hit hit (List.find (\<lambda>x. (True \<longrightarrow> after < ri_name x) \<and> 0 < ri_weight x \<and> ri_weight x \<le> of_int ?c) (flat row_ops dir))"
      unfolding hit_def by (rule next_fitting_is_first [OF 1(2)])
    ultimately have hit: "shows_hit hit (List.find (\<lambda>x. 0 < ri_weight x \<and> uint (ri_weight x) \<le> budget) post)"
      by (rule subst)
    let ?out1 = "out\<lparr>fd_visited := fd_visited out + rh_visited hit, fd_compares := fd_compares out + rh_compares hit\<rparr>"
    let ?out2 = "?out1\<lparr>fd_suffix := fd_suffix ?out1 @ [\<lparr>rf_name = rh_name hit, rf_slot = rh_slot hit\<rparr>],
      fd_acc := fd_acc ?out1 + uint (rh_weight hit)\<rparr>"
    have step: "fold_suffix dir after budget out = (if \<not> rh_found hit then ?out1
        else fold_suffix dir (rh_name hit) (budget - uint (rh_weight hit)) ?out2)"
      using go by (subst fold_suffix.simps) (simp add: hit_def Let_def)
    show ?thesis
    proof (cases "List.find (\<lambda>x. 0 < ri_weight x \<and> uint (ri_weight x) \<le> budget) post")
      case None
      with hit fitting_find [of budget post] show ?thesis unfolding step by (simp add: shows_hit_def)
    next
      case (Some y)
      then have h: "rh_found hit" "rh_name hit = ri_name y" "rh_slot hit = ri_slot y" "rh_weight hit = ri_weight y"
        using hit by (simp_all add: shows_hit_def)
      obtain as bs where y: "post = as @ y # bs" "fitting budget post = y # fitting (budget - uint (ri_weight y)) bs"
        "0 < ri_weight y" "uint (ri_weight y) \<le> budget"
        using fitting_find [of budget post] Some by auto
      from 1(2) have "ordered row_ops None None dir" by (simp add: tree_ok_def)
      then have srt: "sorted_keys ri_name (flat row_ops dir)" using ordered_flat by (fastforce simp: row_items)
      have rec: "fold_suffix dir after budget out = fold_suffix dir (rh_name hit) (budget - uint (rh_weight hit)) ?out2"
        using step h(1) by simp
      have "1 \<le> uint (ri_weight y)" using y(3) by (simp add: word_less_def)
      then have "int (length (fd_suffix ?out2)) + (budget - uint (rh_weight hit)) \<le> int max_suffix_rows"
        using 1(6) h(4) by simp
      note IH = 1(1) [OF go refl hit_def refl _ 1(2) _ _ _ this, of "pre @ as @ [y]" bs]
      have split: "flat row_ops dir = (pre @ as @ [y]) @ bs" using 1(3) y(1) by simp
      have "\<forall>x \<in> set (pre @ as @ [y]). ri_name x \<le> rh_name hit" "\<forall>x \<in> set bs. rh_name hit < ri_name x"
        using srt unfolding split h(2) by (auto simp: sorted_wrt_append less_imp_le)
      note IH = IH [OF _ split this, unfolded not_not, OF h(1)]
      have "fitting (budget - uint (rh_weight hit)) bs = fitting (budget - uint (ri_weight y)) bs" by (simp only: h(4))
      with IH show ?thesis unfolding rec y(2) by (simp add: h)
    qed
  qed
qed

lemma fitting_length: "0 \<le> budget \<Longrightarrow> int (length (fitting budget xs)) \<le> budget"
proof (induction budget xs rule: fitting.induct)
  case (2 budget x xs)
  have "0 < ri_weight x \<Longrightarrow> 1 \<le> uint (ri_weight x)" by (simp add: word_less_def)
  with 2 show ?case by (cases "0 < ri_weight x \<and> uint (ri_weight x) \<le> budget") auto
qed simp

section \<open>The maintenance finds what the bootstrap includes\<close>

lemma first_over_split:
  "case first_over cap acc xs of
     (a, None) \<Rightarrow> bootstrap_fold cap acc xs = (map ri_name xs, a) \<or> cap < acc
   | (a, Some y) \<Rightarrow> \<exists>as bs. xs = as @ y # bs \<and> a = acc + wsum as \<and> 0 < ri_weight y \<and> cap < a + uint (ri_weight y)
       \<and> (acc \<le> cap \<longrightarrow> a \<le> cap \<and> bootstrap_fold cap acc xs
            = (map ri_name as @ fst (bootstrap_fold cap a bs), snd (bootstrap_fold cap a bs)))"
proof (induction xs arbitrary: acc)
  case (Cons x xs)
  let ?w = "uint (ri_weight x)"
  have w0: "ri_weight x = 0 \<Longrightarrow> ?w = 0" by simp
  show ?case
  proof (cases "0 < ri_weight x \<and> cap < acc + ?w")
    case True
    then have e: "first_over cap acc (x # xs) = (acc, Some x)" by simp
    have w: "x # xs = [] @ x # xs \<and> acc = acc + wsum [] \<and> 0 < ri_weight x \<and> cap < acc + ?w
        \<and> (acc \<le> cap \<longrightarrow> acc \<le> cap \<and> bootstrap_fold cap acc (x # xs)
          = (map ri_name [] @ fst (bootstrap_fold cap acc xs), snd (bootstrap_fold cap acc xs)))" using True by simp
    show ?thesis unfolding e prod.case option.case by (rule exI [of _ "[]"], rule exI [of _ xs], rule w)
  next
    case False
    then have f: "first_over cap acc (x # xs) = first_over cap (acc + ?w) xs" by auto
    have le: "acc + ?w \<le> cap" if "acc \<le> cap" using that False w0 by (auto simp: word_pos_iff)
    show ?thesis
    proof (cases "first_over cap (acc + ?w) xs")
      case (Pair a r)
      show ?thesis
      proof (cases r)
        case None
        with Cons.IH [of "acc + ?w"] Pair have "bootstrap_fold cap (acc + ?w) xs = (map ri_name xs, a) \<or> cap < acc + ?w" by simp
        with le have "bootstrap_fold cap acc (x # xs) = (map ri_name (x # xs), a) \<or> cap < acc" by (auto simp: Let_def)
        with f Pair None show ?thesis by simp
      next
        case (Some y)
        with Cons.IH [of "acc + ?w"] Pair obtain as bs where y: "xs = as @ y # bs" "a = acc + ?w + wsum as" "0 < ri_weight y"
          "cap < a + uint (ri_weight y)" "acc + ?w \<le> cap \<longrightarrow> a \<le> cap \<and> bootstrap_fold cap (acc + ?w) xs
            = (map ri_name as @ fst (bootstrap_fold cap a bs), snd (bootstrap_fold cap a bs))" by auto
        have "x # xs = (x # as) @ y # bs \<and> a = acc + wsum (x # as) \<and> 0 < ri_weight y \<and> cap < a + uint (ri_weight y)
          \<and> (acc \<le> cap \<longrightarrow> a \<le> cap \<and> bootstrap_fold cap acc (x # xs)
            = (map ri_name (x # as) @ fst (bootstrap_fold cap a bs), snd (bootstrap_fold cap a bs)))"
          using y le by (auto simp: Let_def)
        then show ?thesis unfolding f Pair Some prod.case option.case by blast
      qed
    qed
  qed
qed simp

text \<open>A limit on the tokens of one row: \<open>max_label_keys\<close> keys and values.\<close>

definition light_rows :: "row_item list \<Rightarrow> bool" where
  "light_rows xs \<longleftrightarrow> list_all (\<lambda>x. uint (ri_weight x) \<le> 2 * int max_label_keys) xs"

lemma recompute_cases:
  assumes t: "tree_ok row_ops dir" and light: "light_rows (flat row_ops dir)"
  shows "(\<not> fd_bound_valid (recompute_fold dir) \<and> fd_suffix (recompute_fold dir) = []
      \<and> bootstrap_fold max_ns_label_tokens 0 (flat row_ops dir) = (map ri_name (flat row_ops dir), fd_acc (recompute_fold dir)))
    \<or> (\<exists>as y bs. flat row_ops dir = as @ y # bs \<and> fd_bound_valid (recompute_fold dir) \<and> fd_bound_name (recompute_fold dir) = ri_name y
        \<and> 0 < ri_weight y \<and> wsum as \<le> max_ns_label_tokens \<and> max_ns_label_tokens < wsum as + uint (ri_weight y)
        \<and> fd_suffix (recompute_fold dir) = map (\<lambda>x. \<lparr>rf_name = ri_name x, rf_slot = ri_slot x\<rparr>) (fitting (max_ns_label_tokens - wsum as) bs)
        \<and> fd_acc (recompute_fold dir) = wsum as + wsum (fitting (max_ns_label_tokens - wsum as) bs)
        \<and> bootstrap_fold max_ns_label_tokens 0 (flat row_ops dir)
          = (map ri_name as @ fst (bootstrap_fold max_ns_label_tokens (wsum as) bs), snd (bootstrap_fold max_ns_label_tokens (wsum as) bs)))"
proof -
  let ?cap = max_ns_label_tokens and ?b = "row_prefix_boundary dir max_ns_label_tokens" and ?xs = "flat row_ops dir"
  have cap: "0 \<le> ?cap" by (simp add: max_ns_label_tokens_def)
  note bnd = prefix_boundary_is_first_over [OF t cap]
  obtain a r where f: "first_over ?cap 0 ?xs = (a, r)" by (rule prod.exhaust)
  from t have "ordered row_ops None None dir" by (simp add: tree_ok_def)
  then have srt: "sorted_keys ri_name ?xs" using ordered_flat by (fastforce simp: row_items)
  show ?thesis
  proof (cases r)
    case None
    with first_over_split [of ?cap 0 ?xs] f cap have "bootstrap_fold ?cap 0 ?xs = (map ri_name ?xs, a)" by simp
    moreover have "\<not> rb_overflow ?b" "rb_acc ?b = a" using bnd f None by (simp_all add: shows_boundary_def)
    ultimately show ?thesis by (simp add: recompute_fold_def Let_def)
  next
    case (Some y)
    have b: "rb_overflow ?b" "rb_acc ?b = a" "rb_name ?b = ri_name y" using bnd f Some by (simp_all add: shows_boundary_def)
    from first_over_split [of ?cap 0 ?xs] f Some cap obtain as bs where y: "?xs = as @ y # bs" "a = wsum as" "0 < ri_weight y"
      "?cap < a + uint (ri_weight y)" "a \<le> ?cap"
      "bootstrap_fold ?cap 0 ?xs = (map ri_name as @ fst (bootstrap_fold ?cap a bs), snd (bootstrap_fold ?cap a bs))" by auto
    define out where "out = \<lparr>fd_acc = rb_acc ?b, fd_bound_name = rb_name ?b, fd_bound_valid = True, fd_suffix = [],
                 fd_visited = rb_visited ?b, fd_compares = rb_compares ?b\<rparr>"
    have rec: "recompute_fold dir = fold_suffix dir (ri_name y) (?cap - a) out"
      using b by (simp add: recompute_fold_def Let_def out_def)
    have "uint (ri_weight y) \<le> 32" using light unfolding light_rows_def y(1) by (simp add: max_label_keys_def)
    then have room: "int (length (fd_suffix out)) + (?cap - a) \<le> int max_suffix_rows"
      using y(4) by (simp add: out_def max_suffix_rows_def)
    have split: "?xs = (as @ [y]) @ bs" using y(1) by simp
    have "\<forall>x \<in> set (as @ [y]). ri_name x \<le> ri_name y" "\<forall>x \<in> set bs. ri_name y < ri_name x"
      using srt unfolding split by (auto simp: sorted_wrt_append less_imp_le)
    from fold_suffix_ok [OF t split this room, folded rec] y b show ?thesis
      by (intro disjI2 exI [of _ as] exI [of _ y] exI [of _ bs]) (simp add: out_def)
  qed
qed

text \<open>
  (C18) The maintenance of the label limit finds what the bootstrap would: for a row directory whose rows have at most the 32 label tokens
  that 16 keys and values make, the fold recomputed from the summaries of the directory has the token count of the fold over all
  rows in the order of their names, includes a row with labels exactly when that fold includes it, needs at most 31 rows
  behind the boundary, and has a boundary exactly when a row is left out.
\<close>

theorem fold_is_bootstrap:
  assumes "tree_ok row_ops dir" "light_rows (flat row_ops dir)"
    and "bootstrap_fold max_ns_label_tokens 0 (flat row_ops dir) = (names, acc)"
  shows "fd_acc (recompute_fold dir) = acc
    \<and> (\<forall>x \<in> set (flat row_ops dir). 0 < ri_weight x \<longrightarrow> (fold_includes (recompute_fold dir) (ri_name x) \<longleftrightarrow> ri_name x \<in> set names))
    \<and> length (fd_suffix (recompute_fold dir)) \<le> 31
    \<and> (fd_bound_valid (recompute_fold dir) \<longleftrightarrow> (\<exists>x \<in> set (flat row_ops dir). ri_name x \<notin> set names))"
  using recompute_cases [OF assms(1,2)]
proof (elim disjE exE conjE)
  assume "\<not> fd_bound_valid (recompute_fold dir)" "fd_suffix (recompute_fold dir) = []"
    "bootstrap_fold max_ns_label_tokens 0 (flat row_ops dir) = (map ri_name (flat row_ops dir), fd_acc (recompute_fold dir))"
  with assms(3) show ?thesis by (auto simp: fold_includes_def)
next
  let ?cap = max_ns_label_tokens and ?f = "recompute_fold dir"
  fix as y bs
  assume xs: "flat row_ops dir = as @ y # bs" and f: "fd_bound_valid ?f" "fd_bound_name ?f = ri_name y"
    and y: "0 < ri_weight y" "wsum as \<le> ?cap" "?cap < wsum as + uint (ri_weight y)"
    and suffix: "fd_suffix ?f = map (\<lambda>x. \<lparr>rf_name = ri_name x, rf_slot = ri_slot x\<rparr>) (fitting (?cap - wsum as) bs)"
      "fd_acc ?f = wsum as + wsum (fitting (?cap - wsum as) bs)"
    and boot: "bootstrap_fold ?cap 0 (flat row_ops dir)
      = (map ri_name as @ fst (bootstrap_fold ?cap (wsum as) bs), snd (bootstrap_fold ?cap (wsum as) bs))"
  from assms(1) have "ordered row_ops None None dir" by (simp add: tree_ok_def)
  then have "sorted_keys ri_name (as @ y # bs)" using ordered_flat unfolding xs [symmetric] by (fastforce simp: row_items)
  then have srt: "\<forall>x \<in> set as. ri_name x < ri_name y" "\<forall>x \<in> set bs. ri_name y < ri_name x"
    "sorted_keys ri_name bs" by (auto simp: sorted_wrt_append)
  then have d: "distinct (map ri_name bs)" by (simp add: strict_sorted_iff)
  have names: "names = map ri_name as @ fst (bootstrap_fold ?cap (wsum as) bs)" "acc = snd (bootstrap_fold ?cap (wsum as) bs)"
    using boot assms(3) by simp_all
  have "0 \<le> ?cap - wsum as" using y(2) by simp
  note fit = bootstrap_fitting [OF this d]
  let ?fit = "fitting (?cap - wsum as) bs"
  have sub: "set ?fit \<subseteq> set bs" "set (fst (bootstrap_fold ?cap (wsum as) bs)) \<subseteq> ri_name ` set bs" using fit by blast+
  have inc: "fold_includes ?f name \<longleftrightarrow> name < ri_name y \<or> name \<in> ri_name ` set ?fit" for name
    using f suffix(1) by (auto simp: fold_includes_def list_ex_iff image_iff)
  have out: "ri_name y \<notin> set names" "\<not> fold_includes ?f (ri_name y)" using sub srt(1,2) by (fastforce simp: inc names(1))+
  have later: "ri_name x \<in> ri_name ` set ?fit \<longleftrightarrow> x \<in> set ?fit" if "x \<in> set bs" for x
    using that d sub(1) by (auto simp: distinct_map inj_on_def)
  have "fold_includes ?f (ri_name x) \<longleftrightarrow> ri_name x \<in> set names" if x: "x \<in> set (flat row_ops dir)" "0 < ri_weight x" for x
  proof -
    consider "x \<in> set as" | "x = y" | "x \<in> set bs" using x(1) unfolding xs by auto
    then show ?thesis
    proof cases
      case 1
      then show ?thesis using srt(1) by (simp add: inc names(1))
    next
      case 2
      then show ?thesis using out by simp
    next
      case 3
      with srt(2) have "\<not> ri_name x < ri_name y" "ri_name x \<notin> ri_name ` set as" using srt(1) by fastforce+
      then show ?thesis using later [OF 3] fit 3 x(2) by (simp add: inc names(1))
    qed
  qed
  moreover have "length (fd_suffix ?f) \<le> 31"
  proof -
    have "uint (ri_weight y) \<le> 32" using assms(2) unfolding light_rows_def xs by (simp add: max_label_keys_def)
    then show ?thesis using fitting_length [of "?cap - wsum as" bs] y(2,3) suffix(1) by simp
  qed
  moreover have "fd_acc ?f = acc" using suffix(2) names(2) fit by simp
  moreover have "fd_bound_valid ?f \<longleftrightarrow> (\<exists>x \<in> set (flat row_ops dir). ri_name x \<notin> set names)" using f(1) out(1) unfolding xs by auto
  ultimately show ?thesis by blast
qed

theorem fold_is_bootstrap_witness:
  "fd_acc (recompute_fold demo_rows_tree) = 10 \<and> fold_includes (recompute_fold demo_rows_tree) ''web''
    \<and> \<not> fd_bound_valid (recompute_fold demo_rows_tree)"
proof -
  let ?xs = "flat row_ops demo_rows_tree"
  have light: "light_rows ?xs" and boot: "bootstrap_fold max_ns_label_tokens 0 ?xs = ([''api'', ''db'', ''web''], 10)"
    and web: "\<exists>x \<in> set ?xs. ri_name x = ''web'' \<and> 0 < ri_weight x"
    and all: "\<forall>x \<in> set ?xs. ri_name x \<in> set [''api'', ''db'', ''web'']" by code_simp+
  note fold = fold_is_bootstrap [OF demo_rows_tree_ok light boot]
  from web obtain x where x: "x \<in> set ?xs" "ri_name x = ''web''" "0 < ri_weight x" by blast
  have "fold_includes (recompute_fold demo_rows_tree) (ri_name x) \<longleftrightarrow> ri_name x \<in> set [''api'', ''db'', ''web'']"
    using fold x(1,3) by blast
  then have "fold_includes (recompute_fold demo_rows_tree) ''web''" unfolding x(2) by simp
  with fold all show ?thesis by blast
qed

end
