(* ===== verification/Radix_Sort.thy ===== *)
theory Radix_Sort
  imports Prelude_Go "HOL-Library.Multiset"
begin

unbundle bit_operations_syntax

text \<open>
  The radix sort of the search index (\<open>tokenHead\<close>, \<open>sortTokenKeys\<close> of \<open>internal/resourcecatalog/search.go\<close>,
  \<open>radixSortPostOps\<close> of \<open>searchindex.go\<close>): eight counting passes over the first eight bytes of a string, then a stable
  sort of each run with equal heads. The array of heads that the code permutes beside the array of items is a function of
  the item here. The sorts that keep the last of equal neighbours follow.
\<close>

section \<open>Heads\<close>

definition byte_at :: "string \<Rightarrow> nat \<Rightarrow> u64" where
  "byte_at s i = (if i < length s then of_nat (of_char (s ! i)) else 0)"

definition token_head :: "string \<Rightarrow> u64" where
  "token_head s = fold (\<lambda>i h. push_bit 8 h OR byte_at s i) [0..<8] 0"

section \<open>A counting pass\<close>

definition byte_of_head :: "nat \<Rightarrow> u64 \<Rightarrow> nat" where
  "byte_of_head shift h = unat (drop_bit shift h AND 255)"

definition bump :: "nat \<Rightarrow> nat list \<Rightarrow> nat list" where
  "bump b cs = cs[b := cs ! b + 1]"

definition byte_counts :: "('a \<Rightarrow> nat) \<Rightarrow> 'a list \<Rightarrow> nat list" where
  "byte_counts b xs = fold (\<lambda>x. bump (b x)) xs (replicate 256 0)"

fun prefix_sums :: "nat \<Rightarrow> nat list \<Rightarrow> nat list" where
  "prefix_sums n [] = []"
| "prefix_sums n (c # cs) = n # prefix_sums (n + c) cs"

definition scatter :: "('a \<Rightarrow> nat) \<Rightarrow> 'a list \<Rightarrow> 'a list \<Rightarrow> nat list \<Rightarrow> 'a list \<times> nat list" where
  "scatter b xs scratch starts = fold (\<lambda>x (out, cs). (out[cs ! b x := x], bump (b x) cs)) xs (scratch, starts)"

text \<open>One value of \<open>shift\<close>: the items and the scratch array, which swap.\<close>

definition radix_pass :: "('a \<Rightarrow> u64) \<Rightarrow> nat \<Rightarrow> 'a list \<times> 'a list \<Rightarrow> 'a list \<times> 'a list" where
  "radix_pass head shift st =
     (let xs = fst st; b = (\<lambda>x. byte_of_head shift (head x)); cs = byte_counts b xs in
      if cs ! b (hd xs) = length xs then st
      else (fst (scatter b xs (snd st) (prefix_sums 0 cs)), xs))"

function head_runs :: "('a \<Rightarrow> u64) \<Rightarrow> ('a list \<Rightarrow> 'a list) \<Rightarrow> 'a list \<Rightarrow> 'a list" where
  "head_runs head sort_run [] = []"
| "head_runs head sort_run (x # xs) =
     (let run = takeWhile (\<lambda>y. head y = head x) xs in
      (if run = [] then [x] else sort_run (x # run)) @ head_runs head sort_run (dropWhile (\<lambda>y. head y = head x) xs))"
  by pat_completeness auto
termination by (relation "measure (\<lambda>(_, _, xs). length xs)") (auto simp: le_imp_less_Suc length_dropWhile_le)

definition radix_sort :: "('a \<Rightarrow> u64) \<Rightarrow> ('a list \<Rightarrow> 'a list) \<Rightarrow> 'a list \<Rightarrow> 'a list \<Rightarrow> 'a list" where
  "radix_sort head sort_run scratch xs =
     head_runs head sort_run (fst (fold (radix_pass head) [0, 8, 16, 24, 32, 40, 48, 56] (xs, scratch)))"

text \<open>The in-place loop after a sort: a neighbour with the same key overwrites the item before it.\<close>

fun last_wins :: "('a \<Rightarrow> 'k) \<Rightarrow> 'a list \<Rightarrow> 'a list \<Rightarrow> 'a list" where
  "last_wins k out [] = out"
| "last_wins k out (x # xs) =
     (if out \<noteq> [] \<and> k (last out) = k x then last_wins k (butlast out @ [x]) xs else last_wins k (out @ [x]) xs)"

section \<open>A pass is a stable distribution\<close>

definition buckets :: "('a \<Rightarrow> nat) \<Rightarrow> 'a list \<Rightarrow> 'a list list" where
  "buckets b xs = map (\<lambda>i. filter (\<lambda>x. b x = i) xs) [0..<256]"

lemma length_bump [simp]: "length (bump b cs) = length cs"
  by (simp add: bump_def)

lemma nth_bump: "b < length cs \<Longrightarrow> bump b cs ! i = (if i = b then cs ! b + 1 else cs ! i)"
  by (simp add: bump_def nth_list_update)

lemma fold_bump:
  assumes "\<forall>x \<in> set xs. b x < length cs"
  shows "length (fold (\<lambda>x. bump (b x)) xs cs) = length cs
    \<and> fold (\<lambda>x. bump (b x)) xs cs ! i = cs ! i + length (filter (\<lambda>x. b x = i) xs)"
  using assms by (induction xs arbitrary: cs) (simp_all add: nth_bump)

lemma byte_counts_ok:
  assumes "\<forall>x \<in> set xs. b x < 256"
  shows "byte_counts b xs = map length (buckets b xs)"
proof (rule nth_equalityI)
  show "length (byte_counts b xs) = length (map length (buckets b xs))"
    using fold_bump [of xs b "replicate 256 0"] assms by (simp add: byte_counts_def buckets_def)
  show "byte_counts b xs ! i = map length (buckets b xs) ! i" if "i < length (byte_counts b xs)" for i
    using fold_bump [of xs b "replicate 256 0" i] assms that by (simp add: byte_counts_def buckets_def)
qed

lemma length_prefix_sums [simp]: "length (prefix_sums n cs) = length cs"
  by (induction cs arbitrary: n) simp_all

lemma nth_prefix_sums: "i < length cs \<Longrightarrow> prefix_sums n cs ! i = n + sum_list (take i cs)"
  by (induction cs arbitrary: n i) (auto simp: nth_Cons split: nat.split)

lemma sum_take_mono: "i \<le> j \<Longrightarrow> sum_list (take i cs) \<le> sum_list (take j (cs :: nat list))"
proof -
  assume "i \<le> j"
  then have "take j cs = take i cs @ take (j - i) (drop i cs)" by (metis le_add_diff_inverse take_add)
  then show ?thesis by simp
qed

lemma places_apart:
  assumes "i < length cs" "j < length cs" "m < cs ! i" "n < (cs :: nat list) ! j"
    "sum_list (take i cs) + m = sum_list (take j cs) + n"
  shows "i = j \<and> m = n"
proof -
  have lt: "sum_list (take i cs) + m < sum_list (take j cs) + n"
    if "i < j" "i < length cs" "m < cs ! i" for i j m n :: nat
  proof -
    have "sum_list (take (Suc i) cs) = sum_list (take i cs) + cs ! i" using that(2) by (simp add: take_Suc_conv_app_nth)
    with sum_take_mono [of "Suc i" j cs] that(1,3) show ?thesis by linarith
  qed
  from lt [of i j m n] lt [of j i n m] assms show ?thesis by (cases i j rule: linorder_cases) auto
qed

lemma place_ex: "p < length (concat xss) \<Longrightarrow> \<exists>i n. i < length xss \<and> n < length (xss ! i)
    \<and> p = sum_list (take i (map length xss)) + n \<and> concat xss ! p = xss ! i ! n"
proof (induction xss arbitrary: p)
  case (Cons ys yss)
  show ?case
  proof (cases "p < length ys")
    case True
    then show ?thesis by (intro exI [of _ 0] exI [of _ p]) (simp add: nth_append)
  next
    case False
    with Cons.prems have "p - length ys < length (concat yss)" by simp
    from Cons.IH [OF this] obtain i n where "i < length yss" "n < length (yss ! i)"
      "p - length ys = sum_list (take i (map length yss)) + n" "concat yss ! (p - length ys) = yss ! i ! n" by blast
    with False show ?thesis by (intro exI [of _ "Suc i"] exI [of _ n]) (auto simp: nth_append)
  qed
qed simp

lemma buckets_total: "\<forall>x \<in> set ws. b x < 256 \<Longrightarrow> length (concat (buckets b ws)) = length ws"
proof (induction ws)
  case (Cons w ws)
  let ?f = "\<lambda>i ys. filter (\<lambda>x. b x = i) ys"
  have "(\<Sum>i \<leftarrow> [0..<256]. length (?f i (w # ws))) = (\<Sum>i \<leftarrow> [0..<256]. length (?f i ws)) + (\<Sum>i \<leftarrow> [0..<256]. if b w = i then 1 else 0)"
    by (simp add: sum_list_addf [symmetric])  (intro arg_cong [of _ _ sum_list] map_cong refl, simp)
  moreover have "(\<Sum>i \<leftarrow> [0..<256]. if b w = i then 1 else (0::nat)) = 1"
    using Cons.prems by (simp add: sum_list_distinct_conv_sum_set)
  ultimately show ?case using Cons by (simp add: length_concat o_def buckets_def)
qed (simp add: length_concat o_def buckets_def)

text \<open>After a part of the items, each bucket has its first items in their places.\<close>

lemma scatter_part:
  assumes b: "\<forall>x \<in> set zs. b x < 256" and zs: "zs = ys @ xs" and len: "length out = length zs"
    and cs: "length cs = 256" "\<forall>i < 256. cs ! i = sum_list (take i (map length (buckets b zs))) + length (filter (\<lambda>x. b x = i) ys)"
    and placed: "\<forall>i < 256. \<forall>n < length (filter (\<lambda>x. b x = i) ys).
      out ! (sum_list (take i (map length (buckets b zs))) + n) = filter (\<lambda>x. b x = i) ys ! n"
  shows "length (fst (scatter b xs out cs)) = length zs \<and> (\<forall>i < 256. \<forall>n < length (filter (\<lambda>x. b x = i) zs).
      fst (scatter b xs out cs) ! (sum_list (take i (map length (buckets b zs))) + n) = filter (\<lambda>x. b x = i) zs ! n)"
  using zs len cs placed
proof (induction xs arbitrary: ys out cs)
  case Nil
  then show ?case by (simp add: scatter_def)
next
  case (Cons x xs)
  let ?S = "\<lambda>i. sum_list (take i (map length (buckets b zs)))" and ?f = "\<lambda>i ys. filter (\<lambda>x. b x = i) ys"
  have bx: "b x < 256" using b Cons.prems(1) by simp
  have sl: "scatter b (x # xs) out cs = scatter b xs (out[cs ! b x := x]) (bump (b x) cs)" by (simp add: scatter_def)
  have lenb: "map length (buckets b zs) ! i = length (?f i zs)" if "i < 256" for i using that by (simp add: buckets_def)
  have part: "length (?f i ys) < length (?f i zs)" if "i = b x" for i using that by (simp add: Cons.prems(1))
  have le: "length (?f i ys) \<le> length (?f i zs)" for i by (simp add: Cons.prems(1))
  have total: "length (concat (buckets b zs)) = length zs" using b by (rule buckets_total)
  have inb: "?S (b x) + length (?f (b x) ys) < length zs"
  proof -
    have "sum_list (take (Suc (b x)) (map length (buckets b zs))) \<le> sum_list (take 256 (map length (buckets b zs)))"
      by (rule sum_take_mono) (use bx in simp)
    moreover have "take 256 (map length (buckets b zs)) = map length (buckets b zs)" by (simp add: buckets_def)
    moreover have "sum_list (take (Suc (b x)) (map length (buckets b zs))) = ?S (b x) + length (?f (b x) zs)"
      using bx lenb [OF bx] by (subst take_Suc_conv_app_nth) (simp_all add: buckets_def)
    ultimately show ?thesis using part [OF refl] total by (simp add: length_concat)
  qed
  show ?case unfolding sl
  proof (rule Cons.IH [of "ys @ [x]"])
    show "zs = (ys @ [x]) @ xs" "length (out[cs ! b x := x]) = length zs" "length (bump (b x) cs) = 256"
      using Cons.prems by simp_all
    show "\<forall>i < 256. bump (b x) cs ! i = ?S i + length (?f i (ys @ [x]))"
      using Cons.prems(3,4) bx by (simp add: nth_bump)
    show "\<forall>i < 256. \<forall>n < length (?f i (ys @ [x])). out[cs ! b x := x] ! (?S i + n) = ?f i (ys @ [x]) ! n"
    proof (intro allI impI)
      fix i n :: nat assume i: "i < 256" and n: "n < length (?f i (ys @ [x]))"
      have at: "cs ! b x = ?S (b x) + length (?f (b x) ys)" using Cons.prems(4) bx by simp
      have "n < length (?f i zs)" using n by (simp add: Cons.prems(1) split: if_splits)
      then have room: "n < map length (buckets b zs) ! i" by (simp only: lenb [OF i])
      show "out[cs ! b x := x] ! (?S i + n) = ?f i (ys @ [x]) ! n"
      proof (cases "i = b x \<and> n = length (?f (b x) ys)")
        case True
        with at inb Cons.prems(2) show ?thesis by simp
      next
        case False
        have "?S i + n \<noteq> cs ! b x"
        proof
          assume "?S i + n = cs ! b x"
          with at have "?S i + n = ?S (b x) + length (?f (b x) ys)" by simp
          from places_apart [OF _ _ room _ this] have "i = b x \<and> n = length (?f (b x) ys)"
            using i bx part [OF refl] lenb [OF bx] by (simp add: buckets_def)
          with False show False by simp
        qed
        moreover from False n have "n < length (?f i ys)" by (auto split: if_splits)
        ultimately show ?thesis using Cons.prems(5) i by (simp add: nth_append)
      qed
    qed
  qed
qed

lemma scatter_buckets:
  assumes "\<forall>x \<in> set xs. b x < 256" "length scratch = length xs"
  shows "fst (scatter b xs scratch (prefix_sums 0 (byte_counts b xs))) = concat (buckets b xs)"
proof -
  let ?cs = "prefix_sums 0 (byte_counts b xs)"
  have len: "length ?cs = 256" using byte_counts_ok [OF assms(1)] by (simp add: buckets_def)
  have "?cs ! i = sum_list (take i (map length (buckets b xs)))" if "i < 256" for i
    using that byte_counts_ok [OF assms(1)] by (simp add: nth_prefix_sums buckets_def)
  then have start: "\<forall>i < 256. ?cs ! i = sum_list (take i (map length (buckets b xs))) + length (filter (\<lambda>x. b x = i) [])"
    by simp
  note part = scatter_part [OF assms(1) _ assms(2) len start, simplified]
  show ?thesis
  proof (rule nth_equalityI)
    show "length (fst (scatter b xs scratch ?cs)) = length (concat (buckets b xs))"
      using part buckets_total [OF assms(1)] by simp
    fix p assume "p < length (fst (scatter b xs scratch ?cs))"
    then have "p < length (concat (buckets b xs))" using part buckets_total [OF assms(1)] by simp
    from place_ex [OF this] obtain i n where "i < 256" "n < length (filter (\<lambda>x. b x = i) xs)"
      "p = sum_list (take i (map length (buckets b xs))) + n" "concat (buckets b xs) ! p = filter (\<lambda>x. b x = i) xs ! n"
      by (auto simp: buckets_def)
    with part show "fst (scatter b xs scratch ?cs) ! p = concat (buckets b xs) ! p" by simp
  qed
qed

section \<open>Passes add up to a stable sort\<close>

lemma filter_concat_buckets:
  "filter P (concat (buckets b xs)) = concat (map (\<lambda>i. filter (\<lambda>x. P x \<and> b x = i) xs) [0..<256])"
  by (simp add: buckets_def filter_concat o_def conj_commute)

lemma concat_one:
  "\<lbrakk>j < m; \<forall>i < m. i \<noteq> j \<longrightarrow> f i = []\<rbrakk> \<Longrightarrow> concat (map f [0..<m]) = f j"
proof (induction m)
  case (Suc m)
  show ?case
  proof (cases "j = m")
    case True
    then have "concat (map f [0..<m]) = []" using Suc.prems(2) by auto
    with True show ?thesis by simp
  qed (use Suc in auto)
qed simp

lemma buckets_sort:
  assumes "\<forall>x \<in> set xs. b x < 256"
  shows "concat (buckets b xs) = sort_key b xs"
proof (rule properties_for_sort_key [symmetric])
  show "filter (\<lambda>y. b x = b y) (concat (buckets b xs)) = filter (\<lambda>y. b x = b y) xs" if "x \<in> set (concat (buckets b xs))" for x
  proof -
    have "b x < 256" using that by (auto simp: buckets_def)
    then show ?thesis unfolding filter_concat_buckets
      by (subst concat_one [of "b x"]) (auto simp: conj_commute intro: filter_cong)
  qed
  show "mset (concat (buckets b xs)) = mset xs"
  proof (rule multiset_eqI)
    fix y
    have "filter (\<lambda>x. y = x) (concat (buckets b xs)) = filter (\<lambda>x. y = x) xs"
    proof (cases "y \<in> set xs")
      case True
      with assms have "b y < 256" by blast
      then show ?thesis unfolding filter_concat_buckets by (subst concat_one [of "b y"]) (auto intro: filter_cong)
    next
      case False
      then have "filter (\<lambda>x. y = x) xs = []" "filter (\<lambda>x. y = x) (concat (buckets b xs)) = []"
        by (auto simp: filter_empty_conv buckets_def)
      then show ?thesis by simp
    qed
    then show "count (mset (concat (buckets b xs))) y = count (mset xs) y"
      by (simp only: count_mset count_list_eq_length_filter)
  qed
  have "sorted (map b (concat (map (\<lambda>i. filter (\<lambda>x. b x = i) xs) [0..<m])))" for m
  proof (induction m)
    case (Suc m)
    have "map b (filter (\<lambda>x. b x = m) xs) = replicate (length (filter (\<lambda>x. b x = m) xs)) m"
      by (induction xs) auto
    with Suc show ?case by (auto simp: sorted_append)
  qed simp
  then show "sorted (map b (concat (buckets b xs)))" by (simp add: buckets_def)
qed

lemma sort_key_order:
  fixes f :: "'a \<Rightarrow> 'b :: linorder" and g :: "'a \<Rightarrow> 'c :: linorder"
  assumes "\<And>x y. \<lbrakk>x \<in> set xs; y \<in> set xs\<rbrakk> \<Longrightarrow> f x \<le> f y \<longleftrightarrow> g x \<le> g y"
  shows "sort_key f xs = sort_key g xs"
proof (rule properties_for_sort_key)
  have eq: "f x = f y \<longleftrightarrow> g x = g y" if "x \<in> set xs" "y \<in> set xs" for x y
    using assms [OF that] assms [OF that(2,1)] by (auto simp: order_eq_iff)
  show "filter (\<lambda>x. f k = f x) (sort_key g xs) = filter (\<lambda>x. f k = f x) xs" if "k \<in> set (sort_key g xs)" for k
  proof -
    have "filter (\<lambda>x. f k = f x) zs = filter (\<lambda>x. g x = g k) zs" if "set zs \<subseteq> set xs" for zs
      by (rule filter_cong) (use that \<open>k \<in> set (sort_key g xs)\<close> eq in auto)
    then show ?thesis using sort_key_stable [of g "g k" xs] by simp
  qed
  have "sorted_wrt (\<lambda>x y. g x \<le> g y) (sort_key g xs)" using sorted_sort_key [of g xs] by (simp add: sorted_map)
  then have "sorted_wrt (\<lambda>x y. f x \<le> f y) (sort_key g xs)"
    by (rule sorted_wrt_mono_rel [rotated]) (simp add: assms)
  then show "sorted (map f (sort_key g xs))" by (simp add: sorted_map)
qed simp

lemma sorted_pairs:
  "\<lbrakk>sorted (map f zs); \<And>v. sorted (map g (filter (\<lambda>x. f x = v) zs))\<rbrakk> \<Longrightarrow> sorted (map (\<lambda>x. (f x, g x)) zs)"
proof (induction zs)
  case (Cons z zs)
  have "sorted (map g (filter (\<lambda>x. f x = v) zs))" for v
    using Cons.prems(2) [of v] by (simp split: if_splits)
  with Cons have IH: "sorted (map (\<lambda>x. (f x, g x)) zs)" by simp
  have "f z \<le> f w \<and> (f z = f w \<longrightarrow> g z \<le> g w)" if "w \<in> set zs" for w
    using Cons.prems(1) Cons.prems(2) [of "f z"] that by auto
  then have "\<forall>p \<in> set (map (\<lambda>x. (f x, g x)) zs). (f z, g z) \<le> p" by (auto simp: less_eq_prod_def less_le)
  with IH show ?case by simp
qed simp

lemma sort_sort: "sort_key f (sort_key g xs) = sort_key (\<lambda>x. (f x, g x)) xs"
proof (rule properties_for_sort_key [symmetric])
  show "filter (\<lambda>x. (f k, g k) = (f x, g x)) (sort_key f (sort_key g xs)) = filter (\<lambda>x. (f k, g k) = (f x, g x)) xs" for k
  proof -
    have split: "filter (\<lambda>x. (f k, g k) = (f x, g x)) zs = filter (\<lambda>x. g x = g k) (filter (\<lambda>x. f x = f k) zs)" for zs
      by (auto intro: filter_cong)
    have swap: "filter (\<lambda>x. g x = g k) (filter (\<lambda>x. f x = f k) zs) = filter (\<lambda>x. f x = f k) (filter (\<lambda>x. g x = g k) zs)" for zs
      by (auto intro: filter_cong)
    show ?thesis unfolding split sort_key_stable [of f] unfolding swap sort_key_stable [of g] ..
  qed
  have "sorted (map g (filter (\<lambda>x. f x = v) (sort_key f (sort_key g xs))))" for v
    unfolding sort_key_stable by (simp add: sorted_filter)
  then show "sorted (map (\<lambda>x. (f x, g x)) (sort_key f (sort_key g xs)))" by (intro sorted_pairs) simp
qed simp

lemma sort_const: "sort_key (\<lambda>_. 0 :: nat) xs = xs"
  by (rule properties_for_sort_key) (auto simp: map_replicate_const)

lemma byte_of_head_nat: "byte_of_head (8 * k) h = unat h div 2 ^ (8 * k) mod 256"
proof -
  have "byte_of_head (8 * k) h = unat (take_bit 8 (drop_bit (8 * k) h))"
    by (simp add: byte_of_head_def take_bit_eq_mask mask_eq_exp_minus_1 and.commute)
  then show ?thesis unfolding unsigned_take_bit_eq unat_drop_bit_eq by (simp add: take_bit_eq_mod drop_bit_eq_div)
qed

lemma byte_less: "byte_of_head shift h < 256"
proof -
  have "h' AND 255 \<le> (255 :: u64)" for h' by (rule word_and_le1)
  then have "unat (drop_bit shift h AND 255) \<le> unat (255 :: u64)" by (simp add: word_le_nat_alt)
  then show ?thesis by (simp add: byte_of_head_def)
qed

lemma radix_pass_sorts:
  assumes "length scratch = length xs"
  shows "fst (radix_pass head shift (xs, scratch)) = sort_key (\<lambda>x. byte_of_head shift (head x)) xs
    \<and> length (snd (radix_pass head shift (xs, scratch))) = length xs"
proof -
  let ?b = "\<lambda>x. byte_of_head shift (head x)"
  have b: "\<forall>x \<in> set xs. ?b x < 256" by (simp add: byte_less)
  show ?thesis
  proof (cases "byte_counts ?b xs ! ?b (hd xs) = length xs")
    case True
    then have "length (filter (\<lambda>x. ?b x = ?b (hd xs)) xs) = length xs"
      using byte_counts_ok [OF b] by (simp add: buckets_def byte_less)
    then have "\<forall>x \<in> set xs. ?b x = ?b (hd xs)"
      using length_filter_less [of _ xs "\<lambda>x. ?b x = ?b (hd xs)"] by (metis less_irrefl)
    then have "sort_key ?b xs = sort_key (\<lambda>_. 0 :: nat) xs" by (intro sort_key_order) simp
    then have "sort_key ?b xs = xs" by (simp only: sort_const)
    moreover note True
    ultimately show ?thesis using True assms by (simp add: radix_pass_def Let_def)
  next
    case False
    then show ?thesis
      using scatter_buckets [OF b assms] buckets_sort [OF b] by (simp add: radix_pass_def Let_def)
  qed
qed

lemma low_bytes_split: "unat h mod 2 ^ (8 * Suc k) = byte_of_head (8 * k) h * 2 ^ (8 * k) + unat h mod 2 ^ (8 * k)"
proof -
  have "2 ^ (8 * Suc k) = (2 :: nat) ^ (8 * k) * 256" by (simp add: power_add)
  then have "unat h mod 2 ^ (8 * Suc k) = 2 ^ (8 * k) * (unat h div 2 ^ (8 * k) mod 256) + unat h mod 2 ^ (8 * k)"
    by (simp only: mod_mult2_eq)
  then show ?thesis by (simp only: byte_of_head_nat mult.commute [of "2 ^ (8 * k)"])
qed

lemma passes_sort:
  assumes "length scratch = length xs"
  shows "fst (fold (radix_pass head) (map ((*) 8) [0..<k]) (xs, scratch)) = sort_key (\<lambda>x. unat (head x) mod 2 ^ (8 * k)) xs
    \<and> length (snd (fold (radix_pass head) (map ((*) 8) [0..<k]) (xs, scratch))) = length xs"
proof (induction k)
  case 0
  show ?case using assms by (simp add: sort_const)
next
  case (Suc k)
  let ?st = "fold (radix_pass head) (map ((*) 8) [0..<k]) (xs, scratch)"
  have "length (snd ?st) = length (fst ?st)" using Suc by simp
  from radix_pass_sorts [OF this, of head "8 * k", unfolded prod.collapse]
  have "fst (radix_pass head (8 * k) ?st) = sort_key (\<lambda>x. byte_of_head (8 * k) (head x)) (fst ?st)"
    "length (snd (radix_pass head (8 * k) ?st)) = length xs" using Suc by simp_all
  moreover have "sort_key (\<lambda>x. byte_of_head (8 * k) (head x)) (fst ?st) = sort_key (\<lambda>x. unat (head x) mod 2 ^ (8 * Suc k)) xs"
  proof -
    have le: "(p, q) \<le> (p', q') \<longleftrightarrow> p * m + q \<le> p' * m + q'" if "q < m" "q' < m" for p q p' q' m :: nat
    proof -
      have "p * m + q < p' * m + q'" if "p < p'" "q < m" for p p' q q' :: nat
      proof -
        have "Suc p * m \<le> p' * m" using that(1) by (intro mult_le_mono1) simp
        with that(2) show ?thesis by simp
      qed
      from this [of p p' q q'] this [of p' p q' q] that show ?thesis
        by (cases p p' rule: linorder_cases) (auto simp: less_eq_prod_def)
    qed
    show ?thesis
      unfolding Suc [THEN conjunct1] sort_sort
      by (rule sort_key_order) (simp only: low_bytes_split le mod_less_divisor zero_less_power zero_less_numeral)
  qed
  ultimately show ?case by simp
qed

lemma sort_append:
  assumes "\<forall>x \<in> set xs. \<forall>y \<in> set ys. f x < (f y :: 'b :: linorder)"
  shows "sort_key f (xs @ ys) = sort_key f xs @ sort_key f ys"
proof (rule properties_for_sort_key)
  fix k
  show "filter (\<lambda>x. f k = f x) (sort_key f xs @ sort_key f ys) = filter (\<lambda>x. f k = f x) (xs @ ys)"
    using sort_key_stable [of f "f k"] by (simp add: eq_commute [of "f k"])
qed (use assms in \<open>auto simp: sorted_append less_imp_le\<close>)

lemma sorted_hd_le: "\<lbrakk>sorted (map f xs); x \<in> set xs\<rbrakk> \<Longrightarrow> f (hd xs) \<le> f x"
  by (cases xs) auto

lemma head_runs_sort:
  fixes key :: "'a \<Rightarrow> 'k :: linorder"
  assumes "sorted (map head xs)"
  shows "head_runs head (sort_key key) xs = sort_key (\<lambda>x. (head x, key x)) xs"
  using assms
proof (induction head "sort_key key" xs rule: head_runs.induct)
  case (2 head x xs)
  let ?run = "takeWhile (\<lambda>y. head y = head x) xs" and ?rest = "dropWhile (\<lambda>y. head y = head x) xs"
  let ?f = "\<lambda>x. (head x, key x)"
  have same: "\<forall>y \<in> set (x # ?run). head y = head x" by (auto dest: set_takeWhileD)
  have "sorted (map head (?run @ ?rest))" using 2(2) by simp
  then have srt: "sorted (map head ?rest)" by (simp only: map_append sorted_append)
  have after: "head x < head y" if "y \<in> set ?rest" for y
  proof -
    have ne: "?rest \<noteq> []"
    proof
      assume "?rest = []"
      with that show False by (simp only: list.set empty_iff)
    qed
    have "head (hd ?rest) \<noteq> head x" using hd_dropWhile [OF ne] .
    moreover have "hd ?rest \<in> set xs" by (rule set_dropWhileD [OF hd_in_set [OF ne]])
    then have "head x \<le> head (hd ?rest)" using 2(2) by simp
    ultimately show ?thesis using sorted_hd_le [OF srt that] by simp
  qed
  have s: "sort_key key (x # ?run) = sort_key ?f (x # ?run)"
  proof (rule sort_key_order)
    fix y z assume "y \<in> set (x # ?run)" "z \<in> set (x # ?run)"
    with same have "head y = head x" "head z = head x" by blast+
    then have "head y = head z" by simp
    then show "key y \<le> key z \<longleftrightarrow> (head y, key y) \<le> (head z, key z)" by (simp add: less_eq_prod_def)
  qed
  have "head_runs head (sort_key key) (x # xs)
      = (if ?run = [] then [x] else sort_key key (x # ?run)) @ head_runs head (sort_key key) ?rest"
    by (simp only: head_runs.simps(2) Let_def)
  also have "(if ?run = [] then [x] else sort_key key (x # ?run)) = sort_key key (x # ?run)"
    by (cases "?run = []") simp_all
  finally have e: "head_runs head (sort_key key) (x # xs) = sort_key key (x # ?run) @ head_runs head (sort_key key) ?rest" .
  have whole: "(x # ?run) @ ?rest = x # xs" by simp
  have "sort_key ?f ((x # ?run) @ ?rest) = sort_key ?f (x # ?run) @ sort_key ?f ?rest"
  proof (rule sort_append, intro ballI)
    fix y z assume "y \<in> set (x # ?run)" "z \<in> set ?rest"
    with same after have "head y = head x" "head x < head z" by blast+
    then show "?f y < ?f z" by (simp add: less_prod_def)
  qed
  then show ?case unfolding whole e 2(1) [OF refl srt] s by (rule sym)
qed simp

lemma radix_sort_exact:
  fixes key :: "'a \<Rightarrow> 'k :: linorder"
  assumes "length scratch = length xs" and "\<And>x y. key x \<le> key y \<Longrightarrow> head x \<le> head y"
  shows "radix_sort head (sort_key key) scratch xs = sort_key key xs"
proof -
  have "map ((*) 8) [0..<8] = [0, 8, 16, 24, 32, 40, 48, 56 :: nat]" by (simp add: upt_rec)
  then have "fst (fold (radix_pass head) [0, 8, 16, 24, 32, 40, 48, 56] (xs, scratch)) = sort_key (\<lambda>x. unat (head x) mod 2 ^ 64) xs"
    using passes_sort [OF assms(1), of head 8] by simp
  also have "\<dots> = sort_key head xs"
  proof (rule sort_key_order)
    have "unat h mod 2 ^ 64 = unat h" for h :: u64 using unsigned_less [where w = h and ?'a = nat] by simp
    then show "unat (head x) mod 2 ^ 64 \<le> unat (head y) mod 2 ^ 64 \<longleftrightarrow> head x \<le> head y" for x y
      by (simp only: word_le_nat_alt)
  qed
  finally have p: "fst (fold (radix_pass head) [0, 8, 16, 24, 32, 40, 48, 56] (xs, scratch)) = sort_key head xs" .
  have "radix_sort head (sort_key key) scratch xs = sort_key (\<lambda>x. (head x, key x)) (sort_key head xs)"
    unfolding radix_sort_def p by (rule head_runs_sort) simp
  also have "\<dots> = sort_key (\<lambda>x. ((head x, key x), head x)) xs" by (rule sort_sort)
  also have "\<dots> = sort_key key xs"
  proof (rule sort_key_order)
    fix x y
    have "key x \<le> key y \<Longrightarrow> head x \<le> head y" "key y \<le> key x \<Longrightarrow> head y \<le> head x" using assms(2) by blast+
    then show "((head x, key x), head x) \<le> ((head y, key y), head y) \<longleftrightarrow> key x \<le> key y"
      by (auto simp: less_eq_prod_def less_le_not_le intro: antisym) (use linear in blast)+
  qed
  finally show ?thesis .
qed

section \<open>Heads are monotone\<close>

fun head_value :: "nat \<Rightarrow> string \<Rightarrow> nat" where
  "head_value 0 s = 0"
| "head_value (Suc n) [] = 0"
| "head_value (Suc n) (c # cs) = of_char c * 256 ^ n + head_value n cs"

lemma head_value_less: "head_value n s < 256 ^ n"
proof (induction n s rule: head_value.induct)
  case (3 n c cs)
  have "(of_char c :: nat) \<le> 255" by (simp add: of_char_of less_Suc_eq_le flip: less_Suc_eq_le)
  then have "of_char c * 256 ^ n \<le> 255 * (256 ^ n :: nat)" by (rule mult_le_mono1)
  then have "of_char c * 256 ^ n + head_value n cs < 255 * (256 ^ n :: nat) + 256 ^ n" using 3 by (rule add_le_less_mono)
  then show ?case by simp
qed simp_all

lemma head_value_mono: "s \<le> t \<Longrightarrow> head_value n s \<le> head_value n t"
proof (induction n s arbitrary: t rule: head_value.induct)
  case (3 n c cs)
  then obtain d ds where t: "t = d # ds" by (cases t) auto
  show ?case
  proof (cases "c = d")
    case False
    with 3(2) t have "c < d" by auto
    then have "Suc (of_char c) \<le> (of_char d :: nat)" by (simp add: less_char_def)
    then have "Suc (of_char c) * 256 ^ n \<le> of_char d * (256 ^ n :: nat)" by (intro mult_le_mono1)
    with head_value_less [of n cs] t show ?thesis by simp
  qed (use 3 t in auto)
qed simp_all

lemma head_value_snoc: "head_value (Suc n) s = head_value n s * 256 + (if n < length s then of_char (s ! n) else 0)"
proof (induction n s rule: head_value.induct)
  case (1 s)
  then show ?case by (cases s) simp_all
qed (simp_all add: algebra_simps)

lemma token_head_part: "n \<le> 8 \<Longrightarrow> unat (fold (\<lambda>i h. push_bit 8 h OR byte_at s i) [0..<n] 0) = head_value n s"
proof (induction n)
  case (Suc n)
  let ?h = "fold (\<lambda>i h. push_bit 8 h OR byte_at s i) [0..<n] 0"
  have IH: "unat ?h = head_value n s" using Suc by simp
  have byte: "(of_char c :: nat) < 256" for c :: char by simp
  then have "(of_char c :: nat) mod 18446744073709551616 = of_char c" for c :: char
    by (intro mod_less) (rule less_trans, assumption, simp)
  then have b: "unat (byte_at s n) = (if n < length s then of_char (s ! n) else 0)"
    by (simp add: byte_at_def unat_of_nat)
  from byte have small: "unat (byte_at s n) < 256" unfolding b by simp
  have "(256 :: nat) ^ n \<le> 256 ^ 7" using Suc.prems by (intro power_increasing) simp_all
  then have room: "unat ?h < 256 ^ 7" using head_value_less [of n s] IH by simp
  have "push_bit 8 ?h AND byte_at s n = 0"
  proof (rule bit_word_eqI)
    fix k assume "k < LENGTH(64)"
    have "unat (take_bit 8 (byte_at s n)) = unat (byte_at s n)"
      using small by (simp add: unsigned_take_bit_eq take_bit_nat_eq_self)
    then have "take_bit 8 (byte_at s n) = byte_at s n" by (simp only: word_unat_eq_iff)
    then have "\<not> bit (byte_at s n) k" if "8 \<le> k"
      using that bit_take_bit_iff [of 8 "byte_at s n" k] by simp
    then show "bit (push_bit 8 ?h AND byte_at s n) k = bit (0 :: u64) k" by (auto simp: bit_simps)
  qed
  then have "push_bit 8 ?h OR byte_at s n = push_bit 8 ?h + byte_at s n" by (rule disjunctive_add_eq_or [symmetric])
  then have "unat (push_bit 8 ?h OR byte_at s n) = unat ?h * 256 + unat (byte_at s n)"
    using room small by (simp add: push_bit_eq_mult unat_word_ariths)
  then show ?case using IH b head_value_snoc [of n s] by simp
qed simp

lemma token_head_mono: "s \<le> t \<Longrightarrow> token_head s \<le> token_head t"
  using token_head_part [of 8 s] token_head_part [of 8 t] head_value_mono [of s t 8]
  by (simp add: token_head_def word_le_nat_alt)

section \<open>The last of equal neighbours\<close>

lemma find_append_cases: "List.find P (xs @ ys) = (case List.find P xs of None \<Rightarrow> List.find P ys | Some x \<Rightarrow> Some x)"
  by (induction xs) auto

lemma find_unique: "\<lbrakk>x \<in> set xs; P x; \<And>y. \<lbrakk>y \<in> set xs; P y\<rbrakk> \<Longrightarrow> y = x\<rbrakk> \<Longrightarrow> List.find P xs = Some x"
proof (induction xs)
  case (Cons a xs)
  show ?case
  proof (cases "P a")
    case True
    then have "a = x" by (intro Cons.prems(3)) simp_all
    with True show ?thesis by simp
  next
    case False
    with Cons.prems(1,2) have "x \<in> set xs" by auto
    then have "List.find P xs = Some x" by (rule Cons.IH [OF _ Cons.prems(2)]) (rule Cons.prems(3), simp_all)
    with False show ?thesis by simp
  qed
qed simp

lemma last_wins_out:
  assumes "sorted (map k (out @ xs))" "sorted_wrt (\<lambda>x y. k x < (k y :: 'k :: linorder)) out"
  shows "sorted_wrt (\<lambda>x y. k x < k y) (last_wins k out xs)
    \<and> (\<forall>v. List.find (\<lambda>x. k x = v) (last_wins k out xs) = List.find (\<lambda>x. k x = v) (rev (out @ xs)))"
  using assms
proof (induction k out xs rule: last_wins.induct)
  case (1 k out)
  have "List.find (\<lambda>x. k x = v) out = List.find (\<lambda>x. k x = v) (rev out)" for v
  proof (cases "\<exists>x \<in> set out. k x = v")
    case True
    then obtain x where x: "x \<in> set out" "k x = v" by blast
    have "distinct (map k out)" using 1(2) by (induction out) auto
    then have uniq: "y = x" if "y \<in> set out" "k y = v" for y using x that by (auto simp: distinct_map inj_on_def)
    have "List.find (\<lambda>x. k x = v) out = Some x"       by (rule find_unique [of x out "\<lambda>x. k x = v"]) (rule x(1), rule x(2), rule uniq)
    moreover have "List.find (\<lambda>x. k x = v) (rev out) = Some x"
      by (rule find_unique [of x "rev out" "\<lambda>x. k x = v"]) (use x in simp, rule x(2), rule uniq, simp_all)
    ultimately show ?thesis by simp
  next
    case False
    then have "List.find (\<lambda>x. k x = v) out = None" "List.find (\<lambda>x. k x = v) (rev out) = None"
      by (auto simp: find_None_iff)
    then show ?thesis by simp
  qed
  with 1 show ?case by simp
next
  case (2 k out x xs)
  show ?case
  proof (cases "out \<noteq> [] \<and> k (last out) = k x")
    case True
    then obtain out' y where out: "out = out' @ [y]" "k y = k x" by (metis append_butlast_last_id)
    have "sorted_wrt (\<lambda>x y. k x < k y) (butlast out @ [x])" using 2(4) out by (simp add: sorted_wrt_append)
    moreover have "sorted (map k ((butlast out @ [x]) @ xs))" using 2(3) out by (simp add: sorted_append)
    ultimately have IH: "sorted_wrt (\<lambda>x y. k x < k y) (last_wins k (butlast out @ [x]) xs)"
      "List.find (\<lambda>x. k x = v) (last_wins k (butlast out @ [x]) xs) = List.find (\<lambda>x. k x = v) (rev ((butlast out @ [x]) @ xs))" for v
      using 2(1) [OF True] by blast+
    have "List.find (\<lambda>x. k x = v) (rev ((butlast out @ [x]) @ xs)) = List.find (\<lambda>x. k x = v) (rev (out @ x # xs))" for v
      using out by (auto simp: find_append_cases split: option.split)
    with IH True show ?thesis by simp
  next
    case False
    have "sorted_wrt (\<lambda>x y. k x < k y) (out @ [x])"
    proof -
      have "k y < k x" if y: "y \<in> set out" for y
      proof -
        have ne: "out \<noteq> []" using y by auto
        then have "k y \<le> k (last out)" using 2(4) y by (cases out rule: rev_cases) (auto simp: sorted_wrt_append less_imp_le)
        moreover have "k (last out) \<le> k x" using 2(3) ne by (auto simp: sorted_append)
        ultimately show ?thesis using False ne by (metis le_less_trans less_le)
      qed
      with 2(4) show ?thesis by (simp add: sorted_wrt_append)
    qed
    moreover have "sorted (map k ((out @ [x]) @ xs))" using 2(3) by simp
    ultimately have IH: "sorted_wrt (\<lambda>x y. k x < k y) (last_wins k (out @ [x]) xs)
      \<and> (\<forall>v. List.find (\<lambda>x. k x = v) (last_wins k (out @ [x]) xs) = List.find (\<lambda>x. k x = v) (rev ((out @ [x]) @ xs)))"
      using 2(2) [OF False] by blast
    have "last_wins k out (x # xs) = last_wins k (out @ [x]) xs" by (simp only: last_wins.simps False if_False)
    with IH show ?thesis by simp
  qed
qed

end
