(* ===== verification/Part_Index.thy ===== *)
theory Part_Index
  imports Fold_State Post_Props Radix_Sort
begin

unbundle bit_operations_syntax

text \<open>
  A partition of the search index, the rows of one resource type in one namespace (\<open>nsPart\<close>, \<open>applyPartOps\<close> of
  \<open>internal/resourcecatalog/searchindex.go\<close>): the trie of rows by slot, the directory of names, the tree of postings, the free
  slots, and the state of the label limit, updated together by a batch of row changes. A partition is immutable; an update
  is a new partition. The counters are integers. What the runtime's allocator decides, the growth of leaf capacities in
  bytes, is an argument of the update.
\<close>

section \<open>Partitions\<close>

definition max_slot :: u32 where "max_slot = 2 ^ 24"

definition ns_reason_label_ns :: "16 word" where "ns_reason_label_ns = 1"
definition ns_reason_stale :: "16 word" where "ns_reason_stale = 2"

record ns_part =
  np_namespace :: string
  np_ns_tok :: string
  np_kind_tok :: string
  np_updated_at :: time
  np_row_root :: trie_branch
  np_post_root :: post_node
  np_row_dir :: row_node
  np_free_top :: "free_node list"
  np_slot_high :: u32
  np_live_rows :: int
  np_ns_label_tok :: int
  np_bound_name :: string
  np_bound_valid :: bool
  np_suffix :: "row_ref list"
  np_trunc_rows :: int
  np_reason_mask :: "16 word"
  np_version :: u64
  np_post_entries :: int
  np_bytes :: int

definition keyer :: "ns_part \<Rightarrow> post_keyer" where
  "keyer p = \<lparr>ky_root = Some (np_row_root p), ky_namespace = np_ns_tok p, ky_kind_tok = np_kind_tok p\<rparr>"

definition included_by_fold :: "ns_part \<Rightarrow> string \<Rightarrow> bool" where
  "included_by_fold p name \<longleftrightarrow>
     \<not> np_bound_valid p \<or> name < np_bound_name p \<or> list_ex (\<lambda>r. rf_name r = name) (np_suffix p)"

text \<open>The constants of the byte estimate.\<close>

definition ns_part_struct_bytes :: int where "ns_part_struct_bytes = 224"
definition trie_spine_bytes :: int where "trie_spine_bytes = 4 * 520"
definition ns_part_fixed_bytes :: int where "ns_part_fixed_bytes = ns_part_struct_bytes + trie_spine_bytes"
definition post_leaf_header_bytes :: int where "post_leaf_header_bytes = 24 * 2"
definition post_node_per_leaf_bytes :: int where "post_node_per_leaf_bytes = (24 * 3 + 32 * (48 + 8)) div 12"
definition row_leaf_header_bytes :: int where "row_leaf_header_bytes = 24 * 3 + 16 * 3"
definition row_node_per_leaf_bytes :: int where "row_node_per_leaf_bytes = (24 * 4 + 32 * (16 + 16 + 8)) div 12"
definition trie_bytes_per_slot :: int where "trie_bytes_per_slot = 256 div 32 + 1"

text \<open>A partition without rows. Its retained bytes are those that \<open>recomputeBytes\<close> counts for the structure, the names, an
  empty tree of postings, an empty directory and the root of a trie.\<close>

definition new_part_bytes :: "string \<Rightarrow> int" where
  "new_part_bytes ns =
     ns_part_struct_bytes + (int (length ns) + 16) + (24 * 3 + 8 + 24) + (24 * 4 + 16 + 8 + row_leaf_header_bytes)
     + trie_node_bytes new_trie_root + free_list_bytes [] + 16 + trie_spine_bytes"

definition new_ns_part :: "string \<Rightarrow> string \<Rightarrow> time \<Rightarrow> ns_part" where
  "new_ns_part ns kind_tok now =
     \<lparr>np_namespace = ns, np_ns_tok = normalize_token ns, np_kind_tok = kind_tok, np_updated_at = now,
      np_row_root = new_trie_root, np_post_root = new_post_tree, np_row_dir = new_row_tree, np_free_top = [], np_slot_high = 0,
      np_live_rows = 0, np_ns_label_tok = 0, np_bound_name = '''', np_bound_valid = False, np_suffix = [], np_trunc_rows = 0,
      np_reason_mask = 0, np_version = 0, np_post_entries = 0, np_bytes = new_part_bytes ns\<rparr>"

section \<open>Batches\<close>

text \<open>A change of a row: its new value, or \<open>None\<close> when it is deleted.\<close>

record part_op =
  po_name :: string
  po_input :: "row_input option"

record part_stats =
  ps_visited_rows :: int
  ps_directory_copies :: int
  ps_postings_changed :: int
  ps_identity_lookups :: int
  ps_fold_compares :: int
  ps_nodes_copied :: int
  ps_transient_bytes :: int
  ps_sep_bytes :: int
  ps_coalesced_keys :: int
  ps_slot_exhausted :: bool
  ps_post_entry_delta :: int
  ps_compaction_required :: bool

definition zero_stats :: part_stats where
  "zero_stats = \<lparr>ps_visited_rows = 0, ps_directory_copies = 0, ps_postings_changed = 0, ps_identity_lookups = 0, ps_fold_compares = 0,
     ps_nodes_copied = 0, ps_transient_bytes = 0, ps_sep_bytes = 0, ps_coalesced_keys = 0, ps_slot_exhausted = False,
     ps_post_entry_delta = 0, ps_compaction_required = False\<rparr>"

record touched =
  td_name :: string
  td_old_slot :: u32
  td_old_rec :: "row_record option"
  td_new_slot :: u32
  td_new_rec :: "row_record option"
  td_had_row :: bool
  td_removed :: bool

text \<open>What the first loop carries: the trie, the free slots and the high-water mark of the new partition, the operations on the
  row directory, the changes, and the counters.\<close>

record part_work =
  pw_row_root :: trie_branch
  pw_slot_high :: u32
  pw_free :: free_stack
  pw_row_ops :: "row_op list"
  pw_changes :: "touched list"
  pw_trunc_delta :: int
  pw_live_delta :: int
  pw_row_bytes :: int
  pw_new_slots :: int
  pw_stats :: part_stats

definition keys_truncated :: "row_record option \<Rightarrow> bool" where
  "keys_truncated r = (case r of None \<Rightarrow> False | Some rec \<Rightarrow> rr_flags rec AND row_flag_keys_truncated \<noteq> 0)"

definition bool_int :: "bool \<Rightarrow> int" where "bool_int b = (if b then 1 else 0)"

text \<open>One change; \<open>Inl\<close> with the counters when no slot is left.\<close>

definition take_part_op :: "row_node \<Rightarrow> part_op \<Rightarrow> part_work \<Rightarrow> part_stats + part_work" where
  "take_part_op dir po w =
     (let st = (pw_stats w)\<lparr>ps_identity_lookups := ps_identity_lookups (pw_stats w) + 1\<rparr>;
          found = row_find dir (po_name po);
          had = (found \<noteq> None);
          old_slot = (case found of None \<Rightarrow> 0 | Some (s, _) \<Rightarrow> s);
          old_rec = (if had then trie_get (Some (pw_row_root w)) old_slot else None);
          st1 = (if had then st\<lparr>ps_visited_rows := ps_visited_rows st + 1\<rparr> else st);
          t = \<lparr>td_name = po_name po, td_old_slot = old_slot, td_old_rec = old_rec, td_new_slot = 0, td_new_rec = None,
               td_had_row = had, td_removed = False\<rparr> in
      case po_input po of
        None \<Rightarrow>
          Inr (w\<lparr>pw_changes := pw_changes w @ [t\<lparr>td_removed := True\<rparr>], pw_stats := st1,
                 pw_live_delta := pw_live_delta w - bool_int had,
                 pw_row_bytes := (if had then pw_row_bytes w - row_retained_bytes old_rec else pw_row_bytes w),
                 pw_trunc_delta := pw_trunc_delta w - bool_int (had \<and> keys_truncated old_rec),
                 pw_row_ops := (if had then pw_row_ops w @ [row_remove (po_name po)] else pw_row_ops w)\<rparr>)
      | Some inp \<Rightarrow>
          (let popped = pop_free (pw_free w);
               fresh = (snd popped = None) in
           if fresh \<and> max_slot \<le> pw_slot_high w
           then Inl (st1\<lparr>ps_slot_exhausted := True, ps_compaction_required := True\<rparr>)
           else
             (let slot = (case snd popped of Some s \<Rightarrow> s | None \<Rightarrow> pw_slot_high w);
                  rec = record_of_input inp;
                  set_row = trie_set (Some (pw_row_root w)) slot (Some rec) in
              Inr \<lparr>pw_row_root = fst set_row,
                   pw_slot_high = (if fresh then pw_slot_high w + 1 else pw_slot_high w),
                   pw_free = fst popped,
                   pw_row_ops = pw_row_ops w @ [row_store (po_name po) slot (ucast (rr_weight rec))],
                   pw_changes = pw_changes w @ [t\<lparr>td_new_slot := slot, td_new_rec := Some rec\<rparr>],
                   pw_trunc_delta = pw_trunc_delta w - bool_int (had \<and> keys_truncated old_rec) + bool_int (keys_truncated (Some rec)),
                   pw_live_delta = pw_live_delta w + bool_int (\<not> had),
                   pw_row_bytes = pw_row_bytes w + row_retained_bytes (Some rec) - (if had then row_retained_bytes old_rec else 0),
                   pw_new_slots = pw_new_slots w + bool_int fresh,
                   pw_stats = st1\<lparr>ps_transient_bytes := ps_transient_bytes st1 + snd set_row\<rparr>\<rparr>)))"

fun take_part_ops :: "row_node \<Rightarrow> part_op list \<Rightarrow> part_work \<Rightarrow> part_stats + part_work" where
  "take_part_ops dir [] w = Inr w"
| "take_part_ops dir (po # pos) w =
     (case take_part_op dir po w of Inl st \<Rightarrow> Inl st | Inr w' \<Rightarrow> take_part_ops dir pos w')"

definition start_work :: "ns_part \<Rightarrow> part_stats \<Rightarrow> part_work" where
  "start_work old st =
     \<lparr>pw_row_root = np_row_root old, pw_slot_high = np_slot_high old, pw_free = new_free_stack (np_free_top old), pw_row_ops = [],
      pw_changes = [], pw_trunc_delta = 0, pw_live_delta = 0, pw_row_bytes = 0, pw_new_slots = 0, pw_stats = st\<rparr>"

section \<open>Sorting\<close>

definition sort_row_ops :: "row_op list \<Rightarrow> row_op list" where
  "sort_row_ops ops = last_wins op_key [] (sort_key op_key ops)"

text \<open>The scratch array starts with zero values, of which only the number matters.\<close>

definition radix_sort_post_ops :: "post_op list \<Rightarrow> post_op list" where
  "radix_sort_post_ops ops = radix_sort (\<lambda>p. token_head (pk_token (op_key p))) (sort_key op_key) ops ops"

definition sort_post_ops :: "post_op list \<Rightarrow> post_op list" where
  "sort_post_ops ops = last_wins op_key [] (if length ops > 1 then radix_sort_post_ops ops else ops)"

definition dedupe_part_ops :: "part_op list \<Rightarrow> part_op list" where
  "dedupe_part_ops ops = (if length ops < 2 then ops else last_wins po_name [] (sort_key po_name ops))"

section \<open>The postings of a batch\<close>

definition fold_diff_range :: "ns_part \<Rightarrow> fold_state \<Rightarrow> string \<times> string \<times> bool" where
  "fold_diff_range old f =
     (if np_bound_valid old \<and> fd_bound_valid f
      then (if np_bound_name old \<le> fd_bound_name f then (np_bound_name old, fd_bound_name f, True)
            else (fd_bound_name f, np_bound_name old, True))
      else if np_bound_valid old \<and> \<not> fd_bound_valid f then (np_bound_name old, '''', False)
      else if \<not> np_bound_valid old \<and> fd_bound_valid f then (fd_bound_name f, '''', False)
      else ('''', '''', True))"

definition old_row_ops :: "ns_part \<Rightarrow> bool \<Rightarrow> touched \<Rightarrow> post_op list" where
  "old_row_ops old namespaced t =
     (case td_old_rec t of
        None \<Rightarrow> []
      | Some rec \<Rightarrow>
          if \<not> td_had_row t then []
          else build_row_ops rec (td_old_slot t) (np_ns_tok old) (np_kind_tok old) namespaced (included_by_fold old (td_name t)) True)"

definition new_row_ops :: "ns_part \<Rightarrow> bool \<Rightarrow> fold_state \<Rightarrow> touched \<Rightarrow> post_op list" where
  "new_row_ops old namespaced f t =
     (case td_new_rec t of
        None \<Rightarrow> []
      | Some rec \<Rightarrow>
          if td_removed t then []
          else build_row_ops rec (td_new_slot t) (np_ns_tok old) (np_kind_tok old) namespaced (fold_includes f (td_name t)) False)"

text \<open>A row that is not in the batch but whose labels enter or leave the index.\<close>

definition flipped_row_ops :: "ns_part \<Rightarrow> bool \<Rightarrow> fold_state \<Rightarrow> trie_branch \<Rightarrow> string list \<Rightarrow> string \<Rightarrow> u32 option \<Rightarrow> post_op list" where
  "flipped_row_ops old namespaced f rt changed name slot =
     (if name \<in> set changed then []
      else (let before = included_by_fold old name; after = fold_includes f name in
        if before = after then []
        else case slot of
            None \<Rightarrow> []
          | Some s \<Rightarrow>
              (case trie_get (Some rt) s of
                 None \<Rightarrow> []
               | Some rec \<Rightarrow> replace_row_ops rec s (np_ns_tok old) (np_kind_tok old) namespaced before after)))"

definition flip_range :: "ns_part \<Rightarrow> fold_state \<Rightarrow> row_node \<Rightarrow> row_item list" where
  "flip_range old f dir =
     (case fold_diff_range old f of (lo, hi, has_hi) \<Rightarrow>
        if lo \<noteq> '''' \<or> has_hi \<or> \<not> np_bound_valid old \<or> \<not> fd_bound_valid f
        then row_each_positive dir lo hi has_hi (\<lambda>_. True) else [])"

definition range_ops :: "ns_part \<Rightarrow> bool \<Rightarrow> fold_state \<Rightarrow> row_node \<Rightarrow> trie_branch \<Rightarrow> string list \<Rightarrow> post_op list" where
  "range_ops old namespaced f dir rt changed =
     concat (map (\<lambda>x. flipped_row_ops old namespaced f rt changed (ri_name x) (Some (ri_slot x))) (flip_range old f dir))"

definition suffix_ops :: "ns_part \<Rightarrow> bool \<Rightarrow> fold_state \<Rightarrow> row_node \<Rightarrow> trie_branch \<Rightarrow> string list \<Rightarrow> post_op list" where
  "suffix_ops old namespaced f dir rt changed =
     concat (map (\<lambda>r. flipped_row_ops old namespaced f rt changed (rf_name r) (map_option fst (row_find dir (rf_name r))))
       (np_suffix old @ fd_suffix f))"

text \<open>How many rows of the second loop are counted as visited.\<close>

definition suffix_visits :: "ns_part \<Rightarrow> fold_state \<Rightarrow> row_node \<Rightarrow> trie_branch \<Rightarrow> string list \<Rightarrow> int" where
  "suffix_visits old f dir rt changed =
     int (length (filter (\<lambda>r. rf_name r \<notin> set changed \<and> included_by_fold old (rf_name r) \<noteq> fold_includes f (rf_name r)
         \<and> (case row_find dir (rf_name r) of None \<Rightarrow> False | Some (s, _) \<Rightarrow> trie_get (Some rt) s \<noteq> None))
       (np_suffix old @ fd_suffix f)))"

definition batch_post_ops :: "ns_part \<Rightarrow> bool \<Rightarrow> part_work \<Rightarrow> row_node \<Rightarrow> fold_state \<Rightarrow> post_op list" where
  "batch_post_ops old namespaced w dir f =
     (let changed = map td_name (pw_changes w) in
      concat (map (old_row_ops old namespaced) (pw_changes w)) @ concat (map (new_row_ops old namespaced f) (pw_changes w))
      @ range_ops old namespaced f dir (pw_row_root w) changed @ suffix_ops old namespaced f dir (pw_row_root w) changed)"

section \<open>The update\<close>

definition freed_slots :: "touched list \<Rightarrow> u32 list" where
  "freed_slots ts = map td_old_slot (filter td_had_row ts)"

definition clear_slot :: "u32 \<Rightarrow> trie_branch \<times> int \<Rightarrow> trie_branch \<times> int" where
  "clear_slot s rt = (let r = trie_set (Some (fst rt)) s None in (fst r, snd rt + snd r))"

definition finish_part :: "ns_part \<Rightarrow> bool \<Rightarrow> time \<Rightarrow> int \<Rightarrow> part_work \<Rightarrow> ns_part \<times> part_stats" where
  "finish_part old namespaced now caps w =
     (let ra = row_apply (np_row_dir old) (sort_row_ops (pw_row_ops w)) no_stats;
          rb = balance_row_root (fst ra) (snd ra);
          dir = fst rb; rst = snd rb;
          f = recompute_fold dir;
          changed = map td_name (pw_changes w);
          post_ops = batch_post_ops old namespaced w dir f;
          K = (keyer old)\<lparr>ky_root := Some (pw_row_root w)\<rparr>;
          pa = post_apply K (np_post_root old) (sort_post_ops post_ops) no_stats;
          pb = balance_post_root K (fst pa) (snd pa);
          pst = snd pb;
          freed = freed_slots (pw_changes w);
          cleared = fold clear_slot freed (pw_row_root w, 0);
          pub = publish_free (pw_free w) freed;
          live = np_live_rows old + pw_live_delta w;
          trunc = np_trunc_rows old + pw_trunc_delta w;
          mask = np_reason_mask old AND NOT ns_reason_label_ns;
          bytes = np_bytes old + pw_row_bytes w + caps
            + st_leaf_delta pst * (post_leaf_header_bytes + post_node_per_leaf_bytes)
            + st_leaf_delta rst * (row_leaf_header_bytes + row_node_per_leaf_bytes)
            + st_sep_bytes pst + st_sep_bytes rst + pw_new_slots w * trie_bytes_per_slot + int (length freed) * 4;
          st = pw_stats w in
      (\<lparr>np_namespace = np_namespace old, np_ns_tok = np_ns_tok old, np_kind_tok = np_kind_tok old, np_updated_at = now,
        np_row_root = fst cleared, np_post_root = fst pb, np_row_dir = dir, np_free_top = fst pub,
        np_slot_high = pw_slot_high w, np_live_rows = live, np_ns_label_tok = fd_acc f, np_bound_name = fd_bound_name f,
        np_bound_valid = fd_bound_valid f, np_suffix = fd_suffix f, np_trunc_rows = trunc,
        np_reason_mask = (if trunc > 0 \<or> fd_bound_valid f then mask OR ns_reason_label_ns else mask),
        np_version = np_version old + 1, np_post_entries = np_post_entries old + st_entry_delta pst,
        np_bytes = (if bytes < ns_part_fixed_bytes then ns_part_fixed_bytes else bytes)\<rparr>,
       st\<lparr>ps_visited_rows := ps_visited_rows st + fd_visited f + int (length (flip_range old f dir))
            + suffix_visits old f dir (pw_row_root w) changed,
          ps_directory_copies := ps_directory_copies st + st_entries_copied rst + st_entries_copied pst,
          ps_nodes_copied := ps_nodes_copied st + st_nodes_copied rst + st_nodes_copied pst,
          ps_sep_bytes := ps_sep_bytes st + st_sep_bytes rst + st_sep_bytes pst,
          ps_fold_compares := ps_fold_compares st + fd_compares f,
          ps_postings_changed := ps_postings_changed st + int (length post_ops),
          ps_post_entry_delta := ps_post_entry_delta st + st_entry_delta pst,
          ps_transient_bytes := ps_transient_bytes st + snd cleared + snd pub,
          ps_compaction_required := (ps_compaction_required st \<or> live > 1024 \<and> uint (pw_slot_high w) > 4 * live)\<rparr>))"

definition apply_part_ops :: "ns_part \<Rightarrow> bool \<Rightarrow> time \<Rightarrow> int \<Rightarrow> part_op list \<Rightarrow> part_stats \<Rightarrow> ns_part \<times> part_stats" where
  "apply_part_ops old namespaced now caps ops st =
     (if ops = [] then (old, st)
      else case take_part_ops (np_row_dir old) ops (start_work old st) of
          Inl st' \<Rightarrow> (old, st')
        | Inr w \<Rightarrow> finish_part old namespaced now caps w)"

end
