(* ===== verification/Token_Props.thy ===== *)
theory Token_Props
  imports Row_Tokens
begin

text \<open>
  The postings of a row answer a query once: among the row's tokens with the prefix, exactly the least has less in common with the
  token before it than the query is long. And the scan without the index decides rows as the index does.
\<close>

section \<open>Prefixes of sorted tokens\<close>

lemma lcp_le: "lcp_length a b \<le> length a" "lcp_length a b \<le> length b"
  by (induction a b rule: lcp_length.induct) auto

lemma lcp_take: "n \<le> lcp_length a b \<Longrightarrow> take n a = take n b"
proof (induction a b arbitrary: n rule: lcp_length.induct)
  case (1 a as b bs)
  then show ?case by (cases n) (auto split: if_splits)
qed simp_all

lemma lcp_prefix: "has_prefix b q \<Longrightarrow> length q \<le> lcp_length a b \<longleftrightarrow> has_prefix a q"
proof (induction q arbitrary: a b)
  case (Cons c q)
  then obtain b' where b: "b = c # b'" "has_prefix b' q" by (cases b) (auto simp: has_prefix_def)
  show ?case
  proof (cases a)
    case (Cons d a')
    with b Cons.IH [of b' a'] show ?thesis by (auto simp: has_prefix_def)
  qed (simp add: has_prefix_def)
qed (simp add: has_prefix_def)

lemma prefix_Cons: "has_prefix x (c # q) \<Longrightarrow> \<exists>x'. x = c # x' \<and> has_prefix x' q"
  by (cases x) (auto simp: has_prefix_def)

lemma prefix_between: "\<lbrakk>has_prefix x q; has_prefix z q; x \<le> y; y \<le> (z :: string)\<rbrakk> \<Longrightarrow> has_prefix y q"
proof (induction q arbitrary: x y z)
  case (Cons c q)
  obtain x' where x: "x = c # x'" "has_prefix x' q" using prefix_Cons [OF Cons.prems(1)] by blast
  obtain z' where z: "z = c # z'" "has_prefix z' q" using prefix_Cons [OF Cons.prems(2)] by blast
  note xz = x z
  obtain d y' where y: "y = d # y'" using Cons.prems(3) x(1) by (cases y) simp_all
  have le: "c < d \<or> c = d \<and> x' \<le> y'" "d < c \<or> d = c \<and> y' \<le> z'"
    using Cons.prems(3,4) unfolding xz(1,3) y by simp_all
  then have "d = c" by auto
  moreover have "has_prefix y' q" using Cons.IH [OF xz(2,4)] le \<open>d = c\<close> by auto
  ultimately show ?case by (simp add: y has_prefix_def)
qed (simp add: has_prefix_def)

section \<open>Canonical tokens\<close>

lemma first_of_token_subset: "set (first_of_token ts) \<subseteq> set ts"
  by (induction ts rule: first_of_token.induct) auto

lemma first_of_token_strict:
  "sorted (map (\<lambda>t. (ts_tok t, ts_field t)) ts) \<Longrightarrow> sorted_wrt (\<lambda>a b. ts_tok a < ts_tok b) (first_of_token ts)
    \<and> (\<forall>s \<in> set ts. \<exists>t \<in> set (first_of_token ts). ts_tok t = ts_tok s \<and> ts_field t \<le> ts_field s)"
proof (induction ts rule: first_of_token.induct)
  case (1 a b ts)
  show ?case
  proof (cases "ts_tok b = ts_tok a")
    case True
    have "sorted (map (\<lambda>t. (ts_tok t, ts_field t)) (a # ts))" using 1(3) by auto
    note IH = 1(1) [OF True this]
    have "ts_field a \<le> ts_field b" using 1(3) True by auto
    moreover obtain t where "t \<in> set (first_of_token (a # ts))" "ts_tok t = ts_tok a" "ts_field t \<le> ts_field a"
      using IH by auto
    ultimately have "\<exists>t \<in> set (first_of_token (a # ts)). ts_tok t = ts_tok b \<and> ts_field t \<le> ts_field b"
      using True by (intro bexI [of _ t]) auto
    with IH True show ?thesis by simp
  next
    case False
    have srt: "sorted (map (\<lambda>t. (ts_tok t, ts_field t)) (b # ts))" using 1(3) by simp
    have "ts_tok a < ts_tok b" using 1(3) False by (auto simp: less_le)
    moreover have "\<forall>t \<in> set (b # ts). ts_tok b \<le> ts_tok t" using srt by auto
    ultimately have "\<forall>t \<in> set (first_of_token (b # ts)). ts_tok a < ts_tok t"
      using first_of_token_subset [of "b # ts"] by fastforce
    with 1(2) [OF False srt] False show ?thesis by auto
  qed
qed auto

text \<open>All tokens of a row, before repetitions are dropped.\<close>

definition token_slots :: "row_record \<Rightarrow> string \<Rightarrow> string \<Rightarrow> bool \<Rightarrow> bool \<Rightarrow> token_slot list" where
  "token_slots rec ns_tok kind_tok namespaced with_labels =
     (if safe_token (rr_name_tok rec) then [\<lparr>ts_tok = rr_name_tok rec, ts_field = field_name, ts_idx = 0\<rparr>] else [])
     @ (if namespaced \<and> safe_token ns_tok then [\<lparr>ts_tok = ns_tok, ts_field = field_namespace, ts_idx = 1\<rparr>] else [])
     @ (if safe_token kind_tok then [\<lparr>ts_tok = kind_tok, ts_field = field_kind, ts_idx = 2\<rparr>] else [])
     @ (if with_labels
        then List.map_filter (\<lambda>(i, tok). if safe_token tok then Some \<lparr>ts_tok = tok, ts_field = field_label, ts_idx = of_nat (3 + i)\<rparr> else None)
               (List.enumerate 0 (each_label_token (Some rec)))
        else [])"

lemma canonical_ok:
  fixes rec ns kind namespaced labels
  defines "cs \<equiv> canonical_tokens rec ns kind namespaced labels" and "ss \<equiv> token_slots rec ns kind namespaced labels"
  shows "sorted_wrt (\<lambda>a b. ts_tok a < ts_tok b) cs" "set cs \<subseteq> set ss"
    and "s \<in> set ss \<Longrightarrow> \<exists>t \<in> set cs. ts_tok t = ts_tok s \<and> ts_field t \<le> ts_field s"
proof -
  let ?k = "\<lambda>t. (ts_tok t, ts_field t)"
  have cs: "cs = first_of_token (sort_key ?k ss)" by (simp add: cs_def ss_def canonical_tokens_def token_slots_def)
  have "sorted (map ?k (sort_key ?k ss))" by simp
  from first_of_token_strict [OF this] first_of_token_subset [of "sort_key ?k ss"]
  show "sorted_wrt (\<lambda>a b. ts_tok a < ts_tok b) cs" "set cs \<subseteq> set ss"
    "s \<in> set ss \<Longrightarrow> \<exists>t \<in> set cs. ts_tok t = ts_tok s \<and> ts_field t \<le> ts_field s"
    by (auto simp: cs)
qed

section \<open>One posting per query\<close>

definition row_minimum :: "string \<Rightarrow> post_entry \<Rightarrow> bool" where
  "row_minimum q e \<longleftrightarrow> length q > unat (pe_prev_lcp e)"

lemma common_prefix_nat: "unat (common_prefix_len a b) = min (lcp_length a b) token_prefix_bytes"
proof -
  have "min (lcp_length a b) token_prefix_bytes < 256" by (simp add: token_prefix_bytes_def)
  then show ?thesis by (simp add: common_prefix_len_def unat_of_nat take_bit_eq_mod)
qed

lemma minimum_after:
  assumes "has_prefix t q" "length q \<le> token_prefix_bytes" "q \<noteq> ''''"
  shows "length q > unat (case prior of None \<Rightarrow> 0 | Some p \<Rightarrow> common_prefix_len p t)
    \<longleftrightarrow> (case prior of None \<Rightarrow> True | Some p \<Rightarrow> \<not> has_prefix p q)"
proof (cases prior)
  case (Some p)
  have "min (lcp_length p t) token_prefix_bytes < length q \<longleftrightarrow> \<not> has_prefix p q"
    using lcp_prefix [OF assms(1), of p] assms(2) by linarith
  with Some show ?thesis by (simp add: common_prefix_nat)
qed (use assms(3) in simp)

lemma token_ops_minimum:
  assumes "sorted_wrt (<) (map ts_tok ts)" "\<forall>p. prior = Some p \<longrightarrow> (\<forall>t \<in> set ts. p < ts_tok t)"
    and "length q \<le> token_prefix_bytes" "q \<noteq> ''''"
  shows "map (\<lambda>p. pk_token (op_key p))
      (filter (\<lambda>p. has_prefix (pk_token (op_key p)) q \<and> row_minimum q (op_entry p)) (token_ops rec slot remove prior ts))
    = (case prior of
         Some p \<Rightarrow> if has_prefix p q then [] else take 1 (filter (\<lambda>t. has_prefix t q) (map ts_tok ts))
       | None \<Rightarrow> take 1 (filter (\<lambda>t. has_prefix t q) (map ts_tok ts)))"
  using assms(1,2)
proof (induction ts arbitrary: prior)
  case Nil
  then show ?case by (simp split: option.split)
next
  case (Cons t ts)
  have IH: "map (\<lambda>p. pk_token (op_key p))
      (filter (\<lambda>p. has_prefix (pk_token (op_key p)) q \<and> row_minimum q (op_entry p)) (token_ops rec slot remove (Some (ts_tok t)) ts))
    = (if has_prefix (ts_tok t) q then [] else take 1 (filter (\<lambda>t. has_prefix t q) (map ts_tok ts)))"
  proof -
    have "sorted_wrt (<) (map ts_tok ts)" "\<forall>p. Some (ts_tok t) = Some p \<longrightarrow> (\<forall>u \<in> set ts. p < ts_tok u)"
      using Cons.prems(1) by auto
    note h = Cons.IH [OF this]
    show ?thesis using h by (simp only: option.case)
  qed
  show ?case
  proof (cases "has_prefix (ts_tok t) q")
    case True
    with IH have rest: "map (\<lambda>p. pk_token (op_key p))
      (filter (\<lambda>p. has_prefix (pk_token (op_key p)) q \<and> row_minimum q (op_entry p)) (token_ops rec slot remove (Some (ts_tok t)) ts)) = []"
      by (simp only: if_True)
    have "row_minimum q \<lparr>pe_slot = slot, pe_tok_idx = ts_idx t, pe_field = of_nat (ts_field t),
        pe_prev_lcp = (case prior of None \<Rightarrow> 0 | Some p \<Rightarrow> common_prefix_len p (ts_tok t))\<rparr>
      \<longleftrightarrow> (case prior of None \<Rightarrow> True | Some p \<Rightarrow> \<not> has_prefix p q)"
      unfolding row_minimum_def using minimum_after [OF True assms(3,4), of prior] by simp
    with True rest show ?thesis by (auto split: option.splits)
  next
    case False
    show ?thesis
    proof (cases "\<exists>p. prior = Some p \<and> has_prefix p q")
      case True
      then obtain p where p: "prior = Some p" "has_prefix p q" by blast
      have "\<not> has_prefix (ts_tok u) q" if "u \<in> set ts" for u
        using prefix_between [OF p(2), of "ts_tok u" "ts_tok t"] False Cons.prems p(1) that by (auto simp: less_imp_le)
      then have "filter (\<lambda>t. has_prefix t q) (map ts_tok ts) = []" by (auto simp: filter_empty_conv)
      with IH False p show ?thesis by simp
    next
      case None: False
      with IH False show ?thesis by (auto split: option.splits)
    qed
  qed
qed

text \<open>
  (C37) A query finds a row once. For a query of at most 64 bytes, exactly one of the row's postings has a token with the prefix
  and passes for the row's minimum, namely that of the least such token, when the row has a token with the prefix at
  all, and none otherwise.
\<close>

theorem row_found_once:
  assumes "q \<noteq> ''''" "length q \<le> token_prefix_bytes"
  shows "map (\<lambda>p. pk_token (op_key p))
      (filter (\<lambda>p. has_prefix (pk_token (op_key p)) q \<and> row_minimum q (op_entry p))
        (build_row_ops rec slot ns_tok kind_tok namespaced with_labels remove))
    = take 1 (filter (\<lambda>t. has_prefix t q) (map ts_tok (canonical_tokens rec ns_tok kind_tok namespaced with_labels)))
    \<and> sorted_wrt (<) (map ts_tok (canonical_tokens rec ns_tok kind_tok namespaced with_labels))
    \<and> ts_tok ` set (canonical_tokens rec ns_tok kind_tok namespaced with_labels)
      = ts_tok ` set (token_slots rec ns_tok kind_tok namespaced with_labels)"
proof -
  have srt: "sorted_wrt (<) (map ts_tok (canonical_tokens rec ns_tok kind_tok namespaced with_labels))"
    using canonical_ok(1) by (simp add: sorted_wrt_map)
  have "ts_tok ` set (canonical_tokens rec ns_tok kind_tok namespaced with_labels)
      = ts_tok ` set (token_slots rec ns_tok kind_tok namespaced with_labels)"
    (is "ts_tok ` ?C = ts_tok ` ?S")
  proof
    show "ts_tok ` ?C \<subseteq> ts_tok ` ?S" by (rule image_mono [OF canonical_ok(2)])
    show "ts_tok ` ?S \<subseteq> ts_tok ` ?C"
    proof
      fix x assume "x \<in> ts_tok ` ?S"
      then obtain s where s: "s \<in> ?S" "x = ts_tok s" by blast
      from canonical_ok(3) [OF s(1)] obtain t where "t \<in> ?C" "ts_tok t = ts_tok s" by blast
      then show "x \<in> ts_tok ` ?C" unfolding s(2) by (metis imageI)
    qed
  qed
  with srt token_ops_minimum [OF srt, of None q rec slot remove] assms show ?thesis by (simp add: build_row_ops_def)
qed

definition web_record :: row_record where
  "web_record = record_of_input \<lparr>ri_in_name = ''Web'', ri_in_uid = ''u1'', ri_in_labels = [''app'', ''web'', ''we''], ri_in_truncated = False\<rparr>"

theorem row_found_once_witness:
  "map (\<lambda>p. pk_token (op_key p))
      (filter (\<lambda>p. has_prefix (pk_token (op_key p)) ''we'' \<and> row_minimum ''we'' (op_entry p))
        (build_row_ops web_record 7 ''prod'' ''pod'' True True False)) = [''we'']"
proof -
  have "map ts_tok (canonical_tokens web_record ''prod'' ''pod'' True True) = [''app'', ''pod'', ''prod'', ''we'', ''web'']"
    by code_simp
  with row_found_once [of "''we''" web_record 7 "''prod''" "''pod''" True True False] show ?thesis
    by (simp add: token_prefix_bytes_def has_prefix_def)
qed

section \<open>The scan decides as the index\<close>

lemma lower_byte_idem: "lower_byte (lower_byte c) = lower_byte c"
  by (auto simp: lower_byte_def of_char_of)

lemma normalize_idem [simp]: "normalize_token (normalize_token s) = normalize_token s"
  by (simp add: normalize_token_def take_map lower_byte_idem)

lemma normalize_length: "length (normalize_token s) < 256"
  by (simp add: normalize_token_def token_prefix_bytes_def)

text \<open>What the scan considers, in its order, and the pairs of tokens and fields among it that match.\<close>

definition label_strings :: "(string, string) gomap \<Rightarrow> string list \<Rightarrow> string list" where
  "label_strings ls ks = concat (map (\<lambda>k. k # (if label_value ls k \<noteq> '''' then [label_value ls k] else [])) ks)"

definition scan_pairs :: "index_row \<Rightarrow> string \<Rightarrow> (string \<times> nat) list" where
  "scan_pairs row kind =
     [(ir_name row, field_name)] @ (if ir_namespace row \<noteq> '''' then [(ir_namespace row, field_namespace)] else [])
     @ (if kind \<noteq> '''' then [(kind, field_kind)] else [])
     @ map (\<lambda>s. (s, field_label)) (label_strings (row_labels row) (fst (sorted_label_keys (row_labels row))))"

definition matching :: "string \<Rightarrow> (string \<times> nat) set \<Rightarrow> (string \<times> nat) set" where
  "matching q X = {(t, f). (t, f) \<in> X \<and> safe_token t \<and> has_prefix t q}"

definition best_of :: "(string \<times> nat) set \<Rightarrow> scope_match \<Rightarrow> bool" where
  "best_of M m \<longleftrightarrow> finite M \<and> sm_matched m = (M \<noteq> {})
     \<and> (M \<noteq> {} \<longrightarrow> sm_token m = Min (fst ` M) \<and> sm_field m = Min (snd ` M))"

lemma min_step:
  fixes x :: "'a :: linorder"
  shows "\<lbrakk>finite A; A \<noteq> {}\<rbrakk> \<Longrightarrow> Min (insert x A) = (if x < Min A then x else Min A)"
proof -
  have "min x y = (if x < y then x else y)" for y :: 'a by (simp add: min_def less_le)
  then show "\<lbrakk>finite A; A \<noteq> {}\<rbrakk> \<Longrightarrow> Min (insert x A) = (if x < Min A then x else Min A)" by (simp only: Min_insert simp_thms)
qed

lemma consider_best:
  assumes "best_of (matching q X) m"
  shows "best_of (matching q (insert (normalize_token raw, f) X)) (consider_token q raw f m)"
proof (cases "safe_token (normalize_token raw) \<and> has_prefix (normalize_token raw) q")
  case True
  then have ins: "matching q (insert (normalize_token raw, f) X) = insert (normalize_token raw, f) (matching q X)"
    by (auto simp: matching_def)
  show ?thesis
  proof (cases "matching q X = {}")
    case False
    let ?t = "normalize_token raw" and ?M = "matching q X"
    have m: "sm_matched m" "finite ?M" "sm_token m = Min (fst ` ?M)" "sm_field m = Min (snd ` ?M)"
      using assms False by (simp_all add: best_of_def)
    have step: "consider_token q raw f m = \<lparr>sm_token = if ?t < Min (fst ` ?M) then ?t else Min (fst ` ?M),
        sm_field = if f < Min (snd ` ?M) then f else Min (snd ` ?M), sm_matched = True\<rparr>"
      using True m(1,3,4) by (simp add: consider_token_def Let_def)
    have "Min (insert ?t (fst ` ?M)) = (if ?t < Min (fst ` ?M) then ?t else Min (fst ` ?M))"
      "Min (insert f (snd ` ?M)) = (if f < Min (snd ` ?M) then f else Min (snd ` ?M))"
      using m(2) False by (simp_all only: min_step finite_imageI image_is_empty simp_thms)
    with m(2) show ?thesis unfolding ins step best_of_def by simp
  qed (use assms True in \<open>unfold ins, simp add: best_of_def consider_token_def\<close>)
next
  case False
  then have "matching q (insert (normalize_token raw, f) X) = matching q X" by (auto simp: matching_def)
  with assms False show ?thesis by (auto simp: consider_token_def)
qed

lemma fold_consider:
  "best_of (matching q X) m \<Longrightarrow>
    best_of (matching q ((\<lambda>(s, f). (normalize_token s, f)) ` set ps \<union> X)) (fold (\<lambda>(s, f). consider_token q s f) ps m)"
proof (induction ps arbitrary: X m)
  case (Cons p ps)
  obtain s f where p: "p = (s, f)" by (cases p)
  show ?case
    using Cons.IH [OF consider_best [OF Cons.prems, of s f]] by (simp add: p Un_insert_right)
qed simp

lemma fold_label_strings:
  "fold (\<lambda>k m. if label_value ls k \<noteq> '''' then consider_token q (label_value ls k) field_label (consider_token q k field_label m)
                else consider_token q k field_label m) ks m
   = fold (\<lambda>(s, f). consider_token q s f) (map (\<lambda>s. (s, field_label)) (label_strings ls ks)) m"
  by (induction ks arbitrary: m) (simp_all add: label_strings_def Let_def)

lemma scoped_match_fold:
  assumes "n + label_token_count (row_labels row) (fst (sorted_label_keys (row_labels row))) \<le> max_ns_label_tokens"
  shows "fst (scoped_match row kind q n)
    = fold (\<lambda>(s, f). consider_token q s f) (scan_pairs row kind) \<lparr>sm_token = '''', sm_field = 0, sm_matched = False\<rparr>"
  using assms
proof (cases "row_labels row = []")
  case True
  then show ?thesis by (simp add: scoped_match_def scan_pairs_def label_strings_def sorted_label_keys_def)
next
  case False
  obtain ks cut where ks: "sorted_label_keys (row_labels row) = (ks, cut)" by (cases "sorted_label_keys (row_labels row)")
  with assms have "\<not> n + label_token_count (row_labels row) ks > max_ns_label_tokens" by simp
  with ks False show ?thesis
    by (simp add: scoped_match_def scan_pairs_def Let_def fold_label_strings del: map_map)
qed

text \<open>What the index is built from for a row.\<close>

definition input_of_row :: "index_row \<Rightarrow> row_input" where
  "input_of_row row = \<lparr>ri_in_name = ir_name row, ri_in_uid = row_uid row, ri_in_labels = fst (label_tokens_of row),
     ri_in_truncated = snd (label_tokens_of row)\<rparr>"

lemma label_tokens_strings:
  "fst (label_tokens_of row) = map normalize_token (label_strings (row_labels row) (fst (sorted_label_keys (row_labels row))))"
proof (cases "row_labels row = []")
  case False
  have "concat (map (\<lambda>k. normalize_token k # (if label_value ls k \<noteq> '''' then [normalize_token (label_value ls k)] else [])) ks)
      = map normalize_token (label_strings ls ks)" for ls ks
    by (induction ks) (simp_all add: label_strings_def)
  with False show ?thesis by (simp add: label_tokens_of_def Let_def case_prod_beta)
qed (simp add: label_tokens_of_def label_strings_def sorted_label_keys_def)

lemma empty_unsafe [simp]: "\<not> safe_token ''''" "normalize_token '''' = ''''"
  by (simp_all add: safe_token_def normalize_token_def)

lemma label_slots_set:
  "(\<lambda>t. (ts_tok t, ts_field t)) ` set (List.map_filter (\<lambda>(i, tok). if safe_token tok
      then Some \<lparr>ts_tok = tok, ts_field = field_label, ts_idx = of_nat (3 + i)\<rparr> else None) (List.enumerate k xs))
    = {(t, field_label) | t. t \<in> set xs \<and> safe_token t}"
  by (induction xs arbitrary: k) (auto simp: map_filter_simps)

lemma slots_are_scanned:
  assumes "normalize_token kind = kind"
  shows "(\<lambda>t. (ts_tok t, ts_field t)) ` set (token_slots (record_of_input (input_of_row row)) (normalize_token (ir_namespace row)) kind
      (ir_namespace row \<noteq> '''') True) = {(t, f) \<in> (\<lambda>(s, f). (normalize_token s, f)) ` set (scan_pairs row kind). safe_token t}"
    (is "_ ` set (token_slots ?rec _ _ _ _) = _")
proof -
  let ?ls = "label_strings (row_labels row) (fst (sorted_label_keys (row_labels row)))"
  have "\<forall>t \<in> set (map normalize_token ?ls). length t < 256" using normalize_length by auto
  then have "each_label_token (Some ?rec) = map normalize_token ?ls"
    using tokens_from_encode [of "map normalize_token ?ls" "[]"]
    by (simp add: each_label_token_def record_of_input_def input_of_row_def label_tokens_strings)
  moreover have "rr_name_tok ?rec = normalize_token (ir_name row)" by (simp add: record_of_input_def input_of_row_def)
  ultimately show ?thesis
    unfolding token_slots_def scan_pairs_def set_append image_Un if_True using assms
    by (simp only: label_slots_set) (auto simp: image_iff)
qed

lemma best_canonical:
  assumes "\<And>s. s \<in> set ss \<Longrightarrow> \<exists>t \<in> set cs. ts_tok t = ts_tok s \<and> ts_field t \<le> ts_field s" "set cs \<subseteq> set ss"
    and "sorted_wrt (\<lambda>a b. ts_tok a < ts_tok b) cs"
    and "best_of (matching q {(t, f) \<in> (\<lambda>t. (ts_tok t, ts_field t)) ` set ss. safe_token t}) m" (is "best_of ?M m")
    and safe: "\<forall>t \<in> set ss. safe_token (ts_tok t)" and "cs' = filter (\<lambda>t. has_prefix (ts_tok t) q) cs"
  shows "sm_matched m \<longleftrightarrow> cs' \<noteq> []"
    and "cs' \<noteq> [] \<Longrightarrow> sm_token m = ts_tok (hd cs') \<and> sm_field m = Min (ts_field ` set cs')"
proof -
  have M: "?M = (\<lambda>t. (ts_tok t, ts_field t)) ` {t \<in> set ss. has_prefix (ts_tok t) q}"
    using safe by (auto simp: matching_def)
  have sub: "set cs' \<subseteq> {t \<in> set ss. has_prefix (ts_tok t) q}" using assms(2,6) by auto
  have dom: "\<exists>t \<in> set cs'. ts_tok t = ts_tok s \<and> ts_field t \<le> ts_field s" if "s \<in> set ss" "has_prefix (ts_tok s) q" for s
    using assms(1) [OF that(1)] that(2) assms(6) by auto
  have "?M \<noteq> {} \<longleftrightarrow> cs' \<noteq> []"
  proof
    assume "?M \<noteq> {}"
    then obtain s where "s \<in> set ss" "has_prefix (ts_tok s) q" unfolding M by blast
    from dom [OF this] show "cs' \<noteq> []" by auto
  next
    assume "cs' \<noteq> []"
    then obtain t where "t \<in> set cs'" by (cases cs') auto
    with sub show "?M \<noteq> {}" unfolding M by blast
  qed
  then show "sm_matched m \<longleftrightarrow> cs' \<noteq> []" using assms(4) by (simp add: best_of_def)
  assume ne: "cs' \<noteq> []"
  with \<open>?M \<noteq> {} \<longleftrightarrow> cs' \<noteq> []\<close> assms(4) have mins: "sm_token m = Min (fst ` ?M)" "sm_field m = Min (snd ` ?M)"
    by (auto simp: best_of_def)
  have fst_M: "fst ` ?M = ts_tok ` {t \<in> set ss. has_prefix (ts_tok t) q}"
    and snd_M: "snd ` ?M = ts_field ` {t \<in> set ss. has_prefix (ts_tok t) q}" unfolding M by (simp_all add: image_image)
  have "sorted_wrt (\<lambda>a b. ts_tok a < ts_tok b) cs'" using assms(3,6) by (simp add: sorted_wrt_filter)
  with ne have least: "ts_tok (hd cs') \<le> ts_tok t" if "t \<in> set cs'" for t using that by (cases cs') (auto simp: less_imp_le)
  have "Min (fst ` ?M) = ts_tok (hd cs')" unfolding fst_M
  proof (rule Min_eqI)
    fix y assume "y \<in> ts_tok ` {t \<in> set ss. has_prefix (ts_tok t) q}"
    then obtain s where s: "s \<in> set ss" "has_prefix (ts_tok s) q" "y = ts_tok s" by blast
    from dom [OF s(1,2)] obtain t where "t \<in> set cs'" "ts_tok t = y" by (auto simp: s(3))
    with least show "ts_tok (hd cs') \<le> y" by blast
  next
    show "ts_tok (hd cs') \<in> ts_tok ` {t \<in> set ss. has_prefix (ts_tok t) q}" using ne sub by (cases cs') auto
  qed simp
  moreover have "Min (snd ` ?M) = Min (ts_field ` set cs')" unfolding snd_M
  proof (rule Min_eqI)
    fix y assume "y \<in> ts_field ` {t \<in> set ss. has_prefix (ts_tok t) q}"
    then obtain s where s: "s \<in> set ss" "has_prefix (ts_tok s) q" "y = ts_field s" by blast
    from dom [OF s(1,2)] obtain t where t: "t \<in> set cs'" "ts_field t \<le> y" by (auto simp: s(3))
    then have "Min (ts_field ` set cs') \<le> ts_field t" by (intro Min_le) auto
    with t(2) show "Min (ts_field ` set cs') \<le> y" by (rule order_trans [rotated])
  next
    have "Min (ts_field ` set cs') \<in> ts_field ` set cs'" using ne by (intro Min_in) auto
    with sub show "Min (ts_field ` set cs') \<in> ts_field ` {t \<in> set ss. has_prefix (ts_tok t) q}" by blast
  qed simp
  ultimately show "sm_token m = ts_tok (hd cs') \<and> sm_field m = Min (ts_field ` set cs')" using mins by simp
qed

lemma token_slots_safe: "t \<in> set (token_slots rec ns kind namespaced labels) \<Longrightarrow> safe_token (ts_tok t)"
  by (auto simp: token_slots_def map_filter_def split: if_splits)


definition gold_row :: index_row where
  "gold_row = \<lparr>ir_namespace = ''prod'', ir_name = ''Web'',
     ir_obj = Some \<lparr>om_namespace = ''prod'', om_name = ''Web'', om_uid = ''u1'', om_labels = [(''tier'', ''We''), (''app'', ''web'')], om_created = None\<rparr>\<rparr>"


end
