(* ===== verification/Part_Rows.thy ===== *)
theory Part_Rows
  imports Part_Index Token_Props
begin

text \<open>
  What a batch does to the rows of a partition: the sorts keep the last change of a name, the directory is updated in bulk, every
  slot below the high-water mark stays either live or free, and the counters follow.
\<close>

section \<open>Sorted batches\<close>

lemma find_filter: "List.find P xs = (case filter P xs of [] \<Rightarrow> None | x # _ \<Rightarrow> Some x)"
  by (induction xs) auto

lemma find_Some_in: "List.find P xs = Some x \<Longrightarrow> x \<in> set xs \<and> P x"
  by (induction xs) (auto split: if_splits)

lemma find_rev_sort: "List.find (\<lambda>x. k x = v) (rev (sort_key k xs)) = List.find (\<lambda>x. k x = v) (rev xs)"
  unfolding find_filter rev_filter [symmetric] sort_key_stable ..

lemma last_wins_sorted:
  fixes k :: "'a \<Rightarrow> 'k :: linorder"
  shows "sorted_keys k (last_wins k [] (sort_key k xs))"
    and "List.find (\<lambda>x. k x = v) (last_wins k [] (sort_key k xs)) = List.find (\<lambda>x. k x = v) (rev xs)"
    and "x \<in> set (last_wins k [] (sort_key k xs)) \<longleftrightarrow> List.find (\<lambda>y. k y = k x) (rev xs) = Some x"
proof -
  have out: "sorted_wrt (\<lambda>x y. k x < k y) (last_wins k [] (sort_key k xs))"
    "List.find (\<lambda>x. k x = v) (last_wins k [] (sort_key k xs)) = List.find (\<lambda>x. k x = v) (rev xs)" for v
    using last_wins_out [of k "[]" "sort_key k xs"] by (simp_all add: find_rev_sort)
  then show srt: "sorted_keys k (last_wins k [] (sort_key k xs))" by (simp add: sorted_wrt_map)
  show "List.find (\<lambda>x. k x = v) (last_wins k [] (sort_key k xs)) = List.find (\<lambda>x. k x = v) (rev xs)" by (rule out(2))
  show "x \<in> set (last_wins k [] (sort_key k xs)) \<longleftrightarrow> List.find (\<lambda>y. k y = k x) (rev xs) = Some x"
    unfolding out(2) [symmetric] using find_eq_unique [OF srt, of x "k x"] by (auto dest: find_Some_in)
qed

lemma sort_post_ops_eq: "sort_post_ops ops = last_wins op_key [] (sort_key op_key ops)"
proof -
  have "radix_sort_post_ops ops = sort_key op_key ops"
    unfolding radix_sort_post_ops_def
  proof (rule radix_sort_exact [OF refl])
    fix x y :: post_op
    assume "op_key x \<le> op_key y"
    then have "pk_token (op_key x) \<le> pk_token (op_key y)"
      by (auto simp: less_eq_post_key_def compare_post_key_def go_compare_def split: if_splits)
    then show "token_head (pk_token (op_key x)) \<le> token_head (pk_token (op_key y))" by (rule token_head_mono)
  qed
  moreover have "sort_key op_key ops = ops" if "\<not> length ops > 1"
    using that by (cases ops) auto
  ultimately show ?thesis by (simp add: sort_post_ops_def)
qed

text \<open>
  (C19) The radix sort of a posting batch is exact: on any batch, the eight counting passes over the first bytes of the tokens and the
  sorting of the runs give the stable sort by key, and after it the last operation of every key stays, in strictly increasing
  order of the keys.
\<close>

theorem post_sort_exact:
  "radix_sort_post_ops ops = sort_key op_key ops
    \<and> sorted_keys op_key (sort_post_ops ops)
    \<and> List.find (\<lambda>p. op_key p = k) (sort_post_ops ops) = List.find (\<lambda>p. op_key p = k) (rev ops)"
proof -
  have "radix_sort_post_ops ops = sort_key op_key ops"
    unfolding radix_sort_post_ops_def
    by (rule radix_sort_exact [OF refl], rule token_head_mono)
      (auto simp: less_eq_post_key_def compare_post_key_def go_compare_def split: if_splits)
  then show ?thesis unfolding sort_post_ops_eq by (simp add: last_wins_sorted(1) last_wins_sorted(2))
qed

section \<open>Well-formed rows\<close>

lemma trie_set_lookup:
  assumes "trie_ok trie_top rt" "slot < max_slot" "s < max_slot"
  shows "trie_ok trie_top (Some (fst (trie_set rt slot rec)))"
    and "trie_get (Some (fst (trie_set rt slot rec))) s = (if s = slot then rec else trie_get rt s)"
proof -
  have m: "unat x mod 32 ^ (trie_top + 2) = unat x" if "x < max_slot" for x :: u32
    using that by (simp add: trie_top_def max_slot_def word_less_nat_alt)
  from trie_set_at_ok [OF assms(1), of slot rec s] m [OF assms(2)] m [OF assms(3)]
  show "trie_ok trie_top (Some (fst (trie_set rt slot rec)))"
    "trie_get (Some (fst (trie_set rt slot rec))) s = (if s = slot then rec else trie_get rt s)"
    by (simp_all add: trie_set_def trie_get_def trie_top_def word_unat_eq_iff)
qed

text \<open>The row of a name.\<close>

definition part_row :: "ns_part \<Rightarrow> string \<Rightarrow> row_record option" where
  "part_row p name = (case row_find (np_row_dir p) name of None \<Rightarrow> None | Some (s, _) \<Rightarrow> trie_get (Some (np_row_root p)) s)"

definition record_ok :: "row_record \<Rightarrow> bool" where
  "record_ok rec \<longleftrightarrow> (let toks = each_label_token (Some rec) in
     rr_label_blob rec = encode_label_blob toks \<and> list_all (\<lambda>t. length t < 256) toks \<and> length toks \<le> 2 * max_label_keys
     \<and> rr_weight rec = of_nat (length toks))"

definition row_kept :: "trie_branch \<Rightarrow> row_item \<Rightarrow> bool" where
  "row_kept rt x \<longleftrightarrow> (case trie_get (Some rt) (ri_slot x) of
     None \<Rightarrow> False | Some rec \<Rightarrow> rr_name rec = ri_name x \<and> record_ok rec \<and> ri_weight x = ucast (rr_weight rec))"

text \<open>Every slot below the high-water mark is either that of a row or free, and only once.\<close>

definition slots_ok :: "u32 list \<Rightarrow> free_node list \<Rightarrow> u32 \<Rightarrow> bool" where
  "slots_ok used free high \<longleftrightarrow> chain_ok free \<and> distinct (used @ free_slots free) \<and> set (used @ free_slots free) = {s. s < high}
     \<and> high \<le> max_slot"

definition fold_kept :: "ns_part \<Rightarrow> bool" where
  "fold_kept p \<longleftrightarrow> (let f = recompute_fold (np_row_dir p) in np_ns_label_tok p = fd_acc f \<and> np_bound_name p = fd_bound_name f
     \<and> np_bound_valid p = fd_bound_valid f \<and> np_suffix p = fd_suffix f)"

abbreviation part_items :: "ns_part \<Rightarrow> row_item list" where
  "part_items p \<equiv> flat row_ops (np_row_dir p)"

definition part_ok :: "ns_part \<Rightarrow> bool" where
  "part_ok p \<longleftrightarrow> tree_ok row_ops (np_row_dir p) \<and> trie_ok trie_top (Some (np_row_root p))
     \<and> (\<forall>x \<in> set (part_items p). row_kept (np_row_root p) x)
     \<and> slots_ok (map ri_slot (part_items p)) (np_free_top p) (np_slot_high p) \<and> fold_kept p
     \<and> np_live_rows p = int (length (part_items p))
     \<and> np_trunc_rows p = (\<Sum>x \<leftarrow> part_items p. bool_int (keys_truncated (part_row p (ri_name x))))"

lemma part_okD:
  assumes "part_ok p"
  shows "tree_ok row_ops (np_row_dir p)" "trie_ok trie_top (Some (np_row_root p))"
    and "x \<in> set (part_items p) \<Longrightarrow> row_kept (np_row_root p) x"
    and "slots_ok (map ri_slot (part_items p)) (np_free_top p) (np_slot_high p)"
    and "ordered row_ops None None (np_row_dir p)" "sorted_keys ri_name (part_items p)"
  using assms ordered_flat [of row_ops None None "np_row_dir p"]
  by (auto simp: part_ok_def tree_ok_def row_items)

lemma part_find:
  assumes "part_ok p"
  shows "row_find (np_row_dir p) name = map_option (\<lambda>x. (ri_slot x, ri_weight x)) (List.find (\<lambda>x. ri_name x = name) (part_items p))"
  by (rule row_find_flat [OF part_okD(5) [OF assms]])

lemma part_row_item:
  assumes "part_ok p" "x \<in> set (part_items p)"
  shows "part_row p (ri_name x) = trie_get (Some (np_row_root p)) (ri_slot x)"
    and "row_find (np_row_dir p) (ri_name x) = Some (ri_slot x, ri_weight x)"
  using find_eq_unique [OF part_okD(6) [OF assms(1)] assms(2) refl] by (simp_all add: part_row_def part_find [OF assms(1)])

lemma part_row_none:
  assumes "part_ok p" "name \<notin> ri_name ` set (part_items p)"
  shows "part_row p name = None" "row_find (np_row_dir p) name = None"
proof -
  have "List.find (\<lambda>x. ri_name x = name) (part_items p) = None" using assms(2) by (auto simp: find_None_iff)
  then show "part_row p name = None" "row_find (np_row_dir p) name = None" by (simp_all add: part_row_def part_find [OF assms(1)])
qed

lemma part_row_some: "\<lbrakk>part_ok p; x \<in> set (part_items p)\<rbrakk> \<Longrightarrow> part_row p (ri_name x) \<noteq> None"
  using part_okD(3) [of p x] by (auto simp: part_row_item row_kept_def split: option.splits)

lemma part_row_iff:
  assumes "part_ok p"
  shows "part_row p name \<noteq> None \<longleftrightarrow> name \<in> ri_name ` set (part_items p)"
proof (cases "name \<in> ri_name ` set (part_items p)")
  case True
  then obtain x where x: "x \<in> set (part_items p)" "name = ri_name x" by (rule imageE)
  show ?thesis using True part_row_some [OF assms x(1)] unfolding x(2) by simp
next
  case False
  show ?thesis using False part_row_none(1) [OF assms False] by simp
qed

section \<open>The first loop\<close>

definition touch_ok :: "ns_part \<Rightarrow> part_op \<Rightarrow> touched \<Rightarrow> bool" where
  "touch_ok old po t \<longleftrightarrow> td_name t = po_name po \<and> td_had_row t = (row_find (np_row_dir old) (po_name po) \<noteq> None)
     \<and> (\<forall>s w. row_find (np_row_dir old) (po_name po) = Some (s, w) \<longrightarrow> td_old_slot t = s)
     \<and> td_old_rec t = part_row old (po_name po) \<and> td_removed t = (po_input po = None)
     \<and> td_new_rec t = map_option record_of_input (po_input po)"

definition new_slots :: "touched list \<Rightarrow> u32 list" where
  "new_slots ts = map td_new_slot (filter (\<lambda>t. td_new_rec t \<noteq> None) ts)"

definition touch_row_ops :: "touched \<Rightarrow> row_op list" where
  "touch_row_ops t = (case td_new_rec t of
     None \<Rightarrow> if td_had_row t then [row_remove (td_name t)] else []
   | Some rec \<Rightarrow> [row_store (td_name t) (td_new_slot t) (ucast (rr_weight rec))])"

definition gained :: "(row_record option \<Rightarrow> int) \<Rightarrow> touched list \<Rightarrow> int" where
  "gained g ts = (\<Sum>t \<leftarrow> ts. g (td_new_rec t) - g (td_old_rec t))"

definition work_ok :: "ns_part \<Rightarrow> part_op list \<Rightarrow> part_work \<Rightarrow> bool" where
  "work_ok old pos w \<longleftrightarrow> list_all2 (touch_ok old) pos (pw_changes w)
     \<and> pw_row_ops w = concat (map touch_row_ops (pw_changes w))
     \<and> slots_ok (map ri_slot (part_items old) @ new_slots (pw_changes w)) (fs_top (pw_free w)) (pw_slot_high w)
     \<and> trie_ok trie_top (Some (pw_row_root w))
     \<and> (\<forall>t \<in> set (pw_changes w). td_new_rec t \<noteq> None \<longrightarrow> trie_get (Some (pw_row_root w)) (td_new_slot t) = td_new_rec t)
     \<and> (\<forall>s. s < max_slot \<and> s \<notin> set (new_slots (pw_changes w)) \<longrightarrow> trie_get (Some (pw_row_root w)) s = trie_get (Some (np_row_root old)) s)
     \<and> pw_trunc_delta w = gained (\<lambda>r. bool_int (keys_truncated r)) (pw_changes w)
     \<and> pw_live_delta w = gained (\<lambda>r. bool_int (r \<noteq> None)) (pw_changes w)"

lemma start_work_ok: "part_ok old \<Longrightarrow> work_ok old [] (start_work old st)"
  by (simp add: work_ok_def start_work_def part_ok_def gained_def new_slots_def new_free_stack_def)

lemma less_next_slot:
  assumes "high < max_slot"
  shows "s < high + 1 \<longleftrightarrow> s < high \<or> s = high"
proof -
  have "unat (high + 1) = unat high + 1"
    using assms by (simp add: unat_word_ariths max_slot_def word_less_nat_alt)
  then show ?thesis by (auto simp: word_less_nat_alt word_unat_eq_iff)
qed

lemma slots_take:
  assumes "slots_ok used (fs_top f) high" "pop_free f = (f', r)" "\<not> (r = None \<and> max_slot \<le> high)"
    and "slot = (case r of Some s \<Rightarrow> s | None \<Rightarrow> high)" "high' = (if r = None then high + 1 else high)"
  shows "slots_ok (used @ [slot]) (fs_top f') high'" "slot < max_slot" "slot \<notin> set used"
proof -
  have pop: "chain_ok (fs_top f')" "mset (free_slots (fs_top f)) = (case r of None \<Rightarrow> {#} | Some s \<Rightarrow> {#s#}) + mset (free_slots (fs_top f'))"
    "r = None \<longleftrightarrow> free_slots (fs_top f) = []"
    using pop_from_ok [of "fs_top f" "fs_private f" "fs_copied f"] assms(1,2) by (auto simp: pop_free_def slots_ok_def)
  have s: "distinct (used @ free_slots (fs_top f))" "set (used @ free_slots (fs_top f)) = {s. s < high}" "high \<le> max_slot"
    using assms(1) by (auto simp: slots_ok_def)
  show "slots_ok (used @ [slot]) (fs_top f') high'" "slot < max_slot" "slot \<notin> set used"
  proof (atomize (full), cases r)
    case None
    then have free: "free_slots (fs_top f) = []" "free_slots (fs_top f') = []" using pop by auto
    have lt: "high < max_slot" using assms(3) None by simp
    have "{s. s < high + 1} = insert high {s. s < high}" by (auto simp: less_next_slot [OF lt])
    moreover have "high + 1 \<le> max_slot" using lt by (rule inc_le)
    ultimately show "slots_ok (used @ [slot]) (fs_top f') high' \<and> slot < max_slot \<and> slot \<notin> set used"
      using None free s pop(1) lt assms(4,5) by (auto simp: slots_ok_def)
  next
    case (Some s0)
    have m: "mset (used @ free_slots (fs_top f)) = mset ((used @ [s0]) @ free_slots (fs_top f'))" using pop(2) Some by simp
    have "distinct ((used @ [s0]) @ free_slots (fs_top f'))" using s(1) mset_eq_imp_distinct_iff [OF m] by simp
    moreover have "set ((used @ [s0]) @ free_slots (fs_top f')) = {s. s < high}" using s(2) mset_eq_setD [OF m] by simp
    ultimately show "slots_ok (used @ [slot]) (fs_top f') high' \<and> slot < max_slot \<and> slot \<notin> set used"
      using Some pop(1) s(3) assms(4,5) by (auto simp: slots_ok_def)
  qed
qed

lemma part_found:
  assumes "part_ok p" "row_find (np_row_dir p) name = Some (s, wt)"
  obtains x where "x \<in> set (part_items p)" "ri_name x = name" "ri_slot x = s" "ri_weight x = wt"
proof -
  from assms(2) obtain x where "List.find (\<lambda>x. ri_name x = name) (part_items p) = Some x" "ri_slot x = s" "ri_weight x = wt"
    unfolding part_find [OF assms(1)] by auto
  with find_Some_in [of "\<lambda>x. ri_name x = name" "part_items p" x] that show thesis by blast
qed

lemma work_old_row:
  assumes "part_ok old" "work_ok old xs w"
  shows "(case row_find (np_row_dir old) name of None \<Rightarrow> None | Some (s, _) \<Rightarrow> trie_get (Some (pw_row_root w)) s) = part_row old name"
proof (cases "row_find (np_row_dir old) name")
  case (Some f)
  obtain s wt where f: "f = (s, wt)" by (cases f)
  obtain x where x: "x \<in> set (part_items old)" "ri_slot x = s" using part_found [OF assms(1) Some [unfolded f]] by metis
  have sl: "slots_ok (map ri_slot (part_items old) @ new_slots (pw_changes w)) (fs_top (pw_free w)) (pw_slot_high w)"
    using assms(2) by (simp add: work_ok_def)
  have u: "s \<in> set (map ri_slot (part_items old))" using x by auto
  then have "s \<notin> set (new_slots (pw_changes w))" using sl unfolding slots_ok_def distinct_append by auto
  moreover have "s < max_slot"
  proof -
    have "s \<in> {s. s < pw_slot_high w}" using u sl unfolding slots_ok_def by (metis UnI1 set_append)
    then show ?thesis using sl unfolding slots_ok_def by (meson less_le_trans mem_Collect_eq)
  qed
  ultimately have "trie_get (Some (pw_row_root w)) s = trie_get (Some (np_row_root old)) s" using assms(2) by (simp add: work_ok_def)
  then show ?thesis by (simp add: Some f part_row_def)
qed (simp add: part_row_def)

lemma gained_snoc: "gained g (ts @ [t]) = gained g ts + (g (td_new_rec t) - g (td_old_rec t))"
  by (simp add: gained_def)

lemma new_slots_snoc: "new_slots (ts @ [t]) = new_slots ts @ (if td_new_rec t = None then [] else [td_new_slot t])"
  by (simp add: new_slots_def)

lemma take_step_remove:
  assumes ok: "part_ok old" and w: "work_ok old xs w" and r: "take_part_op (np_row_dir old) po w = Inr w'" and none: "po_input po = None"
  shows "work_ok old (xs @ [po]) w'"
proof -
  let ?found = "row_find (np_row_dir old) (po_name po)"
  define t where "t = \<lparr>td_name = po_name po, td_old_slot = (case ?found of None \<Rightarrow> 0 | Some (s, _) \<Rightarrow> s), td_old_rec = part_row old (po_name po),
    td_new_slot = 0, td_new_rec = None, td_had_row = (?found \<noteq> None), td_removed = True\<rparr>"
  have rec: "(if ?found \<noteq> None then trie_get (Some (pw_row_root w)) (case ?found of None \<Rightarrow> 0 | Some (s, _) \<Rightarrow> s) else None) = part_row old (po_name po)"
    using work_old_row [OF ok w, of "po_name po"] by (cases ?found) (auto split: prod.split)
  have live: "?found = None \<longleftrightarrow> part_row old (po_name po) = None"
    using part_row_iff [OF ok, of "po_name po"] part_row_none(2) [OF ok, of "po_name po"] by (cases ?found) (auto simp: part_row_def)
  have t: "touch_ok old po t" by (auto simp: touch_ok_def t_def none)
  have w': "pw_changes w' = pw_changes w @ [t]" "pw_row_ops w' = pw_row_ops w @ touch_row_ops t" "pw_free w' = pw_free w"
    "pw_slot_high w' = pw_slot_high w" "pw_row_root w' = pw_row_root w"
    "pw_trunc_delta w' = pw_trunc_delta w - bool_int (keys_truncated (part_row old (po_name po)))"
    "pw_live_delta w' = pw_live_delta w - bool_int (part_row old (po_name po) \<noteq> None)"
    using r rec live unfolding take_part_op_def Let_def none
    by (auto simp: t_def touch_row_ops_def bool_int_def keys_truncated_def)
  have g: "td_new_rec t = None" "td_old_rec t = part_row old (po_name po)" by (simp_all add: t_def)
  show ?thesis
    using w t unfolding work_ok_def w' by (auto simp: list_all2_appendI gained_snoc new_slots_snoc g bool_int_def keys_truncated_def)
qed

lemma take_step_store:
  assumes ok: "part_ok old" and w: "work_ok old xs w" and r: "take_part_op (np_row_dir old) po w = Inr w'" and inp: "po_input po = Some inp"
  shows "work_ok old (xs @ [po]) w'"
proof -
  let ?found = "row_find (np_row_dir old) (po_name po)"
  obtain f' got where pop: "pop_free (pw_free w) = (f', got)" by (rule prod.exhaust)
  define slot where "slot = (case got of Some s \<Rightarrow> s | None \<Rightarrow> pw_slot_high w)"
  define t where "t = \<lparr>td_name = po_name po, td_old_slot = (case ?found of None \<Rightarrow> 0 | Some (s, _) \<Rightarrow> s), td_old_rec = part_row old (po_name po),
    td_new_slot = slot, td_new_rec = Some (record_of_input inp), td_had_row = (?found \<noteq> None), td_removed = False\<rparr>"
  have rec: "(if ?found \<noteq> None then trie_get (Some (pw_row_root w)) (case ?found of None \<Rightarrow> 0 | Some (s, _) \<Rightarrow> s) else None) = part_row old (po_name po)"
    using work_old_row [OF ok w, of "po_name po"] by (cases ?found) (auto split: prod.split)
  have live: "?found = None \<longleftrightarrow> part_row old (po_name po) = None"
    using part_row_iff [OF ok, of "po_name po"] part_row_none(2) [OF ok, of "po_name po"] by (cases ?found) (auto simp: part_row_def)
  have room: "\<not> (got = None \<and> max_slot \<le> pw_slot_high w)" using r inp pop by (auto simp: take_part_op_def Let_def)
  have t: "touch_ok old po t" by (auto simp: touch_ok_def t_def inp)
  have w': "pw_changes w' = pw_changes w @ [t]" "pw_row_ops w' = pw_row_ops w @ touch_row_ops t" "pw_free w' = f'"
    "pw_slot_high w' = (if got = None then pw_slot_high w + 1 else pw_slot_high w)"
    "pw_row_root w' = fst (trie_set (Some (pw_row_root w)) slot (td_new_rec t))"
    "pw_trunc_delta w' = pw_trunc_delta w + (bool_int (keys_truncated (td_new_rec t)) - bool_int (keys_truncated (part_row old (po_name po))))"
    "pw_live_delta w' = pw_live_delta w + (bool_int (td_new_rec t \<noteq> None) - bool_int (part_row old (po_name po) \<noteq> None))"
    using r rec live room unfolding take_part_op_def Let_def inp
    by (auto simp: t_def touch_row_ops_def bool_int_def keys_truncated_def pop slot_def)
  have g: "td_new_rec t = Some (record_of_input inp)" "td_old_rec t = part_row old (po_name po)" "td_new_slot t = slot" by (simp_all add: t_def)
  have sl: "slots_ok (map ri_slot (part_items old) @ new_slots (pw_changes w)) (fs_top (pw_free w)) (pw_slot_high w)"
    and tr: "trie_ok trie_top (Some (pw_row_root w))"
    using w by (simp_all add: work_ok_def)
  note take = slots_take [OF sl pop room slot_def refl]
  have lt: "s < max_slot" if "s \<in> set (new_slots (pw_changes w))" for s
    using that sl unfolding slots_ok_def by (metis (mono_tags) UnCI less_le_trans mem_Collect_eq set_append)
  have other: "td_new_slot u \<noteq> slot \<and> td_new_slot u < max_slot" if "u \<in> set (pw_changes w)" "td_new_rec u \<noteq> None" for u
  proof -
    have "td_new_slot u \<in> set (new_slots (pw_changes w))" using that by (auto simp: new_slots_def)
    then show ?thesis using take(3) lt by auto
  qed
  note set_slot = trie_set_lookup [OF tr take(2)]
  show ?thesis
    unfolding work_ok_def w' gained_snoc new_slots_snoc g
  proof (intro conjI ballI allI impI)
    show "list_all2 (touch_ok old) (xs @ [po]) (pw_changes w @ [t])" using w t by (simp add: work_ok_def list_all2_appendI)
    show "slots_ok (map ri_slot (part_items old) @ new_slots (pw_changes w) @ (if Some (record_of_input inp) = None then [] else [slot])) (fs_top f')
      (if got = None then pw_slot_high w + 1 else pw_slot_high w)" using take(1) by simp
    show "trie_get (Some (fst (trie_set (Some (pw_row_root w)) slot (Some (record_of_input inp))))) (td_new_slot u) = td_new_rec u"
      if "u \<in> set (pw_changes w @ [t])" "td_new_rec u \<noteq> None" for u
    proof (cases "u = t")
      case True
      then show ?thesis using set_slot(2) [OF take(2)] g by simp
    next
      case False
      then have u: "u \<in> set (pw_changes w)" using that(1) by simp
      then show ?thesis using set_slot(2) [of "td_new_slot u"] other [OF u that(2)] w that(2) by (auto simp: work_ok_def)
    qed
    show "trie_get (Some (fst (trie_set (Some (pw_row_root w)) slot (Some (record_of_input inp))))) s = trie_get (Some (np_row_root old)) s"
      if "s < max_slot \<and> s \<notin> set (new_slots (pw_changes w) @ (if Some (record_of_input inp) = None then [] else [slot]))" for s
      using that set_slot(2) [of s] w by (auto simp: work_ok_def)
    show "trie_ok trie_top (Some (fst (trie_set (Some (pw_row_root w)) slot (Some (record_of_input inp)))))" by (rule set_slot(1) [OF take(2)])
  qed (use w in \<open>simp_all add: work_ok_def\<close>)
qed

lemma take_part_op_ok: "\<lbrakk>part_ok old; work_ok old xs w; take_part_op (np_row_dir old) po w = Inr w'\<rbrakk> \<Longrightarrow> work_ok old (xs @ [po]) w'"
  by (cases "po_input po") (auto intro: take_step_remove take_step_store)

lemma take_part_ops_ok:
  "\<lbrakk>part_ok old; work_ok old xs w; take_part_ops (np_row_dir old) pos w = Inr w'\<rbrakk> \<Longrightarrow> work_ok old (xs @ pos) w'"
proof (induction pos arbitrary: xs w)
  case (Cons po pos)
  from Cons.prems(3) obtain w1 where w1: "take_part_op (np_row_dir old) po w = Inr w1" "take_part_ops (np_row_dir old) pos w1 = Inr w'"
    by (auto split: sum.splits)
  show ?case using Cons.IH [OF Cons.prems(1) take_part_op_ok [OF Cons.prems(1,2) w1(1)] w1(2)] by simp
qed simp

end
