(* ===== verification/Part_Update.thy ===== *)
theory Part_Update
  imports Part_Rows
begin

text \<open>
  A batch as a whole on the rows of a partition: the row of every name is what the batch says of it, or what it was; and the
  partition stays well-formed, so that the next batch finds the same.
\<close>

definition input_ok :: "row_input \<Rightarrow> bool" where
  "input_ok i \<longleftrightarrow> length (ri_in_labels i) \<le> 2 * max_label_keys \<and> list_all (\<lambda>t. length t < 256) (ri_in_labels i)"

definition change_ok :: "part_op \<Rightarrow> bool" where
  "change_ok po \<longleftrightarrow> (case po_input po of None \<Rightarrow> True | Some i \<Rightarrow> input_ok i \<and> ri_in_name i = po_name po)"

lemma input_record_ok: "input_ok i \<Longrightarrow> record_ok (record_of_input i)"
proof -
  assume i: "input_ok i"
  have "each_label_token (Some (record_of_input i)) = ri_in_labels i"
    using label_blob_roundtrip [of "ri_in_labels i" "record_of_input i"] i
    by (auto simp: input_ok_def max_label_keys_def record_of_input_def list_all_iff)
  with i show ?thesis by (simp add: record_ok_def input_ok_def record_of_input_def)
qed

section \<open>The changes of a batch\<close>

lemma touched_of:
  assumes "list_all2 (touch_ok old) pos ts"
  shows "map td_name ts = map po_name pos"
    and "t \<in> set ts \<Longrightarrow> \<exists>po \<in> set pos. touch_ok old po t"
    and "distinct (map po_name pos) \<Longrightarrow> List.find (\<lambda>po. po_name po = name) pos = Some po
      \<Longrightarrow> \<exists>t \<in> set ts. touch_ok old po t"
  using assms by (induction pos ts rule: list_all2_induct) (auto simp: touch_ok_def split: if_splits)

lemma touch_ops_key: "p \<in> set (touch_row_ops t) \<Longrightarrow> op_key p = td_name t"
  by (auto simp: touch_row_ops_def row_store_def row_remove_def split: option.splits if_splits)

lemma touch_ops_single: "touch_row_ops t = [] \<or> (\<exists>p. touch_row_ops t = [p])"
  by (auto simp: touch_row_ops_def split: option.split)

lemma touch_ops_distinct: "distinct (map td_name ts) \<Longrightarrow> distinct (map op_key (concat (map touch_row_ops ts)))"
proof (induction ts)
  case (Cons t ts)
  have sub: "op_key p \<in> td_name ` set ts" if "p \<in> set (concat (map touch_row_ops ts))" for p
    using that by (auto dest: touch_ops_key)
  have "op_key p \<noteq> op_key q" if "p \<in> set (touch_row_ops t)" "q \<in> set (concat (map touch_row_ops ts))" for p q
    using touch_ops_key [OF that(1)] sub [OF that(2)] Cons.prems by auto
  then have "set (map op_key (touch_row_ops t)) \<inter> set (map op_key (concat (map touch_row_ops ts))) = {}"
    unfolding set_map by blast
  moreover have "distinct (map op_key (touch_row_ops t))" using touch_ops_single [of t] by auto
  moreover have "distinct (map op_key (concat (map touch_row_ops ts)))" using Cons by simp
  ultimately show ?case unfolding list.map concat.simps map_append distinct_append by blast
qed simp

lemma set_distinct_sorted:
  assumes "distinct (map op_key ops)"
  shows "set (sort_row_ops ops) = set ops" "sorted_keys op_key (sort_row_ops ops)"
proof -
  have "List.find (\<lambda>y. op_key y = op_key x) (rev ops) = Some x \<longleftrightarrow> x \<in> set ops" for x :: row_op
  proof
    assume x: "x \<in> set ops"
    have "inj_on op_key (set ops)" using assms by (simp add: distinct_map)
    with x show "List.find (\<lambda>y. op_key y = op_key x) (rev ops) = Some x" by (intro find_unique) (simp_all add: inj_on_def)
  next
    assume "List.find (\<lambda>y. op_key y = op_key x) (rev ops) = Some x"
    from find_Some_in [OF this] show "x \<in> set ops" by simp
  qed
  then show "set (sort_row_ops ops) = set ops" unfolding sort_row_ops_def set_eq_iff last_wins_sorted(3) by blast
  show "sorted_keys op_key (sort_row_ops ops)" by (simp add: sort_row_ops_def last_wins_sorted(1))
qed

text \<open>The item a change puts into the directory.\<close>

definition touch_item :: "touched \<Rightarrow> row_item" where
  "touch_item t = \<lparr>ri_name = td_name t, ri_slot = td_new_slot t, ri_weight = ucast (rr_weight (the (td_new_rec t)))\<rparr>"

lemma batch_row_ops:
  assumes "distinct (map td_name ts)"
  shows "ops_ok ri_name (sort_row_ops (concat (map touch_row_ops ts)))"
    and "{op_entry p |p. p \<in> set (sort_row_ops (concat (map touch_row_ops ts))) \<and> \<not> op_remove p}
      = touch_item ` {t \<in> set ts. td_new_rec t \<noteq> None}"
    and "op_key ` set (sort_row_ops (concat (map touch_row_ops ts))) = td_name ` {t \<in> set ts. td_new_rec t \<noteq> None \<or> td_had_row t}"
proof -
  note s = set_distinct_sorted [OF touch_ops_distinct [OF assms]]
  have store: "p \<in> set (touch_row_ops t) \<and> \<not> op_remove p \<longleftrightarrow> td_new_rec t \<noteq> None \<and> p = row_store (td_name t) (td_new_slot t) (ri_weight (touch_item t))" for p t
    by (cases "td_new_rec t") (auto simp: touch_row_ops_def touch_item_def row_store_def row_remove_def)
  show "ops_ok ri_name (sort_row_ops (concat (map touch_row_ops ts)))"
    unfolding ops_ok_def s(1) using s(2) by (auto dest!: conjI [THEN store [THEN iffD1]] simp: row_store_def)
  show "{op_entry p |p. p \<in> set (sort_row_ops (concat (map touch_row_ops ts))) \<and> \<not> op_remove p}
      = touch_item ` {t \<in> set ts. td_new_rec t \<noteq> None}" (is "?A = ?B")
  proof
    show "?A \<subseteq> ?B"
    proof
      fix x assume "x \<in> ?A"
      then obtain p t where p: "x = op_entry p" "t \<in> set ts" "p \<in> set (touch_row_ops t)" "\<not> op_remove p" unfolding s(1) by auto
      with store [of p t] have "td_new_rec t \<noteq> None" "x = touch_item t" by (auto simp: row_store_def touch_item_def)
      with p(2) show "x \<in> ?B" by blast
    qed
    show "?B \<subseteq> ?A"
    proof
      fix x assume "x \<in> ?B"
      then obtain t where t: "t \<in> set ts" "td_new_rec t \<noteq> None" "x = touch_item t" by auto
      let ?p = "row_store (td_name t) (td_new_slot t) (ri_weight (touch_item t))"
      have "?p \<in> set (touch_row_ops t)" "\<not> op_remove ?p" "op_entry ?p = x"
        using store [of ?p t] t by (auto simp: row_store_def touch_item_def)
      with t(1) show "x \<in> ?A" unfolding s(1) by auto
    qed
  qed
  have "op_key ` set (touch_row_ops t) = (if td_new_rec t \<noteq> None \<or> td_had_row t then {td_name t} else {})" for t
    by (cases "td_new_rec t") (auto simp: touch_row_ops_def row_store_def row_remove_def)
  then show "op_key ` set (sort_row_ops (concat (map touch_row_ops ts))) = td_name ` {t \<in> set ts. td_new_rec t \<noteq> None \<or> td_had_row t}"
    unfolding s(1) set_concat set_map image_UN by (auto split: if_splits)
qed

section \<open>The directory after a batch\<close>

definition new_dir :: "ns_part \<Rightarrow> part_work \<Rightarrow> row_node" where
  "new_dir old w = (let r = row_apply (np_row_dir old) (sort_row_ops (pw_row_ops w)) no_stats in fst (balance_row_root (fst r) (snd r)))"

lemma finish_dir: "np_row_dir (fst (finish_part old namespaced now caps w)) = new_dir old w"
  by (simp add: finish_part_def new_dir_def Let_def)

lemma work_changes:
  assumes "work_ok old pos w"
  shows "map td_name (pw_changes w) = map po_name pos"
    and "t \<in> set (pw_changes w) \<Longrightarrow> \<exists>po \<in> set pos. touch_ok old po t"
    and "pw_row_ops w = concat (map touch_row_ops (pw_changes w))"
proof -
  have c: "list_all2 (touch_ok old) pos (pw_changes w)" and r: "pw_row_ops w = concat (map touch_row_ops (pw_changes w))"
    using assms by (simp_all add: work_ok_def)
  show "map td_name (pw_changes w) = map po_name pos" by (rule touched_of(1) [OF c])
  show "t \<in> set (pw_changes w) \<Longrightarrow> \<exists>po \<in> set pos. touch_ok old po t" by (rule touched_of(2) [OF c])
  show "pw_row_ops w = concat (map touch_row_ops (pw_changes w))" by (rule r)
qed

lemma touched_row:
  assumes "part_ok old" "touch_ok old po t"
  shows "td_had_row t \<longleftrightarrow> td_name t \<in> ri_name ` set (part_items old)"
    and "x \<in> set (part_items old) \<Longrightarrow> ri_name x = td_name t \<Longrightarrow> td_old_slot t = ri_slot x"
proof -
  have n: "td_name t = po_name po" and h: "td_had_row t = (row_find (np_row_dir old) (po_name po) \<noteq> None)"
    and s: "\<And>s w. row_find (np_row_dir old) (po_name po) = Some (s, w) \<Longrightarrow> td_old_slot t = s"
    using assms(2) by (auto simp: touch_ok_def)
  have "row_find (np_row_dir old) (po_name po) \<noteq> None \<longleftrightarrow> po_name po \<in> ri_name ` set (part_items old)"
  proof (cases "po_name po \<in> ri_name ` set (part_items old)")
    case True
    then obtain x where x: "x \<in> set (part_items old)" "po_name po = ri_name x" by (rule imageE)
    show ?thesis using True part_row_item(2) [OF assms(1) x(1)] by (simp add: x(2))
  next
    case False
    show ?thesis using False part_row_none(2) [OF assms(1) False] by simp
  qed
  then show "td_had_row t \<longleftrightarrow> td_name t \<in> ri_name ` set (part_items old)" by (simp add: n h)
  show "x \<in> set (part_items old) \<Longrightarrow> ri_name x = td_name t \<Longrightarrow> td_old_slot t = ri_slot x"
    using part_row_item(2) [OF assms(1), of x] s n by simp
qed

lemma new_dir_ok:
  assumes ok: "part_ok old" and w: "work_ok old pos w" and d: "distinct (map po_name pos)"
    and u: "unsplit (tree_fences (np_row_dir old)) (sort_row_ops (pw_row_ops w))"
  shows "tree_ok row_ops (new_dir old w)"
    and "set (flat row_ops (new_dir old w)) = {x \<in> set (part_items old). ri_name x \<notin> po_name ` set pos}
      \<union> touch_item ` {t \<in> set (pw_changes w). td_new_rec t \<noteq> None}"
proof -
  let ?ops = "sort_row_ops (pw_row_ops w)"
  obtain t1 st1 where r: "row_apply (np_row_dir old) ?ops no_stats = (t1, st1)" by (rule prod.exhaust)
  obtain t2 st2 where b: "balance_row_root t1 st1 = (t2, st2)" by (rule prod.exhaust)
  have dn: "distinct (map td_name (pw_changes w))" using d by (simp add: work_changes(1) [OF w])
  note ops = batch_row_ops [OF dn, folded work_changes(3) [OF w]]
  have o: "ops_ok (to_key row_ops) ?ops" using ops(1) by (simp add: row_items)
  note m = rows.apply_tree_shape [OF part_okD(1) [OF ok] o u r [unfolded row_apply_def]]
  note bal = balance_root_ok [of row_ops t1 st1 t2 st2, folded balance_row_root_def, OF _ b]
  have t2: "new_dir old w = t2" by (simp add: new_dir_def Let_def r b)
  show "tree_ok row_ops (new_dir old w)" using m bal t2 by simp
  have "flat row_ops t2 = merge_ops ri_name (part_items old) ?ops" using m bal by (simp add: row_items)
  then have "set (flat row_ops t2) = {x \<in> set (part_items old). \<forall>p \<in> set ?ops. op_key p \<noteq> ri_name x}
      \<union> touch_item ` {t \<in> set (pw_changes w). td_new_rec t \<noteq> None}"
    using set_merge [OF part_okD(6) [OF ok] ops(1)] ops(2) by simp
  moreover have key: "(\<forall>p \<in> set ?ops. op_key p \<noteq> ri_name x) \<longleftrightarrow> ri_name x \<notin> po_name ` set pos" if x: "x \<in> set (part_items old)" for x
  proof -
    have "ri_name x \<in> op_key ` set ?ops \<longleftrightarrow> ri_name x \<in> td_name ` set (pw_changes w)"
    proof
      assume "ri_name x \<in> td_name ` set (pw_changes w)"
      then obtain t where t: "t \<in> set (pw_changes w)" "ri_name x = td_name t" by (rule imageE)
      then have "td_had_row t" using work_changes(2) [OF w t(1)] touched_row(1) [OF ok] x by (metis imageI)
      with t show "ri_name x \<in> op_key ` set ?ops" unfolding ops(3) by blast
    qed (auto simp: ops(3))
    moreover have "td_name ` set (pw_changes w) = po_name ` set pos" using arg_cong [OF work_changes(1) [OF w], of set] by simp
    ultimately show ?thesis by (metis imageE imageI)
  qed
  ultimately show "set (flat row_ops (new_dir old w)) = {x \<in> set (part_items old). ri_name x \<notin> po_name ` set pos}
      \<union> touch_item ` {t \<in> set (pw_changes w). td_new_rec t \<noteq> None}"
    unfolding t2 using key by (simp cong: conj_cong)
qed

section \<open>Slots after a batch\<close>

lemma freed_slots_are:
  assumes ok: "part_ok old" and w: "work_ok old pos w" and d: "distinct (map po_name pos)"
  shows "set (freed_slots (pw_changes w)) = ri_slot ` {x \<in> set (part_items old). ri_name x \<in> po_name ` set pos}"
    and "distinct (freed_slots (pw_changes w))"
proof -
  have names: "td_name ` set (pw_changes w) = po_name ` set pos" using arg_cong [OF work_changes(1) [OF w], of set] by simp
  have had: "\<exists>x \<in> set (part_items old). ri_name x = td_name t \<and> td_old_slot t = ri_slot x"
    if t: "t \<in> set (pw_changes w)" "td_had_row t" for t
  proof -
    obtain po where po: "touch_ok old po t" using work_changes(2) [OF w t(1)] by blast
    then obtain x where x: "x \<in> set (part_items old)" "td_name t = ri_name x" using touched_row(1) [OF ok po] t(2) by (metis imageE)
    then show ?thesis using touched_row(2) [OF ok po x(1)] by auto
  qed
  show "set (freed_slots (pw_changes w)) = ri_slot ` {x \<in> set (part_items old). ri_name x \<in> po_name ` set pos}" (is "?A = ?B")
  proof
    show "?A \<subseteq> ?B"
    proof
      fix s assume "s \<in> ?A"
      then obtain t where t: "t \<in> set (pw_changes w)" "td_had_row t" "s = td_old_slot t" by (auto simp: freed_slots_def)
      obtain x where "x \<in> set (part_items old)" "ri_name x = td_name t" "td_old_slot t = ri_slot x" using had [OF t(1,2)] by blast
      moreover have "td_name t \<in> po_name ` set pos" unfolding names [symmetric] using t(1) by (rule imageI)
      ultimately show "s \<in> ?B" unfolding t(3) by auto
    qed
    show "?B \<subseteq> ?A"
    proof
      fix s assume "s \<in> ?B"
      then obtain x where x: "x \<in> set (part_items old)" "ri_name x \<in> td_name ` set (pw_changes w)" "s = ri_slot x" unfolding names by auto
      then obtain t where t: "t \<in> set (pw_changes w)" "ri_name x = td_name t" by (metis imageE)
      obtain po where po: "touch_ok old po t" using work_changes(2) [OF w t(1)] by blast
      have "td_had_row t" "td_old_slot t = ri_slot x" using touched_row [OF ok po] x(1) t(2) by (metis imageI)+
      with t(1) x(3) show "s \<in> ?A" unfolding freed_slots_def by (auto intro: image_eqI [of _ _ t])
    qed
  qed
  have slots: "distinct (map ri_slot (part_items old))" using part_okD(4) [OF ok] by (simp add: slots_ok_def)
  have dn: "distinct (map td_name (pw_changes w))" using d by (simp add: work_changes(1) [OF w])
  have "inj_on td_old_slot {t \<in> set (pw_changes w). td_had_row t}"
  proof (rule inj_onI)
    fix t u assume t: "t \<in> {t \<in> set (pw_changes w). td_had_row t}" "u \<in> {t \<in> set (pw_changes w). td_had_row t}" "td_old_slot t = td_old_slot u"
    obtain x where x: "x \<in> set (part_items old)" "ri_name x = td_name t" "td_old_slot t = ri_slot x" using had [of t] t(1) by blast
    obtain y where y: "y \<in> set (part_items old)" "ri_name y = td_name u" "td_old_slot u = ri_slot y" using had [of u] t(2) by blast
    have "x = y" using slots x(1,3) y(1,3) t(3) by (simp add: distinct_map inj_on_def)
    then have "td_name t = td_name u" using x(2) y(2) by simp
    then show "t = u" using dn t(1,2) by (simp add: distinct_map inj_on_def)
  qed
  then show "distinct (freed_slots (pw_changes w))"
    using dn by (simp add: freed_slots_def distinct_map)
qed

lemma new_dir_slots:
  assumes ok: "part_ok old" and w: "work_ok old pos w" and d: "distinct (map po_name pos)"
    and u: "unsplit (tree_fences (np_row_dir old)) (sort_row_ops (pw_row_ops w))"
  shows "mset (map ri_slot (flat row_ops (new_dir old w)) @ freed_slots (pw_changes w))
    = mset (map ri_slot (part_items old) @ new_slots (pw_changes w))"
proof -
  note items = new_dir_ok(2) [OF ok w d u]
  note freed = freed_slots_are [OF ok w d]
  let ?new = "flat row_ops (new_dir old w)"
  have sl: "slots_ok (map ri_slot (part_items old) @ new_slots (pw_changes w)) (fs_top (pw_free w)) (pw_slot_high w)"
    using w by (simp add: work_ok_def)
  then have dist: "distinct (map ri_slot (part_items old) @ new_slots (pw_changes w))" by (auto simp: slots_ok_def)
  have srt: "sorted_keys ri_name ?new"
    using new_dir_ok(1) [OF ok w d u] ordered_flat [of row_ops None None "new_dir old w"] by (simp add: tree_ok_def row_items)
  have "distinct (map ri_name ?new)" using srt by (simp add: strict_sorted_iff)
  then have "distinct ?new" by (simp add: distinct_map)
  have new: "ri_slot ` touch_item ` {t \<in> set (pw_changes w). td_new_rec t \<noteq> None} = set (new_slots (pw_changes w))"
    by (simp add: new_slots_def image_image touch_item_def)
  have injo: "inj_on ri_slot (set (part_items old))" using dist by (simp add: distinct_map)
  have injn: "inj_on td_new_slot {t \<in> set (pw_changes w). td_new_rec t \<noteq> None}"
    using dist by (simp add: new_slots_def distinct_map)
  have disj: "ri_slot ` set (part_items old) \<inter> set (new_slots (pw_changes w)) = {}" using dist by simp
  have inj: "inj_on ri_slot (set ?new)"
    unfolding items
  proof (rule inj_onI)
    fix a b
    assume a: "a \<in> {x \<in> set (part_items old). ri_name x \<notin> po_name ` set pos} \<union> touch_item ` {t \<in> set (pw_changes w). td_new_rec t \<noteq> None}"
      and b: "b \<in> {x \<in> set (part_items old). ri_name x \<notin> po_name ` set pos} \<union> touch_item ` {t \<in> set (pw_changes w). td_new_rec t \<noteq> None}"
      and e: "ri_slot a = ri_slot b"
    consider "a \<in> set (part_items old)" "b \<in> set (part_items old)"
      | "a \<in> touch_item ` {t \<in> set (pw_changes w). td_new_rec t \<noteq> None}" "b \<in> touch_item ` {t \<in> set (pw_changes w). td_new_rec t \<noteq> None}"
      | "a \<in> set (part_items old)" "b \<in> touch_item ` {t \<in> set (pw_changes w). td_new_rec t \<noteq> None}"
      | "b \<in> set (part_items old)" "a \<in> touch_item ` {t \<in> set (pw_changes w). td_new_rec t \<noteq> None}"
      using a b by blast
    then show "a = b"
    proof cases
      case 1
      then show ?thesis using injo e by (simp add: inj_on_def)
    next
      case 2
      then obtain t v where t: "t \<in> {t \<in> set (pw_changes w). td_new_rec t \<noteq> None}" "a = touch_item t"
        "v \<in> {t \<in> set (pw_changes w). td_new_rec t \<noteq> None}" "b = touch_item v" by blast
      then have "td_new_slot t = td_new_slot v" using e by (simp add: touch_item_def)
      then show ?thesis using t inj_onD [OF injn _ t(1,3)] by simp
    next
      case 3
      then have "ri_slot a \<in> ri_slot ` set (part_items old)" "ri_slot b \<in> set (new_slots (pw_changes w))" unfolding new [symmetric] by blast+
      with disj e show ?thesis by auto
    next
      case 4
      then have "ri_slot b \<in> ri_slot ` set (part_items old)" "ri_slot a \<in> set (new_slots (pw_changes w))" unfolding new [symmetric] by blast+
      with disj e show ?thesis by auto
    qed
  qed
  have kept: "ri_slot ` {x \<in> set (part_items old). ri_name x \<notin> po_name ` set pos} \<inter> set (freed_slots (pw_changes w)) = {}"
    unfolding freed(1) using injo by (auto simp: inj_on_def)
  have slots: "set (map ri_slot ?new) = ri_slot ` {x \<in> set (part_items old). ri_name x \<notin> po_name ` set pos} \<union> set (new_slots (pw_changes w))"
    using new by (simp add: items image_Un)
  have "set (freed_slots (pw_changes w)) \<subseteq> ri_slot ` set (part_items old)" unfolding freed(1) by blast
  then have "set (map ri_slot ?new) \<inter> set (freed_slots (pw_changes w)) = {}" unfolding slots using kept disj by blast
  then have "distinct (map ri_slot ?new @ freed_slots (pw_changes w))" using inj \<open>distinct ?new\<close> freed(2) by (simp add: distinct_map)
  moreover have "set (map ri_slot ?new @ freed_slots (pw_changes w)) = set (map ri_slot (part_items old) @ new_slots (pw_changes w))"
    unfolding set_append slots freed(1) by auto
  ultimately show ?thesis using dist set_eq_iff_mset_eq_distinct by blast
qed

section \<open>Rows after a batch\<close>

lemma clear_slots_ok:
  assumes "trie_ok trie_top (Some (fst rt))" "\<forall>s \<in> set ss. s < max_slot"
  shows "trie_ok trie_top (Some (fst (fold clear_slot ss rt)))"
    and "s < max_slot \<Longrightarrow> trie_get (Some (fst (fold clear_slot ss rt))) s = (if s \<in> set ss then None else trie_get (Some (fst rt)) s)"
  using assms
proof (induction ss arbitrary: rt)
  case (Cons a ss)
  {
    case 1
    have "trie_ok trie_top (Some (fst (clear_slot a rt)))"
      using trie_set_lookup(1) [OF 1(1), of a a] 1(2) by (simp add: clear_slot_def Let_def)
    with Cons.IH(1) 1(2) show ?case by simp
  next
    case 2
    have a: "a < max_slot" using 2(3) by simp
    have t: "trie_ok trie_top (Some (fst (clear_slot a rt)))"
      using trie_set_lookup(1) [OF 2(2) a a] by (simp add: clear_slot_def Let_def)
    have "trie_get (Some (fst (clear_slot a rt))) s = (if s = a then None else trie_get (Some (fst rt)) s)"
      using trie_set_lookup(2) [OF 2(2) a 2(1)] by (simp add: clear_slot_def Let_def)
    with Cons.IH(2) [OF 2(1) t] 2(3) show ?case by auto
  }
qed simp_all

definition new_trie :: "part_work \<Rightarrow> trie_branch" where
  "new_trie w = fst (fold clear_slot (freed_slots (pw_changes w)) (pw_row_root w, 0))"

lemma finish_trie: "np_row_root (fst (finish_part old namespaced now caps w)) = new_trie w"
  by (simp add: finish_part_def new_trie_def Let_def)

lemma work_slots:
  assumes "work_ok old pos w"
  shows "s \<in> set (map ri_slot (part_items old)) \<union> set (new_slots (pw_changes w)) \<Longrightarrow> s < max_slot"
    and "ri_slot ` set (part_items old) \<inter> set (new_slots (pw_changes w)) = {}"
proof -
  have sl: "slots_ok (map ri_slot (part_items old) @ new_slots (pw_changes w)) (fs_top (pw_free w)) (pw_slot_high w)"
    using assms by (simp add: work_ok_def)
  then show "ri_slot ` set (part_items old) \<inter> set (new_slots (pw_changes w)) = {}" by (auto simp: slots_ok_def)
  assume "s \<in> set (map ri_slot (part_items old)) \<union> set (new_slots (pw_changes w))"
  then have "s \<in> {s. s < pw_slot_high w}" using sl unfolding slots_ok_def by (metis UnI1 set_append)
  then show "s < max_slot" using sl unfolding slots_ok_def by (meson less_le_trans mem_Collect_eq)
qed

lemma new_trie_get:
  assumes ok: "part_ok old" and w: "work_ok old pos w" and d: "distinct (map po_name pos)"
  shows "trie_ok trie_top (Some (new_trie w))"
    and "x \<in> set (part_items old) \<Longrightarrow> ri_name x \<notin> po_name ` set pos \<Longrightarrow> trie_get (Some (new_trie w)) (ri_slot x) = trie_get (Some (np_row_root old)) (ri_slot x)"
    and "t \<in> set (pw_changes w) \<Longrightarrow> td_new_rec t \<noteq> None \<Longrightarrow> trie_get (Some (new_trie w)) (td_new_slot t) = td_new_rec t"
proof -
  note freed = freed_slots_are [OF ok w d]
  have tr: "trie_ok trie_top (Some (fst (pw_row_root w, 0 :: int)))" using w by (simp add: work_ok_def)
  have small: "\<forall>s \<in> set (freed_slots (pw_changes w)). s < max_slot" using work_slots(1) [OF w] unfolding freed(1) by auto
  note clear = clear_slots_ok [OF tr small, folded new_trie_def]
  show "trie_ok trie_top (Some (new_trie w))" by (rule clear(1))
  show "trie_get (Some (new_trie w)) (ri_slot x) = trie_get (Some (np_row_root old)) (ri_slot x)"
    if x: "x \<in> set (part_items old)" "ri_name x \<notin> po_name ` set pos"
  proof -
    have lt: "ri_slot x < max_slot" using work_slots(1) [OF w] x(1) by auto
    have inj: "inj_on ri_slot (set (part_items old))" using part_okD(4) [OF ok] by (simp add: slots_ok_def distinct_map)
    have "ri_slot x \<notin> set (freed_slots (pw_changes w))"
    proof
      assume "ri_slot x \<in> set (freed_slots (pw_changes w))"
      then obtain y where y: "y \<in> set (part_items old)" "ri_name y \<in> po_name ` set pos" "ri_slot x = ri_slot y" unfolding freed(1) by blast
      then show False using inj_onD [OF inj y(3) x(1) y(1)] x(2) by simp
    qed
    moreover have "ri_slot x \<notin> set (new_slots (pw_changes w))" using work_slots(2) [OF w] x(1) by blast
    ultimately show ?thesis using clear(2) [OF lt] w lt by (simp add: work_ok_def)
  qed
  show "trie_get (Some (new_trie w)) (td_new_slot t) = td_new_rec t" if t: "t \<in> set (pw_changes w)" "td_new_rec t \<noteq> None"
  proof -
    have m: "td_new_slot t \<in> set (new_slots (pw_changes w))" using t by (auto simp: new_slots_def)
    then have "td_new_slot t < max_slot" using work_slots(1) [OF w] by blast
    moreover have "td_new_slot t \<notin> set (freed_slots (pw_changes w))" using work_slots(2) [OF w] m unfolding freed(1) by blast
    ultimately show ?thesis using clear(2) w t by (simp add: work_ok_def)
  qed
qed

lemma new_item_cases:
  assumes ok: "part_ok old" and w: "work_ok old pos w" and d: "distinct (map po_name pos)"
    and u: "unsplit (tree_fences (np_row_dir old)) (sort_row_ops (pw_row_ops w))" and x: "x \<in> set (flat row_ops (new_dir old w))"
  obtains (kept) "x \<in> set (part_items old)" "ri_name x \<notin> po_name ` set pos"
      "trie_get (Some (new_trie w)) (ri_slot x) = trie_get (Some (np_row_root old)) (ri_slot x)"
    | (stored) po inp where "po \<in> set pos" "po_name po = ri_name x" "po_input po = Some inp"
      "trie_get (Some (new_trie w)) (ri_slot x) = Some (record_of_input inp)" "ri_weight x = ucast (rr_weight (record_of_input inp))"
proof -
  from x consider "x \<in> set (part_items old)" "ri_name x \<notin> po_name ` set pos"
    | t where "t \<in> set (pw_changes w)" "td_new_rec t \<noteq> None" "x = touch_item t"
    unfolding new_dir_ok(2) [OF ok w d u] by blast
  then show thesis
  proof cases
    case 1
    with new_trie_get(2) [OF ok w d] kept show thesis by blast
  next
    case 2
    obtain po where po: "po \<in> set pos" "touch_ok old po t" using work_changes(2) [OF w 2(1)] by blast
    with 2(2) obtain inp where i: "po_input po = Some inp" "td_new_rec t = Some (record_of_input inp)" by (auto simp: touch_ok_def)
    show thesis
      by (rule stored [OF po(1) _ i(1)])
        (use po(2) i 2 new_trie_get(3) [OF ok w d 2(1,2)] in \<open>simp_all add: touch_ok_def touch_item_def\<close>)
  qed
qed

lemma new_item_of:
  assumes ok: "part_ok old" and w: "work_ok old pos w" and d: "distinct (map po_name pos)"
    and u: "unsplit (tree_fences (np_row_dir old)) (sort_row_ops (pw_row_ops w))"
  shows "x \<in> set (part_items old) \<Longrightarrow> ri_name x \<notin> po_name ` set pos \<Longrightarrow> x \<in> set (flat row_ops (new_dir old w))"
    and "po \<in> set pos \<Longrightarrow> po_input po \<noteq> None \<Longrightarrow> po_name po \<in> ri_name ` set (flat row_ops (new_dir old w))"
proof -
  note items = new_dir_ok(2) [OF ok w d u]
  show "x \<in> set (part_items old) \<Longrightarrow> ri_name x \<notin> po_name ` set pos \<Longrightarrow> x \<in> set (flat row_ops (new_dir old w))" by (simp add: items)
  assume po: "po \<in> set pos" "po_input po \<noteq> None"
  have c: "list_all2 (touch_ok old) pos (pw_changes w)" using w by (simp add: work_ok_def)
  obtain t where t: "t \<in> set (pw_changes w)" "touch_ok old po t" using list_all2_nthD [OF c] list_all2_lengthD [OF c] po(1)
    by (metis in_set_conv_nth)
  have n: "td_new_rec t \<noteq> None" "td_name t = po_name po" using t(2) po(2) by (auto simp: touch_ok_def)
  have "touch_item t \<in> set (flat row_ops (new_dir old w))" unfolding items using t(1) n(1) by blast
  moreover have "ri_name (touch_item t) = po_name po" by (simp add: touch_item_def n(2))
  ultimately show "po_name po \<in> ri_name ` set (flat row_ops (new_dir old w))" by (metis imageI)
qed

section \<open>The partition after a batch\<close>

lemma sum_over_names:
  fixes g :: "'b option \<Rightarrow> int"
  assumes "sorted_keys ri_name xs" "g None = 0" "ri_name ` set xs \<subseteq> N" "finite N" "\<And>n. n \<in> N \<Longrightarrow> n \<notin> ri_name ` set xs \<Longrightarrow> f n = None"
  shows "(\<Sum>x \<leftarrow> xs. g (f (ri_name x))) = (\<Sum>n \<in> N. g (f n))"
proof -
  have d: "distinct (map ri_name xs)" using assms(1) by (simp add: strict_sorted_iff)
  have "(\<Sum>x \<leftarrow> xs. g (f (ri_name x))) = (\<Sum>n \<leftarrow> map ri_name xs. g (f n))" by (simp add: o_def)
  also have "\<dots> = (\<Sum>n \<in> ri_name ` set xs. g (f n))" using sum_list_distinct_conv_sum_set [OF d, of "\<lambda>n. g (f n)"] by simp
  also have "\<dots> = (\<Sum>n \<in> N. g (f n))"
    by (rule sum.mono_neutral_left) (use assms in auto)
  finally show ?thesis .
qed

lemma part_row_def_dir:
  assumes "tree_ok row_ops (np_row_dir p)"
  shows "x \<in> set (part_items p) \<Longrightarrow> part_row p (ri_name x) = trie_get (Some (np_row_root p)) (ri_slot x)"
    and "name \<notin> ri_name ` set (part_items p) \<Longrightarrow> part_row p name = None"
proof -
  have o: "ordered row_ops None None (np_row_dir p)" "sorted_keys ri_name (part_items p)"
    using assms ordered_flat [of row_ops None None "np_row_dir p"] by (auto simp: tree_ok_def row_items)
  note f = row_find_flat [OF o(1)]
  show "x \<in> set (part_items p) \<Longrightarrow> part_row p (ri_name x) = trie_get (Some (np_row_root p)) (ri_slot x)"
    using find_eq_unique [OF o(2) _ refl] by (simp add: part_row_def f)
  assume "name \<notin> ri_name ` set (part_items p)"
  then have "List.find (\<lambda>x. ri_name x = name) (part_items p) = None" by (auto simp: find_None_iff)
  then show "part_row p name = None" by (simp add: part_row_def f)
qed

text \<open>What a list of changes says of a name.\<close>

definition rows_after :: "part_op list \<Rightarrow> (string \<Rightarrow> row_record option) \<Rightarrow> string \<Rightarrow> row_record option" where
  "rows_after pos rows name = (case List.find (\<lambda>po. po_name po = name) pos of
     None \<Rightarrow> rows name | Some po \<Rightarrow> map_option record_of_input (po_input po))"

lemma find_po:
  assumes "distinct (map po_name pos)" "po \<in> set pos"
  shows "List.find (\<lambda>q. po_name q = po_name po) pos = Some po"
  using assms by (intro find_unique) (auto simp: distinct_map inj_on_def)

lemma find_no_po: "name \<notin> po_name ` set pos \<Longrightarrow> List.find (\<lambda>q. po_name q = name) pos = None"
  by (auto simp: find_None_iff)

lemma finish_part_row:
  assumes ok: "part_ok old" and w: "work_ok old pos w" and d: "distinct (map po_name pos)"
    and u: "unsplit (tree_fences (np_row_dir old)) (sort_row_ops (pw_row_ops w))"
    and p: "np_row_dir p = new_dir old w" "np_row_root p = new_trie w"
  shows "part_row p name = rows_after pos (part_row old) name"
proof (cases "name \<in> ri_name ` set (part_items p)")
  case True
  then obtain x where x: "x \<in> set (part_items p)" "name = ri_name x" by (rule imageE)
  have get: "part_row p name = trie_get (Some (new_trie w)) (ri_slot x)"
    using part_row_def_dir(1) [of p x] new_dir_ok(1) [OF ok w d u] x by (simp add: p)
  have m: "x \<in> set (flat row_ops (new_dir old w))" using x(1) by (simp add: p)
  show ?thesis
  proof (cases rule: new_item_cases [OF ok w d u m, case_names kept stored])
    case kept
    then show ?thesis using get part_row_item(1) [OF ok kept(1)] x(2) by (simp add: rows_after_def find_no_po)
  next
    case (stored po inp)
    then show ?thesis using get find_po [OF d stored(1)] x(2) by (simp add: rows_after_def)
  qed
next
  case False
  have none: "part_row p name = None" using part_row_def_dir(2) [of p] new_dir_ok(1) [OF ok w d u] False by (simp add: p)
  show ?thesis
  proof (cases "name \<in> po_name ` set pos")
    case True
    then obtain po where po: "po \<in> set pos" "name = po_name po" by (rule imageE)
    have "po_input po = None" using new_item_of(2) [OF ok w d u po(1)] False po(2) by (auto simp: p)
    then show ?thesis using none find_po [OF d po(1)] po(2) by (simp add: rows_after_def)
  next
    case out: False
    have "name \<notin> ri_name ` set (part_items old)"
    proof
      assume "name \<in> ri_name ` set (part_items old)"
      then obtain x where x: "x \<in> set (part_items old)" "name = ri_name x" by (rule imageE)
      from new_item_of(1) [OF ok w d u x(1)] out x(2) False show False by (simp add: p)
    qed
    with none out part_row_none(1) [OF ok] show ?thesis by (simp add: rows_after_def find_no_po)
  qed
qed

lemma counters_follow:
  assumes ok: "part_ok old" and w: "work_ok old pos w" and d: "distinct (map po_name pos)"
    and u: "unsplit (tree_fences (np_row_dir old)) (sort_row_ops (pw_row_ops w))"
    and p: "np_row_dir p = new_dir old w" "np_row_root p = new_trie w" and g: "g None = 0"
  shows "(\<Sum>x \<leftarrow> part_items p. g (part_row p (ri_name x))) = (\<Sum>x \<leftarrow> part_items old. g (part_row old (ri_name x))) + gained g (pw_changes w)"
proof -
  let ?P = "po_name ` set pos"
  define N where "N = ri_name ` set (part_items p) \<union> ri_name ` set (part_items old) \<union> ?P"
  have fin: "finite N" by (simp add: N_def)
  have sub: "ri_name ` set (part_items p) \<subseteq> N" "ri_name ` set (part_items old) \<subseteq> N" by (auto simp: N_def)
  have t: "tree_ok row_ops (np_row_dir p)" using new_dir_ok(1) [OF ok w d u] by (simp add: p)
  then have "sorted_keys ri_name (part_items p)" using ordered_flat [of row_ops None None "np_row_dir p"] by (auto simp: tree_ok_def row_items)
  from sum_over_names [where g = g and f = "part_row p" and N = N, OF this g sub(1) fin] part_row_def_dir(2) [OF t]
  have new: "(\<Sum>x \<leftarrow> part_items p. g (part_row p (ri_name x))) = (\<Sum>n \<in> N. g (part_row p n))" by blast
  from sum_over_names [where g = g and f = "part_row old" and N = N, OF part_okD(6) [OF ok] g sub(2) fin] part_row_none(1) [OF ok]
  have old: "(\<Sum>x \<leftarrow> part_items old. g (part_row old (ri_name x))) = (\<Sum>n \<in> N. g (part_row old n))" by blast
  have row: "part_row p n = rows_after pos (part_row old) n" for n by (rule finish_part_row [OF ok w d u p])
  have "(\<Sum>n \<in> N. g (part_row p n)) - (\<Sum>n \<in> N. g (part_row old n)) = (\<Sum>n \<in> N. g (part_row p n) - g (part_row old n))"
    by (simp add: sum_subtractf)
  also have "\<dots> = (\<Sum>n \<in> ?P. g (part_row p n) - g (part_row old n))"
    by (rule sum.mono_neutral_right) (auto simp: fin N_def row rows_after_def find_no_po)
  also have "\<dots> = (\<Sum>n \<leftarrow> map td_name (pw_changes w). g (part_row p n) - g (part_row old n))"
    unfolding work_changes(1) [OF w] by (rule sum_list_distinct_conv_sum_set [OF d, unfolded set_map, symmetric])
  also have "\<dots> = gained g (pw_changes w)"
    unfolding gained_def map_map
  proof (rule arg_cong [where f = sum_list], rule map_cong [OF refl])
    fix t assume "t \<in> set (pw_changes w)"
    then obtain po where po: "po \<in> set pos" "touch_ok old po t" using work_changes(2) [OF w] by blast
    then show "((\<lambda>n. g (part_row p n) - g (part_row old n)) \<circ> td_name) t = g (td_new_rec t) - g (td_old_rec t)"
      using find_po [OF d po(1)] by (simp add: row rows_after_def touch_ok_def)
  qed
  finally show ?thesis unfolding new old by simp
qed

lemma slots_published:
  assumes ok: "part_ok old" and w: "work_ok old pos w" and d: "distinct (map po_name pos)"
    and u: "unsplit (tree_fences (np_row_dir old)) (sort_row_ops (pw_row_ops w))"
  shows "slots_ok (map ri_slot (flat row_ops (new_dir old w))) (fst (publish_free (pw_free w) (freed_slots (pw_changes w)))) (pw_slot_high w)"
proof -
  let ?used = "map ri_slot (flat row_ops (new_dir old w))" and ?freed = "freed_slots (pw_changes w)" and ?top = "fs_top (pw_free w)"
  have sl: "slots_ok (map ri_slot (part_items old) @ new_slots (pw_changes w)) ?top (pw_slot_high w)"
    using w by (simp add: work_ok_def)
  then have c: "chain_ok ?top" by (simp add: slots_ok_def)
  note push = push_nodes_ok [OF c, of ?freed "fs_copied (pw_free w)", folded publish_free_def]
  have m: "mset (?used @ free_slots (fst (publish_free (pw_free w) ?freed)))
      = mset ((map ri_slot (part_items old) @ new_slots (pw_changes w)) @ free_slots ?top)"
    using new_dir_slots [OF ok w d u] push by (simp add: add.assoc [symmetric])
  have "distinct ((map ri_slot (part_items old) @ new_slots (pw_changes w)) @ free_slots ?top)"
    "set ((map ri_slot (part_items old) @ new_slots (pw_changes w)) @ free_slots ?top) = {s. s < pw_slot_high w}"
    "pw_slot_high w \<le> max_slot" using sl unfolding slots_ok_def by blast+
  then show ?thesis
    using push mset_eq_imp_distinct_iff [OF m] mset_eq_setD [OF m] by (simp add: slots_ok_def)
qed

lemma finish_rows_ok:
  assumes ok: "part_ok old" and w: "work_ok old pos w" and d: "distinct (map po_name pos)" and inp: "list_all change_ok pos"
    and u: "unsplit (tree_fences (np_row_dir old)) (sort_row_ops (pw_row_ops w))"
  shows "part_ok (fst (finish_part old namespaced now caps w))"
proof -
  define p where "p = fst (finish_part old namespaced now caps w)"
  have dir: "np_row_dir p = new_dir old w" and tr: "np_row_root p = new_trie w"
    by (simp_all only: p_def finish_dir finish_trie)
  note ok' = new_dir_ok(1) [OF ok w d u]
  have kept: "row_kept (new_trie w) x" if x: "x \<in> set (flat row_ops (new_dir old w))" for x
  proof (cases rule: new_item_cases [OF ok w d u x, case_names kept stored])
    case kept
    then show ?thesis using part_okD(3) [OF ok kept(1)] by (simp add: row_kept_def)
  next
    case (stored po inp')
    then have "change_ok po" using inp by (simp add: list_all_iff)
    then have "record_ok (record_of_input inp')" "ri_in_name inp' = ri_name x"
      using stored by (simp_all add: change_ok_def input_record_ok)
    then show ?thesis using stored(4,5) by (simp add: row_kept_def record_of_input_def)
  qed
  have slots: "slots_ok (map ri_slot (part_items p)) (np_free_top p) (np_slot_high p)"
    using slots_published [OF ok w d u] unfolding dir by (simp add: p_def finish_part_def Let_def)
  have fold: "fold_kept p" unfolding fold_kept_def dir by (simp add: p_def finish_part_def Let_def new_dir_def)
  note count = counters_follow [OF ok w d u dir tr]
  have live: "(\<Sum>x \<leftarrow> part_items q. bool_int (part_row q (ri_name x) \<noteq> None)) = int (length (part_items q))"
    if "\<And>x. x \<in> set (part_items q) \<Longrightarrow> part_row q (ri_name x) \<noteq> None" for q
  proof -
    have "map (\<lambda>x. bool_int (part_row q (ri_name x) \<noteq> None)) (part_items q) = map (\<lambda>x. 1) (part_items q)"
      by (rule map_cong [OF refl]) (use that in \<open>simp add: bool_int_def\<close>)
    then show ?thesis by (simp only: sum_list_const_mult) (simp add: sum_list_triv)
  qed
  have some: "part_row p (ri_name x) \<noteq> None" if "x \<in> set (part_items p)" for x
    using part_row_def_dir(1) [of p x] ok' that kept [of x] by (auto simp: dir tr row_kept_def split: option.splits)
  have "pw_live_delta w = gained (\<lambda>r. bool_int (r \<noteq> None)) (pw_changes w)" using w by (simp add: work_ok_def)
  then have rows: "np_live_rows p = int (length (part_items p))"
    using count [of "\<lambda>r. bool_int (r \<noteq> None)"] live [of p, OF some] live [of old, OF part_row_some [OF ok]] ok
    by (simp add: bool_int_def p_def finish_part_def Let_def part_ok_def)
  have "pw_trunc_delta w = gained (\<lambda>r. bool_int (keys_truncated r)) (pw_changes w)" using w by (simp add: work_ok_def)
  then have trunc: "np_trunc_rows p = (\<Sum>x \<leftarrow> part_items p. bool_int (keys_truncated (part_row p (ri_name x))))"
    using count [of "\<lambda>r. bool_int (keys_truncated r)"] ok
    by (simp add: bool_int_def keys_truncated_def p_def finish_part_def Let_def part_ok_def)
  show ?thesis unfolding p_def [symmetric] part_ok_def
    using ok' kept slots fold rows trunc new_trie_get(1) [OF ok w d] by (simp add: dir tr)
qed

section \<open>Room for a batch\<close>

definition slots_left :: "free_node list \<Rightarrow> u32 \<Rightarrow> nat" where
  "slots_left free high = length (free_slots free) + (2 ^ 24 - unat high)"

definition slots_needed :: "part_op list \<Rightarrow> nat" where
  "slots_needed pos = length (filter (\<lambda>po. po_input po \<noteq> None) pos)"

abbreviation work_left :: "part_work \<Rightarrow> nat" where
  "work_left w \<equiv> slots_left (fs_top (pw_free w)) (pw_slot_high w)"

lemma take_part_op_room:
  assumes w: "work_ok old xs w"
  shows "(\<exists>st. take_part_op dir po w = Inl st \<and> ps_slot_exhausted st) \<and> po_input po \<noteq> None \<and> work_left w = 0
    \<or> (\<exists>w'. take_part_op dir po w = Inr w' \<and> ps_slot_exhausted (pw_stats w') = ps_slot_exhausted (pw_stats w)
        \<and> work_left w = (if po_input po = None then 0 else 1) + work_left w')"
proof (cases "po_input po")
  case (Some inp)
  obtain f' got where pop: "pop_free (pw_free w) = (f', got)" by (rule prod.exhaust)
  have sl: "slots_ok (map ri_slot (part_items old) @ new_slots (pw_changes w)) (fs_top (pw_free w)) (pw_slot_high w)"
    using w by (simp add: work_ok_def)
  then have c: "chain_ok (fs_top (pw_free w))" and le: "pw_slot_high w \<le> max_slot" by (simp_all add: slots_ok_def)
  have m: "mset (free_slots (fs_top (pw_free w))) = (case got of None \<Rightarrow> {#} | Some s \<Rightarrow> {#s#}) + mset (free_slots (fs_top f'))"
    "got = None \<longleftrightarrow> free_slots (fs_top (pw_free w)) = []"
    using pop_from_ok [OF c, of "fs_private (pw_free w)" "fs_copied (pw_free w)"] pop by (simp_all add: pop_free_def)
  have len: "length (free_slots (fs_top (pw_free w))) = (if got = None then 0 else 1) + length (free_slots (fs_top f'))"
    using arg_cong [OF m(1), of size] by (cases got) simp_all
  show ?thesis
  proof (cases "got = None \<and> max_slot \<le> pw_slot_high w")
    case True
    then have "take_part_op dir po w = Inl (case row_find dir (po_name po) of None \<Rightarrow> (pw_stats w)\<lparr>ps_identity_lookups := ps_identity_lookups (pw_stats w) + 1, ps_slot_exhausted := True, ps_compaction_required := True\<rparr>
      | Some _ \<Rightarrow> (pw_stats w)\<lparr>ps_identity_lookups := ps_identity_lookups (pw_stats w) + 1, ps_visited_rows := ps_visited_rows (pw_stats w) + 1, ps_slot_exhausted := True, ps_compaction_required := True\<rparr>)"
      using Some pop by (auto simp: take_part_op_def Let_def split: option.split)
    moreover have "work_left w = 0"
    proof -
      have "pw_slot_high w = max_slot" using True le by simp
      then show ?thesis using True m(2) by (simp add: slots_left_def max_slot_def)
    qed
    ultimately show ?thesis using Some by (auto split: option.split)
  next
    case False
    obtain w' where w': "take_part_op dir po w = Inr w'" "pw_free w' = f'" "pw_slot_high w' = (if got = None then pw_slot_high w + 1 else pw_slot_high w)"
      "ps_slot_exhausted (pw_stats w') = ps_slot_exhausted (pw_stats w)"
      using False Some pop by (auto simp: take_part_op_def Let_def)
    have "unat (pw_slot_high w + 1) = unat (pw_slot_high w) + 1 \<and> unat (pw_slot_high w) < 2 ^ 24" if "got = None"
      using that False by (simp add: unat_word_ariths max_slot_def word_less_nat_alt not_le)
    then have "work_left w = 1 + work_left w'" using w'(2,3) len by (auto simp: slots_left_def)
    with w' Some show ?thesis by auto
  qed
qed (auto simp: take_part_op_def Let_def)

lemma take_part_ops_room:
  "\<lbrakk>part_ok old; work_ok old xs w\<rbrakk> \<Longrightarrow>
    (if slots_needed pos \<le> work_left w
     then \<exists>w'. take_part_ops (np_row_dir old) pos w = Inr w' \<and> ps_slot_exhausted (pw_stats w') = ps_slot_exhausted (pw_stats w)
     else \<exists>st. take_part_ops (np_row_dir old) pos w = Inl st \<and> ps_slot_exhausted st)"
proof (induction pos arbitrary: xs w)
  case (Cons po pos)
  from take_part_op_room [OF Cons.prems(2), of "np_row_dir old" po] show ?case
  proof (elim disjE conjE exE)
    fix w' assume s: "take_part_op (np_row_dir old) po w = Inr w'" "ps_slot_exhausted (pw_stats w') = ps_slot_exhausted (pw_stats w)"
      "work_left w = (if po_input po = None then 0 else 1) + work_left w'"
    from Cons.IH [OF Cons.prems(1) take_part_op_ok [OF Cons.prems s(1)]] s show ?case
      by (auto simp: slots_needed_def)
  qed (auto simp: slots_needed_def)
qed (simp add: slots_needed_def)

definition names_unsplit :: "string list \<Rightarrow> part_op list \<Rightarrow> bool" where
  "names_unsplit fences pos \<longleftrightarrow>
     list_all (\<lambda>s. list_all (\<lambda>po. po_name po < s) pos \<or> list_all (\<lambda>po. s \<le> po_name po) pos) fences"

lemma names_unsplit_ops:
  assumes "names_unsplit fences pos" "work_ok old pos w" "distinct (map po_name pos)"
  shows "unsplit fences (sort_row_ops (pw_row_ops w))"
proof -
  have "op_key p \<in> po_name ` set pos" if "p \<in> set (sort_row_ops (pw_row_ops w))" for p
  proof -
    have dn: "distinct (map td_name (pw_changes w))" using assms(3) by (simp add: work_changes(1) [OF assms(2)])
    have "op_key p \<in> td_name ` set (pw_changes w)"
      using that batch_row_ops(3) [OF dn] unfolding work_changes(3) [OF assms(2)] by blast
    then show ?thesis using arg_cong [OF work_changes(1) [OF assms(2)], of set] by simp
  qed
  then have name: "\<exists>po \<in> set pos. op_key p = po_name po" if "p \<in> set (sort_row_ops (pw_row_ops w))" for p
    using that by (metis imageE)
  show ?thesis unfolding unsplit_def list_all_iff
  proof
    fix s assume "s \<in> set fences"
    then have "(\<forall>po \<in> set pos. po_name po < s) \<or> (\<forall>po \<in> set pos. s \<le> po_name po)"
      using assms(1) by (simp add: names_unsplit_def list_all_iff)
    then show "(\<forall>p \<in> set (sort_row_ops (pw_row_ops w)). op_key p < s) \<or> (\<forall>p \<in> set (sort_row_ops (pw_row_ops w)). s \<le> op_key p)"
    proof
      assume a: "\<forall>po \<in> set pos. po_name po < s"
      have "op_key p < s" if "p \<in> set (sort_row_ops (pw_row_ops w))" for p using name [OF that] a by auto
      then show ?thesis by blast
    next
      assume a: "\<forall>po \<in> set pos. s \<le> po_name po"
      have "s \<le> op_key p" if "p \<in> set (sort_row_ops (pw_row_ops w))" for p using name [OF that] a by auto
      then show ?thesis by blast
    qed
  qed
qed

lemma part_batch:
  assumes "part_ok p" "distinct (map po_name pos)" "list_all change_ok pos" "names_unsplit (tree_fences (np_row_dir p)) pos"
    and "apply_part_ops p namespaced now caps pos st = (p', st')"
  shows "part_ok p'
    \<and> (\<forall>name. part_row p' name = (if slots_needed pos \<le> slots_left (np_free_top p) (np_slot_high p)
         then rows_after pos (part_row p) name else part_row p name))
    \<and> (ps_slot_exhausted st' \<longleftrightarrow> ps_slot_exhausted st \<or> slots_left (np_free_top p) (np_slot_high p) < slots_needed pos)"
proof (cases "pos = []")
  case True
  then show ?thesis using assms(1,5) by (simp add: apply_part_ops_def slots_needed_def rows_after_def)
next
  case False
  let ?w = "start_work p st"
  have start: "work_left ?w = slots_left (np_free_top p) (np_slot_high p)" "pw_stats ?w = st"
    by (simp_all add: start_work_def new_free_stack_def)
  note w0 = start_work_ok [OF assms(1), of st]
  note room = take_part_ops_room [OF assms(1) w0, of pos]
  show ?thesis
  proof (cases "slots_needed pos \<le> work_left ?w")
    case True
    with room obtain w where w: "take_part_ops (np_row_dir p) pos ?w = Inr w" "ps_slot_exhausted (pw_stats w) = ps_slot_exhausted st"
      by (auto simp: start)
    from take_part_ops_ok [OF assms(1) w0 w(1)] have wk: "work_ok p pos w" by simp
    note u = names_unsplit_ops [OF assms(4) wk assms(2)]
    have r: "(p', st') = finish_part p namespaced now caps w" using assms(5) False w(1) by (simp add: apply_part_ops_def)
    then have p': "p' = fst (finish_part p namespaced now caps w)" by (metis fst_conv)
    have "ps_slot_exhausted st' = ps_slot_exhausted st" using r w(2) by (simp add: finish_part_def Let_def)
    moreover have "part_row p' name = rows_after pos (part_row p) name" for name
      unfolding p' by (rule finish_part_row [OF assms(1) wk assms(2) u finish_dir finish_trie])
    ultimately show ?thesis
      using True finish_rows_ok [OF assms(1) wk assms(2,3) u, of namespaced now caps] by (simp add: start p')
  next
    case False
    with room obtain st1 where st1: "take_part_ops (np_row_dir p) pos ?w = Inl st1" "ps_slot_exhausted st1" by auto
    then have "(p', st') = (p, st1)" using assms(5) \<open>pos \<noteq> []\<close> by (simp add: apply_part_ops_def)
    then have "p' = p" "ps_slot_exhausted st'" using st1(2) by simp_all
    then show ?thesis using assms(1) False by (simp add: start)
  qed
qed


lemma new_part_ok: "part_ok (new_ns_part ns kind now)"
proof -
  have leaf: "rl_items (make_row_leaf []) = []" by (simp add: make_row_leaf_def Let_def)
  have items: "part_items (new_ns_part ns kind now) = []"
    by (simp add: new_ns_part_def new_row_tree_def Let_def row_items leaf)
  have "fd_acc (recompute_fold new_row_tree) = 0" "fd_bound_name (recompute_fold new_row_tree) = ''''"
    "fd_bound_valid (recompute_fold new_row_tree) = False" "fd_suffix (recompute_fold new_row_tree) = []"
    by code_simp+
  then have "fold_kept (new_ns_part ns kind now)" by (simp add: fold_kept_def new_ns_part_def)
  moreover have "trie_ok trie_top (Some new_trie_root)" by (simp add: trie_top_def new_trie_root_def zero_branch_def eval_nat_numeral)
  moreover have "slots_ok [] [] 0" by (simp add: slots_ok_def chain_ok_def free_slots_def)
  ultimately show ?thesis
    unfolding part_ok_def items using new_row_tree_ok by (simp add: new_ns_part_def)
qed

definition demo_input :: row_input where
  "demo_input = \<lparr>ri_in_name = ''web'', ri_in_uid = ''u1'', ri_in_labels = [''app'', ''web''], ri_in_truncated = False\<rparr>"

definition demo_changes :: "part_op list" where
  "demo_changes = [\<lparr>po_name = ''web'', po_input = Some demo_input\<rparr>, \<lparr>po_name = ''old'', po_input = None\<rparr>]"

lemma demo_changes_ok: "distinct (map po_name demo_changes)" "list_all change_ok demo_changes"
    "names_unsplit (tree_fences (np_row_dir (new_ns_part ns kind now))) demo_changes"
    "slots_needed demo_changes \<le> slots_left (np_free_top (new_ns_part ns kind now)) (np_slot_high (new_ns_part ns kind now))"
  by (simp_all add: demo_changes_def demo_input_def change_ok_def input_ok_def max_label_keys_def names_unsplit_def new_ns_part_def
    new_row_tree_def Let_def slots_needed_def slots_left_def)


end
