(* ===== verification/Ns_Dir.thy ===== *)
theory Ns_Dir
  imports Part_Index List_Laws
begin

text \<open>
  The directory of partitions by namespace (\<open>nsDir\<close> of \<open>internal/resourcecatalog/searchindex.go\<close>): sorted pages of at most 128
  partitions, the first namespace of every page, and aggregates for diagnosis. It is the sorted list of its partitions; an update
  replaces or inserts one.
\<close>

section \<open>Aggregates\<close>

record ns_agg =
  na_oldest :: time
  na_count :: int
  na_mask :: "16 word"

definition no_agg :: ns_agg where "no_agg = \<lparr>na_oldest = 0, na_count = 0, na_mask = 0\<rparr>"

definition merge_agg :: "ns_agg \<Rightarrow> ns_agg \<Rightarrow> ns_agg" where
  "merge_agg a b =
     \<lparr>na_oldest = (if na_oldest b \<noteq> 0 \<and> (na_oldest a = 0 \<or> na_oldest b < na_oldest a) then na_oldest b else na_oldest a),
      na_count = na_count a + na_count b, na_mask = na_mask a OR na_mask b\<rparr>"

definition part_agg :: "ns_part \<Rightarrow> ns_agg" where
  "part_agg p = \<lparr>na_oldest = np_updated_at p, na_count = 1, na_mask = np_reason_mask p\<rparr>"

section \<open>Pages\<close>

definition ns_page_max :: nat where "ns_page_max = 128"
definition ns_agg_bytes :: int where "ns_agg_bytes = 16"

record ns_page =
  pg_names :: "string list"
  pg_parts :: "ns_part list"
  pg_agg :: ns_agg

record ns_dir =
  nd_pages :: "ns_page list"
  nd_first :: "string list"
  nd_agg :: ns_agg
  nd_total :: int

text \<open>A page with its aggregate recomputed.\<close>

definition page_of :: "string list \<Rightarrow> ns_part list \<Rightarrow> ns_page" where
  "page_of names parts =
     \<lparr>pg_names = names, pg_parts = parts, pg_agg = fold (\<lambda>p a. merge_agg a (part_agg p)) parts no_agg\<rparr>"

definition new_ns_dir :: ns_dir where
  "new_ns_dir = \<lparr>nd_pages = [\<lparr>pg_names = [], pg_parts = [], pg_agg = no_agg\<rparr>], nd_first = [''''], nd_agg = no_agg, nd_total = 0\<rparr>"

text \<open>The first entry of the list of first names is not looked at.\<close>

definition page_index_for :: "string list \<Rightarrow> string \<Rightarrow> nat" where
  "page_index_for first ns = bisect (\<lambda>mid. ns \<ge> first ! mid) 1 (length first) - 1"

definition search_strings :: "string list \<Rightarrow> string \<Rightarrow> nat" where
  "search_strings xs x = search_first (length xs) (\<lambda>i. xs ! i \<ge> x)"

definition dir_find :: "ns_dir \<Rightarrow> string \<Rightarrow> ns_part option" where
  "dir_find d ns =
     (if nd_pages d = [] then None
      else (let p = nd_pages d ! page_index_for (nd_first d) ns; i = search_strings (pg_names p) ns in
        if i < length (pg_names p) \<and> pg_names p ! i = ns then Some (pg_parts p ! i) else None))"

definition dir_parts :: "ns_dir \<Rightarrow> ns_part list" where
  "dir_parts d = concat (map pg_parts (nd_pages d))"

definition recompute_root :: "ns_page list \<Rightarrow> ns_agg" where
  "recompute_root pages = fold (\<lambda>p a. merge_agg a (pg_agg p)) pages no_agg"

definition split_page :: "nat \<Rightarrow> ns_page list \<Rightarrow> string list \<Rightarrow> ns_page list \<times> string list" where
  "split_page pgi pages first =
     (let page = pages ! pgi;
          half = length (pg_names page) div 2;
          left = page_of (take half (pg_names page)) (take half (pg_parts page));
          right = page_of (drop half (pg_names page)) (drop half (pg_parts page));
          first1 = take pgi first @ [pg_names left ! 0, pg_names right ! 0] @ drop (pgi + 1) first in
      (take pgi pages @ [left, right] @ drop (pgi + 1) pages, if pgi = 0 then first1[0 := ''''] else first1))"

text \<open>The new directory and what \<open>copied\<close> grows by.\<close>

definition dir_upsert :: "ns_part \<Rightarrow> ns_dir \<Rightarrow> ns_dir \<times> int" where
  "dir_upsert np d =
     (let ns = np_namespace np;
          pgi = page_index_for (nd_first d) ns;
          old = nd_pages d ! pgi;
          names = pg_names old; parts = pg_parts old;
          i = search_strings names ns;
          hit = (i < length names \<and> names ! i = ns);
          delta = (if hit then np_bytes np - np_bytes (parts ! i) else np_bytes np);
          page = (if hit then page_of names (parts[i := np])
                  else page_of (take i names @ ns # drop i names) (take i parts @ np # drop i parts));
          n = length (pg_names page);
          pages = (nd_pages d)[pgi := page];
          next = (if n > ns_page_max then split_page pgi pages (nd_first d)
                  else (pages,
                    if n > 0 then (let f = (nd_first d)[pgi := pg_names page ! 0] in if pgi = 0 then f[0 := ''''] else f)
                    else nd_first d)) in
      (\<lparr>nd_pages = fst next, nd_first = snd next, nd_agg = recompute_root (fst next), nd_total = nd_total d + delta\<rparr>,
       int n * (16 + 8) + ns_agg_bytes + int (length (fst next)) * (8 + 16)))"

definition dir_bytes :: "ns_dir \<Rightarrow> int" where
  "dir_bytes d =
     (24 * 2 + ns_agg_bytes) + int (length (nd_pages d)) * (24 * 2 + ns_agg_bytes + 8 + 16) + na_count (nd_agg d) * (16 + 8) + nd_total d"

section \<open>Well-formed directories\<close>

definition page_ok :: "ns_page \<Rightarrow> bool" where
  "page_ok pg \<longleftrightarrow> pg = page_of (map np_namespace (pg_parts pg)) (pg_parts pg) \<and> length (pg_parts pg) \<le> ns_page_max"

definition dir_ok :: "ns_dir \<Rightarrow> bool" where
  "dir_ok d \<longleftrightarrow> nd_pages d \<noteq> [] \<and> list_all page_ok (nd_pages d) \<and> list_all (\<lambda>pg. pg_parts pg \<noteq> []) (tl (nd_pages d))
     \<and> sorted_keys np_namespace (dir_parts d) \<and> nd_first d = '''' # map (\<lambda>pg. np_namespace (hd (pg_parts pg))) (tl (nd_pages d))
     \<and> nd_agg d = recompute_root (nd_pages d) \<and> nd_total d = (\<Sum>p \<leftarrow> dir_parts d. np_bytes p)"

lemma new_dir_ok0: "dir_ok new_ns_dir" "dir_parts new_ns_dir = []"
  by (simp_all add: dir_ok_def new_ns_dir_def page_ok_def page_of_def dir_parts_def recompute_root_def merge_agg_def no_agg_def)

lemma merge_agg_assoc: "merge_agg (merge_agg a b) c = merge_agg a (merge_agg b c)"
  by (auto simp: merge_agg_def or.assoc)

lemma merge_no_agg [simp]: "merge_agg no_agg a = a" "merge_agg a no_agg = a"
  by (simp_all add: merge_agg_def no_agg_def)

lemma fold_agg: "fold (\<lambda>p a. merge_agg a (f p)) ps b = merge_agg b (fold (\<lambda>p a. merge_agg a (f p)) ps no_agg)"
proof (induction ps arbitrary: b)
  case (Cons p ps)
  have "fold (\<lambda>p a. merge_agg a (f p)) (p # ps) b = merge_agg (merge_agg b (f p)) (fold (\<lambda>p a. merge_agg a (f p)) ps no_agg)"
    by (simp only: fold_simps Cons [of "merge_agg b (f p)"])
  then show ?case using Cons [of "f p"] by (simp add: merge_agg_assoc)
qed simp

lemma root_agg_parts:
  assumes "list_all page_ok pages"
  shows "recompute_root pages = fold (\<lambda>p a. merge_agg a (part_agg p)) (concat (map pg_parts pages)) no_agg"
  using assms
proof (induction pages)
  case (Cons pg pages)
  let ?f = "\<lambda>ps. fold (\<lambda>p a. merge_agg a (part_agg p)) ps"
  have pg: "pg_agg pg = ?f (pg_parts pg) no_agg"
    using Cons.prems by (simp add: page_ok_def) (metis ns_page.select_convs(3) page_of_def)
  have "recompute_root (pg # pages) = merge_agg (pg_agg pg) (recompute_root pages)"
    using fold_agg [of pg_agg pages "pg_agg pg"] by (simp add: recompute_root_def)
  also have "\<dots> = merge_agg (pg_agg pg) (?f (concat (map pg_parts pages)) no_agg)" using Cons by simp
  also have "\<dots> = ?f (concat (map pg_parts pages)) (pg_agg pg)" by (rule fold_agg [symmetric])
  also have "\<dots> = ?f (concat (map pg_parts (pg # pages))) no_agg" by (simp add: pg)
  finally show ?case .
qed (simp add: recompute_root_def)

section \<open>The page of a namespace\<close>

lemma sorted_concat_less:
  assumes "sorted_keys k (concat xss)" "i < j" "j < length xss" "x \<in> set (xss ! i)" "y \<in> set (xss ! j)"
  shows "k x < k y"
proof -
  have "xss = take j xss @ xss ! j # drop (Suc j) xss" using assms(3) by (simp add: id_take_nth_drop)
  then have c: "concat xss = concat (take j xss) @ xss ! j @ concat (drop (Suc j) xss)"
    by (metis concat.simps(2) concat_append)
  have "xss ! i \<in> set (take j xss)" using assms(2,3) by (auto simp: in_set_conv_nth)
  then have "x \<in> set (concat (take j xss))" using assms(4) by auto
  then show ?thesis using assms(1,5) unfolding c by (auto simp: sorted_wrt_append)
qed

lemma dir_page:
  assumes ok: "dir_ok d" and i: "i = page_index_for (nd_first d) ns"
  shows "i < length (nd_pages d)"
    and "p \<in> set (concat (map pg_parts (take i (nd_pages d)))) \<Longrightarrow> np_namespace p < ns"
    and "p \<in> set (concat (map pg_parts (drop (Suc i) (nd_pages d)))) \<Longrightarrow> ns < np_namespace p"
proof -
  let ?pages = "nd_pages d" and ?first = "nd_first d"
  have pages: "?pages \<noteq> []" and ne: "\<And>j. \<lbrakk>0 < j; j < length ?pages\<rbrakk> \<Longrightarrow> pg_parts (?pages ! j) \<noteq> []"
    and srt: "sorted_keys np_namespace (concat (map pg_parts ?pages))"
    and first: "?first = '''' # map (\<lambda>pg. np_namespace (hd (pg_parts pg))) (tl ?pages)"
    using ok by (auto simp: dir_ok_def dir_parts_def list_all_length nth_tl gr0_conv_Suc dest: Suc_lessD)
  have len: "length ?first = length ?pages" using pages by (simp add: first)
  have at_first: "?first ! j = np_namespace (hd (pg_parts (?pages ! j)))" if "0 < j" "j < length ?pages" for j
    using that by (cases j) (simp_all add: first nth_tl)
  have before: "np_namespace x < np_namespace y" if "a < b" "b < length ?pages" "x \<in> set (pg_parts (?pages ! a))" "y \<in> set (pg_parts (?pages ! b))" for a b x y
    using sorted_concat_less [OF srt that(1)] that by simp
  define m where "m = bisect (\<lambda>mid. ns \<ge> ?first ! mid) 1 (length ?first)"
  have "parts_at (\<lambda>mid. ns \<ge> ?first ! mid) 1 (length ?first) m"
    unfolding m_def
  proof (rule bisect_parts)
    show "1 \<le> length ?first" by (simp add: first)
    fix a b assume ab: "1 \<le> a" "a \<le> b" "b < length ?first" "?first ! b \<le> ns"
    have "?first ! a \<le> ?first ! b"
    proof (cases "a = b")
      case False
      then have "a < b" using ab by simp
      moreover have "hd (pg_parts (?pages ! a)) \<in> set (pg_parts (?pages ! a))" "hd (pg_parts (?pages ! b)) \<in> set (pg_parts (?pages ! b))"
        using ne ab len by simp_all
      ultimately have "np_namespace (hd (pg_parts (?pages ! a))) < np_namespace (hd (pg_parts (?pages ! b)))"
        using before ab(3) len by simp
      then show ?thesis using ab len by (simp add: at_first)
    qed simp
    then show "?first ! a \<le> ns" using ab(4) by simp
  qed
  then have m: "1 \<le> m" "m \<le> length ?pages" "\<And>j. \<lbrakk>1 \<le> j; j < m\<rbrakk> \<Longrightarrow> ?first ! j \<le> ns" "\<And>j. \<lbrakk>m \<le> j; j < length ?pages\<rbrakk> \<Longrightarrow> ns < ?first ! j"
    by (auto simp: parts_at_def len)
  have im: "i = m - 1" by (simp add: i page_index_for_def m_def)
  show il: "i < length ?pages" using m im by simp
  show "np_namespace p < ns" if p: "p \<in> set (concat (map pg_parts (take i ?pages)))"
  proof -
    obtain pg where "pg \<in> set (take i ?pages)" "p \<in> set (pg_parts pg)" using p by auto
    then obtain j where j: "j < i" "p \<in> set (pg_parts (?pages ! j))" by (metis in_set_conv_nth length_take min_less_iff_conj nth_take)
    have h: "hd (pg_parts (?pages ! i)) \<in> set (pg_parts (?pages ! i))" using ne il j(1) by simp
    have "np_namespace p < np_namespace (hd (pg_parts (?pages ! i)))" by (rule before [OF j(1) il j(2) h])
    also have "\<dots> = ?first ! i" using at_first il j(1) by simp
    also have "\<dots> \<le> ns" using m(3) im j(1) by simp
    finally show ?thesis .
  qed
  show "ns < np_namespace p" if p: "p \<in> set (concat (map pg_parts (drop (Suc i) ?pages)))"
  proof -
    obtain pg where pg: "pg \<in> set (drop (Suc i) ?pages)" "p \<in> set (pg_parts pg)" using p by auto
    then obtain n where "n < length ?pages - Suc i" "drop (Suc i) ?pages ! n = pg" by (metis in_set_conv_nth length_drop)
    then have n: "Suc i + n < length ?pages" "p \<in> set (pg_parts (?pages ! (Suc i + n)))" using pg(2) by simp_all
    define j where "j = Suc i + n"
    have j: "m \<le> j" "0 < j" "j < length ?pages" "p \<in> set (pg_parts (?pages ! j))" using n im m(1) by (simp_all add: j_def)
    have "ns < ?first ! j" by (rule m(4) [OF j(1,3)])
    also have "\<dots> = np_namespace (hd (pg_parts (?pages ! j)))" by (rule at_first [OF j(2,3)])
    also have "\<dots> \<le> np_namespace p"
    proof -
      have "sorted_keys np_namespace (pg_parts (?pages ! j))"
      proof -
        have "?pages = take j ?pages @ ?pages ! j # drop (Suc j) ?pages" using j(3) by (simp add: id_take_nth_drop)
        then have "concat (map pg_parts ?pages) = concat (map pg_parts (take j ?pages)) @ pg_parts (?pages ! j) @ concat (map pg_parts (drop (Suc j) ?pages))"
          by (metis concat.simps(2) concat_append list.simps(9) map_append)
        then show ?thesis using srt by (simp add: sorted_wrt_append)
      qed
      then show ?thesis using j(4) by (cases "pg_parts (?pages ! j)") (auto simp: less_imp_le)
    qed
    finally show ?thesis .
  qed
qed

section \<open>Lookup and update\<close>

definition put_part :: "ns_part \<Rightarrow> ns_part list \<Rightarrow> ns_part list" where
  "put_part q ps = filter (\<lambda>p. np_namespace p < np_namespace q) ps @ q # filter (\<lambda>p. np_namespace q < np_namespace p) ps"

lemma page_search:
  fixes ns :: string
  assumes "sorted_keys np_namespace ps"
  defines "i \<equiv> search_strings (map np_namespace ps) ns"
  shows "i \<le> length ps" "take i ps = filter (\<lambda>p. np_namespace p < ns) ps" "drop i ps = filter (\<lambda>p. ns \<le> np_namespace p) ps"
    and "i < length ps \<Longrightarrow> np_namespace (ps ! i) = ns \<Longrightarrow> drop (Suc i) ps = filter (\<lambda>p. ns < np_namespace p) ps"
    and "i < length ps \<Longrightarrow> np_namespace (ps ! i) \<noteq> ns \<Longrightarrow> drop i ps = filter (\<lambda>p. ns < np_namespace p) ps"
    and "i < length ps \<and> np_namespace (ps ! i) = ns \<Longrightarrow> List.find (\<lambda>p. np_namespace p = ns) ps = Some (ps ! i)"
    and "\<not> (i < length ps \<and> np_namespace (ps ! i) = ns) \<Longrightarrow> List.find (\<lambda>p. np_namespace p = ns) ps = None"
proof -
  have i: "i = search_first (length ps) (\<lambda>i. ns \<le> np_namespace (ps ! i))"
    unfolding i_def search_strings_def search_first_def by (simp, rule bisect_cong) simp
  have mono: "ns \<le> np_namespace (ps ! b)" if "a \<le> b" "b < length ps" "ns \<le> np_namespace (ps ! a)" for a b
  proof (cases "a = b")
    case False
    then have "np_namespace (ps ! a) < np_namespace (ps ! b)"
      using that sorted_wrt_nth_less [OF assms(1), of a b] by simp
    then show ?thesis using that(3) by simp
  qed (use that in simp)
  note s = search_splits [of ps "\<lambda>p. ns \<le> np_namespace p", OF mono, folded i]
  show il: "i \<le> length ps" by (rule s(1))
  show t: "take i ps = filter (\<lambda>p. np_namespace p < ns) ps" using s(2) by (simp add: not_le)
  show dr: "drop i ps = filter (\<lambda>p. ns \<le> np_namespace p) ps" by (rule s(3))
  have lt: "ns < np_namespace p" if il: "i < length ps" and p: "p \<in> set (drop (Suc i) ps)" for p
  proof -
    have "ps ! i \<in> set (drop i ps)" using il by (simp add: Cons_nth_drop_Suc [symmetric])
    then have "ns \<le> np_namespace (ps ! i)" unfolding dr by simp
    moreover obtain n where "n < length (drop (Suc i) ps)" "p = drop (Suc i) ps ! n" using p by (metis in_set_conv_nth)
    then have "np_namespace (ps ! i) < np_namespace p"
      using sorted_wrt_nth_less [OF assms(1), of i "Suc i + n"] by simp
    ultimately show ?thesis by simp
  qed
  have above: "filter (\<lambda>p. ns < np_namespace p) ps = filter (\<lambda>p. ns < np_namespace p) (drop i ps)"
    unfolding dr filter_filter by (rule filter_cong) auto
  show hit: "drop (Suc i) ps = filter (\<lambda>p. ns < np_namespace p) ps" if "i < length ps" "np_namespace (ps ! i) = ns"
  proof -
    have "drop i ps = ps ! i # drop (Suc i) ps" using that(1) by (simp add: Cons_nth_drop_Suc)
    then show ?thesis unfolding above using that lt [OF that(1)] by (simp add: filter_id_conv)
  qed
  show "drop i ps = filter (\<lambda>p. ns < np_namespace p) ps" if "i < length ps" "np_namespace (ps ! i) \<noteq> ns"
  proof -
    have d: "drop i ps = ps ! i # drop (Suc i) ps" using that(1) by (simp add: Cons_nth_drop_Suc)
    then have "ps ! i \<in> set (filter (\<lambda>p. ns \<le> np_namespace p) ps)" using dr by (metis list.set_intros(1))
    then have "ns < np_namespace (ps ! i)" using that(2) by (auto simp: less_le)
    then show ?thesis unfolding above using d lt [OF that(1)] by (simp add: filter_id_conv)
  qed
  show "List.find (\<lambda>p. np_namespace p = ns) ps = Some (ps ! i)" if "i < length ps \<and> np_namespace (ps ! i) = ns"
    by (rule find_eq_unique [OF assms(1)]) (use that in auto)
  show "List.find (\<lambda>p. np_namespace p = ns) ps = None" if no: "\<not> (i < length ps \<and> np_namespace (ps ! i) = ns)"
  proof -
    have "np_namespace p \<noteq> ns" if p: "p \<in> set ps" for p
    proof
      assume e: "np_namespace p = ns"
      then have m: "p \<in> set (drop i ps)" unfolding dr using p by simp
      then have l: "i < length ps" by (cases "i < length ps") simp_all
      then have "drop i ps = ps ! i # drop (Suc i) ps" by (simp add: Cons_nth_drop_Suc)
      then have "p = ps ! i \<or> p \<in> set (drop (Suc i) ps)" using m by auto
      then show False using no l lt [OF l, of p] e by auto
    qed
    then show ?thesis by (auto simp: find_None_iff)
  qed
qed

lemma dir_split:
  assumes ok: "dir_ok d" and i: "i = page_index_for (nd_first d) ns"
  obtains A P B where "dir_parts d = A @ P @ B" "P = pg_parts (nd_pages d ! i)" "nd_pages d ! i = page_of (map np_namespace P) P"
    "length P \<le> ns_page_max" "A = concat (map pg_parts (take i (nd_pages d)))" "B = concat (map pg_parts (drop (Suc i) (nd_pages d)))"
    "\<forall>p \<in> set A. np_namespace p < ns" "\<forall>p \<in> set B. ns < np_namespace p" "sorted_keys np_namespace P"
proof -
  let ?P = "pg_parts (nd_pages d ! i)" and ?A = "concat (map pg_parts (take i (nd_pages d)))" and ?B = "concat (map pg_parts (drop (Suc i) (nd_pages d)))"
  note page = dir_page [OF ok i]
  have "nd_pages d = take i (nd_pages d) @ nd_pages d ! i # drop (Suc i) (nd_pages d)" using page(1) by (simp add: id_take_nth_drop)
  then have c: "dir_parts d = ?A @ ?P @ ?B" unfolding dir_parts_def by (metis concat.simps(2) concat_append list.simps(9) map_append)
  have "page_ok (nd_pages d ! i)" using ok page(1) by (simp add: dir_ok_def list_all_length)
  then have pg: "nd_pages d ! i = page_of (map np_namespace ?P) ?P" "length ?P \<le> ns_page_max" by (simp_all only: page_ok_def)
  have "sorted_keys np_namespace (dir_parts d)" using ok by (simp add: dir_ok_def)
  then have srt: "sorted_keys np_namespace ?P" unfolding c by (simp add: sorted_wrt_append)
  have "\<forall>p \<in> set ?A. np_namespace p < ns" using page(2) by blast
  moreover have "\<forall>p \<in> set ?B. ns < np_namespace p" using page(3) by blast
  ultimately show thesis by (rule that [OF c refl pg(1) pg(2) refl refl _ _ srt])
qed

lemma dir_find_parts:
  assumes ok: "dir_ok d"
  shows "dir_find d ns = List.find (\<lambda>p. np_namespace p = ns) (dir_parts d)"
proof -
  obtain A P B where s: "dir_parts d = A @ P @ B" "P = pg_parts (nd_pages d ! page_index_for (nd_first d) ns)"
    "nd_pages d ! page_index_for (nd_first d) ns = page_of (map np_namespace P) P"
    "\<forall>p \<in> set A. np_namespace p < ns" "\<forall>p \<in> set B. ns < np_namespace p" "sorted_keys np_namespace P"
    using dir_split [OF ok refl, of ns] by metis
  have "List.find (\<lambda>p. np_namespace p = ns) A = None" "List.find (\<lambda>p. np_namespace p = ns) B = None"
    using s(4,5) by (auto simp: find_None_iff)
  then have f: "List.find (\<lambda>p. np_namespace p = ns) (dir_parts d) = List.find (\<lambda>p. np_namespace p = ns) P"
    by (simp add: s(1) find_append_cases split: option.split)
  have "nd_pages d \<noteq> []" using ok by (simp add: dir_ok_def)
  then have "dir_find d ns = (let i = search_strings (map np_namespace P) ns in
      if i < length P \<and> np_namespace (P ! i) = ns then Some (P ! i) else None)"
    using s(3) by (simp add: dir_find_def Let_def page_of_def cong: conj_cong)
  then show ?thesis unfolding f using page_search(6,7) [OF s(6), of ns] by (simp add: Let_def)
qed

abbreviation parts_bytes :: "ns_part list \<Rightarrow> int" where
  "parts_bytes ps \<equiv> (\<Sum>p \<leftarrow> ps. np_bytes p)"

lemma upsert_page:
  fixes ps :: "ns_part list" and q :: ns_part
  assumes "sorted_keys np_namespace ps"
  defines "i \<equiv> search_strings (map np_namespace ps) (np_namespace q)"
  shows "i < length ps \<and> np_namespace (ps ! i) = np_namespace q \<Longrightarrow>
      map np_namespace (put_part q ps) = map np_namespace ps \<and> ps[i := q] = put_part q ps
      \<and> np_bytes q - np_bytes (ps ! i) = parts_bytes (put_part q ps) - parts_bytes ps \<and> length (put_part q ps) = length ps"
    and "\<not> (i < length ps \<and> np_namespace (ps ! i) = np_namespace q) \<Longrightarrow>
      take i (map np_namespace ps) @ np_namespace q # drop i (map np_namespace ps) = map np_namespace (put_part q ps)
      \<and> take i ps @ q # drop i ps = put_part q ps \<and> np_bytes q = parts_bytes (put_part q ps) - parts_bytes ps
      \<and> length (put_part q ps) = Suc (length ps)"
proof -
  note s = page_search [OF assms(1), of "np_namespace q", folded i_def]
  show "map np_namespace (put_part q ps) = map np_namespace ps \<and> ps[i := q] = put_part q ps
      \<and> np_bytes q - np_bytes (ps ! i) = parts_bytes (put_part q ps) - parts_bytes ps \<and> length (put_part q ps) = length ps"
    if hit: "i < length ps \<and> np_namespace (ps ! i) = np_namespace q"
  proof -
    have d: "ps = take i ps @ ps ! i # drop (Suc i) ps" using hit by (simp add: id_take_nth_drop)
    have p: "put_part q ps = take i ps @ q # drop (Suc i) ps" using s(2,4) hit by (simp add: put_part_def)
    have "map np_namespace (put_part q ps) = map np_namespace (take i ps @ ps ! i # drop (Suc i) ps)" using hit by (simp add: p)
    then have "map np_namespace (put_part q ps) = map np_namespace ps" by (simp only: d [symmetric])
    moreover have "ps[i := q] = put_part q ps" using hit by (simp add: p upd_conv_take_nth_drop)
    moreover have "parts_bytes ps = parts_bytes (take i ps @ ps ! i # drop (Suc i) ps)" by (simp only: d [symmetric])
    moreover have "length (put_part q ps) = length ps" using arg_cong [OF d, of length] by (simp add: p)
    ultimately show ?thesis by (simp add: p)
  qed
  show "take i (map np_namespace ps) @ np_namespace q # drop i (map np_namespace ps) = map np_namespace (put_part q ps)
      \<and> take i ps @ q # drop i ps = put_part q ps \<and> np_bytes q = parts_bytes (put_part q ps) - parts_bytes ps
      \<and> length (put_part q ps) = Suc (length ps)"
    if miss: "\<not> (i < length ps \<and> np_namespace (ps ! i) = np_namespace q)"
  proof -
    have "drop i ps = filter (\<lambda>p. np_namespace q < np_namespace p) ps"
    proof (cases "i < length ps")
      case False
      then have "filter (\<lambda>p. np_namespace q \<le> np_namespace p) ps = []" using s(3) by simp
      then have "filter (\<lambda>p. np_namespace q < np_namespace p) ps = []" by (auto simp: filter_empty_conv)
      then show ?thesis using False by simp
    qed (use s(5) miss in blast)
    then have p: "put_part q ps = take i ps @ q # drop i ps" using s(2) by (simp add: put_part_def)
    have "parts_bytes ps = parts_bytes (take i ps @ drop i ps)" by simp
    also have "\<dots> = parts_bytes (take i ps) + parts_bytes (drop i ps)" by (simp only: map_append sum_list_append)
    finally have "np_bytes q = parts_bytes (put_part q ps) - parts_bytes ps" by (simp add: p)
    then show ?thesis by (simp add: p take_map drop_map)
  qed
qed

lemma put_part_middle:
  assumes "\<forall>p \<in> set A. np_namespace p < np_namespace q" "\<forall>p \<in> set B. np_namespace q < np_namespace p"
  shows "put_part q (A @ P @ B) = A @ put_part q P @ B"
proof -
  have "filter (\<lambda>p. np_namespace p < np_namespace q) A = A" "filter (\<lambda>p. np_namespace q < np_namespace p) B = B"
    "filter (\<lambda>p. np_namespace q < np_namespace p) A = []" "filter (\<lambda>p. np_namespace p < np_namespace q) B = []"
    using assms by (auto simp: filter_id_conv filter_empty_conv dest: less_asym)
  then show ?thesis by (simp add: put_part_def)
qed

lemma put_part_sorted: "sorted_keys np_namespace ps \<Longrightarrow> sorted_keys np_namespace (put_part q ps)"
  by (auto simp: put_part_def sorted_wrt_append sorted_wrt_map intro: sorted_wrt_filter dest: less_trans)

lemma put_part_find:
  "List.find (\<lambda>p. np_namespace p = ns) (put_part q ps) =
    (if ns = np_namespace q then Some q else List.find (\<lambda>p. np_namespace p = ns) ps)"
proof (cases "ns = np_namespace q")
  case True
  have "List.find (\<lambda>p. np_namespace p = ns) (filter (\<lambda>p. np_namespace p < np_namespace q) ps) = None"
    using True by (auto simp: find_None_iff)
  with True show ?thesis by (simp add: put_part_def find_append_cases)
next
  case False
  have "List.find (\<lambda>p. np_namespace p = ns) (filter P ps) = (if P0 then List.find (\<lambda>p. np_namespace p = ns) ps else None)"
    if "\<And>p. np_namespace p = ns \<Longrightarrow> P p = P0" for P P0
    using that by (induction ps) auto
  note f = this [of "\<lambda>p. np_namespace p < np_namespace q" "ns < np_namespace q"] this [of "\<lambda>p. np_namespace q < np_namespace p" "np_namespace q < ns"]
  show ?thesis using False f by (auto simp: put_part_def find_append_cases split: option.split)
qed

text \<open>The first names of a list of pages; the very first stays empty.\<close>

definition first_names :: "ns_page list \<Rightarrow> string list" where
  "first_names pages = (map (\<lambda>pg. np_namespace (hd (pg_parts pg))) pages)[0 := '''']"

lemma first_names_tl: "pages \<noteq> [] \<Longrightarrow> first_names pages = '''' # map (\<lambda>pg. np_namespace (hd (pg_parts pg))) (tl pages)"
  by (cases pages) (simp_all add: first_names_def)

lemma split_page_ok:
  assumes i: "i < length pages" and pg: "pages ! i = page_of (map np_namespace P) P" and P: "2 \<le> length P" "length P \<le> 2 * ns_page_max - 1"
    and first: "drop (Suc i) first = drop (Suc i) (first_names pages)" "take i first = take i (first_names pages)"
    and r: "split_page i pages first = (pages', first')"
  shows "concat (map pg_parts pages') = concat (map pg_parts (take i pages)) @ P @ concat (map pg_parts (drop (Suc i) pages))"
    and "first' = first_names pages'"
    and "\<exists>L R. pages' = take i pages @ [L, R] @ drop (Suc i) pages \<and> page_ok L \<and> page_ok R \<and> pg_parts L \<noteq> [] \<and> pg_parts R \<noteq> []"
proof -
  let ?h = "length P div 2"
  define L where "L = page_of (take ?h (map np_namespace P)) (take ?h P)"
  define R where "R = page_of (drop ?h (map np_namespace P)) (drop ?h P)"
  have LR: "pg_parts L = take ?h P" "pg_parts R = drop ?h P" "pg_names L = map np_namespace (take ?h P)" "pg_names R = map np_namespace (drop ?h P)"
    by (simp_all add: L_def R_def page_of_def take_map drop_map)
  have ne: "take ?h P \<noteq> []" "drop ?h P \<noteq> []" using P(1) by auto
  have pages': "pages' = take i pages @ [L, R] @ drop (Suc i) pages"
    and f': "first' = (if i = 0 then (take i first @ [pg_names L ! 0, pg_names R ! 0] @ drop (Suc i) first)[0 := '''']
      else take i first @ [pg_names L ! 0, pg_names R ! 0] @ drop (Suc i) first)"
    using r by (auto simp: split_page_def Let_def pg L_def R_def page_of_def)
  have c: "concat (map pg_parts [L, R]) = P" by (simp add: LR)
  show "concat (map pg_parts pages') = concat (map pg_parts (take i pages)) @ P @ concat (map pg_parts (drop (Suc i) pages))"
    unfolding pages' map_append concat_append c ..
  have "page_ok L" "page_ok R" using P(2) by (auto simp: page_ok_def LR L_def R_def page_of_def take_map drop_map)
  then show "\<exists>L R. pages' = take i pages @ [L, R] @ drop (Suc i) pages \<and> page_ok L \<and> page_ok R \<and> pg_parts L \<noteq> [] \<and> pg_parts R \<noteq> []"
    using pages' ne LR by metis
  have h: "pg_names L ! 0 = np_namespace (hd (pg_parts L))" "pg_names R ! 0 = np_namespace (hd (pg_parts R))"
    using ne by (simp_all add: LR hd_conv_nth)
  show "first' = first_names pages'"
  proof (cases i)
    case 0
    then show ?thesis using first i unfolding f' pages' first_names_def by (simp add: h drop_map)
  next
    case (Suc j)
    then show ?thesis using first i unfolding f' pages' first_names_def
      by (simp add: h drop_map take_map list_update_append take_update_swap)
  qed
qed

lemma first_names_update: "first_names (pages[i := pg]) = (map (\<lambda>pg. np_namespace (hd (pg_parts pg))) pages)[i := np_namespace (hd (pg_parts pg)), 0 := '''']"
  by (simp add: first_names_def map_update)

lemma list_all_pages:
  "\<lbrakk>list_all P pages; pages' = take i pages @ new @ drop (Suc i) pages; list_all P new\<rbrakk> \<Longrightarrow> list_all P pages'"
  by (auto simp: list_all_iff dest: in_set_takeD in_set_dropD)

lemma list_all_tl_pages:
  assumes "list_all P (tl pages)" "pages' = take i pages @ new @ drop (Suc i) pages" "list_all P new" "i < length pages" "new \<noteq> []"
  shows "list_all P (tl pages')"
proof (cases i)
  case 0
  then show ?thesis using assms by (cases pages; cases new) (auto simp: list_all_iff dest: in_set_dropD)
next
  case (Suc j)
  then show ?thesis using assms by (cases pages) (auto simp: list_all_iff dest: in_set_takeD in_set_dropD)
qed

lemma dir_okI:
  assumes "pages \<noteq> []" "list_all page_ok pages" "list_all (\<lambda>pg. pg_parts pg \<noteq> []) (tl pages)" "concat (map pg_parts pages) = ps"
    "sorted_keys np_namespace ps" "first = first_names pages" "n = parts_bytes ps"
  shows "dir_ok \<lparr>nd_pages = pages, nd_first = first, nd_agg = recompute_root pages, nd_total = n\<rparr>"
    "dir_parts \<lparr>nd_pages = pages, nd_first = first, nd_agg = recompute_root pages, nd_total = n\<rparr> = ps"
  using assms by (auto simp: dir_ok_def dir_parts_def first_names_tl)

lemma dir_upsert_parts:
  assumes ok: "dir_ok d"
  shows "dir_ok (fst (dir_upsert q d)) \<and> dir_parts (fst (dir_upsert q d)) = put_part q (dir_parts d)"
proof -
  let ?ns = "np_namespace q"
  define i where "i = page_index_for (nd_first d) ?ns"
  obtain A P B where s: "dir_parts d = A @ P @ B" "P = pg_parts (nd_pages d ! i)" "nd_pages d ! i = page_of (map np_namespace P) P"
    "length P \<le> ns_page_max" "A = concat (map pg_parts (take i (nd_pages d)))" "B = concat (map pg_parts (drop (Suc i) (nd_pages d)))"
    "\<forall>p \<in> set A. np_namespace p < ?ns" "\<forall>p \<in> set B. ?ns < np_namespace p" "sorted_keys np_namespace P"
    by (rule dir_split [OF ok i_def])
  note il = dir_page(1) [OF ok i_def]
  define Q where "Q = put_part q P"
  define page where "page = page_of (map np_namespace Q) Q"
  define pages where "pages = (nd_pages d)[i := page]"
  have "Q \<noteq> []" by (simp add: Q_def put_part_def)
  moreover have "length Q = length P \<or> length Q = Suc (length P)"
    unfolding Q_def using upsert_page [OF s(9), of q] by blast
  ultimately have Q: "Q \<noteq> []" "length Q \<le> Suc (length P)" by auto
  have total: "nd_total d = parts_bytes (A @ P @ B)" and first: "nd_first d = first_names (nd_pages d)"
    and srt: "sorted_keys np_namespace (A @ P @ B)"
    and okp: "list_all page_ok (nd_pages d)" "list_all (\<lambda>pg. pg_parts pg \<noteq> []) (tl (nd_pages d))"
    using ok by (simp_all add: dir_ok_def s(1) [symmetric] first_names_tl)
  have put: "put_part q (A @ P @ B) = A @ Q @ B" unfolding Q_def by (rule put_part_middle [OF s(7,8)])
  let ?k = "search_strings (map np_namespace P) ?ns"
  define next' where "next' = (if length Q > ns_page_max then split_page i pages (nd_first d)
      else (pages, let f = (nd_first d)[i := map np_namespace Q ! 0] in if i = 0 then f[0 := ''''] else f))"
  have up: "fst (dir_upsert q d) = \<lparr>nd_pages = fst next', nd_first = snd next', nd_agg = recompute_root (fst next'),
      nd_total = nd_total d + (parts_bytes Q - parts_bytes P)\<rparr>"
  proof (cases "?k < length P \<and> np_namespace (P ! ?k) = ?ns")
    case True
    note u = upsert_page(1) [OF s(9), of q, OF True, folded Q_def]
    have "(if ?k < length (map np_namespace P) \<and> map np_namespace P ! ?k = ?ns then page_of (map np_namespace P) (P[?k := q])
        else page_of (take ?k (map np_namespace P) @ ?ns # drop ?k (map np_namespace P)) (take ?k P @ q # drop ?k P)) = page"
      using True u by (simp add: page_def)
    moreover have "?k < length (map np_namespace P) \<and> map np_namespace P ! ?k = ?ns" using True by simp
    moreover have "pg_names (nd_pages d ! i) = map np_namespace P" "pg_parts (nd_pages d ! i) = P" using s(2,3) by (simp_all add: page_of_def)
    moreover have "np_bytes q - np_bytes (P ! ?k) = parts_bytes Q - parts_bytes P" using u by blast
    moreover have "pg_names page = map np_namespace Q" by (simp add: page_def page_of_def)
    ultimately show ?thesis using Q(1)
      by (simp only: dir_upsert_def Let_def i_def [symmetric] fst_conv if_True pages_def [symmetric] next'_def length_map length_greater_0_conv not_False_eq_True)
        simp
  next
    case False
    note u = upsert_page(2) [OF s(9), of q, OF False, folded Q_def]
    have "(if ?k < length (map np_namespace P) \<and> map np_namespace P ! ?k = ?ns then page_of (map np_namespace P) (P[?k := q])
        else page_of (take ?k (map np_namespace P) @ ?ns # drop ?k (map np_namespace P)) (take ?k P @ q # drop ?k P)) = page"
      using False u by (simp add: page_def cong: conj_cong)
    moreover have "\<not> (?k < length (map np_namespace P) \<and> map np_namespace P ! ?k = ?ns)" using False by (simp cong: conj_cong)
    moreover have "pg_names (nd_pages d ! i) = map np_namespace P" "pg_parts (nd_pages d ! i) = P" using s(2,3) by (simp_all add: page_of_def)
    moreover have "np_bytes q = parts_bytes Q - parts_bytes P" using u by blast
    moreover have "pg_names page = map np_namespace Q" by (simp add: page_def page_of_def)
    ultimately show ?thesis using Q(1)
      by (simp only: dir_upsert_def Let_def i_def [symmetric] fst_conv if_False pages_def [symmetric] next'_def length_map length_greater_0_conv not_False_eq_True)
        simp
  qed
  have hdQ: "map np_namespace Q ! 0 = np_namespace (hd (pg_parts page))" using Q(1) by (simp add: page_def page_of_def hd_conv_nth)
  have srt': "sorted_keys np_namespace (A @ Q @ B)" using put_part_sorted [OF srt, of q] by (simp add: put)
  have n: "nd_total d + (parts_bytes Q - parts_bytes P) = parts_bytes (A @ Q @ B)" by (simp add: total)
  show ?thesis
  proof (cases "length Q > ns_page_max")
    case False
    have nx: "next' = (pages, first_names pages)"
    proof -
      have "(let f = (nd_first d)[i := map np_namespace Q ! 0] in if i = 0 then f[0 := ''''] else f) = first_names pages"
        unfolding first pages_def first_names_update hdQ by (cases i) (simp_all add: first_names_def list_update_swap)
      with False show ?thesis by (simp add: next'_def)
    qed
    have pages: "pages = take i (nd_pages d) @ [page] @ drop (Suc i) (nd_pages d)" unfolding pages_def using il by (simp add: upd_conv_take_nth_drop)
    have "list_all page_ok [page]" "list_all (\<lambda>pg. pg_parts pg \<noteq> []) [page]" using False Q(1) by (simp_all add: page_ok_def page_def page_of_def)
    then have "list_all page_ok pages" "list_all (\<lambda>pg. pg_parts pg \<noteq> []) (tl pages)"
      using list_all_pages [OF okp(1) pages] list_all_tl_pages [OF okp(2) pages _ il] by simp_all
    moreover have "concat (map pg_parts pages) = A @ Q @ B" unfolding pages by (simp add: s(5,6) page_def page_of_def)
    moreover have "pages \<noteq> []" by (simp add: pages)
    ultimately show ?thesis unfolding up nx put s(1) using dir_okI [OF _ _ _ _ srt' refl n] by simp
  next
    case True
    obtain pages' first' where r: "split_page i pages (nd_first d) = (pages', first')" by (rule prod.exhaust)
    have nx: "next' = (pages', first')" using True r by (simp add: next'_def)
    have i2: "i < length pages" "pages ! i = page_of (map np_namespace Q) Q" using il by (simp_all add: pages_def page_def)
    have len: "2 \<le> length Q" "length Q \<le> 2 * ns_page_max - 1" using True Q(2) s(4) by (simp_all add: ns_page_max_def)
    have f: "drop (Suc i) (nd_first d) = drop (Suc i) (first_names pages)" "take i (nd_first d) = take i (first_names pages)"
      unfolding first pages_def first_names_update by (cases i; simp add: first_names_def list_update_swap)+
    note sp = split_page_ok [OF i2 len f r]
    obtain L R where LR: "pages' = take i pages @ [L, R] @ drop (Suc i) pages" "page_ok L" "page_ok R" "pg_parts L \<noteq> []" "pg_parts R \<noteq> []"
      using sp(3) by blast
    have pages': "pages' = take i (nd_pages d) @ [L, R] @ drop (Suc i) (nd_pages d)" using LR(1) by (simp add: pages_def)
    have "list_all page_ok pages'" "list_all (\<lambda>pg. pg_parts pg \<noteq> []) (tl pages')"
      using list_all_pages [OF okp(1) pages'] list_all_tl_pages [OF okp(2) pages' _ il] LR(2-5) by simp_all
    moreover have "concat (map pg_parts pages') = A @ Q @ B" unfolding sp(1) by (simp add: pages_def s(5,6))
    moreover have "pages' \<noteq> []" by (simp add: pages')
    ultimately show ?thesis unfolding up nx put s(1) using dir_okI [OF _ _ _ _ srt' sp(2) n] by simp
  qed
qed

text \<open>An update of the directory answers the new partition for its namespace and what it answered before for every other, and the
  aggregate at the root is that of all partitions.\<close>

lemma dir_upsert_find:
  assumes "dir_ok d"
  shows "dir_ok (fst (dir_upsert q d))"
    and "dir_find (fst (dir_upsert q d)) ns = (if ns = np_namespace q then Some q else dir_find d ns)"
    and "set (dir_parts (fst (dir_upsert q d))) \<subseteq> insert q (set (dir_parts d))"
proof -
  note u = dir_upsert_parts [OF assms, of q]
  show ok: "dir_ok (fst (dir_upsert q d))" using u by simp
  show "dir_find (fst (dir_upsert q d)) ns = (if ns = np_namespace q then Some q else dir_find d ns)"
    unfolding dir_find_parts [OF assms] dir_find_parts [OF ok] using u by (simp add: put_part_find)
  show "set (dir_parts (fst (dir_upsert q d))) \<subseteq> insert q (set (dir_parts d))" using u by (auto simp: put_part_def)
qed

lemma dir_agg:
  assumes "dir_ok d"
  shows "nd_agg d = fold (\<lambda>p a. merge_agg a (part_agg p)) (dir_parts d) no_agg" "na_count (nd_agg d) = int (length (dir_parts d))"
    and "na_mask (nd_agg d) = fold (\<lambda>p m. m OR np_reason_mask p) (dir_parts d) 0"
proof -
  show a: "nd_agg d = fold (\<lambda>p a. merge_agg a (part_agg p)) (dir_parts d) no_agg"
    using root_agg_parts assms by (simp add: dir_ok_def dir_parts_def)
  have "na_count (fold (\<lambda>p a. merge_agg a (part_agg p)) ps b) = na_count b + int (length ps)" for ps b
    by (induction ps arbitrary: b) (simp_all add: merge_agg_def part_agg_def)
  then show "na_count (nd_agg d) = int (length (dir_parts d))" by (simp add: a no_agg_def)
  have "na_mask (fold (\<lambda>p a. merge_agg a (part_agg p)) ps b) = fold (\<lambda>p m. m OR np_reason_mask p) ps (na_mask b)" for ps b
    by (induction ps arbitrary: b) (simp_all add: merge_agg_def part_agg_def)
  then show "na_mask (nd_agg d) = fold (\<lambda>p m. m OR np_reason_mask p) (dir_parts d) 0" by (simp add: a no_agg_def)
qed

end
