(* ===== verification/Search_Index.thy ===== *)
theory Search_Index
  imports Ns_Dir
begin

text \<open>
  The search index of one resource type (\<open>searchIndex\<close> of \<open>internal/resourcecatalog/searchindex.go\<close>): batches of changes by
  namespace, marking a namespace stale, the identity of a row, and the bootstrap from a snapshot of the list with its estimate of
  memory.
\<close>

section \<open>The index\<close>

record search_index =
  si_kind :: string
  si_kind_tok :: string
  si_namespaced :: bool
  si_version :: u64
  si_dir :: ns_dir
  si_gvr_stale :: bool
  si_bytes :: int

definition new_search_index :: "string \<Rightarrow> bool \<Rightarrow> search_index" where
  "new_search_index kind namespaced =
     \<lparr>si_kind = kind, si_kind_tok = normalize_token kind, si_namespaced = namespaced, si_version = 0, si_dir = new_ns_dir,
      si_gvr_stale = False, si_bytes = 0\<rparr>"

definition index_bytes :: "search_index \<Rightarrow> ns_dir \<Rightarrow> int" where
  "index_bytes idx dir = dir_bytes dir + int (length (si_kind idx) + length (si_kind_tok idx)) + 128"

text \<open>One namespace of a batch. The growth of capacities is a number per namespace.\<close>

definition apply_namespace :: "search_index \<Rightarrow> time \<Rightarrow> (string \<Rightarrow> int) \<Rightarrow> (string, part_op list) gomap \<Rightarrow> string
    \<Rightarrow> ns_dir \<times> part_stats \<Rightarrow> ns_dir \<times> part_stats" where
  "apply_namespace idx now caps by_ns ns ds =
     (let ops = dedupe_part_ops (case map_of by_ns ns of None \<Rightarrow> [] | Some ops \<Rightarrow> ops);
          p = (case dir_find (fst ds) ns of None \<Rightarrow> new_ns_part ns (si_kind_tok idx) now | Some p \<Rightarrow> p);
          r = apply_part_ops p (si_namespaced idx) now (caps ns) ops (snd ds);
          u = dir_upsert (fst r) (fst ds) in
      (fst u, (snd r)\<lparr>ps_transient_bytes := ps_transient_bytes (snd r) + snd u\<rparr>))"

definition apply_ops :: "search_index \<Rightarrow> time \<Rightarrow> (string \<Rightarrow> int) \<Rightarrow> (string, part_op list) gomap \<Rightarrow> part_stats
    \<Rightarrow> search_index \<times> part_stats" where
  "apply_ops idx now caps by_ns st =
     (if by_ns = [] then (idx, st)
      else (let r = fold (apply_namespace idx now caps by_ns) (sort (keys_of by_ns)) (si_dir idx, st) in
        (idx\<lparr>si_version := si_version idx + 1, si_dir := fst r, si_bytes := index_bytes idx (fst r)\<rparr>, snd r)))"

section \<open>Reads\<close>

text \<open>The receivers may be nil.\<close>

definition stale_namespaces :: "search_index option \<Rightarrow> nat" where
  "stale_namespaces idx = (case idx of None \<Rightarrow> 0 | Some i \<Rightarrow>
     length (filter (\<lambda>p. np_reason_mask p AND ns_reason_stale \<noteq> 0) (dir_parts (si_dir i))))"

definition partition_count :: "search_index option \<Rightarrow> int" where
  "partition_count idx = (case idx of None \<Rightarrow> 0 | Some i \<Rightarrow> na_count (nd_agg (si_dir i)))"

definition root_agg :: "search_index option \<Rightarrow> ns_agg" where
  "root_agg idx = (case idx of None \<Rightarrow> no_agg | Some i \<Rightarrow> nd_agg (si_dir i))"

text \<open>The identity of a row: the UID, whether the answer is final, and whether the row was found.\<close>

definition lookup_identity :: "search_index option \<Rightarrow> string \<Rightarrow> string \<Rightarrow> string \<times> bool \<times> bool" where
  "lookup_identity idx namespace name =
     (case idx of
        None \<Rightarrow> ('''', False, False)
      | Some i \<Rightarrow>
          if si_gvr_stale i then ('''', False, False)
          else (case dir_find (si_dir i) namespace of
              None \<Rightarrow> ('''', True, False)
            | Some p \<Rightarrow>
                (let fresh = (np_reason_mask p AND ns_reason_stale = 0) in
                 case row_find (np_row_dir p) name of
                   None \<Rightarrow> ('''', fresh, False)
                 | Some (slot, _) \<Rightarrow>
                     (case trie_get (Some (np_row_root p)) slot of None \<Rightarrow> ('''', fresh, False) | Some rec \<Rightarrow> (rr_uid rec, fresh, True)))))"

definition mark_stale :: "search_index \<Rightarrow> string \<Rightarrow> time \<Rightarrow> search_index" where
  "mark_stale idx ns now =
     (let p = (case dir_find (si_dir idx) ns of None \<Rightarrow> new_ns_part ns (si_kind_tok idx) now | Some p \<Rightarrow> p);
          dir = fst (dir_upsert (p\<lparr>np_reason_mask := np_reason_mask p OR ns_reason_stale, np_version := np_version p + 1\<rparr>) (si_dir idx)) in
      idx\<lparr>si_version := si_version idx + 1, si_dir := dir, si_bytes := index_bytes idx dir\<rparr>)"

section \<open>The bootstrap\<close>

record persistent_measure =
  pm_rows :: int
  pm_namespaces :: int
  pm_postings :: int
  pm_max_ns_postings :: int
  pm_label_bytes :: int
  pm_id_bytes :: int
  pm_sep_bytes :: int
  pm_ns_name_bytes :: int

record measure_state =
  ms_measure :: persistent_measure
  ms_ns_postings :: int
  ms_ns_label_tokens :: int

definition flush_ns :: "measure_state \<Rightarrow> measure_state" where
  "flush_ns s =
     s\<lparr>ms_measure := (ms_measure s)\<lparr>pm_max_ns_postings := (if ms_ns_postings s > pm_max_ns_postings (ms_measure s)
          then ms_ns_postings s else pm_max_ns_postings (ms_measure s))\<rparr>,
       ms_ns_postings := 0, ms_ns_label_tokens := 0\<rparr>"

definition count_postings :: "int \<Rightarrow> measure_state \<Rightarrow> measure_state" where
  "count_postings n s = s\<lparr>ms_measure := (ms_measure s)\<lparr>pm_postings := pm_postings (ms_measure s) + n\<rparr>, ms_ns_postings := ms_ns_postings s + n\<rparr>"

definition measure_labels :: "index_row \<Rightarrow> measure_state \<Rightarrow> measure_state" where
  "measure_labels row s =
     (let ls = row_labels row in
      if ls = [] then s
      else (let ks = fst (sorted_label_keys ls);
                row_tokens = sum_list (map (\<lambda>k. 1 + (if label_value ls k \<noteq> '''' then 1 else 0)) ks);
                bytes = sum_list (map (\<lambda>k. token_bytes_of k + 1
                  + (if label_value ls k \<noteq> '''' then token_bytes_of (label_value ls k) + 1 else 0)) ks);
                s1 = s\<lparr>ms_measure := (ms_measure s)\<lparr>pm_label_bytes := pm_label_bytes (ms_measure s) + bytes\<rparr>\<rparr> in
            if ms_ns_label_tokens s1 + row_tokens \<le> max_ns_label_tokens
            then (count_postings row_tokens s1)\<lparr>ms_ns_label_tokens := ms_ns_label_tokens s1 + row_tokens\<rparr>
            else s1))"

definition measure_row :: "string \<Rightarrow> bool \<Rightarrow> index_row option \<Rightarrow> index_row \<Rightarrow> measure_state \<Rightarrow> measure_state" where
  "measure_row kind_tok namespaced prior row s =
     (let s1 = (if prior = None \<or> ir_namespace row \<noteq> ir_namespace (the prior)
                then (let s0 = (if prior = None then s else flush_ns s) in
                  s0\<lparr>ms_measure := (ms_measure s0)\<lparr>pm_namespaces := pm_namespaces (ms_measure s0) + 1,
                       pm_ns_name_bytes := pm_ns_name_bytes (ms_measure s0) + int (length (ir_namespace row))\<rparr>\<rparr>)
                else s);
          s2 = s1\<lparr>ms_measure := (ms_measure s1)\<lparr>pm_id_bytes := pm_id_bytes (ms_measure s1) + int (length (ir_name row)) + int (length (row_uid row))\<rparr>\<rparr>;
          s3 = count_postings 1 s2;
          s4 = (if namespaced \<and> ir_namespace row \<noteq> '''' then count_postings 1 s3 else s3);
          s5 = (if safe_token kind_tok then count_postings 1 s4 else s4) in
      measure_labels row s5)"

fun measure_rows :: "string \<Rightarrow> bool \<Rightarrow> index_row option \<Rightarrow> index_row list \<Rightarrow> measure_state \<Rightarrow> measure_state" where
  "measure_rows kind_tok namespaced prior [] s = s"
| "measure_rows kind_tok namespaced prior (row # rows) s =
     measure_rows kind_tok namespaced (Some row) rows (measure_row kind_tok namespaced prior row s)"

definition measure_persistent_input :: "index_row list \<Rightarrow> string \<Rightarrow> bool \<Rightarrow> persistent_measure" where
  "measure_persistent_input rows kind_tok namespaced =
     (let m0 = \<lparr>pm_rows = int (length rows), pm_namespaces = 0, pm_postings = 0, pm_max_ns_postings = 0, pm_label_bytes = 0,
               pm_id_bytes = 0, pm_sep_bytes = 0, pm_ns_name_bytes = 0\<rparr>;
          s = measure_rows kind_tok namespaced None rows \<lparr>ms_measure = m0, ms_ns_postings = 0, ms_ns_label_tokens = 0\<rparr>;
          m = ms_measure (if pm_rows m0 > 0 then flush_ns s else s);
          leaves = pm_postings m div int leaf_split + 1;
          avg_key = (if pm_rows m > 0 then pm_id_bytes m div pm_rows m + 16 else int token_prefix_bytes) in
      m\<lparr>pm_sep_bytes := leaves * avg_key\<rparr>)"

definition post_leaf_cap_bytes :: int where "post_leaf_cap_bytes = 24 * 2 + int leaf_max * 8"
definition row_leaf_cap_bytes :: int where "row_leaf_cap_bytes = 24 * 3 + 16 * 3 + int leaf_max * (16 + 4 + 1)"

text \<open>What the index will hold, and what it will hold at the peak of its construction.\<close>

definition persistent_search_cost :: "persistent_measure \<Rightarrow> int \<times> int" where
  "persistent_search_cost m =
     (let post_leaves = pm_postings m div int leaf_split + 1;
          row_leaves = pm_rows m div int leaf_split + 1;
          retained = 256 + (pm_rows m * 72 + pm_label_bytes m + pm_id_bytes m)
            + post_leaves * (post_leaf_cap_bytes + post_node_per_leaf_bytes)
            + row_leaves * (row_leaf_cap_bytes + row_node_per_leaf_bytes)
            + pm_sep_bytes m + pm_rows m * trie_bytes_per_slot
            + (pm_namespaces m * (ns_part_fixed_bytes + 2 * 16 + 8) + 2 * pm_ns_name_bytes m)
            + (pm_namespaces m div 64 + 2) * (24 * 2 + ns_agg_bytes);
          transient = pm_max_ns_postings m * (2 * 64 + 16) + (pm_rows m * (96 + 40) + pm_label_bytes m) in
      (retained, retained + transient))"

datatype search_state = Search_ready | Search_disabled | Search_syncing | Search_unavailable

datatype search_reason = No_reason | Reason_budget

record index_result =
  xr_index :: "search_index option"
  xr_state :: search_state
  xr_reason :: search_reason
  xr_peak :: int
  xr_needed :: int

definition refused :: "int \<Rightarrow> index_result" where
  "refused needed = \<lparr>xr_index = None, xr_state = Search_unavailable, xr_reason = Reason_budget, xr_peak = 0, xr_needed = needed\<rparr>"

definition row_change :: "index_row \<Rightarrow> part_op" where
  "row_change row =
     (case label_tokens_of row of (labels, truncated) \<Rightarrow>
        \<lparr>po_name = ir_name row,
         po_input = Some \<lparr>ri_in_name = ir_name row, ri_in_uid = row_uid row, ri_in_labels = labels, ri_in_truncated = truncated\<rparr>\<rparr>)"

definition group_changes :: "index_row list \<Rightarrow> (string, part_op list) gomap" where
  "group_changes rows =
     fold (\<lambda>row m. put (ir_namespace row) ((case map_of m (ir_namespace row) of None \<Rightarrow> [] | Some ops \<Rightarrow> ops) @ [row_change row]) m) rows []"

definition build_search_index :: "(index_row list \<times> time) option \<Rightarrow> string \<Rightarrow> bool \<Rightarrow> int \<Rightarrow> int \<Rightarrow> (string \<Rightarrow> int) \<Rightarrow> index_result" where
  "build_search_index index kind namespaced retained_budget peak_allowance caps =
     (let idx = new_search_index kind namespaced;
          empty = (let b = dir_bytes (si_dir idx) + 128 in
            \<lparr>xr_index = Some (idx\<lparr>si_bytes := b\<rparr>), xr_state = Search_ready, xr_reason = No_reason, xr_peak = b, xr_needed = 0\<rparr>) in
      case index of
        None \<Rightarrow> empty
      | Some (rows, built_at) \<Rightarrow>
          if rows = [] then empty
          else (let cost = persistent_search_cost (measure_persistent_input rows (si_kind_tok idx) namespaced) in
            if fst cost > retained_budget \<or> snd cost > peak_allowance then refused (fst cost)
            else (let r = apply_ops idx built_at caps (group_changes rows) zero_stats in
              if ps_slot_exhausted (snd r) then refused (fst cost)
              else if si_bytes (fst r) > retained_budget then refused (si_bytes (fst r))
              else \<lparr>xr_index = Some (fst r), xr_state = Search_ready, xr_reason = No_reason,
                    xr_peak = si_bytes (fst r) + ps_transient_bytes (snd r), xr_needed = 0\<rparr>)))"

end
