(* ===== verification/Index_Props.thy ===== *)
theory Index_Props
  imports Part_Update Search_Index
begin

text \<open>
  The index as a map from namespace and name to a row: batches change it as they say, a lookup reads it, a stale namespace loses
  its authority and nothing else, and the bootstrap makes it the map of the snapshot.
\<close>

section \<open>The rows of an index\<close>

definition stored_row :: "search_index \<Rightarrow> string \<Rightarrow> string \<Rightarrow> row_record option" where
  "stored_row idx ns name = (case dir_find (si_dir idx) ns of None \<Rightarrow> None | Some p \<Rightarrow> part_row p name)"

definition parts_ok :: "ns_dir \<Rightarrow> bool" where
  "parts_ok d \<longleftrightarrow> dir_ok d \<and> list_all part_ok (dir_parts d)"

definition index_ok :: "search_index \<Rightarrow> bool" where
  "index_ok idx \<longleftrightarrow> parts_ok (si_dir idx)"

definition part_for :: "search_index \<Rightarrow> time \<Rightarrow> ns_dir \<Rightarrow> string \<Rightarrow> ns_part" where
  "part_for idx now d ns = (case dir_find d ns of None \<Rightarrow> new_ns_part ns (si_kind_tok idx) now | Some p \<Rightarrow> p)"

definition batch_fits :: "search_index \<Rightarrow> time \<Rightarrow> ns_dir \<Rightarrow> string \<Rightarrow> part_op list \<Rightarrow> bool" where
  "batch_fits idx now d ns ops \<longleftrightarrow>
     slots_needed (dedupe_part_ops ops) \<le> slots_left (np_free_top (part_for idx now d ns)) (np_slot_high (part_for idx now d ns))"

text \<open>What is assumed of the changes of a namespace: no fence of its directory separates their names, and the labels are normalized.\<close>

definition batch_ok :: "search_index \<Rightarrow> time \<Rightarrow> ns_dir \<Rightarrow> string \<Rightarrow> part_op list \<Rightarrow> bool" where
  "batch_ok idx now d ns ops \<longleftrightarrow> list_all change_ok ops \<and> names_unsplit (tree_fences (np_row_dir (part_for idx now d ns))) ops"

lemma rows_after_dedupe:
  shows "distinct (map po_name (dedupe_part_ops ops))" "set (dedupe_part_ops ops) \<subseteq> set ops"
    and "rows_after (dedupe_part_ops ops) f name = rows_after (rev ops) f name"
proof -
  let ?s = "last_wins po_name [] (sort_key po_name ops)"
  have "distinct (map po_name (dedupe_part_ops ops)) \<and> set (dedupe_part_ops ops) \<subseteq> set ops
    \<and> rows_after (dedupe_part_ops ops) f name = rows_after (rev ops) f name"
  proof (cases "length ops < 2")
    case True
    then have "ops = [] \<or> (\<exists>x. ops = [x])" by (cases ops) (auto simp: length_Suc_conv less_Suc_eq)
    with True show ?thesis by (auto simp: dedupe_part_ops_def)
  next
    case False
    have "distinct (map po_name ?s)" using last_wins_sorted(1) [of po_name ops] by (simp add: strict_sorted_iff)
    moreover have "set ?s \<subseteq> set ops" unfolding subset_iff last_wins_sorted(3) using find_Some_in by fastforce
    moreover have "rows_after ?s f name = rows_after (rev ops) f name" unfolding rows_after_def last_wins_sorted(2) ..
    ultimately show ?thesis using False by (simp add: dedupe_part_ops_def)
  qed
  then show "distinct (map po_name (dedupe_part_ops ops))" "set (dedupe_part_ops ops) \<subseteq> set ops"
    "rows_after (dedupe_part_ops ops) f name = rows_after (rev ops) f name" by blast+
qed

lemma names_unsplit_subset: "\<lbrakk>names_unsplit fences ops; set ops' \<subseteq> set ops\<rbrakk> \<Longrightarrow> names_unsplit fences ops'"
  unfolding names_unsplit_def list_all_iff by blast

lemma batch_namespace: "np_namespace (fst (apply_part_ops p namespaced now caps ops st)) = np_namespace p"
  by (simp add: apply_part_ops_def finish_part_def Let_def split: sum.split)

lemma part_for_ok:
  assumes "parts_ok d"
  shows "part_ok (part_for idx now d ns)" "np_namespace (part_for idx now d ns) = ns"
    and "part_row (part_for idx now d ns) name = (case dir_find d ns of None \<Rightarrow> None | Some p \<Rightarrow> part_row p name)"
proof -
  have d: "dir_ok d" "list_all part_ok (dir_parts d)" using assms by (simp_all add: parts_ok_def)
  have items: "part_items (new_ns_part ns (si_kind_tok idx) now) = []"
    using new_part_ok [of ns "si_kind_tok idx" now] by (simp add: part_ok_def new_ns_part_def)
  have none: "part_row (new_ns_part ns (si_kind_tok idx) now) name = None" by (rule part_row_none(1) [OF new_part_ok]) (simp add: items)
  have "part_ok (part_for idx now d ns) \<and> np_namespace (part_for idx now d ns) = ns
    \<and> part_row (part_for idx now d ns) name = (case dir_find d ns of None \<Rightarrow> None | Some p \<Rightarrow> part_row p name)"
  proof (cases "dir_find d ns")
    case None
    then have p: "part_for idx now d ns = new_ns_part ns (si_kind_tok idx) now" by (simp add: part_for_def)
    have "np_namespace (new_ns_part ns (si_kind_tok idx) now) = ns" by (simp add: new_ns_part_def)
    then show ?thesis unfolding p None using new_part_ok none by simp
  next
    case (Some p)
    have "List.find (\<lambda>p. np_namespace p = ns) (dir_parts d) = Some p" using Some by (simp only: dir_find_parts [OF d(1)])
    from find_Some_in [OF this] show ?thesis using Some d(2) by (simp add: part_for_def list_all_iff)
  qed
  then show "part_ok (part_for idx now d ns)" "np_namespace (part_for idx now d ns) = ns"
    "part_row (part_for idx now d ns) name = (case dir_find d ns of None \<Rightarrow> None | Some p \<Rightarrow> part_row p name)" by blast+
qed

section \<open>One namespace of a batch\<close>

definition rows_next :: "search_index \<Rightarrow> time \<Rightarrow> ns_dir \<Rightarrow> (string, part_op list) gomap \<Rightarrow> string \<Rightarrow> string \<Rightarrow> row_record option" where
  "rows_next idx now d by_ns ns =
     (let old = (\<lambda>name. case dir_find d ns of None \<Rightarrow> None | Some p \<Rightarrow> part_row p name) in
      case map_of by_ns ns of None \<Rightarrow> old | Some ops \<Rightarrow> if batch_fits idx now d ns ops then rows_after (rev ops) old else old)"

lemma apply_namespace_ok:
  assumes ok: "parts_ok d" and ops: "map_of by_ns ns = Some ops" and b: "batch_ok idx now d ns ops"
    and r: "apply_namespace idx now caps by_ns ns (d, st) = (d', st')"
  shows "parts_ok d'" "ns' \<noteq> ns \<Longrightarrow> dir_find d' ns' = dir_find d ns'"
    and "\<exists>p'. dir_find d' ns = Some p' \<and> part_row p' = rows_next idx now d by_ns ns"
    and "ps_slot_exhausted st' \<longleftrightarrow> ps_slot_exhausted st \<or> \<not> batch_fits idx now d ns ops"
proof -
  let ?p = "part_for idx now d ns" and ?ops = "dedupe_part_ops ops"
  obtain q st1 where q: "apply_part_ops ?p (si_namespaced idx) now (caps ns) ?ops st = (q, st1)" by (rule prod.exhaust)
  have d': "d' = fst (dir_upsert q d)" "ps_slot_exhausted st' = ps_slot_exhausted st1"
    using r q ops by (auto simp: apply_namespace_def Let_def part_for_def)
  have d: "dir_ok d" "list_all part_ok (dir_parts d)" using ok by (simp_all add: parts_ok_def)
  note p = part_for_ok [OF ok, of idx now ns] and dd = rows_after_dedupe [of ops]
  have c: "list_all change_ok ?ops" using b dd(2) by (auto simp: batch_ok_def list_all_iff)
  have u: "names_unsplit (tree_fences (np_row_dir ?p)) ?ops" using b names_unsplit_subset [OF _ dd(2)] by (simp add: batch_ok_def)
  note upd = part_batch [OF p(1) dd(1) c u q]
  have nq: "np_namespace q = ns" using batch_namespace [of ?p "si_namespaced idx" now "caps ns" ?ops st] p(2) q by simp
  note up = dir_upsert_find [OF d(1), of q]
  show "parts_ok d'" using up(1,3) upd d(2) by (auto simp: parts_ok_def d'(1) list_all_iff)
  show "ns' \<noteq> ns \<Longrightarrow> dir_find d' ns' = dir_find d ns'" by (simp add: d'(1) up(2) nq)
  have "part_row q = rows_next idx now d by_ns ns"
  proof
    fix name
    show "part_row q name = rows_next idx now d by_ns ns name"
      using upd ops dd(3) [of "part_row ?p" name] p(3) by (simp add: rows_next_def Let_def batch_fits_def) (simp add: rows_after_def split: option.split)
  qed
  then show "\<exists>p'. dir_find d' ns = Some p' \<and> part_row p' = rows_next idx now d by_ns ns" by (simp add: d'(1) up(2) nq)
  show "ps_slot_exhausted st' \<longleftrightarrow> ps_slot_exhausted st \<or> \<not> batch_fits idx now d ns ops"
    using upd by (auto simp: d'(2) batch_fits_def)
qed

section \<open>A whole batch\<close>

lemma same_namespace:
  assumes "dir_find d' ns = dir_find d ns"
  shows "batch_ok idx now d' ns ops = batch_ok idx now d ns ops" "batch_fits idx now d' ns ops = batch_fits idx now d ns ops"
    and "rows_next idx now d' by_ns ns = rows_next idx now d by_ns ns"
proof -
  have p: "part_for idx now d' ns = part_for idx now d ns" by (simp add: part_for_def assms)
  show f: "batch_ok idx now d' ns ops = batch_ok idx now d ns ops" "batch_fits idx now d' ns ops = batch_fits idx now d ns ops" for ops
    by (simp_all add: batch_ok_def batch_fits_def p)
  show "rows_next idx now d' by_ns ns = rows_next idx now d by_ns ns" unfolding rows_next_def assms f ..
qed

lemma fold_namespaces:
  assumes "parts_ok d" "distinct names" "\<forall>ns \<in> set names. \<exists>ops. map_of by_ns ns = Some ops \<and> batch_ok idx now d ns ops"
    and "fold (apply_namespace idx now caps by_ns) names (d, st) = (d', st')"
  shows "parts_ok d' \<and> (\<forall>ns. ns \<notin> set names \<longrightarrow> dir_find d' ns = dir_find d ns)
    \<and> (\<forall>ns \<in> set names. \<exists>p'. dir_find d' ns = Some p' \<and> part_row p' = rows_next idx now d by_ns ns)
    \<and> (ps_slot_exhausted st' \<longleftrightarrow> ps_slot_exhausted st \<or> (\<exists>ns \<in> set names. \<not> batch_fits idx now d ns (the (map_of by_ns ns))))"
  using assms
proof (induction names arbitrary: d st)
  case (Cons ns names)
  obtain d1 st1 where s: "apply_namespace idx now caps by_ns ns (d, st) = (d1, st1)" by (rule prod.exhaust)
  obtain ops where o: "map_of by_ns ns = Some ops" "batch_ok idx now d ns ops" using Cons.prems(3) by auto
  note st = apply_namespace_ok [OF Cons.prems(1) o s]
  have fresh: "ns \<notin> set names" "distinct names" using Cons.prems(2) by auto
  have same: "dir_find d1 n = dir_find d n" if "n \<in> set names" for n
  proof -
    have "n \<noteq> ns" using that fresh(1) by auto
    then show ?thesis by (rule st(2))
  qed
  have ok: "\<forall>n \<in> set names. \<exists>ops. map_of by_ns n = Some ops \<and> batch_ok idx now d1 n ops"
  proof
    fix n assume n: "n \<in> set names"
    then obtain ops' where "map_of by_ns n = Some ops'" "batch_ok idx now d n ops'" using Cons.prems(3) by auto
    then show "\<exists>ops. map_of by_ns n = Some ops \<and> batch_ok idx now d1 n ops" unfolding same_namespace(1) [OF same [OF n]] by blast
  qed
  have rest: "fold (apply_namespace idx now caps by_ns) names (d1, st1) = (d', st')" using Cons.prems(4) s by simp
  note IH = Cons.IH [OF st(1) fresh(2) ok rest]
  have out: "dir_find d' n = dir_find d n" if "n \<notin> set (ns # names)" for n using IH st(2) that by simp
  have here: "\<exists>p'. dir_find d' ns = Some p' \<and> part_row p' = rows_next idx now d by_ns ns" using IH st(3) fresh(1) by simp
  have there: "\<exists>p'. dir_find d' n = Some p' \<and> part_row p' = rows_next idx now d by_ns n" if n: "n \<in> set names" for n
  proof -
    have "\<exists>p'. dir_find d' n = Some p' \<and> part_row p' = rows_next idx now d1 by_ns n" using IH n by blast
    then show ?thesis by (simp only: same_namespace(3) [OF same [OF n], of idx now by_ns])
  qed
  have "(\<exists>n \<in> set names. \<not> batch_fits idx now d1 n (the (map_of by_ns n))) \<longleftrightarrow> (\<exists>n \<in> set names. \<not> batch_fits idx now d n (the (map_of by_ns n)))"
    using same_namespace(2) [OF same] by blast
  then have "ps_slot_exhausted st' \<longleftrightarrow> ps_slot_exhausted st \<or> (\<exists>n \<in> set (ns # names). \<not> batch_fits idx now d n (the (map_of by_ns n)))"
    using IH st(4) o(1) by auto
  with IH out here there show ?case by simp
qed simp

lemma apply_ops_rows:
  assumes ok: "index_ok idx" and keys: "distinct (keys_of by_ns)"
    and b: "\<forall>(ns, ops) \<in> set by_ns. batch_ok idx now (si_dir idx) ns ops"
    and r: "apply_ops idx now caps by_ns st = (idx', st')"
  shows "index_ok idx'" "stored_row idx' ns = rows_next idx now (si_dir idx) by_ns ns" "si_gvr_stale idx' = si_gvr_stale idx"
    and "ps_slot_exhausted st' \<longleftrightarrow> ps_slot_exhausted st \<or> (\<exists>(ns, ops) \<in> set by_ns. \<not> batch_fits idx now (si_dir idx) ns ops)"
proof -
  have "index_ok idx' \<and> stored_row idx' ns = rows_next idx now (si_dir idx) by_ns ns \<and> si_gvr_stale idx' = si_gvr_stale idx
    \<and> (ps_slot_exhausted st' \<longleftrightarrow> ps_slot_exhausted st \<or> (\<exists>(ns, ops) \<in> set by_ns. \<not> batch_fits idx now (si_dir idx) ns ops))"
  proof (cases "by_ns = []")
    case True
    have "stored_row idx ns = rows_next idx now (si_dir idx) [] ns" by (simp add: fun_eq_iff stored_row_def rows_next_def Let_def)
    with True r ok show ?thesis by (simp add: apply_ops_def)
  next
    case False
    let ?names = "sort (keys_of by_ns)"
    obtain d' st1 where f: "fold (apply_namespace idx now caps by_ns) ?names (si_dir idx, st) = (d', st1)" by (rule prod.exhaust)
    have idx': "idx' = idx\<lparr>si_version := si_version idx + 1, si_dir := d', si_bytes := index_bytes idx d'\<rparr>" "st' = st1"
      using r False f by (simp_all add: apply_ops_def Let_def)
    have dist: "distinct (map fst by_ns)" using keys by simp
    have names: "set ?names = fst ` set by_ns" by simp
    have mo: "map_of by_ns n = Some ops \<longleftrightarrow> (n, ops) \<in> set by_ns" for n ops using map_of_eq_Some_iff [OF dist] by simp
    have all: "\<forall>n \<in> set ?names. \<exists>ops. map_of by_ns n = Some ops \<and> batch_ok idx now (si_dir idx) n ops"
    proof
      fix n assume "n \<in> set ?names"
      then obtain ops where m: "(n, ops) \<in> set by_ns" unfolding names by force
      then have "batch_ok idx now (si_dir idx) n ops" using b by auto
      with m mo show "\<exists>ops. map_of by_ns n = Some ops \<and> batch_ok idx now (si_dir idx) n ops" by blast
    qed
    have d: "distinct ?names" "parts_ok (si_dir idx)" using keys ok by (simp_all add: index_ok_def)
    note fn = fold_namespaces [OF d(2,1) all f]
    have "stored_row idx' ns = rows_next idx now (si_dir idx) by_ns ns"
    proof (cases "ns \<in> set ?names")
      case True
      with fn obtain p' where "dir_find d' ns = Some p'" "part_row p' = rows_next idx now (si_dir idx) by_ns ns" by blast
      then show ?thesis by (simp add: fun_eq_iff stored_row_def idx')
    next
      case out: False
      then have "map_of by_ns ns = None" unfolding names by (simp add: map_of_eq_None_iff)
      with fn out show ?thesis by (simp add: fun_eq_iff stored_row_def idx' rows_next_def Let_def)
    qed
    moreover have the: "the (map_of by_ns (fst x)) = snd x" if "x \<in> set by_ns" for x
      using mo [of "fst x" "snd x"] that by simp
    moreover have "(\<exists>n \<in> set ?names. \<not> batch_fits idx now (si_dir idx) n (the (map_of by_ns n))) \<longleftrightarrow> (\<exists>(n, ops) \<in> set by_ns. \<not> batch_fits idx now (si_dir idx) n ops)"
      unfolding names by (simp add: the case_prod_beta cong: bex_cong)
    ultimately show ?thesis using fn by (simp add: idx' index_ok_def)
  qed
  then show "index_ok idx'" "stored_row idx' ns = rows_next idx now (si_dir idx) by_ns ns" "si_gvr_stale idx' = si_gvr_stale idx"
    "ps_slot_exhausted st' \<longleftrightarrow> ps_slot_exhausted st \<or> (\<exists>(ns, ops) \<in> set by_ns. \<not> batch_fits idx now (si_dir idx) ns ops)" by blast+
qed

section \<open>Reads and stale namespaces\<close>

definition fresh_namespace :: "search_index \<Rightarrow> string \<Rightarrow> bool" where
  "fresh_namespace idx ns \<longleftrightarrow> (case dir_find (si_dir idx) ns of None \<Rightarrow> True | Some p \<Rightarrow> np_reason_mask p AND ns_reason_stale = 0)"

lemma lookup_stored:
  "lookup_identity (Some idx) ns name =
    (if si_gvr_stale idx then ('''', False, False)
     else (case stored_row idx ns name of None \<Rightarrow> '''' | Some rec \<Rightarrow> rr_uid rec, fresh_namespace idx ns, stored_row idx ns name \<noteq> None))"
  by (auto simp: lookup_identity_def stored_row_def fresh_namespace_def part_row_def Let_def split: option.splits)

lemma part_ok_mask: "part_ok (p\<lparr>np_reason_mask := m, np_version := v\<rparr>) = part_ok p" "part_row (p\<lparr>np_reason_mask := m, np_version := v\<rparr>) = part_row p"
proof -
  show r: "part_row (p\<lparr>np_reason_mask := m, np_version := v\<rparr>) = part_row p"
    by (rule ext) (simp add: part_row_def cong: option.case_cong)
  show "part_ok (p\<lparr>np_reason_mask := m, np_version := v\<rparr>) = part_ok p"
    unfolding part_ok_def fold_kept_def r by simp
qed

text \<open>A stale namespace loses its authority; no row changes, and no other namespace.\<close>

lemma mark_stale_withdraws:
  assumes "index_ok idx"
  shows "index_ok (mark_stale idx ns now)" "stored_row (mark_stale idx ns now) = stored_row idx"
    and "fresh_namespace (mark_stale idx ns now) n \<longleftrightarrow> n \<noteq> ns \<and> fresh_namespace idx n"
proof -
  let ?p = "part_for idx now (si_dir idx) ns"
  let ?q = "?p\<lparr>np_reason_mask := np_reason_mask ?p OR ns_reason_stale, np_version := np_version ?p + 1\<rparr>"
  have d: "dir_ok (si_dir idx)" "list_all part_ok (dir_parts (si_dir idx))" "parts_ok (si_dir idx)" using assms by (simp_all add: index_ok_def parts_ok_def)
  note p = part_for_ok [OF d(3), of idx now ns]
  have dir: "si_dir (mark_stale idx ns now) = fst (dir_upsert ?q (si_dir idx))" by (simp add: mark_stale_def part_for_def Let_def)
  have find: "dir_find (si_dir (mark_stale idx ns now)) n = (if n = ns then Some ?q else dir_find (si_dir idx) n)" for n
    unfolding dir using dir_upsert_find(2) [OF d(1), of ?q n] p(2) by simp
  show "index_ok (mark_stale idx ns now)"
    unfolding index_ok_def parts_ok_def dir using dir_upsert_find(1,3) [OF d(1), of ?q] d(2) p(1) by (auto simp: list_all_iff part_ok_mask)
  show "stored_row (mark_stale idx ns now) = stored_row idx"
    by (simp add: fun_eq_iff stored_row_def find part_ok_mask p(3))
  have "(m OR ns_reason_stale) AND ns_reason_stale = ns_reason_stale" for m
    by (rule bit_word_eqI) (auto simp: bit_simps)
  then have "(np_reason_mask ?p OR ns_reason_stale) AND ns_reason_stale \<noteq> 0" by (simp add: ns_reason_stale_def)
  then show "fresh_namespace (mark_stale idx ns now) n \<longleftrightarrow> n \<noteq> ns \<and> fresh_namespace idx n" by (simp add: fresh_namespace_def find)
qed

section \<open>Batches and the bootstrap\<close>

lemma new_index_ok: "index_ok (new_search_index kind namespaced)" "stored_row (new_search_index kind namespaced) ns name = None"
proof -
  show "index_ok (new_search_index kind namespaced)" by (simp add: index_ok_def parts_ok_def new_search_index_def new_dir_ok0)
  show "stored_row (new_search_index kind namespaced) ns name = None"
    by (simp add: stored_row_def new_search_index_def dir_find_parts [OF new_dir_ok0(1)] new_dir_ok0(2))
qed

lemma new_index_part: "part_for idx now new_ns_dir ns = new_ns_part ns (si_kind_tok idx) now"
  by (simp add: part_for_def dir_find_parts [OF new_dir_ok0(1)] new_dir_ok0(2))

lemma new_part_facts: "tree_fences (np_row_dir (new_ns_part ns kind now)) = []" "slots_left (np_free_top (new_ns_part ns kind now)) (np_slot_high (new_ns_part ns kind now)) = 2 ^ 24"
  by (simp_all add: new_ns_part_def new_row_tree_def Let_def slots_left_def free_slots_def)

lemma new_batch_fits:
  assumes "length ops \<le> 2 ^ 24"
  shows "batch_fits idx now new_ns_dir ns ops"
proof -
  have "slots_needed (dedupe_part_ops ops) \<le> length (dedupe_part_ops ops)" by (simp add: slots_needed_def)
  also have "\<dots> = card (set (dedupe_part_ops ops))"
    using rows_after_dedupe(1) [of ops] by (simp add: distinct_map distinct_card)
  also have "\<dots> \<le> card (set ops)" by (rule card_mono) (simp_all add: rows_after_dedupe(2))
  also have "\<dots> \<le> length ops" by (rule card_length)
  finally show ?thesis unfolding batch_fits_def new_index_part new_part_facts using assms by simp
qed



lemma group_changes_of:
  "distinct (keys_of (group_changes rows))
    \<and> map_of (group_changes rows) ns = (let rs = filter (\<lambda>row. ir_namespace row = ns) rows in if rs = [] then None else Some (map row_change rs))"
proof (induction rows rule: rev_induct)
  case (snoc row rows)
  have g: "group_changes (rows @ [row]) = put (ir_namespace row)
      ((case map_of (group_changes rows) (ir_namespace row) of None \<Rightarrow> [] | Some ops \<Rightarrow> ops) @ [row_change row]) (group_changes rows)"
    by (simp add: group_changes_def)
  show ?case
  proof (cases "ir_namespace row = ns")
    case True
    with snoc show ?thesis by (auto simp: g map_of_put distinct_put Let_def)
  next
    case False
    with snoc show ?thesis by (auto simp: g map_of_put distinct_put Let_def)
  qed
qed (simp add: group_changes_def)

lemma normalized_short: "length (normalize_token s) < 256"
  by (simp add: normalize_token_def token_prefix_bytes_def)

lemma row_change_ok: "change_ok (row_change row)"
proof -
  obtain ts tr where t: "label_tokens_of row = (ts, tr)" by (rule prod.exhaust)
  have "length ts \<le> 2 * max_label_keys \<and> list_all (\<lambda>t. length t < 256) ts"
  proof (cases "row_labels row = []")
    case True
    then show ?thesis using t by (simp add: label_tokens_of_def)
  next
    case False
    obtain ks b where k: "sorted_label_keys (row_labels row) = (ks, b)" by (rule prod.exhaust)
    have n: "length ks \<le> max_label_keys" using k by (auto simp: sorted_label_keys_def Let_def split: if_splits)
    let ?f = "\<lambda>k. normalize_token k # (if label_value (row_labels row) k \<noteq> '''' then [normalize_token (label_value (row_labels row) k)] else [])"
    have ts: "ts = concat (map ?f ks)" using t False k by (simp add: label_tokens_of_def Let_def)
    have "length (concat (map ?f xs)) \<le> 2 * length xs" for xs by (induction xs) simp_all
    from this [of ks] n have "length ts \<le> 2 * max_label_keys" unfolding ts by linarith
    moreover have "list_all (\<lambda>t. length t < 256) ts" unfolding ts by (auto simp: list_all_iff normalized_short)
    ultimately show ?thesis ..
  qed
  then show ?thesis by (simp add: change_ok_def row_change_def t input_ok_def)
qed

lemma row_change_name: "po_name (row_change row) = ir_name row" "po_input (row_change row) \<noteq> None"
  by (simp_all add: row_change_def split: prod.split)

lemma row_change_input: "map_option f (po_input (row_change row)) = Some (f (the (po_input (row_change row))))"
  by (simp add: row_change_def split: prod.split)

lemma new_batch_ok: "list_all change_ok ops \<Longrightarrow> batch_ok idx now new_ns_dir ns ops"
  by (simp add: batch_ok_def new_index_part new_part_facts names_unsplit_def)

text \<open>The row that the snapshot has last for a namespace and a name.\<close>

definition snapshot_row :: "index_row list \<Rightarrow> string \<Rightarrow> string \<Rightarrow> row_record option" where
  "snapshot_row rows ns name =
     map_option (\<lambda>row. record_of_input (the (po_input (row_change row)))) (List.find (\<lambda>row. ir_namespace row = ns \<and> ir_name row = name) (rev rows))"

lemma find_filter_rev: "List.find P (rev (filter Q xs)) = List.find (\<lambda>x. Q x \<and> P x) (rev xs)"
  by (induction xs rule: rev_induct) auto

lemma find_map_change: "List.find (\<lambda>po. po_name po = name) (map row_change rows) = map_option row_change (List.find (\<lambda>row. ir_name row = name) rows)"
  by (induction rows) (simp_all add: row_change_name)

lemma grouped_rows:
  "(case map_of (group_changes rows) ns of None \<Rightarrow> None | Some ops \<Rightarrow> rows_after (rev ops) (\<lambda>_. None) name) = snapshot_row rows ns name"
proof -
  let ?rs = "filter (\<lambda>row. ir_namespace row = ns) rows"
  have f: "List.find (\<lambda>row. ir_namespace row = ns \<and> ir_name row = name) (rev rows) = List.find (\<lambda>row. ir_name row = name) (rev ?rs)"
    by (rule find_filter_rev [symmetric])
  show ?thesis
  proof (cases "?rs = []")
    case True
    then have "map_of (group_changes rows) ns = None" using group_changes_of [of rows ns] by (simp only: Let_def if_True refl)
    then show ?thesis unfolding snapshot_row_def f True by simp
  next
    case False
    then have "map_of (group_changes rows) ns = Some (map row_change ?rs)" using group_changes_of [of rows ns] by (simp only: Let_def if_False)
    then show ?thesis unfolding snapshot_row_def f
      by (simp add: rows_after_def rev_map find_map_change row_change_input split: option.split)
  qed
qed

lemma bootstrap_batch:
  shows "distinct (keys_of (group_changes rows))" "\<forall>(ns, ops) \<in> set (group_changes rows). batch_ok idx now new_ns_dir ns ops"
    and "(ns, ops) \<in> set (group_changes rows) \<Longrightarrow> length ops \<le> length rows"
proof -
  show d: "distinct (keys_of (group_changes rows))" using group_changes_of [of rows] by blast
  have ops: "ops = map row_change (filter (\<lambda>row. ir_namespace row = ns) rows)" if "(ns, ops) \<in> set (group_changes rows)" for ns ops
    using map_of_is_SomeI [OF d that] group_changes_of [of rows ns] by (simp add: Let_def split: if_splits)
  show "\<forall>(ns, ops) \<in> set (group_changes rows). batch_ok idx now new_ns_dir ns ops"
  proof (safe intro!: new_batch_ok)
    fix ns ops' assume "(ns, ops') \<in> set (group_changes rows)"
    then have o: "ops' = map row_change (filter (\<lambda>row. ir_namespace row = ns) rows)" by (rule ops)
    show "list_all change_ok ops'" unfolding o by (simp add: list_all_iff row_change_ok)
  qed
  assume "(ns, ops) \<in> set (group_changes rows)"
  then have o: "ops = map row_change (filter (\<lambda>row. ir_namespace row = ns) rows)" by (rule ops)
  show "length ops \<le> length rows" unfolding o by simp
qed

text \<open>
  (C16) The bootstrap builds the index of the snapshot, or refuses for the budget. An index it returns is well-formed and has, for
  every namespace and name, the row that comes last for them in the snapshot, with its labels normalized, and no other; it
  stays within the retained budget. It is refused only when the estimate passes the budget or the allowance, when a
  namespace has more than \<open>2 ^ 24\<close> rows, or when the index built is too large.
\<close>

theorem bootstrap_indexes_snapshot:
  "case xr_index (build_search_index (Some (rows, t)) kind namespaced budget peak caps) of
     Some idx \<Rightarrow>
       index_ok idx \<and> (\<forall>ns name. stored_row idx ns name = snapshot_row rows ns name) \<and> (rows = [] \<or> si_bytes idx \<le> budget)
   | None \<Rightarrow>
       (let cost = persistent_search_cost (measure_persistent_input rows (normalize_token kind) namespaced);
            built = fst (apply_ops (new_search_index kind namespaced) t caps (group_changes rows) zero_stats) in
        fst cost > budget \<or> snd cost > peak \<or> length rows > 2 ^ 24 \<or> si_bytes built > budget)"
proof (cases "rows = []")
  case True
  have "si_dir (new_search_index kind namespaced\<lparr>si_bytes := b\<rparr>) = new_ns_dir" for b by (simp add: new_search_index_def)
  then have "index_ok (new_search_index kind namespaced\<lparr>si_bytes := b\<rparr>)" "stored_row (new_search_index kind namespaced\<lparr>si_bytes := b\<rparr>) ns name = None" for b ns name
    using new_index_ok [of kind namespaced] by (simp_all add: index_ok_def stored_row_def new_search_index_def)
  with True show ?thesis by (simp add: build_search_index_def Let_def snapshot_row_def)
next
  case False
  let ?i = "new_search_index kind namespaced"
  have dir: "si_dir ?i = new_ns_dir" "si_kind_tok ?i = normalize_token kind" by (simp_all add: new_search_index_def)
  obtain idx st where r: "apply_ops ?i t caps (group_changes rows) zero_stats = (idx, st)" by (rule prod.exhaust)
  have b: "distinct (keys_of (group_changes rows))" "\<forall>(ns, ops) \<in> set (group_changes rows). batch_ok ?i t new_ns_dir ns ops"
    "\<And>ns ops. (ns, ops) \<in> set (group_changes rows) \<Longrightarrow> length ops \<le> length rows"
    by (rule bootstrap_batch(1), rule bootstrap_batch(2), rule bootstrap_batch(3))
  note a = apply_ops_rows [OF new_index_ok(1) b(1) b(2) [folded dir(1)] r]
  have exh: "ps_slot_exhausted st \<longleftrightarrow> (\<exists>(ns, ops) \<in> set (group_changes rows). \<not> batch_fits ?i t new_ns_dir ns ops)"
    using a(4) by (simp add: dir zero_stats_def)
  have many: "length rows > 2 ^ 24" if x: "ps_slot_exhausted st"
  proof -
    obtain ns ops where o: "(ns, ops) \<in> set (group_changes rows)" "\<not> batch_fits ?i t new_ns_dir ns ops" using x exh by auto
    then have "\<not> length ops \<le> 2 ^ 24" using new_batch_fits by blast
    then show ?thesis using b(3) [OF o(1)] by linarith
  qed
  have rows: "stored_row idx ns name = snapshot_row rows ns name" if ok: "\<not> ps_slot_exhausted st" for ns name
  proof -
    have fits: "batch_fits ?i t new_ns_dir ns ops" if "map_of (group_changes rows) ns = Some ops" for ops
      using map_of_SomeD [OF that] ok exh by auto
    have "stored_row idx ns name = (case map_of (group_changes rows) ns of None \<Rightarrow> None | Some ops \<Rightarrow> rows_after (rev ops) (\<lambda>_. None) name)"
      using fits by (simp add: a(2) rows_next_def dir Let_def dir_find_parts [OF new_dir_ok0(1)] new_dir_ok0(2) split: option.split)
    then show ?thesis by (simp only: grouped_rows)
  qed
  show ?thesis
    using False r a(1) rows many by (simp add: build_search_index_def Let_def dir refused_def)
qed

end
